(* ===== verification/Caelo_Prelude.thy ===== *)
theory Caelo_Prelude
  imports Main "HOL-Library.AList" "HOL-Library.Char_ord" "HOL-Library.List_Lexorder"
begin

text \<open>
  Shared vocabulary of the development: the result type of code that throws or
  returns a failure, JavaScript numbers as far as the source distinguishes them,
  the insertion-ordered Map of JavaScript as an association list (with its
  laws as a locale), decimal printing and reading of naturals, and generic list
  lemmas.  The collection result_simps holds the equations that take a
  guarded computation apart.
\<close>

named_theorems result_simps "equations that take results and guards apart"
named_theorems js_map_simps "laws of JavaScript maps as association lists"

section \<open>Results\<close>

text \<open>A fallible function returns Inl error where the source throws or
  returns its failure, Inr value where it returns.\<close>

type_synonym ('e, 'a) result = "'e + 'a"

definition require :: "bool \<Rightarrow> 'e \<Rightarrow> ('e, 'a) result \<Rightarrow> ('e, 'a) result" where
  "require ok e k = (if ok then k else Inl e)"

definition then_result :: "('e, 'a) result \<Rightarrow> ('a \<Rightarrow> ('e, 'b) result) \<Rightarrow> ('e, 'b) result" where
  "then_result r k = (case r of Inl e \<Rightarrow> Inl e | Inr x \<Rightarrow> k x)"

lemma require_Inr [result_simps]: "(require ok e k = Inr x) = (ok \<and> k = Inr x)"
  by (simp add: require_def)

lemma require_Inl [result_simps]:
  "(require ok e k = Inl err) = ((\<not> ok \<and> err = e) \<or> (ok \<and> k = Inl err))"
  by (auto simp: require_def)

lemma then_result_Inr [result_simps]:
  "(then_result r k = Inr y) = (\<exists>x. r = Inr x \<and> k x = Inr y)"
  by (cases r) (simp_all add: then_result_def)

lemma then_result_Inl [result_simps]:
  "(then_result r k = Inl e) = (r = Inl e \<or> (\<exists>x. r = Inr x \<and> k x = Inl e))"
  by (cases r) (auto simp: then_result_def)

lemma require_simps [simp]: "require True e k = k" "require False e k = Inl e"
  by (simp_all add: require_def)

lemma then_result_simps [simp]: "then_result (Inl e) k = Inl e" "then_result (Inr x) k = k x"
  by (simp_all add: then_result_def)

section \<open>JavaScript numbers\<close>

text \<open>The checks in scope ask Number.isInteger and compare integers.  A
  number is an integer or something else (a fraction, an infinity, NaN).  Integers
  are unbounded here; the source computes in doubles, exact up to 2^53.\<close>

datatype js_number = Whole int | Not_integer

definition is_integer_at_least :: "int \<Rightarrow> js_number \<Rightarrow> bool" where
  "is_integer_at_least lo v = (case v of Whole n \<Rightarrow> lo \<le> n | Not_integer \<Rightarrow> False)"

lemma is_integer_at_leastE:
  assumes "is_integer_at_least lo v"
  obtains n where "v = Whole n" "lo \<le> n"
  using assms by (cases v) (auto simp: is_integer_at_least_def)

lemma is_integer_at_least_Whole [simp]: "is_integer_at_least lo (Whole n) = (lo \<le> n)"
  by (simp add: is_integer_at_least_def)

lemma is_integer_at_least_Not_integer [simp]: "\<not> is_integer_at_least lo Not_integer"
  by (simp add: is_integer_at_least_def)

lemma le_int_div_iff:
  fixes a k x :: int
  assumes "0 < a"
  shows "(k \<le> x div a) = (k * a \<le> x)"
proof
  assume "k \<le> x div a"
  then have "k * a \<le> (x div a) * a" using assms by simp
  also have "\<dots> \<le> x" using assms by (simp add: div_mult_mod_eq minus_mod_eq_div_mult [symmetric])
  finally show "k * a \<le> x" .
next
  assume "k * a \<le> x"
  then have "(k * a) div a \<le> x div a" using assms by (rule zdiv_mono1)
  then show "k \<le> x div a" using assms by simp
qed

section \<open>Decimal digits\<close>

definition is_digit :: "char \<Rightarrow> bool" where
  "is_digit c = (48 \<le> (of_char c :: nat) \<and> (of_char c :: nat) \<le> 57)"

definition digit_value :: "char \<Rightarrow> nat" where
  "digit_value c = of_char c - 48"

definition digit_char :: "nat \<Rightarrow> char" where
  "digit_char d = char_of (48 + d)"

fun decimal :: "nat \<Rightarrow> string" where
  "decimal n = (if n < 10 then [digit_char n] else decimal (n div 10) @ [digit_char (n mod 10)])"

declare decimal.simps [simp del]

definition read_decimal :: "string \<Rightarrow> nat" where
  "read_decimal s = foldl (\<lambda>n c. 10 * n + digit_value c) 0 s"

lemma of_char_digit_char: "d < 10 \<Longrightarrow> (of_char (digit_char d) :: nat) = 48 + d"
  by (simp add: digit_char_def)

lemma digit_char_props [simp]:
  assumes "d < 10"
  shows "is_digit (digit_char d)" "digit_value (digit_char d) = d"
  using assms by (simp_all add: is_digit_def digit_value_def of_char_digit_char)

lemma decimal_digits: "\<forall>c \<in> set (decimal n). is_digit c"
  by (induction n rule: decimal.induct) (subst decimal.simps, auto)

lemma decimal_not_Nil [simp]: "decimal n \<noteq> []"
  by (subst decimal.simps) simp

lemma read_decimal_decimal [simp]: "read_decimal (decimal n) = n"
proof (induction n rule: decimal.induct)
  case (1 n)
  show ?case
  proof (cases "n < 10")
    case True
    then show ?thesis by (simp add: decimal.simps [of n] read_decimal_def)
  next
    case False
    then have "read_decimal (decimal n) = 10 * (n div 10) + n mod 10"
      using 1 by (simp add: decimal.simps [of n] read_decimal_def)
    then show ?thesis by simp
  qed
qed

section \<open>JavaScript maps\<close>

text \<open>A JavaScript Map keeps its entries in insertion order: set on a
  present key keeps its place, on a new key appends.  That is
  AList.update.  The locale names the laws the components rely on.\<close>

definition js_get :: "('k \<times> 'v) list \<Rightarrow> 'k \<Rightarrow> 'v option" where
  "js_get m k = map_of m k"

definition js_set :: "'k \<Rightarrow> 'v \<Rightarrow> ('k \<times> 'v) list \<Rightarrow> ('k \<times> 'v) list" where
  "js_set k v m = AList.update k v m"

definition js_delete :: "'k \<Rightarrow> ('k \<times> 'v) list \<Rightarrow> ('k \<times> 'v) list" where
  "js_delete k m = AList.delete k m"

definition js_map_ok :: "('k \<times> 'v) list \<Rightarrow> bool" where
  "js_map_ok m = distinct (map fst m)"

locale keyed_store =
  fixes lookup :: "'m \<Rightarrow> 'k \<Rightarrow> 'v option"
    and insert :: "'k \<Rightarrow> 'v \<Rightarrow> 'm \<Rightarrow> 'm"
    and remove :: "'k \<Rightarrow> 'm \<Rightarrow> 'm"
    and ok :: "'m \<Rightarrow> bool"
  assumes lookup_insert: "lookup (insert k v m) k' = (if k' = k then Some v else lookup m k')"
    and lookup_remove: "lookup (remove k m) k' = (if k' = k then None else lookup m k')"
    and ok_insert: "ok m \<Longrightarrow> ok (insert k v m)"
    and ok_remove: "ok m \<Longrightarrow> ok (remove k m)"
begin

lemma lookup_insert_same: "lookup (insert k v m) k = Some v"
  by (simp add: lookup_insert)

lemma lookup_insert_other: "k' \<noteq> k \<Longrightarrow> lookup (insert k v m) k' = lookup m k'"
  by (simp add: lookup_insert)

lemma lookup_remove_same: "lookup (remove k m) k = None"
  by (simp add: lookup_remove)

lemma insert_overwrites: "lookup (insert k v (insert k w m)) = lookup (insert k v m)"
  by (rule ext) (simp add: lookup_insert)

lemma insert_commutes:
  "k \<noteq> l \<Longrightarrow> lookup (insert k v (insert l w m)) = lookup (insert l w (insert k v m))"
  by (rule ext) (simp add: lookup_insert)

end

lemma js_map_ok_set: "js_map_ok m \<Longrightarrow> js_map_ok (js_set k v m)"
  by (simp add: js_map_ok_def js_set_def AList.distinct_update)

lemma js_map_ok_delete: "js_map_ok m \<Longrightarrow> js_map_ok (js_delete k m)"
  by (simp add: js_map_ok_def js_delete_def AList.distinct_delete)

interpretation js_map: keyed_store js_get js_set js_delete js_map_ok
proof
  fix k k' :: 'a and v :: 'b and m :: "('a \<times> 'b) list"
  show "js_get (js_set k v m) k' = (if k' = k then Some v else js_get m k')"
    by (simp add: js_get_def js_set_def AList.update_conv')
  show "js_get (js_delete k m) k' = (if k' = k then None else js_get m k')"
    by (simp add: js_get_def js_delete_def AList.delete_conv')
qed (simp_all add: js_map_ok_set js_map_ok_delete)

lemmas js_map_lookups [js_map_simps] = js_map.lookup_insert js_map.lookup_remove

text \<open>A map as its list of entries, oldest first.\<close>

lemma js_get_nil: "js_get [] k = None"
  by (simp add: js_get_def)

lemma js_get_in: "js_map_ok m \<Longrightarrow> js_get m k = Some v \<longleftrightarrow> (k, v) \<in> set m"
  by (simp add: js_get_def js_map_ok_def)

lemma js_get_append: "js_get (m @ n) k = (case js_get m k of Some v \<Rightarrow> Some v | None \<Rightarrow> js_get n k)"
  by (simp add: js_get_def map_add_def split: option.splits)

lemma js_set_new: "js_get m k = None \<Longrightarrow> js_set k v m = m @ [(k, v)]"
  unfolding js_get_def js_set_def by (induction m) (auto split: if_splits)

lemma js_set_delete: "js_set k v (js_delete k m) = js_delete k m @ [(k, v)]"
  by (intro js_set_new) (simp add: js_map_simps)

lemma js_delete_in: "(k', v) \<in> set (js_delete k m) \<longleftrightarrow> k' \<noteq> k \<and> (k', v) \<in> set m"
  by (auto simp: js_delete_def AList.delete_eq)

lemma js_get_filter:
  assumes "js_map_ok m"
  shows "js_get (filter P m) k
    = (case js_get m k of None \<Rightarrow> None | Some v \<Rightarrow> if P (k, v) then Some v else None)"
  using assms unfolding js_get_def js_map_ok_def
proof (induction m)
  case (Cons x m)
  show ?case
  proof (cases "fst x = k")
    case True
    with Cons.prems have "map_of (filter P m) k = None" "map_of m k = None"
      by (auto simp: map_of_eq_None_iff)
    with True show ?thesis by (cases x) simp
  next
    case False
    with Cons show ?thesis by (cases x) simp
  qed
qed simp

section \<open>Lists\<close>

text \<open>The first element a scan with find or an early return takes.\<close>

fun first_some :: "('a \<Rightarrow> 'b option) \<Rightarrow> 'a list \<Rightarrow> 'b option" where
  "first_some f [] = None"
| "first_some f (x # xs) = (case f x of Some y \<Rightarrow> Some y | None \<Rightarrow> first_some f xs)"

lemma first_some_None [simp]: "(first_some f xs = None) = (\<forall>x \<in> set xs. f x = None)"
  by (induction xs) (auto split: option.splits)

lemma first_some_SomeD:
  "first_some f xs = Some y \<Longrightarrow> \<exists>us x vs. xs = us @ x # vs \<and> f x = Some y \<and> (\<forall>u \<in> set us. f u = None)"
proof (induction xs)
  case (Cons x xs)
  show ?case
  proof (cases "f x")
    case None
    with Cons obtain us z vs where "xs = us @ z # vs" "f z = Some y" "\<forall>u \<in> set us. f u = None"
      by auto
    with None have "x # xs = (x # us) @ z # vs \<and> f z = Some y \<and> (\<forall>u \<in> set (x # us). f u = None)"
      by simp
    then show ?thesis by blast
  next
    case (Some w)
    with Cons.prems have "x # xs = [] @ x # xs \<and> f x = Some y \<and> (\<forall>u \<in> set []. f u = None)"
      by simp
    then show ?thesis by blast
  qed
qed simp

text \<open>The source's Set.add on a set kept as the list of its elements in insertion order.\<close>

definition js_add :: "'a \<Rightarrow> 'a list \<Rightarrow> 'a list" where
  "js_add x xs = (if x \<in> set xs then xs else xs @ [x])"

lemma set_js_add [simp]: "set (js_add x xs) = insert x (set xs)"
  by (auto simp: js_add_def)

lemma set_fold_js_add [simp]: "set (fold js_add xs ys) = set xs \<union> set ys"
  by (induction xs arbitrary: ys) auto

end
