(* ===== verification/Pool_Budget.thy ===== *)
theory Pool_Budget
  imports Caelo_Prelude
begin

text \<open>
  The connection budget of an install (packages/shared/src/pool-budget.ts): how
  max_connections is split across the admin instances, the gateways, the static
  generator and the jobs, and the pool caps the database adapter accepts
  (packages/query-api/src/adapter.ts).  The lemmas show that a budget accounts for
  every connection, that no mix of running instances within the limits opens more
  connections than the server has, and that the numbers the error messages advise
  are exactly the ones that work.
\<close>

section \<open>Constants\<close>

definition DB_POOL_MAX_ENV :: string where
  "DB_POOL_MAX_ENV = ''CAELO_DB_POOL_MAX''"
definition DB_PUBLIC_POOL_MAX_ENV :: string where
  "DB_PUBLIC_POOL_MAX_ENV = ''CAELO_DB_PUBLIC_POOL_MAX''"
definition MIN_POOL_MAX :: int where
  "MIN_POOL_MAX = 2"
definition ADMIN_POOL_FLOOR :: int where
  "ADMIN_POOL_FLOOR = 4"
definition ADMIN_PUBLIC_POOL_MAX :: int where
  "ADMIN_PUBLIC_POOL_MAX = 4"
definition ADMIN_PUBLIC_STAGING_POOL_MAX :: int where
  "ADMIN_PUBLIC_STAGING_POOL_MAX = 2"
definition GATEWAY_POOL_MAX :: int where
  "GATEWAY_POOL_MAX = 2"
definition GENERATOR_POOL_MAX :: int where
  "GENERATOR_POOL_MAX = 2"
definition LISTEN_CONNECTIONS_PER_ADMIN_INSTANCE :: int where
  "LISTEN_CONNECTIONS_PER_ADMIN_INSTANCE = 1"
definition LISTEN_CONNECTIONS_PER_GATEWAY_INSTANCE :: int where
  "LISTEN_CONNECTIONS_PER_GATEWAY_INSTANCE = 1"
definition GATEWAY_ROLE_CONNECTION_LIMIT :: int where
  "GATEWAY_ROLE_CONNECTION_LIMIT = 30"
definition STAGING_GATEWAY_ROLE_CONNECTION_LIMIT :: int where
  "STAGING_GATEWAY_ROLE_CONNECTION_LIMIT = 30"

lemmas budget_constants =
  MIN_POOL_MAX_def ADMIN_POOL_FLOOR_def ADMIN_PUBLIC_POOL_MAX_def
  ADMIN_PUBLIC_STAGING_POOL_MAX_def GATEWAY_POOL_MAX_def GENERATOR_POOL_MAX_def
  LISTEN_CONNECTIONS_PER_ADMIN_INSTANCE_def LISTEN_CONNECTIONS_PER_GATEWAY_INSTANCE_def
  GATEWAY_ROLE_CONNECTION_LIMIT_def STAGING_GATEWAY_ROLE_CONNECTION_LIMIT_def

section \<open>Input, output and errors\<close>

record PoolBudgetInput =
  maxConnections :: js_number
  adminMaxInstances :: js_number
  gatewayMaxInstances :: js_number
  stagingGatewayMaxInstances :: js_number
  concurrentBuilds :: js_number
  maintenanceReserve :: js_number
  migrationsReserve :: js_number
  jobsReserve :: js_number

datatype PoolBudgetReserveName =
    Maintenance | Migrations | Jobs | Generator | Gateway | Listen | Gateway_Listen
  | Admin_Public | Staging_Gateway | Admin_Public_Staging

record PoolBudgetReserve =
  reserve_name :: PoolBudgetReserveName
  connections :: int

record PoolBudget =
  adminPoolMax :: int
  adminPublicPoolMax :: int
  gatewayPoolMax :: int
  adminPublicStagingPoolMax :: int
  generatorPoolMax :: int
  reserves :: "PoolBudgetReserve list"
  unassigned :: int

text \<open>The four throws, with the numbers their messages name: the field and its
  minimum; instances, connections and the advised instance limit of a gateway login;
  the reserves and the connections needed when the server is too small.\<close>

datatype budget_error =
    Not_an_integer_at_least string int
  | Gateway_login_limit int int int
  | Staging_gateway_login_limit int int int
  | Server_too_small int "PoolBudgetReserve list" int

definition positiveInteger :: "js_number \<Rightarrow> string \<Rightarrow> int \<Rightarrow> (budget_error, int) result" where
  "positiveInteger value name lo =
     (case value of
        Whole n \<Rightarrow> if n < lo then Inl (Not_an_integer_at_least name lo) else Inr n
      | Not_integer \<Rightarrow> Inl (Not_an_integer_at_least name lo))"

section \<open>The computation\<close>

definition reserve :: "PoolBudgetReserveName \<Rightarrow> int \<Rightarrow> PoolBudgetReserve" where
  "reserve n c = \<lparr>reserve_name = n, connections = c\<rparr>"

definition budget_reserves :: "int \<Rightarrow> int \<Rightarrow> int \<Rightarrow> int \<Rightarrow> int \<Rightarrow> int \<Rightarrow> int \<Rightarrow> PoolBudgetReserve list" where
  "budget_reserves admins gateways stagings builds maint migr jobs =
     [reserve Maintenance maint,
      reserve Migrations migr,
      reserve Jobs jobs,
      reserve Generator (builds * 2 * GENERATOR_POOL_MAX),
      reserve Gateway (gateways * GATEWAY_POOL_MAX),
      reserve Listen (admins * LISTEN_CONNECTIONS_PER_ADMIN_INSTANCE),
      reserve Gateway_Listen (gateways * LISTEN_CONNECTIONS_PER_GATEWAY_INSTANCE),
      reserve Admin_Public (admins * ADMIN_PUBLIC_POOL_MAX),
      reserve Staging_Gateway
        (stagings * (GATEWAY_POOL_MAX + LISTEN_CONNECTIONS_PER_GATEWAY_INSTANCE)),
      reserve Admin_Public_Staging (admins * ADMIN_PUBLIC_STAGING_POOL_MAX)]"

definition reserved_total :: "PoolBudgetReserve list \<Rightarrow> int" where
  "reserved_total rs = foldl (\<lambda>total r. total + connections r) 0 rs"

definition split_for_admin :: "int \<Rightarrow> int \<Rightarrow> PoolBudgetReserve list \<Rightarrow> (budget_error, PoolBudget) result" where
  "split_for_admin maxConn admins rs =
     (let reserved = reserved_total rs;
          forAdmin = maxConn - reserved;
          pool = forAdmin div admins
      in if pool < ADMIN_POOL_FLOOR
         then Inl (Server_too_small maxConn rs (reserved + ADMIN_POOL_FLOOR * admins))
         else Inr \<lparr>adminPoolMax = pool,
                   adminPublicPoolMax = ADMIN_PUBLIC_POOL_MAX,
                   gatewayPoolMax = GATEWAY_POOL_MAX,
                   adminPublicStagingPoolMax = ADMIN_PUBLIC_STAGING_POOL_MAX,
                   generatorPoolMax = GENERATOR_POOL_MAX,
                   reserves = rs,
                   unassigned = forAdmin - pool * admins\<rparr>)"

definition instance_limit :: "int \<Rightarrow> int" where
  "instance_limit role_limit =
     role_limit div (GATEWAY_POOL_MAX + LISTEN_CONNECTIONS_PER_GATEWAY_INSTANCE)"

definition computePoolBudget :: "PoolBudgetInput \<Rightarrow> (budget_error, PoolBudget) result" where
  "computePoolBudget input =
     then_result (positiveInteger (maxConnections input) ''maxConnections'' 1) (\<lambda>maxConn.
     then_result (positiveInteger (adminMaxInstances input) ''adminMaxInstances'' 1) (\<lambda>admins.
     then_result (positiveInteger (gatewayMaxInstances input) ''gatewayMaxInstances'' 0) (\<lambda>gateways.
     then_result (positiveInteger (stagingGatewayMaxInstances input) ''stagingGatewayMaxInstances'' 0) (\<lambda>stagings.
     then_result (positiveInteger (concurrentBuilds input) ''concurrentBuilds'' 0) (\<lambda>builds.
     then_result (positiveInteger (maintenanceReserve input) ''maintenanceReserve'' 0) (\<lambda>maint.
     then_result (positiveInteger (migrationsReserve input) ''migrationsReserve'' 0) (\<lambda>migr.
     then_result (positiveInteger (jobsReserve input) ''jobsReserve'' 0) (\<lambda>jobs.
     (let perGateway = GATEWAY_POOL_MAX + LISTEN_CONNECTIONS_PER_GATEWAY_INSTANCE in
      if gateways * perGateway > GATEWAY_ROLE_CONNECTION_LIMIT
      then Inl (Gateway_login_limit gateways (gateways * perGateway)
                  (instance_limit GATEWAY_ROLE_CONNECTION_LIMIT))
      else if stagings * perGateway > STAGING_GATEWAY_ROLE_CONNECTION_LIMIT
      then Inl (Staging_gateway_login_limit stagings (stagings * perGateway)
                  (instance_limit STAGING_GATEWAY_ROLE_CONNECTION_LIMIT))
      else split_for_admin maxConn admins
             (budget_reserves admins gateways stagings builds maint migr jobs))))))))))"

section \<open>The environment and the adapter's caps\<close>

datatype PoolBudgetService = Admin_service | Gateway_service

definition string_of_int :: "int \<Rightarrow> string" where
  "string_of_int n = (if n < 0 then CHR ''-'' # decimal (nat (- n)) else decimal (nat n))"

definition poolBudgetEnv :: "PoolBudget \<Rightarrow> PoolBudgetService \<Rightarrow> (string \<times> string) list" where
  "poolBudgetEnv budget service =
     (case service of
        Gateway_service \<Rightarrow> [(DB_PUBLIC_POOL_MAX_ENV, string_of_int (gatewayPoolMax budget))]
      | Admin_service \<Rightarrow> [(DB_POOL_MAX_ENV, string_of_int (adminPoolMax budget)),
                         (DB_PUBLIC_POOL_MAX_ENV, string_of_int (adminPublicPoolMax budget))])"

text \<open>The Number conversion of a non-empty string: plain decimal digits are read here,
  the remaining literal forms (signs, exponents, hexadecimal, white space) are the
  argument other.\<close>

definition js_Number :: "(string \<Rightarrow> js_number) \<Rightarrow> string \<Rightarrow> js_number" where
  "js_Number other s =
     (if s \<noteq> [] \<and> list_all is_digit s then Whole (int (read_decimal s)) else other s)"

datatype pool_max_error = Pool_max_too_small string js_number

definition validatePoolMax :: "js_number \<Rightarrow> string \<Rightarrow> (pool_max_error, js_number) result" where
  "validatePoolMax value source =
     (if is_integer_at_least MIN_POOL_MAX value then Inr value
      else Inl (Pool_max_too_small source value))"

definition resolvePoolMax ::
  "(string \<Rightarrow> js_number) \<Rightarrow> (string \<Rightarrow> string option) \<Rightarrow> js_number option
   \<Rightarrow> (pool_max_error, js_number option) result" where
  "resolvePoolMax other env explicit =
     (case explicit of
        Some v \<Rightarrow> then_result (validatePoolMax v ''poolMax option'') (\<lambda>x. Inr (Some x))
      | None \<Rightarrow>
          (case env DB_POOL_MAX_ENV of
             None \<Rightarrow> Inr None
           | Some raw \<Rightarrow>
               if raw = [] then Inr None
               else then_result (validatePoolMax (js_Number other raw) DB_POOL_MAX_ENV)
                      (\<lambda>x. Inr (Some x))))"

definition resolvePublicPoolMax ::
  "(string \<Rightarrow> js_number) \<Rightarrow> (string \<Rightarrow> string option) \<Rightarrow> js_number option \<Rightarrow> js_number option
   \<Rightarrow> (pool_max_error, js_number option) result" where
  "resolvePublicPoolMax other env explicitPublic explicitAll =
     (case explicitPublic of
        Some v \<Rightarrow> then_result (validatePoolMax v ''publicPoolMax option'') (\<lambda>x. Inr (Some x))
      | None \<Rightarrow>
          (case env DB_PUBLIC_POOL_MAX_ENV of
             None \<Rightarrow> resolvePoolMax other env explicitAll
           | Some raw \<Rightarrow>
               if raw = [] then resolvePoolMax other env explicitAll
               else then_result (validatePoolMax (js_Number other raw) DB_PUBLIC_POOL_MAX_ENV)
                      (\<lambda>x. Inr (Some x))))"

section \<open>Taking a computed budget apart\<close>

definition whole_input :: "PoolBudgetInput \<Rightarrow> int \<Rightarrow> int \<Rightarrow> int \<Rightarrow> int \<Rightarrow> int \<Rightarrow> int \<Rightarrow> int \<Rightarrow> int \<Rightarrow> bool" where
  "whole_input input maxConn admins gateways stagings builds maint migr jobs =
     (maxConnections input = Whole maxConn \<and> 1 \<le> maxConn
      \<and> adminMaxInstances input = Whole admins \<and> 1 \<le> admins
      \<and> gatewayMaxInstances input = Whole gateways \<and> 0 \<le> gateways
      \<and> stagingGatewayMaxInstances input = Whole stagings \<and> 0 \<le> stagings
      \<and> concurrentBuilds input = Whole builds \<and> 0 \<le> builds
      \<and> maintenanceReserve input = Whole maint \<and> 0 \<le> maint
      \<and> migrationsReserve input = Whole migr \<and> 0 \<le> migr
      \<and> jobsReserve input = Whole jobs \<and> 0 \<le> jobs)"

definition argument_error :: "(budget_error, 'a) result \<Rightarrow> bool" where
  "argument_error r = (case r of Inl (Not_an_integer_at_least _ _) \<Rightarrow> True | _ \<Rightarrow> False)"

lemma positiveInteger_whole: "lo \<le> k \<Longrightarrow> positiveInteger (Whole k) name lo = Inr k"
  by (simp add: positiveInteger_def)

lemma positive_stepE:
  assumes "\<not> argument_error (then_result (positiveInteger v name lo) f)"
  obtains k where "v = Whole k" "lo \<le> k" "\<not> argument_error (f k)"
  using assms by (cases v) (auto simp: positiveInteger_def argument_error_def split: if_splits)

lemma computePoolBudget_whole:
  assumes "whole_input input maxConn admins gateways stagings builds maint migr jobs"
  shows "computePoolBudget input =
    (if gateways * 3 > 30 then Inl (Gateway_login_limit gateways (gateways * 3) 10)
     else if stagings * 3 > 30 then Inl (Staging_gateway_login_limit stagings (stagings * 3) 10)
     else split_for_admin maxConn admins
            (budget_reserves admins gateways stagings builds maint migr jobs))"
  using assms
  by (simp add: computePoolBudget_def whole_input_def positiveInteger_whole Let_def
      instance_limit_def budget_constants)

lemma whole_inputE:
  assumes "\<not> argument_error (computePoolBudget input)"
  obtains maxConn admins gateways stagings builds maint migr jobs
  where "whole_input input maxConn admins gateways stagings builds maint migr jobs"
  using assms unfolding computePoolBudget_def
  by (elim positive_stepE) (simp add: whole_input_def)

lemma reserved_total_reserves:
  "reserved_total (budget_reserves admins gateways stagings builds maint migr jobs) =
     maint + migr + jobs + builds * 4 + gateways * 3 + admins * 7 + stagings * 3"
  by (simp add: reserved_total_def budget_reserves_def reserve_def budget_constants algebra_simps)

lemma split_for_admin_Inr:
  "(split_for_admin maxConn admins rs = Inr b) =
     (4 \<le> (maxConn - reserved_total rs) div admins
      \<and> b = \<lparr>adminPoolMax = (maxConn - reserved_total rs) div admins,
             adminPublicPoolMax = 4, gatewayPoolMax = 2, adminPublicStagingPoolMax = 2,
             generatorPoolMax = 2, reserves = rs,
             unassigned = (maxConn - reserved_total rs) mod admins\<rparr>)"
  by (auto simp: split_for_admin_def Let_def budget_constants minus_div_mult_eq_mod)

lemma budget_InrE:
  assumes "computePoolBudget input = Inr b"
  obtains maxConn admins gateways stagings builds maint migr jobs
  where "whole_input input maxConn admins gateways stagings builds maint migr jobs"
    "gateways \<le> 10" "stagings \<le> 10"
    "split_for_admin maxConn admins
       (budget_reserves admins gateways stagings builds maint migr jobs) = Inr b"
proof -
  have "\<not> argument_error (computePoolBudget input)"
    by (simp add: assms argument_error_def)
  then obtain maxConn admins gateways stagings builds maint migr jobs
    where w: "whole_input input maxConn admins gateways stagings builds maint migr jobs"
    by (rule whole_inputE)
  show thesis
    by (rule that [OF w]) (use computePoolBudget_whole [OF w] assms in \<open>auto split: if_splits\<close>)
qed

text \<open>What a running install holds open: admins admin instances with their three pools
  and the LISTEN connection, gateways of both kinds with their pool and LISTEN
  connection, two generator pools per build, and the fixed consumers.\<close>

definition open_connections ::
  "PoolBudget \<Rightarrow> int \<Rightarrow> int \<Rightarrow> int \<Rightarrow> int \<Rightarrow> int \<Rightarrow> int" where
  "open_connections b admins gateways stagings builds others =
     admins * (adminPoolMax b + adminPublicPoolMax b + adminPublicStagingPoolMax b
               + LISTEN_CONNECTIONS_PER_ADMIN_INSTANCE)
     + (gateways + stagings) * (gatewayPoolMax b + LISTEN_CONNECTIONS_PER_GATEWAY_INSTANCE)
     + builds * (2 * generatorPoolMax b) + others"

lemma open_connections_mono:
  assumes "a \<le> a'" "g \<le> g'" "s \<le> s'" "n \<le> n'" "m \<le> m'" "0 \<le> adminPoolMax b"
    "adminPublicPoolMax b = 4" "gatewayPoolMax b = 2" "adminPublicStagingPoolMax b = 2"
    "generatorPoolMax b = 2"
  shows "open_connections b a g s n m \<le> open_connections b a' g' s' n' m'"
proof -
  have flat: "open_connections b i j k l o' = i * (adminPoolMax b + 7) + (j + k) * 3 + l * 4 + o'"
    for i j k l o'
    using assms by (simp add: open_connections_def budget_constants algebra_simps)
  show ?thesis
    unfolding flat using assms(1-6) by (intro add_mono mult_right_mono) simp_all
qed

lemma open_connections_at_limits:
  assumes "whole_input input maxConn admins gateways stagings builds maint migr jobs"
    "split_for_admin maxConn admins
       (budget_reserves admins gateways stagings builds maint migr jobs) = Inr b"
  shows "open_connections b admins gateways stagings builds (maint + migr + jobs)
           + unassigned b = maxConn"
proof -
  let ?rest = "maxConn - reserved_total (budget_reserves admins gateways stagings builds maint migr jobs)"
  have "admins * (?rest div admins) + ?rest mod admins = ?rest"
    by simp
  then show ?thesis
    using assms(2)
    by (simp add: split_for_admin_Inr open_connections_def budget_constants
        reserved_total_reserves algebra_simps)
qed

section \<open>Properties of the budget\<close>

text \<open>C35. A budget the computation returns never over-subscribes the server: as long as
  the numbers of running admins, gateways, staging gateways and builds stay within the
  limits of the input and the other consumers within their reserves, all the pools and
  LISTEN connections together open at most max_connections connections; at the limits
  exactly the unassigned remainder, smaller than the number of admin instances, is left.\<close>

theorem budget_never_oversubscribes:
  assumes "computePoolBudget input = Inr b"
    and "adminMaxInstances input = Whole A" "a \<le> A"
    and "gatewayMaxInstances input = Whole G" "g \<le> G"
    and "stagingGatewayMaxInstances input = Whole S" "s \<le> S"
    and "concurrentBuilds input = Whole N" "n \<le> N"
    and "maintenanceReserve input = Whole x" "migrationsReserve input = Whole y"
    and "jobsReserve input = Whole z" "others \<le> x + y + z"
    and "maxConnections input = Whole M"
  shows "open_connections b a g s n others \<le> M
    \<and> open_connections b A G S N (x + y + z) + unassigned b = M
    \<and> 0 \<le> unassigned b \<and> unassigned b < A"
proof -
  obtain maxConn admins gateways stagings builds maint migr jobs
    where w: "whole_input input maxConn admins gateways stagings builds maint migr jobs"
      and sp: "split_for_admin maxConn admins
                 (budget_reserves admins gateways stagings builds maint migr jobs) = Inr b"
    using assms(1) by (rule budget_InrE)
  then have eqs: "maxConn = M" "admins = A" "gateways = G" "stagings = S" "builds = N"
      "maint = x" "migr = y" "jobs = z" and A: "1 \<le> A"
    using assms by (auto simp: whole_input_def)
  have total: "open_connections b A G S N (x + y + z) + unassigned b = M"
    using open_connections_at_limits [OF w sp] by (simp add: eqs)
  have rest: "0 \<le> unassigned b" "unassigned b < A" "4 \<le> adminPoolMax b"
    using sp A by (auto simp: split_for_admin_Inr eqs)
  have "open_connections b a g s n others \<le> open_connections b A G S N (x + y + z)"
    using assms sp rest by (intro open_connections_mono) (auto simp: split_for_admin_Inr)
  then show ?thesis
    using total rest by linarith
qed

definition example_input :: PoolBudgetInput where
  "example_input = \<lparr>maxConnections = Whole 100, adminMaxInstances = Whole 4,
     gatewayMaxInstances = Whole 10, stagingGatewayMaxInstances = Whole 1,
     concurrentBuilds = Whole 2, maintenanceReserve = Whole 5, migrationsReserve = Whole 2,
     jobsReserve = Whole 4\<rparr>"

lemmas budget_evaluation =
  computePoolBudget_def positiveInteger_def Let_def budget_constants split_for_admin_def
  budget_reserves_def reserve_def reserved_total_def instance_limit_def

lemma example_budget:
  "computePoolBudget example_input = Inr \<lparr>adminPoolMax = 5, adminPublicPoolMax = 4,
     gatewayPoolMax = 2, adminPublicStagingPoolMax = 2, generatorPoolMax = 2,
     reserves = budget_reserves 4 10 1 2 5 2 4, unassigned = 0\<rparr>"
  by (simp add: budget_evaluation example_input_def)

lemma budget_never_oversubscribes_witness:
  "\<exists>b. computePoolBudget example_input = Inr b \<and> open_connections b 3 10 0 2 11 \<le> 100"
  using budget_never_oversubscribes
    [OF example_budget, where A = 4 and a = 3 and G = 10 and g = 10 and S = 1 and s = 0
      and N = 2 and n = 2 and x = 5 and y = 2 and z = 4 and others = 11 and M = 100]
  by (simp add: example_budget) (simp add: example_input_def)

lemma split_accepts:
  assumes "1 \<le> admins"
  shows "(\<exists>b. split_for_admin M admins rs = Inr b) = (reserved_total rs + 4 * admins \<le> M)"
proof -
  have "(4 \<le> (M - reserved_total rs) div admins) = (4 * admins \<le> M - reserved_total rs)"
    using assms by (simp add: le_int_div_iff mult.commute)
  then show ?thesis
    by (auto simp: split_for_admin_Inr)
qed

text \<open>The advice of the refusal is exact.  When the computation refuses because the
  server is too small and advises to raise max_connections to needed, the same input with
  M' connections is accepted for precisely the M' that are at least needed.\<close>

theorem too_small_advice_is_exact:
  assumes "computePoolBudget input = Inl (Server_too_small M rs needed)"
  shows "M < needed
    \<and> (\<forall>M' \<ge> 1. (\<exists>b. computePoolBudget (input\<lparr>maxConnections := Whole M'\<rparr>) = Inr b) = (needed \<le> M'))"
proof -
  have "\<not> argument_error (computePoolBudget input)"
    by (simp add: assms argument_error_def)
  then obtain maxConn admins gateways stagings builds maint migr jobs
    where w: "whole_input input maxConn admins gateways stagings builds maint migr jobs"
    by (rule whole_inputE)
  let ?rs = "budget_reserves admins gateways stagings builds maint migr jobs"
  from computePoolBudget_whole [OF w] assms have lim: "gateways * 3 \<le> 30" "stagings * 3 \<le> 30"
    and sp: "split_for_admin maxConn admins ?rs = Inl (Server_too_small M rs needed)"
    by (auto split: if_splits)
  have A: "1 \<le> admins" using w by (simp add: whole_input_def)
  have needed: "needed = reserved_total ?rs + 4 * admins" "M = maxConn"
    using sp by (auto simp: split_for_admin_def Let_def budget_constants split: if_splits)
  have "\<nexists>b. split_for_admin maxConn admins ?rs = Inr b"
    using sp by simp
  then have "M < needed"
    using split_accepts [OF A, of maxConn ?rs] needed by simp
  moreover have "(\<exists>b. computePoolBudget (input\<lparr>maxConnections := Whole M'\<rparr>) = Inr b) = (needed \<le> M')"
    if "1 \<le> M'" for M'
  proof -
    have "whole_input (input\<lparr>maxConnections := Whole M'\<rparr>) M' admins gateways stagings builds maint migr jobs"
      using w that by (simp add: whole_input_def)
    from computePoolBudget_whole [OF this] lim show ?thesis
      using split_accepts [OF A, of M' ?rs] needed by simp
  qed
  ultimately show ?thesis by blast
qed

definition small_input :: PoolBudgetInput where
  "small_input = example_input\<lparr>maxConnections := Whole 90\<rparr>"

lemma small_budget:
  "computePoolBudget small_input =
     Inl (Server_too_small 90 (budget_reserves 4 10 1 2 5 2 4) 96)"
  by (simp add: budget_evaluation small_input_def example_input_def)

lemma too_small_advice_is_exact_witness:
  "\<exists>b. computePoolBudget (small_input\<lparr>maxConnections := Whole 96\<rparr>) = Inr b"
  using too_small_advice_is_exact [OF small_budget] by simp

section \<open>The environment the stacks set\<close>

lemma read_string_of_int:
  assumes "0 \<le> n"
  shows "js_Number other (string_of_int n) = Whole n"
  using assms decimal_digits [of "nat n"]
  by (simp add: js_Number_def string_of_int_def list_all_iff)

lemma env_names_differ: "DB_POOL_MAX_ENV \<noteq> DB_PUBLIC_POOL_MAX_ENV"
  by (simp add: DB_POOL_MAX_ENV_def DB_PUBLIC_POOL_MAX_ENV_def)

lemma string_of_int_not_Nil [simp]: "string_of_int n \<noteq> []"
  by (simp add: string_of_int_def)

text \<open>The environment written for a service is read back as the budget: an adapter
  that starts with it and no options caps its pools at exactly the sizes the budget
  computed, and never refuses them as too small.  A gateway has no admin pool size.\<close>

theorem budget_env_roundtrip:
  assumes "computePoolBudget input = Inr b"
  shows "resolvePoolMax other (map_of (poolBudgetEnv b Admin_service)) None
           = Inr (Some (Whole (adminPoolMax b)))
    \<and> resolvePublicPoolMax other (map_of (poolBudgetEnv b Admin_service)) None None
           = Inr (Some (Whole (adminPublicPoolMax b)))
    \<and> resolvePublicPoolMax other (map_of (poolBudgetEnv b Gateway_service)) None None
           = Inr (Some (Whole (gatewayPoolMax b)))
    \<and> resolvePoolMax other (map_of (poolBudgetEnv b Gateway_service)) None = Inr None"
proof -
  obtain maxConn admins gateways stagings builds maint migr jobs
    where sp: "split_for_admin maxConn admins
                 (budget_reserves admins gateways stagings builds maint migr jobs) = Inr b"
    using assms(1) by (rule budget_InrE)
  then have sizes: "4 \<le> adminPoolMax b" "adminPublicPoolMax b = 4" "gatewayPoolMax b = 2"
    by (auto simp: split_for_admin_Inr)
  then show ?thesis
    using env_names_differ env_names_differ [symmetric]
    by (simp add: resolvePoolMax_def resolvePublicPoolMax_def poolBudgetEnv_def
        validatePoolMax_def read_string_of_int MIN_POOL_MAX_def)
qed

lemma budget_env_roundtrip_witness:
  "\<exists>b. computePoolBudget example_input = Inr b
     \<and> resolvePoolMax (\<lambda>_. Not_integer) (map_of (poolBudgetEnv b Admin_service)) None
         = Inr (Some (Whole 5))"
  using budget_env_roundtrip [OF example_budget] by (simp add: example_budget)

end
