(* ===== verification/Versions.thy ===== *)
theory Versions
  imports Caelo_Prelude
begin

text \<open>
  Release versions: parsing and comparing them (packages/shared/src/version.ts) and
  classifying the step from the installed release to another
  (packages/shared/src/platform-updates.ts).  Numbers are naturals (the source reads
  them as doubles, exact for every release number in use).  Both comparisons are
  interpreted as a strict order, from which it follows that a chain of upgrades never
  meets a release twice.
\<close>

section \<open>Parsing\<close>

record CaeloVersion =
  major :: nat
  minor :: nat
  patch :: nat
  preRelease :: "string option"

definition read_number :: "string \<Rightarrow> (nat \<times> string) option" where
  "read_number s =
     (let d = takeWhile is_digit s
      in if d = [] then None else Some (read_decimal d, dropWhile is_digit s))"

definition read_char :: "char \<Rightarrow> string \<Rightarrow> string option" where
  "read_char c s = (case s of [] \<Rightarrow> None | x # r \<Rightarrow> if x = c then Some r else None)"

definition read_number_dot :: "string \<Rightarrow> (nat \<times> string) option" where
  "read_number_dot s =
     (case read_number s of
        None \<Rightarrow> None
      | Some (n, r) \<Rightarrow> map_option (\<lambda>r'. (n, r')) (read_char (CHR ''.'') r))"

text \<open>The pattern of three numbers and an optional tag, whose characters the argument
  decides; both version patterns of the source are instances of it.\<close>

definition read_tag :: "(char \<Rightarrow> bool) \<Rightarrow> string \<Rightarrow> string option option" where
  "read_tag ok s =
     (case s of
        [] \<Rightarrow> Some None
      | c # r \<Rightarrow> if c = CHR ''-'' \<and> r \<noteq> [] \<and> list_all ok r then Some (Some r) else None)"

definition match_version :: "(char \<Rightarrow> bool) \<Rightarrow> string \<Rightarrow> CaeloVersion option" where
  "match_version ok s =
     (case read_number_dot s of
        None \<Rightarrow> None
      | Some (a, r1) \<Rightarrow>
          (case read_number_dot r1 of
             None \<Rightarrow> None
           | Some (b, r2) \<Rightarrow>
               (case read_number r2 of
                  None \<Rightarrow> None
                | Some (c, r3) \<Rightarrow>
                    map_option (\<lambda>p. \<lparr>major = a, minor = b, patch = c, preRelease = p\<rparr>)
                      (read_tag ok r3))))"

definition not_line_end :: "char \<Rightarrow> bool" where
  "not_line_end c = (of_char c \<notin> {10 :: nat, 13})"

definition is_tag_char :: "char \<Rightarrow> bool" where
  "is_tag_char c =
     (let n = (of_char c :: nat)
      in is_digit c \<or> (65 \<le> n \<and> n \<le> 90) \<or> (97 \<le> n \<and> n \<le> 122) \<or> n = 46 \<or> n = 45)"

datatype version_error = Invalid_version string

definition parseVersion :: "string \<Rightarrow> (version_error, CaeloVersion) result" where
  "parseVersion raw =
     (case match_version not_line_end raw of
        None \<Rightarrow> Inl (Invalid_version raw)
      | Some v \<Rightarrow> Inr v)"

definition semver :: "string \<Rightarrow> CaeloVersion option" where
  "semver s = match_version is_tag_char s"

section \<open>Which release is newer\<close>

definition strip_v :: "string \<Rightarrow> string" where
  "strip_v s = (case s of [] \<Rightarrow> [] | c # r \<Rightarrow> if c = CHR ''v'' then r else s)"

definition newer_version :: "CaeloVersion \<Rightarrow> CaeloVersion \<Rightarrow> bool" where
  "newer_version a b =
     (if major a \<noteq> major b then major a > major b
      else if minor a \<noteq> minor b then minor a > minor b
      else if patch a \<noteq> patch b then patch a > patch b
      else (case (preRelease a, preRelease b) of
              (Some p, None) \<Rightarrow> False
            | (None, Some q) \<Rightarrow> True
            | (Some p, Some q) \<Rightarrow> q < p
            | (None, None) \<Rightarrow> False))"

definition isNewerVersion :: "string \<Rightarrow> string \<Rightarrow> bool" where
  "isNewerVersion latest current =
     (case (parseVersion (strip_v latest), parseVersion (strip_v current)) of
        (Inr a, Inr b) \<Rightarrow> newer_version a b
      | _ \<Rightarrow> False)"

section \<open>The kind of a step\<close>

datatype UpdateKind = Major | Minor | Patch

fun split_dots :: "string \<Rightarrow> string list" where
  "split_dots [] = [[]]"
| "split_dots (c # s) =
     (if c = CHR ''.'' then [] # split_dots s
      else (case split_dots s of [] \<Rightarrow> [[c]] | w # ws \<Rightarrow> (c # w) # ws))"

definition all_digits :: "string \<Rightarrow> bool" where
  "all_digits s = (s \<noteq> [] \<and> list_all is_digit s)"

definition compare_identifier :: "string \<Rightarrow> string \<Rightarrow> int" where
  "compare_identifier p q =
     (let pn = all_digits p; qn = all_digits q
      in if pn \<and> qn \<and> read_decimal p \<noteq> read_decimal q
         then int (read_decimal p) - int (read_decimal q)
         else if pn \<noteq> qn then (if pn then - 1 else 1)
         else if p \<noteq> q then (if p < q then - 1 else 1)
         else 0)"

fun compare_identifiers :: "string list \<Rightarrow> string list \<Rightarrow> int" where
  "compare_identifiers [] [] = 0"
| "compare_identifiers [] (q # qs) = - 1"
| "compare_identifiers (p # ps) [] = 1"
| "compare_identifiers (p # ps) (q # qs) =
     (if compare_identifier p q \<noteq> 0 then compare_identifier p q else compare_identifiers ps qs)"

definition comparePrerelease :: "string \<Rightarrow> string \<Rightarrow> int" where
  "comparePrerelease x y = compare_identifiers (split_dots x) (split_dots y)"

definition version_step :: "CaeloVersion \<Rightarrow> CaeloVersion \<Rightarrow> UpdateKind option" where
  "version_step a b =
     (if major b \<noteq> major a then (if major b > major a then Some Major else None)
      else if minor b \<noteq> minor a then (if minor b > minor a then Some Minor else None)
      else if patch b \<noteq> patch a then (if patch b > patch a then Some Patch else None)
      else (case preRelease a of
              None \<Rightarrow> None
            | Some p \<Rightarrow>
                (case preRelease b of
                   None \<Rightarrow> Some Patch
                 | Some q \<Rightarrow> if comparePrerelease q p > 0 then Some Patch else None)))"

definition updateKind :: "string \<Rightarrow> string \<Rightarrow> UpdateKind option" where
  "updateKind current target =
     (case (semver current, semver target) of
        (Some a, Some b) \<Rightarrow> version_step a b
      | _ \<Rightarrow> None)"

definition isStable :: "string \<Rightarrow> bool" where
  "isStable version = (CHR ''-'' \<notin> set version)"

section \<open>Pre-release precedence is a linear order\<close>

lemma compare_identifier_eq_0: "(compare_identifier p q = 0) = (p = q)"
  by (auto simp: compare_identifier_def Let_def)

lemma compare_identifier_swap: "(compare_identifier q p < 0) = (0 < compare_identifier p q)"
  by (auto simp: compare_identifier_def Let_def)

lemma compare_identifier_trans:
  assumes "0 < compare_identifier p q" "0 < compare_identifier q r"
  shows "0 < compare_identifier p r"
  using assms by (auto simp: compare_identifier_def Let_def split: if_splits)

lemma compare_identifiers_eq_0: "(compare_identifiers ps qs = 0) = (ps = qs)"
  by (induction ps qs rule: compare_identifiers.induct) (auto simp: compare_identifier_eq_0)

lemma compare_identifiers_swap:
  "(compare_identifiers qs ps < 0) = (0 < compare_identifiers ps qs)"
proof (induction ps qs rule: compare_identifiers.induct)
  case (4 p ps q qs)
  then show ?case
    using compare_identifier_eq_0 [of p q] compare_identifier_eq_0 [of q p]
      compare_identifier_swap [of q p]
    by auto
qed simp_all

lemma compare_identifiers_trans:
  "0 < compare_identifiers ps qs \<Longrightarrow> 0 < compare_identifiers qs rs \<Longrightarrow> 0 < compare_identifiers ps rs"
proof (induction ps qs arbitrary: rs rule: compare_identifiers.induct)
  case (4 p ps q qs)
  show ?case
  proof (cases rs)
    case Nil
    then show ?thesis by simp
  next
    case (Cons r rs')
    with 4 show ?thesis
      using compare_identifier_trans [of p q r] compare_identifier_eq_0 [of p q]
        compare_identifier_eq_0 [of q r] compare_identifier_eq_0 [of p r]
      by (auto split: if_splits)
  qed
next
  case (3 p ps)
  then show ?case by (cases rs) simp_all
qed simp_all

fun join_dots :: "string list \<Rightarrow> string" where
  "join_dots [] = []"
| "join_dots [w] = w"
| "join_dots (w # v # ws) = w @ CHR ''.'' # join_dots (v # ws)"

lemma split_dots_not_Nil [simp]: "split_dots s \<noteq> []"
  by (induction s) (auto split: list.splits)

lemma join_split_dots [simp]: "join_dots (split_dots s) = s"
proof (induction s)
  case (Cons c s)
  then show ?case
    by (cases "split_dots s"; cases "tl (split_dots s)") auto
qed simp

lemma comparePrerelease_eq_0: "(comparePrerelease x y = 0) = (x = y)"
  unfolding comparePrerelease_def compare_identifiers_eq_0 by (metis join_split_dots)

lemma comparePrerelease_trans:
  "0 < comparePrerelease x y \<Longrightarrow> 0 < comparePrerelease y z \<Longrightarrow> 0 < comparePrerelease x z"
  unfolding comparePrerelease_def by (rule compare_identifiers_trans)

lemma comparePrerelease_swap: "(comparePrerelease y x < 0) = (0 < comparePrerelease x y)"
  unfolding comparePrerelease_def by (rule compare_identifiers_swap)

section \<open>Both comparisons are strict orders\<close>

locale strict_release_order =
  fixes newer :: "string \<Rightarrow> string \<Rightarrow> bool"
  assumes newer_irrefl: "\<not> newer a a"
    and newer_trans: "newer c b \<Longrightarrow> newer b a \<Longrightarrow> newer c a"
begin

text \<open>A list of releases, oldest first, each newer than the one before.\<close>

fun upgrades :: "string list \<Rightarrow> bool" where
  "upgrades [] = True"
| "upgrades [a] = True"
| "upgrades (a # b # vs) = (newer b a \<and> upgrades (b # vs))"

lemma newer_asym: "newer b a \<Longrightarrow> \<not> newer a b"
  using newer_irrefl newer_trans by blast

lemma upgrades_newer_than_first:
  "upgrades (a # vs) \<Longrightarrow> \<forall>v \<in> set vs. newer v a"
proof (induction vs arbitrary: a)
  case (Cons b vs)
  then have "newer b a" "\<forall>v \<in> set vs. newer v b" by simp_all
  then show ?case using newer_trans [of _ b a] by simp
qed simp

lemma upgrades_distinct: "upgrades vs \<Longrightarrow> distinct vs"
proof (induction vs)
  case (Cons a vs)
  then have "a \<notin> set vs"
    using upgrades_newer_than_first newer_irrefl by blast
  with Cons show ?case by (cases vs) simp_all
qed simp

end

lemma newer_version_irrefl: "\<not> newer_version a a"
  by (simp add: newer_version_def split: option.splits)

lemma newer_version_trans:
  "newer_version c b \<Longrightarrow> newer_version b a \<Longrightarrow> newer_version c a"
  by (auto simp: newer_version_def split: if_splits option.splits)

lemma isNewerVersion_iff:
  "isNewerVersion l c = (\<exists>a b. parseVersion (strip_v l) = Inr a \<and> parseVersion (strip_v c) = Inr b
     \<and> newer_version a b)"
  by (auto simp: isNewerVersion_def split: sum.splits)

lemma updateKind_Some:
  "(updateKind f t = Some k) = (\<exists>a b. semver f = Some a \<and> semver t = Some b \<and> version_step a b = Some k)"
  by (auto simp: updateKind_def split: option.splits)

lemma comparePrerelease_refl: "comparePrerelease x x = 0"
  by (simp add: comparePrerelease_eq_0)

lemma version_step_irrefl: "version_step a a = None"
  by (auto simp: version_step_def comparePrerelease_refl split: option.splits)

lemma version_step_trans:
  assumes "version_step a b = Some k" "version_step b c = Some l"
  shows "\<exists>m. version_step a c = Some m"
  using assms comparePrerelease_trans
  by (auto simp: version_step_def split: if_splits option.splits)

interpretation release_order: strict_release_order isNewerVersion
proof
  show "\<not> isNewerVersion a a" for a
    by (auto simp: isNewerVersion_iff newer_version_irrefl)
  show "isNewerVersion c b \<Longrightarrow> isNewerVersion b a \<Longrightarrow> isNewerVersion c a" for a b c
    by (auto simp: isNewerVersion_iff intro: newer_version_trans)
qed

definition is_step :: "string \<Rightarrow> string \<Rightarrow> bool" where
  "is_step target current = (updateKind current target \<noteq> None)"

interpretation step_order: strict_release_order is_step
proof
  show "\<not> is_step a a" for a
    by (auto simp: is_step_def updateKind_Some version_step_irrefl)
  show "is_step c b \<Longrightarrow> is_step b a \<Longrightarrow> is_step c a" for a b c
    unfolding is_step_def not_None_eq updateKind_Some by (metis option.inject version_step_trans)
qed

lemma version_step_total:
  assumes "a \<noteq> b"
  shows "version_step a b \<noteq> None \<or> version_step b a \<noteq> None"
proof (cases "major a = major b \<and> minor a = minor b \<and> patch a = patch b")
  case True
  with assms have "preRelease a \<noteq> preRelease b" by (auto intro: CaeloVersion.equality)
  with True show ?thesis
    using comparePrerelease_eq_0 comparePrerelease_swap
    by (cases "preRelease a"; cases "preRelease b")
      (auto simp: version_step_def linorder_not_less order.order_iff_strict)
next
  case False
  then show ?thesis by (auto simp: version_step_def)
qed

lemma semver_total:
  assumes "semver f = Some a" "semver t = Some b" "a \<noteq> b"
  shows "is_step t f \<or> is_step f t"
  using version_step_total [OF assms(3)] assms by (auto simp: is_step_def updateKind_def)

section \<open>Properties\<close>

text \<open>The step classification is a strict total order on releases: no release is a
  step from itself, steps compose (if b is an update of a and c an update of b, then c is an
  update of a), and of two SemVer releases that differ in a number or in their pre-release
  tag one is always an update of the other.\<close>

theorem update_steps_strict_total_order:
  "updateKind a a = None
   \<and> (updateKind a b \<noteq> None \<longrightarrow> updateKind b c \<noteq> None \<longrightarrow> updateKind a c \<noteq> None)
   \<and> (\<forall>v w. semver a = Some v \<longrightarrow> semver b = Some w \<longrightarrow> v \<noteq> w
        \<longrightarrow> updateKind a b \<noteq> None \<or> updateKind b a \<noteq> None)"
  using step_order.newer_irrefl [of a] step_order.newer_trans [of c b a] semver_total [of a _ b]
  unfolding is_step_def by blast

lemmas version_evaluation =
  updateKind_def semver_def match_version_def read_number_dot_def read_number_def
  read_char_def read_tag_def version_step_def comparePrerelease_def Let_def

lemma update_steps_strict_total_order_witness:
  "updateKind ''0.10.9'' ''0.11.0-rc.2'' = Some Minor
   \<and> updateKind ''0.11.0-rc.2'' ''0.11.0-rc.10'' = Some Patch
   \<and> updateKind ''0.10.9'' ''0.11.0-rc.10'' \<noteq> None"
proof -
  have s: "updateKind ''0.10.9'' ''0.11.0-rc.2'' = Some Minor"
    "updateKind ''0.11.0-rc.2'' ''0.11.0-rc.10'' = Some Patch"
    by code_simp+
  then show ?thesis
    using update_steps_strict_total_order [of "''0.10.9''" "''0.11.0-rc.2''" "''0.11.0-rc.10''"]
    by simp
qed

lemma read_tag_weaken:
  "read_tag ok s = Some p \<Longrightarrow> (\<And>c. ok c \<Longrightarrow> ok' c) \<Longrightarrow> read_tag ok' s = Some p"
  by (auto simp: read_tag_def list_all_iff split: list.splits if_splits)

lemma match_version_weaken:
  assumes "match_version ok s = Some v" "\<And>c. ok c \<Longrightarrow> ok' c"
  shows "match_version ok' s = Some v"
  using assms(1) read_tag_weaken [OF _ assms(2)]
  by (auto simp: match_version_def split: option.splits)

lemma is_tag_char_not_line_end: "is_tag_char c \<Longrightarrow> not_line_end c"
  by (auto simp: is_tag_char_def not_line_end_def Let_def is_digit_def)

lemma semver_starts_with_digit:
  assumes "semver s = Some v"
  shows "strip_v s = s"
proof (cases s)
  case (Cons c r)
  with assms have "is_digit c"
    by (auto simp: semver_def match_version_def read_number_dot_def read_number_def Let_def
        split: option.splits if_splits)
  then have "c \<noteq> CHR ''v''" by (auto simp: is_digit_def)
  with Cons show ?thesis by (simp add: strip_v_def)
qed (simp add: strip_v_def)

lemma semver_parseVersion:
  assumes "semver s = Some v"
  shows "parseVersion (strip_v s) = Inr v"
  using match_version_weaken [OF assms [unfolded semver_def] is_tag_char_not_line_end]
  by (simp add: semver_starts_with_digit [OF assms] parseVersion_def)

text \<open>The two comparisons of the code agree on every pair of SemVer releases that are
  not pre-releases of the same X.Y.Z: the notice that a release is newer and the
  classification of the step to it never contradict each other there.\<close>

theorem newer_agrees_with_step:
  assumes "semver current = Some a" "semver latest = Some b"
    and "preRelease a = None \<or> preRelease b = None \<or> major a \<noteq> major b \<or> minor a \<noteq> minor b
         \<or> patch a \<noteq> patch b"
  shows "isNewerVersion latest current = (updateKind current latest \<noteq> None)"
  using assms(3) semver_parseVersion [OF assms(1)] semver_parseVersion [OF assms(2)] assms(1,2)
  by (auto simp: isNewerVersion_def updateKind_def newer_version_def version_step_def
      split: option.splits)

lemma newer_agrees_with_step_witness:
  "isNewerVersion ''0.11.0'' ''0.11.0-rc.2'' = (updateKind ''0.11.0-rc.2'' ''0.11.0'' \<noteq> None)"
  by (rule newer_agrees_with_step
      [where a = "\<lparr>major = 0, minor = 11, patch = 0, preRelease = Some ''rc.2''\<rparr>"
         and b = "\<lparr>major = 0, minor = 11, patch = 0, preRelease = None\<rparr>"])
    (code_simp, code_simp, simp)

text \<open>Between two pre-releases of one X.Y.Z they do not: the tenth candidate after the
  ninth is a step, but not newer.\<close>

lemma prerelease_orders_disagree:
  "updateKind ''0.11.0-rc.9'' ''0.11.0-rc.10'' = Some Patch
   \<and> \<not> isNewerVersion ''0.11.0-rc.10'' ''0.11.0-rc.9''
   \<and> isNewerVersion ''0.11.0-rc.9'' ''0.11.0-rc.10''"
  by (intro conjI) code_simp+

end
