(* ===== verification/Auto_Update.thy ===== *)
theory Auto_Update
  imports Versions
begin

text \<open>
  The automatic-update decision: the Owner's policy and maintenance window, the
  upgrader's own refusal check (packages/shared/src/platform-updates.ts) and the rules of
  the scheduler (packages/shared/src/auto-update.ts).  Instants are milliseconds since the
  epoch; a stored date that does not parse is Invalid_date, whose comparisons are all
  false.  The local minute of an instant in a time zone is the argument local, which
  stands for the time zone database behind Intl.DateTimeFormat.
\<close>

section \<open>States of an update\<close>

datatype PlatformUpdateStatusValue =
    Pending | Running | Succeeded | Rolled_back | Failed | Refused | Needs_cloud_shell
  | Cancelled | Superseded

definition ACTIVE_UPDATE_STATUSES :: "PlatformUpdateStatusValue list" where
  "ACTIVE_UPDATE_STATUSES = [Pending, Running]"

definition isFinishedUpdateStatus :: "PlatformUpdateStatusValue \<Rightarrow> bool" where
  "isFinishedUpdateStatus status = (status \<notin> set ACTIVE_UPDATE_STATUSES)"

datatype PlatformUpdateRoute = App_roll | Converge_route

section \<open>Dates\<close>

datatype js_date = At int | Invalid_date

definition later_than :: "js_date \<Rightarrow> int \<Rightarrow> bool" where
  "later_than d now = (case d of At t \<Rightarrow> t > now | Invalid_date \<Rightarrow> False)"

definition plus_ms :: "js_date \<Rightarrow> int \<Rightarrow> js_date" where
  "plus_ms d n = (case d of At t \<Rightarrow> At (t + n) | Invalid_date \<Rightarrow> Invalid_date)"

definition PLATFORM_UPDATE_AGENT_FRESH_SECONDS :: int where
  "PLATFORM_UPDATE_AGENT_FRESH_SECONDS = 300"

definition agentCheckedInRecently :: "js_date \<Rightarrow> int \<Rightarrow> bool" where
  "agentCheckedInRecently lastSeenAt now =
     (case lastSeenAt of
        At seen \<Rightarrow> now - seen \<le> PLATFORM_UPDATE_AGENT_FRESH_SECONDS * 1000
      | Invalid_date \<Rightarrow> False)"

section \<open>The policy\<close>

datatype UpdatePolicyMode = Notify_mode | Auto_mode

datatype UpdatePolicyChannel = Stable_channel | Rc_channel | Beta_channel | Alpha_channel

record StoredUpdatePolicy =
  mode :: UpdatePolicyMode
  autoSecurity :: bool
  autoPatch :: bool
  autoMinor :: bool
  autoConverge :: bool
  channel :: UpdatePolicyChannel
  windowStart :: "string option"
  windowEnd :: "string option"
  windowTimezone :: string
  soakHours :: int
  securitySoakHours :: int
  paused :: bool
  pausedReason :: "string option"
  pausedUntil :: "js_date option"
  pausedByOwner :: bool

definition wall_clock :: "string \<Rightarrow> bool" where
  "wall_clock s =
     (length s = 5 \<and> s ! 2 = CHR '':'' \<and> list_all is_digit [s ! 0, s ! 1, s ! 3, s ! 4]
      \<and> (s ! 0 \<in> {CHR ''0'', CHR ''1''} \<or> (s ! 0 = CHR ''2'' \<and> digit_value (s ! 1) \<le> 3))
      \<and> digit_value (s ! 3) \<le> 5)"

definition isKnownTimeZone :: "(string \<Rightarrow> bool) \<Rightarrow> string \<Rightarrow> bool" where
  "isKnownTimeZone known tz = known tz"

text \<open>The policy schema: what an accepted policy satisfies.\<close>

definition updatePolicySchema :: "(string \<Rightarrow> bool) \<Rightarrow> StoredUpdatePolicy \<Rightarrow> bool" where
  "updatePolicySchema known p =
     ((case windowStart p of None \<Rightarrow> True | Some w \<Rightarrow> wall_clock w)
      \<and> (case windowEnd p of None \<Rightarrow> True | Some w \<Rightarrow> wall_clock w)
      \<and> 1 \<le> length (windowTimezone p) \<and> length (windowTimezone p) \<le> 64
      \<and> isKnownTimeZone known (windowTimezone p)
      \<and> 0 \<le> soakHours p \<and> soakHours p \<le> 720
      \<and> 0 \<le> securitySoakHours p \<and> securitySoakHours p \<le> 720
      \<and> ((windowStart p = None) = (windowEnd p = None))
      \<and> (mode p \<noteq> Auto_mode \<or> channel p = Stable_channel)
      \<and> securitySoakHours p \<le> soakHours p)"

section \<open>The maintenance window\<close>

definition toMinutes :: "string \<Rightarrow> int" where
  "toMinutes hhmm =
     int (read_decimal (take 2 hhmm)) * 60 + int (read_decimal (take 2 (drop 3 hhmm)))"

definition inMaintenanceWindow ::
  "(string \<Rightarrow> int \<Rightarrow> int) \<Rightarrow> StoredUpdatePolicy \<Rightarrow> int \<Rightarrow> bool" where
  "inMaintenanceWindow local policy at =
     (case (windowStart policy, windowEnd policy) of
        (Some ws, Some we) \<Rightarrow>
          (let now = local (windowTimezone policy) at;
               start = toMinutes ws;
               end = toMinutes we
           in if start = end then True
              else if start < end then start \<le> now \<and> now < end
              else start \<le> now \<or> now < end)
      | _ \<Rightarrow> True)"

definition isPausedAt :: "StoredUpdatePolicy \<Rightarrow> int \<Rightarrow> bool" where
  "isPausedAt policy now =
     (if \<not> paused policy then False
      else (case pausedUntil policy of None \<Rightarrow> True | Some until \<Rightarrow> later_than until now))"

text \<open>The scan of nextWindowOpening: the m-th minute after the first whole minute, up to
  two days.\<close>

definition ceil_minute :: "int \<Rightarrow> int" where
  "ceil_minute t = - ((- t) div 60000) * 60000"

fun scan_minutes :: "(int \<Rightarrow> bool) \<Rightarrow> int \<Rightarrow> nat \<Rightarrow> int option" where
  "scan_minutes opens at 0 = None"
| "scan_minutes opens at (Suc n) = (if opens at then Some at else scan_minutes opens (at + 60000) n)"

definition nextWindowOpening ::
  "(string \<Rightarrow> int \<Rightarrow> int) \<Rightarrow> StoredUpdatePolicy \<Rightarrow> int \<Rightarrow> int option" where
  "nextWindowOpening local policy start =
     scan_minutes (inMaintenanceWindow local policy) (ceil_minute start) (2 * 24 * 60 + 1)"

section \<open>The upgrader's check\<close>

record AutoInstallCandidate =
  kind :: UpdateKind
  security :: bool
  contractMigrations :: bool
  candidate_channel :: string

datatype auto_refusal =
    Switched_off | Installs_paused | Not_stable | Destructive_changes | Major_release
  | Kind_not_switched_on bool UpdateKind | Outside_window

definition autoInstallRefusal ::
  "(string \<Rightarrow> int \<Rightarrow> int) \<Rightarrow> StoredUpdatePolicy \<Rightarrow> AutoInstallCandidate \<Rightarrow> int \<Rightarrow> auto_refusal option" where
  "autoInstallRefusal local policy candidate at =
     (if mode policy \<noteq> Auto_mode then Some Switched_off
      else if paused policy
           \<and> (case pausedUntil policy of None \<Rightarrow> True | Some until \<Rightarrow> later_than until at)
      then Some Installs_paused
      else if candidate_channel candidate \<noteq> ''stable'' then Some Not_stable
      else if contractMigrations candidate then Some Destructive_changes
      else if kind candidate = Major then Some Major_release
      else if \<not> ((security candidate \<and> autoSecurity policy)
               \<or> (kind candidate = Patch \<and> autoPatch policy)
               \<or> (kind candidate = Minor \<and> autoMinor policy))
      then Some (Kind_not_switched_on (security candidate) (kind candidate))
      else if \<not> inMaintenanceWindow local policy at then Some Outside_window
      else None)"

section \<open>The scheduler's decision\<close>

datatype AutoUpdateBasis = Security_basis | Patch_basis | Minor_basis

record release_manifest =
  manifest_security :: bool
  manifest_advisories :: "string list"

definition isSecurityRelease :: "release_manifest \<Rightarrow> bool" where
  "isSecurityRelease manifest = (manifest_security manifest \<and> manifest_advisories manifest \<noteq> [])"

record ReleaseFacts =
  facts_security :: bool
  facts_advisories :: "string list"
  facts_contractMigrations :: bool
  facts_infraChange :: "bool option"

record AutoUpdateInput =
  policy :: StoredUpdatePolicy
  installedVersion :: string
  release :: "(string \<times> js_date option) option"
  facts :: "string + ReleaseFacts"
  upgraderAvailable :: bool
  convergeAvailable :: bool
  upgraderProblem :: "string option"
  skippedVersion :: "string option"
  now :: int

text \<open>The reasons shown to the Owner, with the values their sentences carry.\<close>

datatype decision_reason =
    No_release_found
  | Newest_installed string
  | Is_prerelease string
  | Policy_only_notifies string
  | Is_major string
  | Facts_unavailable string string
  | No_converge_job string
  | Converge_not_automatic string
  | Destructive_release string
  | Kind_off string bool UpdateKind
  | Upgrader_problem string string
  | No_upgrader string
  | Paused_reason bool "js_date option" "string option"
  | Publish_date_unknown string
  | Soaking string AutoUpdateBasis int bool
  | Window_closed string AutoUpdateBasis "string option" "string option" string
  | Install_reason string AutoUpdateBasis int bool
  | Owner_skipped string

datatype owner_action = Notify | Manual | Cloud_shell | Blocked

datatype AutoUpdateDecision =
    Do_nothing decision_reason
  | Offer owner_action string UpdateKind decision_reason
  | Wait string UpdateKind AutoUpdateBasis PlatformUpdateRoute decision_reason
      "js_date option" bool
  | Install string UpdateKind AutoUpdateBasis PlatformUpdateRoute decision_reason

definition truthy_string :: "string option \<Rightarrow> bool" where
  "truthy_string s = (case s of None \<Rightarrow> False | Some x \<Rightarrow> x \<noteq> [])"

definition update_basis ::
  "StoredUpdatePolicy \<Rightarrow> ReleaseFacts \<Rightarrow> UpdateKind \<Rightarrow> AutoUpdateBasis option" where
  "update_basis p f k =
     (if facts_security f \<and> autoSecurity p then Some Security_basis
      else if k = Patch \<and> autoPatch p then Some Patch_basis
      else if k = Minor \<and> autoMinor p then Some Minor_basis
      else None)"

definition wait_until ::
  "(string \<Rightarrow> int \<Rightarrow> int) \<Rightarrow> StoredUpdatePolicy \<Rightarrow> int \<Rightarrow> js_date option" where
  "wait_until local p ready =
     (if inMaintenanceWindow local p ready then Some (At ready)
      else map_option At (nextWindowOpening local p ready))"

text \<open>The rules from the soak period on, for a release that may install.\<close>

definition decide_timing ::
  "(string \<Rightarrow> int \<Rightarrow> int) \<Rightarrow> StoredUpdatePolicy \<Rightarrow> int \<Rightarrow> string \<Rightarrow> UpdateKind \<Rightarrow> AutoUpdateBasis
   \<Rightarrow> PlatformUpdateRoute \<Rightarrow> js_date \<Rightarrow> AutoUpdateDecision" where
  "decide_timing local p t v k basis route published =
     (let soak = (if basis = Security_basis then securitySoakHours p else soakHours p);
          ready = plus_ms published (soak * 3600000)
      in if later_than ready t
         then (case ready of
                 At r \<Rightarrow>
                   (let opening = wait_until local p r
                    in Wait v k basis route
                         (Soaking v basis soak (opening \<noteq> None \<and> opening \<noteq> Some (At r)))
                         opening False)
               | Invalid_date \<Rightarrow> Do_nothing No_release_found)
         else if \<not> inMaintenanceWindow local p t
         then Wait v k basis route
                (Window_closed v basis (windowStart p) (windowEnd p) (windowTimezone p))
                (map_option At (nextWindowOpening local p t)) False
         else Install v k basis route (Install_reason v basis soak (truthy_string (windowStart p))))"

text \<open>The Invalid_date branch above is not reachable: an invalid date is not later than
  anything.\<close>

definition decideByRules :: "(string \<Rightarrow> int \<Rightarrow> int) \<Rightarrow> AutoUpdateInput \<Rightarrow> AutoUpdateDecision" where
  "decideByRules local input =
     (let p = policy input in
      case release input of
        None \<Rightarrow> Do_nothing No_release_found
      | Some (v, publishedAt) \<Rightarrow>
          (case updateKind (installedVersion input) v of
             None \<Rightarrow> Do_nothing (Newest_installed (installedVersion input))
           | Some k \<Rightarrow>
               if \<not> isStable v then Offer Notify v k (Is_prerelease v)
               else if mode p = Notify_mode then Offer Notify v k (Policy_only_notifies v)
               else if k = Major then Offer Notify v k (Is_major v)
               else (case facts input of
                  Inl problem \<Rightarrow> Offer Blocked v k (Facts_unavailable v problem)
                | Inr f \<Rightarrow>
                    (let converge = (facts_infraChange f = Some True) in
                     if converge \<and> \<not> convergeAvailable input
                     then Offer Cloud_shell v k (No_converge_job v)
                     else if converge \<and> \<not> autoConverge p
                     then Offer Manual v k (Converge_not_automatic v)
                     else if facts_contractMigrations f
                     then Offer Manual v k (Destructive_release v)
                     else (case update_basis p f k of
                        None \<Rightarrow> Offer Notify v k (Kind_off v (facts_security f) k)
                      | Some basis \<Rightarrow>
                          if \<not> converge \<and> \<not> upgraderAvailable input
                          then Offer Blocked v k
                                 (case upgraderProblem input of
                                    None \<Rightarrow> No_upgrader v
                                  | Some x \<Rightarrow> if x = [] then No_upgrader v else Upgrader_problem v x)
                          else (let route = (if converge then Converge_route else App_roll) in
                            if isPausedAt p (now input)
                            then Wait v k basis route
                                   (Paused_reason (pausedByOwner p) (pausedUntil p) (pausedReason p))
                                   (pausedUntil p) True
                            else (case publishedAt of
                               None \<Rightarrow> Offer Blocked v k (Publish_date_unknown v)
                             | Some published \<Rightarrow>
                                 decide_timing local p (now input) v k basis route published)))))))"

definition decideAutoUpdate :: "(string \<Rightarrow> int \<Rightarrow> int) \<Rightarrow> AutoUpdateInput \<Rightarrow> AutoUpdateDecision" where
  "decideAutoUpdate local input =
     (let offer = (\<lambda>v k d. if skippedVersion input = Some v
                          then Offer Notify v k (Owner_skipped v) else d)
      in case decideByRules local input of
           Install v k basis route reason \<Rightarrow> offer v k (Install v k basis route reason)
         | Wait v k basis route reason until p \<Rightarrow> offer v k (Wait v k basis route reason until p)
         | d \<Rightarrow> d)"

section \<open>The scan for the next opening\<close>

lemma scan_minutes_Some:
  "scan_minutes opens a n = Some t \<Longrightarrow>
     \<exists>m. m < n \<and> t = a + 60000 * int m \<and> opens t \<and> (\<forall>j < m. \<not> opens (a + 60000 * int j))"
proof (induction n arbitrary: a)
  case (Suc n)
  show ?case
  proof (cases "opens a")
    case True
    with Suc.prems show ?thesis by (intro exI [of _ 0]) simp
  next
    case False
    with Suc obtain m where m: "m < n" "t = a + 60000 + 60000 * int m" "opens t"
        "\<forall>j < m. \<not> opens (a + 60000 + 60000 * int j)"
      by auto
    have "\<not> opens (a + 60000 * int j)" if "j < Suc m" for j
      using that False m(4) [rule_format, of "j - 1"] by (cases j) (simp_all add: algebra_simps)
    with m show ?thesis by (intro exI [of _ "Suc m"]) (simp add: algebra_simps)
  qed
qed simp

lemma scan_minutes_finds:
  "m < n \<Longrightarrow> opens (a + 60000 * int m) \<Longrightarrow> scan_minutes opens a n \<noteq> None"
proof (induction n arbitrary: a m)
  case (Suc n)
  show ?case
  proof (cases "opens a")
    case False
    with Suc.prems obtain m' where "m = Suc m'" by (cases m) auto
    with Suc.prems Suc.IH [of m' "a + 60000"] False show ?thesis
      by (simp add: algebra_simps)
  qed simp
qed simp

lemma ceil_minute_eq: "ceil_minute t = t + (- t) mod 60000"
proof -
  have "(- t) div 60000 * 60000 + (- t) mod 60000 = - t"
    by (rule div_mult_mod_eq)
  then show ?thesis unfolding ceil_minute_def by linarith
qed

lemma ceil_minute_props:
  "t \<le> ceil_minute t" "ceil_minute t < t + 60000" "60000 dvd ceil_minute t"
  "60000 dvd s \<Longrightarrow> t \<le> s \<Longrightarrow> ceil_minute t \<le> s"
proof -
  show "t \<le> ceil_minute t" "ceil_minute t < t + 60000"
    by (simp_all add: ceil_minute_eq)
  show "60000 dvd ceil_minute t"
    by (simp add: ceil_minute_def)
  show "ceil_minute t \<le> s" if "60000 dvd s" "t \<le> s"
  proof -
    from that(1) obtain k where k: "s = 60000 * k" by (auto elim: dvdE)
    have "(- s) div 60000 \<le> (- t) div 60000" using that(2) by (intro zdiv_mono1) simp_all
    then show ?thesis by (simp add: ceil_minute_def k)
  qed
qed

lemma nextWindowOpening_first:
  assumes "nextWindowOpening local p from = Some t"
  shows "from \<le> t" "inMaintenanceWindow local p t"
    "\<And>s. 60000 dvd s \<Longrightarrow> from \<le> s \<Longrightarrow> s < t \<Longrightarrow> \<not> inMaintenanceWindow local p s"
proof -
  obtain m where t: "t = ceil_minute from + 60000 * int m" and open_t: "inMaintenanceWindow local p t"
    and closed: "\<forall>j < m. \<not> inMaintenanceWindow local p (ceil_minute from + 60000 * int j)"
    using scan_minutes_Some [OF assms [unfolded nextWindowOpening_def]] by blast
  show "from \<le> t" using ceil_minute_props(1) [of "from"] t by simp
  show "inMaintenanceWindow local p t" by (rule open_t)
  show "\<not> inMaintenanceWindow local p s" if s: "60000 dvd s" "from \<le> s" "s < t" for s
  proof -
    have ge: "ceil_minute from \<le> s" by (rule ceil_minute_props(4)) (use s in auto)
    have "60000 dvd s - ceil_minute from"
      using s(1) ceil_minute_props(3) by (rule dvd_diff)
    then obtain q where q: "s - ceil_minute from = 60000 * q" by (auto elim: dvdE)
    then have "s = ceil_minute from + 60000 * int (nat q)" "nat q < m"
      using ge s(3) t by auto
    then show ?thesis using closed by auto
  qed
qed

lemma wall_clock_minutes:
  assumes "wall_clock w"
  shows "0 \<le> toMinutes w" "toMinutes w < 1440"
proof -
  from assms obtain a b c d e where w: "w = [a, b, c, d, e]"
    by (auto simp: wall_clock_def length_Suc_conv numeral_eq_Suc)
  have v: "digit_value x \<le> 9" if "is_digit x" for x
    using that by (auto simp: is_digit_def digit_value_def)
  have a: "digit_value a \<le> 1 \<or> digit_value a = 2 \<and> digit_value b \<le> 3"
    using assms w by (auto simp: wall_clock_def digit_value_def)
  have "digit_value b \<le> 9" "digit_value e \<le> 9" "digit_value d \<le> 5"
    using assms v w by (auto simp: wall_clock_def numeral_eq_Suc)
  with a show "0 \<le> toMinutes w" "toMinutes w < 1440"
    by (auto simp: toMinutes_def w read_decimal_def)
qed

section \<open>Properties\<close>

lemma local_after_minutes:
  fixes local :: "int \<Rightarrow> int"
  assumes "\<And>t. 0 \<le> local t \<and> local t < 1440" "\<And>t. local (t + 60000) = (local t + 1) mod 1440"
  shows "local (a + 60000 * int m) = (local a + int m) mod 1440"
proof (induction m)
  case 0
  show ?case using assms(1) [of a] by simp
next
  case (Suc m)
  have "local (a + 60000 * int (Suc m)) = (local (a + 60000 * int m) + 1) mod 1440"
    using assms(2) [of "a + 60000 * int m"] by (simp add: algebra_simps)
  then show ?case
    using Suc by (simp add: mod_simps algebra_simps)
qed

lemma window_open_at_start:
  assumes "windowStart p = Some ws" "local (windowTimezone p) t = toMinutes ws"
  shows "inMaintenanceWindow local p t"
  using assms by (auto simp: inMaintenanceWindow_def Let_def split: option.splits)

text \<open>In a time zone whose local clock advances by one minute per minute, the maintenance
  window of a policy the schema accepts opens within a day: the scan for the next opening
  finds an instant inside the window, so its null result cannot happen there.\<close>

theorem window_opens_within_a_day:
  assumes "updatePolicySchema known p"
    and "\<And>t. 0 \<le> local (windowTimezone p) t \<and> local (windowTimezone p) t < 1440"
    and "\<And>t. local (windowTimezone p) (t + 60000) = (local (windowTimezone p) t + 1) mod 1440"
  shows "\<exists>t. nextWindowOpening local p start = Some t \<and> start \<le> t
           \<and> t < start + 24 * 60 * 60000 \<and> inMaintenanceWindow local p t"
proof -
  let ?a = "ceil_minute start" and ?opens = "inMaintenanceWindow local p"
  obtain m where m: "m < 1440" "?opens (?a + 60000 * int m)"
  proof (cases "windowStart p")
    case None
    then have "?opens (?a + 60000 * int 0)" by (simp add: inMaintenanceWindow_def)
    with that [of 0] show thesis by simp
  next
    case (Some ws)
    then have "wall_clock ws" using assms(1) by (simp add: updatePolicySchema_def)
    then have ws: "0 \<le> toMinutes ws" "toMinutes ws < 1440" by (rule wall_clock_minutes)+
    define k where "k = (toMinutes ws - local (windowTimezone p) ?a) mod 1440"
    have k: "0 \<le> k" "k < 1440" by (simp_all add: k_def)
    have "local (windowTimezone p) (?a + 60000 * int (nat k)) = toMinutes ws"
      unfolding local_after_minutes [of "local (windowTimezone p)", OF assms(2,3)]
      using k ws by (simp add: k_def mod_simps)
    then have "?opens (?a + 60000 * int (nat k))"
      by (rule window_open_at_start [OF Some])
    with that [of "nat k"] k show thesis by simp
  qed
  then have "nextWindowOpening local p start \<noteq> None"
    unfolding nextWindowOpening_def by (intro scan_minutes_finds [of m]) simp_all
  then obtain t where t: "nextWindowOpening local p start = Some t" by auto
  have "60000 dvd ?a + 60000 * int m" using ceil_minute_props(3) by simp
  moreover have "start \<le> ?a + 60000 * int m" using ceil_minute_props(1) [of start] by simp
  ultimately have "t \<le> ?a + 60000 * int m"
    using nextWindowOpening_first(3) [OF t] m(2) not_le by blast
  moreover have "?a < start + 60000" by (rule ceil_minute_props(2))
  ultimately show ?thesis
    using t nextWindowOpening_first(1,2) [OF t] m(1) by auto
qed

definition utc_minutes :: "string \<Rightarrow> int \<Rightarrow> int" where
  "utc_minutes zone t = (t div 60000) mod 1440"

definition night_policy :: StoredUpdatePolicy where
  "night_policy = \<lparr>mode = Auto_mode, autoSecurity = True, autoPatch = True, autoMinor = False,
     autoConverge = False, channel = Stable_channel, windowStart = Some ''22:00'',
     windowEnd = Some ''04:00'', windowTimezone = ''UTC'', soakHours = 24,
     securitySoakHours = 2, paused = False, pausedReason = None, pausedUntil = None,
     pausedByOwner = False\<rparr>"

lemma utc_minutes_range: "0 \<le> utc_minutes z t \<and> utc_minutes z t < 1440"
  by (simp add: utc_minutes_def)

lemma utc_minutes_step: "utc_minutes z (t + 60000) = (utc_minutes z t + 1) mod 1440"
proof -
  have "(t + 60000) div 60000 = t div 60000 + 1" by simp
  then show ?thesis by (simp add: utc_minutes_def mod_simps)
qed

lemma night_policy_ok: "updatePolicySchema (\<lambda>z. z = ''UTC'') night_policy"
  by code_simp

lemma window_opens_within_a_day_witness:
  "\<exists>t. nextWindowOpening utc_minutes night_policy 36000001 = Some t \<and> 36000001 \<le> t"
  using window_opens_within_a_day
    [OF night_policy_ok, of utc_minutes 36000001, OF utc_minutes_range utc_minutes_step]
  by blast

text \<open>What the rules require before they reach the timing of a release, whatever the
  instant.\<close>

definition may_install ::
  "AutoUpdateInput \<Rightarrow> string \<Rightarrow> UpdateKind \<Rightarrow> AutoUpdateBasis \<Rightarrow> PlatformUpdateRoute \<Rightarrow> js_date
   \<Rightarrow> ReleaseFacts \<Rightarrow> bool" where
  "may_install i v k basis route published f =
     (release i = Some (v, Some published) \<and> facts i = Inr f
      \<and> updateKind (installedVersion i) v = Some k \<and> k \<noteq> Major \<and> isStable v
      \<and> mode (policy i) = Auto_mode \<and> \<not> facts_contractMigrations f
      \<and> update_basis (policy i) f k = Some basis
      \<and> (route = (if facts_infraChange f = Some True then Converge_route else App_roll))
      \<and> (if facts_infraChange f = Some True then convergeAvailable i \<and> autoConverge (policy i)
         else upgraderAvailable i))"

definition timed :: "AutoUpdateDecision \<Rightarrow> bool" where
  "timed d = (case d of Install _ _ _ _ _ \<Rightarrow> True | Wait _ _ _ _ _ _ p \<Rightarrow> \<not> p | _ \<Rightarrow> False)"

lemma decideByRules_timed:
  assumes "decideByRules local i = d" "timed d"
  obtains v k basis route published f where "may_install i v k basis route published f"
    "\<not> isPausedAt (policy i) (now i)"
    "d = decide_timing local (policy i) (now i) v k basis route published"
proof -
  have "\<exists>v k basis route published f. may_install i v k basis route published f
     \<and> \<not> isPausedAt (policy i) (now i)
     \<and> d = decide_timing local (policy i) (now i) v k basis route published"
    using assms unfolding decideByRules_def Let_def timed_def may_install_def
    by (cases "mode (policy i)")
      (auto split: option.splits if_splits sum.splits prod.splits)
  then show thesis using that by blast
qed

lemma decideByRules_may_install:
  assumes "may_install i v k basis route published f" "\<not> isPausedAt (policy i) (now i)"
  shows "decideByRules local i = decide_timing local (policy i) (now i) v k basis route published"
  using assms by (auto simp: decideByRules_def may_install_def Let_def split: if_splits)

lemma decideAutoUpdate_Install:
  "(decideAutoUpdate local i = Install v k b r why) =
     (decideByRules local i = Install v k b r why \<and> skippedVersion i \<noteq> Some v)"
  by (cases "decideByRules local i") (auto simp: decideAutoUpdate_def Let_def)

lemma decideAutoUpdate_Wait:
  "(decideAutoUpdate local i = Wait v k b r why until p) =
     (decideByRules local i = Wait v k b r why until p \<and> skippedVersion i \<noteq> Some v)"
  by (cases "decideByRules local i") (auto simp: decideAutoUpdate_def Let_def)

definition soak_ms :: "StoredUpdatePolicy \<Rightarrow> AutoUpdateBasis \<Rightarrow> int" where
  "soak_ms p basis = (if basis = Security_basis then securitySoakHours p else soakHours p) * 3600000"

lemma decide_timing_cases:
  "decide_timing local p t v k basis route (At published) =
     (let soak = (if basis = Security_basis then securitySoakHours p else soakHours p);
          ready = published + soak_ms p basis
      in if t < ready
         then Wait v k basis route
                (Soaking v basis soak
                   (wait_until local p ready \<noteq> None \<and> wait_until local p ready \<noteq> Some (At ready)))
                (wait_until local p ready) False
         else if \<not> inMaintenanceWindow local p t
         then Wait v k basis route
                (Window_closed v basis (windowStart p) (windowEnd p) (windowTimezone p))
                (map_option At (nextWindowOpening local p t)) False
         else Install v k basis route (Install_reason v basis soak (truthy_string (windowStart p))))"
  by (simp add: decide_timing_def soak_ms_def plus_ms_def later_than_def Let_def)

lemma decide_timing_invalid:
  "decide_timing local p t v k basis route Invalid_date =
     (let soak = (if basis = Security_basis then securitySoakHours p else soakHours p)
      in if \<not> inMaintenanceWindow local p t
         then Wait v k basis route
                (Window_closed v basis (windowStart p) (windowEnd p) (windowTimezone p))
                (map_option At (nextWindowOpening local p t)) False
         else Install v k basis route (Install_reason v basis soak (truthy_string (windowStart p))))"
  by (simp add: decide_timing_def plus_ms_def later_than_def Let_def)

lemma decide_timing_Install:
  assumes "Install v k b r why = decide_timing local p t v' k' b' r' published"
  shows "v' = v \<and> k' = k \<and> b' = b \<and> r' = r \<and> inMaintenanceWindow local p t
    \<and> (\<forall>x. published = At x \<longrightarrow> x + soak_ms p b \<le> t)"
  using assms by (cases published) (auto simp: decide_timing_cases decide_timing_invalid Let_def split: if_splits)

text \<open>C37. An automatic install happens only when every rule allows it: the release is a
  newer stable minor or patch, not skipped, its facts are known and carry no destructive
  migrations, the policy is automatic, not paused and switches this basis on, the job of
  the chosen route exists, the soak period of a readable publish date is over and the
  window is open.  And what the scheduler installs at an instant, the upgrader's own check
  of the same facts at that instant does not refuse.\<close>

theorem install_decision_sound:
  assumes "decideAutoUpdate local i = Install v k b r why"
  shows "\<exists>f published. may_install i v k b r published f
    \<and> \<not> isPausedAt (policy i) (now i) \<and> skippedVersion i \<noteq> Some v
    \<and> inMaintenanceWindow local (policy i) (now i)
    \<and> (\<forall>x. published = At x \<longrightarrow> x + soak_ms (policy i) b \<le> now i)
    \<and> autoInstallRefusal local (policy i)
        \<lparr>kind = k, security = facts_security f, contractMigrations = facts_contractMigrations f,
         candidate_channel = ''stable''\<rparr> (now i) = None"
proof -
  from assms have rules: "decideByRules local i = Install v k b r why" "skippedVersion i \<noteq> Some v"
    by (simp_all add: decideAutoUpdate_Install)
  obtain v' k' b' r' published f where may: "may_install i v' k' b' r' published f"
    and p: "\<not> isPausedAt (policy i) (now i)"
    and d: "Install v k b r why = decide_timing local (policy i) (now i) v' k' b' r' published"
    by (rule decideByRules_timed [OF rules(1)]) (simp_all add: timed_def)
  have t: "v' = v" "k' = k" "b' = b" "r' = r" "inMaintenanceWindow local (policy i) (now i)"
    "\<forall>x. published = At x \<longrightarrow> x + soak_ms (policy i) b \<le> now i"
    using decide_timing_Install [OF d] by simp_all
  have "autoInstallRefusal local (policy i)
        \<lparr>kind = k, security = facts_security f, contractMigrations = facts_contractMigrations f,
         candidate_channel = ''stable''\<rparr> (now i) = None"
    using may p t
    by (auto simp: autoInstallRefusal_def may_install_def isPausedAt_def update_basis_def
        split: if_splits)
  then show ?thesis
    using may p rules(2) t by blast
qed

definition friday_input :: AutoUpdateInput where
  "friday_input = \<lparr>policy = night_policy, installedVersion = ''0.10.45'',
     release = Some (''0.10.46'', Some (At 0)),
     facts = Inr \<lparr>facts_security = False, facts_advisories = [], facts_contractMigrations = False,
                  facts_infraChange = None\<rparr>,
     upgraderAvailable = True, convergeAvailable = False, upgraderProblem = None,
     skippedVersion = None, now = 165600000\<rparr>"

lemma friday_installs:
  "decideAutoUpdate utc_minutes friday_input =
     Install ''0.10.46'' Patch Patch_basis App_roll (Install_reason ''0.10.46'' Patch_basis 24 True)"
  by code_simp

lemma install_decision_sound_witness:
  "\<not> isPausedAt (policy friday_input) (now friday_input)
   \<and> inMaintenanceWindow utc_minutes (policy friday_input) (now friday_input)"
  using install_decision_sound [OF friday_installs] by blast

lemma not_paused_later:
  "\<not> isPausedAt p t \<Longrightarrow> t \<le> s \<Longrightarrow> \<not> isPausedAt p s"
  by (auto simp: isPausedAt_def later_than_def split: option.splits js_date.splits if_splits)

definition installs :: "AutoUpdateDecision \<Rightarrow> bool" where
  "installs d = (case d of Install _ _ _ _ _ \<Rightarrow> True | _ \<Rightarrow> False)"

lemma installs_rules: "installs (decideAutoUpdate local i) \<Longrightarrow> installs (decideByRules local i)"
  by (cases "decideByRules local i")
    (simp_all add: installs_def decideAutoUpdate_def Let_def split: if_splits)

lemma wait_until_Some:
  assumes "wait_until local p ready = Some (At t)"
  shows "ready \<le> t" "inMaintenanceWindow local p t"
    "\<And>s. 60000 dvd s \<Longrightarrow> ready \<le> s \<Longrightarrow> s < t \<Longrightarrow> \<not> inMaintenanceWindow local p s"
  using assms nextWindowOpening_first [of local p ready t]
  by (auto simp: wait_until_def split: if_splits)

lemma opening_ahead:
  assumes "nextWindowOpening local p t0 = Some t" "\<not> inMaintenanceWindow local p t0"
  shows "t0 < t"
  using nextWindowOpening_first(1,2) [OF assms(1)] assms(2) by (cases "t = t0") simp_all

lemma decide_timing_waits:
  assumes "decide_timing local p t0 v k b r published = Wait v' k' b' r' why (Some (At t)) q"
  shows "t0 < t"
    "\<exists>why'. decide_timing local p t v k b r published = Install v k b r why'"
    "\<And>s. 60000 dvd s \<Longrightarrow> t0 \<le> s \<Longrightarrow> s < t \<Longrightarrow> \<not> installs (decide_timing local p s v k b r published)"
    "v' = v \<and> k' = k \<and> b' = b \<and> r' = r"
proof -
  have "t0 < t \<and> (\<exists>why'. decide_timing local p t v k b r published = Install v k b r why')
    \<and> (\<forall>s. 60000 dvd s \<longrightarrow> t0 \<le> s \<longrightarrow> s < t \<longrightarrow> \<not> installs (decide_timing local p s v k b r published))
    \<and> v' = v \<and> k' = k \<and> b' = b \<and> r' = r"
  proof (cases published)
    case (At pub)
    show ?thesis
    proof (cases "t0 < pub + soak_ms p b")
      case True
      with assms At have w: "wait_until local p (pub + soak_ms p b) = Some (At t)"
        and eq: "v' = v \<and> k' = k \<and> b' = b \<and> r' = r"
        by (auto simp: decide_timing_cases Let_def)
      then show ?thesis
        using True At wait_until_Some [OF w]
        by (auto simp: decide_timing_cases Let_def installs_def)
    next
      case False
      with assms At have w: "nextWindowOpening local p t0 = Some t" "\<not> inMaintenanceWindow local p t0"
        and eq: "v' = v \<and> k' = k \<and> b' = b \<and> r' = r"
        by (auto simp: decide_timing_cases Let_def split: if_splits)
      have "t0 < t" by (rule opening_ahead [OF w])
      then show ?thesis
        using False At nextWindowOpening_first(2,3) [OF w(1)] eq
        by (simp add: decide_timing_cases Let_def installs_def)
    qed
  next
    case Invalid_date
    with assms have w: "nextWindowOpening local p t0 = Some t" "\<not> inMaintenanceWindow local p t0"
      and eq: "v' = v \<and> k' = k \<and> b' = b \<and> r' = r"
      by (auto simp: decide_timing_invalid Let_def split: if_splits)
    have "t0 < t" by (rule opening_ahead [OF w])
    then show ?thesis
      using Invalid_date nextWindowOpening_first(2,3) [OF w(1)] eq
      by (simp add: decide_timing_invalid Let_def installs_def)
  qed
  then show "t0 < t"
    "\<exists>why'. decide_timing local p t v k b r published = Install v k b r why'"
    "\<And>s. 60000 dvd s \<Longrightarrow> t0 \<le> s \<Longrightarrow> s < t \<Longrightarrow> \<not> installs (decide_timing local p s v k b r published)"
    "v' = v \<and> k' = k \<and> b' = b \<and> r' = r"
    by blast+
qed

text \<open>The wait the scheduler announces (soak period or maintenance window) is exact:
  it lies ahead, at the announced instant the same input installs, and on no whole minute
  before it does the same input install.\<close>

theorem announced_wait_is_exact:
  assumes "decideAutoUpdate local i = Wait v k b r why (Some (At t)) False"
  shows "now i < t \<and> (\<exists>why'. decideAutoUpdate local (i\<lparr>now := t\<rparr>) = Install v k b r why')
    \<and> (\<forall>s. 60000 dvd s \<longrightarrow> now i \<le> s \<longrightarrow> s < t \<longrightarrow> \<not> installs (decideAutoUpdate local (i\<lparr>now := s\<rparr>)))"
proof -
  from assms have rules: "decideByRules local i = Wait v k b r why (Some (At t)) False"
    "skippedVersion i \<noteq> Some v"
    by (simp_all add: decideAutoUpdate_Wait)
  obtain v' k' b' r' published f where may: "may_install i v' k' b' r' published f"
    and p: "\<not> isPausedAt (policy i) (now i)"
    and d: "Wait v k b r why (Some (At t)) False
        = decide_timing local (policy i) (now i) v' k' b' r' published"
    by (rule decideByRules_timed [OF rules(1)]) (simp_all add: timed_def)
  note w = decide_timing_waits [OF d [symmetric]]
  have at: "decideByRules local (i\<lparr>now := s\<rparr>) = decide_timing local (policy i) s v k b r published"
    if "now i \<le> s" for s
    using decideByRules_may_install [of "i\<lparr>now := s\<rparr>" v k b r published f local]
      may p w(4) not_paused_later [OF p that]
    by (simp add: may_install_def)
  have "\<exists>why'. decideAutoUpdate local (i\<lparr>now := t\<rparr>) = Install v k b r why'"
  proof -
    from w(2) w(4) obtain why' where
      "decide_timing local (policy i) t v k b r published = Install v k b r why'" by blast
    with at [of t] w(1) have "decideByRules local (i\<lparr>now := t\<rparr>) = Install v k b r why'" by simp
    then show ?thesis using rules(2) by (simp add: decideAutoUpdate_Install)
  qed
  moreover have "\<not> installs (decideAutoUpdate local (i\<lparr>now := s\<rparr>))"
    if "60000 dvd s" "now i \<le> s" "s < t" for s
  proof
    assume "installs (decideAutoUpdate local (i\<lparr>now := s\<rparr>))"
    then have "installs (decideByRules local (i\<lparr>now := s\<rparr>))" by (rule installs_rules)
    then show False using at [OF that(2)] w(3) [OF that] w(4) by simp
  qed
  ultimately show ?thesis using w(1) by blast
qed

lemma thursday_waits:
  "decideAutoUpdate utc_minutes (friday_input\<lparr>now := 3600000\<rparr>) =
     Wait ''0.10.46'' Patch Patch_basis App_roll
       (Soaking ''0.10.46'' Patch_basis 24 False) (Some (At 86400000)) False"
  by code_simp

lemma announced_wait_is_exact_witness:
  "\<exists>why. decideAutoUpdate utc_minutes (friday_input\<lparr>now := 86400000\<rparr>)
     = Install ''0.10.46'' Patch Patch_basis App_roll why"
  using announced_wait_is_exact [OF thursday_waits] by simp

end
