(* ===== verification/Js_Strings.thy ===== *)
theory Js_Strings
  imports Caelo_Prelude
begin

text \<open>
  Strings as the source treats them: lists of 8-bit characters, with the white space and
  control characters of that range; prefixes, letter case, trimming, splitting and joining,
  and the lemmas that let a printed list be split again.
\<close>

section \<open>Characters\<close>

definition slash :: char where
  "slash = CHR ''/''"

definition js_white :: "char \<Rightarrow> bool" where
  "js_white c = ((of_char c :: nat) \<in> {9, 10, 11, 12, 13, 32, 160})"

definition js_control :: "char \<Rightarrow> bool" where
  "js_control c = (let n = (of_char c :: nat) in n < 32 \<or> (127 \<le> n \<and> n < 160))"

definition starts_with :: "string \<Rightarrow> string \<Rightarrow> bool" where
  "starts_with s p = (take (length p) s = p)"

definition ends_with :: "string \<Rightarrow> string \<Rightarrow> bool" where
  "ends_with s p = (length p \<le> length s \<and> drop (length s - length p) s = p)"

definition to_lower :: "char \<Rightarrow> char" where
  "to_lower c =
     (let n = (of_char c :: nat) in if 65 \<le> n \<and> n \<le> 90 then char_of (n + 32) else c)"

lemma starts_with_slash [simp]: "starts_with s ''/'' = (\<exists>r. s = slash # r)"
  by (cases s) (auto simp: starts_with_def slash_def)

lemma starts_with_append: "starts_with s p \<Longrightarrow> starts_with (s @ t) p"
proof -
  assume s: "starts_with s p"
  then have "length p \<le> length s"
    by (metis length_take min.absorb_iff2 min.commute starts_with_def)
  with s show ?thesis by (simp add: starts_with_def)
qed

section \<open>Splitting and trimming\<close>

fun split_on :: "char \<Rightarrow> string \<Rightarrow> string list" where
  "split_on d [] = [[]]"
| "split_on d (c # s) =
     (if c = d then [] # split_on d s
      else (case split_on d s of [] \<Rightarrow> [[c]] | w # ws \<Rightarrow> (c # w) # ws))"

definition js_trim :: "string \<Rightarrow> string" where
  "js_trim s = rev (dropWhile js_white (rev (dropWhile js_white s)))"

fun join_with :: "string \<Rightarrow> string list \<Rightarrow> string" where
  "join_with sep [] = []"
| "join_with sep [w] = w"
| "join_with sep (w # v # ws) = w @ sep @ join_with sep (v # ws)"

lemma split_on_append:
  "d \<notin> set w \<Longrightarrow> split_on d (w @ d # s) = w # split_on d s"
  by (induction w) auto

lemma split_on_none: "d \<notin> set w \<Longrightarrow> split_on d w = [w]"
  by (induction w) auto

lemma split_join:
  "ws \<noteq> [] \<Longrightarrow> \<forall>w \<in> set ws. d \<notin> set w \<Longrightarrow> split_on d (join_with [d] ws) = ws"
proof (induction "[d]" ws rule: join_with.induct)
  case (3 w v ws)
  then show ?case by (simp add: split_on_append)
qed (simp_all add: split_on_none)

lemma digit_not_white: "is_digit c \<Longrightarrow> \<not> js_white c"
  by (auto simp: is_digit_def js_white_def)

lemma js_trim_id:
  assumes "s \<noteq> []" "\<not> js_white (hd s)" "\<not> js_white (last s)"
  shows "js_trim s = s"
proof -
  have "dropWhile js_white s = s" using assms by (cases s) simp_all
  moreover have "dropWhile js_white (rev s) = rev s"
    using assms by (cases s rule: rev_cases) simp_all
  ultimately show ?thesis by (simp add: js_trim_def)
qed

end
