(* ===== verification/Urls.thy ===== *)
theory Urls
  imports Js_Strings
begin

text \<open>
  Slash trimming and the home page decision (packages/shared/src/url.ts).  The trimming
  walks are modelled with their indices and proved equal to the regular expressions they
  replace.
\<close>

section \<open>Trimming walks\<close>

fun skip_slashes :: "nat \<Rightarrow> string \<Rightarrow> nat \<Rightarrow> nat \<Rightarrow> nat" where
  "skip_slashes 0 s start end = start"
| "skip_slashes (Suc n) s start end =
     (if start < end \<and> s ! start = slash then skip_slashes n s (start + 1) end else start)"

fun drop_back :: "string \<Rightarrow> nat \<Rightarrow> nat \<Rightarrow> nat" where
  "drop_back s start 0 = 0"
| "drop_back s start (Suc end) =
     (if start < Suc end \<and> s ! end = slash then drop_back s start end else Suc end)"

definition slice :: "string \<Rightarrow> nat \<Rightarrow> nat \<Rightarrow> string" where
  "slice s start end = drop start (take end s)"

text \<open>The first argument of skip_slashes bounds its iterations; the length of the string is
  enough, since the index moves by one and stops at the end.\<close>

definition trimSlashes :: "string \<Rightarrow> string" where
  "trimSlashes s =
     (let start = skip_slashes (length s) s 0 (length s);
          end = drop_back s start (length s)
      in slice s start end)"

definition trimTrailingSlashes :: "string \<Rightarrow> string" where
  "trimTrailingSlashes s = slice s 0 (drop_back s 0 (length s))"

definition trimLeadingSlashes :: "string \<Rightarrow> string" where
  "trimLeadingSlashes s = drop (skip_slashes (length s) s 0 (length s)) s"

definition isHomeSlug :: "string \<Rightarrow> bool" where
  "isHomeSlug slug =
     (let s = trimSlashes slug in s = [] \<or> s = ''home'' \<or> s = ''index'')"

definition isDesignatedHomePage :: "string \<Rightarrow> string \<Rightarrow> string option \<Rightarrow> bool" where
  "isDesignatedHomePage pageId slug designated =
     ((designated \<noteq> None \<and> Some pageId = designated) \<or> isHomeSlug slug)"

section \<open>The walks are the regular expressions\<close>

definition trim_end :: "string \<Rightarrow> string" where
  "trim_end s = rev (dropWhile (\<lambda>c. c = slash) (rev s))"

definition trim_start :: "string \<Rightarrow> string" where
  "trim_start s = dropWhile (\<lambda>c. c = slash) s"

lemma skip_slashes_eq:
  "length s - start \<le> n \<Longrightarrow> start \<le> length s \<Longrightarrow>
     skip_slashes n s start (length s)
       = start + length (takeWhile (\<lambda>c. c = slash) (drop start s))"
proof (induction n arbitrary: start)
  case (Suc n)
  show ?case
  proof (cases "start < length s")
    case True
    then have "drop start s = s ! start # drop (Suc start) s"
      by (rule Cons_nth_drop_Suc [symmetric])
    with Suc True show ?thesis by simp
  qed (use Suc in auto)
qed auto

lemma drop_back_eq:
  "end \<le> length s \<Longrightarrow> start \<le> end \<Longrightarrow>
     drop_back s start end = start + length (trim_end (drop start (take end s)))"
proof (induction s start "end" rule: drop_back.induct)
  case (2 s start e)
  show ?case
  proof (cases "start < Suc e")
    case True
    have "drop start (take (Suc e) s) = drop start (take e s) @ [s ! e]"
      using True 2(2) by (simp add: take_Suc_conv_app_nth)
    with 2 True show ?thesis by (auto simp: trim_end_def)
  next
    case False
    with 2 have "start = Suc e" by simp
    with 2 show ?thesis by (simp add: trim_end_def)
  qed
qed (simp add: trim_end_def)

lemma trim_end_prefix: "take (length (trim_end s)) s = trim_end s"
proof -
  have "s = trim_end s @ rev (takeWhile (\<lambda>c. c = slash) (rev s))"
    unfolding trim_end_def by (metis rev_append rev_rev_ident takeWhile_dropWhile_id)
  then show ?thesis by (metis append_eq_conv_conj)
qed

lemma slice_trim_end:
  assumes "start \<le> length s"
  shows "slice s start (drop_back s start (length s)) = trim_end (drop start s)"
  using assms trim_end_prefix [of "drop start s"]
  by (simp add: drop_back_eq slice_def take_drop add.commute)

lemma trimTrailingSlashes_eq: "trimTrailingSlashes s = trim_end s"
  using slice_trim_end [of 0 s] by (simp add: trimTrailingSlashes_def)

lemma trimLeadingSlashes_eq: "trimLeadingSlashes s = trim_start s"
  by (simp add: trimLeadingSlashes_def trim_start_def skip_slashes_eq dropWhile_eq_drop)

lemma trim_end_props:
  "trim_end s \<noteq> [] \<Longrightarrow> last (trim_end s) \<noteq> slash"
  "\<exists>n. s = trim_end s @ replicate n slash"
proof -
  show "last (trim_end s) \<noteq> slash" if "trim_end s \<noteq> []"
    using that hd_dropWhile [of "\<lambda>c. c = slash" "rev s"] by (simp add: trim_end_def last_rev)
  have "rev s = takeWhile (\<lambda>c. c = slash) (rev s) @ dropWhile (\<lambda>c. c = slash) (rev s)"
    by simp
  then have "s = trim_end s @ rev (takeWhile (\<lambda>c. c = slash) (rev s))"
    unfolding trim_end_def by (metis rev_append rev_rev_ident)
  moreover have "rev (takeWhile (\<lambda>c. c = slash) (rev s))
      = replicate (length (takeWhile (\<lambda>c. c = slash) (rev s))) slash"
    by (rule replicate_eqI) (auto dest: set_takeWhileD)
  ultimately show "\<exists>n. s = trim_end s @ replicate n slash" by metis
qed

text \<open>The linear walks are the regular expressions they replace: trimming slashes is
  removing the longest run of slashes at the front and then at the back, the trailing trim
  only the one at the back; the result neither starts nor ends with a slash and only slashes
  are removed.\<close>

theorem trim_walks_equal_regex:
  "trimSlashes s = trim_end (trim_start s) \<and> trimTrailingSlashes s = trim_end s
   \<and> (trimSlashes s = [] \<or> hd (trimSlashes s) \<noteq> slash \<and> last (trimSlashes s) \<noteq> slash)
   \<and> (\<exists>m n. s = replicate m slash @ trimSlashes s @ replicate n slash)"
proof -
  have eq: "trimSlashes s = trim_end (trim_start s)"
    by (simp add: trimSlashes_def Let_def skip_slashes_eq slice_trim_end length_takeWhile_le
        trim_start_def dropWhile_eq_drop)
  obtain n where n: "trim_start s = trim_end (trim_start s) @ replicate n slash"
    using trim_end_props(2) by blast
  have "takeWhile (\<lambda>c. c = slash) s = replicate (length (takeWhile (\<lambda>c. c = slash) s)) slash"
    by (rule replicate_eqI) (auto dest: set_takeWhileD)
  then obtain m where m: "s = replicate m slash @ trim_start s"
    unfolding trim_start_def by (metis takeWhile_dropWhile_id)
  have "hd (trimSlashes s) \<noteq> slash" if "trimSlashes s \<noteq> []"
  proof -
    have "hd (trim_start s) = hd (trimSlashes s)" "trim_start s \<noteq> []"
      using n that by (metis eq hd_append2, auto simp: eq trim_end_def)
    then show ?thesis
      using hd_dropWhile [of "\<lambda>c. c = slash" s] by (simp add: trim_start_def)
  qed
  then show ?thesis
    using eq m n trimTrailingSlashes_eq trim_end_props(1) by (metis append_assoc)
qed

end
