(* ===== verification/Redirect_Target.thy ===== *)
theory Redirect_Target
  imports Urls
begin

text \<open>
  What a redirect may point at (packages/shared/src/redirect-target.ts): the checks of a
  same-site path, of an Owner-approved https address, and of what a provider can serve.
  The URL parser of the runtime is the argument parse_url.  The main lemma: a target
  accepted as a path of this site is never read by a browser as an address on another
  host.
\<close>

section \<open>The parsed URL\<close>

record parsed_url =
  url_protocol :: string
  url_username :: string
  url_password :: string
  url_hostname :: string
  url_port :: string
  url_pathname :: string
  url_search :: string
  url_hash :: string
  url_href :: string

type_synonym url_parser = "string \<Rightarrow> parsed_url option"

section \<open>External addresses\<close>

definition EXTERNAL_REDIRECT_MAX_LENGTH :: nat where
  "EXTERNAL_REDIRECT_MAX_LENGTH = 1000"

definition external_unsafe :: "char \<Rightarrow> bool" where
  "external_unsafe c =
     (js_white c \<or> js_control c
      \<or> (of_char c :: nat) \<in> {92, 123, 125, 34, 96, 60, 62, 94, 124})"

definition line_terminator :: "char \<Rightarrow> bool" where
  "line_terminator c = ((of_char c :: nat) \<in> {10, 13})"

definition ip_part :: "string \<Rightarrow> bool" where
  "ip_part w = (1 \<le> length w \<and> length w \<le> 3 \<and> list_all is_digit w)"

text \<open>The host pattern: a bracketed address, a dotted quad, a name without a dot, or one
  under localhost, local or internal; letters match in either case.\<close>

definition NON_PUBLIC_HOST :: "string \<Rightarrow> bool" where
  "NON_PUBLIC_HOST host =
     (let h = map to_lower host;
          under = (\<lambda>suffix. ends_with h suffix \<and> length h > length suffix
             \<and> list_all (\<lambda>c. \<not> line_terminator c) (take (length h - length suffix) h))
      in (2 \<le> length h \<and> hd h = CHR ''['' \<and> last h = CHR '']''
            \<and> list_all (\<lambda>c. \<not> line_terminator c) h)
         \<or> (length (split_on (CHR ''.'') h) = 4 \<and> list_all ip_part (split_on (CHR ''.'') h))
         \<or> h = ''localhost''
         \<or> (h \<noteq> [] \<and> CHR ''.'' \<notin> set h)
         \<or> under ''.localhost'' \<or> under ''.local'' \<or> under ''.internal'')"

datatype target_issue =
    Too_long
  | Not_https
  | Unsafe_character
  | Not_an_address
  | Has_credentials
  | Has_port
  | Not_public_host
  | Not_canonical string
  | No_leading_slash
  | Has_whitespace
  | Has_backslash
  | Protocol_relative string
  | Embeds_url string "string option"

definition isExternalRedirectTarget :: "string \<Rightarrow> bool" where
  "isExternalRedirectTarget target = starts_with target ''https://''"

definition externalRedirectTargetIssue :: "url_parser \<Rightarrow> string \<Rightarrow> target_issue option" where
  "externalRedirectTargetIssue parse_url url =
     (if length url > EXTERNAL_REDIRECT_MAX_LENGTH then Some Too_long
      else if \<not> starts_with url ''https://'' then Some Not_https
      else if list_ex external_unsafe url then Some Unsafe_character
      else (case parse_url url of
              None \<Rightarrow> Some Not_an_address
            | Some u \<Rightarrow>
                if url_username u \<noteq> [] \<or> url_password u \<noteq> [] then Some Has_credentials
                else if url_port u \<noteq> [] then Some Has_port
                else if ends_with (url_hostname u) ''.'' \<or> NON_PUBLIC_HOST (url_hostname u)
                then Some Not_public_host
                else if url_href u \<noteq> url \<and> url_href u \<noteq> url @ ''/''
                then Some (Not_canonical (url_href u))
                else None))"

datatype host_issue = Is_this_site string | Is_install_host string string | Url_not_parsed

definition externalRedirectHostIssue ::
  "url_parser \<Rightarrow> string \<Rightarrow> (string \<Rightarrow> string option) \<Rightarrow> (host_issue, host_issue option) result" where
  "externalRedirectHostIssue parse_url url installHosts =
     (case parse_url url of
        None \<Rightarrow> Inl Url_not_parsed
      | Some u \<Rightarrow>
          (case installHosts (url_hostname u) of
             None \<Rightarrow> Inr None
           | Some what \<Rightarrow>
               if what = ''this site'' then Inr (Some (Is_this_site (url_hostname u)))
               else Inr (Some (Is_install_host (url_hostname u) what))))"

definition has_query_or_fragment :: "string \<Rightarrow> bool" where
  "has_query_or_fragment s = list_ex (\<lambda>c. c = CHR ''?'' \<or> c = CHR ''#'') s"

datatype provider_issue = Gcp_query | No_publisher string

datatype provider_error = Unknown_provider string

definition externalRedirectProviderIssue ::
  "string \<Rightarrow> string option \<Rightarrow> (provider_error, provider_issue option) result" where
  "externalRedirectProviderIssue url provider =
     (case provider of
        None \<Rightarrow> Inr None
      | Some p \<Rightarrow>
          if p \<in> {[], ''self-hosted'', ''gcp-firebase''} then Inr None
          else if p = ''gcp'' then
            Inr (if \<not> has_query_or_fragment url then None else Some Gcp_query)
          else if p = ''aws'' \<or> p = ''azure'' then Inr (Some (No_publisher p))
          else Inl (Unknown_provider p))"

section \<open>Paths of this site\<close>

definition is_alpha :: "char \<Rightarrow> bool" where
  "is_alpha c = (let n = (of_char c :: nat) in (65 \<le> n \<and> n \<le> 90) \<or> (97 \<le> n \<and> n \<le> 122))"

definition is_scheme_char :: "char \<Rightarrow> bool" where
  "is_scheme_char c = (is_alpha c \<or> is_digit c \<or> (of_char c :: nat) \<in> {43, 46, 45})"

text \<open>The scheme token before a colon and what follows the colon.\<close>

definition SCHEME_PREFIX :: "string \<Rightarrow> (string \<times> string) option" where
  "SCHEME_PREFIX s =
     (let name = takeWhile is_scheme_char s; r = dropWhile is_scheme_char s
      in case (name, r) of
           (a # _, c # rest) \<Rightarrow> if is_alpha a \<and> c = CHR '':'' then Some (name, rest) else None
         | _ \<Rightarrow> None)"

text \<open>The pattern http or https, in either case, then two slashes and a further character.\<close>

definition web_url_shape :: "string \<Rightarrow> bool" where
  "web_url_shape url =
     (let l = map to_lower url;
          after = (\<lambda>p. starts_with l p \<and> length url > length p \<and> url ! length p \<noteq> slash)
      in after ''http://'' \<or> after ''https://'')"

definition pathOfEmbeddedUrl :: "url_parser \<Rightarrow> string \<Rightarrow> string option" where
  "pathOfEmbeddedUrl parse_url url =
     (if \<not> web_url_shape url then None
      else (case parse_url url of
              None \<Rightarrow> None
            | Some u \<Rightarrow>
                if url_protocol u \<noteq> ''http:'' \<and> url_protocol u \<noteq> ''https:'' then None
                else Some (url_pathname u @ url_search u @ url_hash u)))"

definition redirectTargetIssue :: "url_parser \<Rightarrow> string \<Rightarrow> target_issue option" where
  "redirectTargetIssue parse_url toPath =
     (if \<not> starts_with toPath ''/'' then Some No_leading_slash
      else if list_ex (\<lambda>c. js_white c \<or> js_control c) toPath then Some Has_whitespace
      else if CHR 0x5C \<in> set toPath then Some Has_backslash
      else if starts_with toPath ''//'' then Some (Protocol_relative (trimLeadingSlashes toPath))
      else (case SCHEME_PREFIX (drop 1 toPath) of
              None \<Rightarrow> None
            | Some (scheme, rest) \<Rightarrow>
                if starts_with rest ''/'' \<or> map to_lower scheme \<in> {''http'', ''https''}
                then Some (Embeds_url scheme
                       (case pathOfEmbeddedUrl parse_url (drop 1 toPath) of
                          Some [] \<Rightarrow> None | hint \<Rightarrow> hint))
                else None))"

definition servableRedirectTargetIssue :: "url_parser \<Rightarrow> string \<Rightarrow> target_issue option" where
  "servableRedirectTargetIssue parse_url target =
     (if isExternalRedirectTarget target then externalRedirectTargetIssue parse_url target
      else redirectTargetIssue parse_url target)"

definition REDIRECT_PATH_MAX_LENGTH :: nat where
  "REDIRECT_PATH_MAX_LENGTH = 500"

definition redirectTargetPathSchema :: "url_parser \<Rightarrow> string \<Rightarrow> bool" where
  "redirectTargetPathSchema parse_url value =
     (1 \<le> length value \<and> length value \<le> REDIRECT_PATH_MAX_LENGTH
      \<and> redirectTargetIssue parse_url value = None)"

section \<open>How a browser reads a Location\<close>

text \<open>A browser strips control characters and spaces at the ends, drops tabs and line
  ends anywhere, and then reads the rest as another address when it starts with a scheme,
  or with two slashes, where a backslash counts as a slash.\<close>

definition browser_input :: "string \<Rightarrow> string" where
  "browser_input s =
     filter (\<lambda>c. (of_char c :: nat) \<notin> {9, 10, 13})
       (rev (dropWhile (\<lambda>c. (of_char c :: nat) \<le> 32)
          (rev (dropWhile (\<lambda>c. (of_char c :: nat) \<le> 32) s))))"

definition slash_like :: "char \<Rightarrow> bool" where
  "slash_like c = (c = slash \<or> c = CHR 0x5C)"

definition names_other_host :: "string \<Rightarrow> bool" where
  "names_other_host s =
     (case browser_input s of
        a # b # _ \<Rightarrow> (slash_like a \<and> slash_like b) \<or> SCHEME_PREFIX (browser_input s) \<noteq> None
      | _ \<Rightarrow> False)"

lemma not_white_printable:
  assumes "\<not> js_white c" "\<not> js_control c"
  shows "(of_char c :: nat) > 32" "(of_char c :: nat) \<notin> {9, 10, 13}"
  using assms by (auto simp: js_white_def js_control_def Let_def)

lemma browser_input_id:
  assumes "list_all (\<lambda>c. \<not> js_white c \<and> \<not> js_control c) s"
  shows "browser_input s = s"
proof -
  have "dropWhile (\<lambda>c. (of_char c :: nat) \<le> 32) t = t"
    if "list_all (\<lambda>c. \<not> js_white c \<and> \<not> js_control c) t" for t
    using that not_white_printable(1) by (cases t) fastforce+
  from this [of s] this [of "rev s"]
  have "rev (dropWhile (\<lambda>c. (of_char c :: nat) \<le> 32)
          (rev (dropWhile (\<lambda>c. (of_char c :: nat) \<le> 32) s))) = s"
    using assms by (simp add: list_all_iff)
  moreover have "filter (\<lambda>c. (of_char c :: nat) \<notin> {9, 10, 13}) s = s"
    using assms not_white_printable(2) by (simp add: list_all_iff)
  ultimately show ?thesis by (simp add: browser_input_def)
qed

lemma not_list_ex: "(\<not> list_ex P xs) = list_all (\<lambda>x. \<not> P x) xs"
  by (simp add: list_all_iff list_ex_iff)

lemma redirectTargetIssue_None:
  assumes "redirectTargetIssue parse_url s = None"
  shows "\<exists>r. s = slash # r" "list_all (\<lambda>c. \<not> js_white c \<and> \<not> js_control c) s"
    "CHR 0x5C \<notin> set s" "\<not> starts_with s ''//''"
  using assms by (auto simp: redirectTargetIssue_def not_list_ex split: if_splits)

definition site_path :: "string \<Rightarrow> bool" where
  "site_path s =
     ((\<exists>r. s = slash # r) \<and> list_all (\<lambda>c. \<not> js_white c \<and> \<not> js_control c) s
      \<and> CHR 0x5C \<notin> set s \<and> \<not> starts_with s ''//'')"

lemma SCHEME_PREFIX_slash: "SCHEME_PREFIX (slash # r) = None"
proof -
  have "\<not> is_scheme_char slash" by code_simp
  then show ?thesis by (simp add: SCHEME_PREFIX_def)
qed

lemma site_path_stays:
  assumes "site_path s"
  shows "\<not> names_other_host s"
proof -
  obtain r where s: "s = slash # r" using assms by (auto simp: site_path_def)
  have "browser_input s = s" using assms by (simp add: site_path_def browser_input_id)
  moreover have "\<not> slash_like b" if "r = b # r'" for b r'
    using assms that by (auto simp: s site_path_def slash_like_def starts_with_def slash_def)
  ultimately show ?thesis
    by (auto simp: names_other_host_def s SCHEME_PREFIX_slash split: list.splits)
qed

text \<open>No open redirect from a path: whatever the URL parser says, a target the
  same-site check accepts is read by every browser as a path on this site; it cannot name
  another host, by a protocol-relative form, a backslash, an embedded scheme or characters a
  browser drops.\<close>

theorem accepted_path_stays_on_site:
  assumes "redirectTargetIssue parse_url s = None"
  shows "\<not> names_other_host s \<and> \<not> isExternalRedirectTarget s"
proof
  have "site_path s" using redirectTargetIssue_None [OF assms] by (simp add: site_path_def)
  then show "\<not> names_other_host s" by (rule site_path_stays)
  from redirectTargetIssue_None(1) [OF assms] show "\<not> isExternalRedirectTarget s"
    by (auto simp: isExternalRedirectTarget_def starts_with_def slash_def)
qed

definition no_url :: url_parser where
  "no_url s = None"

lemma accepted_path_stays_on_site_witness:
  "\<not> names_other_host ''/blog/new?x=1'' \<and> names_other_host ''//evil.example/''"
proof -
  have "redirectTargetIssue no_url ''/blog/new?x=1'' = None" by code_simp
  moreover have "names_other_host ''//evil.example/''" by code_simp
  ultimately show ?thesis using accepted_path_stays_on_site by blast
qed

end
