(* ===== verification/Redirect_Plan.thy ===== *)
theory Redirect_Plan
  imports Redirect_Target Pool_Budget
begin

text \<open>
  The redirect plan every serving layer answers from (packages/shared/src/redirect-plan.ts):
  the redirects file, the normalisation of the table's rows, the collapse of chains, and the
  plan.  Following a chain is a recursion that ends because every hop adds a row to the
  visited ones.  The lemmas show the plan answers every path at most once, never points at a
  path it redirects again, never shadows a file of the build and never leaves the site
  unless an approved address says so.
\<close>

section \<open>Rows and plans\<close>

record RedirectTableRow =
  fromPath :: string
  toPath :: string
  statusCode :: int

datatype RedirectPageUrlStyle = Directory | No_extension

record PlannedRedirect =
  plan_from :: string
  matchPaths :: "string list"
  location :: string
  plan_status :: int
  preserveQuery :: bool

record PlannedGone =
  gone_from :: string
  gone_matchPaths :: "string list"

record RedirectPlan =
  redirects :: "PlannedRedirect list"
  gone :: "PlannedGone list"
  shadowedByBuild :: "string list"

record NormalisedRow =
  bare :: string
  target :: string
  status :: int

datatype plan_error =
    Bad_from_path string
  | From_path_has_query string string
  | Bad_status string int
  | Bad_target string target_issue
  | Conflicting_rows string string int string int
  | Redirect_loop "string list"

definition REDIRECT_STATUSES :: "int list" where
  "REDIRECT_STATUSES = [301, 302, 307, 308]"

definition GONE_STATUS :: int where
  "GONE_STATUS = 410"

section \<open>The redirects file\<close>

datatype file_error = Malformed_line nat string

definition newline :: char where
  "newline = CHR 0x0A"

definition parse_line ::
  "(string \<Rightarrow> js_number) \<Rightarrow> nat \<Rightarrow> string \<Rightarrow> (file_error, RedirectTableRow option) result" where
  "parse_line other index raw =
     (let line = js_trim raw in
      if length line = 0 \<or> starts_with line ''#'' then Inr None
      else (case split_on (CHR '' '') line of
              [from, to, st] \<Rightarrow>
                (case js_Number other st of
                   Whole n \<Rightarrow>
                     if from = [] \<or> to = [] then Inl (Malformed_line (index + 1) raw)
                     else Inr (Some \<lparr>fromPath = from, toPath = to, statusCode = n\<rparr>)
                 | Not_integer \<Rightarrow> Inl (Malformed_line (index + 1) raw))
            | _ \<Rightarrow> Inl (Malformed_line (index + 1) raw)))"

fun parse_lines ::
  "(string \<Rightarrow> js_number) \<Rightarrow> nat \<Rightarrow> string list \<Rightarrow> (file_error, RedirectTableRow list) result" where
  "parse_lines other index [] = Inr []"
| "parse_lines other index (raw # lines) =
     then_result (parse_line other index raw) (\<lambda>row.
     then_result (parse_lines other (index + 1) lines) (\<lambda>rows.
     Inr (case row of None \<Rightarrow> rows | Some r \<Rightarrow> r # rows)))"

definition parseRedirectsFile ::
  "(string \<Rightarrow> js_number) \<Rightarrow> string \<Rightarrow> (file_error, RedirectTableRow list) result" where
  "parseRedirectsFile other text = parse_lines other 0 (split_on newline text)"

definition format_row :: "RedirectTableRow \<Rightarrow> string" where
  "format_row r = fromPath r @ '' '' @ toPath r @ '' '' @ string_of_int (statusCode r)"

definition redirects_header :: string where
  "redirects_header = ''# Auto-generated by Caelo static-generator. Do not edit by hand.''"

definition formatRedirectsFile :: "RedirectTableRow list \<Rightarrow> string" where
  "formatRedirectsFile rows = join_with [newline] ([redirects_header] @ map format_row rows @ [[]])"

section \<open>Paths\<close>

definition stripTrailingSlash :: "string \<Rightarrow> string" where
  "stripTrailingSlash path =
     (if length path > 1
      then (let t = trimTrailingSlashes path in if t = [] then ''/'' else t)
      else path)"

definition pathBeforeQuery :: "string \<Rightarrow> string" where
  "pathBeforeQuery path =
     (let p = takeWhile (\<lambda>c. c \<noteq> CHR ''?'' \<and> c \<noteq> CHR ''#'') path in if p = [] then ''/'' else p)"

definition last_segment :: "string \<Rightarrow> string" where
  "last_segment path = rev (takeWhile (\<lambda>c. c \<noteq> slash) (rev path))"

definition looksLikeFile :: "string \<Rightarrow> bool" where
  "looksLikeFile path = (CHR ''.'' \<in> set (last_segment path))"

definition matchPathsFor :: "string \<Rightarrow> string list" where
  "matchPathsFor b = (if b = ''/'' \<or> looksLikeFile b then [b] else [b, b @ ''/''])"

definition servedByBuild :: "string \<Rightarrow> string list \<Rightarrow> bool" where
  "servedByBuild b servedFiles =
     (if b = ''/'' then ''index.html'' \<in> set servedFiles
      else drop 1 b \<in> set servedFiles \<or> drop 1 b @ ''/index.html'' \<in> set servedFiles)"

definition locationFor :: "string \<Rightarrow> RedirectPageUrlStyle \<Rightarrow> string" where
  "locationFor to style =
     (if isExternalRedirectTarget to then to
      else if style \<noteq> Directory \<or> ends_with to ''/'' then to
      else if has_query_or_fragment to \<or> looksLikeFile to then to
      else to @ ''/'')"

definition redirectFromPathSpellings :: "string \<Rightarrow> string list" where
  "redirectFromPathSpellings path =
     (let b = stripTrailingSlash path in if b = ''/'' then [b] else [b, b @ ''/''])"

section \<open>Statuses\<close>

definition isPermanent :: "int \<Rightarrow> bool" where
  "isPermanent s = (s = 301 \<or> s = 308)"

definition preservesRequestMethod :: "int \<Rightarrow> bool" where
  "preservesRequestMethod s = (s = 307 \<or> s = 308)"

definition combinedStatus :: "bool \<Rightarrow> bool \<Rightarrow> int" where
  "combinedStatus permanent preserves =
     (if permanent then (if preserves then 308 else 301) else (if preserves then 307 else 302))"

definition goneStatusOnProvider :: "string option \<Rightarrow> (provider_error, int) result" where
  "goneStatusOnProvider provider =
     (case provider of
        None \<Rightarrow> Inr 410
      | Some p \<Rightarrow>
          if p \<in> {[], ''self-hosted'', ''aws''} then Inr 410
          else if p \<in> {''gcp'', ''gcp-firebase'', ''azure''} then Inr 404
          else Inl (Unknown_provider p))"

section \<open>Normalising the rows\<close>

definition check_row :: "url_parser \<Rightarrow> RedirectTableRow \<Rightarrow> plan_error option" where
  "check_row parse_url row =
     (let from = fromPath row; code = statusCode row in
      if \<not> starts_with from ''/'' \<or> list_ex (\<lambda>c. js_white c \<or> js_control c) from
      then Some (Bad_from_path from)
      else if has_query_or_fragment from then Some (From_path_has_query from (pathBeforeQuery from))
      else if code \<noteq> GONE_STATUS \<and> code \<notin> set REDIRECT_STATUSES then Some (Bad_status from code)
      else if code \<noteq> GONE_STATUS
      then map_option (Bad_target from) (servableRedirectTargetIssue parse_url (toPath row))
      else None)"

definition normalised :: "RedirectTableRow \<Rightarrow> NormalisedRow" where
  "normalised row =
     \<lparr>bare = stripTrailingSlash (fromPath row), target = toPath row, status = statusCode row\<rparr>"

fun normalise_from ::
  "url_parser \<Rightarrow> (string \<times> NormalisedRow) list \<Rightarrow> NormalisedRow list \<Rightarrow> RedirectTableRow list
   \<Rightarrow> (plan_error, NormalisedRow list) result" where
  "normalise_from parse_url byBare out [] = Inr out"
| "normalise_from parse_url byBare out (row # rows) =
     (case check_row parse_url row of
        Some e \<Rightarrow> Inl e
      | None \<Rightarrow>
          (let n = normalised row in
           case js_get byBare (bare n) of
             Some existing \<Rightarrow>
               if target existing = toPath row \<and> status existing = statusCode row
               then normalise_from parse_url byBare out rows
               else Inl (Conflicting_rows (bare n) (target existing) (status existing)
                           (toPath row) (statusCode row))
           | None \<Rightarrow>
               normalise_from parse_url (js_set (bare n) n byBare) (out @ [n]) rows))"

definition normaliseRows ::
  "url_parser \<Rightarrow> RedirectTableRow list \<Rightarrow> (plan_error, NormalisedRow list) result" where
  "normaliseRows parse_url rows = normalise_from parse_url [] [] rows"

section \<open>Collapsing a chain\<close>

lemma js_get_in_values: "js_get live k = Some r \<Longrightarrow> r \<in> set (map snd live)"
  by (force simp: js_get_def dest: map_of_SomeD)

definition cycle_from :: "string list \<Rightarrow> string \<Rightarrow> string list" where
  "cycle_from visited b = dropWhile (\<lambda>v. v \<noteq> b) visited @ [b]"

function follow ::
  "(string \<times> NormalisedRow) list \<Rightarrow> string list \<Rightarrow> string \<Rightarrow> bool \<Rightarrow> bool
   \<Rightarrow> (plan_error, string \<times> int) result" where
  "follow live visited to permanent preserves =
     (if has_query_or_fragment to \<or> isExternalRedirectTarget to
      then Inr (to, combinedStatus permanent preserves)
      else (case js_get live (stripTrailingSlash to) of
              None \<Rightarrow> Inr (to, combinedStatus permanent preserves)
            | Some next \<Rightarrow>
                if status next = GONE_STATUS then Inr (to, combinedStatus permanent preserves)
                else if bare next \<in> set visited
                then Inl (Redirect_loop (cycle_from visited (bare next)))
                else follow live (visited @ [bare next]) (target next)
                       (permanent \<and> isPermanent (status next))
                       (preserves \<and> preservesRequestMethod (status next))))"
  by pat_completeness auto
termination
proof (relation "measure (\<lambda>(live, visited, _). length (filter (\<lambda>r. bare r \<notin> set visited) (map snd live)))")
  fix live visited to permanent preserves and nxt :: NormalisedRow
  assume got: "js_get live (stripTrailingSlash to) = Some nxt" and new: "bare nxt \<notin> set visited"
  from got have mem: "nxt \<in> set (map snd live)" by (rule js_get_in_values)
  have less: "length (filter (\<lambda>r. bare r \<notin> set (visited @ [bare nxt])) rs)
      < length (filter (\<lambda>r. bare r \<notin> set visited) rs)" if "nxt \<in> set rs" for rs
    using that new
  proof (induction rs)
    case (Cons r rs)
    have "length (filter (\<lambda>r. bare r \<notin> set (visited @ [bare nxt])) rs)
        \<le> length (filter (\<lambda>r. bare r \<notin> set visited) rs)"
      by (induction rs) auto
    with Cons show ?case by (cases "r = nxt") auto
  qed simp
  show "((live, visited @ [bare nxt], target nxt, permanent \<and> isPermanent (status nxt),
            preserves \<and> preservesRequestMethod (status nxt)),
          (live, visited, to, permanent, preserves))
    \<in> measure (\<lambda>(live, visited, _). length (filter (\<lambda>r. bare r \<notin> set visited) (map snd live)))"
    using less [OF mem] by simp
qed simp

declare follow.simps [simp del]

definition collapseChain ::
  "NormalisedRow \<Rightarrow> (string \<times> NormalisedRow) list \<Rightarrow> (plan_error, string \<times> int) result" where
  "collapseChain row live =
     follow live [bare row] (target row) (isPermanent (status row))
       (preservesRequestMethod (status row))"

section \<open>The plan\<close>

definition live_rows :: "NormalisedRow list \<Rightarrow> string list \<Rightarrow> (string \<times> NormalisedRow) list" where
  "live_rows rows served =
     foldl (\<lambda>live row. if servedByBuild (bare row) served then live else js_set (bare row) row live)
       [] rows"

fun plan_rows ::
  "(string \<times> NormalisedRow) list \<Rightarrow> RedirectPageUrlStyle \<Rightarrow> NormalisedRow list
   \<Rightarrow> (plan_error, PlannedRedirect list \<times> PlannedGone list) result" where
  "plan_rows live style [] = Inr ([], [])"
| "plan_rows live style (row # rows) =
     (if status row = GONE_STATUS
      then then_result (plan_rows live style rows) (\<lambda>(rs, gs).
             Inr (rs, \<lparr>gone_from = bare row, gone_matchPaths = matchPathsFor (bare row)\<rparr> # gs))
      else then_result (collapseChain row live) (\<lambda>(to, code).
           then_result (plan_rows live style rows) (\<lambda>(rs, gs).
             Inr (\<lparr>plan_from = bare row, matchPaths = matchPathsFor (bare row),
                    location = locationFor to style, plan_status = code,
                    preserveQuery = \<not> has_query_or_fragment (locationFor to style)\<rparr> # rs, gs))))"

definition buildRedirectPlan ::
  "url_parser \<Rightarrow> RedirectTableRow list \<Rightarrow> RedirectPageUrlStyle \<Rightarrow> string list
   \<Rightarrow> (plan_error, RedirectPlan) result" where
  "buildRedirectPlan parse_url rows style served =
     then_result (normaliseRows parse_url rows) (\<lambda>normal.
     (let live = live_rows normal served in
      then_result (plan_rows live style (map snd live)) (\<lambda>(rs, gs).
      Inr \<lparr>redirects = rs, gone = gs,
           shadowedByBuild = map bare (filter (\<lambda>r. servedByBuild (bare r) served) normal)\<rparr>)))"

definition redirectsToUnservedPaths :: "RedirectPlan \<Rightarrow> string list \<Rightarrow> PlannedRedirect list" where
  "redirectsToUnservedPaths plan served =
     filter (\<lambda>r.
       if isExternalRedirectTarget (location r) then False
       else (let path = pathBeforeQuery (location r) in
             if path = ''/api'' \<or> starts_with path ''/api/'' then False
             else if looksLikeFile path then drop 1 path \<notin> set served
             else \<not> servedByBuild (stripTrailingSlash path) served))
       (redirects plan)"

section \<open>Canonical paths\<close>

definition canonical :: "string \<Rightarrow> bool" where
  "canonical b = ((\<exists>r. b = slash # r) \<and> (b = [slash] \<or> last b \<noteq> slash))"

lemma slash_string: "''/'' = [slash]"
  by (simp add: slash_def)

lemma stripTrailingSlash_eq:
  "stripTrailingSlash p = (if length p > 1 then (if trim_end p = [] then [slash] else trim_end p) else p)"
  by (simp add: stripTrailingSlash_def trimTrailingSlashes_eq slash_string Let_def)

lemma trim_end_append_slash [simp]: "trim_end (p @ [slash]) = trim_end p"
  by (simp add: trim_end_def)

lemma trim_end_no_slash: "p \<noteq> [] \<Longrightarrow> last p \<noteq> slash \<Longrightarrow> trim_end p = p"
  by (cases p rule: rev_cases) (simp_all add: trim_end_def)

lemma trim_end_slash_Cons: "trim_end (slash # r) = [] \<or> (\<exists>q. trim_end (slash # r) = slash # q)"
  using trim_end_props(2) [of "slash # r"] by (cases "trim_end (slash # r)") auto

lemma strip_canonical: "canonical (stripTrailingSlash (slash # r))"
proof (cases "trim_end (slash # r) = [] \<or> r = []")
  case True
  then show ?thesis by (auto simp: stripTrailingSlash_eq canonical_def)
next
  case False
  then show ?thesis
    using trim_end_slash_Cons [of r] trim_end_props(1) [of "slash # r"]
    by (auto simp: stripTrailingSlash_eq canonical_def)
qed

lemma strip_of_canonical: "canonical b \<Longrightarrow> stripTrailingSlash b = b"
  by (auto simp: canonical_def stripTrailingSlash_eq trim_end_no_slash)

lemma strip_append_slash: "stripTrailingSlash ((slash # r) @ [slash]) = stripTrailingSlash (slash # r)"
proof (cases r)
  case Nil
  then show ?thesis by (simp add: stripTrailingSlash_eq trim_end_def)
next
  case (Cons a list)
  have "trim_end ((slash # r) @ [slash]) = trim_end (slash # r)"
    by (rule trim_end_append_slash)
  with Cons show ?thesis by (simp add: stripTrailingSlash_eq)
qed

lemma strip_matchPath:
  assumes "canonical b" "m \<in> set (matchPathsFor b)"
  shows "stripTrailingSlash m = b"
proof -
  obtain r where b: "b = slash # r" using assms(1) by (auto simp: canonical_def)
  have "m = b \<or> m = b @ [slash]"
    using assms(2) by (auto simp: matchPathsFor_def slash_string split: if_splits)
  then show ?thesis
    using strip_of_canonical [OF assms(1)] strip_append_slash [of r] b by auto
qed

lemma has_query_append [simp]: "has_query_or_fragment (p @ q) = (has_query_or_fragment p \<or> has_query_or_fragment q)"
  by (simp add: has_query_or_fragment_def)

lemma has_query_slash [simp]: "\<not> has_query_or_fragment [slash]"
  by (simp add: has_query_or_fragment_def slash_def)

lemma strip_no_query: "\<not> has_query_or_fragment p \<Longrightarrow> \<not> has_query_or_fragment (stripTrailingSlash p)"
  using trim_end_props(2) [of p] by (auto simp: stripTrailingSlash_eq) (metis has_query_append)

lemma matchPath_shape:
  assumes "canonical b" "\<not> has_query_or_fragment b" "m \<in> set (matchPathsFor b)"
  shows "\<not> has_query_or_fragment m" "\<exists>r. m = slash # r"
proof -
  have "m = b \<or> m = b @ [slash]"
    using assms(3) by (auto simp: matchPathsFor_def slash_string split: if_splits)
  moreover have "\<not> has_query_or_fragment (b @ [slash])" using assms(2) by simp
  ultimately show "\<not> has_query_or_fragment m" using assms(2) by metis
  show "\<exists>r. m = slash # r"
    using \<open>m = b \<or> m = b @ [slash]\<close> assms(1) by (auto simp: canonical_def)
qed

section \<open>What normalisation guarantees\<close>

definition good_row :: "url_parser \<Rightarrow> NormalisedRow \<Rightarrow> bool" where
  "good_row parse_url r =
     (canonical (bare r) \<and> \<not> has_query_or_fragment (bare r)
      \<and> (status r \<noteq> GONE_STATUS \<longrightarrow> status r \<in> set REDIRECT_STATUSES
           \<and> servableRedirectTargetIssue parse_url (target r) = None))"

lemma check_row_None:
  "check_row parse_url row = None \<Longrightarrow> good_row parse_url (normalised row)"
  by (auto simp: check_row_def good_row_def normalised_def Let_def strip_canonical strip_no_query
      split: if_splits)

lemma normalise_from_ok:
  assumes "normalise_from parse_url byBare out rows = Inr res"
    and "\<forall>k. js_get byBare k = None \<longleftrightarrow> k \<notin> bare ` set out"
    and "distinct (map bare out)" "\<forall>r \<in> set out. good_row parse_url r"
  shows "distinct (map bare res) \<and> (\<forall>r \<in> set res. good_row parse_url r)"
  using assms
proof (induction parse_url byBare out rows rule: normalise_from.induct)
  case (2 parse_url byBare out row rows)
  then have ok: "check_row parse_url row = None" by (auto split: option.splits)
  let ?n = "normalised row"
  show ?case
  proof (cases "js_get byBare (bare ?n)")
    case None
    have "\<forall>k. js_get (js_set (bare ?n) ?n byBare) k = None \<longleftrightarrow> k \<notin> bare ` set (out @ [?n])"
      using "2.prems"(2) by (auto simp: js_map_simps)
    moreover have "distinct (map bare (out @ [?n]))"
      using "2.prems"(2,3) None by auto
    moreover have "\<forall>r \<in> set (out @ [?n]). good_row parse_url r"
      using "2.prems"(4) check_row_None [OF ok] by auto
    ultimately show ?thesis
      using "2.IH"(1) [OF ok refl None] "2.prems"(1) ok None by (simp add: Let_def)
  next
    case (Some ex)
    then show ?thesis
      using "2.IH"(2) [OF ok refl Some] "2.prems" ok by (auto simp: Let_def split: if_splits)
  qed
qed simp

lemma normaliseRows_ok:
  assumes "normaliseRows parse_url rows = Inr res"
  shows "distinct (map bare res)" "\<forall>r \<in> set res. good_row parse_url r"
  using normalise_from_ok [OF assms [unfolded normaliseRows_def]] by (auto simp: js_get_def)

section \<open>The live rows\<close>

lemma live_rows_eq:
  assumes "distinct (map bare rows)"
  shows "live_rows rows served
    = map (\<lambda>r. (bare r, r)) (filter (\<lambda>r. \<not> servedByBuild (bare r) served) rows)"
proof -
  have "foldl (\<lambda>live row. if servedByBuild (bare row) served then live else js_set (bare row) row live)
      acc rows = acc @ map (\<lambda>r. (bare r, r)) (filter (\<lambda>r. \<not> servedByBuild (bare r) served) rows)"
    if "distinct (map bare rows)" "\<forall>r \<in> set rows. js_get acc (bare r) = None"
    for acc :: "(string \<times> NormalisedRow) list"
    using that
  proof (induction rows arbitrary: acc)
    case (Cons r rows)
    have "bare x \<noteq> bare r" if "x \<in> set rows" for x
      using Cons.prems(1) that by (metis distinct.simps(2) image_eqI list.simps(9) set_map)
    then have "\<forall>x \<in> set rows. js_get (js_set (bare r) r acc) (bare x) = None"
      using Cons.prems by (simp add: js_map_simps)
    with Cons show ?case by (simp add: js_set_new)
  qed simp
  from this [OF assms, of "[]"] show ?thesis
    by (simp add: live_rows_def js_get_def)
qed

definition live_ok :: "url_parser \<Rightarrow> (string \<times> NormalisedRow) list \<Rightarrow> bool" where
  "live_ok parse_url live =
     (distinct (map fst live) \<and> (\<forall>(k, r) \<in> set live. k = bare r \<and> good_row parse_url r))"

lemma live_rows_ok:
  assumes "normaliseRows parse_url rows = Inr normal"
  shows "live_ok parse_url (live_rows normal served)"
    "\<forall>r \<in> snd ` set (live_rows normal served). \<not> servedByBuild (bare r) served"
  using normaliseRows_ok [OF assms]
  by (auto simp: live_ok_def live_rows_eq distinct_map_filter comp_def)

lemma live_get:
  assumes "live_ok parse_url live" "r \<in> set (map snd live)"
  shows "js_get live (bare r) = Some r" "good_row parse_url r"
  using assms by (auto simp: live_ok_def js_get_def)

lemma live_getD:
  assumes "live_ok parse_url live" "js_get live k = Some r"
  shows "bare r = k" "good_row parse_url r" "r \<in> set (map snd live)"
proof -
  have "(k, r) \<in> set live" using assms(2) unfolding js_get_def by (rule map_of_SomeD)
  then show "bare r = k" "good_row parse_url r" "r \<in> set (map snd live)"
    using assms(1) by (auto simp: live_ok_def intro: rev_image_eqI)
qed

section \<open>Hops\<close>

text \<open>A target ends a chain when it has a query or fragment, leaves the site, or meets no
  live row or a gone one; otherwise the chain hops to the row it meets.\<close>

definition next_row :: "(string \<times> NormalisedRow) list \<Rightarrow> string \<Rightarrow> NormalisedRow option" where
  "next_row live to =
     (if has_query_or_fragment to \<or> isExternalRedirectTarget to then None
      else (case js_get live (stripTrailingSlash to) of
              None \<Rightarrow> None
            | Some r \<Rightarrow> if status r = GONE_STATUS then None else Some r))"

inductive leads_to :: "(string \<times> NormalisedRow) list \<Rightarrow> string \<Rightarrow> NormalisedRow list \<Rightarrow> string \<Rightarrow> bool"
  for live where
  stop: "next_row live to = None \<Longrightarrow> leads_to live to [] to"
| hop: "next_row live to = Some r \<Longrightarrow> leads_to live (target r) hops final
        \<Longrightarrow> leads_to live to (r # hops) final"

inductive_cases leads_to_NilE: "leads_to live to [] final"
inductive_cases leads_to_ConsE: "leads_to live to (r # hops) final"

definition hops_to :: "(string \<times> NormalisedRow) list \<Rightarrow> string \<Rightarrow> string \<Rightarrow> bool" where
  "hops_to live a b =
     (\<exists>r n. js_get live a = Some r \<and> status r \<noteq> GONE_STATUS \<and> next_row live (target r) = Some n
            \<and> bare n = b)"

lemma follow_step:
  "follow live visited to permanent preserves =
     (case next_row live to of
        None \<Rightarrow> Inr (to, combinedStatus permanent preserves)
      | Some n \<Rightarrow>
          if bare n \<in> set visited then Inl (Redirect_loop (cycle_from visited (bare n)))
          else follow live (visited @ [bare n]) (target n) (permanent \<and> isPermanent (status n))
                 (preserves \<and> preservesRequestMethod (status n)))"
  by (cases "js_get live (stripTrailingSlash to)")
    (simp_all add: follow.simps [of live visited to] next_row_def)

lemma follow_Inr:
  "follow live visited to permanent preserves = Inr (final, code) \<Longrightarrow>
     \<exists>hops. leads_to live to hops final
       \<and> code = combinedStatus (permanent \<and> (\<forall>h \<in> set hops. isPermanent (status h)))
                  (preserves \<and> (\<forall>h \<in> set hops. preservesRequestMethod (status h)))"
proof (induction live visited to permanent preserves rule: follow.induct)
  case (1 live visited to permanent preserves)
  show ?case
  proof (cases "next_row live to")
    case None
    with 1(2) have "final = to" "code = combinedStatus permanent preserves"
      by (simp_all add: follow_step [of live visited to])
    with stop [OF None] show ?thesis by (intro exI [of _ "[]"]) simp
  next
    case (Some n)
    with 1(2) have new: "bare n \<notin> set visited" by (auto simp: follow_step [of live visited to])
    from Some have n: "\<not> (has_query_or_fragment to \<or> isExternalRedirectTarget to)"
      "js_get live (stripTrailingSlash to) = Some n" "status n \<noteq> GONE_STATUS"
      by (auto simp: next_row_def split: if_splits option.splits)
    have rec: "follow live (visited @ [bare n]) (target n) (permanent \<and> isPermanent (status n))
        (preserves \<and> preservesRequestMethod (status n)) = Inr (final, code)"
      using 1(2) Some new by (simp add: follow_step [of live visited to])
    then obtain hops where "leads_to live (target n) hops final"
      "code = combinedStatus ((permanent \<and> isPermanent (status n)) \<and> (\<forall>h \<in> set hops. isPermanent (status h)))
         ((preserves \<and> preservesRequestMethod (status n)) \<and> (\<forall>h \<in> set hops. preservesRequestMethod (status h)))"
      using 1(1) [OF n(1,2,3) new] by blast
    with hop [OF Some] show ?thesis by (intro exI [of _ "n # hops"]) simp
  qed
qed

lemma leads_to_final: "leads_to live to hops final \<Longrightarrow> next_row live final = None"
  by (induction rule: leads_to.induct) auto

lemma leads_to_origin:
  "leads_to live to hops final \<Longrightarrow> final = to \<or> (\<exists>r \<in> set hops. final = target r)"
  by (induction rule: leads_to.induct) auto

lemma next_row_live:
  "next_row live to = Some r \<Longrightarrow> js_get live (stripTrailingSlash to) = Some r \<and> status r \<noteq> GONE_STATUS"
  by (auto simp: next_row_def split: if_splits option.splits)

lemma leads_to_live:
  "leads_to live to hops final \<Longrightarrow> \<forall>r \<in> set hops. r \<in> set (map snd live) \<and> status r \<noteq> GONE_STATUS"
  by (induction rule: leads_to.induct) (auto dest!: next_row_live js_get_in_values)

section \<open>What the plan contains\<close>

definition planned :: "(string \<times> NormalisedRow) list \<Rightarrow> RedirectPageUrlStyle \<Rightarrow> NormalisedRow
    \<Rightarrow> string \<times> int \<Rightarrow> PlannedRedirect" where
  "planned live style row tc =
     \<lparr>plan_from = bare row, matchPaths = matchPathsFor (bare row),
      location = locationFor (fst tc) style, plan_status = snd tc,
      preserveQuery = \<not> has_query_or_fragment (locationFor (fst tc) style)\<rparr>"

lemma planned_from [simp]: "plan_from (planned live style row tc) = bare row"
  by (simp add: planned_def)

lemma plan_rows_Inr:
  assumes "plan_rows live style rows = Inr (rs, gs)"
  shows "\<forall>p \<in> set rs. \<exists>row \<in> set rows. \<exists>tc. status row \<noteq> GONE_STATUS
           \<and> collapseChain row live = Inr tc \<and> p = planned live style row tc"
    "map plan_from rs = map bare (filter (\<lambda>r. status r \<noteq> GONE_STATUS) rows)"
    "gs = map (\<lambda>r. \<lparr>gone_from = bare r, gone_matchPaths = matchPathsFor (bare r)\<rparr>)
            (filter (\<lambda>r. status r = GONE_STATUS) rows)"
proof -
  have "(\<forall>p \<in> set rs. \<exists>row \<in> set rows. \<exists>tc. status row \<noteq> GONE_STATUS
           \<and> collapseChain row live = Inr tc \<and> p = planned live style row tc)
    \<and> map plan_from rs = map bare (filter (\<lambda>r. status r \<noteq> GONE_STATUS) rows)
    \<and> gs = map (\<lambda>r. \<lparr>gone_from = bare r, gone_matchPaths = matchPathsFor (bare r)\<rparr>)
            (filter (\<lambda>r. status r = GONE_STATUS) rows)"
    using assms
  proof (induction rows arbitrary: rs gs)
    case (Cons row rows)
    show ?case
    proof (cases "status row = GONE_STATUS")
      case True
      with Cons.prems obtain gs' where
        "plan_rows live style rows = Inr (rs, gs')"
        "gs = \<lparr>gone_from = bare row, gone_matchPaths = matchPathsFor (bare row)\<rparr> # gs'"
        by (auto simp: result_simps)
      with Cons.IH [of rs gs'] True show ?thesis by auto
    next
      case False
      with Cons.prems obtain tc rs' where
        "collapseChain row live = Inr tc" "plan_rows live style rows = Inr (rs', gs)"
        "rs = planned live style row tc # rs'"
        by (auto simp: result_simps planned_def)
      with Cons.IH [of rs' gs] False show ?thesis by (cases tc) auto
    qed
  qed simp
  then show "\<forall>p \<in> set rs. \<exists>row \<in> set rows. \<exists>tc. status row \<noteq> GONE_STATUS
           \<and> collapseChain row live = Inr tc \<and> p = planned live style row tc"
    "map plan_from rs = map bare (filter (\<lambda>r. status r \<noteq> GONE_STATUS) rows)"
    "gs = map (\<lambda>r. \<lparr>gone_from = bare r, gone_matchPaths = matchPathsFor (bare r)\<rparr>)
            (filter (\<lambda>r. status r = GONE_STATUS) rows)"
    by blast+
qed

lemma buildRedirectPlan_Inr:
  assumes "buildRedirectPlan parse_url rows style served = Inr plan"
  obtains normal where "normaliseRows parse_url rows = Inr normal"
    "plan_rows (live_rows normal served) style (map snd (live_rows normal served))
       = Inr (redirects plan, gone plan)"
    "shadowedByBuild plan = map bare (filter (\<lambda>r. servedByBuild (bare r) served) normal)"
  using assms by (auto simp: buildRedirectPlan_def result_simps Let_def)

lemma planned_redirect:
  assumes "buildRedirectPlan parse_url rows style served = Inr plan" "p \<in> set (redirects plan)"
    "normaliseRows parse_url rows = Inr normal"
  obtains row hops final where
    "row \<in> set (map snd (live_rows normal served))" "status row \<noteq> GONE_STATUS"
    "leads_to (live_rows normal served) (target row) hops final"
    "plan_from p = bare row" "matchPaths p = matchPathsFor (bare row)"
    "location p = locationFor final style"
    "plan_status p = combinedStatus (\<forall>h \<in> set (row # hops). isPermanent (status h))
       (\<forall>h \<in> set (row # hops). preservesRequestMethod (status h))"
    "preserveQuery p = (\<not> has_query_or_fragment (location p))"
proof -
  from assms(1,3) have "plan_rows (live_rows normal served) style (map snd (live_rows normal served))
       = Inr (redirects plan, gone plan)"
    by (auto elim: buildRedirectPlan_Inr)
  from plan_rows_Inr(1) [OF this] assms(2) obtain row final code where row:
    "row \<in> set (map snd (live_rows normal served))" "status row \<noteq> GONE_STATUS"
    "collapseChain row (live_rows normal served) = Inr (final, code)"
    "p = planned (live_rows normal served) style row (final, code)"
    by fastforce
  from follow_Inr [OF row(3) [unfolded collapseChain_def]] obtain hops where
    "leads_to (live_rows normal served) (target row) hops final"
    "code = combinedStatus (\<forall>h \<in> set (row # hops). isPermanent (status h))
       (\<forall>h \<in> set (row # hops). preservesRequestMethod (status h))"
    by auto
  with row that show thesis by (simp add: planned_def)
qed

section \<open>Properties of the plan\<close>

lemma external_shape: "isExternalRedirectTarget s \<Longrightarrow> \<nexists>r. s = slash # r"
  by (auto simp: isExternalRedirectTarget_def starts_with_def slash_def)

lemma servable_path:
  assumes "servableRedirectTargetIssue parse_url s = None" "\<not> isExternalRedirectTarget s"
  shows "site_path s"
  using assms redirectTargetIssue_None [of parse_url s]
  by (simp add: servableRedirectTargetIssue_def site_path_def)

lemma locationFor_cases:
  "locationFor s style = s \<or> (locationFor s style = s @ [slash] \<and> \<not> isExternalRedirectTarget s
     \<and> \<not> has_query_or_fragment s \<and> \<not> ends_with s [slash])"
  by (simp add: locationFor_def slash_string)

lemma site_path_append_slash:
  assumes "site_path s" "\<not> ends_with s [slash]"
  shows "site_path (s @ [slash])"
proof -
  have "\<not> js_white slash" "\<not> js_control slash" "slash \<noteq> CHR 0x5C" by code_simp+
  moreover obtain a r where "s = slash # a # r"
    using assms by (cases s; cases "tl s") (auto simp: site_path_def ends_with_def)
  ultimately show ?thesis
    using assms(1) by (auto simp: site_path_def starts_with_def slash_def)
qed

lemma planned_final_servable:
  assumes "live_ok parse_url live" "row \<in> set (map snd live)" "status row \<noteq> GONE_STATUS"
    "leads_to live (target row) hops final"
  shows "servableRedirectTargetIssue parse_url final = None"
proof -
  have "final = target row \<or> (\<exists>r \<in> set hops. final = target r)"
    using leads_to_origin [OF assms(4)] .
  then obtain r where "final = target r" "r \<in> set (map snd live)" "status r \<noteq> GONE_STATUS"
    using assms(2,3) leads_to_live [OF assms(4)] by blast
  with live_get(2) [OF assms(1)] show ?thesis by (simp add: good_row_def)
qed

text \<open>C7. No open redirect from the whole table: every Location the plan serves, after
  collapsing chains and adding the trailing slash, is either an external address that
  passed the approval check in exactly that spelling, or a path no browser reads as another
  host.\<close>

theorem plan_has_no_open_redirect:
  assumes "buildRedirectPlan parse_url rows style served = Inr plan" "p \<in> set (redirects plan)"
  shows "(isExternalRedirectTarget (location p)
          \<and> externalRedirectTargetIssue parse_url (location p) = None)
    \<or> \<not> names_other_host (location p)"
proof -
  obtain normal where n: "normaliseRows parse_url rows = Inr normal"
    using assms(1) by (rule buildRedirectPlan_Inr)
  obtain row hops final where row: "row \<in> set (map snd (live_rows normal served))"
    "status row \<noteq> GONE_STATUS" "leads_to (live_rows normal served) (target row) hops final"
    "location p = locationFor final style"
    by (rule planned_redirect [OF assms n])
  have servable: "servableRedirectTargetIssue parse_url final = None"
    by (rule planned_final_servable [OF live_rows_ok(1) [OF n] row(1-3)])
  show ?thesis
  proof (cases "isExternalRedirectTarget final")
    case True
    with servable row(4) show ?thesis
      by (simp add: locationFor_def servableRedirectTargetIssue_def)
  next
    case False
    then have "site_path final" by (rule servable_path [OF servable])
    then have "site_path (location p)"
      using locationFor_cases [of final style] row(4) site_path_append_slash by auto
    then show ?thesis using site_path_stays by blast
  qed
qed

lemma normalise_from_origin:
  "normalise_from parse_url byBare out rows = Inr res
     \<Longrightarrow> set res \<subseteq> set out \<union> normalised ` set rows"
proof (induction parse_url byBare out rows rule: normalise_from.induct)
  case (2 parse_url byBare out row rows)
  then have ok: "check_row parse_url row = None" by (auto split: option.splits)
  show ?case
  proof (cases "js_get byBare (bare (normalised row))")
    case None
    then have "normalise_from parse_url (js_set (bare (normalised row)) (normalised row) byBare)
        (out @ [normalised row]) rows = Inr res"
      using "2.prems" ok by (simp add: Let_def)
    with "2.IH"(1) [OF ok refl None] show ?thesis by auto
  next
    case (Some ex)
    then show ?thesis
      using "2.IH"(2) [OF ok refl Some] "2.prems" ok by (auto simp: Let_def split: if_splits)
  qed
qed simp

lemma live_rows_origin:
  assumes "normaliseRows parse_url rows = Inr normal" "r \<in> set (map snd (live_rows normal served))"
  shows "r \<in> set (map normalised rows)"
  using assms(2) normalise_from_origin [OF assms(1) [unfolded normaliseRows_def]]
  by (auto simp: live_rows_eq [OF normaliseRows_ok(1) [OF assms(1)]])

lemma combinedStatus_flags [simp]:
  "isPermanent (combinedStatus a b) = a" "preservesRequestMethod (combinedStatus a b) = b"
  by (simp_all add: combinedStatus_def isPermanent_def preservesRequestMethod_def)

lemma strip_locationFor:
  assumes "site_path s"
  shows "stripTrailingSlash (locationFor s style) = stripTrailingSlash s"
proof -
  obtain r where "s = slash # r" using assms by (auto simp: site_path_def)
  then show ?thesis using locationFor_cases [of s style] strip_append_slash [of r] by auto
qed

lemma location_meets_no_row:
  assumes "live_ok parse_url live" "servableRedirectTargetIssue parse_url final = None"
    "next_row live final = None" "r \<in> set (map snd live)" "status r \<noteq> GONE_STATUS"
  shows "locationFor final style \<notin> set (matchPathsFor (bare r))"
proof
  assume match: "locationFor final style \<in> set (matchPathsFor (bare r))"
  have good: "canonical (bare r)" "\<not> has_query_or_fragment (bare r)"
    using live_get(2) [OF assms(1,4)] by (simp_all add: good_row_def)
  note shape = matchPath_shape [OF good match]
  have int: "\<not> isExternalRedirectTarget final"
    using shape(2) external_shape [of final] by (auto simp: locationFor_def)
  then have path: "site_path final" by (rule servable_path [OF assms(2)])
  have "\<not> has_query_or_fragment final"
    using shape(1) locationFor_cases [of final style] by auto
  moreover have "stripTrailingSlash final = bare r"
    using strip_matchPath [OF good(1) match] strip_locationFor [OF path] by simp
  ultimately show False
    using assms(3,5) int live_get(1) [OF assms(1,4)] by (simp add: next_row_def)
qed

text \<open>C11. One hop: the Location of a planned redirect is never itself a path the plan
  redirects, so a visitor never follows two redirects of the table in a row.  It is the end of the
  chain of rows that the row's target leads through, and its status is permanent (or keeps the
  method) exactly when the row and every row of that chain is.\<close>

theorem plan_redirects_in_one_hop:
  assumes "buildRedirectPlan parse_url rows style served = Inr plan"
    and "p \<in> set (redirects plan)" "q \<in> set (redirects plan)"
  shows "location p \<notin> set (matchPaths q)
    \<and> (\<exists>normal row hops final. normaliseRows parse_url rows = Inr normal
         \<and> row \<in> set (map snd (live_rows normal served)) \<and> row \<in> set (map normalised rows)
         \<and> bare row = plan_from p \<and> leads_to (live_rows normal served) (target row) hops final
         \<and> location p = locationFor final style
         \<and> isPermanent (plan_status p) = (\<forall>h \<in> set (row # hops). isPermanent (status h))
         \<and> preservesRequestMethod (plan_status p)
             = (\<forall>h \<in> set (row # hops). preservesRequestMethod (status h)))"
proof -
  obtain normal where n: "normaliseRows parse_url rows = Inr normal"
    using assms(1) by (rule buildRedirectPlan_Inr)
  let ?live = "live_rows normal served"
  obtain row hops final where row: "row \<in> set (map snd ?live)" "status row \<noteq> GONE_STATUS"
    "leads_to ?live (target row) hops final" "plan_from p = bare row"
    "location p = locationFor final style"
    "plan_status p = combinedStatus (\<forall>h \<in> set (row # hops). isPermanent (status h))
       (\<forall>h \<in> set (row # hops). preservesRequestMethod (status h))"
    by (rule planned_redirect [OF assms(1,2) n])
  obtain qrow where q: "qrow \<in> set (map snd ?live)" "status qrow \<noteq> GONE_STATUS"
    "matchPaths q = matchPathsFor (bare qrow)"
    by (rule planned_redirect [OF assms(1,3) n])
  note live = live_rows_ok(1) [OF n, of served]
  have "location p \<notin> set (matchPaths q)"
    unfolding row(5) q(3)
    by (rule location_meets_no_row [OF live planned_final_servable [OF live row(1-3)]
          leads_to_final [OF row(3)] q(1,2)])
  moreover have "row \<in> set (map normalised rows)" by (rule live_rows_origin [OF n row(1)])
  ultimately show ?thesis using n row(1,3-6)
    by (intro conjI exI [of _ normal] exI [of _ row] exI [of _ hops] exI [of _ final]) simp_all
qed

lemma distinct_matchPaths:
  "distinct bs \<Longrightarrow> \<forall>b \<in> set bs. canonical b \<Longrightarrow> distinct (concat (map matchPathsFor bs))"
proof (induction bs)
  case (Cons b bs)
  have "distinct (matchPathsFor b)" by (simp add: matchPathsFor_def)
  moreover have "m \<notin> set (matchPathsFor c)" if "m \<in> set (matchPathsFor b)" "c \<in> set bs" for m c
    using Cons.prems that strip_matchPath [of b m] strip_matchPath [of c m] by auto
  ultimately show ?case using Cons by auto
qed simp

lemma distinct_map_partition:
  "distinct (map f xs) \<Longrightarrow> distinct (map f (filter P xs) @ map f (filter (\<lambda>x. \<not> P x) xs))"
  by (induction xs) auto

lemma plan_rows_paths:
  assumes "plan_rows live style rows = Inr (rs, gs)"
  shows "map matchPaths rs @ map gone_matchPaths gs
    = map matchPathsFor (map bare (filter (\<lambda>r. status r \<noteq> GONE_STATUS) rows)
        @ map bare (filter (\<lambda>r. status r = GONE_STATUS) rows))"
proof -
  have "\<forall>p \<in> set rs. matchPaths p = matchPathsFor (plan_from p)"
    using plan_rows_Inr(1) [OF assms] by (auto simp: planned_def)
  then have "map matchPaths rs = map matchPathsFor (map plan_from rs)" by simp
  then show ?thesis
    unfolding plan_rows_Inr(2) [OF assms] by (simp add: plan_rows_Inr(3) [OF assms] comp_def)
qed

text \<open>The plan answers every request path at most once and never one the build serves:
  no path is matched by two different entries, redirect or gone, and no entry stands for a
  path a file of the build answers.\<close>

theorem plan_answers_are_unique:
  assumes "buildRedirectPlan parse_url rows style served = Inr plan"
  shows "distinct (concat (map matchPaths (redirects plan) @ map gone_matchPaths (gone plan)))
    \<and> (\<forall>p \<in> set (redirects plan). \<not> servedByBuild (plan_from p) served)
    \<and> (\<forall>g \<in> set (gone plan). \<not> servedByBuild (gone_from g) served)"
proof -
  obtain normal where n: "normaliseRows parse_url rows = Inr normal"
    and pr: "plan_rows (live_rows normal served) style (map snd (live_rows normal served))
       = Inr (redirects plan, gone plan)"
    using assms(1) by (rule buildRedirectPlan_Inr)
  let ?vs = "map snd (live_rows normal served)"
  note live = live_rows_ok [OF n, of served]
  have keys: "map bare ?vs = map fst (live_rows normal served)"
    using live(1) by (auto simp: live_ok_def)
  have "distinct (map bare ?vs)" unfolding keys using live(1) by (simp add: live_ok_def)
  then have "distinct (map bare (filter (\<lambda>r. status r \<noteq> GONE_STATUS) ?vs)
      @ map bare (filter (\<lambda>r. status r = GONE_STATUS) ?vs))"
    using distinct_map_partition [of bare ?vs "\<lambda>r. status r \<noteq> GONE_STATUS"] by simp
  moreover have "\<forall>r \<in> set ?vs. canonical (bare r)"
    using live_get(2) [OF live(1)] by (auto simp: good_row_def)
  ultimately have "distinct (concat (map matchPaths (redirects plan) @ map gone_matchPaths (gone plan)))"
    unfolding plan_rows_paths [OF pr] by (intro distinct_matchPaths) auto
  moreover have "\<forall>p \<in> set (redirects plan). plan_from p \<in> bare ` set ?vs"
    using plan_rows_Inr(1) [OF pr] by (metis imageI planned_from set_map)
  moreover have "\<forall>g \<in> set (gone plan). gone_from g \<in> bare ` set ?vs"
    using plan_rows_Inr(3) [OF pr] by auto
  moreover have "\<not> servedByBuild b served" if "b \<in> bare ` set ?vs" for b
    using that live(2) by auto
  ultimately show ?thesis by blast
qed

section \<open>Loops\<close>

definition linked :: "(string \<times> NormalisedRow) list \<Rightarrow> string list \<Rightarrow> bool" where
  "linked live vs = successively (hops_to live) vs"

lemma follow_Inl:
  assumes "follow live visited to permanent preserves = Inl e"
    "live_ok parse_url live" "visited \<noteq> []" "linked live visited"
    "\<exists>r. js_get live (last visited) = Some r \<and> status r \<noteq> GONE_STATUS \<and> target r = to"
  shows "\<exists>c. e = Redirect_loop c \<and> 2 \<le> length c \<and> hd c = last c \<and> linked live c"
  using assms
proof (induction live visited to permanent preserves rule: follow.induct)
  case (1 live visited to permanent preserves)
  from 1(2) obtain n where n: "next_row live to = Some n"
    by (auto simp: follow_step [of live visited to] split: option.splits)
  then have got: "\<not> (has_query_or_fragment to \<or> isExternalRedirectTarget to)"
    "js_get live (stripTrailingSlash to) = Some n" "status n \<noteq> GONE_STATUS"
    by (auto simp: next_row_def split: if_splits option.splits)
  have hop: "hops_to live (last visited) (bare n)"
    using 1(6) n by (auto simp: hops_to_def)
  show ?case
  proof (cases "bare n \<in> set visited")
    case True
    with 1(2) n have e: "e = Redirect_loop (cycle_from visited (bare n))"
      by (simp add: follow_step [of live visited to])
    let ?d = "dropWhile (\<lambda>v. v \<noteq> bare n) visited"
    have d: "?d \<noteq> []" "hd ?d = bare n"
      using True hd_dropWhile [of "\<lambda>v. v \<noteq> bare n" visited] by auto
    then have last_d: "last ?d = last visited"
      by (metis last_appendR takeWhile_dropWhile_id)
    have "linked live ?d"
      using 1(5) unfolding linked_def by (metis successively_append_iff takeWhile_dropWhile_id)
    then have "linked live (?d @ [bare n])"
      using d last_d hop by (simp add: linked_def successively_append_iff)
    moreover have "2 \<le> length (?d @ [bare n])" using d(1) by (cases ?d) auto
    ultimately show ?thesis
      using e d by (intro exI [of _ "?d @ [bare n]"]) (simp add: cycle_from_def)
  next
    case False
    have "linked live (visited @ [bare n])"
      using 1(4,5) hop by (simp add: linked_def successively_append_iff)
    moreover have "js_get live (bare n) = Some n"
      using live_getD(1) [OF 1(3) got(2)] got(2) by simp
    moreover have "follow live (visited @ [bare n]) (target n) (permanent \<and> isPermanent (status n))
        (preserves \<and> preservesRequestMethod (status n)) = Inl e"
      using 1(2) n False by (simp add: follow_step [of live visited to])
    ultimately show ?thesis
      using 1(1) [OF got(1,2,3) False] 1(3) got(3) by simp
  qed
qed

lemma linked_trancl:
  "linked live vs \<Longrightarrow> 2 \<le> length vs \<Longrightarrow> (hops_to live)\<^sup>+\<^sup>+ (hd vs) (last vs)"
proof (induction vs)
  case (Cons a vs)
  then obtain b ws where vs: "vs = b # ws" by (cases vs) auto
  with Cons.prems have ab: "hops_to live a b" "linked live vs" by (simp_all add: linked_def)
  show ?case
  proof (cases ws)
    case Nil
    with ab vs show ?thesis by auto
  next
    case (Cons c us)
    with Cons.IH ab vs have "(hops_to live)\<^sup>+\<^sup>+ b (last vs)" by simp
    with ab(1) vs show ?thesis by (simp add: tranclp_into_tranclp2)
  qed
qed simp

lemma chain_bounded:
  assumes "live_ok parse_url live" "leads_to live (target r) hops final" "js_get live a = Some r"
    "(hops_to live ^^ k) a b"
  shows "k \<le> length hops"
  using assms(2-4)
proof (induction k arbitrary: a r hops)
  case (Suc k)
  from Suc.prems(3) obtain c where c: "hops_to live a c" "(hops_to live ^^ k) c b"
    by (blast dest: relpowp_Suc_D2)
  then obtain n where n: "next_row live (target r) = Some n" "bare n = c"
    using Suc.prems(2) by (auto simp: hops_to_def)
  have "js_get live c = Some n"
    using next_row_live [OF n(1)] live_getD(1) [OF assms(1)] n(2) by fastforce
  moreover obtain hops' where h: "hops = n # hops'" "leads_to live (target n) hops' final"
    using Suc.prems(1) n(1) by (cases rule: leads_to.cases) auto
  ultimately show ?case using Suc.IH [of n hops' c] c(2) by simp
qed simp

lemma cycle_powers:
  assumes "(R ^^ k) a a" shows "(R ^^ (k * m)) a a"
proof (induction m)
  case (Suc m)
  then show ?case using assms by (auto simp: relpowp_add)
qed simp

lemma no_cycle_through:
  assumes "live_ok parse_url live" "js_get live a = Some r" "leads_to live (target r) hops final"
  shows "\<not> (hops_to live)\<^sup>+\<^sup>+ a a"
proof
  assume "(hops_to live)\<^sup>+\<^sup>+ a a"
  then obtain k where k: "0 < k" "(hops_to live ^^ k) a a" by (auto simp: tranclp_power)
  from chain_bounded [OF assms(1,3,2) cycle_powers [OF k(2), of "Suc (length hops)"]] k(1)
  show False by (cases k) auto
qed

lemma plan_rows_total:
  "\<forall>r \<in> set rows. status r \<noteq> GONE_STATUS \<longrightarrow> (\<exists>tc. collapseChain r live = Inr tc)
     \<Longrightarrow> \<exists>rg. plan_rows live style rows = Inr rg"
proof (induction rows)
  case (Cons r rows)
  then obtain rs gs where rest: "plan_rows live style rows = Inr (rs, gs)" by auto
  show ?case
  proof (cases "status r = GONE_STATUS")
    case True
    with rest show ?thesis by simp
  next
    case False
    with Cons.prems obtain t c where "collapseChain r live = Inr (t, c)" by auto
    with rest False show ?thesis by simp
  qed
qed simp

lemma plan_rows_collapses:
  "plan_rows live style rows = Inr rg \<Longrightarrow> r \<in> set rows \<Longrightarrow> status r \<noteq> GONE_STATUS
     \<Longrightarrow> \<exists>tc. collapseChain r live = Inr tc"
  by (induction rows arbitrary: rg) (auto simp: result_simps split: if_splits prod.splits)

lemma plan_rows_Inl:
  "plan_rows live style rows = Inl e
     \<Longrightarrow> \<exists>r \<in> set rows. status r \<noteq> GONE_STATUS \<and> collapseChain r live = Inl e"
  by (induction rows) (auto simp: result_simps split: if_splits prod.splits)

lemma collapse_loop:
  assumes "live_ok parse_url live" "r \<in> set (map snd live)" "status r \<noteq> GONE_STATUS"
    "collapseChain r live = Inl e"
  shows "\<exists>c. e = Redirect_loop c \<and> 2 \<le> length c \<and> hd c = last c \<and> linked live c"
  using live_get(1) [OF assms(1,2)] assms(3)
  by (intro follow_Inl [OF assms(4) [unfolded collapseChain_def] assms(1)]) (simp_all add: linked_def)

text \<open>C39. Loops fail the build, and nothing else does once the rows are well formed: with
  rows the normalisation accepts, a plan exists exactly when following the live rows never
  returns to a row, and otherwise the error names a real cycle of them.\<close>

theorem loops_fail_exactly:
  assumes "normaliseRows parse_url rows = Inr normal"
  shows "(\<exists>plan. buildRedirectPlan parse_url rows style served = Inr plan)
        = (\<nexists>a. (hops_to (live_rows normal served))\<^sup>+\<^sup>+ a a)
    \<and> (\<forall>e. buildRedirectPlan parse_url rows style served = Inl e
        \<longrightarrow> (\<exists>c. e = Redirect_loop c \<and> 2 \<le> length c \<and> hd c = last c
              \<and> linked (live_rows normal served) c))"
proof -
  let ?live = "live_rows normal served"
  note live = live_rows_ok(1) [OF assms, of served]
  let ?plan = "buildRedirectPlan parse_url rows style served"
  have plan: "?plan = then_result (plan_rows ?live style (map snd ?live)) (\<lambda>(rs, gs).
      Inr \<lparr>redirects = rs, gone = gs,
           shadowedByBuild = map bare (filter (\<lambda>r. servedByBuild (bare r) served) normal)\<rparr>)"
    by (simp add: buildRedirectPlan_def assms Let_def)
  have fails: "\<exists>c. e = Redirect_loop c \<and> 2 \<le> length c \<and> hd c = last c \<and> linked ?live c"
    if "?plan = Inl e" for e
  proof -
    from that plan have "plan_rows ?live style (map snd ?live) = Inl e"
      by (auto simp: result_simps)
    then show ?thesis using plan_rows_Inl collapse_loop [OF live] by blast
  qed
  have "\<not> (hops_to ?live)\<^sup>+\<^sup>+ a a" if p: "?plan = Inr p" for p a
  proof
    assume cyc: "(hops_to ?live)\<^sup>+\<^sup>+ a a"
    then obtain b where "hops_to ?live a b" by (meson tranclpD)
    then obtain r where r: "js_get ?live a = Some r" "status r \<noteq> GONE_STATUS"
      by (auto simp: hops_to_def)
    from p plan obtain rg where "plan_rows ?live style (map snd ?live) = Inr rg"
      by (auto simp: result_simps)
    moreover have "r \<in> set (map snd ?live)" by (rule live_getD(3) [OF live r(1)])
    ultimately obtain tc where "collapseChain r ?live = Inr tc"
      using r(2) plan_rows_collapses by blast
    then obtain hops where "leads_to ?live (target r) hops (fst tc)"
      using follow_Inr by (cases tc) (fastforce simp: collapseChain_def)
    then show False using no_cycle_through [OF live r(1)] cyc by blast
  qed
  moreover have "(hops_to ?live)\<^sup>+\<^sup>+ (hd c) (hd c)"
    if "2 \<le> length c" "hd c = last c" "linked ?live c" for c
    using linked_trancl [OF that(3,1)] that(2) by simp
  ultimately show ?thesis using fails by (metis (no_types, opaque_lifting) sum.exhaust)
qed

section \<open>Witnesses and the redirects file\<close>

definition sample_rows :: "RedirectTableRow list" where
  "sample_rows =
     [\<lparr>fromPath = ''/a'', toPath = ''/b'', statusCode = 301\<rparr>,
      \<lparr>fromPath = ''/b/'', toPath = ''/c'', statusCode = 302\<rparr>,
      \<lparr>fromPath = ''/old.html'', toPath = ''/x?y=1'', statusCode = 308\<rparr>,
      \<lparr>fromPath = ''/gone'', toPath = ''/'', statusCode = 410\<rparr>]"

definition sample_plan :: RedirectPlan where
  "sample_plan =
     \<lparr>redirects =
        [\<lparr>plan_from = ''/a'', matchPaths = [''/a'', ''/a/''], location = ''/c/'', plan_status = 302,
          preserveQuery = True\<rparr>,
         \<lparr>plan_from = ''/b'', matchPaths = [''/b'', ''/b/''], location = ''/c/'', plan_status = 302,
          preserveQuery = True\<rparr>,
         \<lparr>plan_from = ''/old.html'', matchPaths = [''/old.html''], location = ''/x?y=1'',
          plan_status = 308, preserveQuery = False\<rparr>],
      gone = [\<lparr>gone_from = ''/gone'', gone_matchPaths = [''/gone'', ''/gone/'']\<rparr>],
      shadowedByBuild = []\<rparr>"

lemma sample_plan_built:
  "buildRedirectPlan no_url sample_rows Directory [''index.html''] = Inr sample_plan"
  by code_simp

lemma plan_has_no_open_redirect_witness:
  "\<exists>p \<in> set (redirects sample_plan). \<not> names_other_host (location p)"
proof -
  let ?p = "hd (redirects sample_plan)"
  have mem: "?p \<in> set (redirects sample_plan)" by (simp add: sample_plan_def)
  have "\<not> isExternalRedirectTarget (location ?p)" by code_simp
  with plan_has_no_open_redirect [OF sample_plan_built mem] mem show ?thesis by blast
qed

lemma plan_redirects_in_one_hop_witness:
  "location (hd (redirects sample_plan)) \<notin> set (matchPaths (hd (tl (redirects sample_plan))))"
proof -
  have "hd (redirects sample_plan) \<in> set (redirects sample_plan)"
    "hd (tl (redirects sample_plan)) \<in> set (redirects sample_plan)"
    by (simp_all add: sample_plan_def)
  from plan_redirects_in_one_hop [OF sample_plan_built this] show ?thesis by (rule conjunct1)
qed

lemma plan_answers_are_unique_witness:
  "distinct (concat (map matchPaths (redirects sample_plan) @ map gone_matchPaths (gone sample_plan)))"
  using plan_answers_are_unique [OF sample_plan_built] by (rule conjunct1)

definition loop_rows :: "RedirectTableRow list" where
  "loop_rows =
     [\<lparr>fromPath = ''/a'', toPath = ''/b'', statusCode = 301\<rparr>,
      \<lparr>fromPath = ''/b'', toPath = ''/a/'', statusCode = 301\<rparr>]"

lemma loop_rows_normal:
  "normaliseRows no_url loop_rows = Inr (map normalised loop_rows)"
  by code_simp

lemma loop_rows_fail:
  "buildRedirectPlan no_url loop_rows Directory [] = Inl (Redirect_loop [''/a'', ''/b'', ''/a''])"
  by code_simp

lemma loops_fail_exactly_witness:
  "\<exists>a. (hops_to (live_rows (map normalised loop_rows) []))\<^sup>+\<^sup>+ a a"
  using loops_fail_exactly [OF loop_rows_normal, of Directory "[]"] loop_rows_fail by auto

text \<open>A row the file format can carry: a from and a to path without white space, the from
  path not read as a comment, and a status that is not negative.\<close>

definition file_row :: "RedirectTableRow \<Rightarrow> bool" where
  "file_row r =
     (fromPath r \<noteq> [] \<and> toPath r \<noteq> [] \<and> list_all (\<lambda>c. \<not> js_white c) (fromPath r @ toPath r)
      \<and> hd (fromPath r) \<noteq> CHR ''#'' \<and> 0 \<le> statusCode r)"

lemma white_chars: "js_white newline" "js_white (CHR '' '')"
  by code_simp+

lemma string_of_int_plain:
  assumes "0 \<le> n" shows "list_all (\<lambda>c. \<not> js_white c) (string_of_int n)"
  using assms decimal_digits [of "nat n"] digit_not_white
  by (auto simp: string_of_int_def list_all_iff)

lemma parse_format_row:
  assumes "file_row r"
  shows "parse_line other i (format_row r) = Inr (Some r)" "newline \<notin> set (format_row r)"
proof -
  have plain: "list_all (\<lambda>c. \<not> js_white c) (fromPath r)" "list_all (\<lambda>c. \<not> js_white c) (toPath r)"
    "list_all (\<lambda>c. \<not> js_white c) (string_of_int (statusCode r))"
    using assms string_of_int_plain by (auto simp: file_row_def)
  then have no_space: "CHR '' '' \<notin> set (fromPath r)" "CHR '' '' \<notin> set (toPath r)"
    "CHR '' '' \<notin> set (string_of_int (statusCode r))"
    using white_chars(2) by (auto simp: list_all_iff)
  show "newline \<notin> set (format_row r)"
    using plain white_chars(1) by (auto simp: format_row_def list_all_iff newline_def)
  have ne: "fromPath r \<noteq> []" "hd (fromPath r) \<noteq> CHR ''#''" using assms by (auto simp: file_row_def)
  have "js_trim (format_row r) = format_row r"
  proof (rule js_trim_id)
    show "format_row r \<noteq> []" using ne by (simp add: format_row_def)
    show "\<not> js_white (hd (format_row r))"
      using ne plain(1) by (cases "fromPath r") (auto simp: format_row_def)
    have "last (format_row r) = last (string_of_int (statusCode r))"
      by (simp add: format_row_def)
    moreover have "last (string_of_int (statusCode r)) \<in> set (string_of_int (statusCode r))"
      by (intro last_in_set) simp
    ultimately show "\<not> js_white (last (format_row r))"
      using plain(3) by (simp add: list_all_iff)
  qed
  moreover have "\<not> starts_with (format_row r) ''#''"
    using ne by (cases "fromPath r") (auto simp: format_row_def starts_with_def)
  moreover have "split_on (CHR '' '') (format_row r)
      = [fromPath r, toPath r, string_of_int (statusCode r)]"
    using no_space by (simp add: format_row_def split_on_append split_on_none)
  moreover have "js_Number other (string_of_int (statusCode r)) = Whole (statusCode r)"
    using assms by (intro read_string_of_int) (simp add: file_row_def)
  ultimately show "parse_line other i (format_row r) = Inr (Some r)"
    using assms ne by (simp add: parse_line_def file_row_def format_row_def Let_def)
qed

lemma parse_lines_rows:
  "\<forall>r \<in> set rows. file_row r \<Longrightarrow> parse_lines other i (map format_row rows @ [[]]) = Inr rows"
proof (induction rows arbitrary: i)
  case Nil
  have "parse_line other i [] = Inr None" by (simp add: parse_line_def js_trim_def)
  then show ?case by simp
next
  case (Cons r rows)
  then show ?case using parse_format_row(1) [of r other i] by simp
qed

text \<open>The redirects file round-trips: reading what the generator wrote gives back the
  rows, in order, for every row whose paths carry no white space and whose from path is not a
  comment.\<close>

theorem redirects_file_roundtrip:
  assumes "\<forall>r \<in> set rows. file_row r"
  shows "parseRedirectsFile other (formatRedirectsFile rows) = Inr rows"
proof -
  have "newline \<notin> set redirects_header" "parse_line other 0 redirects_header = Inr None"
  proof -
    show "newline \<notin> set redirects_header" by code_simp
    have "js_trim redirects_header = redirects_header" "starts_with redirects_header ''#''"
      by code_simp+
    then show "parse_line other 0 redirects_header = Inr None"
      by (simp add: parse_line_def)
  qed
  moreover from this(1) have "split_on newline (formatRedirectsFile rows)
      = redirects_header # map format_row rows @ [[]]"
    unfolding formatRedirectsFile_def
    by (subst split_join) (use assms parse_format_row(2) in auto)
  ultimately show ?thesis
    by (simp add: parseRedirectsFile_def parse_lines_rows [OF assms])
qed

lemma redirects_file_roundtrip_witness:
  "parseRedirectsFile (\<lambda>_. Not_integer) (formatRedirectsFile sample_rows) = Inr sample_rows"
proof -
  have "list_all file_row sample_rows" by code_simp
  then show ?thesis by (intro redirects_file_roundtrip) (simp add: list_all_iff)
qed

end
