(* ===== verification/Ttl_Lease.thy ===== *)
theory Ttl_Lease
  imports Caelo_Prelude
begin

text \<open>
  The contract of a lease that expires: what a claim, a release and a renewal promise about
  who holds the lease unexpired at a time.  The locale proves from that contract that two
  holders never overlap and that nobody takes a lease from its holder before it expires.
  The entity leases and the deploy leases are its interpretations.
\<close>

text \<open>Operations on one lease, with the database clock they read (and, for a claim, the
  clock of the statement that stamps the expiry) and the lifetime they ask for.\<close>

datatype 'h lease_op =
    Claim_op (claim_clock: int) int int (actor: 'h)
  | Release_op (actor: 'h)
  | Renew_op int int (actor: 'h)

fun op_clock_by :: "int \<Rightarrow> 'h lease_op \<Rightarrow> bool" where
  "op_clock_by e (Claim_op t u ttl h) = (t \<le> e)"
| "op_clock_by e (Release_op h) = True"
| "op_clock_by e (Renew_op t ttl h) = (t \<le> e)"

fun lease_apply ::
  "(int \<Rightarrow> int \<Rightarrow> int \<Rightarrow> 'h \<Rightarrow> 's \<Rightarrow> bool \<times> 's) \<Rightarrow> ('h \<Rightarrow> 's \<Rightarrow> 's) \<Rightarrow> (int \<Rightarrow> int \<Rightarrow> 'h \<Rightarrow> 's \<Rightarrow> 's)
   \<Rightarrow> 'h lease_op \<Rightarrow> 's \<Rightarrow> 's" where
  "lease_apply claim release renew (Claim_op t u ttl h) s = snd (claim t u ttl h s)"
| "lease_apply claim release renew (Release_op h) s = release h s"
| "lease_apply claim release renew (Renew_op t ttl h) s = renew t ttl h s"

fun lease_run ::
  "(int \<Rightarrow> int \<Rightarrow> int \<Rightarrow> 'h \<Rightarrow> 's \<Rightarrow> bool \<times> 's) \<Rightarrow> ('h \<Rightarrow> 's \<Rightarrow> 's) \<Rightarrow> (int \<Rightarrow> int \<Rightarrow> 'h \<Rightarrow> 's \<Rightarrow> 's)
   \<Rightarrow> 'h lease_op list \<Rightarrow> 's \<Rightarrow> 's" where
  "lease_run claim release renew [] s = s"
| "lease_run claim release renew (x # xs) s =
     lease_run claim release renew xs (lease_apply claim release renew x s)"

locale ttl_lease =
  fixes holds :: "'s \<Rightarrow> 'h \<Rightarrow> int \<Rightarrow> bool"
    and ok :: "'s \<Rightarrow> bool"
    and claim :: "int \<Rightarrow> int \<Rightarrow> int \<Rightarrow> 'h \<Rightarrow> 's \<Rightarrow> bool \<times> 's"
    and release :: "'h \<Rightarrow> 's \<Rightarrow> 's"
  assumes exclusive: "ok s \<Longrightarrow> holds s h t \<Longrightarrow> holds s g u \<Longrightarrow> h = g"
    and holds_earlier: "holds s h t \<Longrightarrow> u \<le> t \<Longrightarrow> holds s h u"
    and claim_ok: "ok s \<Longrightarrow> ok (snd (claim t u ttl h s))"
    and release_ok: "ok s \<Longrightarrow> ok (release h s)"
    and claim_refused:
      "ok s \<Longrightarrow> \<not> fst (claim t u ttl h s) \<Longrightarrow> holds (snd (claim t u ttl h s)) g v = holds s g v"
    and claim_excludes: "ok s \<Longrightarrow> fst (claim t u ttl h s) \<Longrightarrow> g \<noteq> h \<Longrightarrow> \<not> holds s g t"
    and claim_granted:
      "ok s \<Longrightarrow> fst (claim t u ttl h s) \<Longrightarrow> holds (snd (claim t u ttl h s)) h v = (v < u + ttl)"
    and release_other: "ok s \<Longrightarrow> g \<noteq> h \<Longrightarrow> holds (release h s) g v = holds s g v"
    and release_own: "ok s \<Longrightarrow> \<not> holds (release h s) h v"
begin

lemma held_not_claimable:
  assumes "ok s" "holds s h e" "g \<noteq> h" "t \<le> e"
  shows "\<not> fst (claim t u ttl g s)"
proof
  assume "fst (claim t u ttl g s)"
  then have "\<not> holds s h t" by (rule claim_excludes [OF assms(1)]) (use assms(3) in simp)
  then show False using holds_earlier [OF assms(2,4)] by simp
qed

lemma claim_keeps_holder:
  assumes "ok s" "holds s h e" "g \<noteq> h" "t \<le> e"
  shows "holds (snd (claim t u ttl g s)) h e"
  using claim_refused [OF assms(1) held_not_claimable [OF assms]] assms(2) by simp

end

locale renewable_lease = ttl_lease +
  fixes renew :: "int \<Rightarrow> int \<Rightarrow> 'b \<Rightarrow> 'a \<Rightarrow> 'a"
  assumes renew_ok: "ok s \<Longrightarrow> ok (renew t ttl h s)"
    and renew_other: "ok s \<Longrightarrow> g \<noteq> h \<Longrightarrow> holds (renew t ttl h s) g v = holds s g v"
    and renew_lapsed: "ok s \<Longrightarrow> \<not> holds s h t \<Longrightarrow> holds (renew t ttl h s) h v = holds s h v"
    and renew_held: "ok s \<Longrightarrow> holds s h t \<Longrightarrow> holds (renew t ttl h s) h v = (v < t + ttl)"
begin

lemma apply_ok: "ok s \<Longrightarrow> ok (lease_apply claim release renew x s)"
  by (cases x) (simp_all add: claim_ok release_ok renew_ok)

lemma run_ok: "ok s \<Longrightarrow> ok (lease_run claim release renew xs s)"
  by (induction xs arbitrary: s) (simp_all add: apply_ok)

lemma apply_keeps_holder:
  assumes "ok s" "holds s h e" "actor x \<noteq> h" "op_clock_by e x"
  shows "holds (lease_apply claim release renew x s) h e"
  using assms
proof (cases x)
  case (Claim_op t u ttl g)
  with assms show ?thesis using claim_keeps_holder [OF assms(1,2), of g t u ttl] by simp
next
  case (Release_op g)
  with assms show ?thesis using release_other [OF assms(1), of h g e] by auto
next
  case (Renew_op t ttl g)
  with assms show ?thesis using renew_other [OF assms(1), of h g t ttl e] by auto
qed

lemma run_keeps_holder:
  assumes "ok s" "holds s h e" "\<forall>x \<in> set xs. actor x \<noteq> h \<and> op_clock_by e x"
  shows "holds (lease_run claim release renew xs s) h e"
  using assms
proof (induction xs arbitrary: s)
  case (Cons x xs)
  then show ?case using apply_ok apply_keeps_holder by simp
qed simp

lemma protected_until_expiry:
  assumes "ok s" "holds s h e" "\<forall>x \<in> set xs. actor x \<noteq> h \<and> op_clock_by e x" "g \<noteq> h" "t \<le> e"
  shows "\<not> fst (claim t u ttl g (lease_run claim release renew xs s))"
  using held_not_claimable [OF run_ok [OF assms(1)] run_keeps_holder [OF assms(1,2,3)] assms(4,5)] .

lemma run_exclusive:
  assumes "ok s" "holds (lease_run claim release renew xs s) h t"
    "holds (lease_run claim release renew xs s) g u"
  shows "h = g"
  using exclusive [OF run_ok [OF assms(1)] assms(2,3)] .

end

end
