(* ===== verification/Entity_Leases.thy ===== *)
theory Entity_Leases
  imports Ttl_Lease Urls
begin

text \<open>
  The per-entity sub-leases between sibling tasks of one branch
  (packages/admin-core/src/entity-leases.ts).  The table entity_leases is an association
  list keyed by entity kind, entity and branch; times are milliseconds.  The entity kinds are
  those of packages/admin-core/src/locks.ts.
\<close>

datatype LockedEntityKind =
    Module | Template | PageLayout | Layout | Redirect | Page | SiteSettings | SiteDefaults
  | ContentInstance | Theme | ListType | List_kind | PageType | PluginRow

definition DEFAULT_ENTITY_LEASE_TTL_MS :: int where
  "DEFAULT_ENTITY_LEASE_TTL_MS = 120000"

text \<open>Number.parseInt with radix 10: leading white space, a sign, the longest run of
  digits; None is NaN.\<close>

definition js_parseInt :: "string \<Rightarrow> int option" where
  "js_parseInt s =
     (let t = dropWhile js_white s;
          (sign, r) = (case t of
             c # u \<Rightarrow> if c = CHR ''-'' then (- 1, u) else if c = CHR ''+'' then (1, u) else (1, t)
           | [] \<Rightarrow> (1, []));
          d = takeWhile is_digit r
      in if d = [] then None else Some (sign * int (read_decimal d)))"

definition entityLeaseTtlMs :: "string option \<Rightarrow> int" where
  "entityLeaseTtlMs raw =
     (case raw of
        None \<Rightarrow> DEFAULT_ENTITY_LEASE_TTL_MS
      | Some s \<Rightarrow>
          (case js_parseInt s of
             Some n \<Rightarrow> if n > 0 then n else DEFAULT_ENTITY_LEASE_TTL_MS
           | None \<Rightarrow> DEFAULT_ENTITY_LEASE_TTL_MS))"

record ExistingLease =
  holderKey :: string
  expiresAt :: int

datatype lease_decision =
    Acquire int
  | Refresh int
  | Refuse ExistingLease

definition evaluateLease :: "ExistingLease option \<Rightarrow> string \<Rightarrow> int \<Rightarrow> int \<Rightarrow> lease_decision" where
  "evaluateLease existing holder t ttl =
     (let expiry = t + ttl in
      case existing of
        None \<Rightarrow> Acquire expiry
      | Some l \<Rightarrow>
          if holderKey l = holder then Refresh expiry
          else if expiresAt l \<le> t then Acquire expiry
          else Refuse l)"

type_synonym lease_key = "LockedEntityKind \<times> string \<times> string"
type_synonym lease_table = "(lease_key \<times> ExistingLease) list"

definition insert_if_absent :: "'k \<Rightarrow> 'v \<Rightarrow> ('k \<times> 'v) list \<Rightarrow> ('k \<times> 'v) list" where
  "insert_if_absent k v m = (case js_get m k of None \<Rightarrow> js_set k v m | Some _ \<Rightarrow> m)"

lemma js_get_insert_if_absent:
  "js_get (insert_if_absent k v m) k' =
     (if k' = k then (case js_get m k of None \<Rightarrow> Some v | Some w \<Rightarrow> Some w) else js_get m k')"
  by (auto simp: insert_if_absent_def js_map_simps split: option.splits)

text \<open>The attempt returns the refusing holder, if any, and the table after it.\<close>

definition acquireEntityLease ::
  "lease_key \<Rightarrow> string \<Rightarrow> int \<Rightarrow> int \<Rightarrow> lease_table \<Rightarrow> ExistingLease option \<times> lease_table" where
  "acquireEntityLease key holder t ttl tbl =
     (let tbl1 = insert_if_absent key \<lparr>holderKey = holder, expiresAt = t + ttl\<rparr> tbl in
      case evaluateLease (js_get tbl1 key) holder t ttl of
        Refuse l \<Rightarrow> (Some l, tbl1)
      | Acquire e \<Rightarrow>
          (None, if js_get tbl1 key = None then tbl1
                 else js_set key \<lparr>holderKey = holder, expiresAt = e\<rparr> tbl1)
      | Refresh e \<Rightarrow>
          (None, if js_get tbl1 key = None then tbl1
                 else js_set key \<lparr>holderKey = holder, expiresAt = e\<rparr> tbl1))"

record sibling_lease_conflict =
  conflict_operation :: string
  conflict_kind :: LockedEntityKind
  conflict_entity :: string
  conflict_holder :: ExistingLease

definition siblingLeaseError ::
  "string \<Rightarrow> LockedEntityKind \<Rightarrow> string \<Rightarrow> ExistingLease \<Rightarrow> sibling_lease_conflict" where
  "siblingLeaseError operation kind entityId holder =
     \<lparr>conflict_operation = operation, conflict_kind = kind, conflict_entity = entityId,
      conflict_holder = holder\<rparr>"

definition releaseLeasesByHolder :: "string \<Rightarrow> lease_table \<Rightarrow> lease_table" where
  "releaseLeasesByHolder holder tbl = filter (\<lambda>(k, l). holderKey l \<noteq> holder) tbl"

definition releaseLeasesByBranch :: "string \<Rightarrow> lease_table \<Rightarrow> lease_table" where
  "releaseLeasesByBranch branch tbl = filter (\<lambda>((kind, entity, b), l). b \<noteq> branch) tbl"

section \<open>One key's lease keeps the contract\<close>

definition lease_held :: "lease_key \<Rightarrow> lease_table \<Rightarrow> string \<Rightarrow> int \<Rightarrow> bool" where
  "lease_held key tbl h t =
     (case js_get tbl key of None \<Rightarrow> False | Some l \<Rightarrow> holderKey l = h \<and> t < expiresAt l)"

definition entity_claim ::
  "lease_key \<Rightarrow> int \<Rightarrow> int \<Rightarrow> int \<Rightarrow> string \<Rightarrow> lease_table \<Rightarrow> bool \<times> lease_table" where
  "entity_claim key t u ttl h tbl =
     (let (refusal, tbl') = acquireEntityLease key h t (u + ttl - t) tbl in (refusal = None, tbl'))"

text \<open>The clock of the caller stamps the expiry too; a claim of the contract with a later
  stamp is the same attempt with a longer lifetime.  A holder renews by acquiring again
  while it holds the lease (the refresh branch of the decision).\<close>

definition entity_refresh :: "lease_key \<Rightarrow> int \<Rightarrow> int \<Rightarrow> string \<Rightarrow> lease_table \<Rightarrow> lease_table" where
  "entity_refresh key t ttl h tbl =
     (if lease_held key tbl h t then snd (acquireEntityLease key h t ttl tbl) else tbl)"

lemma js_map_ok_filter: "js_map_ok m \<Longrightarrow> js_map_ok (filter P m)"
  by (simp add: js_map_ok_def distinct_map_filter)

lemma acquireEntityLease_ok: "js_map_ok tbl \<Longrightarrow> js_map_ok (snd (acquireEntityLease key h t ttl tbl))"
  by (simp add: acquireEntityLease_def insert_if_absent_def Let_def js_map_ok_set
      split: option.split lease_decision.split)

lemma acquireEntityLease_absent:
  "js_get tbl key = None \<Longrightarrow> acquireEntityLease key h t ttl tbl
     = (None, js_set key \<lparr>holderKey = h, expiresAt = t + ttl\<rparr> (js_set key \<lparr>holderKey = h, expiresAt = t + ttl\<rparr> tbl))"
  by (simp add: acquireEntityLease_def insert_if_absent_def evaluateLease_def Let_def js_map_simps)

lemma acquireEntityLease_present:
  "js_get tbl key = Some l \<Longrightarrow> acquireEntityLease key h t ttl tbl
     = (if holderKey l \<noteq> h \<and> t < expiresAt l then (Some l, tbl)
        else (None, js_set key \<lparr>holderKey = h, expiresAt = t + ttl\<rparr> tbl))"
  by (auto simp: acquireEntityLease_def insert_if_absent_def evaluateLease_def Let_def js_map_simps)

lemma acquireEntityLease_other:
  "key' \<noteq> key \<Longrightarrow> js_get (snd (acquireEntityLease key h t ttl tbl)) key' = js_get tbl key'"
  by (cases "js_get tbl key")
    (simp_all add: acquireEntityLease_absent acquireEntityLease_present js_map_simps)

lemma releaseLeasesByHolder_get:
  "js_map_ok tbl \<Longrightarrow> js_get (releaseLeasesByHolder h tbl) key
     = (case js_get tbl key of None \<Rightarrow> None | Some l \<Rightarrow> if holderKey l \<noteq> h then Some l else None)"
  by (simp add: releaseLeasesByHolder_def js_get_filter split: option.split)

lemma entity_claim_absent:
  "js_get tbl key = None \<Longrightarrow> fst (entity_claim key t u ttl h tbl)
     \<and> lease_held key (snd (entity_claim key t u ttl h tbl)) g v = (g = h \<and> v < u + ttl)"
  by (auto simp: entity_claim_def acquireEntityLease_absent lease_held_def js_map_simps)

lemma entity_claim_present:
  "js_get tbl key = Some l \<Longrightarrow>
     fst (entity_claim key t u ttl h tbl) = (holderKey l = h \<or> expiresAt l \<le> t)
     \<and> lease_held key (snd (entity_claim key t u ttl h tbl)) g v
        = (if holderKey l = h \<or> expiresAt l \<le> t then g = h \<and> v < u + ttl
           else lease_held key tbl g v)"
  by (auto simp: entity_claim_def acquireEntityLease_present lease_held_def js_map_simps)

lemma entity_claim_ok: "js_map_ok tbl \<Longrightarrow> js_map_ok (snd (entity_claim key t u ttl h tbl))"
  using acquireEntityLease_ok [of tbl key h t "u + ttl - t"]
  by (simp add: entity_claim_def case_prod_beta)

lemma entity_refresh_held:
  "lease_held key (entity_refresh key t ttl h tbl) g v =
     (if lease_held key tbl h t then g = h \<and> v < t + ttl else lease_held key tbl g v)"
  by (auto simp: entity_refresh_def lease_held_def acquireEntityLease_present js_map_simps
      split: option.splits)

lemma release_held:
  "js_map_ok tbl \<Longrightarrow> lease_held key (releaseLeasesByHolder h tbl) g v = (g \<noteq> h \<and> lease_held key tbl g v)"
  by (auto simp: lease_held_def releaseLeasesByHolder_get split: option.splits)

interpretation entity_lease: renewable_lease
  "lease_held key" js_map_ok "entity_claim key" releaseLeasesByHolder "entity_refresh key" for key
proof
  show "lease_held key s h t \<Longrightarrow> lease_held key s g u \<Longrightarrow> h = g" for s h t g u
    by (auto simp: lease_held_def split: option.splits)
  show "lease_held key s h t \<Longrightarrow> u \<le> t \<Longrightarrow> lease_held key s h u" for s h t u
    by (auto simp: lease_held_def split: option.splits)
  show "js_map_ok s \<Longrightarrow> js_map_ok (snd (entity_claim key t u ttl h s))" for s t u ttl h
    by (rule entity_claim_ok)
  show "js_map_ok s \<Longrightarrow> js_map_ok (releaseLeasesByHolder h s)" for s h
    by (simp add: releaseLeasesByHolder_def js_map_ok_filter)
  show "\<not> fst (entity_claim key t u ttl h s)
      \<Longrightarrow> lease_held key (snd (entity_claim key t u ttl h s)) g v = lease_held key s g v"
    for s t u ttl h g v
    using entity_claim_absent [of s key t u ttl h] entity_claim_present [of s key _ t u ttl h]
    by (cases "js_get s key") auto
  show "fst (entity_claim key t u ttl h s) \<Longrightarrow> g \<noteq> h \<Longrightarrow> \<not> lease_held key s g t" for s t u ttl h g
    using entity_claim_present [of s key _ t u ttl h]
    by (cases "js_get s key") (auto simp: lease_held_def)
  show "fst (entity_claim key t u ttl h s)
      \<Longrightarrow> lease_held key (snd (entity_claim key t u ttl h s)) h v = (v < u + ttl)" for s t u ttl h v
    using entity_claim_absent [of s key t u ttl h] entity_claim_present [of s key _ t u ttl h]
    by (cases "js_get s key") auto
  show "js_map_ok s \<Longrightarrow> g \<noteq> h \<Longrightarrow> lease_held key (releaseLeasesByHolder h s) g v = lease_held key s g v"
    for s g h v
    by (simp add: release_held)
  show "js_map_ok s \<Longrightarrow> \<not> lease_held key (releaseLeasesByHolder h s) h v" for s h v
    by (simp add: release_held)
  show "js_map_ok s \<Longrightarrow> js_map_ok (entity_refresh key t ttl h s)" for s t ttl h
    by (simp add: entity_refresh_def acquireEntityLease_ok)
  show "js_map_ok s \<Longrightarrow> g \<noteq> h \<Longrightarrow> lease_held key (entity_refresh key t ttl h s) g v = lease_held key s g v"
    for s g h t ttl v
    by (auto simp: entity_refresh_held) (auto simp: lease_held_def split: option.splits)
  show "\<not> lease_held key s h t \<Longrightarrow> lease_held key (entity_refresh key t ttl h s) h v = lease_held key s h v"
    for s h t ttl v
    by (simp add: entity_refresh_held)
  show "lease_held key s h t \<Longrightarrow> lease_held key (entity_refresh key t ttl h s) h v = (v < t + ttl)"
    for s h t ttl v
    by (simp add: entity_refresh_held)
qed

section \<open>Properties\<close>

text \<open>A sub-lease protects its entity until it expires: while a task holds the lease of
  an entity on a branch, no sequence of attempts, refreshes and releases by sibling tasks
  before the expiry takes it away, and every attempt of a sibling in that time is refused,
  naming the holder.  Once the holder releases its leases, the next attempt succeeds.\<close>

theorem entity_lease_protects_until_expiry:
  assumes "js_map_ok tbl" "lease_held key tbl h e"
    and "\<forall>x \<in> set xs. actor x \<noteq> h \<and> op_clock_by e x" "g \<noteq> h" "t \<le> e"
    and "tbl' = lease_run (entity_claim key) releaseLeasesByHolder (entity_refresh key) xs tbl"
  shows "lease_held key tbl' h e
    \<and> (\<exists>l. acquireEntityLease key g t ttl tbl' = (Some l, tbl') \<and> holderKey l = h)
    \<and> fst (acquireEntityLease key g t ttl (releaseLeasesByHolder h tbl')) = None"
proof -
  have held: "lease_held key tbl' h e"
    unfolding assms(6) by (rule entity_lease.run_keeps_holder [OF assms(1-3)])
  then obtain l where l: "js_get tbl' key = Some l" "holderKey l = h" "e < expiresAt l"
    by (auto simp: lease_held_def split: option.splits)
  then have "acquireEntityLease key g t ttl tbl' = (Some l, tbl')"
    using assms(4,5) by (simp add: acquireEntityLease_present)
  moreover have "js_map_ok tbl'" unfolding assms(6) by (rule entity_lease.run_ok [OF assms(1)])
  then have "js_get (releaseLeasesByHolder h tbl') key = None"
    using l by (simp add: releaseLeasesByHolder_get)
  then have "fst (acquireEntityLease key g t ttl (releaseLeasesByHolder h tbl')) = None"
    by (simp add: acquireEntityLease_absent)
  ultimately show ?thesis using held l(2) by blast
qed

definition sample_key :: lease_key where
  "sample_key = (Module, ''m1'', ''b1'')"

definition sample_table :: lease_table where
  "sample_table = snd (acquireEntityLease sample_key ''task-a'' 0 120000 [])"

lemma entity_lease_protects_until_expiry_witness:
  "\<exists>l. acquireEntityLease sample_key ''task-b'' 60000 120000
        (lease_run (entity_claim sample_key) releaseLeasesByHolder (entity_refresh sample_key)
           [Claim_op 10 10 5 ''task-c'', Release_op ''task-b''] sample_table) =
      (Some l, lease_run (entity_claim sample_key) releaseLeasesByHolder (entity_refresh sample_key)
           [Claim_op 10 10 5 ''task-c'', Release_op ''task-b''] sample_table)
     \<and> holderKey l = ''task-a''"
proof -
  have "js_map_ok sample_table" "lease_held sample_key sample_table ''task-a'' 119999"
    by code_simp+
  from entity_lease_protects_until_expiry [OF this, where g = "''task-b''" and t = 60000
      and ttl = 120000 and xs = "[Claim_op 10 10 5 ''task-c'', Release_op ''task-b'']", OF _ _ _ refl]
  show ?thesis by simp
qed

end
