(* ===== verification/Deploy_Leases.thy ===== *)
theory Deploy_Leases
  imports Ttl_Lease
begin

text \<open>
  The named publish leases (packages/admin-core/src/deploy/deploy-lease.ts), their use for
  live releases and staging publications (live-release-lock.ts,
  staging-publication-lock.ts), and the heartbeat of a deploy run (deploy-run-lock.ts).
  The table deploy_leases is a function from lease names to rows; clocks are the database
  clock readings of the statements, in milliseconds.  Whether another transaction holds the
  row lock, and whether the previous release holds its advisory lock, are inputs.
\<close>

section \<open>Rows\<close>

datatype DeployLeaseName = Staging_publication | Live_release

record lease_row =
  holder_run_id :: "string option"
  holder_sync_id :: "string option"
  acquired_at :: "int option"
  expires_at :: "int option"

record DeployLeaseHolder =
  holder_run :: string
  holder_expires :: int

type_synonym deploy_leases = "DeployLeaseName \<Rightarrow> lease_row option"

definition free_row :: lease_row where
  "free_row = \<lparr>holder_run_id = None, holder_sync_id = None, acquired_at = None, expires_at = None\<rparr>"

text \<open>A comparison with NULL is not true.\<close>

definition unexpired :: "lease_row \<Rightarrow> int \<Rightarrow> bool" where
  "unexpired r clock = (case expires_at r of None \<Rightarrow> False | Some e \<Rightarrow> clock < e)"

definition FREE_SQL :: "lease_row \<Rightarrow> int \<Rightarrow> bool" where
  "FREE_SQL r clock =
     ((holder_run_id r = None \<and> holder_sync_id r = None)
      \<or> (case expires_at r of None \<Rightarrow> True | Some e \<Rightarrow> e \<le> clock))"

definition syncHoldsLease :: "DeployLeaseName \<Rightarrow> int \<Rightarrow> deploy_leases \<Rightarrow> bool" where
  "syncHoldsLease name clock tbl =
     (case tbl name of None \<Rightarrow> False | Some r \<Rightarrow> holder_sync_id r \<noteq> None \<and> unexpired r clock)"

definition ensureLeaseRow :: "DeployLeaseName \<Rightarrow> deploy_leases \<Rightarrow> deploy_leases" where
  "ensureLeaseRow name tbl = (case tbl name of None \<Rightarrow> tbl(name \<mapsto> free_row) | Some _ \<Rightarrow> tbl)"

definition leaseHolder :: "DeployLeaseName \<Rightarrow> int \<Rightarrow> deploy_leases \<Rightarrow> DeployLeaseHolder option" where
  "leaseHolder name clock tbl =
     (case tbl name of
        None \<Rightarrow> None
      | Some r \<Rightarrow>
          (case (holder_run_id r, expires_at r) of
             (Some run, Some e) \<Rightarrow>
               if clock < e then Some \<lparr>holder_run = run, holder_expires = e\<rparr> else None
           | _ \<Rightarrow> None))"

definition row_holder :: "lease_row \<Rightarrow> DeployLeaseHolder option" where
  "row_holder r =
     (case (holder_run_id r, expires_at r) of
        (Some run, Some e) \<Rightarrow> Some \<lparr>holder_run = run, holder_expires = e\<rparr>
      | _ \<Rightarrow> None)"

section \<open>Locking the row for a transaction\<close>

datatype LeaseRowLock = Locked | Not_locked "DeployLeaseHolder option"

text \<open>With skipLocked, one statement; the first argument says whether another transaction
  has the row locked.\<close>

definition lock_skip_locked :: "bool \<Rightarrow> DeployLeaseName \<Rightarrow> int \<Rightarrow> deploy_leases \<Rightarrow> LeaseRowLock" where
  "lock_skip_locked row_locked name clock tbl =
     (case (if row_locked then None else ensureLeaseRow name tbl name) of
        None \<Rightarrow> Not_locked None
      | Some r \<Rightarrow> if FREE_SQL r clock then Locked else Not_locked (row_holder r))"

text \<open>Without it, the statements of one round each read the table and the clock as they are
  then: observe n is what the n-th statement sees.  The retry is bounded by fuel; None is
  not having answered within it.\<close>

fun lock_waiting ::
  "nat \<Rightarrow> DeployLeaseName \<Rightarrow> (nat \<Rightarrow> deploy_leases \<times> int) \<Rightarrow> nat \<Rightarrow> LeaseRowLock option" where
  "lock_waiting 0 name observe n = None"
| "lock_waiting (Suc fuel) name observe n =
     (let (tbl1, t1) = observe n;
          (tbl2, t2) = observe (n + 1);
          (tbl3, t3) = observe (n + 2)
      in case ensureLeaseRow name tbl1 name of
           None \<Rightarrow> None
         | Some r \<Rightarrow>
             if FREE_SQL r t1 then Some Locked
             else (case leaseHolder name t2 tbl2 of
                     Some h \<Rightarrow> Some (Not_locked (Some h))
                   | None \<Rightarrow>
                       if syncHoldsLease name t3 tbl3 then Some (Not_locked None)
                       else lock_waiting fuel name observe (n + 3)))"

definition lockLeaseRow ::
  "nat \<Rightarrow> bool \<Rightarrow> bool \<Rightarrow> DeployLeaseName \<Rightarrow> (nat \<Rightarrow> deploy_leases \<times> int) \<Rightarrow> LeaseRowLock option" where
  "lockLeaseRow fuel skip row_locked name observe =
     (if skip then Some (lock_skip_locked row_locked name (snd (observe 0)) (fst (observe 0)))
      else lock_waiting fuel name observe 0)"

section \<open>Claiming, renewing and releasing\<close>

datatype claim_result = Acquired | Held_by "DeployLeaseHolder option"

definition claimLease ::
  "bool \<Rightarrow> DeployLeaseName \<Rightarrow> string \<Rightarrow> int \<Rightarrow> int \<Rightarrow> int \<Rightarrow> deploy_leases \<Rightarrow> claim_result \<times> deploy_leases" where
  "claimLease row_locked name runId ttl clock stamp tbl =
     (let tbl1 = ensureLeaseRow name tbl in
      case (if row_locked then None else tbl1 name) of
        None \<Rightarrow> (Held_by None, tbl1)
      | Some r \<Rightarrow>
          if \<not> (FREE_SQL r clock \<or> holder_run_id r = Some runId)
          then (Held_by (row_holder r), tbl1)
          else (Acquired, tbl1(name \<mapsto> r\<lparr>holder_run_id := Some runId, holder_sync_id := None,
                                         acquired_at := Some stamp, expires_at := Some (stamp + ttl)\<rparr>)))"

datatype renewal = Renewed | Lost | Not_held

definition renewLease ::
  "DeployLeaseName \<Rightarrow> string \<Rightarrow> int \<Rightarrow> int \<Rightarrow> deploy_leases \<Rightarrow> renewal \<times> deploy_leases" where
  "renewLease name runId ttl clock tbl =
     (case tbl name of
        None \<Rightarrow> (Not_held, tbl)
      | Some r \<Rightarrow>
          if holder_run_id r \<noteq> Some runId then (Not_held, tbl)
          else (let r' = (if unexpired r clock then r\<lparr>expires_at := Some (clock + ttl)\<rparr> else r)
                in (if unexpired r' clock then Renewed else Lost, tbl(name \<mapsto> r'))))"

definition releaseLease ::
  "DeployLeaseName \<Rightarrow> string \<Rightarrow> int \<Rightarrow> deploy_leases \<Rightarrow> bool option \<times> deploy_leases" where
  "releaseLease name runId clock tbl =
     (case tbl name of
        None \<Rightarrow> (None, tbl)
      | Some r \<Rightarrow>
          if holder_run_id r \<noteq> Some runId then (None, tbl)
          else (Some (unexpired r clock),
                tbl(name \<mapsto> r\<lparr>holder_run_id := None, acquired_at := None, expires_at := None\<rparr>)))"

definition claimSyncLease ::
  "bool \<Rightarrow> DeployLeaseName \<Rightarrow> string \<Rightarrow> int \<Rightarrow> int \<Rightarrow> int \<Rightarrow> deploy_leases \<Rightarrow> bool \<times> deploy_leases" where
  "claimSyncLease row_locked name syncId ttl clock stamp tbl =
     (let tbl1 = ensureLeaseRow name tbl in
      case (if row_locked then None else tbl1 name) of
        None \<Rightarrow> (False, tbl1)
      | Some r \<Rightarrow>
          if \<not> FREE_SQL r clock then (False, tbl1)
          else (True, tbl1(name \<mapsto> r\<lparr>holder_run_id := None, holder_sync_id := Some syncId,
                                     acquired_at := Some stamp, expires_at := Some (stamp + ttl)\<rparr>)))"

definition renewSyncLease ::
  "DeployLeaseName \<Rightarrow> string \<Rightarrow> int \<Rightarrow> int \<Rightarrow> deploy_leases \<Rightarrow> bool \<times> deploy_leases" where
  "renewSyncLease name syncId ttl clock tbl =
     (case tbl name of
        None \<Rightarrow> (False, tbl)
      | Some r \<Rightarrow>
          if holder_sync_id r = Some syncId \<and> unexpired r clock
          then (True, tbl(name \<mapsto> r\<lparr>expires_at := Some (clock + ttl)\<rparr>))
          else (False, tbl))"

definition releaseSyncLease :: "DeployLeaseName \<Rightarrow> string \<Rightarrow> deploy_leases \<Rightarrow> deploy_leases" where
  "releaseSyncLease name syncId tbl =
     (case tbl name of
        None \<Rightarrow> tbl
      | Some r \<Rightarrow>
          if holder_sync_id r = Some syncId
          then tbl(name \<mapsto> r\<lparr>holder_sync_id := None, acquired_at := None, expires_at := None\<rparr>)
          else tbl)"

section \<open>The previous release in flight\<close>

datatype deploy_env = Staging | Production
datatype build_kind = Site | Plugin_data

record deploy_run_row =
  run_id :: string
  run_running :: bool
  run_lease_expires_at :: "int option"
  run_build_kind :: build_kind
  run_env :: deploy_env
  run_lock_free :: bool

definition previousReleaseRunInFlight ::
  "string \<Rightarrow> deploy_env list \<Rightarrow> bool \<Rightarrow> deploy_run_row list \<Rightarrow> string option" where
  "previousReleaseRunInFlight exceptRunId envs siteOnly runs =
     map_option run_id
       (find (\<lambda>r. run_running r \<and> run_lease_expires_at r = None
                \<and> (siteOnly \<longrightarrow> run_build_kind r = Site) \<and> run_env r \<in> set envs
                \<and> run_id r \<noteq> exceptRunId \<and> \<not> run_lock_free r) runs)"

definition deployRunIsOrphaned :: "string \<Rightarrow> int \<Rightarrow> deploy_run_row list \<Rightarrow> bool" where
  "deployRunIsOrphaned runId clock runs =
     (case find (\<lambda>r. run_id r = runId) runs of
        None \<Rightarrow> False
      | Some r \<Rightarrow>
          (case run_lease_expires_at r of Some e \<Rightarrow> e \<le> clock | None \<Rightarrow> run_lock_free r))"

definition acquire_channel ::
  "DeployLeaseName \<Rightarrow> deploy_env list \<Rightarrow> bool \<Rightarrow> bool \<Rightarrow> deploy_run_row list \<Rightarrow> bool
   \<Rightarrow> string \<Rightarrow> int \<Rightarrow> int \<Rightarrow> int \<Rightarrow> deploy_leases \<Rightarrow> claim_result \<times> deploy_leases" where
  "acquire_channel name envs siteOnly legacy_free runs row_locked runId ttl clock stamp tbl =
     (if \<not> legacy_free then (Held_by None, tbl)
      else (case previousReleaseRunInFlight runId envs siteOnly runs of
              Some r \<Rightarrow> (Held_by (Some \<lparr>holder_run = r, holder_expires = clock\<rparr>), tbl)
            | None \<Rightarrow> claimLease row_locked name runId ttl clock stamp tbl))"

definition acquireLiveRelease where
  "acquireLiveRelease = acquire_channel Live_release [Production] False"

definition acquireStagingPublication where
  "acquireStagingPublication = acquire_channel Staging_publication [Staging, Production] True"

definition tryLockLiveRelease ::
  "bool \<Rightarrow> nat \<Rightarrow> bool \<Rightarrow> bool \<Rightarrow> (nat \<Rightarrow> deploy_leases \<times> int) \<Rightarrow> LeaseRowLock option" where
  "tryLockLiveRelease legacy_free fuel skip row_locked observe =
     (if \<not> legacy_free then Some (Not_locked None)
      else lockLeaseRow fuel skip row_locked Live_release observe)"

definition claim_for_sync ::
  "DeployLeaseName \<Rightarrow> bool \<Rightarrow> bool \<Rightarrow> string \<Rightarrow> int \<Rightarrow> int \<Rightarrow> int \<Rightarrow> deploy_leases \<Rightarrow> bool \<times> deploy_leases" where
  "claim_for_sync name legacy_free row_locked syncId ttl clock stamp tbl =
     (if \<not> legacy_free then (False, tbl)
      else claimSyncLease row_locked name syncId ttl clock stamp tbl)"

definition claimLiveReleaseForSync where
  "claimLiveReleaseForSync = claim_for_sync Live_release"

definition claimStagingPublicationForSync where
  "claimStagingPublicationForSync = claim_for_sync Staging_publication"

section \<open>The heartbeat of a run\<close>

definition DEPLOY_RUN_LEASE_TTL_MS :: int where
  "DEPLOY_RUN_LEASE_TTL_MS = 120000"

definition DEPLOY_RUN_HEARTBEAT_MS :: int where
  "DEPLOY_RUN_HEARTBEAT_MS = DEPLOY_RUN_LEASE_TTL_MS div 4"

record DeployRunBeat =
  beat_running :: bool
  beat_publication :: renewal
  beat_liveRelease :: renewal

datatype lost_reason = Marked_failed | Publication_lapsed | Live_release_lapsed

text \<open>The private fields; in_flight is what the run expected to hold when the beat in flight
  started.\<close>

record DeployRunHeartbeat =
  expectsPublication :: bool
  expectsLiveRelease :: bool
  in_flight :: "(bool \<times> bool) option"
  lost :: "lost_reason option"
  stopped :: bool

definition new_heartbeat :: DeployRunHeartbeat where
  "new_heartbeat = \<lparr>expectsPublication = False, expectsLiveRelease = False, in_flight = None,
     lost = None, stopped = False\<rparr>"

datatype heartbeat_event =
    Timer
  | Beat_answered "DeployRunBeat option"
  | Beat_failed
  | Expect_publication bool
  | Expect_live_release bool
  | Stop_beating

definition lose :: "lost_reason \<Rightarrow> DeployRunHeartbeat \<Rightarrow> DeployRunHeartbeat" where
  "lose reason hb = (if lost hb = None then hb\<lparr>lost := Some reason\<rparr> else hb)"

definition judge_beat ::
  "bool \<Rightarrow> bool \<Rightarrow> DeployRunBeat \<Rightarrow> DeployRunHeartbeat \<Rightarrow> DeployRunHeartbeat" where
  "judge_beat expectedPublication expectedLive r hb =
     (if \<not> beat_running r then lose Marked_failed hb
      else if expectedPublication \<and> beat_publication r \<noteq> Renewed then lose Publication_lapsed hb
      else if expectedLive \<and> beat_liveRelease r \<noteq> Renewed then lose Live_release_lapsed hb
      else hb)"

fun heartbeat_step :: "heartbeat_event \<Rightarrow> DeployRunHeartbeat \<Rightarrow> DeployRunHeartbeat" where
  "heartbeat_step Timer hb =
     (if stopped hb \<or> in_flight hb \<noteq> None then hb
      else hb\<lparr>in_flight := Some (expectsPublication hb, expectsLiveRelease hb)\<rparr>)"
| "heartbeat_step (Beat_answered answer) hb =
     (case in_flight hb of
        None \<Rightarrow> hb
      | Some (p, l) \<Rightarrow>
          (case answer of None \<Rightarrow> hb | Some r \<Rightarrow> judge_beat p l r hb)\<lparr>in_flight := None\<rparr>)"
| "heartbeat_step Beat_failed hb = hb\<lparr>in_flight := None\<rparr>"
| "heartbeat_step (Expect_publication held) hb = hb\<lparr>expectsPublication := held\<rparr>"
| "heartbeat_step (Expect_live_release held) hb = hb\<lparr>expectsLiveRelease := held\<rparr>"
| "heartbeat_step Stop_beating hb = hb\<lparr>stopped := True\<rparr>"

definition heartbeat_run :: "heartbeat_event list \<Rightarrow> DeployRunHeartbeat \<Rightarrow> DeployRunHeartbeat" where
  "heartbeat_run es hb = fold heartbeat_step es hb"

section \<open>The leases keep the contract\<close>

datatype deploy_holder = Run string | Sync string

definition row_held :: "lease_row \<Rightarrow> deploy_holder \<Rightarrow> int \<Rightarrow> bool" where
  "row_held r h t =
     (unexpired r t \<and> (case h of Run i \<Rightarrow> holder_run_id r = Some i | Sync i \<Rightarrow> holder_sync_id r = Some i))"

definition deploy_held :: "DeployLeaseName \<Rightarrow> deploy_leases \<Rightarrow> deploy_holder \<Rightarrow> int \<Rightarrow> bool" where
  "deploy_held name tbl h t = (case tbl name of None \<Rightarrow> False | Some r \<Rightarrow> row_held r h t)"

definition row_ok :: "lease_row \<Rightarrow> bool" where
  "row_ok r =
     ((holder_run_id r = None \<or> holder_sync_id r = None)
      \<and> (holder_run_id r \<noteq> None \<or> holder_sync_id r \<noteq> None \<longrightarrow> expires_at r \<noteq> None))"

definition leases_ok :: "deploy_leases \<Rightarrow> bool" where
  "leases_ok tbl = (\<forall>name r. tbl name = Some r \<longrightarrow> row_ok r)"

definition deploy_claim ::
  "(deploy_holder \<Rightarrow> int \<Rightarrow> bool) \<Rightarrow> DeployLeaseName \<Rightarrow> int \<Rightarrow> int \<Rightarrow> int \<Rightarrow> deploy_holder
   \<Rightarrow> deploy_leases \<Rightarrow> bool \<times> deploy_leases" where
  "deploy_claim locked name t u ttl h tbl =
     (case h of
        Run i \<Rightarrow> (let (r, tbl') = claimLease (locked h t) name i ttl t u tbl in (r = Acquired, tbl'))
      | Sync i \<Rightarrow> claimSyncLease (locked h t) name i ttl t u tbl)"

definition deploy_release :: "DeployLeaseName \<Rightarrow> deploy_holder \<Rightarrow> deploy_leases \<Rightarrow> deploy_leases" where
  "deploy_release name h tbl =
     (case h of Run i \<Rightarrow> snd (releaseLease name i 0 tbl) | Sync i \<Rightarrow> releaseSyncLease name i tbl)"

definition deploy_renew ::
  "DeployLeaseName \<Rightarrow> int \<Rightarrow> int \<Rightarrow> deploy_holder \<Rightarrow> deploy_leases \<Rightarrow> deploy_leases" where
  "deploy_renew name t ttl h tbl =
     (case h of
        Run i \<Rightarrow> snd (renewLease name i ttl t tbl)
      | Sync i \<Rightarrow> snd (renewSyncLease name i ttl t tbl))"

lemmas deploy_lease_defs =
  deploy_claim_def deploy_release_def deploy_renew_def claimLease_def claimSyncLease_def
  releaseLease_def releaseSyncLease_def renewLease_def renewSyncLease_def ensureLeaseRow_def

lemma row_free_iff:
  assumes "row_ok r"
  shows "FREE_SQL r t = (\<nexists>h. row_held r h t)"
proof -
  have "(\<exists>h. row_held r h t)
      = (unexpired r t \<and> (holder_run_id r \<noteq> None \<or> holder_sync_id r \<noteq> None))"
  proof -
    have "(\<exists>h. row_held r h t) = ((\<exists>i. row_held r (Run i) t) \<or> (\<exists>i. row_held r (Sync i) t))"
      by (metis deploy_holder.exhaust)
    then show ?thesis by (auto simp: row_held_def)
  qed
  then show ?thesis
    using assms by (auto simp: FREE_SQL_def row_ok_def unexpired_def split: option.splits)
qed

lemma row_held_unique: "row_ok r \<Longrightarrow> row_held r h t \<Longrightarrow> row_held r g u \<Longrightarrow> h = g"
  by (auto simp: row_ok_def row_held_def split: deploy_holder.splits)

lemma free_row_ok [simp]: "row_ok free_row" "\<not> row_held free_row h t" "FREE_SQL free_row t"
  by (simp_all add: row_ok_def free_row_def row_held_def unexpired_def FREE_SQL_def)

lemma row_held_claimed [simp]:
  "row_held (r\<lparr>holder_run_id := Some i, holder_sync_id := None, acquired_at := a, expires_at := Some e\<rparr>) h t
     = (h = Run i \<and> t < e)"
  "row_held (r\<lparr>holder_run_id := None, holder_sync_id := Some i, acquired_at := a, expires_at := Some e\<rparr>) h t
     = (h = Sync i \<and> t < e)"
  by (auto simp: row_held_def unexpired_def split: deploy_holder.splits)

text \<open>What a claim does to the row of its name.\<close>

definition row_of :: "DeployLeaseName \<Rightarrow> deploy_leases \<Rightarrow> lease_row" where
  "row_of name tbl = (case tbl name of None \<Rightarrow> free_row | Some r \<Rightarrow> r)"

lemma deploy_held_row_of: "deploy_held name tbl h t = row_held (row_of name tbl) h t"
  by (simp add: deploy_held_def row_of_def split: option.split)

lemma ensureLeaseRow_get [simp]: "ensureLeaseRow name tbl name = Some (row_of name tbl)"
  by (simp add: ensureLeaseRow_def row_of_def split: option.split)

lemma row_of_ensure [simp]: "row_of name (ensureLeaseRow name tbl) = row_of name tbl"
  by (simp add: ensureLeaseRow_def row_of_def split: option.split)

lemma row_of_upd [simp]: "row_of name (tbl(name \<mapsto> r)) = r"
  by (simp add: row_of_def)

lemma leases_ok_row: "leases_ok tbl \<Longrightarrow> row_ok (row_of name tbl)"
  by (simp add: leases_ok_def row_of_def split: option.split)

lemma leases_ok_upd: "leases_ok tbl \<Longrightarrow> row_ok r \<Longrightarrow> leases_ok (tbl(name \<mapsto> r))"
  by (simp add: leases_ok_def)

lemma leases_ok_ensure: "leases_ok tbl \<Longrightarrow> leases_ok (ensureLeaseRow name tbl)"
  by (simp add: ensureLeaseRow_def leases_ok_upd split: option.split)

lemma claimed_row_ok [simp]:
  "row_ok (r\<lparr>holder_run_id := Some i, holder_sync_id := None, acquired_at := a, expires_at := Some e\<rparr>)"
  "row_ok (r\<lparr>holder_run_id := None, holder_sync_id := Some i, acquired_at := a, expires_at := Some e\<rparr>)"
  by (simp_all add: row_ok_def)

lemma deploy_claim_grants:
  "fst (deploy_claim locked name t u ttl h tbl)
     = (\<not> locked h t \<and> (FREE_SQL (row_of name tbl) t
          \<or> (\<exists>i. h = Run i \<and> holder_run_id (row_of name tbl) = Some i)))"
  by (cases h) (auto simp: deploy_claim_def claimLease_def claimSyncLease_def Let_def)

lemma deploy_claim_row:
  "row_held (row_of name (snd (deploy_claim locked name t u ttl h tbl))) g v
     = (if fst (deploy_claim locked name t u ttl h tbl) then g = h \<and> v < u + ttl
        else row_held (row_of name tbl) g v)"
  by (cases h) (auto simp: deploy_claim_def claimLease_def claimSyncLease_def Let_def)

lemma deploy_claim_ok: "leases_ok tbl \<Longrightarrow> leases_ok (snd (deploy_claim locked name t u ttl h tbl))"
  by (cases h)
    (simp_all add: deploy_claim_def claimLease_def claimSyncLease_def Let_def leases_ok_ensure
      leases_ok_upd case_prod_beta)

lemma row_of_release:
  "row_held (row_of name (deploy_release name h tbl)) g v
     = (if leases_ok tbl then g \<noteq> h \<and> row_held (row_of name tbl) g v
        else row_held (row_of name (deploy_release name h tbl)) g v)"
proof (cases "leases_ok tbl")
  case True
  then have ok: "row_ok (row_of name tbl)" by (rule leases_ok_row)
  then show ?thesis
    using True
    by (cases h; cases "tbl name")
      (auto simp: deploy_release_def releaseLease_def releaseSyncLease_def row_of_def row_held_def
        row_ok_def unexpired_def free_row_def split: deploy_holder.splits option.splits)
qed simp

lemma deploy_release_ok: "leases_ok tbl \<Longrightarrow> leases_ok (deploy_release name h tbl)"
  using leases_ok_row [of tbl name]
  by (cases h; cases "tbl name")
    (auto simp: deploy_release_def releaseLease_def releaseSyncLease_def row_of_def row_ok_def
      intro!: leases_ok_upd)

lemma deploy_renew_row:
  "row_held (row_of name (deploy_renew name t ttl h tbl)) g v
     = (if row_held (row_of name tbl) h t
        then (g = h \<and> v < t + ttl) \<or> (g \<noteq> h \<and> row_held (row_of name (deploy_renew name t ttl h tbl)) g v)
        else row_held (row_of name tbl) g v)"
  by (cases h; cases "tbl name")
    (auto simp: deploy_renew_def renewLease_def renewSyncLease_def row_of_def row_held_def
      unexpired_def free_row_def Let_def split: option.splits if_splits)

lemma deploy_renew_ok: "leases_ok tbl \<Longrightarrow> leases_ok (deploy_renew name t ttl h tbl)"
  using leases_ok_row [of tbl name]
  by (cases h; cases "tbl name")
    (auto simp: deploy_renew_def renewLease_def renewSyncLease_def row_of_def row_ok_def Let_def
      intro!: leases_ok_upd)

interpretation deploy_lease: renewable_lease
  "deploy_held name" leases_ok "deploy_claim locked name" "deploy_release name" "deploy_renew name"
  for locked name
proof
  note held = deploy_held_row_of
  show excl: "leases_ok s \<Longrightarrow> deploy_held name s h t \<Longrightarrow> deploy_held name s g u \<Longrightarrow> h = g" for s h t g u
    using row_held_unique [OF leases_ok_row] by (simp add: held)
  show "deploy_held name s h t \<Longrightarrow> u \<le> t \<Longrightarrow> deploy_held name s h u" for s h t u
    by (auto simp: held row_held_def unexpired_def split: option.splits)
  show "leases_ok s \<Longrightarrow> leases_ok (snd (deploy_claim locked name t u ttl h s))" for s t u ttl h
    by (rule deploy_claim_ok)
  show "leases_ok s \<Longrightarrow> leases_ok (deploy_release name h s)" for s h by (rule deploy_release_ok)
  show "\<not> fst (deploy_claim locked name t u ttl h s)
      \<Longrightarrow> deploy_held name (snd (deploy_claim locked name t u ttl h s)) g v = deploy_held name s g v"
    for s t u ttl h g v
    by (simp add: held deploy_claim_row)
  show "leases_ok s \<Longrightarrow> fst (deploy_claim locked name t u ttl h s) \<Longrightarrow> g \<noteq> h \<Longrightarrow> \<not> deploy_held name s g t"
    for s t u ttl h g
    using row_free_iff [OF leases_ok_row, of s name t] leases_ok_row [of s name]
    by (auto simp: held deploy_claim_grants row_held_def row_ok_def split: deploy_holder.splits)
  show "fst (deploy_claim locked name t u ttl h s)
      \<Longrightarrow> deploy_held name (snd (deploy_claim locked name t u ttl h s)) h v = (v < u + ttl)"
    for s t u ttl h v
    by (simp add: held deploy_claim_row)
  show "leases_ok s \<Longrightarrow> g \<noteq> h \<Longrightarrow> deploy_held name (deploy_release name h s) g v = deploy_held name s g v"
    for s g h v
    by (subst (1 2) held, subst row_of_release) simp
  show "leases_ok s \<Longrightarrow> \<not> deploy_held name (deploy_release name h s) h v" for s h v
    by (subst held, subst row_of_release) simp
  show "leases_ok s \<Longrightarrow> leases_ok (deploy_renew name t ttl h s)" for s t ttl h
    by (rule deploy_renew_ok)
  show "leases_ok s \<Longrightarrow> g \<noteq> h \<Longrightarrow> deploy_held name (deploy_renew name t ttl h s) g v = deploy_held name s g v"
    for s g h t ttl v
  proof -
    assume ok: "leases_ok s" and "g \<noteq> h"
    show "deploy_held name (deploy_renew name t ttl h s) g v = deploy_held name s g v"
    proof (cases "row_held (row_of name s) h t")
      case True
      then have "row_held (row_of name (deploy_renew name t ttl h s)) h (min t (t + ttl - 1))
          \<longleftrightarrow> min t (t + ttl - 1) < t + ttl"
        by (subst deploy_renew_row) simp
      then have "row_held (row_of name (deploy_renew name t ttl h s)) h (min t (t + ttl - 1))" by simp
      then show ?thesis
        using row_held_unique [OF leases_ok_row [OF deploy_renew_ok [OF ok]]]
          row_held_unique [OF leases_ok_row [OF ok] True] \<open>g \<noteq> h\<close>
        by (metis held)
    next
      case False
      then show ?thesis by (subst (1 2) held, subst deploy_renew_row) simp
    qed
  qed
  show "\<not> deploy_held name s h t \<Longrightarrow> deploy_held name (deploy_renew name t ttl h s) h v = deploy_held name s h v"
    for s h t ttl v
    by (subst (1 2) held, subst deploy_renew_row) (simp add: held)
  show "deploy_held name s h t \<Longrightarrow> deploy_held name (deploy_renew name t ttl h s) h v = (v < t + ttl)"
    for s h t ttl v
    by (subst held, subst deploy_renew_row) (simp add: held)
qed

section \<open>Properties\<close>

text \<open>C1. A deploy lease has one holder, run or redirect sync, and keeps it until it
  expires: whatever claims, releases and renewals others attempt before the expiry, the
  holder still holds it, no other run and no other sync can claim it, and the table keeps at
  most one holder per row.\<close>

theorem deploy_lease_protects_until_expiry:
  assumes "leases_ok tbl" "deploy_held name tbl h e"
    and "\<forall>x \<in> set xs. actor x \<noteq> h \<and> op_clock_by e x"
    and "tbl' = lease_run (deploy_claim locked name) (deploy_release name) (deploy_renew name) xs tbl"
  shows "deploy_held name tbl' h e \<and> leases_ok tbl'
    \<and> (\<forall>g t. deploy_held name tbl' g t \<longrightarrow> g = h)
    \<and> (\<forall>l i ttl t u. Run i \<noteq> h \<longrightarrow> t \<le> e \<longrightarrow> fst (claimLease l name i ttl t u tbl') \<noteq> Acquired)
    \<and> (\<forall>l i ttl t u. Sync i \<noteq> h \<longrightarrow> t \<le> e \<longrightarrow> \<not> fst (claimSyncLease l name i ttl t u tbl'))"
proof -
  have held: "deploy_held name tbl' h e"
    unfolding assms(4) by (rule deploy_lease.run_keeps_holder [OF assms(1-3)])
  have ok: "leases_ok tbl'" unfolding assms(4) by (rule deploy_lease.run_ok [OF assms(1)])
  have "fst (claimLease l name i ttl t u tbl') \<noteq> Acquired" if "Run i \<noteq> h" "t \<le> e" for l i ttl t u
    using deploy_lease.held_not_claimable [OF ok held that, of "\<lambda>_ _. l" u ttl]
    by (simp add: deploy_claim_def case_prod_beta)
  moreover have "\<not> fst (claimSyncLease l name i ttl t u tbl')" if "Sync i \<noteq> h" "t \<le> e" for l i ttl t u
    using deploy_lease.held_not_claimable [OF ok held that, of "\<lambda>_ _. l" u ttl]
    by (simp add: deploy_claim_def)
  ultimately show ?thesis
    using held ok deploy_lease.exclusive [OF ok held] by blast
qed

definition no_leases :: deploy_leases where
  "no_leases = (\<lambda>_. None)"

definition run_1_holds :: deploy_leases where
  "run_1_holds = snd (claimLease False Live_release ''run-1'' 120000 0 0 no_leases)"

lemma run_1_holds_ok: "leases_ok run_1_holds"
  by (simp add: run_1_holds_def no_leases_def claimLease_def leases_ok_def ensureLeaseRow_def
      row_ok_def Let_def)

lemma deploy_lease_protects_until_expiry_witness:
  "\<not> fst (claimSyncLease False Live_release ''sync-1'' 5000 60000 60001
      (lease_run (deploy_claim (\<lambda>_ _. False) Live_release) (deploy_release Live_release)
         (deploy_renew Live_release)
         [Claim_op 10 10 120000 (Run ''run-2''), Release_op (Sync ''sync-1'')] run_1_holds))"
proof -
  have "deploy_held Live_release run_1_holds (Run ''run-1'') 119999" by code_simp
  from deploy_lease_protects_until_expiry [OF run_1_holds_ok this,
      where xs = "[Claim_op 10 10 120000 (Run ''run-2''), Release_op (Sync ''sync-1'')]"
        and locked = "\<lambda>_ _. False", OF _ refl]
  show ?thesis by simp
qed

text \<open>Claims succeed exactly when the lease is free: on a row no other transaction has
  locked, a run gets the lease exactly when nobody else holds it unexpired, a sync exactly
  when nobody does; a granted lease runs from the stamp for the lifetime asked; and renewing
  a lapsed lease reports it lost and never revives it.\<close>

theorem claims_succeed_exactly_when_free:
  assumes "leases_ok tbl" "0 < ttl"
  shows "(fst (claimLease False name i ttl t u tbl) = Acquired)
        = (\<forall>h. deploy_held name tbl h t \<longrightarrow> h = Run i)
    \<and> fst (claimSyncLease False name j ttl t u tbl) = (\<nexists>h. deploy_held name tbl h t)
    \<and> (fst (renewLease name i ttl t tbl) = Lost \<longrightarrow> snd (renewLease name i ttl t tbl) = tbl)
    \<and> (fst (renewLease name i ttl t tbl) = Renewed) = deploy_held name tbl (Run i) t"
proof -
  note ok = leases_ok_row [OF assms(1), of name]
  have run: "(fst (claimLease False name i ttl t u tbl) = Acquired)
      = (FREE_SQL (row_of name tbl) t \<or> holder_run_id (row_of name tbl) = Some i)"
    using deploy_claim_grants [of "\<lambda>_ _. False" name t u ttl "Run i" tbl]
    by (simp add: deploy_claim_def case_prod_beta)
  have "(fst (claimLease False name i ttl t u tbl) = Acquired)
      = (\<forall>h. deploy_held name tbl h t \<longrightarrow> h = Run i)"
  proof
    assume "fst (claimLease False name i ttl t u tbl) = Acquired"
    with run row_free_iff [OF ok] ok show "\<forall>h. deploy_held name tbl h t \<longrightarrow> h = Run i"
      by (auto simp: deploy_held_row_of row_held_def row_ok_def split: deploy_holder.splits)
  next
    assume "\<forall>h. deploy_held name tbl h t \<longrightarrow> h = Run i"
    then show "fst (claimLease False name i ttl t u tbl) = Acquired"
      using run row_free_iff [OF ok, of t] by (auto simp: deploy_held_row_of row_held_def)
  qed
  moreover have "fst (claimSyncLease False name j ttl t u tbl) = (\<nexists>h. deploy_held name tbl h t)"
    using deploy_claim_grants [of "\<lambda>_ _. False" name t u ttl "Sync j" tbl] row_free_iff [OF ok, of t]
    by (simp add: deploy_claim_def deploy_held_row_of)
  moreover have "fst (renewLease name i ttl t tbl) = Lost \<longrightarrow> snd (renewLease name i ttl t tbl) = tbl"
    using assms(2)
    by (cases "tbl name") (auto simp: renewLease_def unexpired_def Let_def fun_upd_idem split: if_splits)
  moreover have "(fst (renewLease name i ttl t tbl) = Renewed) = deploy_held name tbl (Run i) t"
    using assms(2)
    by (cases "tbl name") (auto simp: renewLease_def unexpired_def deploy_held_def row_held_def Let_def)
  ultimately show ?thesis by blast
qed

lemma claims_succeed_exactly_when_free_witness:
  "fst (claimLease False Live_release ''run-2'' 120000 120000 120000 run_1_holds) = Acquired"
proof -
  have "\<not> deploy_held Live_release run_1_holds h 120000" for h
    by (cases h) (code_simp, simp_all add: run_1_holds_def no_leases_def claimLease_def
        ensureLeaseRow_def deploy_held_def row_held_def unexpired_def)
  then show ?thesis
    using claims_succeed_exactly_when_free [OF run_1_holds_ok, of 120000 Live_release "''run-2''"
        120000 120000 "''sync-1''"]
    by simp
qed

lemma not_free_lapsed:
  assumes "\<not> FREE_SQL r t1" "leaseHolder name t2 tbl = None" "\<not> syncHoldsLease name t3 tbl"
    "tbl name = Some r" "t2 \<le> t3" "t3 \<le> t4"
  shows "FREE_SQL r t4"
  using assms
  by (auto simp: FREE_SQL_def leaseHolder_def syncHoldsLease_def unexpired_def
      split: option.splits if_splits)

text \<open>Locking the row always answers: as long as nobody else changes the row between the
  statements and the database clock does not go back, the transaction has its answer within
  one retry (a lease that lapses between the two statements is locked by the next round),
  and an answer that the row is locked means nobody holds it.\<close>

theorem lock_answers_within_one_retry:
  assumes "tbl name = Some r" "row_ok r" "\<And>m n. m \<le> n \<Longrightarrow> clk m \<le> clk n"
  shows "\<exists>a. lockLeaseRow 2 False row_locked name (\<lambda>n. (tbl, clk n)) = Some a
    \<and> (a = Locked \<longrightarrow> (\<exists>n. \<nexists>h. deploy_held name tbl h (clk n)))
    \<and> (\<forall>h. a = Not_locked (Some h) \<longrightarrow> (\<exists>n. deploy_held name tbl (Run (holder_run h)) (clk n)))"
proof -
  have row: "ensureLeaseRow name tbl name = Some r" using assms(1) by (simp add: ensureLeaseRow_def)
  have free: "\<nexists>h. deploy_held name tbl h t" if "FREE_SQL r t" for t
    using row_free_iff [OF assms(2), of t] that assms(1) by (simp add: deploy_held_def)
  have held: "deploy_held name tbl (Run (holder_run h)) t" if "leaseHolder name t tbl = Some h" for t h
    using that assms(1)
    by (auto simp: leaseHolder_def deploy_held_def row_held_def unexpired_def
        split: option.splits if_splits)
  have retry: "FREE_SQL r (clk 3)"
    if "\<not> FREE_SQL r (clk 0)" "leaseHolder name (clk 1) tbl = None" "\<not> syncHoldsLease name (clk 2) tbl"
    using not_free_lapsed [OF that assms(1)] assms(3) by simp
  consider (free) "FREE_SQL r (clk 0)"
    | (run) h where "\<not> FREE_SQL r (clk 0)" "leaseHolder name (clk 1) tbl = Some h"
    | (sync) "\<not> FREE_SQL r (clk 0)" "leaseHolder name (clk 1) tbl = None" "syncHoldsLease name (clk 2) tbl"
    | (again) "\<not> FREE_SQL r (clk 0)" "leaseHolder name (clk 1) tbl = None"
        "\<not> syncHoldsLease name (clk 2) tbl"
    by fastforce
  then show ?thesis
  proof cases
    case free
    then show ?thesis
      using row \<open>\<And>t. FREE_SQL r t \<Longrightarrow> \<nexists>h. deploy_held name tbl h t\<close>
      by (auto simp: lockLeaseRow_def numeral_2_eq_2)
  next
    case run
    then show ?thesis using row held by (auto simp: lockLeaseRow_def numeral_2_eq_2)
  next
    case sync
    then show ?thesis using row by (simp add: lockLeaseRow_def numeral_2_eq_2)
  next
    case again
    then show ?thesis
      using row retry \<open>\<And>t. FREE_SQL r t \<Longrightarrow> \<nexists>h. deploy_held name tbl h t\<close>
      by (auto simp: lockLeaseRow_def numeral_2_eq_2 numeral_3_eq_3)
  qed
qed

lemma lock_answers_within_one_retry_witness:
  "\<exists>a. lockLeaseRow 2 False False Live_release (\<lambda>n. (run_1_holds, int n + 119999)) = Some a"
proof -
  have "row_ok (the (run_1_holds Live_release))" by code_simp
  moreover have "run_1_holds Live_release = Some (the (run_1_holds Live_release))"
    by (simp add: run_1_holds_def no_leases_def claimLease_def ensureLeaseRow_def)
  ultimately show ?thesis
    using lock_answers_within_one_retry [of run_1_holds Live_release "the (run_1_holds Live_release)"
        "\<lambda>n. int n + 119999" False]
    by auto
qed

fun is_expectation :: "heartbeat_event \<Rightarrow> bool" where
  "is_expectation (Expect_publication held) = True"
| "is_expectation (Expect_live_release held) = True"
| "is_expectation e = False"

lemma expectations_keep:
  "\<forall>e \<in> set es. is_expectation e \<Longrightarrow>
     in_flight (heartbeat_run es hb) = in_flight hb \<and> lost (heartbeat_run es hb) = lost hb"
proof (induction es arbitrary: hb)
  case (Cons e es)
  then have "is_expectation e" by simp
  with Cons show ?case by (cases e) (simp_all add: heartbeat_run_def)
qed (simp add: heartbeat_run_def)

lemma lost_stays_step: "lost hb \<noteq> None \<Longrightarrow> lost (heartbeat_step e hb) = lost hb"
  by (cases e) (auto simp: judge_beat_def lose_def split: option.splits)

lemma lost_stays: "lost hb \<noteq> None \<Longrightarrow> lost (heartbeat_run es hb) = lost hb"
  unfolding heartbeat_run_def
  by (induction es arbitrary: hb) (simp_all add: lost_stays_step)

text \<open>The heartbeat aborts a run exactly for cause, judged against what the run held
  when the beat started: whatever the run acquires or gives up while a beat is in flight,
  that beat aborts it exactly when its row is no longer its own or a lease it held at the
  start was not renewed; and once lost, a run stays lost with the first reason.\<close>

theorem heartbeat_loses_exactly_for_cause:
  assumes "in_flight hb = None" "\<not> stopped hb" "lost hb = None"
    and "\<forall>e \<in> set es. is_expectation e"
    and "hb' = heartbeat_run (Timer # es @ [Beat_answered (Some b)]) hb"
  shows "(lost hb' = None)
      = (beat_running b \<and> (expectsPublication hb \<longrightarrow> beat_publication b = Renewed)
         \<and> (expectsLiveRelease hb \<longrightarrow> beat_liveRelease b = Renewed))
    \<and> in_flight hb' = None
    \<and> (\<forall>fs. lost hb' \<noteq> None \<longrightarrow> lost (heartbeat_run fs hb') = lost hb')"
proof -
  let ?start = "hb\<lparr>in_flight := Some (expectsPublication hb, expectsLiveRelease hb)\<rparr>"
  let ?mid = "heartbeat_run es ?start"
  have mid: "in_flight ?mid = Some (expectsPublication hb, expectsLiveRelease hb)" "lost ?mid = None"
    using expectations_keep [OF assms(4), of ?start] assms(3) by simp_all
  have "hb' = (judge_beat (expectsPublication hb) (expectsLiveRelease hb) b ?mid)\<lparr>in_flight := None\<rparr>"
    using assms(1,2) mid(1) by (simp add: assms(5) heartbeat_run_def)
  then show ?thesis
    using mid(2) lost_stays [of hb'] by (auto simp: judge_beat_def lose_def)
qed

lemma heartbeat_loses_exactly_for_cause_witness:
  "lost (heartbeat_run [Timer, Expect_publication True,
      Beat_answered (Some \<lparr>beat_running = True, beat_publication = Not_held, beat_liveRelease = Not_held\<rparr>)]
      new_heartbeat) = None"
  using heartbeat_loses_exactly_for_cause [of new_heartbeat "[Expect_publication True]", OF _ _ _ _ refl]
  by (simp add: new_heartbeat_def)

end
