(* ===== verification/Query_Errors.thy ===== *)
theory Query_Errors
  imports Urls
begin

text \<open>
  The errors of the Query API: the tagged union a call answers with
  (packages/query-api/src/errors.ts), the fields lifted from a thrown driver error, the
  sentences they become (pg-failure.ts), and the mapping of a thrown value to an error
  (adapter.ts thrownToQueryError).  A thrown error object is the list of the objects along
  its chain of causes, each with the fields the code reads.
\<close>

section \<open>JSON values\<close>

text \<open>A JSON value; a number is its JSON text, an object the list of its entries.\<close>

datatype json =
    JNull
  | JBool bool
  | JNumber string
  | JString string
  | JArray "json list"
  | JObject "(string \<times> json) list"

section \<open>Thrown values\<close>

datatype PoolName = Admin_pool | Public_pool

record pg_fields =
  pg_code :: "string option"
  pg_constraint :: "string option"
  pg_table :: "string option"
  pg_column :: "string option"
  pg_detail :: "string option"
  pg_timeout :: "string option"

record error_object =
  err_errno :: "string option"
  err_code :: "string option"
  err_message :: "string option"
  err_constraint :: "string option"
  err_table :: "string option"
  err_column :: "string option"
  err_detail :: "string option"

text \<open>The sentences a caller reads, with the values they carry; Raw is text of our own.\<close>

datatype key_phrase = Combination string string | Single_key string string

datatype error_text =
    Raw string
  | Already_exists "key_phrase option"
  | Still_referenced
  | Row_missing "key_phrase option"
  | Required_empty "string option"
  | Outside_range
  | Wrong_format
  | Too_long_text
  | Number_out_of_range
  | Statement_timed_out
  | Lock_timed_out
  | Database_defect
  | Permission_denied string bool
  | Branch_not_found string
  | Saved_but_follow_up_failed "(string \<times> string) list" "string option"
  | Saved_but_not_published string
  | Holds_no_transaction string

record lock_holder_ids =
  lock_session :: string
  lock_branch :: string
  lock_at :: string

datatype QueryError =
    UnknownOperation string
  | ValidationFailed "string list"
  | ActorScopeRejected string string
  | RateLimited string "nat option"
  | RLSDenied string error_text
  | HandlerError string error_text bool bool bool "nat option" "pg_fields option"
      \<comment> \<open>operation, message, refusal, internal, conflict, busy retryAfterMs, pgDetail\<close>
  | Locked_by_chat string error_text string string lock_holder_ids
  | SiblingLeaseConflict string error_text string string string
  | BranchNotFound string string error_text

datatype thrown =
    NestedPoolCheckoutError PoolName string string
  | OperationAbortError QueryError
  | PoolAcquireTimeoutError PoolName string nat
  | AdminDatabaseUnavailableError string
  | Error_chain "error_object list"
  | Thrown_value string

definition plain_error :: "string \<Rightarrow> thrown" where
  "plain_error message =
     Error_chain [\<lparr>err_errno = None, err_code = None, err_message = Some message,
       err_constraint = None, err_table = None, err_column = None, err_detail = None\<rparr>]"

definition POOL_BUSY_RETRY_AFTER_MS :: nat where
  "POOL_BUSY_RETRY_AFTER_MS = 5000"

definition error_objects :: "thrown \<Rightarrow> error_object list" where
  "error_objects t = (case t of Error_chain es \<Rightarrow> es | _ \<Rightarrow> [])"

text \<open>The message of a thrown value; the text of the adapter's own error classes is not
  read by any branch and stands as their name here.\<close>

definition raw_message :: "thrown \<Rightarrow> string" where
  "raw_message t =
     (case t of
        Error_chain (e # es) \<Rightarrow> (case err_message e of None \<Rightarrow> [] | Some m \<Rightarrow> m)
      | Error_chain [] \<Rightarrow> []
      | Thrown_value s \<Rightarrow> s
      | NestedPoolCheckoutError p h r \<Rightarrow> ''NestedPoolCheckoutError''
      | OperationAbortError q \<Rightarrow> ''OperationAbortError''
      | PoolAcquireTimeoutError p r n \<Rightarrow> ''PoolAcquireTimeoutError''
      | AdminDatabaseUnavailableError w \<Rightarrow> ''AdminDatabaseUnavailableError'')"

section \<open>Lifting the driver's fields\<close>

fun contains_at :: "string \<Rightarrow> string \<Rightarrow> bool" where
  "contains_at p [] = (p = [])"
| "contains_at p (c # s) = (starts_with (c # s) p \<or> contains_at p s)"

definition is_sqlstate :: "string \<Rightarrow> bool" where
  "is_sqlstate s =
     (length s = 5 \<and> list_all (\<lambda>c. is_digit c
        \<or> (65 \<le> (of_char c :: nat) \<and> (of_char c :: nat) \<le> 90)) s)"

definition truthy :: "string option \<Rightarrow> string option" where
  "truthy s = (case s of Some (c # r) \<Rightarrow> s | _ \<Rightarrow> None)"

definition object_code :: "error_object \<Rightarrow> string option" where
  "object_code e =
     (case err_errno e of
        Some n \<Rightarrow> if is_sqlstate n then Some n else err_code e
      | None \<Rightarrow> err_code e)"

definition object_fields :: "error_object \<Rightarrow> pg_fields option" where
  "object_fields e =
     (let code = truthy (object_code e); message = (case err_message e of None \<Rightarrow> [] | Some m \<Rightarrow> m)
      in if code \<noteq> None \<or> truthy (err_constraint e) \<noteq> None \<or> truthy (err_table e) \<noteq> None
            \<or> truthy (err_column e) \<noteq> None \<or> truthy (err_detail e) \<noteq> None
         then Some \<lparr>pg_code = code, pg_constraint = truthy (err_constraint e),
                    pg_table = truthy (err_table e), pg_column = truthy (err_column e),
                    pg_detail = truthy (err_detail e),
                    pg_timeout =
                      (if code = Some ''55P03'' \<and> contains_at ''lock timeout'' message
                       then Some ''lock''
                       else if code = Some ''57014'' \<and> contains_at ''statement timeout'' message
                       then Some ''statement'' else None)\<rparr>
         else None)"

definition extractPgFields :: "thrown \<Rightarrow> pg_fields option" where
  "extractPgFields t = first_some object_fields (take 5 (error_objects t))"

definition PG_INSUFFICIENT_PRIVILEGE :: string where
  "PG_INSUFFICIENT_PRIVILEGE = ''42501''"

definition isRlsDenial :: "thrown \<Rightarrow> bool" where
  "isRlsDenial t =
     list_ex (\<lambda>e. err_errno e = Some PG_INSUFFICIENT_PRIVILEGE \<or> err_code e = Some PG_INSUFFICIENT_PRIVILEGE
        \<or> (case err_message e of None \<Rightarrow> False
           | Some m \<Rightarrow> contains_at ''violates row-level security'' (map to_lower m)))
       (take 5 (error_objects t))"

section \<open>Describing a failure\<close>

fun index_of :: "string \<Rightarrow> string \<Rightarrow> nat option" where
  "index_of p [] = (if p = [] then Some 0 else None)"
| "index_of p (c # s) =
     (if starts_with (c # s) p then Some 0 else map_option Suc (index_of p s))"

definition last_index_of :: "char \<Rightarrow> string \<Rightarrow> nat option" where
  "last_index_of c s =
     (if c \<in> set s then Some (length s - 1 - length (takeWhile (\<lambda>x. x \<noteq> c) (rev s))) else None)"

definition parseKey :: "string option \<Rightarrow> (string \<times> string) option" where
  "parseKey detail =
     (case truthy detail of
        None \<Rightarrow> None
      | Some d \<Rightarrow>
          (case index_of ''Key ('' d of
             None \<Rightarrow> None
           | Some start \<Rightarrow>
               (case (map_option (\<lambda>i. i + (start + 5)) (index_of '')=('' (drop (start + 5) d)),
                      last_index_of (CHR '')'') d) of
                  (Some sep, Some end) \<Rightarrow>
                    if end \<le> sep + 2 then None
                    else (let columns = take (sep - (start + 5)) (drop (start + 5) d)
                          in if CHR '')'' \<in> set columns then None
                             else Some (columns, take (end - (sep + 3)) (drop (sep + 3) d)))
                | _ \<Rightarrow> None)))"

definition keyPhrase :: "string \<times> string \<Rightarrow> key_phrase" where
  "keyPhrase key =
     (if CHR '','' \<in> set (fst key) then Combination (fst key) (snd key)
      else Single_key (fst key) (snd key))"

definition describePgFailure :: "pg_fields \<Rightarrow> error_text \<times> bool" where
  "describePgFailure f =
     (let key = parseKey (pg_detail f); code = pg_code f in
      if code = Some ''23505'' then (Already_exists (map_option keyPhrase key), False)
      else if code = Some ''23503'' then
        (if (case pg_detail f of None \<Rightarrow> False | Some d \<Rightarrow> contains_at ''still referenced'' d)
         then (Still_referenced, False)
         else (Row_missing (map_option keyPhrase key), False))
      else if code = Some ''23502'' then (Required_empty (truthy (pg_column f)), False)
      else if code = Some ''23514'' then (Outside_range, False)
      else if code = Some ''22P02'' then (Wrong_format, False)
      else if code = Some ''22001'' then (Too_long_text, False)
      else if code = Some ''22003'' then (Number_out_of_range, False)
      else if code = Some ''57014'' \<and> pg_timeout f = Some ''statement''
      then (Statement_timed_out, True)
      else if code = Some ''55P03'' \<and> pg_timeout f = Some ''lock''
      then (Lock_timed_out, False)
      else (Database_defect, True))"

text \<open>The access is a write when the argument says so.\<close>

definition rlsDenialMessage :: "string \<Rightarrow> bool \<Rightarrow> error_text" where
  "rlsDenialMessage operation is_write = Permission_denied operation is_write"

definition thrownToQueryError :: "string \<Rightarrow> thrown \<Rightarrow> bool \<Rightarrow> QueryError" where
  "thrownToQueryError operation t is_write =
     (case t of
        PoolAcquireTimeoutError p r n \<Rightarrow>
          HandlerError operation (Raw (raw_message t)) False False False
            (Some POOL_BUSY_RETRY_AFTER_MS) None
      | _ \<Rightarrow>
          if isRlsDenial t then RLSDenied operation (rlsDenialMessage operation is_write)
          else (case extractPgFields t of
                  Some f \<Rightarrow>
                    if pg_code f \<noteq> None
                    then (let (text, internal) = describePgFailure f
                          in HandlerError operation text False internal False None (Some f))
                    else HandlerError operation (Raw (raw_message t)) False True False None (Some f)
                | None \<Rightarrow> HandlerError operation (Raw (raw_message t)) False True False None None))"

section \<open>Properties\<close>

lemma extractPgFields_code:
  assumes "extractPgFields t = Some f"
  shows "\<exists>e \<in> set (take 5 (error_objects t)). object_fields e = Some f"
  using first_some_SomeD [OF assms [unfolded extractPgFields_def]] by force

lemma describePgFailure_not_raw: "fst (describePgFailure f) \<noteq> Raw s"
  by (simp add: describePgFailure_def Let_def)

text \<open>No raw driver text reaches the caller: the error of a thrown value that carries
  an SQLSTATE anywhere in its first five causes is one of the fixed sentences about the
  caller's value, the denial, or the defect; only an error without one keeps its own
  message, and then it is marked as a defect (or, for an exhausted pool, as busy).\<close>

theorem no_raw_driver_text:
  "(\<forall>f. extractPgFields t = Some f \<longrightarrow> pg_code f \<noteq> None \<longrightarrow>
      (\<forall>s. thrownToQueryError op t w = HandlerError op s r i c b d \<longrightarrow> (\<forall>raw. s \<noteq> Raw raw)))
   \<and> (\<forall>raw. thrownToQueryError op t w = HandlerError op (Raw raw) r i c b d \<longrightarrow> i \<or> b \<noteq> None)
   \<and> (isRlsDenial t \<longrightarrow> thrownToQueryError op t w = RLSDenied op (Permission_denied op w))"
proof -
  have pool: "extractPgFields (PoolAcquireTimeoutError p q n) = None"
    "\<not> isRlsDenial (PoolAcquireTimeoutError p q n)" for p q n
    by (simp_all add: extractPgFields_def error_objects_def isRlsDenial_def)
  show ?thesis
  proof (cases "\<exists>p q n. t = PoolAcquireTimeoutError p q n")
    case True
    then show ?thesis using pool by (auto simp: thrownToQueryError_def)
  next
    case False
    then have t: "thrownToQueryError op t w =
        (if isRlsDenial t then RLSDenied op (rlsDenialMessage op w)
         else (case extractPgFields t of
                  Some f \<Rightarrow>
                    if pg_code f \<noteq> None
                    then (let (text, internal) = describePgFailure f
                          in HandlerError op text False internal False None (Some f))
                    else HandlerError op (Raw (raw_message t)) False True False None (Some f)
                | None \<Rightarrow> HandlerError op (Raw (raw_message t)) False True False None None))"
      by (cases t; hypsubst) (simp_all add: thrownToQueryError_def)
    show ?thesis
      unfolding t using describePgFailure_not_raw
      by (auto simp: rlsDenialMessage_def Let_def case_prod_beta split: option.splits)
  qed
qed

definition duplicate_slug :: thrown where
  "duplicate_slug =
     Error_chain
       [\<lparr>err_errno = None, err_code = None, err_message = Some ''Failed query: insert into pages'',
         err_constraint = None, err_table = None, err_column = None, err_detail = None\<rparr>,
        \<lparr>err_errno = Some ''23505'', err_code = Some ''ERR_POSTGRES_SERVER_ERROR'',
         err_message = Some ''duplicate key'', err_constraint = Some ''pages_slug_key'',
         err_table = Some ''pages'', err_column = None,
         err_detail = Some ''Key (slug)=(about) already exists.''\<rparr>]"

lemma duplicate_slug_error:
  "case thrownToQueryError ''pages.create'' duplicate_slug True of
     HandlerError op text refusal internal conflict busy pg \<Rightarrow>
       text = Already_exists (Some (Single_key ''slug'' ''about'')) \<and> \<not> internal
   | _ \<Rightarrow> False"
  by code_simp

lemma no_raw_driver_text_witness:
  "isRlsDenial (plain_error ''new row violates row-level security policy'')
   \<and> thrownToQueryError ''pages.update'' (plain_error ''new row violates row-level security policy'') True
       = RLSDenied ''pages.update'' (Permission_denied ''pages.update'' True)"
proof -
  have "isRlsDenial (plain_error ''new row violates row-level security policy'')" by code_simp
  then show ?thesis using no_raw_driver_text by blast
qed

end
