(* ===== verification/Branch_Access.thy ===== *)
theory Branch_Access
  imports Query_Errors
begin

text \<open>
  Branch visibility (packages/query-api/src/branch-access.ts): the branches a call names,
  the shape of a branch id, the request's memory of verdicts, and the gate inside a
  transaction.  The database function caelo_branch_visible is an argument: it answers for a
  branch or throws.  Verdict promises are modelled settled, so two operations of a request
  ask one after the other; a failed ask is forgotten at once.
\<close>

record ExecutionContext =
  actorId :: string
  actorKind :: string
  pluginId :: "string option"
  chatBranchId :: "string option"
  chatTaskId :: "string option"
  requestId :: string

definition is_hex :: "char \<Rightarrow> bool" where
  "is_hex c =
     (let n = (of_char c :: nat) in is_digit c \<or> (97 \<le> n \<and> n \<le> 102) \<or> (65 \<le> n \<and> n \<le> 70))"

definition UUID_RE :: "string \<Rightarrow> bool" where
  "UUID_RE s =
     (length s = 36
      \<and> list_all (\<lambda>i. s ! i = CHR ''-'') [8, 13, 18, 23]
      \<and> list_all (\<lambda>i. i \<in> {8, 13, 18, 23} \<or> is_hex (s ! i)) [0..<36])"

text \<open>Strings of a context count when they are set and not empty.\<close>

definition given :: "string option \<Rightarrow> string list" where
  "given s = (case s of Some (c # r) \<Rightarrow> [c # r] | _ \<Rightarrow> [])"

definition input_branch :: "json \<Rightarrow> string option" where
  "input_branch input =
     (case input of
        JObject fs \<Rightarrow> (case map_of fs ''chatBranchId'' of Some (JString s) \<Rightarrow> Some s | _ \<Rightarrow> None)
      | _ \<Rightarrow> None)"

definition namedBranches :: "ExecutionContext \<Rightarrow> json \<Rightarrow> string list" where
  "namedBranches ctx input =
     rev (remdups (rev (given (chatBranchId ctx) @ given (input_branch input))))"

definition branchNotFound :: "string \<Rightarrow> string \<Rightarrow> QueryError" where
  "branchNotFound operation b = BranchNotFound operation b (Branch_not_found b)"

definition firstMalformedBranch :: "string list \<Rightarrow> string option" where
  "firstMalformedBranch branches = find (\<lambda>b. \<not> UUID_RE b) branches"

section \<open>The request's memory\<close>

definition VERDICT_MAX_AGE_MS :: int where
  "VERDICT_MAX_AGE_MS = 30000"

record verdict =
  v_visible :: bool
  v_at :: int

type_synonym verdict_key = string

text \<open>None is a call outside any scope: nothing is remembered there.\<close>

type_synonym VisibilityScope = "(verdict_key \<times> verdict) list option"

definition withBranchVisibilityScope :: "VisibilityScope \<Rightarrow> VisibilityScope" where
  "withBranchVisibilityScope scope = (case scope of Some v \<Rightarrow> Some v | None \<Rightarrow> Some [])"

definition verdictKey :: "ExecutionContext \<Rightarrow> string \<Rightarrow> verdict_key" where
  "verdictKey ctx branch =
     actorKind ctx @ ''|'' @ actorId ctx @ ''|''
       @ (case chatTaskId ctx of None \<Rightarrow> [] | Some t \<Rightarrow> t) @ ''|'' @ branch"

definition rememberedVerdict ::
  "int \<Rightarrow> ExecutionContext \<Rightarrow> string \<Rightarrow> VisibilityScope \<Rightarrow> bool option \<times> VisibilityScope" where
  "rememberedVerdict t ctx branch scope =
     (case scope of
        None \<Rightarrow> (None, None)
      | Some m \<Rightarrow>
          (case js_get m (verdictKey ctx branch) of
             None \<Rightarrow> (None, Some m)
           | Some hit \<Rightarrow>
               if t - v_at hit > VERDICT_MAX_AGE_MS
               then (None, Some (js_delete (verdictKey ctx branch) m))
               else (Some (v_visible hit), Some m)))"

text \<open>A settled ask: a throw is forgotten, an answer is shared.\<close>

definition rememberVerdict ::
  "int \<Rightarrow> ExecutionContext \<Rightarrow> string \<Rightarrow> thrown + bool \<Rightarrow> VisibilityScope \<Rightarrow> VisibilityScope" where
  "rememberVerdict t ctx branch answer scope =
     (case scope of
        None \<Rightarrow> None
      | Some m \<Rightarrow>
          (case answer of
             Inl e \<Rightarrow> Some (js_delete (verdictKey ctx branch) m)
           | Inr v \<Rightarrow> Some (js_set (verdictKey ctx branch) \<lparr>v_visible = v, v_at = t\<rparr> m)))"

text \<open>None: some branch is not remembered; otherwise the first invisible one, if any.  The
  first pass collects verdicts or refuses a malformed id, the second takes the first
  invisible.\<close>

fun collect_verdicts ::
  "int \<Rightarrow> ExecutionContext \<Rightarrow> string list \<Rightarrow> VisibilityScope
   \<Rightarrow> (string option option + (string \<times> bool) list) \<times> VisibilityScope" where
  "collect_verdicts t ctx [] scope = (Inr [], scope)"
| "collect_verdicts t ctx (b # bs) scope =
     (if \<not> UUID_RE b then (Inl (Some (Some b)), scope)
      else (case rememberedVerdict t ctx b scope of
              (None, scope1) \<Rightarrow> (Inl None, scope1)
            | (Some v, scope1) \<Rightarrow>
                (case collect_verdicts t ctx bs scope1 of
                   (Inl r, scope2) \<Rightarrow> (Inl r, scope2)
                 | (Inr vs, scope2) \<Rightarrow> (Inr ((b, v) # vs), scope2))))"

definition rememberedFirstInvisible ::
  "int \<Rightarrow> ExecutionContext \<Rightarrow> string list \<Rightarrow> VisibilityScope \<Rightarrow> string option option \<times> VisibilityScope" where
  "rememberedFirstInvisible t ctx branches scope =
     (case collect_verdicts t ctx branches scope of
        (Inl r, scope') \<Rightarrow> (r, scope')
      | (Inr vs, scope') \<Rightarrow> (Some (map_option fst (find (\<lambda>(b, v). \<not> v) vs)), scope'))"

section \<open>The gate inside a transaction\<close>

fun firstInvisibleBranch ::
  "int \<Rightarrow> (string \<Rightarrow> thrown + bool) \<Rightarrow> ExecutionContext \<Rightarrow> string list \<Rightarrow> VisibilityScope
   \<Rightarrow> (thrown, string option) result \<times> VisibilityScope" where
  "firstInvisibleBranch t ask ctx [] scope = (Inr None, scope)"
| "firstInvisibleBranch t ask ctx (b # bs) scope =
     (if \<not> UUID_RE b then (Inr (Some b), scope)
      else (let (known, scope1) = rememberedVerdict t ctx b scope;
                answer = (case known of Some v \<Rightarrow> Inr v | None \<Rightarrow> ask b);
                scope2 = (if known = None then rememberVerdict t ctx b answer scope1 else scope1)
            in case answer of
                 Inl e \<Rightarrow> (Inl e, scope2)
               | Inr False \<Rightarrow> (Inr (Some b), scope2)
               | Inr True \<Rightarrow> firstInvisibleBranch t ask ctx bs scope2))"

section \<open>Lemmas\<close>

lemma namedBranches_set: "set (namedBranches ctx input) = set (given (chatBranchId ctx)) \<union> set (given (input_branch input))"
  by (auto simp: namedBranches_def)

lemma namedBranches_distinct: "distinct (namedBranches ctx input)"
  by (simp add: namedBranches_def)

lemma bar_split:
  assumes "a @ CHR ''|'' # x = b @ CHR ''|'' # y" "CHR ''|'' \<notin> set a" "CHR ''|'' \<notin> set b"
  shows "a = b \<and> x = y"
proof -
  have "takeWhile (\<lambda>c. c \<noteq> CHR ''|'') (a @ CHR ''|'' # x) = a"
    using assms(2) by (induction a) auto
  moreover have "takeWhile (\<lambda>c. c \<noteq> CHR ''|'') (b @ CHR ''|'' # y) = b"
    using assms(3) by (induction b) auto
  ultimately show ?thesis using assms(1) by simp
qed

definition bar_free :: "ExecutionContext \<Rightarrow> bool" where
  "bar_free ctx = (CHR ''|'' \<notin> set (actorKind ctx) \<union> set (actorId ctx)
     \<union> (case chatTaskId ctx of None \<Rightarrow> {} | Some t \<Rightarrow> set t))"

lemma verdictKey_inject:
  assumes "verdictKey ctx b = verdictKey ctx' b'" "bar_free ctx" "bar_free ctx'"
  shows "actorKind ctx = actorKind ctx' \<and> actorId ctx = actorId ctx' \<and> b = b'"
proof -
  let ?t = "\<lambda>c. case chatTaskId c of None \<Rightarrow> [] | Some t \<Rightarrow> t"
  have "CHR ''|'' \<notin> set (?t c)" if "bar_free c" for c
    using that by (auto simp: bar_free_def split: option.splits)
  then have free: "CHR ''|'' \<notin> set (?t ctx)" "CHR ''|'' \<notin> set (?t ctx')" using assms by auto
  have bars: "CHR ''|'' \<notin> set (actorKind c)" "CHR ''|'' \<notin> set (actorId c)" if "bar_free c" for c
    using that by (auto simp: bar_free_def)
  have e1: "actorKind ctx @ CHR ''|'' # (actorId ctx @ CHR ''|'' # (?t ctx @ CHR ''|'' # b))
      = actorKind ctx' @ CHR ''|'' # (actorId ctx' @ CHR ''|'' # (?t ctx' @ CHR ''|'' # b'))"
    using assms(1) by (simp add: verdictKey_def)
  note s1 = bar_split [OF e1 bars(1) [OF assms(2)] bars(1) [OF assms(3)]]
  note s2 = bar_split [OF conjunct2 [OF s1] bars(2) [OF assms(2)] bars(2) [OF assms(3)]]
  note s3 = bar_split [OF conjunct2 [OF s2] free]
  from s1 s2 s3 show ?thesis by blast
qed

text \<open>What a memory holds was answered by the database for that caller and branch; the
  history lists the answers the database gave, by key and time.\<close>

definition backed_by :: "(verdict_key \<times> bool \<times> int) set \<Rightarrow> VisibilityScope \<Rightarrow> bool" where
  "backed_by history scope =
     (case scope of None \<Rightarrow> True
      | Some m \<Rightarrow> js_map_ok m
          \<and> (\<forall>k v. js_get m k = Some v \<longrightarrow> (k, v_visible v, v_at v) \<in> history))"

lemma backed_by_mono: "backed_by h scope \<Longrightarrow> h \<subseteq> h' \<Longrightarrow> backed_by h' scope"
  by (auto simp: backed_by_def split: option.splits)

lemma rememberedVerdict_backed:
  assumes "backed_by history scope" "rememberedVerdict t ctx b scope = (known, scope')"
  shows "backed_by history scope'"
proof (cases scope)
  case (Some m)
  then show ?thesis
    using assms by (auto simp: rememberedVerdict_def backed_by_def js_map_simps js_map_ok_delete
      split: option.splits if_splits)
qed (use assms in \<open>auto simp: rememberedVerdict_def backed_by_def\<close>)

lemma rememberedVerdict_fresh:
  assumes "backed_by history scope" "rememberedVerdict t ctx b scope = (Some v, scope')"
  shows "\<exists>at. t - VERDICT_MAX_AGE_MS \<le> at \<and> (verdictKey ctx b, v, at) \<in> history"
proof -
  obtain m hit where m: "scope = Some m" "js_get m (verdictKey ctx b) = Some hit"
    "\<not> t - v_at hit > VERDICT_MAX_AGE_MS" "v = v_visible hit"
    using assms(2) by (auto simp: rememberedVerdict_def split: option.splits if_splits)
  then have "(verdictKey ctx b, v, v_at hit) \<in> history"
    using assms(1) by (simp add: backed_by_def)
  with m(3) show ?thesis by (intro exI [of _ "v_at hit"]) simp
qed

lemma rememberVerdict_backed:
  assumes "backed_by history scope" "\<And>v. answer = Inr v \<Longrightarrow> (verdictKey ctx b, v, t) \<in> history"
  shows "backed_by history (rememberVerdict t ctx b answer scope)"
proof (cases scope)
  case (Some m)
  then show ?thesis
    using assms by (cases answer)
      (auto simp: rememberVerdict_def backed_by_def js_map_simps js_map_ok_delete js_map_ok_set)
qed (simp add: rememberVerdict_def backed_by_def)

definition answers_given ::
  "int \<Rightarrow> (string \<Rightarrow> thrown + bool) \<Rightarrow> ExecutionContext \<Rightarrow> string list \<Rightarrow> (verdict_key \<times> bool \<times> int) set" where
  "answers_given t ask ctx bs = {(verdictKey ctx b, v, t) | b v. b \<in> set bs \<and> ask b = Inr v}"

definition fresh_answer ::
  "(verdict_key \<times> bool \<times> int) set \<Rightarrow> int \<Rightarrow> ExecutionContext \<Rightarrow> string \<Rightarrow> bool \<Rightarrow> bool" where
  "fresh_answer history t ctx b v =
     (\<exists>at. t - VERDICT_MAX_AGE_MS \<le> at \<and> (verdictKey ctx b, v, at) \<in> history)"

text \<open>Every decision of the gate rests on an answer the database gave this caller for
  that branch at most thirty seconds ago: with a memory backed by earlier answers, passing
  means every named branch is well formed and was answered visible, refusing a well-formed
  branch means it was answered invisible, and the memory left behind is backed again.\<close>

theorem gate_rests_on_fresh_answers:
  assumes "backed_by history scope" "firstInvisibleBranch t ask ctx bs scope = (Inr r, scope')"
  shows "backed_by (history \<union> answers_given t ask ctx bs) scope'
    \<and> (r = None \<longrightarrow> (\<forall>b \<in> set bs. UUID_RE b
         \<and> fresh_answer (history \<union> answers_given t ask ctx bs) t ctx b True))
    \<and> (\<forall>b. r = Some b \<longrightarrow> b \<in> set bs \<and> (UUID_RE b
         \<longrightarrow> fresh_answer (history \<union> answers_given t ask ctx bs) t ctx b False))"
  using assms
proof (induction t ask ctx bs scope arbitrary: history r rule: firstInvisibleBranch.induct)
  case (2 t ask ctx b bs scope)
  let ?h = "history \<union> answers_given t ask ctx (b # bs)"
  show ?case
  proof (cases "UUID_RE b")
    case False
    then show ?thesis using 2(2,3) backed_by_mono by auto
  next
    case uuid: True
    obtain known scope1 where k: "rememberedVerdict t ctx b scope = (known, scope1)" by fastforce
    define answer where "answer = (case known of Some v \<Rightarrow> Inr v | None \<Rightarrow> ask b)"
    define scope2 where "scope2 = (if known = None then rememberVerdict t ctx b answer scope1 else scope1)"
    have b1: "backed_by ?h scope1"
      using rememberedVerdict_backed [OF 2(2) k] backed_by_mono by blast
    have given: "(verdictKey ctx b, v, t) \<in> ?h" if "known = None" "answer = Inr v" for v
      using that by (auto simp: answer_def answers_given_def)
    have b2: "backed_by ?h scope2"
      unfolding scope2_def using b1 rememberVerdict_backed [OF b1] given by auto
    have fresh: "fresh_answer ?h t ctx b v" if "answer = Inr v" for v
    proof (cases known)
      case None
      with given that show ?thesis
        unfolding fresh_answer_def by (intro exI [of _ t]) (simp add: VERDICT_MAX_AGE_MS_def)
    next
      case (Some w)
      with that have "w = v" by (simp add: answer_def)
      with Some k rememberedVerdict_fresh [OF 2(2), of t ctx b v scope1] show ?thesis
        by (auto simp: fresh_answer_def)
    qed
    have step: "firstInvisibleBranch t ask ctx (b # bs) scope =
        (case answer of Inl e \<Rightarrow> (Inl e, scope2) | Inr False \<Rightarrow> (Inr (Some b), scope2)
         | Inr True \<Rightarrow> firstInvisibleBranch t ask ctx bs scope2)"
      using uuid k by (cases known) (simp_all add: answer_def scope2_def Let_def split: sum.split bool.split)
    show ?thesis
    proof (cases answer)
      case (Inl e)
      then show ?thesis using 2(3) step by simp
    next
      case (Inr v)
      show ?thesis
      proof (cases v)
        case False
        then show ?thesis using Inr 2(3) step b2 fresh [OF Inr] by auto
      next
        case True
        then have vT: "v = True" by simp
        then have rec: "firstInvisibleBranch t ask ctx bs scope2 = (Inr r, scope')"
          using Inr 2(3) step by simp
        have "?h \<union> answers_given t ask ctx bs = ?h" by (auto simp: answers_given_def)
        with 2(1) [OF _ refl k [symmetric] answer_def scope2_def Inr vT b2 rec]
        show ?thesis using uuid True fresh [OF Inr] by simp
      qed
    qed
  qed
qed (auto intro: backed_by_mono)

definition editor :: ExecutionContext where
  "editor = \<lparr>actorId = ''u1'', actorKind = ''human'', pluginId = None,
     chatBranchId = Some ''0e9a4b12-0000-4000-8000-000000000001'', chatTaskId = None,
     requestId = ''r1''\<rparr>"

definition editor_branch :: string where
  "editor_branch = ''0e9a4b12-0000-4000-8000-000000000001''"

definition one_verdict :: VisibilityScope where
  "one_verdict = Some [(verdictKey editor editor_branch, \<lparr>v_visible = True, v_at = 1000\<rparr>)]"

lemma gate_rests_on_fresh_answers_witness:
  "fresh_answer ({(verdictKey editor editor_branch, True, 1000)}
       \<union> answers_given 31000 (\<lambda>_. Inr False) editor [editor_branch]) 31000 editor editor_branch True"
proof -
  have "firstInvisibleBranch 31000 (\<lambda>_. Inr False) editor [editor_branch] one_verdict = (Inr None, one_verdict)"
    by code_simp
  moreover have "backed_by {(verdictKey editor editor_branch, True, 1000)} one_verdict"
    by (auto simp: backed_by_def one_verdict_def js_map_ok_def js_get_def)
  ultimately show ?thesis using gate_rests_on_fresh_answers by fastforce
qed

section \<open>The first hidden branch\<close>

text \<open>What a request knows of a branch without asking: a verdict of this caller that is at
  most thirty seconds old.  A branch is hidden when its id is malformed, or it is known to be
  invisible, or it is not known and the database says so.\<close>

definition fresh_verdict :: "int \<Rightarrow> ExecutionContext \<Rightarrow> VisibilityScope \<Rightarrow> string \<Rightarrow> bool option" where
  "fresh_verdict t ctx scope b =
     (case scope of
        None \<Rightarrow> None
      | Some m \<Rightarrow>
          (case js_get m (verdictKey ctx b) of
             None \<Rightarrow> None
           | Some e \<Rightarrow> if t \<le> v_at e + 30000 then Some (v_visible e) else None))"

definition hidden_by :: "(string \<Rightarrow> bool) \<Rightarrow> (string \<Rightarrow> bool option) \<Rightarrow> string \<Rightarrow> bool" where
  "hidden_by invisible known b =
     (UUID_RE b \<longrightarrow> (case known b of Some v \<Rightarrow> \<not> v | None \<Rightarrow> invisible b))"

lemma verdictKey_eq: "verdictKey ctx b = verdictKey ctx c \<longleftrightarrow> b = c"
  by (simp add: verdictKey_def)

lemma rememberedVerdict_fresh_verdict:
  assumes "rememberedVerdict t ctx b scope = (known, scope')"
  shows "known = fresh_verdict t ctx scope b \<and> fresh_verdict t ctx scope' = fresh_verdict t ctx scope
    \<and> (scope' = None \<longleftrightarrow> scope = None)"
  using assms
  by (auto simp: rememberedVerdict_def fresh_verdict_def VERDICT_MAX_AGE_MS_def verdictKey_eq js_map_simps fun_eq_iff
      split: option.splits if_splits)

lemma rememberVerdict_fresh_verdict:
  "fresh_verdict t ctx (rememberVerdict t ctx b (Inr v) scope)
    = (if scope = None then fresh_verdict t ctx scope else (fresh_verdict t ctx scope)(b := Some v))"
  by (auto simp: rememberVerdict_def fresh_verdict_def verdictKey_eq js_map_simps fun_eq_iff split: option.splits)

text \<open>Asking every branch that is not known finds the first hidden one, and what is hidden
  stays so with the verdicts the asking leaves behind.\<close>

lemma firstInvisibleBranch_finds:
  assumes "\<forall>b \<in> set bs. UUID_RE b \<longrightarrow> fresh_verdict t ctx scope b = None \<longrightarrow> ask b = Inr (\<not> invisible b)"
  shows "\<exists>scope'. firstInvisibleBranch t ask ctx bs scope
      = (Inr (find (hidden_by invisible (fresh_verdict t ctx scope)) bs), scope')
    \<and> hidden_by invisible (fresh_verdict t ctx scope') = hidden_by invisible (fresh_verdict t ctx scope)"
  using assms
proof (induction bs arbitrary: scope)
  case (Cons b bs)
  let ?fresh = "fresh_verdict t ctx scope"
  show ?case
  proof (cases "UUID_RE b")
    case False
    then show ?thesis by (simp add: hidden_by_def)
  next
    case True
    obtain known scope1 where k: "rememberedVerdict t ctx b scope = (known, scope1)" by fastforce
    note fresh = rememberedVerdict_fresh_verdict [OF k]
    define v where "v = (case ?fresh b of Some v \<Rightarrow> v | None \<Rightarrow> \<not> invisible b)"
    define scope2 where "scope2 = (if known = None then rememberVerdict t ctx b (Inr v) scope1 else scope1)"
    have answer: "(case known of Some v \<Rightarrow> Inr v | None \<Rightarrow> ask b) = Inr v"
      using fresh True Cons.prems by (auto simp: v_def split: option.splits)
    have fresh2: "fresh_verdict t ctx scope2 = ?fresh \<or> fresh_verdict t ctx scope2 = ?fresh(b := Some v)"
      using fresh by (simp add: scope2_def rememberVerdict_fresh_verdict)
    have hidden: "hidden_by invisible ?fresh b \<longleftrightarrow> \<not> v" 
      using True by (simp add: hidden_by_def v_def split: option.splits)
    have same: "hidden_by invisible (fresh_verdict t ctx scope2) = hidden_by invisible ?fresh"
      using fresh2 True by (fastforce simp: hidden_by_def v_def fun_eq_iff split: option.splits)
    have step: "firstInvisibleBranch t ask ctx (b # bs) scope
        = (if v then firstInvisibleBranch t ask ctx bs scope2 else (Inr (Some b), scope2))"
      using True k answer by (cases v) (auto simp: scope2_def Let_def)
    have known: "?fresh c = None" if "fresh_verdict t ctx scope2 c = None" for c
      using fresh2 that by (auto split: if_splits)
    have "\<forall>c \<in> set bs. UUID_RE c \<longrightarrow> fresh_verdict t ctx scope2 c = None \<longrightarrow> ask c = Inr (\<not> invisible c)"
      using Cons.prems known by auto
    from Cons.IH [OF this] show ?thesis using step hidden same by (cases v) auto
  qed
qed simp

lemma collect_verdicts_parts:
  assumes "collect_verdicts t ctx bs scope = (r, scope')"
  shows "fresh_verdict t ctx scope' = fresh_verdict t ctx scope
    \<and> (case r of
         Inl None \<Rightarrow> True
       | Inl (Some x) \<Rightarrow> x \<noteq> None \<and> x = firstMalformedBranch bs
           \<and> (\<forall>c \<in> set (takeWhile UUID_RE bs). fresh_verdict t ctx scope c \<noteq> None)
       | Inr vs \<Rightarrow> map fst vs = bs
           \<and> (\<forall>(c, v) \<in> set vs. UUID_RE c \<and> fresh_verdict t ctx scope c = Some v))"
  using assms
proof (induction bs arbitrary: scope r scope')
  case (Cons b bs)
  show ?case
  proof (cases "UUID_RE b")
    case False
    then show ?thesis using Cons.prems by (auto simp: firstMalformedBranch_def)
  next
    case True
    obtain known scope1 where k: "rememberedVerdict t ctx b scope = (known, scope1)" by fastforce
    note fresh = rememberedVerdict_fresh_verdict [OF k]
    show ?thesis
    proof (cases known)
      case None
      then show ?thesis using Cons.prems True k fresh by auto
    next
      case (Some v)
      obtain r2 scope2 where rest: "collect_verdicts t ctx bs scope1 = (r2, scope2)" by fastforce
      note IH = Cons.IH [OF rest]
      have b: "fresh_verdict t ctx scope b = Some v" using fresh Some by simp
      show ?thesis
      proof (cases r2)
        case (Inl x)
        then have "r = Inl x" "scope' = scope2" using Cons.prems True k Some rest by auto
        then show ?thesis using IH fresh b True Inl
          by (cases x) (simp_all add: firstMalformedBranch_def)
      next
        case (Inr vs)
        then have "r = Inr ((b, v) # vs)" "scope' = scope2" using Cons.prems True k Some rest by auto
        then show ?thesis using IH Inr fresh Some True by auto
      qed
    qed
  qed
qed simp

text \<open>The memory alone answers the first hidden branch, except that a malformed id comes before
  a branch known to be invisible.\<close>

lemma rememberedFirstInvisible_finds:
  assumes "rememberedFirstInvisible t ctx bs scope = (r, scope')"
  shows "fresh_verdict t ctx scope' = fresh_verdict t ctx scope
    \<and> (\<forall>x. r = Some x \<longrightarrow> x = find (hidden_by invisible (fresh_verdict t ctx scope)) bs
        \<or> (\<exists>h. find (hidden_by invisible (fresh_verdict t ctx scope)) bs = Some h
             \<and> fresh_verdict t ctx scope h = Some False \<and> x \<noteq> None \<and> x = firstMalformedBranch bs))"
proof -
  let ?hidden = "hidden_by invisible (fresh_verdict t ctx scope)"
  obtain r1 where c: "collect_verdicts t ctx bs scope = (r1, scope')"
      "r = (case r1 of Inl x \<Rightarrow> x | Inr vs \<Rightarrow> Some (map_option fst (find (\<lambda>(b, v). \<not> v) vs)))"
    using assms by (cases "collect_verdicts t ctx bs scope") (auto simp: rememberedFirstInvisible_def split: sum.splits)
  note parts = collect_verdicts_parts [OF c(1)]
  have "x = find ?hidden bs \<or> (\<exists>h. find ?hidden bs = Some h \<and> fresh_verdict t ctx scope h = Some False
      \<and> x \<noteq> None \<and> x = firstMalformedBranch bs)" if x: "r = Some x" for x
  proof (cases r1)
    case (Inl y)
    then have at: "x \<noteq> None" "x = firstMalformedBranch bs"
        "\<forall>c \<in> set (takeWhile UUID_RE bs). fresh_verdict t ctx scope c \<noteq> None"
      using parts c(2) x Inl by (simp_all split: option.splits)
    then have "x = find ?hidden bs
        \<or> (\<exists>h. find ?hidden bs = Some h \<and> fresh_verdict t ctx scope h = Some False)"
    proof (induction bs)
      case (Cons c bs)
      then show ?case
        by (cases "UUID_RE c"; cases "fresh_verdict t ctx scope c") (auto simp: hidden_by_def firstMalformedBranch_def)
    qed (simp add: firstMalformedBranch_def)
    then show ?thesis using at(1,2) by blast
  next
    case (Inr vs)
    then have vs: "map fst vs = bs" "\<forall>(c, v) \<in> set vs. UUID_RE c \<and> fresh_verdict t ctx scope c = Some v"
      using parts by auto
    have "map_option fst (find (\<lambda>(b, v). \<not> v) vs) = find ?hidden (map fst vs)"
      using vs(2) by (induction vs) (auto simp: hidden_by_def)
    then show ?thesis using vs(1) Inr c(2) x by auto
  qed
  then show ?thesis using parts by blast
qed

end
