(* ===== verification/Pool_Guard.thy ===== *)
theory Pool_Guard
  imports Query_Errors "HOL-Library.Multiset"
begin

text \<open>
  The pool guard (packages/query-api/src/pool-guard.ts) and the checkout it plans
  (adapter.ts, the private transaction and join methods): what one call chain does with the
  connections of the two pools.  A chain is a tree of calls: opening a transaction around
  further calls, joining the held one, raw access, deferring work until the held transaction
  ended, and catching errors.  The marker of the chain is lexical, as the AsyncLocalStorage
  makes it; joined calls run one at a time, so they are a sequence.
\<close>

section \<open>Markers and plans\<close>

text \<open>A marker: the holder, whether its transaction is still open, and for a joined marker
  the holder of the real transaction its savepoint belongs to.\<close>

record HeldTransaction =
  ht_holder :: string
  ht_active :: bool
  ht_root :: "string option"

record chain =
  chain_held :: "PoolName \<Rightarrow> HeldTransaction option"
  chain_joining :: bool

definition no_chain :: chain where
  "no_chain = \<lparr>chain_held = (\<lambda>_. None), chain_joining = False\<rparr>"

datatype TransactionPlan = Own HeldTransaction | Join HeldTransaction HeldTransaction

definition held :: "chain \<Rightarrow> PoolName \<Rightarrow> HeldTransaction option" where
  "held c pool =
     (case chain_held c pool of
        Some outer \<Rightarrow> if ht_active outer then Some outer else None
      | None \<Rightarrow> None)"

definition assertMayCheckout :: "chain \<Rightarrow> PoolName \<Rightarrow> string \<Rightarrow> thrown option" where
  "assertMayCheckout c pool requester =
     (case held c pool of
        None \<Rightarrow> None
      | Some outer \<Rightarrow>
          if chain_joining c then None
          else Some (NestedPoolCheckoutError pool (ht_holder outer) requester))"

definition assertNoHeldTransaction :: "chain \<Rightarrow> PoolName \<Rightarrow> string \<Rightarrow> thrown option" where
  "assertNoHeldTransaction c pool requester =
     map_option (\<lambda>outer. NestedPoolCheckoutError pool (ht_holder outer) requester) (held c pool)"

definition newMarker :: "string \<Rightarrow> string option \<Rightarrow> HeldTransaction" where
  "newMarker holder root = \<lparr>ht_holder = holder, ht_active = True, ht_root = root\<rparr>"

definition root_of :: "HeldTransaction \<Rightarrow> string" where
  "root_of outer = (case ht_root outer of Some root \<Rightarrow> root | None \<Rightarrow> ht_holder outer)"

definition plan :: "chain \<Rightarrow> PoolName \<Rightarrow> string \<Rightarrow> (thrown, TransactionPlan) result" where
  "plan c pool holder =
     (case held c pool of
        None \<Rightarrow> Inr (Own (newMarker holder None))
      | Some outer \<Rightarrow>
          (case assertMayCheckout c pool holder of
             Some e \<Rightarrow> Inl e
           | None \<Rightarrow> Inr (Join outer (newMarker holder (Some (root_of outer))))))"

definition with_marker :: "chain \<Rightarrow> PoolName \<Rightarrow> HeldTransaction \<Rightarrow> chain" where
  "with_marker c pool m = c\<lparr>chain_held := (chain_held c)(pool := Some m)\<rparr>"

definition joinHeldTransaction :: "chain \<Rightarrow> chain" where
  "joinHeldTransaction c = c\<lparr>chain_joining := True\<rparr>"

section \<open>Long transactions\<close>

record LongTransactionEntry =
  lt_holder :: string
  lt_reason :: string
  lt_issue :: "nat option"

definition LONG_TRANSACTIONS :: "LongTransactionEntry list" where
  "LONG_TRANSACTIONS =
     [\<lparr>lt_holder = ''static-generator.build'',
       lt_reason = ''a static site build runs in one transaction for as long as the build takes, idle while plugins render and files are written.'',
       lt_issue = None\<rparr>]"

definition exemptFromSessionTimeouts :: "string \<Rightarrow> bool" where
  "exemptFromSessionTimeouts holder = (holder \<in> set (map lt_holder LONG_TRANSACTIONS))"

section \<open>Calls of a chain\<close>

datatype call =
    Transaction PoolName string "call list"
  | Joining "call list"
  | Raw_access PoolName string
  | Defer_until_end PoolName string
  | Catch "call list"
  | Fail string

text \<open>The connections in use by the chain, the most it ever used at once, the deferred work
  registered (with the list of the held root), and the work that ran, each with the
  connections of its pool in use then.\<close>

record pool_state =
  in_use :: "PoolName \<Rightarrow> nat"
  peak :: "PoolName \<Rightarrow> nat"
  after_end :: "PoolName \<Rightarrow> string list"
  registered :: "string list"
  ran :: "(string \<times> nat) list"

definition fresh_pools :: pool_state where
  "fresh_pools = \<lparr>in_use = (\<lambda>_. 0), peak = (\<lambda>_. 0), after_end = (\<lambda>_. []), registered = [], ran = []\<rparr>"

definition reserve_connection :: "PoolName \<Rightarrow> pool_state \<Rightarrow> pool_state" where
  "reserve_connection pool st =
     (let n = in_use st pool + 1
      in st\<lparr>in_use := (in_use st)(pool := n), peak := (peak st)(pool := max (peak st pool) n)\<rparr>)"

definition release_connection :: "PoolName \<Rightarrow> pool_state \<Rightarrow> pool_state" where
  "release_connection pool st = st\<lparr>in_use := (in_use st)(pool := in_use st pool - 1)\<rparr>"

text \<open>The work of a root marker runs after its connection is released, in order.\<close>

definition runAfterEnd :: "PoolName \<Rightarrow> pool_state \<Rightarrow> pool_state" where
  "runAfterEnd pool st =
     st\<lparr>ran := ran st @ map (\<lambda>w. (w, in_use st pool)) (after_end st pool),
        after_end := (after_end st)(pool := [])\<rparr>"

definition deferUntilEnd :: "chain \<Rightarrow> PoolName \<Rightarrow> string \<Rightarrow> pool_state \<Rightarrow> pool_state" where
  "deferUntilEnd c pool work st =
     (let st1 = st\<lparr>registered := registered st @ [work]\<rparr> in
      case held c pool of
        None \<Rightarrow> st1\<lparr>ran := ran st1 @ [(work, in_use st1 pool)]\<rparr>
      | Some _ \<Rightarrow> st1\<lparr>after_end := (after_end st1)(pool := after_end st1 pool @ [work])\<rparr>)"

text \<open>Running a chain: the reserve argument says whether a checkout of the pool by the
  holder gets a connection before the deadline (the given number of milliseconds).\<close>

fun run_call :: "(PoolName \<Rightarrow> string \<Rightarrow> bool) \<Rightarrow> nat \<Rightarrow> chain \<Rightarrow> call \<Rightarrow> pool_state
      \<Rightarrow> thrown option \<times> pool_state"
  and run_calls :: "(PoolName \<Rightarrow> string \<Rightarrow> bool) \<Rightarrow> nat \<Rightarrow> chain \<Rightarrow> call list \<Rightarrow> pool_state
      \<Rightarrow> thrown option \<times> pool_state" where
  "run_call reserve deadline c (Transaction pool holder body) st =
     (case plan c pool holder of
        Inl e \<Rightarrow> (Some e, st)
      | Inr (Join outer marker) \<Rightarrow> run_calls reserve deadline (with_marker c pool marker) body st
      | Inr (Own marker) \<Rightarrow>
          if \<not> reserve pool holder
          then (Some (PoolAcquireTimeoutError pool holder deadline), st)
          else (case run_calls reserve deadline (with_marker c pool marker) body
                       (reserve_connection pool st) of
                  (e, st1) \<Rightarrow> (e, runAfterEnd pool (release_connection pool st1))))"
| "run_call reserve deadline c (Joining body) st =
     run_calls reserve deadline (joinHeldTransaction c) body st"
| "run_call reserve deadline c (Raw_access pool what) st =
     (case assertNoHeldTransaction c pool what of
        Some e \<Rightarrow> (Some e, st)
      | None \<Rightarrow> (None, release_connection pool (reserve_connection pool st)))"
| "run_call reserve deadline c (Defer_until_end pool work) st = (None, deferUntilEnd c pool work st)"
| "run_call reserve deadline c (Catch body) st =
     (case run_calls reserve deadline c body st of (e, st1) \<Rightarrow> (None, st1))"
| "run_call reserve deadline c (Fail message) st = (Some (plain_error message), st)"
| "run_calls reserve deadline c [] st = (None, st)"
| "run_calls reserve deadline c (x # xs) st =
     (case run_call reserve deadline c x st of
        (Some e, st1) \<Rightarrow> (Some e, st1)
      | (None, st1) \<Rightarrow> run_calls reserve deadline c xs st1)"

section \<open>What a chain holds\<close>

text \<open>The accounting of a chain: one connection exactly on the pools it holds, never more
  than one, and every deferred work either ran on a free pool or waits for a held root.\<close>

definition one_connection :: "chain \<Rightarrow> PoolName \<Rightarrow> pool_state \<Rightarrow> bool" where
  "one_connection c p st =
     (in_use st p = (if held c p = None then 0 else 1) \<and> peak st p \<le> 1
      \<and> (held c p = None \<longrightarrow> after_end st p = []))"

definition work_accounted :: "pool_state \<Rightarrow> bool" where
  "work_accounted st =
     (mset (registered st) =
        mset (map fst (ran st)) + mset (after_end st Admin_pool) + mset (after_end st Public_pool)
      \<and> list_all (\<lambda>r. snd r = 0) (ran st))"

definition accounted :: "chain \<Rightarrow> pool_state \<Rightarrow> bool" where
  "accounted c st = ((\<forall>p. one_connection c p st) \<and> work_accounted st)"

lemma held_with_marker:
  "ht_active m \<Longrightarrow> held (with_marker c pool m) p = (if p = pool then Some m else held c p)"
  by (simp add: held_def with_marker_def)

lemma held_joinHeldTransaction: "held (joinHeldTransaction c) p = held c p"
  by (simp add: held_def joinHeldTransaction_def)

lemma accounted_cong:
  assumes "\<And>p. (held c p = None) = (held d p = None)"
  shows "accounted c st = accounted d st"
  unfolding accounted_def one_connection_def using assms by auto

lemma plan_cases:
  "plan c pool holder = Inr (Own m) \<Longrightarrow> held c pool = None \<and> ht_active m"
  "plan c pool holder = Inr (Join outer m) \<Longrightarrow> held c pool = Some outer \<and> ht_active m"
  by (auto simp: plan_def newMarker_def assertMayCheckout_def split: option.splits if_splits)

lemma accounted_join:
  assumes "plan c pool holder = Inr (Join outer m)"
  shows "accounted (with_marker c pool m) st = accounted c st"
  using plan_cases(2) [OF assms] by (intro accounted_cong) (simp add: held_with_marker)

lemma accounted_begin:
  assumes "plan c pool holder = Inr (Own m)" "accounted c st"
  shows "accounted (with_marker c pool m) (reserve_connection pool st)"
  using plan_cases(1) [OF assms(1)] assms(2)
  by (auto simp: accounted_def one_connection_def work_accounted_def held_with_marker
      reserve_connection_def Let_def)

lemma work_accounted_end:
  assumes "work_accounted st" "in_use st pool = 0"
  shows "work_accounted (runAfterEnd pool st)"
  using assms by (cases pool) (auto simp: work_accounted_def runAfterEnd_def list_all_iff o_def)

lemma accounted_end:
  assumes "plan c pool holder = Inr (Own m)" "accounted (with_marker c pool m) st"
  shows "accounted c (runAfterEnd pool (release_connection pool st))"
proof -
  note h = plan_cases(1) [OF assms(1)]
  have one: "one_connection (with_marker c pool m) p st" for p
    using assms(2) by (simp add: accounted_def)
  have "one_connection c p (runAfterEnd pool (release_connection pool st))" for p
    using one [of p] h
    by (auto simp: one_connection_def held_with_marker runAfterEnd_def release_connection_def)
  moreover have "work_accounted (release_connection pool st)"
    using assms(2) by (simp add: accounted_def work_accounted_def release_connection_def)
  then have "work_accounted (runAfterEnd pool (release_connection pool st))"
    using one [of pool] h
    by (intro work_accounted_end) (auto simp: one_connection_def held_with_marker release_connection_def)
  ultimately show ?thesis by (simp add: accounted_def)
qed

lemma accounted_raw:
  assumes "accounted c st" "assertNoHeldTransaction c pool what = None"
  shows "accounted c (release_connection pool (reserve_connection pool st))"
  using assms
  by (auto simp: accounted_def one_connection_def work_accounted_def assertNoHeldTransaction_def
      release_connection_def reserve_connection_def Let_def)

lemma accounted_defer:
  assumes "accounted c st"
  shows "accounted c (deferUntilEnd c pool work st)"
proof -
  have "one_connection c p (deferUntilEnd c pool work st)" for p
    using assms by (auto simp: accounted_def one_connection_def deferUntilEnd_def Let_def split: option.splits)
  moreover have "in_use st pool = 0" if "held c pool = None"
    using assms that by (simp add: accounted_def one_connection_def)
  then have "work_accounted (deferUntilEnd c pool work st)"
    using assms
    by (cases pool) (auto simp: accounted_def work_accounted_def deferUntilEnd_def Let_def list_all_iff
        split: option.splits)
  ultimately show ?thesis by (simp add: accounted_def)
qed

lemma run_call_accounted:
  shows "accounted c st \<Longrightarrow> accounted c (snd (run_call reserve deadline c x st))"
    and "accounted c st \<Longrightarrow> accounted c (snd (run_calls reserve deadline c xs st))"
proof (induction reserve deadline c x st and reserve deadline c xs st rule: run_call_run_calls.induct)
  case (1 reserve deadline c pool holder body st)
  show ?case
  proof (cases "plan c pool holder")
    case (Inr a)
    show ?thesis
    proof (cases a)
      case (Own m)
      then have p: "plan c pool holder = Inr (Own m)" using Inr by simp
      show ?thesis
      proof (cases "reserve pool holder")
        case True
        have "accounted (with_marker c pool m)
            (snd (run_calls reserve deadline (with_marker c pool m) body (reserve_connection pool st)))"
          using 1(1) [OF Inr Own] True accounted_begin [OF p "1.prems"] by simp
        from accounted_end [OF p this] show ?thesis using p True by (simp add: case_prod_beta)
      qed (use p "1.prems" in simp)
    next
      case (Join outer m)
      then have p: "plan c pool holder = Inr (Join outer m)" using Inr by simp
      show ?thesis
        using 1(2) [OF Inr Join] "1.prems" p by (simp add: accounted_join [OF p])
    qed
  qed (use "1.prems" in simp)
next
  case (2 reserve deadline c body st)
  have "accounted (joinHeldTransaction c) = accounted c"
    by (intro ext accounted_cong) (simp add: held_joinHeldTransaction)
  with 2 show ?case by simp
next
  case (8 reserve deadline c x xs st)
  then show ?case by (cases "run_call reserve deadline c x st"; cases "fst (run_call reserve deadline c x st)") auto
qed (auto simp: accounted_raw accounted_defer case_prod_beta split: option.splits)

section \<open>Properties\<close>

text \<open>C24. A call chain never holds two connections of a pool: whatever transactions, joined
  calls, raw accesses and caught errors it is made of, started where no open transaction is
  held, it uses at most one connection of each pool at a time, gives every one back, and
  runs each work it deferred exactly once, when its pool has none of its connections in use.\<close>

theorem one_connection_per_pool:
  assumes "\<forall>p. held c p = None"
  shows "let st = snd (run_calls reserve deadline c body fresh_pools) in
    (\<forall>p. in_use st p = 0 \<and> peak st p \<le> 1)
    \<and> mset (map fst (ran st)) = mset (registered st)
    \<and> (\<forall>work n. (work, n) \<in> set (ran st) \<longrightarrow> n = 0)"
proof -
  have "accounted c fresh_pools"
    using assms by (simp add: accounted_def one_connection_def work_accounted_def fresh_pools_def)
  from run_call_accounted(2) [OF this, of reserve deadline body] show ?thesis
    using assms
    by (auto simp: Let_def accounted_def one_connection_def work_accounted_def list_all_iff)
qed

definition render_page :: "call list" where
  "render_page =
     [Transaction Admin_pool ''pages.compose''
        [Defer_until_end Admin_pool ''plugin failure'',
         Joining [Transaction Admin_pool ''plugins.read'' [Defer_until_end Admin_pool ''second''],
                  Transaction Public_pool ''plugins.public_read'' []],
         Catch [Transaction Admin_pool ''audit.write'' []],
         Raw_access Public_pool ''probe'']]"

lemma one_connection_per_pool_witness:
  "let st = snd (run_calls (\<lambda>_ _. True) 10000 no_chain render_page fresh_pools) in
     in_use st Admin_pool = 0 \<and> peak st Admin_pool = 1
     \<and> ran st = [(''plugin failure'', 0), (''second'', 0)]
     \<and> mset (map fst (ran st)) = mset (registered st)"
proof -
  have free: "\<forall>p. held no_chain p = None" by (simp add: held_def no_chain_def)
  have "let st = snd (run_calls (\<lambda>_ _. True) 10000 no_chain render_page fresh_pools) in
     in_use st Admin_pool = 0 \<and> peak st Admin_pool = 1
     \<and> ran st = [(''plugin failure'', 0), (''second'', 0)]"
    by (simp add: render_page_def fresh_pools_def no_chain_def plan_def held_def newMarker_def
        with_marker_def assertMayCheckout_def assertNoHeldTransaction_def joinHeldTransaction_def
        deferUntilEnd_def reserve_connection_def release_connection_def runAfterEnd_def Let_def)
  then show ?thesis
    using one_connection_per_pool [OF free, of "\<lambda>_ _. True" 10000 render_page] by (simp add: Let_def)
qed

end
