(* ===== verification/Post_Commit.thy ===== *)
theory Post_Commit
  imports Query_Errors
begin

text \<open>
  Post-commit effects (packages/query-api/src/post-commit.ts): the effects a transaction
  collects, their move from a released savepoint to the transaction it joined, their run
  after the commit, and the listeners and notices of committed operations.  A transaction
  that collects effects has a list (the entry of pendingByTx), one that does not has None.
\<close>

section \<open>Effects\<close>

text \<open>The run of an effect is what it throws, if it throws.\<close>

record PostCommitEffect =
  pe_label :: string
  pe_entityId :: "string option"
  pe_throws :: "string option"

record PostCommitFailure =
  pf_effect :: PostCommitEffect
  pf_message :: string

type_synonym pending_effects = "PostCommitEffect list option"

definition afterCommit :: "PostCommitEffect \<Rightarrow> pending_effects \<Rightarrow> (thrown, pending_effects) result" where
  "afterCommit effect pending =
     (case pending of
        None \<Rightarrow> Inl (plain_error (''afterCommit('' @ pe_label effect
          @ ''): this transaction was not opened by the Database Adapter''))
      | Some es \<Rightarrow> Inr (Some (es @ [effect])))"

definition collectPostCommitEffects :: pending_effects where
  "collectPostCommitEffects = Some []"

definition mergeSavepointEffects ::
  "PostCommitEffect list \<Rightarrow> pending_effects \<Rightarrow> (thrown, pending_effects) result" where
  "mergeSavepointEffects effects parent =
     (case effects of
        [] \<Rightarrow> Inr parent
      | e # _ \<Rightarrow>
          (case parent of
             None \<Rightarrow> Inl (plain_error (''afterCommit('' @ pe_label e
               @ ''): the transaction this call joined collects no post-commit effects''))
           | Some pending \<Rightarrow> Inr (Some (pending @ effects))))"

text \<open>Every effect runs, in order; the result is the effects that ran with the failures
  collected on the way.\<close>

fun run_effects ::
  "PostCommitEffect list \<Rightarrow> PostCommitEffect list \<times> PostCommitFailure list
    \<Rightarrow> PostCommitEffect list \<times> PostCommitFailure list" where
  "run_effects [] acc = acc"
| "run_effects (effect # effects) (done_so_far, failures) =
     run_effects effects
       (done_so_far @ [effect],
        (case pe_throws effect of
           None \<Rightarrow> failures
         | Some message \<Rightarrow> failures @ [\<lparr>pf_effect = effect, pf_message = message\<rparr>]))"

definition runPostCommitEffects ::
  "PostCommitEffect list \<Rightarrow> PostCommitEffect list \<times> PostCommitFailure list" where
  "runPostCommitEffects effects = run_effects effects ([], [])"

section \<open>Listeners and notices\<close>

text \<open>A listener is its name and the operations it throws on; the set of listeners keeps
  the order of registration.\<close>

record listener =
  l_name :: string
  l_throws_on :: "string list"

definition observeCommittedOperations :: "listener \<Rightarrow> listener list \<Rightarrow> listener list" where
  "observeCommittedOperations l ls = (if l \<in> set ls then ls else ls @ [l])"

definition stop_observing :: "listener \<Rightarrow> listener list \<Rightarrow> listener list" where
  "stop_observing l ls = removeAll l ls"

text \<open>Who heard the name, and which listeners' throws were logged.\<close>

fun notifyOperationCommitted ::
  "string \<Rightarrow> listener list \<Rightarrow> (string \<times> string) list \<times> string list" where
  "notifyOperationCommitted operation [] = ([], [])"
| "notifyOperationCommitted operation (l # ls) =
     (case notifyOperationCommitted operation ls of
        (heard, logged) \<Rightarrow>
          ((l_name l, operation) # heard,
           if operation \<in> set (l_throws_on l) then operation # logged else logged))"

record CommitNotice =
  cn_channel :: string
  cn_payload :: string

type_synonym CommitNoticeSource = "string \<Rightarrow> CommitNotice option"

definition commitNoticeOf :: "CommitNoticeSource option \<Rightarrow> string \<Rightarrow> CommitNotice option" where
  "commitNoticeOf source operation =
     (case source of None \<Rightarrow> None | Some notice \<Rightarrow> notice operation)"

section \<open>Lemmas\<close>

definition failure_of :: "PostCommitEffect \<Rightarrow> PostCommitFailure option" where
  "failure_of effect =
     map_option (\<lambda>m. \<lparr>pf_effect = effect, pf_message = m\<rparr>) (pe_throws effect)"

lemma run_effects_acc:
  "run_effects es (d, fs) = (d @ es, fs @ List.map_filter failure_of es)"
  by (induction es arbitrary: d fs) (auto simp: failure_of_def List.map_filter_simps split: option.splits)

text \<open>All effects ran, once each, in order; the failures are those that threw.\<close>

lemma runPostCommitEffects_eq [simp]:
  "runPostCommitEffects es = (es, List.map_filter failure_of es)"
  by (simp add: runPostCommitEffects_def run_effects_acc)

lemma no_failures_iff: "(List.map_filter failure_of es = []) = (\<forall>e \<in> set es. pe_throws e = None)"
  by (induction es) (auto simp: failure_of_def List.map_filter_simps split: option.splits)

lemma mergeSavepointEffects_Some [simp]:
  "mergeSavepointEffects es (Some p) = Inr (Some (p @ es))"
  by (cases es) (simp_all add: mergeSavepointEffects_def)

lemma notifyOperationCommitted_heard:
  "fst (notifyOperationCommitted operation ls) = map (\<lambda>l. (l_name l, operation)) ls"
  by (induction ls) (simp_all add: case_prod_beta)

end
