(* ===== verification/Transactions.thy ===== *)
theory Transactions
  imports Branch_Access Pool_Guard Post_Commit
begin

text \<open>
  Transactions of the Database Adapter (packages/query-api/src/adapter.ts): the session
  identity, a transaction on its own connection, a call joined to it as a savepoint, and
  what follows a commit (effects, audit of a failed effect, publishing).  The databases are
  values of a type variable, one per pool; what the code leaves to Postgres, to the pool
  and to the publisher is the record of the adapter's environment.
\<close>

section \<open>Session identity\<close>

definition MAX_APPLICATION_NAME :: nat where
  "MAX_APPLICATION_NAME = 63"

definition printable :: "char \<Rightarrow> char" where
  "printable c = (if 32 \<le> (of_char c :: nat) \<and> (of_char c :: nat) \<le> 126 then c else CHR ''?'')"

definition transactionTag :: "string \<Rightarrow> string" where
  "transactionTag holder = take MAX_APPLICATION_NAME (''caelo/'' @ map printable holder)"

record session =
  s_actor_id :: string
  s_actor_kind :: string
  s_plugin_id :: string
  s_chat_branch_id :: string
  s_chat_task_id :: string
  s_op_name :: string
  s_application_name :: string

definition no_session :: session where
  "no_session = \<lparr>s_actor_id = [], s_actor_kind = [], s_plugin_id = [], s_chat_branch_id = [],
     s_chat_task_id = [], s_op_name = [], s_application_name = []\<rparr>"

definition or_empty :: "string option \<Rightarrow> string" where
  "or_empty s = (case s of None \<Rightarrow> [] | Some x \<Rightarrow> x)"

section \<open>Transactions and the world\<close>

text \<open>A transaction: the database it sees, its session settings, the identity its marker
  remembers, its holder, the effects it collects, the notifications it sends on commit,
  whether published state was marked dirty, whether a failed statement aborted it, whether
  the role timeouts are lifted, and the request's memory of branch verdicts (which is not
  part of the database and survives a rollback).\<close>

record 'db txn =
  tx_db :: 'db
  tx_session :: session
  tx_identity :: "(ExecutionContext \<times> string option) option"
  tx_holder :: string
  tx_pending :: pending_effects
  tx_notices :: "CommitNotice list"
  tx_dirty :: bool
  tx_aborted :: bool
  tx_unlimited :: bool
  tx_scope :: VisibilityScope

record 'db world =
  databases :: "PoolName \<Rightarrow> 'db"
  delivered :: "CommitNotice list"
  effects_run :: "PostCommitEffect list"
  listening :: "listener list"
  heard :: "(string \<times> string) list"
  publishes :: nat
  request_scope :: VisibilityScope

datatype reservation = Reserved | Deadline_aborted | Driver_failed thrown

record audit_event =
  ae_actorId :: string
  ae_operation :: string
  ae_effect :: string
  ae_succeeded :: bool
  ae_entityId :: "string option"
  ae_resultSummary :: string
  ae_requestId :: string

text \<open>The environment: whether the process has an admin pool, what verifying the roles
  throws, the clock, whether a checkout gets its connection, whether a COMMIT fails, the
  database function caelo_branch_visible under the session, the insert of an audit row, the
  registered publisher (what it throws, and the databases it leaves) and commit notice.\<close>

record 'db adapter =
  hasAdminDatabase :: bool
  verifyRoles :: "thrown option"
  clock :: int
  reserving :: "PoolName \<Rightarrow> string \<Rightarrow> reservation"
  acquireTimeoutMs :: nat
  committing :: "PoolName \<Rightarrow> string \<Rightarrow> 'db \<Rightarrow> thrown option"
  caelo_branch_visible :: "'db \<Rightarrow> session \<Rightarrow> string \<Rightarrow> thrown + bool"
  insert_audit_event :: "audit_event \<Rightarrow> 'db \<Rightarrow> thrown + 'db"
  projectionPublisher :: "((PoolName \<Rightarrow> 'db) \<Rightarrow> string option \<times> (PoolName \<Rightarrow> 'db)) option"
  commitNotice :: "CommitNoticeSource option"

section \<open>Statements\<close>

definition COMMIT_ROLLED_BACK :: string where
  "COMMIT_ROLLED_BACK = ''ERR_POSTGRES_COMMIT_ROLLED_BACK''"

definition driver_error :: "string \<Rightarrow> thrown" where
  "driver_error code =
     Error_chain [\<lparr>err_errno = None, err_code = Some code, err_message = None,
       err_constraint = None, err_table = None, err_column = None, err_detail = None\<rparr>]"

text \<open>A statement on an aborted transaction throws (25P02).\<close>

definition statement :: "'db txn \<Rightarrow> 'a \<Rightarrow> (thrown, 'a) result" where
  "statement tx x = require (\<not> tx_aborted tx) (driver_error ''25P02'') (Inr x)"

definition setIdentity ::
  "ExecutionContext \<Rightarrow> string option \<Rightarrow> 'db txn \<Rightarrow> (thrown, 'db txn) result" where
  "setIdentity ctx opName tx =
     statement tx
       (tx\<lparr>tx_session :=
             \<lparr>s_actor_id = actorId ctx, s_actor_kind = actorKind ctx,
              s_plugin_id = or_empty (pluginId ctx),
              s_chat_branch_id = or_empty (chatBranchId ctx),
              s_chat_task_id = or_empty (chatTaskId ctx), s_op_name = or_empty opName,
              s_application_name = transactionTag (tx_holder tx)\<rparr>,
           tx_identity := Some (ctx, opName)\<rparr>)"

definition setPublicIdentity :: "ExecutionContext \<Rightarrow> 'db txn \<Rightarrow> (thrown, 'db txn) result" where
  "setPublicIdentity ctx tx =
     statement tx
       (tx\<lparr>tx_session := (tx_session tx)
             \<lparr>s_actor_id := actorId ctx, s_actor_kind := actorKind ctx,
              s_plugin_id := or_empty (pluginId ctx),
              s_application_name := transactionTag (tx_holder tx)\<rparr>,
           tx_identity := Some (ctx, None)\<rparr>)"

text \<open>Whether a publish follows: nothing is asked when no publisher is registered.\<close>

definition projectionDirty :: "'db adapter \<Rightarrow> 'db txn \<Rightarrow> (thrown, bool) result" where
  "projectionDirty env tx =
     (case projectionPublisher env of None \<Rightarrow> Inr False | Some _ \<Rightarrow> statement tx (tx_dirty tx))"

definition pg_notify :: "CommitNotice \<Rightarrow> 'db txn \<Rightarrow> (thrown, 'db txn) result" where
  "pg_notify notice tx = statement tx (tx\<lparr>tx_notices := tx_notices tx @ [notice]\<rparr>)"

section \<open>A transaction of its own\<close>

definition begin_txn :: "'db \<Rightarrow> string \<Rightarrow> VisibilityScope \<Rightarrow> 'db txn" where
  "begin_txn db holder scope =
     \<lparr>tx_db = db, tx_session = no_session, tx_identity = None, tx_holder = holder,
      tx_pending = None, tx_notices = [], tx_dirty = False, tx_aborted = False,
      tx_unlimited = exemptFromSessionTimeouts holder, tx_scope = scope\<rparr>"

text \<open>How a transaction ended: nothing ran, its body threw, its COMMIT failed after the body
  returned, or it committed with the effects it collected.\<close>

datatype 'r ended =
    Refused thrown
  | Threw thrown
  | Commit_failed thrown 'r
  | Committed 'r "PostCommitEffect list"

definition commit_error :: "'db adapter \<Rightarrow> PoolName \<Rightarrow> 'db txn \<Rightarrow> thrown option" where
  "commit_error env pool tx =
     (if tx_aborted tx then Some (driver_error COMMIT_ROLLED_BACK)
      else committing env pool (tx_holder tx) (tx_db tx))"

definition committed_world :: "PoolName \<Rightarrow> 'db txn \<Rightarrow> 'db world \<Rightarrow> 'db world" where
  "committed_world pool tx w =
     w\<lparr>databases := (databases w)(pool := tx_db tx), delivered := delivered w @ tx_notices tx,
       request_scope := tx_scope tx\<rparr>"

definition transaction ::
  "'db adapter \<Rightarrow> PoolName \<Rightarrow> string \<Rightarrow> ('db txn \<Rightarrow> (thrown, 'r) result \<times> 'db txn)
   \<Rightarrow> 'db world \<Rightarrow> 'r ended \<times> 'db world" where
  "transaction env pool holder body w =
     (if pool = Admin_pool \<and> \<not> hasAdminDatabase env
      then (Refused (AdminDatabaseUnavailableError holder), w)
      else (case reserving env pool holder of
              Deadline_aborted \<Rightarrow>
                (Refused (PoolAcquireTimeoutError pool holder (acquireTimeoutMs env)), w)
            | Driver_failed e \<Rightarrow> (Refused e, w)
            | Reserved \<Rightarrow>
                (case body (begin_txn (databases w pool) holder (request_scope w)) of
                   (Inl e, tx) \<Rightarrow> (Threw e, w\<lparr>request_scope := tx_scope tx\<rparr>)
                 | (Inr r, tx) \<Rightarrow>
                     (case commit_error env pool tx of
                        Some e \<Rightarrow> (Commit_failed e r, w\<lparr>request_scope := tx_scope tx\<rparr>)
                      | None \<Rightarrow>
                          (Committed r (case tx_pending tx of None \<Rightarrow> [] | Some es \<Rightarrow> es),
                           committed_world pool tx w)))))"

section \<open>A call joined as a savepoint\<close>

definition savepoint :: "string \<Rightarrow> 'db txn \<Rightarrow> 'db txn" where
  "savepoint holder tx =
     tx\<lparr>tx_holder := holder, tx_identity := None, tx_pending := collectPostCommitEffects\<rparr>"

text \<open>Rolled back, the transaction is as it was; released, it has the savepoint's work under
  its own holder and marker.\<close>

definition rolled_back_to :: "'db txn \<Rightarrow> 'db txn \<Rightarrow> 'db txn" where
  "rolled_back_to tx sp = tx\<lparr>tx_scope := tx_scope sp\<rparr>"

definition released_into :: "'db txn \<Rightarrow> 'db txn \<Rightarrow> 'db txn" where
  "released_into tx sp =
     sp\<lparr>tx_holder := tx_holder tx, tx_identity := tx_identity tx, tx_pending := tx_pending tx\<rparr>"

definition restore_identity :: "'db txn \<Rightarrow> (thrown, 'db txn) result" where
  "restore_identity tx =
     (case tx_identity tx of
        None \<Rightarrow> Inr tx
      | Some (ctx, opName) \<Rightarrow> setIdentity ctx opName tx)"

definition joinHeld ::
  "string \<Rightarrow> ('db txn \<Rightarrow> (thrown, 'r) result \<times> 'db txn) \<Rightarrow> 'db txn \<Rightarrow> (thrown, 'r) result \<times> 'db txn" where
  "joinHeld holder body tx =
     (if tx_aborted tx then (Inl (driver_error ''25P02''), tx)
      else (case body (savepoint holder tx) of
              (Inl e, sp) \<Rightarrow> (Inl e, rolled_back_to tx sp)
            | (Inr r, sp) \<Rightarrow>
                if tx_aborted sp then (Inl (driver_error ''25P02''), rolled_back_to tx sp)
                else (let tx1 = released_into tx sp;
                          effects = (case tx_pending sp of None \<Rightarrow> [] | Some es \<Rightarrow> es)
                      in case mergeSavepointEffects effects (tx_pending tx1) of
                           Inl e \<Rightarrow> (Inl e, tx1)
                         | Inr pending \<Rightarrow>
                             (case restore_identity (tx1\<lparr>tx_pending := pending\<rparr>) of
                                Inl e \<Rightarrow> (Inl e, tx1\<lparr>tx_pending := pending\<rparr>)
                              | Inr tx2 \<Rightarrow> (Inr r, tx2)))))"

section \<open>After the commit\<close>

definition publishAfterCommit :: "'db adapter \<Rightarrow> 'db world \<Rightarrow> string option \<times> 'db world" where
  "publishAfterCommit env w =
     (case projectionPublisher env of
        None \<Rightarrow> (None, w)
      | Some publish \<Rightarrow>
          (case publish (databases w) of
             (thrown, dbs) \<Rightarrow> (thrown, w\<lparr>databases := dbs, publishes := publishes w + 1\<rparr>)))"

definition failed_effect_audit ::
  "string \<Rightarrow> ExecutionContext \<Rightarrow> PostCommitFailure \<Rightarrow> audit_event" where
  "failed_effect_audit operation ctx f =
     \<lparr>ae_actorId = actorId ctx, ae_operation = operation @ ''.post_commit'',
      ae_effect = pe_label (pf_effect f), ae_succeeded = False,
      ae_entityId = pe_entityId (pf_effect f),
      ae_resultSummary = take 500 (pe_label (pf_effect f) @ '': '' @ pf_message f),
      ae_requestId = requestId ctx\<rparr>"

definition audit_failure_body ::
  "'db adapter \<Rightarrow> string \<Rightarrow> ExecutionContext \<Rightarrow> PostCommitFailure \<Rightarrow> 'db txn
   \<Rightarrow> (thrown, unit) result \<times> 'db txn" where
  "audit_failure_body env operation ctx f tx =
     (case setIdentity ctx None tx of
        Inl e \<Rightarrow> (Inl e, tx)
      | Inr tx1 \<Rightarrow>
          (case insert_audit_event env (failed_effect_audit operation ctx f) (tx_db tx1) of
             Inl e \<Rightarrow> (Inl e, tx1)
           | Inr db \<Rightarrow> (Inr (), tx1\<lparr>tx_db := db\<rparr>)))"

text \<open>An audit that fails is logged; the failure it was about is reported all the same.\<close>

definition audit_failure ::
  "'db adapter \<Rightarrow> string \<Rightarrow> ExecutionContext \<Rightarrow> PostCommitFailure \<Rightarrow> 'db world \<Rightarrow> 'db world" where
  "audit_failure env operation ctx f w =
     (if hasAdminDatabase env
      then snd (transaction env Admin_pool (operation @ ''.post_commit'')
                  (audit_failure_body env operation ctx f) w)
      else w)"

definition settlePostCommit ::
  "'db adapter \<Rightarrow> string \<Rightarrow> ExecutionContext \<Rightarrow> PostCommitEffect list \<Rightarrow> 'db world
   \<Rightarrow> PostCommitFailure list \<times> 'db world" where
  "settlePostCommit env operation ctx effects w =
     (if effects = [] then ([], w)
      else (case runPostCommitEffects effects of
              (completed, failures) \<Rightarrow>
                (failures,
                 fold (audit_failure env operation ctx) failures
                   (w\<lparr>effects_run := effects_run w @ completed\<rparr>))))"

definition failure_item :: "PostCommitFailure \<Rightarrow> string" where
  "failure_item f = pe_label (pf_effect f) @ '' ('' @ pf_message f @ '')''"

fun join_failures :: "string \<Rightarrow> string list \<Rightarrow> string" where
  "join_failures sep [] = []"
| "join_failures sep [x] = x"
| "join_failures sep (x # y # xs) = x @ sep @ join_failures sep (y # xs)"

definition postCommitFailureMessage :: "PostCommitFailure list \<Rightarrow> string" where
  "postCommitFailureMessage failures =
     ''The change is saved, but its follow-up in the running server failed: ''
     @ join_failures ''; '' (map failure_item failures)
     @ ''. Do not repeat the change. Restart the admin server so the running state is rebuilt from the saved data; the failure is in the audit log.''"

text \<open>The same as the value a caller of an operation reads, with the publish failure that
  came on top, if any.\<close>

definition follow_up_failed :: "PostCommitFailure list \<Rightarrow> string option \<Rightarrow> error_text" where
  "follow_up_failed failures publishFailure =
     Saved_but_follow_up_failed (map (\<lambda>f. (pe_label (pf_effect f), pf_message f)) failures)
       publishFailure"

definition notify_committed :: "string \<Rightarrow> 'db world \<Rightarrow> 'db world" where
  "notify_committed operation w =
     w\<lparr>heard := heard w @ fst (notifyOperationCommitted operation (listening w))\<rparr>"

section \<open>Atomic scopes\<close>

text \<open>What a transaction and a joined savepoint promise alike: a run that is not kept leaves
  the durable part of the state as it was.\<close>

locale atomic_scope =
  fixes run :: "'b \<Rightarrow> 's \<Rightarrow> 'o \<times> 's"
    and kept :: "'o \<Rightarrow> bool"
    and durable :: "'s \<Rightarrow> 'd"
    and ok :: "'s \<Rightarrow> bool"
  assumes discarded: "ok s \<Longrightarrow> \<not> kept (fst (run b s)) \<Longrightarrow> durable (snd (run b s)) = durable s"
    and ok_run: "ok s \<Longrightarrow> ok (snd (run b s))"
begin

lemma ok_fold: "ok s \<Longrightarrow> ok (fold (\<lambda>b. snd \<circ> run b) bs s)"
  by (induction bs arbitrary: s) (simp_all add: ok_run)

text \<open>Attempts that were all discarded leave no trace, however many there were.\<close>

lemma discarded_fold:
  assumes "ok s" "\<And>b t. b \<in> set bs \<Longrightarrow> \<not> kept (fst (run b t))"
  shows "durable (fold (\<lambda>b. snd \<circ> run b) bs s) = durable s"
  using assms by (induction bs arbitrary: s) (simp_all add: ok_run discarded)

lemma discarded_Pair:
  "ok s \<Longrightarrow> run b s = (out, s') \<Longrightarrow> \<not> kept out \<Longrightarrow> durable s' = durable s"
  using discarded [of s b] by simp

end

definition is_committed :: "'r ended \<Rightarrow> bool" where
  "is_committed out = (case out of Committed r es \<Rightarrow> True | _ \<Rightarrow> False)"

definition is_released :: "(thrown, 'r) result \<Rightarrow> bool" where
  "is_released out = (case out of Inl e \<Rightarrow> False | Inr r \<Rightarrow> True)"

definition without_memory :: "'db world \<Rightarrow> 'db world" where
  "without_memory w = w\<lparr>request_scope := None\<rparr>"

definition tx_without_memory :: "'db txn \<Rightarrow> 'db txn" where
  "tx_without_memory tx = tx\<lparr>tx_scope := None\<rparr>"

definition collects :: "'db txn \<Rightarrow> bool" where
  "collects tx = (tx_pending tx \<noteq> None)"

interpretation own: atomic_scope
  "\<lambda>b. transaction env pool (fst b) (snd b)" is_committed without_memory "\<lambda>_. True" for env pool
  by unfold_locales
    (auto simp: transaction_def is_committed_def without_memory_def
      split: if_splits reservation.splits prod.splits sum.splits option.splits)

lemma restore_identity_ok:
  "\<not> tx_aborted tx \<Longrightarrow> \<exists>tx'. restore_identity tx = Inr tx' \<and> tx_pending tx' = tx_pending tx"
  by (auto simp: restore_identity_def setIdentity_def statement_def split: option.splits)

lemma joinHeld_cases:
  assumes "collects tx"
  obtains (aborted) "joinHeld holder body tx = (Inl (driver_error ''25P02''), tx)"
  | (threw) e sp where "joinHeld holder body tx = (Inl e, rolled_back_to tx sp)"
  | (released) r sp p tx2 where "body (savepoint holder tx) = (Inr r, sp)" "\<not> tx_aborted sp"
      "tx_pending tx = Some p"
      "restore_identity ((released_into tx sp)\<lparr>tx_pending :=
          Some (p @ (case tx_pending sp of None \<Rightarrow> [] | Some es \<Rightarrow> es))\<rparr>) = Inr tx2"
      "joinHeld holder body tx = (Inr r, tx2)"
proof (cases "tx_aborted tx")
  case True
  then show ?thesis by (intro aborted) (simp add: joinHeld_def)
next
  case False
  obtain p where p: "tx_pending tx = Some p" using assms by (auto simp: collects_def)
  obtain out sp where b: "body (savepoint holder tx) = (out, sp)" by fastforce
  show ?thesis
  proof (cases out)
    case (Inl e)
    then show ?thesis using b False by (intro threw [of e sp]) (simp add: joinHeld_def)
  next
    case (Inr r)
    show ?thesis
    proof (cases "tx_aborted sp")
      case True
      then show ?thesis using b Inr False by (intro threw) (simp add: joinHeld_def)
    next
      case live: False
      let ?tx1 = "(released_into tx sp)\<lparr>tx_pending :=
          Some (p @ (case tx_pending sp of None \<Rightarrow> [] | Some es \<Rightarrow> es))\<rparr>"
      have "\<not> tx_aborted ?tx1" using live by (simp add: released_into_def)
      from restore_identity_ok [OF this] obtain tx2 where tx2: "restore_identity ?tx1 = Inr tx2" by blast
      have "joinHeld holder body tx = (Inr r, tx2)"
        using b Inr False live p tx2 by (simp add: joinHeld_def Let_def released_into_def)
      with b Inr live p tx2 show ?thesis by (intro released [of r sp p tx2]) simp_all
    qed
  qed
qed

interpretation joined: atomic_scope
  "\<lambda>b. joinHeld (fst b) (snd b)" is_released tx_without_memory collects
proof
  fix tx :: "'db txn" and b :: "string \<times> ('db txn \<Rightarrow> (thrown, 'r) result \<times> 'db txn)"
  assume c: "collects tx"
  show "tx_without_memory (snd (joinHeld (fst b) (snd b) tx)) = tx_without_memory tx"
    if "\<not> is_released (fst (joinHeld (fst b) (snd b) tx))"
    using that by (cases rule: joinHeld_cases [OF c, of "fst b" "snd b"])
      (auto simp: is_released_def tx_without_memory_def rolled_back_to_def)
  show "collects (snd (joinHeld (fst b) (snd b) tx))"
    using c
  proof (cases rule: joinHeld_cases [where holder = "fst b" and body = "snd b", case_names aborted threw released])
    case (released r sp p tx2)
    have "\<not> tx_aborted ((released_into tx sp)\<lparr>tx_pending :=
          Some (p @ (case tx_pending sp of None \<Rightarrow> [] | Some es \<Rightarrow> es))\<rparr>)"
      using released(2) by (simp add: released_into_def)
    from restore_identity_ok [OF this] released(4,5) show ?thesis by (auto simp: collects_def)
  qed (use c in \<open>auto simp: collects_def rolled_back_to_def\<close>)
qed

end
