(* ===== verification/Operations.thy ===== *)
theory Operations
  imports Transactions
begin

text \<open>
  Running an operation (packages/query-api/src/adapter.ts and operation.ts): the body of a
  transactional operation with its branch gate, its answer after commit and follow-ups,
  operations that hold no transaction (reads in short transactions, detached operations),
  and the transactions handed to callers that are not operations.  A handler without a
  transaction of its own is a tree of the short transactions it opens.
\<close>

type_synonym answer = "(QueryError, json) result"
type_synonym outcome = "(thrown, answer) result"
type_synonym 'db handler =
  "ExecutionContext \<Rightarrow> json \<Rightarrow> 'db txn \<Rightarrow> (thrown, answer) result \<times> 'db txn"

definition is_ok :: "answer \<Rightarrow> bool" where
  "is_ok a = (case a of Inl q \<Rightarrow> False | Inr v \<Rightarrow> True)"

section \<open>Thrown errors as answers\<close>

definition thrown_outcome :: "string \<Rightarrow> bool \<Rightarrow> thrown \<Rightarrow> outcome" where
  "thrown_outcome operation is_write t =
     (case t of
        NestedPoolCheckoutError p h r \<Rightarrow> Inl t
      | OperationAbortError q \<Rightarrow> Inr (Inl q)
      | _ \<Rightarrow> Inr (Inl (thrownToQueryError operation t is_write)))"

text \<open>A COMMIT that Postgres turned into a rollback answers with the handler's own error.\<close>

definition commit_failed_outcome :: "string \<Rightarrow> thrown \<Rightarrow> QueryError option \<Rightarrow> outcome" where
  "commit_failed_outcome operation t handlerError =
     (case (extractPgFields t, handlerError) of
        (Some f, Some q) \<Rightarrow>
          if pg_code f = Some COMMIT_ROLLED_BACK then Inr (Inl q)
          else thrown_outcome operation True t
      | _ \<Rightarrow> thrown_outcome operation True t)"

section \<open>The body of a transactional operation\<close>

record op_result =
  or_answer :: answer
  or_handlerError :: "QueryError option"
  or_publish :: bool

definition branch_gate ::
  "'db adapter \<Rightarrow> ExecutionContext \<Rightarrow> string list \<Rightarrow> 'db txn
   \<Rightarrow> (thrown, string option) result \<times> 'db txn" where
  "branch_gate env ctx branches tx =
     (case firstInvisibleBranch (clock env) (caelo_branch_visible env (tx_db tx) (tx_session tx))
             ctx branches (tx_scope tx) of
        (r, scope) \<Rightarrow> (r, tx\<lparr>tx_scope := scope\<rparr>))"

text \<open>What follows a handler that answered: nothing after its own error.\<close>

definition after_handler ::
  "'db adapter \<Rightarrow> string \<Rightarrow> PoolName \<Rightarrow> bool \<Rightarrow> answer \<Rightarrow> 'db txn
   \<Rightarrow> (thrown, op_result) result \<times> 'db txn" where
  "after_handler env name db joined out tx =
     (case out of
        Inl q \<Rightarrow> (Inr \<lparr>or_answer = Inl q, or_handlerError = Some q, or_publish = False\<rparr>, tx)
      | Inr v \<Rightarrow>
          if db \<noteq> Admin_pool
          then (Inr \<lparr>or_answer = Inr v, or_handlerError = None, or_publish = False\<rparr>, tx)
          else (case (if joined then Inr False else projectionDirty env tx) of
                  Inl e \<Rightarrow> (Inl e, tx)
                | Inr dirty \<Rightarrow>
                    (case commitNoticeOf (commitNotice env) name of
                       None \<Rightarrow>
                         (Inr \<lparr>or_answer = Inr v, or_handlerError = None, or_publish = dirty\<rparr>, tx)
                     | Some notice \<Rightarrow>
                         (case pg_notify notice tx of
                            Inl e \<Rightarrow> (Inl e, tx)
                          | Inr tx' \<Rightarrow>
                              (Inr \<lparr>or_answer = Inr v, or_handlerError = None,
                                    or_publish = dirty\<rparr>, tx')))))"

definition operation_body ::
  "'db adapter \<Rightarrow> string \<Rightarrow> PoolName \<Rightarrow> 'db handler \<Rightarrow> ExecutionContext \<Rightarrow> json \<Rightarrow> bool
   \<Rightarrow> 'db txn \<Rightarrow> (thrown, op_result) result \<times> 'db txn" where
  "operation_body env name db handler ctx input joined tx =
     (let tx0 = (if joined then tx else tx\<lparr>tx_pending := collectPostCommitEffects\<rparr>)
      in case setIdentity ctx (Some name) tx0 of
           Inl e \<Rightarrow> (Inl e, tx0)
         | Inr tx1 \<Rightarrow>
             (case (if db = Admin_pool then branch_gate env ctx (namedBranches ctx input) tx1
                    else (Inr None, tx1)) of
                (Inl e, tx2) \<Rightarrow> (Inl e, tx2)
              | (Inr (Some b), tx2) \<Rightarrow>
                  (Inr \<lparr>or_answer = Inl (branchNotFound name b), or_handlerError = None,
                        or_publish = False\<rparr>, tx2)
              | (Inr None, tx2) \<Rightarrow>
                  (case handler ctx input tx2 of
                     (Inl e, tx3) \<Rightarrow> (Inl e, tx3)
                   | (Inr out, tx3) \<Rightarrow> after_handler env name db joined out tx3)))"

section \<open>A transactional operation\<close>

definition saved_error :: "string \<Rightarrow> error_text \<Rightarrow> QueryError" where
  "saved_error name text = HandlerError name text False False False None None"

definition follow_up ::
  "'db adapter \<Rightarrow> string \<Rightarrow> ExecutionContext \<Rightarrow> op_result \<Rightarrow> PostCommitEffect list \<Rightarrow> 'db world
   \<Rightarrow> outcome \<times> 'db world" where
  "follow_up env name ctx r effects w =
     (case settlePostCommit env name ctx effects w of
        (failures, w1) \<Rightarrow>
          (case (if or_publish r then publishAfterCommit env w1 else (None, w1)) of
             (publishFailure, w2) \<Rightarrow>
               (let w3 = (if is_ok (or_answer r) then notify_committed name w2 else w2)
                in if failures \<noteq> []
                   then (Inr (Inl (saved_error name (follow_up_failed failures publishFailure))), w3)
                   else (case publishFailure of
                           Some m \<Rightarrow> (Inr (Inl (saved_error name (Saved_but_not_published m))), w3)
                         | None \<Rightarrow> (Inr (or_answer r), w3)))))"

definition runTransactional ::
  "'db adapter \<Rightarrow> string \<Rightarrow> PoolName \<Rightarrow> 'db handler \<Rightarrow> ExecutionContext \<Rightarrow> json \<Rightarrow> 'db world
   \<Rightarrow> outcome \<times> 'db world" where
  "runTransactional env name db handler ctx input w =
     (case transaction env db name (operation_body env name db handler ctx input False) w of
        (Refused e, w1) \<Rightarrow> (thrown_outcome name True e, w1)
      | (Threw e, w1) \<Rightarrow> (thrown_outcome name True e, w1)
      | (Commit_failed e r, w1) \<Rightarrow> (commit_failed_outcome name e (or_handlerError r), w1)
      | (Committed r effects, w1) \<Rightarrow> follow_up env name ctx r effects w1)"

text \<open>The same operation called by a chain that joins the transaction it holds.\<close>

definition runJoined ::
  "'db adapter \<Rightarrow> chain \<Rightarrow> string \<Rightarrow> PoolName \<Rightarrow> 'db handler \<Rightarrow> ExecutionContext \<Rightarrow> json \<Rightarrow> 'db txn
   \<Rightarrow> outcome \<times> 'db txn" where
  "runJoined env c name db handler ctx input tx =
     (case assertMayCheckout c db name of
        Some e \<Rightarrow> (Inl e, tx)
      | None \<Rightarrow>
          (case joinHeld name (operation_body env name db handler ctx input True) tx of
             (Inl e, tx1) \<Rightarrow> (thrown_outcome name True e, tx1)
           | (Inr r, tx1) \<Rightarrow> (Inr (or_answer r), tx1)))"

section \<open>Transactions for other callers\<close>

definition ended_result :: "'r ended \<times> 'db world \<Rightarrow> (thrown, 'r) result \<times> 'db world" where
  "ended_result out =
     (case out of
        (Refused e, w) \<Rightarrow> (Inl e, w)
      | (Threw e, w) \<Rightarrow> (Inl e, w)
      | (Commit_failed e r, w) \<Rightarrow> (Inl e, w)
      | (Committed r es, w) \<Rightarrow> (Inr r, w))"

definition shortRead ::
  "'db adapter \<Rightarrow> ExecutionContext \<Rightarrow> string \<Rightarrow> ('db txn \<Rightarrow> (thrown, 'r) result \<times> 'db txn)
   \<Rightarrow> 'db world \<Rightarrow> (thrown, 'r) result \<times> 'db world" where
  "shortRead env ctx holder f w =
     ended_result
       (transaction env Admin_pool holder
          (\<lambda>tx. case setIdentity ctx None tx of Inl e \<Rightarrow> (Inl e, tx) | Inr tx1 \<Rightarrow> f tx1) w)"

definition admin_body ::
  "'db adapter \<Rightarrow> ExecutionContext \<Rightarrow> string option \<Rightarrow> ('db txn \<Rightarrow> (thrown, 'r) result \<times> 'db txn)
   \<Rightarrow> 'db txn \<Rightarrow> (thrown, 'r \<times> bool) result \<times> 'db txn" where
  "admin_body env ctx opName fn tx =
     (let tx0 = tx\<lparr>tx_pending := collectPostCommitEffects\<rparr>
      in case setIdentity ctx opName tx0 of
           Inl e \<Rightarrow> (Inl e, tx0)
         | Inr tx1 \<Rightarrow>
             (case branch_gate env ctx (namedBranches ctx JNull) tx1 of
                (Inl e, tx2) \<Rightarrow> (Inl e, tx2)
              | (Inr (Some b), tx2) \<Rightarrow>
                  (Inl (OperationAbortError (branchNotFound ''withAdminTransaction'' b)), tx2)
              | (Inr None, tx2) \<Rightarrow>
                  (case fn tx2 of
                     (Inl e, tx3) \<Rightarrow> (Inl e, tx3)
                   | (Inr r, tx3) \<Rightarrow>
                       (case projectionDirty env tx3 of
                          Inl e \<Rightarrow> (Inl e, tx3)
                        | Inr dirty \<Rightarrow> (Inr (r, dirty), tx3)))))"

definition withAdminTransaction ::
  "'db adapter \<Rightarrow> ExecutionContext \<Rightarrow> ('db txn \<Rightarrow> (thrown, 'r) result \<times> 'db txn) \<Rightarrow> string option
   \<Rightarrow> 'db world \<Rightarrow> (thrown, 'r) result \<times> 'db world" where
  "withAdminTransaction env ctx fn label w =
     (let holder = (case label of Some h \<Rightarrow> h | None \<Rightarrow> ''withAdminTransaction'')
      in if \<not> hasAdminDatabase env then (Inl (AdminDatabaseUnavailableError holder), w)
         else (case verifyRoles env of
                 Some e \<Rightarrow> (Inl e, w)
               | None \<Rightarrow>
                   (case transaction env Admin_pool holder (admin_body env ctx label fn) w of
                      (Committed (r, dirty) effects, w1) \<Rightarrow>
                        (case settlePostCommit env holder ctx effects w1 of
                           (failures, w2) \<Rightarrow>
                             (case (if dirty then publishAfterCommit env w2 else (None, w2)) of
                                (Some m, w3) \<Rightarrow> (Inl (plain_error m), w3)
                              | (None, w3) \<Rightarrow>
                                  if failures \<noteq> []
                                  then (Inl (plain_error (postCommitFailureMessage failures)), w3)
                                  else (Inr r, w3)))
                    | (Refused e, w1) \<Rightarrow> (Inl e, w1)
                    | (Threw e, w1) \<Rightarrow> (Inl e, w1)
                    | (Commit_failed e r, w1) \<Rightarrow> (Inl e, w1))))"

definition public_body ::
  "ExecutionContext \<Rightarrow> ('db txn \<Rightarrow> (thrown, 'r) result \<times> 'db txn)
   \<Rightarrow> 'db txn \<Rightarrow> (thrown, 'r) result \<times> 'db txn" where
  "public_body ctx fn tx =
     (let tx0 = tx\<lparr>tx_pending := collectPostCommitEffects\<rparr>
      in case setPublicIdentity ctx tx0 of
           Inl e \<Rightarrow> (Inl e, tx0)
         | Inr tx1 \<Rightarrow> fn tx1)"

definition withPublicTransaction ::
  "'db adapter \<Rightarrow> ExecutionContext \<Rightarrow> ('db txn \<Rightarrow> (thrown, 'r) result \<times> 'db txn) \<Rightarrow> string option
   \<Rightarrow> 'db world \<Rightarrow> (thrown, 'r) result \<times> 'db world" where
  "withPublicTransaction env ctx fn label w =
     (let holder = (case label of Some h \<Rightarrow> h | None \<Rightarrow> ''withPublicTransaction'')
      in case verifyRoles env of
           Some e \<Rightarrow> (Inl e, w)
         | None \<Rightarrow>
             (case transaction env Public_pool holder (public_body ctx fn) w of
                (Committed r effects, w1) \<Rightarrow>
                  (case settlePostCommit env holder ctx effects w1 of
                     (failures, w2) \<Rightarrow>
                       if failures \<noteq> []
                       then (Inl (plain_error (postCommitFailureMessage failures)), w2)
                       else (Inr r, w2))
              | (Refused e, w1) \<Rightarrow> (Inl e, w1)
              | (Threw e, w1) \<Rightarrow> (Inl e, w1)
              | (Commit_failed e r, w1) \<Rightarrow> (Inl e, w1)))"

text \<open>One NOTIFY in a transaction of its own.\<close>

definition notify :: "'db adapter \<Rightarrow> CommitNotice \<Rightarrow> 'db world \<Rightarrow> (thrown, unit) result \<times> 'db world" where
  "notify env notice w =
     ended_result
       (transaction env Admin_pool ''notify''
          (\<lambda>tx. case pg_notify notice tx of Inl e \<Rightarrow> (Inl e, tx) | Inr tx1 \<Rightarrow> (Inr (), tx1)) w)"

section \<open>Operations that hold no transaction\<close>

datatype 'db steps =
    Finish outcome
  | Short "'db txn \<Rightarrow> (thrown, json) result \<times> 'db txn" "(thrown, json) result \<Rightarrow> 'db steps"

type_synonym 'db stepping = "ExecutionContext \<Rightarrow> json \<Rightarrow> 'db steps"

primrec run_steps ::
  "(('db txn \<Rightarrow> (thrown, json) result \<times> 'db txn) \<Rightarrow> 'db world \<Rightarrow> (thrown, json) result \<times> 'db world)
   \<Rightarrow> 'db steps \<Rightarrow> 'db world \<Rightarrow> outcome \<times> 'db world" where
  "run_steps runner (Finish out) w = (out, w)"
| "run_steps runner (Short f k) w =
     (case runner f w of (r, w1) \<Rightarrow> run_steps runner (k r) w1)"

text \<open>The branch gate of such an operation: no transaction when the request remembers.\<close>

definition gate_before ::
  "'db adapter \<Rightarrow> string \<Rightarrow> ExecutionContext \<Rightarrow> string list \<Rightarrow> 'db world
   \<Rightarrow> (thrown, string option) result \<times> 'db world" where
  "gate_before env name ctx branches w =
     (if branches = [] then (Inr None, w)
      else (case rememberedFirstInvisible (clock env) ctx branches (request_scope w) of
              (Some denied, scope) \<Rightarrow> (Inr denied, w\<lparr>request_scope := scope\<rparr>)
            | (None, scope) \<Rightarrow>
                shortRead env ctx name (branch_gate env ctx branches) (w\<lparr>request_scope := scope\<rparr>)))"

definition caught :: "string \<Rightarrow> bool \<Rightarrow> outcome \<times> 'db world \<Rightarrow> outcome \<times> 'db world" where
  "caught name is_write out =
     (case out of (Inl e, w) \<Rightarrow> (thrown_outcome name is_write e, w) | (Inr r, w) \<Rightarrow> (Inr r, w))"

definition gated_steps ::
  "string \<Rightarrow> bool \<Rightarrow> (thrown, string option) result \<times> 'db world \<Rightarrow> ('db world \<Rightarrow> outcome \<times> 'db world)
   \<Rightarrow> outcome \<times> 'db world" where
  "gated_steps name is_write gate go =
     (case gate of
        (Inl e, w1) \<Rightarrow> (thrown_outcome name is_write e, w1)
      | (Inr (Some b), w1) \<Rightarrow> (Inr (Inl (branchNotFound name b)), w1)
      | (Inr None, w1) \<Rightarrow> caught name is_write (go w1))"

definition runReadOperation ::
  "'db adapter \<Rightarrow> string \<Rightarrow> 'db stepping \<Rightarrow> ExecutionContext \<Rightarrow> json \<Rightarrow> 'db world
   \<Rightarrow> outcome \<times> 'db world" where
  "runReadOperation env name handler ctx input w =
     gated_steps name False (gate_before env name ctx (namedBranches ctx input) w)
       (run_steps (shortRead env ctx name) (handler ctx input))"

definition runDetached ::
  "'db adapter \<Rightarrow> string \<Rightarrow> PoolName \<Rightarrow> 'db stepping \<Rightarrow> ExecutionContext \<Rightarrow> json \<Rightarrow> 'db world
   \<Rightarrow> outcome \<times> 'db world" where
  "runDetached env name db handler ctx input w =
     gated_steps name True
       (gate_before env name ctx (if db = Admin_pool then namedBranches ctx input else []) w)
       (run_steps
          (\<lambda>fn. if db = Admin_pool then withAdminTransaction env ctx fn (Some name)
                else withPublicTransaction env ctx fn (Some name))
          (handler ctx input))"

section \<open>Running an operation\<close>

text \<open>A step-wise operation is dispatched by execute alone; its handler only throws.\<close>

datatype op_steps =
    Stop outcome
  | Run_op ExecutionContext string json "outcome \<Rightarrow> op_steps"

datatype 'db op_body =
    Transactional "'db handler"
  | Detached "'db stepping"
  | Reads "'db stepping"
  | Stepwise "ExecutionContext \<Rightarrow> json \<Rightarrow> op_steps"

record 'db operation =
  op_name :: string
  op_database :: PoolName
  op_actorScope :: "string list"
  op_input :: "json \<Rightarrow> (string list, json) result"
  op_body :: "'db op_body"

definition stepwise_handler :: "string \<Rightarrow> 'db handler" where
  "stepwise_handler name ctx input tx =
     (Inl (plain_error (''operation '' @ name @ '' holds no transaction (each step is an op of its own)'')), tx)"

definition runOperation ::
  "'db adapter \<Rightarrow> 'db operation \<Rightarrow> ExecutionContext \<Rightarrow> json \<Rightarrow> 'db world \<Rightarrow> outcome \<times> 'db world" where
  "runOperation env op ctx input w =
     (if op_database op = Admin_pool \<and> \<not> hasAdminDatabase env
      then (Inl (AdminDatabaseUnavailableError (''operation '' @ op_name op)), w)
      else (case verifyRoles env of
              Some e \<Rightarrow> (Inl e, w)
            | None \<Rightarrow>
                (case op_body op of
                   Reads handler \<Rightarrow> runReadOperation env (op_name op) handler ctx input w
                 | Detached handler \<Rightarrow>
                     runDetached env (op_name op) (op_database op) handler ctx input w
                 | Transactional handler \<Rightarrow>
                     runTransactional env (op_name op) (op_database op) handler ctx input w
                 | Stepwise steps \<Rightarrow>
                     runTransactional env (op_name op) (op_database op)
                       (stepwise_handler (op_name op)) ctx input w)))"

section \<open>What an answer says\<close>

definition effects_of :: "'db txn \<Rightarrow> PostCommitEffect list" where
  "effects_of tx = (case tx_pending tx of None \<Rightarrow> [] | Some es \<Rightarrow> es)"

text \<open>The notice an operation sends on top of its handler's.\<close>

definition own_notices :: "'db adapter \<Rightarrow> string \<Rightarrow> PoolName \<Rightarrow> CommitNotice list" where
  "own_notices env name db =
     (if db = Admin_pool
      then (case commitNoticeOf (commitNotice env) name of None \<Rightarrow> [] | Some n \<Rightarrow> [n]) else [])"

definition publish_due :: "'db adapter \<Rightarrow> PoolName \<Rightarrow> 'db txn \<Rightarrow> bool" where
  "publish_due env db tx = (db = Admin_pool \<and> projectionPublisher env \<noteq> None \<and> tx_dirty tx)"

lemma after_handler_ok:
  assumes "after_handler env name db False (Inr v) tx = (Inr r, tx')"
  shows "or_answer r = Inr v \<and> or_publish r = publish_due env db tx
    \<and> tx' = tx\<lparr>tx_notices := tx_notices tx @ own_notices env name db\<rparr>"
  using assms
  by (auto simp: after_handler_def publish_due_def own_notices_def projectionDirty_def pg_notify_def
      statement_def result_simps split: if_splits option.splits sum.splits)

lemma after_handler_error:
  "after_handler env name db joined (Inl q) tx =
     (Inr \<lparr>or_answer = Inl q, or_handlerError = Some q, or_publish = False\<rparr>, tx)"
  by (simp add: after_handler_def)

text \<open>How the body of an operation can return: the branch gate refused, with the database as
  it was found, or the handler answered.\<close>

lemma operation_body_returned:
  assumes "operation_body env name db handler ctx input joined tx = (Inr r, tx')"
  obtains (hidden) b where "r = \<lparr>or_answer = Inl (branchNotFound name b),
        or_handlerError = None, or_publish = False\<rparr>"
      "tx_db tx' = tx_db tx" "tx_notices tx' = tx_notices tx"
      "tx_pending tx' = (if joined then tx_pending tx else Some [])" "tx_aborted tx' = tx_aborted tx"
      "tx_holder tx' = tx_holder tx"
  | (answered) tx2 out tx3 where "handler ctx input tx2 = (Inr out, tx3)" "tx_db tx2 = tx_db tx"
      "tx_pending tx2 = (if joined then tx_pending tx else Some [])"
      "after_handler env name db joined out tx3 = (Inr r, tx')"
proof -
  define tx0 where "tx0 = (if joined then tx else tx\<lparr>tx_pending := collectPostCommitEffects\<rparr>)"
  have tx0: "tx_db tx0 = tx_db tx" "tx_notices tx0 = tx_notices tx" "tx_aborted tx0 = tx_aborted tx"
    "tx_holder tx0 = tx_holder tx" "tx_pending tx0 = (if joined then tx_pending tx else Some [])"
    by (simp_all add: tx0_def collectPostCommitEffects_def)
  obtain tx1 where i: "setIdentity ctx (Some name) tx0 = Inr tx1"
    using assms by (auto simp: operation_body_def Let_def tx0_def split: sum.splits)
  have tx1: "tx_db tx1 = tx_db tx0" "tx_notices tx1 = tx_notices tx0" "tx_aborted tx1 = tx_aborted tx0"
    "tx_holder tx1 = tx_holder tx0" "tx_pending tx1 = tx_pending tx0"
    using i by (auto simp: setIdentity_def statement_def result_simps)
  obtain g tx2 where g: "(if db = Admin_pool then branch_gate env ctx (namedBranches ctx input) tx1
      else (Inr None, tx1)) = (g, tx2)" by fastforce
  have tx2: "tx_db tx2 = tx_db tx1" "tx_notices tx2 = tx_notices tx1" "tx_aborted tx2 = tx_aborted tx1"
    "tx_holder tx2 = tx_holder tx1" "tx_pending tx2 = tx_pending tx1"
    using g by (auto simp: branch_gate_def split: if_splits prod.splits)
  note body = assms [unfolded operation_body_def Let_def, folded tx0_def, unfolded i sum.case g prod.case]
  show ?thesis
  proof (cases g)
    case (Inr d)
    show ?thesis
    proof (cases d)
      case None
      then obtain out tx3 where "handler ctx input tx2 = (Inr out, tx3)"
          "after_handler env name db joined out tx3 = (Inr r, tx')"
        using body Inr by (auto split: prod.splits sum.splits)
      then show ?thesis using answered tx0 tx1 tx2 by simp
    next
      case (Some b)
      then show ?thesis using body Inr tx0 tx1 tx2 by (intro hidden [of b]) simp_all
    qed
  qed (use body in simp)
qed

lemma transaction_Committed:
  assumes "transaction env pool holder body w = (Committed r es, w')"
  shows "\<exists>tx. body (begin_txn (databases w pool) holder (request_scope w)) = (Inr r, tx)
    \<and> commit_error env pool tx = None \<and> es = effects_of tx \<and> w' = committed_world pool tx w"
  using assms
  by (auto simp: transaction_def effects_of_def
      split: if_splits reservation.splits prod.splits sum.splits option.splits)

lemma settlePostCommit_no_failures:
  assumes "settlePostCommit env name ctx effects w = ([], w')"
  shows "(\<forall>e \<in> set effects. pe_throws e = None)
    \<and> w' = w\<lparr>effects_run := effects_run w @ effects\<rparr>"
  using assms no_failures_iff [of effects]
  by (auto simp: settlePostCommit_def split: if_splits)

text \<open>How a transactional operation can end.\<close>

lemma runTransactional_cases:
  assumes "runTransactional env name db handler ctx input w = (out, w')"
  obtains (discarded) "without_memory w' = without_memory w"
      "\<And>v. out \<noteq> Inr (Inr v)"
  | (followed) r tx where
      "operation_body env name db handler ctx input False
         (begin_txn (databases w db) name (request_scope w)) = (Inr r, tx)"
      "commit_error env db tx = None"
      "follow_up env name ctx r (effects_of tx) (committed_world db tx w) = (out, w')"
proof -
  obtain e w1 where t: "transaction env db name (operation_body env name db handler ctx input False) w = (e, w1)"
    by fastforce
  show ?thesis
  proof (cases e)
    case (Committed r es)
    from transaction_Committed [OF t [unfolded Committed]] obtain tx where
      "operation_body env name db handler ctx input False
         (begin_txn (databases w db) name (request_scope w)) = (Inr r, tx)"
      "commit_error env db tx = None" "es = effects_of tx" "w1 = committed_world db tx w" by blast
    with t Committed assms show ?thesis by (intro followed [of r tx]) (simp_all add: runTransactional_def)
  next
    case (Commit_failed x r)
    then have "without_memory w1 = without_memory w"
      using own.discarded_Pair [where b = "(name, operation_body env name db handler ctx input False)"] t
      by (simp add: is_committed_def)
    then show ?thesis
      using t Commit_failed assms by (intro discarded)
        (auto simp: runTransactional_def commit_failed_outcome_def thrown_outcome_def
          split: option.splits if_splits thrown.splits)
  next
    case (Refused x)
    then have "without_memory w1 = without_memory w"
      using own.discarded_Pair [where b = "(name, operation_body env name db handler ctx input False)"] t
      by (simp add: is_committed_def)
    then show ?thesis
      using t Refused assms by (intro discarded)
        (auto simp: runTransactional_def thrown_outcome_def split: thrown.splits)
  next
    case (Threw x)
    then have "without_memory w1 = without_memory w"
      using own.discarded_Pair [where b = "(name, operation_body env name db handler ctx input False)"] t
      by (simp add: is_committed_def)
    then show ?thesis
      using t Threw assms by (intro discarded)
        (auto simp: runTransactional_def thrown_outcome_def split: thrown.splits)
  qed
qed

lemma follow_up_ok:
  assumes "follow_up env name ctx r es w = (Inr (Inr v), w')"
  shows "or_answer r = Inr v \<and> (\<forall>e \<in> set es. pe_throws e = None)
    \<and> (\<exists>dbs. (if or_publish r
            then publishAfterCommit env (w\<lparr>effects_run := effects_run w @ es\<rparr>)
            else (None, w\<lparr>effects_run := effects_run w @ es\<rparr>)) = (None, dbs)
          \<and> w' = notify_committed name dbs)"
proof -
  obtain fs w1 where s: "settlePostCommit env name ctx es w = (fs, w1)" by fastforce
  obtain pf w2 where p: "(if or_publish r then publishAfterCommit env w1 else (None, w1)) = (pf, w2)"
    by fastforce
  note run = assms [unfolded follow_up_def s prod.case p]
  have fs: "fs = []" and pf: "pf = None" and a: "or_answer r = Inr v"
    using run by (auto simp: Let_def split: if_splits option.splits)
  with run have w': "w' = notify_committed name w2" by (simp add: is_ok_def Let_def)
  from settlePostCommit_no_failures [OF s [unfolded fs]] p pf a w' show ?thesis by auto
qed

definition published ::
  "'db adapter \<Rightarrow> bool \<Rightarrow> (PoolName \<Rightarrow> 'db) \<Rightarrow> (PoolName \<Rightarrow> 'db) \<Rightarrow> bool" where
  "published env due dbs dbs' =
     (case projectionPublisher env of
        None \<Rightarrow> dbs' = dbs
      | Some publish \<Rightarrow> if due then publish dbs = (None, dbs') else dbs' = dbs)"

lemma publishAfterCommit_published:
  assumes "(if due then publishAfterCommit env w else (None, w)) = (None, w')"
  shows "published env due (databases w) (databases w') \<and> delivered w' = delivered w
    \<and> effects_run w' = effects_run w \<and> heard w' = heard w \<and> listening w' = listening w"
  using assms
  by (auto simp: publishAfterCommit_def published_def split: if_splits option.splits prod.splits)

section \<open>Properties\<close>

text \<open>C3. An operation that answers ok did all it owed: its handler answered ok on the
  database as it was, the transaction was not aborted and its COMMIT succeeded, every effect
  the handler deferred ran once, in order, without failing, its notifications were delivered
  after those sent before, a change of published state was published, and every listener
  heard the operation's name.\<close>

theorem ok_answer_means_all_done:
  assumes "runTransactional env name db handler ctx input w = (Inr (Inr v), w')"
  shows "\<exists>tx0 tx. handler ctx input tx0 = (Inr (Inr v), tx) \<and> tx_db tx0 = databases w db
      \<and> \<not> tx_aborted tx \<and> committing env db (tx_holder tx) (tx_db tx) = None
      \<and> published env (publish_due env db tx) ((databases w)(db := tx_db tx)) (databases w')
      \<and> delivered w' = delivered w @ tx_notices tx @ own_notices env name db
      \<and> effects_run w' = effects_run w @ effects_of tx \<and> (\<forall>e \<in> set (effects_of tx). pe_throws e = None)
      \<and> heard w' = heard w @ map (\<lambda>l. (l_name l, name)) (listening w)"
  using assms
proof (cases rule: runTransactional_cases)
  case (followed r txc)
  define wc where "wc = (committed_world db txc w)\<lparr>effects_run := effects_run (committed_world db txc w) @ effects_of txc\<rparr>"
  from follow_up_ok [OF followed(3), folded wc_def] obtain w2 where a: "or_answer r = Inr v"
    and es: "\<forall>e \<in> set (effects_of txc). pe_throws e = None"
    and p: "(if or_publish r then publishAfterCommit env wc else (None, wc)) = (None, w2)"
    and w': "w' = notify_committed name w2" by blast
  from followed(1) show ?thesis
  proof (cases rule: operation_body_returned)
    case (hidden b)
    then show ?thesis using a by simp
  next
    case (answered tx2 out tx3)
    have out: "out = Inr v"
      using answered(4) a by (cases out) (auto simp: after_handler_error dest: after_handler_ok)
    note after = after_handler_ok [OF answered(4) [unfolded out]]
    have live: "\<not> tx_aborted tx3" "committing env db (tx_holder tx3) (tx_db tx3) = None"
      using followed(2) after by (auto simp: commit_error_def split: if_splits)
    have same: "effects_of txc = effects_of tx3" "tx_db txc = tx_db tx3"
      using after by (simp_all add: effects_of_def)
    have pub: "published env (publish_due env db tx3) ((databases w)(db := tx_db tx3)) (databases w')"
      "delivered w' = delivered w @ tx_notices tx3 @ own_notices env name db"
      "effects_run w' = effects_run w @ effects_of tx3"
      "heard w' = heard w @ map (\<lambda>l. (l_name l, name)) (listening w)"
      using publishAfterCommit_published [OF p] after same
      by (simp_all add: w' wc_def notify_committed_def committed_world_def notifyOperationCommitted_heard)
    show ?thesis
      using answered(1,2) live pub es same out
      by (intro exI [of _ tx2] exI [of _ tx3]) (simp add: begin_txn_def)
  qed
qed blast

definition says_saved :: "QueryError \<Rightarrow> bool" where
  "says_saved q =
     (case q of
        HandlerError op (Saved_but_follow_up_failed fs p) a b c d e \<Rightarrow> True
      | HandlerError op (Saved_but_not_published m) a b c d e \<Rightarrow> True
      | _ \<Rightarrow> False)"

lemma says_saved_saved_error [simp]:
  "says_saved (saved_error name (follow_up_failed fs p))"
  "says_saved (saved_error name (Saved_but_not_published m))"
  by (simp_all add: says_saved_def saved_error_def follow_up_failed_def)

lemma follow_up_outcome:
  assumes "follow_up env name ctx r es w = (out, w')"
  shows "(\<exists>q. out = Inr (Inl q) \<and> says_saved q)
    \<or> (out = Inr (or_answer r)
       \<and> (es = [] \<and> \<not> or_publish r \<and> \<not> is_ok (or_answer r) \<longrightarrow> w' = w))"
proof -
  obtain fs w1 where s: "settlePostCommit env name ctx es w = (fs, w1)" by fastforce
  obtain pf w2 where p: "(if or_publish r then publishAfterCommit env w1 else (None, w1)) = (pf, w2)"
    by fastforce
  have none: "w1 = w" if "es = []" using s that by (simp add: settlePostCommit_def)
  show ?thesis
    using assms [unfolded follow_up_def s prod.case p] p none by (auto simp: Let_def split: if_splits option.splits)
qed

text \<open>C18. An error answer about a changed world says so: when an operation changed a
  database, delivered a notification, ran an effect, published or told a listener, and its
  answer is not ok, then the answer says that the change is saved, or it is the error the
  handler itself returned on a transaction that committed.\<close>

theorem error_answer_about_a_changed_world:
  assumes "runTransactional env name db handler ctx input w = (out, w')"
    and "\<And>v. out \<noteq> Inr (Inr v)" and "without_memory w' \<noteq> without_memory w"
  shows "\<exists>q. out = Inr (Inl q) \<and>
    (says_saved q \<or> (\<exists>tx0 tx. handler ctx input tx0 = (Inr (Inl q), tx) \<and> \<not> tx_aborted tx))"
  using assms(1)
proof (cases rule: runTransactional_cases)
  case (followed r txc)
  from followed(1) show ?thesis
  proof (cases rule: operation_body_returned)
    case (hidden b)
    have "out = Inr (or_answer r) \<and> w' = committed_world db txc w \<or> (\<exists>q. out = Inr (Inl q) \<and> says_saved q)"
      using follow_up_outcome [OF followed(3)] hidden by (auto simp: effects_of_def is_ok_def)
    moreover have "without_memory (committed_world db txc w) = without_memory w"
      using hidden by (simp add: without_memory_def committed_world_def begin_txn_def)
    ultimately show ?thesis using assms(3) by auto
  next
    case (answered tx2 o3 tx3)
    show ?thesis
    proof (cases o3)
      case (Inl q)
      then have r: "r = \<lparr>or_answer = Inl q, or_handlerError = Some q, or_publish = False\<rparr>" "txc = tx3"
        using answered(4) by (simp_all add: after_handler_error)
      have "\<not> tx_aborted tx3" using followed(2) r by (auto simp: commit_error_def)
      then show ?thesis using follow_up_outcome [OF followed(3)] answered(1) Inl r by auto
    next
      case (Inr v)
      then have "or_answer r = Inr v" using after_handler_ok answered(4) by blast
      then show ?thesis using follow_up_outcome [OF followed(3)] assms(2) by auto
    qed
  qed
qed (use assms(3) in simp)

section \<open>The branch gate\<close>

definition branch_answer :: "'db adapter \<Rightarrow> ExecutionContext \<Rightarrow> 'db \<Rightarrow> string \<Rightarrow> bool \<Rightarrow> bool" where
  "branch_answer env ctx database b v =
     (\<forall>s. s_actor_id s = actorId ctx \<and> s_actor_kind s = actorKind ctx
        \<and> s_chat_task_id s = or_empty (chatTaskId ctx)
        \<longrightarrow> caelo_branch_visible env database s b = Inr v)"

text \<open>The branches hidden from a caller in a world: as the request knows them, else as the
  database answers now.\<close>

definition hidden_branch :: "'db adapter \<Rightarrow> ExecutionContext \<Rightarrow> 'db world \<Rightarrow> string \<Rightarrow> bool" where
  "hidden_branch env ctx w =
     hidden_by (\<lambda>b. branch_answer env ctx (databases w Admin_pool) b False)
       (fresh_verdict (clock env) ctx (request_scope w))"

text \<open>The database answers every well-formed branch the request does not know.\<close>

definition branches_answered :: "'db adapter \<Rightarrow> ExecutionContext \<Rightarrow> 'db world \<Rightarrow> string list \<Rightarrow> bool" where
  "branches_answered env ctx w bs =
     (\<forall>b \<in> set bs. UUID_RE b \<longrightarrow> fresh_verdict (clock env) ctx (request_scope w) b = None
        \<longrightarrow> (\<exists>v. branch_answer env ctx (databases w Admin_pool) b v))"

text \<open>A call leaves what the caller may see and everything but the request's memory alone.\<close>

definition only_remembers :: "'db adapter \<Rightarrow> ExecutionContext \<Rightarrow> 'db world \<Rightarrow> 'db world \<Rightarrow> bool" where
  "only_remembers env ctx w w' =
     (without_memory w' = without_memory w \<and> (\<forall>b. hidden_branch env ctx w' b = hidden_branch env ctx w b))"

lemma branch_answer_unique:
  assumes "branch_answer env ctx database b v"
  shows "branch_answer env ctx database b False \<longleftrightarrow> \<not> v"
proof
  let ?s = "no_session\<lparr>s_actor_id := actorId ctx, s_actor_kind := actorKind ctx,
    s_chat_task_id := or_empty (chatTaskId ctx)\<rparr>"
  assume "branch_answer env ctx database b False"
  then have "caelo_branch_visible env database ?s b = Inr False" by (simp add: branch_answer_def)
  moreover have "caelo_branch_visible env database ?s b = Inr v" using assms by (simp add: branch_answer_def)
  ultimately show "\<not> v" by simp
qed (use assms in simp)

lemma branch_gate_finds:
  assumes answers: "branches_answered env ctx w bs"
    and tx: "tx_db tx = databases w Admin_pool" "tx_scope tx = request_scope w"
    and session: "s_actor_id (tx_session tx) = actorId ctx" "s_actor_kind (tx_session tx) = actorKind ctx"
      "s_chat_task_id (tx_session tx) = or_empty (chatTaskId ctx)"
  shows "\<exists>scope. branch_gate env ctx bs tx = (Inr (find (hidden_branch env ctx w) bs), tx\<lparr>tx_scope := scope\<rparr>)
    \<and> only_remembers env ctx w (w\<lparr>request_scope := scope\<rparr>)"
proof -
  let ?invisible = "\<lambda>b. branch_answer env ctx (databases w Admin_pool) b False"
  let ?known = "fresh_verdict (clock env) ctx (request_scope w)"
  have "caelo_branch_visible env (tx_db tx) (tx_session tx) b = Inr (\<not> ?invisible b)"
    if asked: "b \<in> set bs" "UUID_RE b" "?known b = None" for b
  proof -
    obtain v where v: "branch_answer env ctx (databases w Admin_pool) b v"
      using answers asked unfolding branches_answered_def by blast
    then have "caelo_branch_visible env (tx_db tx) (tx_session tx) b = Inr v"
      using session tx by (simp add: branch_answer_def)
    then show ?thesis using branch_answer_unique [OF v] by simp
  qed
  then obtain scope where "firstInvisibleBranch (clock env) (caelo_branch_visible env (tx_db tx) (tx_session tx))
      ctx bs (request_scope w) = (Inr (find (hidden_by ?invisible ?known) bs), scope)"
    "hidden_by ?invisible (fresh_verdict (clock env) ctx scope) = hidden_by ?invisible ?known"
    using firstInvisibleBranch_finds [of bs "clock env" ctx "request_scope w"
        "caelo_branch_visible env (tx_db tx) (tx_session tx)" ?invisible] by blast
  then show ?thesis
    using tx by (intro exI [of _ scope])
      (simp add: branch_gate_def hidden_branch_def only_remembers_def without_memory_def)
qed

lemma branch_transaction:
  assumes "setIdentity ctx opName ((begin_txn (databases w Admin_pool) name (request_scope w))\<lparr>tx_pending := es\<rparr>) = Inr tx"
  shows "tx_db tx = databases w Admin_pool" "tx_scope tx = request_scope w" "tx_aborted tx = False"
    "tx_holder tx = name" "tx_notices tx = []" "tx_pending tx = es"
    "s_actor_id (tx_session tx) = actorId ctx" "s_actor_kind (tx_session tx) = actorKind ctx"
    "s_chat_task_id (tx_session tx) = or_empty (chatTaskId ctx)"
  using assms by (auto simp: setIdentity_def statement_def begin_txn_def)

lemma gate_before_finds:
  assumes answers: "branches_answered env ctx w bs"
    and up: "hasAdminDatabase env" "reserving env Admin_pool name = Reserved"
      "committing env Admin_pool name (databases w Admin_pool) = None"
  shows "\<exists>x w'. gate_before env name ctx bs w = (Inr x, w') \<and> only_remembers env ctx w w'
    \<and> (x = find (hidden_branch env ctx w) bs
       \<or> (\<exists>h. find (hidden_branch env ctx w) bs = Some h
            \<and> fresh_verdict (clock env) ctx (request_scope w) h = Some False
            \<and> x \<noteq> None \<and> x = firstMalformedBranch bs))"
proof (cases "bs = []")
  case False
  obtain r scope where m: "rememberedFirstInvisible (clock env) ctx bs (request_scope w) = (r, scope)" by fastforce
  note memory = rememberedFirstInvisible_finds [OF m, of "\<lambda>b. branch_answer env ctx (databases w Admin_pool) b False",
      folded hidden_branch_def]
  let ?w = "w\<lparr>request_scope := scope\<rparr>"
  have same: "hidden_branch env ctx ?w = hidden_branch env ctx w" using memory by (simp add: hidden_branch_def)
  then have only: "only_remembers env ctx w ?w" by (simp add: only_remembers_def without_memory_def)
  show ?thesis
  proof (cases r)
    case (Some x)
    then show ?thesis using False m memory only by (simp add: gate_before_def)
  next
    case None
    let ?tx = "begin_txn (databases ?w Admin_pool) name (request_scope ?w)"
    obtain tx1 where i: "setIdentity ctx None ?tx = Inr tx1"
      by (simp add: setIdentity_def statement_def begin_txn_def)
    then have i': "setIdentity ctx None (?tx\<lparr>tx_pending := None\<rparr>) = Inr tx1" by (simp add: begin_txn_def)
    note tx1 = branch_transaction [OF i']
    have "branches_answered env ctx ?w bs" using answers memory by (simp add: branches_answered_def)
    from branch_gate_finds [OF this tx1(1,2,7-9)] obtain scope2 where
      g: "branch_gate env ctx bs tx1 = (Inr (find (hidden_branch env ctx ?w) bs), tx1\<lparr>tx_scope := scope2\<rparr>)"
        "only_remembers env ctx ?w (?w\<lparr>request_scope := scope2\<rparr>)"
      by blast
    have "shortRead env ctx name (branch_gate env ctx bs) ?w =
        (Inr (find (hidden_branch env ctx w) bs), w\<lparr>request_scope := scope2\<rparr>)"
      using up i tx1 g(1) same
      by (simp add: shortRead_def transaction_def ended_result_def commit_error_def committed_world_def fun_upd_idem)
    moreover have "only_remembers env ctx w (w\<lparr>request_scope := scope2\<rparr>)"
      using g(2) same by (simp add: only_remembers_def without_memory_def)
    ultimately show ?thesis using False None m by (simp add: gate_before_def)
  qed
qed (simp add: gate_before_def only_remembers_def)

lemma runTransactional_hidden:
  assumes answers: "branches_answered env ctx w (namedBranches ctx input)"
    and up: "hasAdminDatabase env" "reserving env Admin_pool name = Reserved"
      "committing env Admin_pool name (databases w Admin_pool) = None"
    and b: "find (hidden_branch env ctx w) (namedBranches ctx input) = Some b"
  shows "\<exists>w'. runTransactional env name Admin_pool handler ctx input w = (Inr (Inl (branchNotFound name b)), w')
    \<and> only_remembers env ctx w w'"
proof -
  let ?tx = "begin_txn (databases w Admin_pool) name (request_scope w)"
  obtain tx1 where i: "setIdentity ctx (Some name) (?tx\<lparr>tx_pending := collectPostCommitEffects\<rparr>) = Inr tx1"
    by (simp add: setIdentity_def statement_def begin_txn_def)
  note tx1 = branch_transaction [OF i]
  from branch_gate_finds [OF answers tx1(1,2,7-9)] b obtain scope where
    g: "branch_gate env ctx (namedBranches ctx input) tx1 = (Inr (Some b), tx1\<lparr>tx_scope := scope\<rparr>)"
      "only_remembers env ctx w (w\<lparr>request_scope := scope\<rparr>)"
    by auto
  have "runTransactional env name Admin_pool handler ctx input w
      = (Inr (Inl (branchNotFound name b)), w\<lparr>request_scope := scope\<rparr>)"
    using up i tx1 g(1)
    by (simp add: runTransactional_def transaction_def operation_body_def commit_error_def
        committed_world_def fun_upd_idem follow_up_def settlePostCommit_def is_ok_def collectPostCommitEffects_def)
  then show ?thesis using g(2) by blast
qed

text \<open>C28. A branch the caller may not see is answered as not found, before the handler: when
  the call names a malformed branch, one the request was told is invisible at most thirty
  seconds ago, or one it does not know and the database says is invisible, the answer names
  the first such one as not found and nothing but the request's memory changes, with the same
  branches hidden afterwards, whatever the body of the operation is - transactional, detached,
  reading or step-wise - and whatever the memory holds.  Only a detached or reading operation
  may name another branch: a malformed one, when the first one is remembered as invisible.\<close>

theorem hidden_branch_is_not_found:
  assumes "op_database op = Admin_pool" "hasAdminDatabase env" "verifyRoles env = None"
    and "reserving env Admin_pool (op_name op) = Reserved"
    and "committing env Admin_pool (op_name op) (databases w Admin_pool) = None"
    and "branches_answered env ctx w (namedBranches ctx input)"
    and b: "find (hidden_branch env ctx w) (namedBranches ctx input) = Some b"
  shows "\<exists>x w'. runOperation env op ctx input w = (Inr (Inl (branchNotFound (op_name op) x)), w')
    \<and> only_remembers env ctx w w'
    \<and> (x = b \<or> (firstMalformedBranch (namedBranches ctx input) = Some x
                \<and> fresh_verdict (clock env) ctx (request_scope w) b = Some False
                \<and> (\<exists>h. op_body op = Detached h \<or> op_body op = Reads h)))"
proof -
  note before = gate_before_finds [OF assms(6,2,4,5)] and within = runTransactional_hidden [OF assms(6,2,4,5) b]
  obtain x w' where gate: "gate_before env (op_name op) ctx (namedBranches ctx input) w = (Inr (Some x), w')"
      "only_remembers env ctx w w'"
      "x = b \<or> (firstMalformedBranch (namedBranches ctx input) = Some x
         \<and> fresh_verdict (clock env) ctx (request_scope w) b = Some False)"
    using before b by auto
  show ?thesis
  proof (cases "op_body op")
    case (Transactional handler)
    then show ?thesis using assms(1-3) within by (fastforce simp: runOperation_def)
  next
    case (Stepwise body)
    then show ?thesis using assms(1-3) within by (fastforce simp: runOperation_def)
  next
    case (Detached handler)
    then show ?thesis using assms(1-3) gate by (auto simp: runOperation_def runDetached_def gated_steps_def)
  next
    case (Reads handler)
    then show ?thesis using assms(1-3) gate by (auto simp: runOperation_def runReadOperation_def gated_steps_def)
  qed
qed

section \<open>Joined calls\<close>

lemma setIdentity_fixed:
  "(setIdentity ctx opName tx = Inr tx') \<longleftrightarrow>
     \<not> tx_aborted tx \<and>
     tx' = tx\<lparr>tx_session :=
             \<lparr>s_actor_id = actorId ctx, s_actor_kind = actorKind ctx,
              s_plugin_id = or_empty (pluginId ctx),
              s_chat_branch_id = or_empty (chatBranchId ctx),
              s_chat_task_id = or_empty (chatTaskId ctx), s_op_name = or_empty opName,
              s_application_name = transactionTag (tx_holder tx)\<rparr>,
           tx_identity := Some (ctx, opName)\<rparr>"
  by (auto simp: setIdentity_def statement_def result_simps)

lemma setIdentity_idempotent:
  "setIdentity ctx opName tx = Inr tx' \<Longrightarrow> setIdentity ctx opName tx' = Inr tx'"
  by (auto simp: setIdentity_fixed)

lemma setIdentity_remembered:
  assumes "setIdentity ctx opName tx = Inr tx"
  shows "tx_identity tx = Some (ctx, opName)"
proof -
  have "tx_identity tx = tx_identity (tx\<lparr>tx_session :=
             \<lparr>s_actor_id = actorId ctx, s_actor_kind = actorKind ctx,
              s_plugin_id = or_empty (pluginId ctx),
              s_chat_branch_id = or_empty (chatBranchId ctx),
              s_chat_task_id = or_empty (chatTaskId ctx), s_op_name = or_empty opName,
              s_application_name = transactionTag (tx_holder tx)\<rparr>,
           tx_identity := Some (ctx, opName)\<rparr>)"
    using assms unfolding setIdentity_fixed by metis
  then show ?thesis by simp
qed

lemma setIdentity_scope:
  "setIdentity ctx opName tx = Inr tx \<Longrightarrow> setIdentity ctx opName (tx\<lparr>tx_scope := sc\<rparr>) = Inr (tx\<lparr>tx_scope := sc\<rparr>)"
  by (cases tx) (simp add: setIdentity_fixed)

lemma joinHeld_holder_kept:
  assumes "collects tx" "setIdentity ctx0 op0 tx = Inr tx" "joinHeld holder body tx = (r, tx')"
  shows "setIdentity ctx0 op0 tx' = Inr tx' \<and> tx_holder tx' = tx_holder tx
    \<and> (\<exists>es. tx_pending tx' = Some (effects_of tx @ es))"
  using assms(1)
proof (cases rule: joinHeld_cases [where holder = holder and body = body, case_names aborted threw released])
  case (threw e sp)
  then show ?thesis
    using assms by (auto simp: rolled_back_to_def setIdentity_scope collects_def effects_of_def)
next
  case (released r' sp p tx2)
  have "setIdentity ctx0 op0 ((released_into tx sp)\<lparr>tx_pending :=
          Some (p @ (case tx_pending sp of None \<Rightarrow> [] | Some es \<Rightarrow> es))\<rparr>) = Inr tx2"
    using released(4) setIdentity_remembered [OF assms(2)]
    by (simp add: restore_identity_def released_into_def)
  with released(3,5) assms(3) show ?thesis
    by (auto simp: setIdentity_idempotent effects_of_def)
       (auto simp: setIdentity_fixed released_into_def)
qed (use assms in \<open>auto simp: collects_def effects_of_def\<close>)

text \<open>C33. A joined call leaves the holder its own: run inside the transaction its chain holds,
  an operation leaves it under the holder's identity and name, with the holder's deferred
  effects first and its own behind them; and when the call does not go through, the
  transaction is exactly as it was, up to the request's memory of branch verdicts.\<close>

theorem joined_call_leaves_the_holder_its_own:
  assumes "collects tx" "setIdentity ctx0 op0 tx = Inr tx"
    and "runJoined env c name db handler ctx input tx = (out, tx')"
  shows "setIdentity ctx0 op0 tx' = Inr tx' \<and> tx_holder tx' = tx_holder tx
    \<and> (\<exists>es. tx_pending tx' = Some (effects_of tx @ es))
    \<and> (assertMayCheckout c db name \<noteq> None
        \<or> \<not> is_released (fst (joinHeld name (operation_body env name db handler ctx input True) tx))
       \<longrightarrow> tx_without_memory tx' = tx_without_memory tx)"
proof (cases "assertMayCheckout c db name")
  case None
  let ?body = "operation_body env name db handler ctx input True"
  obtain r tx1 where j: "joinHeld name ?body tx = (r, tx1)" by fastforce
  have tx': "tx' = tx1" using assms(3) None j by (cases r) (simp_all add: runJoined_def)
  show ?thesis
    using joinHeld_holder_kept [OF assms(1,2) j] tx' None
      joined.discarded [OF assms(1), of "(name, ?body)"] j by auto
next
  case (Some e)
  then show ?thesis using assms by (auto simp: runJoined_def collects_def effects_of_def)
qed

section \<open>Errors of the handler\<close>

lemma transaction_keeps:
  assumes "transaction env pool holder body w = (e, w')"
  shows "publishes w' = publishes w \<and> heard w' = heard w \<and> effects_run w' = effects_run w
    \<and> listening w' = listening w"
  using assms
  by (auto simp: transaction_def committed_world_def
      split: if_splits reservation.splits prod.splits sum.splits option.splits)

lemma audit_failure_keeps:
  "publishes (audit_failure env name ctx f w) = publishes w \<and> heard (audit_failure env name ctx f w) = heard w
   \<and> listening (audit_failure env name ctx f w) = listening w"
  by (cases "transaction env Admin_pool (name @ ''.post_commit'') (audit_failure_body env name ctx f) w")
     (auto simp: audit_failure_def dest: transaction_keeps)

lemma settlePostCommit_keeps:
  assumes "settlePostCommit env name ctx es w = (fs, w')"
  shows "publishes w' = publishes w \<and> heard w' = heard w"
proof -
  have "publishes (fold (audit_failure env name ctx) fs v) = publishes v
      \<and> heard (fold (audit_failure env name ctx) fs v) = heard v" for v fs
    by (induction fs arbitrary: v) (simp_all add: audit_failure_keeps)
  then show ?thesis using assms by (auto simp: settlePostCommit_def split: if_splits)
qed

text \<open>An operation whose handler answers with an error never publishes: whatever the
  transaction it commits changed, the publisher is not called and no listener hears it.\<close>

theorem own_error_is_not_published:
  assumes "\<And>tx0. \<exists>q tx. handler ctx input tx0 = (Inr (Inl q), tx)"
    and "runTransactional env name db handler ctx input w = (out, w')"
  shows "publishes w' = publishes w \<and> heard w' = heard w"
proof -
  obtain e w1 where t: "transaction env db name (operation_body env name db handler ctx input False) w = (e, w1)"
    by fastforce
  note kept = transaction_keeps [OF t]
  show ?thesis
  proof (cases e)
    case (Committed r es)
    from transaction_Committed [OF t [unfolded Committed]] obtain tx where
      "operation_body env name db handler ctx input False
         (begin_txn (databases w db) name (request_scope w)) = (Inr r, tx)" by blast
    then have r: "\<not> or_publish r" "\<not> is_ok (or_answer r)"
    proof (atomize (full), cases rule: operation_body_returned)
      case (answered tx2 o3 tx3)
      from assms(1) [of tx2] answered(1) obtain q where "o3 = Inl q" by auto
      with answered(4) show "\<not> or_publish r \<and> \<not> is_ok (or_answer r)"
        by (auto simp: after_handler_error is_ok_def)
    qed (simp add: is_ok_def)
    obtain fs w2 where s: "settlePostCommit env name ctx es w1 = (fs, w2)" by fastforce
    have "w' = w2"
      using assms(2) t Committed s r by (auto simp: runTransactional_def follow_up_def Let_def split: if_splits)
    with settlePostCommit_keeps [OF s] kept show ?thesis by simp
  qed (use assms(2) t kept in \<open>simp_all add: runTransactional_def\<close>)
qed

section \<open>A concrete adapter\<close>

definition demo_env :: "nat adapter" where
  "demo_env = \<lparr>hasAdminDatabase = True, verifyRoles = None, clock = 1000,
     reserving = (\<lambda>_ _. Reserved), acquireTimeoutMs = 10000, committing = (\<lambda>_ _ _. None),
     caelo_branch_visible = (\<lambda>_ _ b. Inr (b = editor_branch)),
     insert_audit_event = (\<lambda>_ n. Inr (n + 100)),
     projectionPublisher = Some (\<lambda>dbs. (None, dbs(Public_pool := dbs Admin_pool))),
     commitNotice = Some (\<lambda>name. Some \<lparr>cn_channel = ''caelo_live_topics'', cn_payload = name\<rparr>)\<rparr>"

definition demo_world :: "nat world" where
  "demo_world = \<lparr>databases = (\<lambda>_. 0), delivered = [], effects_run = [],
     listening = [\<lparr>l_name = ''live'', l_throws_on = []\<rparr>], heard = [], publishes = 0,
     request_scope = None\<rparr>"

definition stop_plugin :: "string option \<Rightarrow> PostCommitEffect" where
  "stop_plugin throws = \<lparr>pe_label = ''stop plugin'', pe_entityId = None, pe_throws = throws\<rparr>"

definition demo_handler :: "string option \<Rightarrow> answer \<Rightarrow> nat handler" where
  "demo_handler throws out ctx input tx =
     (case afterCommit (stop_plugin throws) (tx_pending tx) of
        Inl e \<Rightarrow> (Inl e, tx)
      | Inr p \<Rightarrow> (Inr out, tx\<lparr>tx_db := tx_db tx + 1, tx_dirty := True, tx_pending := p\<rparr>))"

definition refused :: answer where
  "refused = Inl (saved_error ''plugins.revoke'' (Raw ''already revoked''))"

lemma demo_env_fields [simp]:
  "hasAdminDatabase demo_env" "verifyRoles demo_env = None" "reserving demo_env pool h = Reserved"
  "committing demo_env pool h d = None" "commitNotice demo_env =
     Some (\<lambda>name. Some \<lparr>cn_channel = ''caelo_live_topics'', cn_payload = name\<rparr>)"
  "projectionPublisher demo_env = Some (\<lambda>dbs. (None, dbs(Public_pool := dbs Admin_pool)))"
  by (simp_all add: demo_env_def)

lemma demo_world_fields [simp]:
  "listening demo_world = [\<lparr>l_name = ''live'', l_throws_on = []\<rparr>]" "heard demo_world = []"
  by (simp_all add: demo_world_def)

lemma demo_gate:
  assumes "tx_scope tx = None"
  shows "branch_gate demo_env editor (namedBranches editor JNull) tx = (Inr None, tx)"
proof -
  have u: "UUID_RE editor_branch" by code_simp
  have "namedBranches editor JNull = [editor_branch]" by code_simp
  then show ?thesis
    using assms u by (simp add: branch_gate_def demo_env_def rememberedVerdict_def rememberVerdict_def)
qed

lemma demo_transaction:
  "transaction demo_env Admin_pool ''plugins.revoke''
     (operation_body demo_env ''plugins.revoke'' Admin_pool (demo_handler throws out) editor JNull False)
     demo_world
   = (Committed \<lparr>or_answer = out, or_handlerError = (case out of Inl q \<Rightarrow> Some q | Inr v \<Rightarrow> None),
                  or_publish = is_ok out\<rparr> [stop_plugin throws],
      demo_world\<lparr>databases := (\<lambda>_. 0)(Admin_pool := 1),
        delivered := (if is_ok out then [\<lparr>cn_channel = ''caelo_live_topics'', cn_payload = ''plugins.revoke''\<rparr>]
                      else [])\<rparr>)"
  by (cases out)
     (simp_all add: transaction_def operation_body_def Let_def begin_txn_def setIdentity_def statement_def
      require_def demo_gate demo_handler_def afterCommit_def collectPostCommitEffects_def demo_world_def
      exemptFromSessionTimeouts_def LONG_TRANSACTIONS_def after_handler_def projectionDirty_def
      pg_notify_def commitNoticeOf_def commit_error_def committed_world_def is_ok_def)

lemma ok_answer_means_all_done_witness:
  "let w' = snd (runTransactional demo_env ''plugins.revoke'' Admin_pool
        (demo_handler None (Inr JNull)) editor JNull demo_world)
   in databases w' Public_pool = 1 \<and> heard w' = [(''live'', ''plugins.revoke'')]"
proof -
  obtain out w' where r: "runTransactional demo_env ''plugins.revoke'' Admin_pool
        (demo_handler None (Inr JNull)) editor JNull demo_world = (out, w')" by fastforce
  then have "out = Inr (Inr JNull)"
    by (auto simp: runTransactional_def demo_transaction follow_up_def settlePostCommit_def is_ok_def
        failure_of_def List.map_filter_simps stop_plugin_def publishAfterCommit_def)
  with r have r': "runTransactional demo_env ''plugins.revoke'' Admin_pool
        (demo_handler None (Inr JNull)) editor JNull demo_world = (Inr (Inr JNull), w')" by simp
  from ok_answer_means_all_done [OF r'] obtain tx0 tx where
    h: "demo_handler None (Inr JNull) editor JNull tx0 = (Inr (Inr JNull), tx)" "tx_db tx0 = 0"
    and p: "published demo_env (publish_due demo_env Admin_pool tx)
        ((databases demo_world)(Admin_pool := tx_db tx)) (databases w')"
    and heard: "heard w' = [(''live'', ''plugins.revoke'')]"
    by (auto simp: demo_world_def)
  from h have "tx_db tx = 1" "tx_dirty tx"
    by (auto simp: demo_handler_def split: sum.splits)
  with p have d: "databases w' = (databases demo_world)(Admin_pool := 1, Public_pool := 1)"
    by (simp add: published_def publish_due_def)
  show ?thesis using r heard by (simp add: d)
qed

lemma error_answer_about_a_changed_world_witness:
  "\<exists>q. fst (runTransactional demo_env ''plugins.revoke'' Admin_pool
        (demo_handler (Some ''host down'') (Inr JNull)) editor JNull demo_world) = Inr (Inl q) \<and> says_saved q"
proof -
  obtain out w' where r: "runTransactional demo_env ''plugins.revoke'' Admin_pool
        (demo_handler (Some ''host down'') (Inr JNull)) editor JNull demo_world = (out, w')" by fastforce
  have out: "out \<noteq> Inr (Inr v)" "heard w' = [(''live'', ''plugins.revoke'')]" for v
    using r by (auto simp: runTransactional_def demo_transaction follow_up_def settlePostCommit_def
        is_ok_def Let_def failure_of_def List.map_filter_simps stop_plugin_def publishAfterCommit_def
        notify_committed_def audit_failure_keeps notifyOperationCommitted_heard split: prod.splits)
  then have "heard w' \<noteq> heard demo_world" by simp
  then have "without_memory w' \<noteq> without_memory demo_world"
    by (auto simp: without_memory_def dest: arg_cong [where f = heard])
  note changed = error_answer_about_a_changed_world [OF r out(1) this]
  have "demo_handler (Some ''host down'') (Inr JNull) editor JNull tx0 \<noteq> (Inr (Inl q), tx)" for tx0 q tx
    by (cases "afterCommit (stop_plugin (Some ''host down'')) (tx_pending tx0)")
      (simp_all add: demo_handler_def)
  with changed r show ?thesis by auto
qed

definition other_branch :: string where
  "other_branch = ''0e9a4b12-0000-4000-8000-000000000009''"

text \<open>A request that knows the editor's branch as visible names another one; and one that was
  told the editor's branch is not visible is refused it without asking.\<close>

definition knowing_world :: "bool \<Rightarrow> nat world" where
  "knowing_world v = demo_world\<lparr>request_scope := Some [(verdictKey editor editor_branch, \<lparr>v_visible = v, v_at = 900\<rparr>)]\<rparr>"

lemma hidden_branch_is_not_found_witness:
  "(\<forall>body. \<exists>w'. runOperation demo_env
      \<lparr>op_name = ''pages.get'', op_database = Admin_pool, op_actorScope = [''human''], op_input = Inr,
       op_body = body\<rparr> editor (JObject [(''chatBranchId'', JString other_branch)]) (knowing_world True)
    = (Inr (Inl (branchNotFound ''pages.get'' other_branch)), w')
      \<and> only_remembers demo_env editor (knowing_world True) w')
   \<and> (\<forall>body. \<exists>w'. runOperation demo_env
      \<lparr>op_name = ''pages.get'', op_database = Admin_pool, op_actorScope = [''human''], op_input = Inr,
       op_body = body\<rparr> editor JNull (knowing_world False)
    = (Inr (Inl (branchNotFound ''pages.get'' editor_branch)), w')
      \<and> databases w' = databases (knowing_world False))"
proof (intro conjI allI)
  have wf: "UUID_RE editor_branch" "UUID_RE other_branch" "other_branch \<noteq> editor_branch" by code_simp+
  have known: "fresh_verdict (clock demo_env) editor (request_scope (knowing_world v)) b
      = (if b = editor_branch then Some v else None)" for v b
    by (simp add: fresh_verdict_def knowing_world_def demo_env_def js_get_def verdictKey_eq)
  have answer: "branch_answer demo_env editor d b v \<longleftrightarrow> v = (b = editor_branch)" for d b v
  proof -
    have "branch_answer demo_env editor d b (b = editor_branch)"
      by (simp add: branch_answer_def demo_env_def)
    then show ?thesis using branch_answer_unique [of demo_env editor d b v]
        branch_answer_unique [of demo_env editor d b "b = editor_branch"] by (cases v) auto
  qed
  have answered: "branches_answered demo_env editor (knowing_world v) bs" for v bs
    by (simp add: branches_answered_def answer)
  have db: "committing demo_env Admin_pool name (databases (knowing_world v) Admin_pool) = None" for v name
    by simp
  fix body :: "nat op_body"
  let ?op = "\<lparr>op_name = ''pages.get'', op_database = Admin_pool, op_actorScope = [''human''], op_input = Inr,
       op_body = body\<rparr>"
  let ?input = "JObject [(''chatBranchId'', JString other_branch)]"
  have names: "namedBranches editor ?input = [editor_branch, other_branch]" "namedBranches editor JNull = [editor_branch]"
    by code_simp+
  have first: "find (hidden_branch demo_env editor (knowing_world True)) (namedBranches editor ?input) = Some other_branch"
      "find (hidden_branch demo_env editor (knowing_world False)) (namedBranches editor JNull) = Some editor_branch"
    using wf by (simp_all add: names hidden_branch_def hidden_by_def known answer)
  show "\<exists>w'. runOperation demo_env ?op editor ?input (knowing_world True)
        = (Inr (Inl (branchNotFound ''pages.get'' other_branch)), w')
      \<and> only_remembers demo_env editor (knowing_world True) w'"
    using hidden_branch_is_not_found [of ?op demo_env "knowing_world True" editor ?input other_branch]
      answered first(1) wf known by auto
  show "\<exists>w'. runOperation demo_env ?op editor JNull (knowing_world False)
        = (Inr (Inl (branchNotFound ''pages.get'' editor_branch)), w')
      \<and> databases w' = databases (knowing_world False)"
    using hidden_branch_is_not_found [of ?op demo_env "knowing_world False" editor JNull editor_branch]
      answered first(2) wf names
    by (auto simp: firstMalformedBranch_def only_remembers_def without_memory_def dest: arg_cong [where f = databases])
qed

definition holder_txn :: "nat txn" where
  "holder_txn = \<lparr>tx_db = 5,
     tx_session = \<lparr>s_actor_id = ''u1'', s_actor_kind = ''human'', s_plugin_id = [],
       s_chat_branch_id = editor_branch, s_chat_task_id = [], s_op_name = ''pages.compose'',
       s_application_name = ''caelo/pages.compose''\<rparr>,
     tx_identity = Some (editor, Some ''pages.compose''), tx_holder = ''pages.compose'',
     tx_pending = Some [], tx_notices = [], tx_dirty = False, tx_aborted = False,
     tx_unlimited = False, tx_scope = None\<rparr>"

lemma joined_call_leaves_the_holder_its_own_witness:
  "let tx' = snd (runJoined demo_env (joinHeldTransaction no_chain) ''plugins.read'' Public_pool
        (demo_handler None (Inr JNull)) (editor\<lparr>pluginId := Some ''p1''\<rparr>) JNull holder_txn)
   in tx_db tx' = 6 \<and> setIdentity editor (Some ''pages.compose'') tx' = Inr tx'"
proof -
  have c: "collects holder_txn" by (simp add: collects_def holder_txn_def)
  have t: "transactionTag ''pages.compose'' = ''caelo/pages.compose''" by code_simp
  have i: "setIdentity editor (Some ''pages.compose'') holder_txn = Inr holder_txn"
    by (simp add: setIdentity_fixed holder_txn_def editor_def editor_branch_def or_empty_def t)
  obtain out tx' where r: "runJoined demo_env (joinHeldTransaction no_chain) ''plugins.read'' Public_pool
        (demo_handler None (Inr JNull)) (editor\<lparr>pluginId := Some ''p1''\<rparr>) JNull holder_txn = (out, tx')"
    by fastforce
  have "tx_db tx' = 6"
    using r by (auto simp: runJoined_def assertMayCheckout_def held_def joinHeldTransaction_def no_chain_def
        joinHeld_def operation_body_def Let_def setIdentity_def statement_def require_def holder_txn_def
        savepoint_def collectPostCommitEffects_def demo_handler_def afterCommit_def after_handler_def
        released_into_def restore_identity_def)
  with joined_call_leaves_the_holder_its_own [OF c i r] r show ?thesis by simp
qed

text \<open>The handler's own error leaves the change of published state committed and unpublished.\<close>

lemma own_error_is_not_published_witness:
  "let w' = snd (runTransactional demo_env ''plugins.revoke'' Admin_pool
        (\<lambda>ctx input tx. (Inr refused, tx\<lparr>tx_db := 1, tx_dirty := True\<rparr>)) editor JNull demo_world)
   in publishes w' = 0 \<and> heard w' = [] \<and> databases w' Admin_pool = 1"
proof -
  obtain out w' where r: "runTransactional demo_env ''plugins.revoke'' Admin_pool
        (\<lambda>ctx input tx. (Inr refused, tx\<lparr>tx_db := 1, tx_dirty := True\<rparr>)) editor JNull demo_world = (out, w')"
    by fastforce
  have "publishes w' = publishes demo_world \<and> heard w' = heard demo_world"
    using own_error_is_not_published [OF _ r] by (auto simp: refused_def)
  moreover have "databases w' Admin_pool = 1"
    using r by (auto simp: refused_def runTransactional_def transaction_def operation_body_def Let_def
        begin_txn_def setIdentity_def statement_def require_def demo_gate collectPostCommitEffects_def
        demo_world_def exemptFromSessionTimeouts_def LONG_TRANSACTIONS_def after_handler_def
        commit_error_def committed_world_def is_ok_def follow_up_def settlePostCommit_def)
  ultimately show ?thesis using r by (simp add: demo_world_def)
qed

end
