(* ===== verification/Execute.thy ===== *)
theory Execute
  imports Operations
begin

text \<open>
  The entry point of the Query API (packages/query-api/src/execute.ts) and its registry
  (registry.ts): every call is looked up, checked and validated before the adapter runs it;
  a step-wise operation runs other operations through the same entry.  Nested step-wise
  calls are bounded by a fuel argument; the last section shows when it suffices.
\<close>

section \<open>The registry\<close>

type_synonym 'db registry = "(string \<times> 'db operation) list"

definition register :: "'db operation \<Rightarrow> 'db registry \<Rightarrow> (thrown, 'db registry) result" where
  "register op registry =
     require (js_get registry (op_name op) = None)
       (plain_error (''operation '' @ op_name op @ '' is already registered''))
       (Inr (js_set (op_name op) op registry))"

definition lookup :: "'db registry \<Rightarrow> string \<Rightarrow> (QueryError, 'db operation) result" where
  "lookup registry name =
     (case js_get registry name of None \<Rightarrow> Inl (UnknownOperation name) | Some op \<Rightarrow> Inr op)"

definition has_operation :: "'db registry \<Rightarrow> string \<Rightarrow> bool" where
  "has_operation registry name = (js_get registry name \<noteq> None)"

definition names :: "'db registry \<Rightarrow> string list" where
  "names registry = map fst registry"

section \<open>The entry point\<close>

text \<open>A limiter answers none to let the call through, an error to refuse it, or throws.\<close>

type_synonym RateLimiter = "ExecutionContext \<Rightarrow> string \<Rightarrow> (thrown, QueryError option) result"

definition allowAllRateLimiter :: RateLimiter where
  "allowAllRateLimiter ctx operation = Inr None"

definition check_call ::
  "'db registry \<Rightarrow> RateLimiter \<Rightarrow> ExecutionContext \<Rightarrow> string \<Rightarrow> json
   \<Rightarrow> (outcome, 'db operation \<times> json) result" where
  "check_call registry limiter ctx name rawInput =
     (case lookup registry name of
        Inl q \<Rightarrow> Inl (Inr (Inl q))
      | Inr op \<Rightarrow>
          if actorKind ctx \<notin> set (op_actorScope op)
          then Inl (Inr (Inl (ActorScopeRejected name (actorKind ctx))))
          else (case limiter ctx name of
                  Inl e \<Rightarrow> Inl (Inl e)
                | Inr (Some q) \<Rightarrow> Inl (Inr (Inl q))
                | Inr None \<Rightarrow>
                    (case firstMalformedBranch (namedBranches ctx rawInput) of
                       Some b \<Rightarrow> Inl (Inr (Inl (branchNotFound name b)))
                     | None \<Rightarrow>
                         (case op_input op rawInput of
                            Inl issues \<Rightarrow> Inl (Inr (Inl (ValidationFailed issues)))
                          | Inr input \<Rightarrow> Inr (op, input)))))"

primrec run_op_steps ::
  "(ExecutionContext \<Rightarrow> string \<Rightarrow> json \<Rightarrow> 'w \<Rightarrow> (outcome \<times> 'w) option) \<Rightarrow> op_steps \<Rightarrow> 'w
   \<Rightarrow> (outcome \<times> 'w) option" where
  "run_op_steps exec (Stop out) w = Some (out, w)"
| "run_op_steps exec (Run_op ctx name input k) w =
     (case exec ctx name input w of
        None \<Rightarrow> None
      | Some (out, w1) \<Rightarrow> run_op_steps exec (k out) w1)"

text \<open>After a step-wise operation that answered ok: its name to the listeners, its notice to
  other instances; a notice that fails is logged.\<close>

definition stepwise_done :: "'db adapter \<Rightarrow> string \<Rightarrow> outcome \<Rightarrow> 'db world \<Rightarrow> 'db world" where
  "stepwise_done env name out w =
     (case out of
        Inr (Inr v) \<Rightarrow>
          (let w1 = notify_committed name w
           in case commitNoticeOf (commitNotice env) name of
                None \<Rightarrow> w1
              | Some notice \<Rightarrow> snd (notify env notice w1))
      | _ \<Rightarrow> w)"

primrec execute ::
  "nat \<Rightarrow> 'db adapter \<Rightarrow> 'db registry \<Rightarrow> RateLimiter \<Rightarrow> ExecutionContext \<Rightarrow> string \<Rightarrow> json
   \<Rightarrow> 'db world \<Rightarrow> (outcome \<times> 'db world) option" where
  "execute 0 env registry limiter ctx name rawInput w = None"
| "execute (Suc fuel) env registry limiter ctx name rawInput w =
     (case check_call registry limiter ctx name rawInput of
        Inl out \<Rightarrow> Some (out, w)
      | Inr (op, input) \<Rightarrow>
          (case op_body op of
             Stepwise steps \<Rightarrow>
               (case run_op_steps
                       (\<lambda>ctx' name' input'. execute fuel env registry allowAllRateLimiter ctx' name' input')
                       (steps ctx input) w of
                  None \<Rightarrow> None
                | Some (out, w1) \<Rightarrow> Some (out, stepwise_done env (op_name op) out w1))
           | _ \<Rightarrow> Some (runOperation env op ctx input w)))"

section \<open>Lemmas\<close>

lemma check_call_passed:
  "(check_call registry limiter ctx name rawInput = Inr (op, input)) =
     (js_get registry name = Some op \<and> actorKind ctx \<in> set (op_actorScope op)
      \<and> limiter ctx name = Inr None \<and> (\<forall>b \<in> set (namedBranches ctx rawInput). UUID_RE b)
      \<and> op_input op rawInput = Inr input)"
  by (auto simp: check_call_def lookup_def firstMalformedBranch_def find_None_iff find_Some_iff
      split: option.splits sum.splits if_splits)

definition registry_ok :: "'db registry \<Rightarrow> bool" where
  "registry_ok registry = (\<forall>name op. js_get registry name = Some op \<longrightarrow> op_name op = name)"

lemma register_ok:
  assumes "register op registry = Inr registry'" "registry_ok registry"
  shows "registry_ok registry' \<and> lookup registry' (op_name op) = Inr op"
  using assms
  by (auto simp: register_def result_simps registry_ok_def lookup_def js_map_simps split: if_splits)

lemma register_keeps:
  assumes "register op registry = Inr registry'" "lookup registry name = Inr op'"
  shows "lookup registry' name = Inr op'"
  using assms
  by (auto simp: register_def result_simps lookup_def js_map_simps split: option.splits if_splits)

section \<open>Properties\<close>

text \<open>Nothing runs before every check passed: when a call through the entry point changed
  anything or did not answer with a plain refusal, its operation is registered, the actor is
  in its scope, the limiter let it through, every branch it names is well formed, and the
  operation ran on the input its schema produced.\<close>

theorem execute_checks_first:
  assumes "execute fuel env registry limiter ctx name rawInput w = Some (out, w')"
    and "w' \<noteq> w \<or> (\<exists>v. out = Inr (Inr v))"
  shows "\<exists>op input. js_get registry name = Some op \<and> actorKind ctx \<in> set (op_actorScope op)
    \<and> limiter ctx name = Inr None \<and> (\<forall>b \<in> set (namedBranches ctx rawInput). UUID_RE b)
    \<and> op_input op rawInput = Inr input
    \<and> ((\<forall>steps. op_body op \<noteq> Stepwise steps) \<longrightarrow> runOperation env op ctx input w = (out, w'))"
proof (cases fuel)
  case (Suc n)
  show ?thesis
  proof (cases "check_call registry limiter ctx name rawInput")
    case (Inl refusal)
    moreover have "refusal \<noteq> Inr (Inr v)" for v
      using Inl by (auto simp: check_call_def split: sum.splits option.splits if_splits)
    ultimately show ?thesis using assms Suc by auto
  next
    case (Inr oi)
    obtain op input where oi: "oi = (op, input)" by fastforce
    have "runOperation env op ctx input w = (out, w')" if "\<forall>steps. op_body op \<noteq> Stepwise steps"
      using assms(1) that Suc Inr oi by (cases "op_body op") auto
    with Inr oi show ?thesis by (auto simp: check_call_passed)
  qed
qed (use assms in simp)

text \<open>Step-wise operations whose steps only call operations of a lower rank return.\<close>

primrec calls_only :: "(string \<Rightarrow> bool) \<Rightarrow> op_steps \<Rightarrow> bool" where
  "calls_only P (Stop out) = True"
| "calls_only P (Run_op ctx name input k) = (P name \<and> (\<forall>out. calls_only P (k out)))"

definition ranked :: "'db registry \<Rightarrow> (string \<Rightarrow> nat) \<Rightarrow> bool" where
  "ranked registry rank =
     (\<forall>name op steps ctx input. js_get registry name = Some op \<longrightarrow> op_body op = Stepwise steps
        \<longrightarrow> calls_only (\<lambda>m. rank m < rank name) (steps ctx input))"

lemma run_op_steps_agree:
  assumes "calls_only P steps"
    and "\<And>ctx name input w. P name \<Longrightarrow> \<exists>r. f ctx name input w = Some r \<and> g ctx name input w = Some r"
  shows "\<exists>r. run_op_steps f steps w = Some r \<and> run_op_steps g steps w = Some r"
  using assms(1)
proof (induction steps arbitrary: w)
  case (Run_op ctx name input k)
  then obtain r where "f ctx name input w = Some r" "g ctx name input w = Some r"
    using assms(2) by (metis calls_only.simps(2))
  moreover obtain out w1 where "r = (out, w1)" by fastforce
  ultimately show ?case using Run_op.IH [of "k out" w1] Run_op.prems by auto
qed simp

lemma execute_agree:
  assumes "ranked registry rank" "rank name < fuel" "rank name < fuel'"
  shows "\<exists>r. execute fuel env registry limiter ctx name rawInput w = Some r
    \<and> execute fuel' env registry limiter ctx name rawInput w = Some r"
  using assms(2,3)
proof (induction "rank name" arbitrary: name limiter ctx rawInput w fuel fuel' rule: less_induct)
  case less
  obtain n n' where fuel: "fuel = Suc n" "fuel' = Suc n'" using less.prems by (metis less_iff_Suc_add add_Suc_right)
  show ?case
  proof (cases "check_call registry limiter ctx name rawInput")
    case (Inr oi)
    obtain op input where oi: "oi = (op, input)" by fastforce
    show ?thesis
    proof (cases "op_body op")
      case (Stepwise steps)
      have "calls_only (\<lambda>m. rank m < rank name) (steps ctx input)"
        using assms(1) Inr oi Stepwise by (auto simp: ranked_def check_call_passed)
      then have "\<exists>r. run_op_steps (\<lambda>c m i. execute n env registry allowAllRateLimiter c m i) (steps ctx input) w = Some r
          \<and> run_op_steps (\<lambda>c m i. execute n' env registry allowAllRateLimiter c m i) (steps ctx input) w = Some r"
        by (rule run_op_steps_agree) (use less fuel in auto)
      with Inr oi Stepwise fuel show ?thesis by auto
    qed (use Inr oi fuel in simp_all)
  qed (use fuel in simp)
qed

text \<open>A call returns: when the step-wise operations of the registry only call operations
  of a lower rank, a call has one result, reached with every fuel above the rank of its
  operation; an operation that is not step-wise needs none beyond one.\<close>

theorem execute_returns:
  assumes "ranked registry rank"
  shows "\<exists>r. \<forall>fuel > rank name. execute fuel env registry limiter ctx name rawInput w = Some r"
proof -
  obtain r where r: "execute (Suc (rank name)) env registry limiter ctx name rawInput w = Some r"
    using execute_agree [OF assms lessI lessI] by blast
  have "execute fuel env registry limiter ctx name rawInput w = Some r" if "fuel > rank name" for fuel
    using execute_agree [OF assms lessI that, of env limiter ctx rawInput w] r by auto
  then show ?thesis by blast
qed

section \<open>A concrete registry\<close>

definition revoke_op :: "nat operation" where
  "revoke_op = \<lparr>op_name = ''plugins.revoke'', op_database = Admin_pool, op_actorScope = [''human''],
     op_input = (\<lambda>i. if i = JNull then Inr i else Inl [''expected null'']),
     op_body = Transactional (demo_handler None (Inr JNull))\<rparr>"

definition revoke_all_op :: "nat operation" where
  "revoke_all_op = \<lparr>op_name = ''plugins.revoke_all'', op_database = Admin_pool, op_actorScope = [''human''],
     op_input = Inr,
     op_body = Stepwise (\<lambda>ctx input.
       Run_op ctx ''plugins.revoke'' JNull
         (\<lambda>out1. Run_op ctx ''plugins.revoke'' JNull (\<lambda>out2. Stop out2)))\<rparr>"

definition demo_registry :: "nat registry" where
  "demo_registry = [(''plugins.revoke'', revoke_op), (''plugins.revoke_all'', revoke_all_op)]"

lemma demo_lookups [simp]:
  "js_get demo_registry ''plugins.revoke'' = Some revoke_op"
  "js_get demo_registry ''plugins.revoke_all'' = Some revoke_all_op"
  by (simp_all add: demo_registry_def js_get_def)

lemma demo_revoke:
  "\<exists>w'. runTransactional demo_env ''plugins.revoke'' Admin_pool (demo_handler None (Inr JNull))
     editor JNull demo_world = (Inr (Inr JNull), w')"
  by (simp add: runTransactional_def demo_transaction follow_up_def settlePostCommit_def is_ok_def
      failure_of_def List.map_filter_simps stop_plugin_def publishAfterCommit_def)

lemma editor_branches: "firstMalformedBranch (namedBranches editor JNull) = None" "actorKind editor = ''human''"
  by code_simp+

lemma execute_checks_first_witness:
  "op_input revoke_op JNull = Inr JNull \<and> actorKind editor \<in> set (op_actorScope revoke_op)
   \<and> UUID_RE (hd (namedBranches editor JNull))"
proof -
  obtain w' where "execute 1 demo_env demo_registry allowAllRateLimiter editor ''plugins.revoke'' JNull demo_world
      = Some (Inr (Inr JNull), w')"
    using demo_revoke editor_branches
    by (auto simp: check_call_def lookup_def revoke_op_def allowAllRateLimiter_def runOperation_def)
  note checked = execute_checks_first [OF this]
  moreover have "hd (namedBranches editor JNull) \<in> set (namedBranches editor JNull)" by code_simp
  ultimately show ?thesis by (auto simp: revoke_op_def)
qed

lemma execute_returns_witness:
  "\<exists>r. \<forall>fuel > 1. execute fuel demo_env demo_registry allowAllRateLimiter editor
     ''plugins.revoke_all'' JNull demo_world = Some r"
proof -
  have "ranked demo_registry (\<lambda>n. if n = ''plugins.revoke_all'' then 1 else 0)"
    by (auto simp: ranked_def demo_registry_def js_get_def revoke_op_def revoke_all_op_def split: if_splits)
  from execute_returns [OF this, of "''plugins.revoke_all''"] show ?thesis by simp
qed

end
