(* ===== verification/Entity_Refs.thy ===== *)
theory Entity_Refs
  imports Entity_Leases Query_Errors
begin

text \<open>
  References between branch state (packages/admin-core/src/entity-refs.ts): the rows a
  snapshot state points at.  A state is a JSON value; the walks over nested values are
  mutual recursions over values, arrays and object entries, and equal to a declarative
  reading of "at any depth".
\<close>

type_synonym entity_ref = "LockedEntityKind \<times> string"

section \<open>Tables and patterns\<close>

definition BRANCH_CREATED_TABLE :: "LockedEntityKind \<Rightarrow> string option" where
  "BRANCH_CREATED_TABLE kind =
     (case kind of
        Module \<Rightarrow> Some ''modules''
      | Template \<Rightarrow> Some ''templates''
      | Page \<Rightarrow> Some ''pages''
      | ContentInstance \<Rightarrow> Some ''content_instances''
      | ListType \<Rightarrow> Some ''list_types''
      | List_kind \<Rightarrow> Some ''lists''
      | PageType \<Rightarrow> Some ''page_types''
      | _ \<Rightarrow> None)"

text \<open>Thirty-six characters of 0-9, a-f and the hyphen.\<close>

definition id_char :: "char \<Rightarrow> bool" where
  "id_char c = (is_digit c \<or> (97 \<le> (of_char c :: nat) \<and> (of_char c :: nat) \<le> 102) \<or> c = CHR ''-'')"

definition TERM_LIST_RE :: "string \<Rightarrow> string option" where
  "TERM_LIST_RE s =
     (let r = drop 11 s; i = take 36 r
      in if starts_with s ''caelo:term/'' \<and> length i = 36 \<and> list_all id_char i
            \<and> starts_with (drop 36 r) ''/''
         then Some i else None)"

definition LIST_REF_RE :: "string \<Rightarrow> string option" where
  "LIST_REF_RE s =
     (let i = drop 11 s
      in if starts_with s ''caelo:list/'' \<and> length i = 36 \<and> list_all id_char i
         then Some i else None)"

section \<open>Reading fields\<close>

text \<open>A member access; a value that is not an object has none of the members read.  States are
  written by validated writes, so a block, placement or vocabulary is an object, and the
  TypeError of a null among them is not a case here.\<close>

definition member :: "string \<Rightarrow> json \<Rightarrow> json option" where
  "member k v = (case v of JObject fs \<Rightarrow> map_of fs k | _ \<Rightarrow> None)"

definition string_member :: "string \<Rightarrow> json \<Rightarrow> string list" where
  "string_member k v = (case member k v of Some (JString s) \<Rightarrow> [s] | _ \<Rightarrow> [])"

definition array_member :: "string \<Rightarrow> json \<Rightarrow> json list" where
  "array_member k v = (case member k v of Some (JArray xs) \<Rightarrow> xs | _ \<Rightarrow> [])"

definition strings_of :: "json list \<Rightarrow> string list" where
  "strings_of vs = concat (map (\<lambda>v. case v of JString s \<Rightarrow> [s] | _ \<Rightarrow> []) vs)"

definition refs :: "LockedEntityKind \<Rightarrow> string list \<Rightarrow> entity_ref list" where
  "refs kind ids = map (Pair kind) ids"

section \<open>Walks at any depth\<close>

definition object_refs :: "json \<Rightarrow> entity_ref list" where
  "object_refs v = refs Module (string_member ''moduleId'' v)
     @ refs ContentInstance (string_member ''contentInstanceId'' v)"

fun collectNestedRefs :: "json \<Rightarrow> entity_ref list"
  and nested_in_array :: "json list \<Rightarrow> entity_ref list"
  and nested_in_object :: "(string \<times> json) list \<Rightarrow> entity_ref list" where
  "collectNestedRefs (JArray vs) = nested_in_array vs"
| "collectNestedRefs (JObject fs) = object_refs (JObject fs) @ nested_in_object fs"
| "collectNestedRefs JNull = []"
| "collectNestedRefs (JBool b) = []"
| "collectNestedRefs (JNumber n) = []"
| "collectNestedRefs (JString s) = []"
| "nested_in_array [] = []"
| "nested_in_array (v # vs) = collectNestedRefs v @ nested_in_array vs"
| "nested_in_object [] = []"
| "nested_in_object ((k, v) # fs) = collectNestedRefs v @ nested_in_object fs"

definition string_refs :: "json \<Rightarrow> entity_ref list" where
  "string_refs v =
     (case v of
        JString s \<Rightarrow> (case LIST_REF_RE s of Some i \<Rightarrow> [(List_kind, i)] | None \<Rightarrow> [])
      | _ \<Rightarrow> [])"

fun collectListRefs :: "json \<Rightarrow> entity_ref list"
  and lists_in_array :: "json list \<Rightarrow> entity_ref list"
  and lists_in_object :: "(string \<times> json) list \<Rightarrow> entity_ref list" where
  "collectListRefs (JString s) = string_refs (JString s)"
| "collectListRefs (JArray vs) = lists_in_array vs"
| "collectListRefs (JObject fs) = lists_in_object fs"
| "collectListRefs JNull = []"
| "collectListRefs (JBool b) = []"
| "collectListRefs (JNumber n) = []"
| "lists_in_array [] = []"
| "lists_in_array (v # vs) = collectListRefs v @ lists_in_array vs"
| "lists_in_object [] = []"
| "lists_in_object ((k, v) # fs) = collectListRefs v @ lists_in_object fs"

definition member_or_undefined :: "string \<Rightarrow> json \<Rightarrow> json" where
  "member_or_undefined k v = (case member k v of Some x \<Rightarrow> x | None \<Rightarrow> JNull)"

section \<open>The references of a state\<close>

definition placement_refs :: "json \<Rightarrow> entity_ref list" where
  "placement_refs p = refs Module (string_member ''moduleId'' p)
     @ refs ContentInstance (string_member ''contentInstanceId'' p)"

definition block_refs :: "json \<Rightarrow> entity_ref list" where
  "block_refs block =
     refs Module (strings_of (array_member ''moduleIds'' block))
     @ concat (map placement_refs (array_member ''placements'' block))"

definition term_refs :: "json \<Rightarrow> entity_ref list" where
  "term_refs s =
     concat (map (\<lambda>t. case TERM_LIST_RE t of Some i \<Rightarrow> [(List_kind, i)] | None \<Rightarrow> [])
       (strings_of (array_member ''terms'' s)))"

definition is_array :: "json option \<Rightarrow> bool" where
  "is_array v = (case v of Some (JArray xs) \<Rightarrow> True | _ \<Rightarrow> False)"

definition is_structure :: "json option \<Rightarrow> bool" where
  "is_structure v = (case v of Some (JArray xs) \<Rightarrow> True | Some (JObject fs) \<Rightarrow> True | _ \<Rightarrow> False)"

definition referencedEntities :: "LockedEntityKind \<Rightarrow> string \<Rightarrow> json \<Rightarrow> entity_ref list" where
  "referencedEntities kind table s =
     (if \<not> is_structure (Some s) then []
      else if table = ''page_layout_snapshots'' \<and> is_array (member ''blocks'' s)
      then concat (map block_refs (array_member ''blocks'' s))
      else if table = ''layout_module_snapshots'' \<and> is_array (member ''moduleIds'' s)
      then refs Module (strings_of (array_member ''moduleIds'' s))
      else if table = ''page_snapshots''
      then refs Template (string_member ''templateId'' s)
           @ refs PageType (string_member ''pageTypeId'' s) @ term_refs s
      else if kind = ContentInstance
      then refs Module (string_member ''moduleId'' s)
           @ collectNestedRefs (member_or_undefined ''values'' s)
           @ collectListRefs (member_or_undefined ''values'' s)
      else if table = ''page_module_content_snapshots''
      then collectNestedRefs (member_or_undefined ''contentValues'' s)
      else if table = ''module_snapshots''
      then collectListRefs (member_or_undefined ''fields'' s)
      else if table = ''list_snapshots''
      then refs ListType (string_member ''listTypeId'' s)
           @ collectNestedRefs (member_or_undefined ''items'' s)
           @ collectListRefs (member_or_undefined ''items'' s)
      else if table = ''page_type_snapshots'' \<and> is_structure (member ''definition'' s)
      then (let d = member_or_undefined ''definition'' s
            in refs Template (strings_of (array_member ''templates'' d))
               @ concat (map (\<lambda>v. refs List_kind (string_member ''list'' v))
                   (array_member ''vocabularies'' d)))
      else [])"

section \<open>At any depth\<close>

text \<open>The values a value contains, itself included.\<close>

inductive part_of :: "json \<Rightarrow> json \<Rightarrow> bool" where
  here: "part_of v v"
| in_array: "part_of u v \<Longrightarrow> v \<in> set vs \<Longrightarrow> part_of u (JArray vs)"
| in_object: "part_of u v \<Longrightarrow> (k, v) \<in> set fs \<Longrightarrow> part_of u (JObject fs)"

inductive_cases part_of_JArrayE: "part_of u (JArray vs)"
inductive_cases part_of_JObjectE: "part_of u (JObject fs)"
inductive_simps part_of_JNull [simp]: "part_of u JNull"
inductive_simps part_of_JBool [simp]: "part_of u (JBool b)"
inductive_simps part_of_JNumber [simp]: "part_of u (JNumber n)"
inductive_simps part_of_JString [simp]: "part_of u (JString s)"

lemma part_of_JArray [simp]: "part_of u (JArray vs) = (u = JArray vs \<or> (\<exists>v \<in> set vs. part_of u v))"
  by (auto elim: part_of_JArrayE intro: part_of.intros)

lemma part_of_JObject [simp]:
  "part_of u (JObject fs) = (u = JObject fs \<or> (\<exists>(k, v) \<in> set fs. part_of u v))"
  by (auto elim: part_of_JObjectE intro: part_of.intros)

lemma object_refs_no_object [simp]:
  "object_refs JNull = []" "object_refs (JBool b) = []" "object_refs (JNumber n) = []"
  "object_refs (JString s) = []" "object_refs (JArray vs) = []"
  by (simp_all add: object_refs_def string_member_def member_def refs_def)

lemma collectNestedRefs_set:
  shows "set (collectNestedRefs v) = {r. \<exists>u. part_of u v \<and> r \<in> set (object_refs u)}"
    and "set (nested_in_array vs) = {r. \<exists>v \<in> set vs. \<exists>u. part_of u v \<and> r \<in> set (object_refs u)}"
    and "set (nested_in_object fs) = {r. \<exists>(k, v) \<in> set fs. \<exists>u. part_of u v \<and> r \<in> set (object_refs u)}"
  by (induction v and vs and fs rule: collectNestedRefs_nested_in_array_nested_in_object.induct) auto

lemma string_refs_no_string [simp]:
  "string_refs JNull = []" "string_refs (JBool b) = []" "string_refs (JNumber n) = []"
  "string_refs (JObject fs) = []" "string_refs (JArray vs) = []"
  by (simp_all add: string_refs_def)

lemma collectListRefs_set:
  shows "set (collectListRefs v) = {r. \<exists>u. part_of u v \<and> r \<in> set (string_refs u)}"
    and "set (lists_in_array vs) = {r. \<exists>v \<in> set vs. \<exists>u. part_of u v \<and> r \<in> set (string_refs u)}"
    and "set (lists_in_object fs) = {r. \<exists>(k, v) \<in> set fs. \<exists>u. part_of u v \<and> r \<in> set (string_refs u)}"
  by (induction v and vs and fs rule: collectListRefs_lists_in_array_lists_in_object.induct) auto

lemma string_refs_iff:
  "(kind, i) \<in> set (string_refs v) \<longleftrightarrow> (\<exists>s. kind = List_kind \<and> v = JString s \<and> LIST_REF_RE s = Some i)"
  by (auto simp: string_refs_def split: json.splits option.splits)

lemma object_refs_iff:
  "(kind, i) \<in> set (object_refs v) \<longleftrightarrow>
     (kind = Module \<and> member ''moduleId'' v = Some (JString i))
     \<or> (kind = ContentInstance \<and> member ''contentInstanceId'' v = Some (JString i))"
  by (auto simp: object_refs_def refs_def string_member_def split: option.splits json.splits)

text \<open>Every reference a content instance holds is found, at any depth, and nothing else:
  its own module, the module and content instance named by any object inside its values, and
  the list named by any reference string inside them.\<close>

theorem content_references_complete:
  "(kind, i) \<in> set (referencedEntities ContentInstance ''content_instance_snapshots'' (JObject fs)) \<longleftrightarrow>
     (kind = Module \<and> member ''moduleId'' (JObject fs) = Some (JString i))
     \<or> (\<exists>vals u. member ''values'' (JObject fs) = Some vals \<and> part_of u vals \<and>
          (kind = Module \<and> member ''moduleId'' u = Some (JString i)
           \<or> kind = ContentInstance \<and> member ''contentInstanceId'' u = Some (JString i)
           \<or> (\<exists>s. kind = List_kind \<and> u = JString s \<and> LIST_REF_RE s = Some i)))"
proof -
  have "(kind, i) \<in> set (refs Module (string_member ''moduleId'' (JObject fs))) \<longleftrightarrow>
      kind = Module \<and> member ''moduleId'' (JObject fs) = Some (JString i)"
    by (auto simp: refs_def string_member_def split: option.splits json.splits)
  moreover have "(kind, i) \<in> set (collectNestedRefs (member_or_undefined ''values'' (JObject fs))) \<longleftrightarrow>
      (\<exists>vals u. member ''values'' (JObject fs) = Some vals \<and> part_of u vals \<and>
          (kind = Module \<and> member ''moduleId'' u = Some (JString i)
           \<or> kind = ContentInstance \<and> member ''contentInstanceId'' u = Some (JString i)))"
    by (cases "member ''values'' (JObject fs)")
      (auto simp: member_or_undefined_def collectNestedRefs_set object_refs_iff)
  moreover have "(kind, i) \<in> set (collectListRefs (member_or_undefined ''values'' (JObject fs))) \<longleftrightarrow>
      (\<exists>vals u. member ''values'' (JObject fs) = Some vals \<and> part_of u vals \<and>
          (\<exists>s. kind = List_kind \<and> u = JString s \<and> LIST_REF_RE s = Some i))"
    by (cases "member ''values'' (JObject fs)")
      (auto simp: member_or_undefined_def collectListRefs_set string_refs_iff)
  ultimately show ?thesis
    by (simp add: referencedEntities_def is_structure_def) blast
qed

end
