(* ===== verification/Lock_Takeover.thy ===== *)
theory Lock_Takeover
  imports Entity_Refs
begin

text \<open>
  Taking over another chat's change (packages/admin-core/src/lock-takeover.ts): the pending
  snapshots of an entity on the holder's branch, and of the rows created there that they
  reference, move under new headers to the taker's branch, with their locks.  The tables the
  code reads and writes are the lists of a record; a timestamp is a number of microseconds,
  the label of an entity a function of the database given as an argument.
\<close>

section \<open>Tables\<close>

record chat_session =
  cs_id :: string
  cs_title :: string
  cs_created_by :: string
  cs_branch :: "string option"
  cs_branch_kind :: string
  cs_parent :: "string option"
  cs_created_at :: int
  cs_archived :: bool
  cs_discarded :: bool

record snapshot_header =
  h_id :: nat
  h_branch :: "string option"
  h_task :: "string option"
  h_actor :: string
  h_op :: string
  h_at :: int
  h_staged :: bool
  h_undone :: bool

text \<open>A row of a snapshot table: the table, its id, the entity its column names, the id a
  stage mark uses, the state, its header and when it was written.\<close>

record snapshot_row =
  sr_table :: string
  sr_id :: string
  sr_entity :: string
  sr_mark :: string
  sr_state :: json
  sr_header :: nat
  sr_at :: int

record lock_row =
  lk_session :: string
  lk_branch :: string
  lk_at :: int
  lk_write :: "nat option"
  lk_call :: "string option"

record takeover_row =
  tk_kind :: LockedEntityKind
  tk_entity :: string
  tk_label :: string
  tk_from :: string
  tk_from_title :: string
  tk_to :: string
  tk_to_title :: string
  tk_count :: nat
  tk_actor :: string
  tk_to_notified :: bool
  tk_from_notified :: bool

type_synonym entity_key = "LockedEntityKind \<times> string"

record site_db =
  sessions :: "chat_session list"
  branch_tag :: "string \<times> string \<Rightarrow> string option"
  headers :: "snapshot_header list"
  next_header :: nat
  snapshots :: "snapshot_row list"
  marks :: "(string \<times> string \<times> string) list"
  locks :: "(entity_key \<times> lock_row) list"
  leases :: lease_table
  observations :: "((string \<times> entity_key) \<times> int) list"
  takeovers :: "takeover_row list"

text \<open>The tag of a row of a live table is the branch it was created on, none for a merged or
  missing row; a mark is a branch, a mark kind and an entity.\<close>

definition find_session :: "string \<Rightarrow> site_db \<Rightarrow> chat_session option" where
  "find_session i db = find (\<lambda>c. cs_id c = i) (sessions db)"

definition caelo_chat_owner :: "site_db \<Rightarrow> string \<Rightarrow> string" where
  "caelo_chat_owner db task =
     (case find_session task db of
        Some c \<Rightarrow> (case cs_parent c of Some p \<Rightarrow> p | None \<Rightarrow> task)
      | None \<Rightarrow> task)"

definition find_header :: "nat \<Rightarrow> site_db \<Rightarrow> snapshot_header option" where
  "find_header i db = find (\<lambda>h. h_id h = i) (headers db)"

definition pendingSnapshotSql :: "snapshot_header \<Rightarrow> bool" where
  "pendingSnapshotSql h = (\<not> h_staged h \<and> \<not> h_undone h)"

section \<open>Snapshot tables of a kind\<close>

record SnapshotTable =
  st_table :: string
  st_markKind :: string

definition SNAPSHOT_TABLES :: "LockedEntityKind \<Rightarrow> SnapshotTable list" where
  "SNAPSHOT_TABLES kind =
     (let t = (\<lambda>table mark. \<lparr>st_table = table, st_markKind = mark\<rparr>) in
      case kind of
        Layout \<Rightarrow> [t ''layout_module_snapshots'' ''layout'']
      | Module \<Rightarrow> [t ''module_snapshots'' ''module'']
      | Template \<Rightarrow> [t ''template_snapshots'' ''template'']
      | Page \<Rightarrow> [t ''page_snapshots'' ''page'', t ''page_layout_snapshots'' ''pageLayout'',
                 t ''page_module_content_snapshots'' ''pageModuleContent'']
      | PageLayout \<Rightarrow> [t ''page_layout_snapshots'' ''pageLayout'']
      | ListType \<Rightarrow> [t ''list_type_snapshots'' ''listType'']
      | List_kind \<Rightarrow> [t ''list_snapshots'' ''list'']
      | PageType \<Rightarrow> [t ''page_type_snapshots'' ''pageType'']
      | ContentInstance \<Rightarrow> [t ''content_instance_snapshots'' ''contentInstance'']
      | Theme \<Rightarrow> [t ''theme_snapshots'' ''theme'']
      | PluginRow \<Rightarrow> [t ''plugin_row_snapshots'' ''pluginRow'']
      | Redirect \<Rightarrow> []
      | SiteSettings \<Rightarrow> []
      | SiteDefaults \<Rightarrow> [])"

definition snapshotTablesForLockKind :: "LockedEntityKind \<Rightarrow> string list" where
  "snapshotTablesForLockKind kind = map st_table (SNAPSHOT_TABLES kind)"

text \<open>The pending snapshots of an entity in a table on a branch, oldest first.\<close>

definition header_at :: "site_db \<Rightarrow> snapshot_row \<Rightarrow> int" where
  "header_at db r = (case find_header (sr_header r) db of Some h \<Rightarrow> h_at h | None \<Rightarrow> 0)"

definition pending_on :: "site_db \<Rightarrow> string \<Rightarrow> snapshot_row \<Rightarrow> bool" where
  "pending_on db branch r =
     (case find_header (sr_header r) db of
        Some h \<Rightarrow> h_branch h = Some branch \<and> pendingSnapshotSql h
      | None \<Rightarrow> False)"

definition pending_rows :: "site_db \<Rightarrow> string \<Rightarrow> string \<Rightarrow> string \<Rightarrow> snapshot_row list" where
  "pending_rows db branch table entity =
     sort_key (header_at db) (sort_key sr_at (sort_key sr_id
       (filter (\<lambda>r. sr_table r = table \<and> sr_entity r = entity \<and> pending_on db branch r)
          (snapshots db))))"

section \<open>Collecting what moves\<close>

record MovedRow =
  mv_table :: string
  mv_id :: string
  mv_header :: nat
  mv_at :: int

definition moved_row :: "site_db \<Rightarrow> snapshot_row \<Rightarrow> MovedRow" where
  "moved_row db r =
     \<lparr>mv_table = sr_table r, mv_id = sr_id r, mv_header = sr_header r, mv_at = header_at db r\<rparr>"

definition createdOnBranch :: "(string \<times> string \<Rightarrow> string option) \<Rightarrow> entity_ref \<Rightarrow> string \<Rightarrow> bool" where
  "createdOnBranch tag r branch =
     (case BRANCH_CREATED_TABLE (fst r) of
        None \<Rightarrow> False
      | Some table \<Rightarrow> tag (table, snd r) = Some branch)"

definition retagged ::
  "string \<Rightarrow> string \<Rightarrow> entity_key \<Rightarrow> (string \<times> string \<Rightarrow> string option)
   \<Rightarrow> string \<times> string \<Rightarrow> string option" where
  "retagged holder taker unit tag =
     (case BRANCH_CREATED_TABLE (fst unit) of
        None \<Rightarrow> tag
      | Some table \<Rightarrow>
          if tag (table, snd unit) = Some holder
          then tag((table, snd unit) := Some taker) else tag)"

text \<open>References not seen before join the seen set; those created on the holder's branch join
  the queue.\<close>

fun follow_refs ::
  "(string \<times> string \<Rightarrow> string option) \<Rightarrow> string \<Rightarrow> entity_ref list \<Rightarrow> entity_key list
   \<Rightarrow> entity_key list \<Rightarrow> entity_key list \<times> entity_key list" where
  "follow_refs tag holder [] seen queue = (seen, queue)"
| "follow_refs tag holder (r # rs) seen queue =
     (if r \<in> set seen then follow_refs tag holder rs seen queue
      else follow_refs tag holder rs (seen @ [r])
             (if createdOnBranch tag r holder then queue @ [r] else queue))"

text \<open>One unit: its rows in the tables of its kind, with their marks and references.\<close>

definition unit_rows :: "site_db \<Rightarrow> string \<Rightarrow> entity_key \<Rightarrow> (SnapshotTable \<times> snapshot_row) list" where
  "unit_rows db holder unit =
     concat (map (\<lambda>t. map (Pair t) (pending_rows db holder (st_table t) (snd unit)))
       (SNAPSHOT_TABLES (fst unit)))"

definition unit_refs :: "site_db \<Rightarrow> string \<Rightarrow> entity_key \<Rightarrow> entity_ref list" where
  "unit_refs db holder unit =
     concat (map (\<lambda>(t, r). referencedEntities (fst unit) (st_table t) (sr_state r))
       (unit_rows db holder unit))"

record collected =
  c_moved :: "MovedRow list"
  c_marks :: "(string \<times> string) list"
  c_units :: "entity_key list"
  c_tag :: "string \<times> string \<Rightarrow> string option"

definition collect_unit :: "site_db \<Rightarrow> string \<Rightarrow> string \<Rightarrow> entity_key \<Rightarrow> collected \<Rightarrow> collected" where
  "collect_unit db holder taker unit acc =
     acc\<lparr>c_moved := c_moved acc @ map (\<lambda>(t, r). moved_row db r) (unit_rows db holder unit),
         c_marks := c_marks acc @ map (\<lambda>(t, r). (st_markKind t, sr_mark r)) (unit_rows db holder unit),
         c_units := c_units acc @ [unit],
         c_tag := retagged holder taker unit (c_tag acc)\<rparr>"

text \<open>The keys the walk can ever see: the references of the pending rows, under any kind.\<close>

definition all_kinds :: "LockedEntityKind list" where
  "all_kinds = [Module, Template, PageLayout, Layout, Redirect, Page, SiteSettings, SiteDefaults,
     ContentInstance, Theme, ListType, List_kind, PageType, PluginRow]"

lemma all_kinds [simp]: "k \<in> set all_kinds"
  by (cases k) (simp_all add: all_kinds_def)

definition all_refs :: "site_db \<Rightarrow> entity_ref set" where
  "all_refs db = (\<Union>r \<in> set (snapshots db). \<Union>k \<in> set all_kinds.
     set (referencedEntities k (sr_table r) (sr_state r)))"

lemma finite_all_refs [simp]: "finite (all_refs db)"
  by (simp add: all_refs_def)

lemma unit_rows_pending:
  "(t, r) \<in> set (unit_rows db holder unit) \<Longrightarrow>
     t \<in> set (SNAPSHOT_TABLES (fst unit)) \<and> r \<in> set (snapshots db) \<and> sr_table r = st_table t
     \<and> sr_entity r = snd unit \<and> pending_on db holder r"
  by (auto simp: unit_rows_def pending_rows_def)

lemma unit_refs_all_refs: "set (unit_refs db holder unit) \<subseteq> all_refs db"
proof
  fix x assume "x \<in> set (unit_refs db holder unit)"
  then obtain t r where tr: "(t, r) \<in> set (unit_rows db holder unit)"
    and x: "x \<in> set (referencedEntities (fst unit) (st_table t) (sr_state r))"
    by (auto simp: unit_refs_def)
  from unit_rows_pending [OF tr] have "r \<in> set (snapshots db)" "sr_table r = st_table t" by auto
  then show "x \<in> all_refs db"
    using x unfolding all_refs_def by (intro UN_I [of r] UN_I [of "fst unit"]) simp_all
qed

lemma follow_refs_measure:
  assumes "follow_refs tag holder rs seen queue = (seen', queue')" "set rs \<subseteq> R" "finite R"
  shows "2 * card (R - set seen') + length queue' \<le> 2 * card (R - set seen) + length queue"
  using assms
proof (induction tag holder rs seen queue rule: follow_refs.induct)
  case (2 tag holder r rs seen queue)
  show ?case
  proof (cases "r \<in> set seen")
    case False
    have "R - set seen = insert r (R - insert r (set seen))" using False "2.prems"(2) by auto
    then have "card (R - set seen) = Suc (card (R - insert r (set seen)))"
      using "2.prems"(3) by (metis Diff_iff card_insert_disjoint finite_Diff insertI1)
    moreover have "2 * card (R - set seen') + length queue'
        \<le> 2 * card (R - set (seen @ [r])) + length (if createdOnBranch tag r holder then queue @ [r] else queue)"
      by (rule 2(2) [OF False]) (use "2.prems" False in simp_all)
    moreover have "length (if createdOnBranch tag r holder then queue @ [r] else queue) \<le> Suc (length queue)"
      by simp
    ultimately show ?thesis by simp
  next
    case True
    then show ?thesis using 2(1) "2.prems" by simp
  qed
qed simp

function collect_units ::
  "site_db \<Rightarrow> string \<Rightarrow> string \<Rightarrow> entity_key list \<Rightarrow> entity_key list \<Rightarrow> collected \<Rightarrow> collected" where
  "collect_units db holder taker [] seen acc = acc"
| "collect_units db holder taker (unit # queue) seen acc =
     (let acc' = collect_unit db holder taker unit acc;
          next = follow_refs (c_tag acc') holder (unit_refs db holder unit) seen queue
      in collect_units db holder taker (snd next) (fst next) acc')"
  by pat_completeness auto
termination
proof (relation "measure (\<lambda>(db, holder, taker, queue, seen, acc).
    2 * card (all_refs db - set seen) + length queue)")
  fix db holder taker unit queue seen acc acc' nxt
  assume "acc' = collect_unit db holder taker unit acc"
    and n: "nxt = follow_refs (c_tag acc') holder (unit_refs db holder unit) seen queue"
  have "2 * card (all_refs db - set (fst nxt)) + length (snd nxt)
      \<le> 2 * card (all_refs db - set seen) + length queue"
    using follow_refs_measure [OF _ unit_refs_all_refs finite_all_refs] n by (metis prod.collapse)
  then show "((db, holder, taker, snd nxt, fst nxt, acc'), (db, holder, taker, unit # queue, seen, acc))
    \<in> measure (\<lambda>(db, holder, taker, queue, seen, acc).
        2 * card (all_refs db - set seen) + length queue)" by simp
qed simp

declare collect_units.simps [simp del]

section \<open>The takeover\<close>

record TakeoverParty =
  tp_session :: string
  tp_branch :: string

record TakeoverOutcome =
  to_fromChatSessionId :: string
  to_fromChatTitle :: string
  to_label :: string
  to_adoptedSnapshotCount :: nat

definition closed_chat_error :: "string \<Rightarrow> chat_session \<Rightarrow> thrown" where
  "closed_chat_error operation chat =
     OperationAbortError (HandlerError operation
       (Raw (''this chat was '' @ (if cs_discarded chat then ''discarded'' else ''archived'')
          @ '', so the change was not saved. Continue in an open chat: reload Live Edit (or pick or start a chat in the chat list) and make the change there.''))
       False False False None None)"

definition assertChatOpenForWrite :: "string \<Rightarrow> string \<Rightarrow> site_db \<Rightarrow> thrown option" where
  "assertChatOpenForWrite chatTaskId operation db =
     (case find_session (caelo_chat_owner db chatTaskId) db of
        None \<Rightarrow> None
      | Some chat \<Rightarrow>
          if \<not> cs_archived chat \<and> \<not> cs_discarded chat then None
          else Some (closed_chat_error operation chat))"

definition loadSession :: "string \<Rightarrow> site_db \<Rightarrow> (thrown, chat_session) result" where
  "loadSession i db =
     (case find_session i db of
        None \<Rightarrow> Inl (plain_error (''lock takeover: chat session '' @ i @ '' not found''))
      | Some c \<Rightarrow> Inr c)"

definition group_moved :: "MovedRow list \<Rightarrow> (nat \<times> MovedRow list) list" where
  "group_moved moved =
     foldl (\<lambda>m row. case js_get m (mv_header row) of
                       Some g \<Rightarrow> js_set (mv_header row) (g @ [row]) m
                     | None \<Rightarrow> js_set (mv_header row) [row] m)
       [] moved"

definition ordered_groups :: "MovedRow list \<Rightarrow> (nat \<times> MovedRow list) list" where
  "ordered_groups moved = sort_key (\<lambda>g. mv_at (hd (snd g))) (group_moved moved)"

text \<open>One new header per group, one microsecond apart, the last one just before now.\<close>

definition adopted_header :: "site_db \<Rightarrow> int \<Rightarrow> chat_session \<Rightarrow> TakeoverParty \<Rightarrow> nat \<Rightarrow> nat \<Rightarrow> snapshot_header" where
  "adopted_header db now takerInfo taker count i =
     \<lparr>h_id = next_header db + i, h_branch = Some (tp_branch taker), h_task = Some (tp_session taker),
      h_actor = cs_created_by takerInfo, h_op = ''chat.adopt_change'', h_at = now - int (count - i),
      h_staged = False, h_undone = False\<rparr>"

definition assignments :: "nat \<Rightarrow> (nat \<times> MovedRow list) list \<Rightarrow> ((string \<times> string) \<times> nat) list" where
  "assignments first groups =
     concat (map (\<lambda>i. map (\<lambda>m. ((mv_table m, mv_id m), first + i)) (snd (groups ! i))) [0..<length groups])"

definition repoint :: "((string \<times> string) \<times> nat) \<Rightarrow> snapshot_row list \<Rightarrow> snapshot_row list" where
  "repoint a rows =
     map (\<lambda>r. if (sr_table r, sr_id r) = fst a then r\<lparr>sr_header := snd a\<rparr> else r) rows"

definition move_lock :: "int \<Rightarrow> TakeoverParty \<Rightarrow> TakeoverParty \<Rightarrow> entity_key
    \<Rightarrow> (entity_key \<times> lock_row) list \<Rightarrow> (entity_key \<times> lock_row) list" where
  "move_lock now holder taker unit ls =
     (case js_get ls unit of
        None \<Rightarrow> ls
      | Some l \<Rightarrow>
          if lk_session l = tp_session holder
          then js_set unit (l\<lparr>lk_session := tp_session taker, lk_branch := tp_branch taker, lk_at := now\<rparr>) ls
          else ls)"

definition takeOverEntity ::
  "(LockedEntityKind \<Rightarrow> string \<Rightarrow> string) \<Rightarrow> int \<Rightarrow> LockedEntityKind \<Rightarrow> string \<Rightarrow> TakeoverParty
   \<Rightarrow> TakeoverParty \<Rightarrow> site_db \<Rightarrow> (thrown, TakeoverOutcome \<times> site_db) result" where
  "takeOverEntity label now kind entityId holder taker db =
     (case assertChatOpenForWrite (tp_session taker) ''chat.adopt_change'' db of
        Some e \<Rightarrow> Inl e
      | None \<Rightarrow>
          then_result (loadSession (tp_session holder) db) (\<lambda>holderInfo.
          then_result (loadSession (tp_session taker) db) (\<lambda>takerInfo.
            (let c = collect_units db (tp_branch holder) (tp_branch taker) [(kind, entityId)] [(kind, entityId)]
                       \<lparr>c_moved = [], c_marks = [], c_units = [], c_tag = branch_tag db\<rparr>;
                 groups = ordered_groups (c_moved c);
                 n = length groups;
                 db1 = db\<lparr>branch_tag := c_tag c,
                          headers := headers db @ map (adopted_header db now takerInfo taker n) [0..<n],
                          next_header := next_header db + n,
                          snapshots := fold repoint (assignments (next_header db) groups) (snapshots db),
                          marks := filter (\<lambda>(b, k, e). b \<noteq> tp_branch holder \<or> (k, e) \<notin> set (c_marks c)) (marks db),
                          locks := fold (move_lock now holder taker) (c_units c) (locks db),
                          leases := filter (\<lambda>((k, e, b), l). \<not> ((k, e) \<in> set (c_units c) \<and> b = tp_branch holder)) (leases db),
                          takeovers := takeovers db @
                            [\<lparr>tk_kind = kind, tk_entity = entityId, tk_label = label kind entityId,
                              tk_from = tp_session holder, tk_from_title = cs_title holderInfo,
                              tk_to = tp_session taker, tk_to_title = cs_title takerInfo,
                              tk_count = length (c_moved c), tk_actor = cs_created_by takerInfo,
                              tk_to_notified = False, tk_from_notified = False\<rparr>]\<rparr>
             in Inr (\<lparr>to_fromChatSessionId = tp_session holder, to_fromChatTitle = cs_title holderInfo,
                      to_label = label kind entityId, to_adoptedSnapshotCount = length (c_moved c)\<rparr>, db1)))))"

section \<open>Notices\<close>

datatype takeover_notice =
    Adopted_change LockedEntityKind string string
  | Adopted_lock LockedEntityKind string string
  | Lost_change LockedEntityKind string string

text \<open>Each with the entity's kind and label and the other chat's title.\<close>

definition adopted_notice :: "takeover_row \<Rightarrow> takeover_notice" where
  "adopted_notice t =
     (if tk_count t > 0 then Adopted_change (tk_kind t) (tk_label t) (tk_from_title t)
      else Adopted_lock (tk_kind t) (tk_label t) (tk_from_title t))"

definition lost_notice :: "takeover_row \<Rightarrow> takeover_notice list" where
  "lost_notice t =
     (if tk_count t = 0 then [] else [Lost_change (tk_kind t) (tk_label t) (tk_to_title t)])"

definition drainTakeoverNotices :: "string \<Rightarrow> takeover_row list \<Rightarrow> takeover_notice list \<times> takeover_row list" where
  "drainTakeoverNotices chat rows =
     (let adopted = filter (\<lambda>t. tk_to t = chat \<and> \<not> tk_to_notified t) rows;
          rows1 = map (\<lambda>t. if tk_to t = chat \<and> \<not> tk_to_notified t then t\<lparr>tk_to_notified := True\<rparr> else t) rows;
          lost = filter (\<lambda>t. tk_from t = chat \<and> \<not> tk_from_notified t) rows1;
          rows2 = map (\<lambda>t. if tk_from t = chat \<and> \<not> tk_from_notified t then t\<lparr>tk_from_notified := True\<rparr> else t) rows1
      in (map adopted_notice adopted @ concat (map lost_notice lost), rows2))"

section \<open>Groups\<close>

lemma js_map_ok_group_moved: "js_map_ok (group_moved moved)"
proof -
  have "js_map_ok (foldl (\<lambda>m row. case js_get m (mv_header row) of
                       Some g \<Rightarrow> js_set (mv_header row) (g @ [row]) m
                     | None \<Rightarrow> js_set (mv_header row) [row] m) m moved)" if "js_map_ok m" for m
    using that by (induction moved arbitrary: m) (auto simp: js_map_ok_set split: option.splits)
  from this [of "[]"] show ?thesis by (simp add: group_moved_def js_map_ok_def)
qed

lemma js_get_group_moved:
  "js_get (group_moved moved) h =
     (if \<exists>m \<in> set moved. mv_header m = h then Some (filter (\<lambda>m. mv_header m = h) moved) else None)"
proof (induction moved rule: rev_induct)
  case (snoc row moved)
  have step: "group_moved (moved @ [row]) =
      (case js_get (group_moved moved) (mv_header row) of
         Some g \<Rightarrow> js_set (mv_header row) (g @ [row]) (group_moved moved)
       | None \<Rightarrow> js_set (mv_header row) [row] (group_moved moved))"
    unfolding group_moved_def by simp
  show ?case
    using snoc by (auto simp: step js_map_simps filter_empty_conv split: option.splits if_splits)
qed (simp add: group_moved_def js_get_def)

lemma ordered_groups_props:
  shows "distinct (map fst (ordered_groups moved))"
    and "(h, g) \<in> set (ordered_groups moved) \<longleftrightarrow> g = filter (\<lambda>m. mv_header m = h) moved \<and> g \<noteq> []"
    and "sorted (map (\<lambda>g. mv_at (hd (snd g))) (ordered_groups moved))"
proof -
  have d: "distinct (map fst (group_moved moved))"
    using js_map_ok_group_moved by (simp add: js_map_ok_def)
  show "distinct (map fst (ordered_groups moved))"
    using d by (simp add: ordered_groups_def distinct_map)
  have "(h, g) \<in> set (group_moved moved) \<longleftrightarrow> js_get (group_moved moved) h = Some g"
    using d by (simp add: js_get_def)
  then show "(h, g) \<in> set (ordered_groups moved) \<longleftrightarrow> g = filter (\<lambda>m. mv_header m = h) moved \<and> g \<noteq> []"
    by (auto simp: ordered_groups_def js_get_group_moved filter_empty_conv)
  show "sorted (map (\<lambda>g. mv_at (hd (snd g))) (ordered_groups moved))"
    by (simp add: ordered_groups_def)
qed

text \<open>The place of a header among the groups.\<close>

lemma group_of_moved:
  assumes "m \<in> set moved"
  obtains i where "i < length (ordered_groups moved)" "fst (ordered_groups moved ! i) = mv_header m"
    "m \<in> set (snd (ordered_groups moved ! i))"
proof -
  have "(mv_header m, filter (\<lambda>m'. mv_header m' = mv_header m) moved) \<in> set (ordered_groups moved)"
    using assms by (auto simp: ordered_groups_props(2) filter_empty_conv)
  then obtain i where "i < length (ordered_groups moved)"
    "ordered_groups moved ! i = (mv_header m, filter (\<lambda>m'. mv_header m' = mv_header m) moved)"
    by (auto simp: in_set_conv_nth)
  with assms show ?thesis by (intro that [of i]) auto
qed

lemma moved_of_group:
  assumes "i < length (ordered_groups moved)" "m \<in> set (snd (ordered_groups moved ! i))"
  shows "m \<in> set moved \<and> mv_header m = fst (ordered_groups moved ! i)"
proof -
  obtain h g where hg: "ordered_groups moved ! i = (h, g)" by fastforce
  then have "(h, g) \<in> set (ordered_groups moved)" using assms(1) nth_mem by metis
  with assms(2) hg show ?thesis by (simp add: ordered_groups_props(2))
qed

lemma group_place_unique:
  assumes "i < length (ordered_groups moved)" "j < length (ordered_groups moved)"
    "fst (ordered_groups moved ! i) = fst (ordered_groups moved ! j)"
  shows "i = j"
  using assms ordered_groups_props(1) [of moved] nth_eq_iff_index_eq [of "map fst (ordered_groups moved)" i j]
  by simp

section \<open>Repointing\<close>

lemma repoint_fold:
  "fold repoint as rows =
     map (\<lambda>r. case map_of (rev as) (sr_table r, sr_id r) of
              Some h \<Rightarrow> r\<lparr>sr_header := h\<rparr> | None \<Rightarrow> r) rows"
proof (induction as arbitrary: rows)
  case (Cons a as)
  have "fold repoint (a # as) rows = fold repoint as (repoint a rows)" by simp
  also have "\<dots> = map (\<lambda>r. case map_of (rev as) (sr_table r, sr_id r) of
              Some h \<Rightarrow> r\<lparr>sr_header := h\<rparr> | None \<Rightarrow> r) (repoint a rows)" by (rule Cons.IH)
  also have "\<dots> = map (\<lambda>r. case map_of (rev (a # as)) (sr_table r, sr_id r) of
              Some h \<Rightarrow> r\<lparr>sr_header := h\<rparr> | None \<Rightarrow> r) rows"
    by (cases a) (auto simp: repoint_def map_add_def split: option.splits)
  finally show ?case .
qed simp

lemma map_of_functional:
  assumes "(k, v) \<in> set as" "\<And>w. (k, w) \<in> set as \<Longrightarrow> w = v"
  shows "map_of as k = Some v"
proof -
  have "k \<in> fst ` set as" using assms(1) by force
  then have "map_of as k \<noteq> None" by (simp add: map_of_eq_None_iff)
  then obtain w where w: "map_of as k = Some w" by blast
  then have "w = v" using assms(2) map_of_SomeD by fast
  with w show ?thesis by simp
qed

lemma in_assignments:
  "(k, h) \<in> set (assignments first groups) \<longleftrightarrow>
     (\<exists>i < length groups. \<exists>m \<in> set (snd (groups ! i)). k = (mv_table m, mv_id m) \<and> h = first + i)"
  by (auto simp: assignments_def)

section \<open>What is collected\<close>

definition moved_of :: "site_db \<Rightarrow> string \<Rightarrow> entity_key \<Rightarrow> MovedRow list" where
  "moved_of db holder unit = map (\<lambda>(t, r). moved_row db r) (unit_rows db holder unit)"

lemma collect_units_grows:
  "\<exists>us. c_units (collect_units db holder taker queue seen acc) = c_units acc @ us
     \<and> c_moved (collect_units db holder taker queue seen acc)
         = c_moved acc @ concat (map (moved_of db holder) us)
     \<and> (queue \<noteq> [] \<longrightarrow> hd queue \<in> set us)"
proof (induction db holder taker queue seen acc rule: collect_units.induct)
  case (1 db holder taker seen acc)
  then show ?case by (simp add: collect_units.simps)
next
  case (2 db holder taker unit queue seen acc)
  let ?acc = "collect_unit db holder taker unit acc"
  let ?next = "follow_refs (c_tag ?acc) holder (unit_refs db holder unit) seen queue"
  let ?res = "collect_units db holder taker (unit # queue) seen acc"
  have eq: "?res = collect_units db holder taker (snd ?next) (fst ?next) ?acc"
    by (simp add: collect_units.simps Let_def)
  obtain us where us: "c_units ?res = c_units ?acc @ us"
    "c_moved ?res = c_moved ?acc @ concat (map (moved_of db holder) us)"
    using 2 [OF refl refl] unfolding eq by blast
  have "c_units ?res = c_units acc @ unit # us"
    "c_moved ?res = c_moved acc @ concat (map (moved_of db holder) (unit # us))"
    using us by (simp_all add: collect_unit_def moved_of_def)
  then show ?case by (intro exI [of _ "unit # us"]) simp
qed

definition initial_collected :: "site_db \<Rightarrow> collected" where
  "initial_collected db = \<lparr>c_moved = [], c_marks = [], c_units = [], c_tag = branch_tag db\<rparr>"

lemma collected_rows:
  assumes c: "c = collect_units db holder taker [(kind, entity)] [(kind, entity)] (initial_collected db)"
  shows "(kind, entity) \<in> set (c_units c)"
    and "c_moved c = concat (map (moved_of db holder) (c_units c))"
proof -
  obtain us where "c_units c = us" "c_moved c = concat (map (moved_of db holder) us)" "(kind, entity) \<in> set us"
    using collect_units_grows [of db holder taker "[(kind, entity)]" "[(kind, entity)]" "initial_collected db"]
    by (auto simp: c initial_collected_def)
  then show "(kind, entity) \<in> set (c_units c)" "c_moved c = concat (map (moved_of db holder) (c_units c))"
    by auto
qed

lemma unit_rows_iff:
  "(\<exists>t. (t, r) \<in> set (unit_rows db holder unit)) \<longleftrightarrow>
     r \<in> set (snapshots db) \<and> sr_table r \<in> set (snapshotTablesForLockKind (fst unit))
     \<and> sr_entity r = snd unit \<and> pending_on db holder r"
  by (auto simp: unit_rows_def pending_rows_def snapshotTablesForLockKind_def)

lemma moved_of_iff:
  "m \<in> set (moved_of db holder unit) \<longleftrightarrow>
     (\<exists>r. m = moved_row db r \<and> r \<in> set (snapshots db)
        \<and> sr_table r \<in> set (snapshotTablesForLockKind (fst unit))
        \<and> sr_entity r = snd unit \<and> pending_on db holder r)"
proof -
  have "m \<in> set (moved_of db holder unit) \<longleftrightarrow> (\<exists>r. m = moved_row db r \<and> (\<exists>t. (t, r) \<in> set (unit_rows db holder unit)))"
    by (auto simp: moved_of_def)
  then show ?thesis by (simp add: unit_rows_iff)
qed

section \<open>The database after a takeover\<close>

definition site_ok :: "site_db \<Rightarrow> bool" where
  "site_ok db =
     (distinct (map h_id (headers db)) \<and> (\<forall>h \<in> set (headers db). h_id h < next_header db)
      \<and> distinct (map (\<lambda>r. (sr_table r, sr_id r)) (snapshots db))
      \<and> (\<forall>r \<in> set (snapshots db). sr_header r < next_header db))"

lemma same_row:
  assumes "site_ok db" "r \<in> set (snapshots db)" "r' \<in> set (snapshots db)"
    "sr_table r = sr_table r'" "sr_id r = sr_id r'"
  shows "r = r'"
  using assms by (auto simp: site_ok_def distinct_map dest: inj_onD)

definition adopting ::
  "int \<Rightarrow> chat_session \<Rightarrow> TakeoverParty \<Rightarrow> MovedRow list \<Rightarrow> site_db \<Rightarrow> site_db" where
  "adopting now takerInfo taker moved db =
     (let groups = ordered_groups moved; n = length groups
      in db\<lparr>headers := headers db @ map (adopted_header db now takerInfo taker n) [0..<n],
            next_header := next_header db + n,
            snapshots := fold repoint (assignments (next_header db) groups) (snapshots db)\<rparr>)"

lemma takeOverEntity_adopting:
  assumes "takeOverEntity label now kind entity holder taker db = Inr (out, db')"
  obtains takerInfo c where
    "c = collect_units db (tp_branch holder) (tp_branch taker) [(kind, entity)] [(kind, entity)]
           (initial_collected db)"
    "headers db' = headers (adopting now takerInfo taker (c_moved c) db)"
    "next_header db' = next_header (adopting now takerInfo taker (c_moved c) db)"
    "snapshots db' = snapshots (adopting now takerInfo taker (c_moved c) db)"
    "locks db' = fold (move_lock now holder taker) (c_units c) (locks db)"
    "sessions db' = sessions db" "observations db' = observations db"
    "to_adoptedSnapshotCount out = length (c_moved c)"
proof -
  obtain h t where l: "assertChatOpenForWrite (tp_session taker) ''chat.adopt_change'' db = None"
    "loadSession (tp_session holder) db = Inr h" "loadSession (tp_session taker) db = Inr t"
    using assms by (auto simp: takeOverEntity_def result_simps split: option.splits)
  show ?thesis
    by (rule that [OF refl, of t])
      (use assms in \<open>auto simp: takeOverEntity_def l initial_collected_def adopting_def Let_def\<close>)
qed

definition moved_rows_of :: "site_db \<Rightarrow> string \<Rightarrow> MovedRow list \<Rightarrow> bool" where
  "moved_rows_of db holder moved =
     (\<forall>m \<in> set moved. \<exists>r. m = moved_row db r \<and> r \<in> set (snapshots db) \<and> pending_on db holder r)"

definition new_row :: "site_db \<Rightarrow> MovedRow list \<Rightarrow> snapshot_row \<Rightarrow> snapshot_row" where
  "new_row db moved r =
     (case map_of (rev (assignments (next_header db) (ordered_groups moved))) (sr_table r, sr_id r) of
        Some h \<Rightarrow> r\<lparr>sr_header := h\<rparr> | None \<Rightarrow> r)"

lemma adopting_snapshots: "snapshots (adopting now ti taker moved db) = map (new_row db moved) (snapshots db)"
  by (simp add: adopting_def Let_def repoint_fold new_row_def)

lemma new_row_content [simp]:
  "sr_table (new_row db moved r) = sr_table r" "sr_id (new_row db moved r) = sr_id r"
  "sr_entity (new_row db moved r) = sr_entity r" "sr_mark (new_row db moved r) = sr_mark r"
  "sr_state (new_row db moved r) = sr_state r" "sr_at (new_row db moved r) = sr_at r"
  by (simp_all add: new_row_def split: option.splits)

lemma moved_row_of_key:
  assumes "site_ok db" "moved_rows_of db holder moved" "r \<in> set (snapshots db)"
    "m \<in> set moved" "(mv_table m, mv_id m) = (sr_table r, sr_id r)"
  shows "m = moved_row db r"
proof -
  obtain r' where r': "m = moved_row db r'" "r' \<in> set (snapshots db)"
    using assms(2,4) by (auto simp: moved_rows_of_def)
  with assms(5) have "r' = r" by (intro same_row [OF assms(1)]) (use assms(3) in \<open>auto simp: moved_row_def\<close>)
  with r' show ?thesis by simp
qed

lemma new_row_moved:
  assumes "site_ok db" "moved_rows_of db holder moved" "r \<in> set (snapshots db)" "moved_row db r \<in> set moved"
  obtains i where "i < length (ordered_groups moved)" "fst (ordered_groups moved ! i) = sr_header r"
    "moved_row db r \<in> set (snd (ordered_groups moved ! i))" "new_row db moved r = r\<lparr>sr_header := next_header db + i\<rparr>"
proof -
  from group_of_moved [OF assms(4)] obtain i where i: "i < length (ordered_groups moved)"
    "fst (ordered_groups moved ! i) = sr_header r" "moved_row db r \<in> set (snd (ordered_groups moved ! i))"
    by (auto simp: moved_row_def)
  let ?A = "assignments (next_header db) (ordered_groups moved)"
  have "map_of (rev ?A) (sr_table r, sr_id r) = Some (next_header db + i)"
  proof (rule map_of_functional)
    show "((sr_table r, sr_id r), next_header db + i) \<in> set (rev ?A)"
      unfolding set_rev in_assignments
      by (intro exI [of _ i] conjI bexI [of _ "moved_row db r"]) (use i in \<open>simp_all add: moved_row_def\<close>)
    fix w assume "((sr_table r, sr_id r), w) \<in> set (rev ?A)"
    then obtain j m where j: "j < length (ordered_groups moved)" "m \<in> set (snd (ordered_groups moved ! j))"
      "(mv_table m, mv_id m) = (sr_table r, sr_id r)" "w = next_header db + j"
      by (auto simp: in_assignments)
    note m = moved_of_group [OF j(1,2)]
    have "m = moved_row db r" using moved_row_of_key [OF assms(1-3) _ j(3)] m by blast
    then have "fst (ordered_groups moved ! j) = sr_header r" using m by (simp add: moved_row_def)
    then show "w = next_header db + i" using group_place_unique [OF j(1) i(1)] i(2) j(4) by simp
  qed
  with i show ?thesis by (intro that [of i]) (simp_all add: new_row_def)
qed

lemma new_row_kept:
  assumes "site_ok db" "moved_rows_of db holder moved" "r \<in> set (snapshots db)" "moved_row db r \<notin> set moved"
  shows "new_row db moved r = r"
proof -
  let ?A = "assignments (next_header db) (ordered_groups moved)"
  have "map_of (rev ?A) (sr_table r, sr_id r) = None"
  proof (rule ccontr)
    assume "map_of (rev ?A) (sr_table r, sr_id r) \<noteq> None"
    then obtain w where "((sr_table r, sr_id r), w) \<in> set ?A" by (auto dest: map_of_SomeD)
    then obtain j m where "j < length (ordered_groups moved)" "m \<in> set (snd (ordered_groups moved ! j))"
      "(mv_table m, mv_id m) = (sr_table r, sr_id r)" by (auto simp: in_assignments)
    then show False using moved_of_group moved_row_of_key [OF assms(1-3)] assms(4) by metis
  qed
  then show ?thesis by (simp add: new_row_def)
qed

lemma find_distinct:
  assumes "distinct (map h_id hs)" "h \<in> set hs"
  shows "find (\<lambda>x. h_id x = h_id h) hs = Some h"
  using assms
proof (induction hs)
  case (Cons x hs)
  then show ?case by (cases "x = h") (auto simp: rev_image_eqI)
qed simp

lemma adopting_headers:
  assumes "site_ok db"
  shows "i < length (ordered_groups moved) \<Longrightarrow>
      find_header (next_header db + i) (adopting now ti taker moved db)
        = Some (adopted_header db now ti taker (length (ordered_groups moved)) i)"
    and "h < next_header db \<Longrightarrow> find_header h (adopting now ti taker moved db) = find_header h db"
    and "site_ok (adopting now ti taker moved db)"
proof -
  let ?n = "length (ordered_groups moved)"
  let ?new = "map (adopted_header db now ti taker ?n) [0..<?n]"
  have hs: "headers (adopting now ti taker moved db) = headers db @ ?new"
    by (simp add: adopting_def Let_def)
  have old: "h_id h < next_header db" if "h \<in> set (headers db)" for h
    using assms that by (simp add: site_ok_def)
  have new_ids: "map h_id ?new = map (\<lambda>i. next_header db + i) [0..<?n]"
    by (simp add: adopted_header_def)
  have "distinct (map h_id ?new)" unfolding new_ids by (simp add: distinct_map inj_on_def)
  moreover have "distinct (map h_id (headers db))" using assms by (simp add: site_ok_def)
  moreover have "h_id ` set (headers db) \<inter> h_id ` set ?new = {}"
    using old by (force simp: adopted_header_def)
  ultimately have d: "distinct (map h_id (headers db @ ?new))"
    unfolding map_append distinct_append set_map by blast
  show "find_header (next_header db + i) (adopting now ti taker moved db)
        = Some (adopted_header db now ti taker ?n i)" if "i < ?n"
  proof -
    have "adopted_header db now ti taker ?n i \<in> set (headers db @ ?new)" using that by simp
    from find_distinct [OF d this] show ?thesis by (simp add: find_header_def hs adopted_header_def)
  qed
  show "find_header h (adopting now ti taker moved db) = find_header h db" if "h < next_header db"
  proof -
    have "find (\<lambda>x. h_id x = h) ?new = None"
      using that by (auto simp: find_None_iff adopted_header_def)
    moreover have "find P (xs @ ys) = (case find P xs of None \<Rightarrow> find P ys | Some x \<Rightarrow> Some x)"
      for P :: "snapshot_header \<Rightarrow> bool" and xs ys
      by (induction xs) auto
    ultimately show ?thesis
      unfolding find_header_def hs by (simp split: option.splits)
  qed
  have "map (\<lambda>r. (sr_table r, sr_id r)) (map (new_row db moved) (snapshots db))
      = map (\<lambda>r. (sr_table r, sr_id r)) (snapshots db)"
    by simp
  then have "distinct (map (\<lambda>r. (sr_table r, sr_id r)) (map (new_row db moved) (snapshots db)))"
    using assms by (simp only: site_ok_def)
  moreover have "sr_header (new_row db moved r) < next_header db + ?n" if "r \<in> set (snapshots db)" for r
  proof -
    have "sr_header r < next_header db" using assms that by (simp add: site_ok_def)
    moreover have "h < next_header db + ?n" if "((sr_table r, sr_id r), h) \<in> set (assignments (next_header db) (ordered_groups moved))" for h
      using that by (auto simp: in_assignments)
    ultimately show ?thesis
      by (auto simp: new_row_def split: option.splits dest!: map_of_SomeD)
  qed
  moreover have "h_id h < next_header db + ?n" if "h \<in> set (headers db @ ?new)" for h
    using that old by (fastforce simp: adopted_header_def)
  moreover have "next_header (adopting now ti taker moved db) = next_header db + ?n"
    by (simp add: adopting_def Let_def)
  ultimately show "site_ok (adopting now ti taker moved db)"
    using d unfolding site_ok_def hs adopting_snapshots by (metis (mono_tags, lifting) imageE list.set_map)
qed

section \<open>A small site\<close>

definition demo_chat :: "string \<Rightarrow> string \<Rightarrow> string \<Rightarrow> chat_session" where
  "demo_chat i branch kind =
     \<lparr>cs_id = i, cs_title = ''Chat '' @ i, cs_created_by = ''u'', cs_branch = Some branch,
      cs_branch_kind = kind, cs_parent = None, cs_created_at = 1, cs_archived = False, cs_discarded = False\<rparr>"

definition demo_header :: "nat \<Rightarrow> string \<Rightarrow> string \<Rightarrow> int \<Rightarrow> snapshot_header" where
  "demo_header i branch task at =
     \<lparr>h_id = i, h_branch = Some branch, h_task = Some task, h_actor = ''u'', h_op = ''modules.update'',
      h_at = at, h_staged = False, h_undone = False\<rparr>"

definition demo_row :: "string \<Rightarrow> nat \<Rightarrow> snapshot_row" where
  "demo_row i h =
     \<lparr>sr_table = ''module_snapshots'', sr_id = i, sr_entity = ''m'', sr_mark = ''m'', sr_state = JObject [],
      sr_header = h, sr_at = 0\<rparr>"

text \<open>Chat A wrote module m twice on its branch, chat B has another branch; chats C and D share the
  draft, where C wrote the module.\<close>

definition demo_site :: site_db where
  "demo_site =
     \<lparr>sessions = [demo_chat ''A'' ''a'' ''chat'', demo_chat ''B'' ''b'' ''chat'', demo_chat ''C'' ''d'' ''draft'',
        demo_chat ''D'' ''d'' ''draft''],
      branch_tag = (\<lambda>_. None),
      headers = [demo_header 0 ''a'' ''A'' 10, demo_header 1 ''a'' ''A'' 20],
      next_header = 2, snapshots = [demo_row ''s1'' 1, demo_row ''s0'' 0], marks = [],
      locks = [], leases = [], observations = [], takeovers = []\<rparr>"

definition demo_draft :: site_db where
  "demo_draft = demo_site\<lparr>headers := [demo_header 0 ''d'' ''C'' 10], next_header := 1, snapshots := [demo_row ''s0'' 0]\<rparr>"

lemmas demo_site_defs = demo_site_def demo_draft_def demo_chat_def demo_header_def demo_row_def

lemma demo_site_ok: "site_ok demo_site"
  by (simp add: site_ok_def demo_site_defs)

abbreviation "demo_a \<equiv> \<lparr>tp_session = ''A'', tp_branch = ''a''\<rparr>"
abbreviation "demo_b \<equiv> \<lparr>tp_session = ''B'', tp_branch = ''b''\<rparr>"

definition demo_takeover :: "TakeoverOutcome \<times> site_db" where
  "demo_takeover = projr (takeOverEntity (\<lambda>_ _. ''Hero'') 50 Module ''m'' demo_a demo_b demo_site)"

lemma demo_takeover:
  "takeOverEntity (\<lambda>_ _. ''Hero'') 50 Module ''m'' demo_a demo_b demo_site
     = Inr (fst demo_takeover, snd demo_takeover)"
proof -
  have "isl (takeOverEntity (\<lambda>_ _. ''Hero'') 50 Module ''m'' demo_a demo_b demo_site) = False" by code_simp
  then show ?thesis by (simp add: demo_takeover_def)
qed

section \<open>Properties\<close>

definition content_of :: "snapshot_row \<Rightarrow> (string \<times> string) \<times> string \<times> string \<times> json \<times> int" where
  "content_of r = ((sr_table r, sr_id r), sr_entity r, sr_mark r, sr_state r, sr_at r)"

definition change_of :: "site_db \<Rightarrow> string \<Rightarrow> LockedEntityKind \<Rightarrow> string \<Rightarrow> snapshot_row \<Rightarrow> bool" where
  "change_of db branch kind entity r =
     (r \<in> set (snapshots db) \<and> sr_table r \<in> set (snapshotTablesForLockKind kind)
      \<and> sr_entity r = entity \<and> pending_on db branch r)"

lemma content_of_new_row [simp]: "content_of (new_row db moved r) = content_of r"
  by (simp add: content_of_def)

text \<open>What the takeover does to each snapshot row.\<close>

lemma takeover_rows:
  assumes "site_ok db" "takeOverEntity label now kind entity holder taker db = Inr (out, db')"
  obtains moved where
    "moved_rows_of db (tp_branch holder) moved"
    "snapshots db' = map (new_row db moved) (snapshots db)" "site_ok db'"
    "\<And>r. change_of db (tp_branch holder) kind entity r \<Longrightarrow> moved_row db r \<in> set moved"
    "\<And>i. i < length (ordered_groups moved) \<Longrightarrow> \<exists>ti. find_header (next_header db + i) db'
        = Some (adopted_header db now ti taker (length (ordered_groups moved)) i)"
    "\<And>h. h < next_header db \<Longrightarrow> find_header h db' = find_header h db"
proof -
  from takeOverEntity_adopting [OF assms(2)] obtain ti c where
    c: "c = collect_units db (tp_branch holder) (tp_branch taker) [(kind, entity)] [(kind, entity)]
           (initial_collected db)"
    and db': "headers db' = headers (adopting now ti taker (c_moved c) db)"
    "next_header db' = next_header (adopting now ti taker (c_moved c) db)"
    "snapshots db' = snapshots (adopting now ti taker (c_moved c) db)" .
  have find: "find_header h db' = find_header h (adopting now ti taker (c_moved c) db)" for h
    by (simp add: find_header_def db')
  show ?thesis
  proof (rule that [of "c_moved c"])
    show "moved_rows_of db (tp_branch holder) (c_moved c)"
      unfolding moved_rows_of_def collected_rows(2) [OF c] by (auto simp: moved_of_iff)
    show "snapshots db' = map (new_row db (c_moved c)) (snapshots db)"
      by (simp add: db' adopting_snapshots)
    show "site_ok db'"
      using adopting_headers(3) [OF assms(1)] by (simp add: site_ok_def db')
    show "moved_row db r \<in> set (c_moved c)" if "change_of db (tp_branch holder) kind entity r" for r
    proof -
      have "moved_row db r \<in> set (moved_of db (tp_branch holder) (kind, entity))"
        using that by (auto simp: moved_of_iff change_of_def)
      then show ?thesis
        unfolding collected_rows(2) [OF c] using collected_rows(1) [OF c] by auto
    qed
  qed (use adopting_headers [OF assms(1)] in \<open>auto simp: find\<close>)
qed

text \<open>C25. A takeover loses nothing: every snapshot keeps its content, every pending change
  the holder's branch had of the entity is a pending change of the taker's branch, and the
  holder's branch has none left.\<close>

theorem takeover_loses_nothing:
  assumes "site_ok db" "tp_branch holder \<noteq> tp_branch taker"
    and "takeOverEntity label now kind entity holder taker db = Inr (out, db')"
  shows "map content_of (snapshots db') = map content_of (snapshots db)
    \<and> (\<forall>r. change_of db (tp_branch holder) kind entity r
          \<longrightarrow> (\<exists>r'. content_of r' = content_of r \<and> change_of db' (tp_branch taker) kind entity r'))
    \<and> (\<forall>r'. \<not> change_of db' (tp_branch holder) kind entity r')
    \<and> site_ok db'"
proof -
  obtain moved where
    m: "moved_rows_of db (tp_branch holder) moved"
    and snaps: "snapshots db' = map (new_row db moved) (snapshots db)" and ok': "site_ok db'"
    and all: "\<And>r. change_of db (tp_branch holder) kind entity r \<Longrightarrow> moved_row db r \<in> set moved"
    and new: "\<And>i. i < length (ordered_groups moved) \<Longrightarrow> \<exists>ti. find_header (next_header db + i) db'
        = Some (adopted_header db now ti taker (length (ordered_groups moved)) i)"
    and old: "\<And>h. h < next_header db \<Longrightarrow> find_header h db' = find_header h db"
    using takeover_rows [OF assms(1,3)] by metis
  have adopted: "pending_on db' b (new_row db moved r) = (b = tp_branch taker)"
    if "r \<in> set (snapshots db)" "moved_row db r \<in> set moved" for r b
  proof -
    from new_row_moved [OF assms(1) m that] obtain i where
      "i < length (ordered_groups moved)" "new_row db moved r = r\<lparr>sr_header := next_header db + i\<rparr>" .
    with new [of i] show ?thesis
      by (auto simp: pending_on_def adopted_header_def pendingSnapshotSql_def)
  qed
  have kept: "pending_on db' b (new_row db moved r) = pending_on db b r \<and> new_row db moved r = r"
    if "r \<in> set (snapshots db)" "moved_row db r \<notin> set moved" for r b
  proof -
    have "sr_header r < next_header db" using assms(1) that by (simp add: site_ok_def)
    with old new_row_kept [OF assms(1) m that] show ?thesis by (simp add: pending_on_def)
  qed
  have "\<exists>r'. content_of r' = content_of r \<and> change_of db' (tp_branch taker) kind entity r'"
    if "change_of db (tp_branch holder) kind entity r" for r
    using that adopted [of r "tp_branch taker"] all [OF that]
    by (intro exI [of _ "new_row db moved r"]) (simp add: change_of_def snaps)
  moreover have "\<not> change_of db' (tp_branch holder) kind entity r'" for r'
  proof
    assume r': "change_of db' (tp_branch holder) kind entity r'"
    then obtain r where r: "r \<in> set (snapshots db)" "r' = new_row db moved r"
      by (auto simp: change_of_def snaps)
    show False
    proof (cases "moved_row db r \<in> set moved")
      case True
      with adopted [OF r(1) True] r r' assms(2) show False by (simp add: change_of_def)
    next
      case False
      note k = kept [OF r(1) False, of "tp_branch holder"]
      then have "r' = r" "pending_on db (tp_branch holder) r"
        using r(2) r' unfolding change_of_def by metis+
      then have "change_of db (tp_branch holder) kind entity r"
        using r(1) r' by (simp add: change_of_def)
      then show False using all False by blast
    qed
  qed
  ultimately show ?thesis using ok' by (simp add: snaps o_def)
qed

lemma takeover_loses_nothing_witness:
  "map content_of (snapshots (snd demo_takeover)) = map content_of (snapshots demo_site)
    \<and> site_ok (snd demo_takeover)"
  using takeover_loses_nothing [OF demo_site_ok _ demo_takeover] by simp

text \<open>A takeover keeps the order of the adopted change: a state the holder wrote before
  another one is older than it on the taker's branch too, and all are older than the write
  that triggered the takeover.\<close>

theorem takeover_keeps_order:
  assumes "site_ok db" "takeOverEntity label now kind entity holder taker db = Inr (out, db')"
    and "change_of db (tp_branch holder) kind entity a" "change_of db (tp_branch holder) kind entity b"
    and "header_at db a < header_at db b"
    and "a' \<in> set (snapshots db')" "content_of a' = content_of a"
    and "b' \<in> set (snapshots db')" "content_of b' = content_of b"
  shows "header_at db' a' < header_at db' b' \<and> header_at db' b' < now"
proof -
  obtain moved where
    m: "moved_rows_of db (tp_branch holder) moved"
    and snaps: "snapshots db' = map (new_row db moved) (snapshots db)"
    and all: "\<And>r. change_of db (tp_branch holder) kind entity r \<Longrightarrow> moved_row db r \<in> set moved"
    and new: "\<And>i. i < length (ordered_groups moved) \<Longrightarrow> \<exists>ti. find_header (next_header db + i) db'
        = Some (adopted_header db now ti taker (length (ordered_groups moved)) i)"
    using takeover_rows [OF assms(1,2)] by metis
  have place: "\<exists>i < length (ordered_groups moved). fst (ordered_groups moved ! i) = sr_header r
      \<and> mv_at (hd (snd (ordered_groups moved ! i))) = header_at db r
      \<and> header_at db' r' = now - int (length (ordered_groups moved) - i)"
    if ch: "change_of db (tp_branch holder) kind entity r" and mem: "r' \<in> set (snapshots db')"
      and same: "content_of r' = content_of r" for r r'
  proof -
    have r: "r \<in> set (snapshots db)" using ch by (simp add: change_of_def)
    obtain r0 where r0: "r0 \<in> set (snapshots db)" "r' = new_row db moved r0"
      using mem by (auto simp: snaps)
    with same have "r0 = r" by (intro same_row [OF assms(1) r0(1) r]) (auto simp: content_of_def)
    from new_row_moved [OF assms(1) m r all [OF ch]] obtain i where
      i: "i < length (ordered_groups moved)" "fst (ordered_groups moved ! i) = sr_header r"
      "moved_row db r \<in> set (snd (ordered_groups moved ! i))" "new_row db moved r = r\<lparr>sr_header := next_header db + i\<rparr>" .
    obtain ti where "find_header (next_header db + i) db'
        = Some (adopted_header db now ti taker (length (ordered_groups moved)) i)" using new [OF i(1)] by blast
    then have at: "header_at db' r' = now - int (length (ordered_groups moved) - i)"
      using i(4) r0 \<open>r0 = r\<close> by (simp add: header_at_def adopted_header_def)
    have "snd (ordered_groups moved ! i) \<noteq> []" using i(3) by auto
    then have "hd (snd (ordered_groups moved ! i)) \<in> set (snd (ordered_groups moved ! i))" by simp
    from moved_of_group [OF i(1) this] have h: "hd (snd (ordered_groups moved ! i)) \<in> set moved"
      "mv_header (hd (snd (ordered_groups moved ! i))) = sr_header r" using i(2) by simp_all
    with m obtain r1 where "hd (snd (ordered_groups moved ! i)) = moved_row db r1"
      by (auto simp: moved_rows_of_def)
    with h have "mv_at (hd (snd (ordered_groups moved ! i))) = header_at db r"
      by (simp add: moved_row_def header_at_def)
    with i at show ?thesis by blast
  qed
  obtain i where i: "i < length (ordered_groups moved)"
    "mv_at (hd (snd (ordered_groups moved ! i))) = header_at db a"
    "header_at db' a' = now - int (length (ordered_groups moved) - i)"
    using place [OF assms(3,6,7)] by blast
  obtain j where j: "j < length (ordered_groups moved)"
    "mv_at (hd (snd (ordered_groups moved ! j))) = header_at db b"
    "header_at db' b' = now - int (length (ordered_groups moved) - j)"
    using place [OF assms(4,8,9)] by blast
  have "i < j"
  proof (rule ccontr)
    assume "\<not> i < j"
    then have "map (\<lambda>g. mv_at (hd (snd g))) (ordered_groups moved) ! j
        \<le> map (\<lambda>g. mv_at (hd (snd g))) (ordered_groups moved) ! i"
      using i(1) by (intro sorted_nth_mono [OF ordered_groups_props(3)]) simp_all
    then show False using i j assms(5) by simp
  qed
  then show ?thesis using i j by simp
qed

lemma takeover_keeps_order_witness:
  "header_at (snd demo_takeover) (demo_row ''s0'' 2) < header_at (snd demo_takeover) (demo_row ''s1'' 3)
    \<and> header_at (snd demo_takeover) (demo_row ''s1'' 3) < 50"
proof (rule takeover_keeps_order [OF demo_site_ok demo_takeover, of "demo_row ''s0'' 0" "demo_row ''s1'' 1"])
  have "snapshots (snd demo_takeover) = [demo_row ''s1'' 3, demo_row ''s0'' 2]" by code_simp
  then show "demo_row ''s0'' 2 \<in> set (snapshots (snd demo_takeover))"
    "demo_row ''s1'' 3 \<in> set (snapshots (snd demo_takeover))" by simp_all
qed (simp_all add: demo_site_defs change_of_def pending_on_def find_header_def header_at_def
  snapshotTablesForLockKind_def SNAPSHOT_TABLES_def pendingSnapshotSql_def content_of_def)

end
