(* ===== verification/Locks.thy ===== *)
theory Locks
  imports Lock_Takeover
begin

text \<open>
  Entity write locks (packages/admin-core/src/locks.ts, tool-call-version.ts): the check every
  guarded write makes, with the sibling sub-lease, the tool-call version, the optimistic
  version check of the shared draft and the takeover of another branch's change; the
  observations of reads; and the release of a chat's locks.
\<close>

section \<open>The writing chat\<close>

record WritingChat =
  wc_owner :: string
  wc_branch_kind :: string
  wc_is_caller :: bool
  wc_is_subagent :: bool

definition writing_chat_of :: "site_db \<Rightarrow> bool \<Rightarrow> chat_session \<Rightarrow> WritingChat" where
  "writing_chat_of db is_caller c =
     \<lparr>wc_owner = caelo_chat_owner db (cs_id c), wc_branch_kind = cs_branch_kind c,
      wc_is_caller = is_caller, wc_is_subagent = (cs_parent c \<noteq> None)\<rparr>"

definition writingChat :: "site_db \<Rightarrow> string \<Rightarrow> string option \<Rightarrow> WritingChat option" where
  "writingChat db branch task =
     (case (case truthy task of
              None \<Rightarrow> None
            | Some key \<Rightarrow> find (\<lambda>c. cs_id c = key \<and> cs_branch c = Some branch) (sessions db)) of
        Some own \<Rightarrow> Some (writing_chat_of db True own)
      | None \<Rightarrow>
          (case sort_key cs_created_at (filter (\<lambda>c. cs_branch c = Some branch) (sessions db)) of
             [] \<Rightarrow> None
           | first # _ \<Rightarrow> Some (writing_chat_of db False first)))"

section \<open>Tool-call versions\<close>

text \<open>A tool call and the snapshot it started with: which transactions were visible then.\<close>

record ToolCallVersion =
  tc_callId :: string
  tc_visible :: "nat \<Rightarrow> bool"

definition written_since_call :: "ToolCallVersion option \<Rightarrow> lock_row \<Rightarrow> bool" where
  "written_since_call call row =
     (case (call, lk_write row) of
        (Some c, Some xid) \<Rightarrow> lk_call row \<noteq> Some (tc_callId c) \<and> \<not> tc_visible c xid
      | _ \<Rightarrow> False)"

definition recordLockWrite ::
  "nat \<Rightarrow> entity_key \<Rightarrow> string option \<Rightarrow> (entity_key \<times> lock_row) list \<Rightarrow> (entity_key \<times> lock_row) list" where
  "recordLockWrite xid key callId ls =
     (case js_get ls key of
        None \<Rightarrow> ls
      | Some l \<Rightarrow> js_set key (l\<lparr>lk_write := Some xid, lk_call := callId\<rparr>) ls)"

section \<open>The shared draft\<close>

record StaleDraftChange =
  sd_chatTitle :: string
  sd_changedAt :: int

definition observe ::
  "string \<times> entity_key \<Rightarrow> int \<Rightarrow> ((string \<times> entity_key) \<times> int) list \<Rightarrow> ((string \<times> entity_key) \<times> int) list" where
  "observe key at obs =
     js_set key (case js_get obs key of None \<Rightarrow> at | Some seen \<Rightarrow> max seen at) obs"

definition observeDraftEntity :: "int \<Rightarrow> string \<Rightarrow> entity_key \<Rightarrow> site_db \<Rightarrow> site_db" where
  "observeDraftEntity now chat key db = db\<lparr>observations := observe (chat, key) now (observations db)\<rparr>"

text \<open>A pending change of the entity on the branch: when, and the chat it belongs to.\<close>

definition draft_changes :: "site_db \<Rightarrow> LockedEntityKind \<Rightarrow> string \<Rightarrow> string \<Rightarrow> (int \<times> string option) list" where
  "draft_changes db kind entity branch =
     concat (map (\<lambda>table. map (\<lambda>r. (header_at db r,
               case find_header (sr_header r) db of
                 Some h \<Rightarrow> map_option (caelo_chat_owner db) (h_task h) | None \<Rightarrow> None))
         (filter (\<lambda>r. sr_table r = table \<and> sr_entity r = entity \<and> pending_on db branch r) (snapshots db)))
       (snapshotTablesForLockKind kind))"

definition seen_at :: "site_db \<Rightarrow> string \<Rightarrow> entity_key \<Rightarrow> int option" where
  "seen_at db chat key = js_get (observations db) (chat, key)"

definition unseen :: "site_db \<Rightarrow> string \<Rightarrow> entity_key \<Rightarrow> string \<Rightarrow> (int \<times> string option) list" where
  "unseen db chat key branch =
     filter (\<lambda>(at, owner). owner \<noteq> Some chat
               \<and> (case seen_at db chat key of None \<Rightarrow> True | Some seen \<Rightarrow> seen < at))
       (draft_changes db (fst key) (snd key) branch)"

definition change_title :: "site_db \<Rightarrow> string option \<Rightarrow> string" where
  "change_title db owner =
     (case (case owner of None \<Rightarrow> None | Some o1 \<Rightarrow> find_session o1 db) of
        Some c \<Rightarrow> cs_title c
      | None \<Rightarrow> ''a change made outside a chat'')"

definition draftConflict ::
  "int \<Rightarrow> entity_key \<Rightarrow> string \<Rightarrow> string \<Rightarrow> site_db \<Rightarrow> StaleDraftChange option \<times> site_db" where
  "draftConflict now key branch chat db =
     ((case sort_key (\<lambda>c. - fst c) (unseen db chat key branch) of
         [] \<Rightarrow> None
       | (at, owner) # _ \<Rightarrow> Some \<lparr>sd_chatTitle = change_title db owner, sd_changedAt = at\<rparr>),
      observeDraftEntity now chat key db)"

definition DRAFT_READ_KINDS :: "LockedEntityKind list" where
  "DRAFT_READ_KINDS = [Module, Template, Layout, Page, PageLayout, ContentInstance, Theme, List_kind,
     ListType, PageType, PluginRow]"

definition observeDraftReads ::
  "int \<Rightarrow> string option \<Rightarrow> string option \<Rightarrow> LockedEntityKind \<Rightarrow> string list \<Rightarrow> int option \<Rightarrow> site_db \<Rightarrow> site_db" where
  "observeDraftReads now branch task kind entityIds seenAt db =
     (case (truthy branch, truthy task) of
        (Some b, Some t) \<Rightarrow>
          if entityIds = [] then db
          else (case find (\<lambda>c. cs_id c = t \<and> cs_branch c = Some b \<and> cs_branch_kind c = ''draft'') (sessions db) of
                  None \<Rightarrow> db
                | Some c \<Rightarrow>
                    (let owner = caelo_chat_owner db (cs_id c);
                         at = (case seenAt of None \<Rightarrow> now | Some s \<Rightarrow> min s now)
                     in db\<lparr>observations :=
                            fold (\<lambda>i. observe (owner, kind, i) at) (rev (remdups (rev entityIds)))
                              (observations db)\<rparr>))
      | _ \<Rightarrow> db)"

section \<open>The check\<close>

datatype LockCheckResult =
    Permitted "TakeoverOutcome option"
  | Sibling_lease ExistingLease
  | Concurrent_call
  | Stale_draft StaleDraftChange

text \<open>A write: what it wants, who asks, the transaction's time and id, the tool call it runs
  in, and the lease clock with its time to live.\<close>

record lock_request =
  lq_kind :: LockedEntityKind
  lq_entity :: string
  lq_branch :: "string option"
  lq_holder :: "string option"
  lq_now :: int
  lq_xid :: nat
  lq_call :: "ToolCallVersion option"
  lq_lease_now :: int
  lq_ttl :: int

definition insert_lock :: "lock_request \<Rightarrow> string \<Rightarrow> string \<Rightarrow> site_db \<Rightarrow> site_db" where
  "insert_lock q chat branch db =
     db\<lparr>locks := insert_if_absent (lq_kind q, lq_entity q)
          \<lparr>lk_session = chat, lk_branch = branch, lk_at = lq_now q, lk_write = None, lk_call = None\<rparr>
          (locks db)\<rparr>"

definition stamp_write :: "lock_request \<Rightarrow> site_db \<Rightarrow> site_db" where
  "stamp_write q db =
     db\<lparr>locks := recordLockWrite (lq_xid q) (lq_kind q, lq_entity q)
          (map_option tc_callId (lq_call q)) (locks db)\<rparr>"

definition sibling_refusal ::
  "lock_request \<Rightarrow> string \<Rightarrow> WritingChat \<Rightarrow> site_db \<Rightarrow> ExistingLease option \<times> site_db" where
  "sibling_refusal q branch writer db =
     (case truthy (lq_holder q) of
        None \<Rightarrow> (None, db)
      | Some key \<Rightarrow>
          if wc_branch_kind writer \<noteq> ''draft'' \<or> wc_is_caller writer \<and> wc_is_subagent writer
          then (case acquireEntityLease (lq_kind q, lq_entity q, branch) key (lq_lease_now q) (lq_ttl q)
                       (leases db) of
                  (refusal, tbl) \<Rightarrow> (refusal, db\<lparr>leases := tbl\<rparr>))
          else (None, db))"

definition same_branch_write ::
  "lock_request \<Rightarrow> string \<Rightarrow> WritingChat \<Rightarrow> lock_row \<Rightarrow> site_db \<Rightarrow> LockCheckResult \<times> site_db" where
  "same_branch_write q branch writer row db =
     (if written_since_call (lq_call q) row then (Concurrent_call, db)
      else if wc_branch_kind writer = ''draft'' \<and> wc_is_caller writer
      then (case draftConflict (lq_now q) (lq_kind q, lq_entity q) branch (wc_owner writer) db of
              (Some stale, db1) \<Rightarrow> (Stale_draft stale, db1)
            | (None, db1) \<Rightarrow> (Permitted None, stamp_write q db1))
      else (Permitted None, stamp_write q db))"

definition other_branch_write ::
  "(LockedEntityKind \<Rightarrow> string \<Rightarrow> string) \<Rightarrow> lock_request \<Rightarrow> string \<Rightarrow> WritingChat \<Rightarrow> lock_row \<Rightarrow> site_db
   \<Rightarrow> (thrown, LockCheckResult \<times> site_db) result" where
  "other_branch_write label q branch writer row db =
     then_result
       (takeOverEntity label (lq_now q) (lq_kind q) (lq_entity q)
          \<lparr>tp_session = lk_session row, tp_branch = lk_branch row\<rparr>
          \<lparr>tp_session = wc_owner writer, tp_branch = branch\<rparr> db)
       (\<lambda>(outcome, db1).
         (let db2 = (if wc_branch_kind writer = ''draft'' \<and> wc_is_caller writer
                     then observeDraftEntity (lq_now q) (wc_owner writer) (lq_kind q, lq_entity q) db1
                     else db1)
          in Inr (Permitted (Some outcome), stamp_write q db2)))"

definition checkAndAcquireEntityLock ::
  "(LockedEntityKind \<Rightarrow> string \<Rightarrow> string) \<Rightarrow> lock_request \<Rightarrow> site_db
   \<Rightarrow> (thrown, LockCheckResult \<times> site_db) result" where
  "checkAndAcquireEntityLock label q db =
     (case truthy (lq_branch q) of
        None \<Rightarrow> Inr (Permitted None, db)
      | Some branch \<Rightarrow>
          (case writingChat db branch (lq_holder q) of
             None \<Rightarrow> Inr (Permitted None, db)
           | Some writer \<Rightarrow>
               (let db1 = insert_lock q (wc_owner writer) branch db
                in case js_get (locks db1) (lq_kind q, lq_entity q) of
                     None \<Rightarrow> Inr (Permitted None, db1)
                   | Some row \<Rightarrow>
                       (case sibling_refusal q branch writer db1 of
                          (Some held_by, db2) \<Rightarrow> Inr (Sibling_lease held_by, db2)
                        | (None, db2) \<Rightarrow>
                            if lk_branch row = branch
                            then Inr (same_branch_write q branch writer row db2)
                            else other_branch_write label q branch writer row db2))))"

section \<open>Blocked writes\<close>

text \<open>The error of a refused write: the sibling's, or a conflict naming the entity and why.\<close>

datatype write_conflict =
    Changed_by_concurrent_call LockedEntityKind string
  | Changed_in_draft LockedEntityKind string string int string

datatype blocked_write =
    Blocked_by_sibling sibling_lease_conflict
  | Blocked_conflict string write_conflict

text \<open>JSON.stringify of a slug, or quotes around an id: neither holds a character that JSON
  escapes.\<close>

definition quote :: "string \<Rightarrow> string" where
  "quote s = [CHR 0x22] @ s @ [CHR 0x22]"

definition draftRereadHint ::
  "(string \<Rightarrow> string \<Rightarrow> string option) \<Rightarrow> LockedEntityKind \<Rightarrow> string \<Rightarrow> (thrown, string) result" where
  "draftRereadHint slug_of kind entityId =
     (let by_slug = (\<lambda>tool table name. case truthy (slug_of table entityId) of
             None \<Rightarrow> Inl (plain_error (''draft conflict on '' @ name @ '' '' @ entityId @ '': no row with it''))
           | Some slug \<Rightarrow> Inr (tool @ ''({slug:'' @ quote slug @ ''})''));
          read_content = (\<lambda>name. Inr (''read_content({entityKind:'' @ quote name
             @ '', entityId:'' @ quote entityId @ ''})''));
          page = Inr (''inspect_page_render({pageId:'' @ quote entityId
             @ ''}) (its modules and placements; their content with get_content_instance) or get_page_seo({pageIds:['' @ quote entityId @ '']}) (title, SEO fields and text)'');
          no_draft = (\<lambda>name. Inl (plain_error (''draft conflict on '' @ name @ '' '' @ entityId @ '': '' @ name @ '' has no draft state'')))
      in case kind of
           Module \<Rightarrow> read_content ''module''
         | Template \<Rightarrow> read_content ''template''
         | Layout \<Rightarrow> read_content ''layout''
         | Page \<Rightarrow> page
         | PageLayout \<Rightarrow> page
         | ContentInstance \<Rightarrow> Inr (''get_content_instance({id:'' @ quote entityId @ ''})'')
         | Theme \<Rightarrow> by_slug ''get_theme'' ''themes'' ''theme''
         | List_kind \<Rightarrow> Inr (''get_list({id:'' @ quote entityId @ ''})'')
         | ListType \<Rightarrow> by_slug ''list_list_types'' ''list_types'' ''listType''
         | PageType \<Rightarrow> by_slug ''list_page_types'' ''page_types'' ''pageType''
         | PluginRow \<Rightarrow> Inr (''get_plugin_draft_rows({rowIds:['' @ quote entityId @ '']})'')
         | Redirect \<Rightarrow> no_draft ''redirect''
         | SiteSettings \<Rightarrow> no_draft ''siteSettings''
         | SiteDefaults \<Rightarrow> no_draft ''siteDefaults'')"

definition entityWriteBlockedError ::
  "(LockedEntityKind \<Rightarrow> string \<Rightarrow> string) \<Rightarrow> (string \<Rightarrow> string \<Rightarrow> string option) \<Rightarrow> string
   \<Rightarrow> LockedEntityKind \<Rightarrow> string \<Rightarrow> LockCheckResult \<Rightarrow> (thrown, blocked_write) result" where
  "entityWriteBlockedError label slug_of operation kind entityId r =
     (case r of
        Sibling_lease held_by \<Rightarrow> Inr (Blocked_by_sibling (siblingLeaseError operation kind entityId held_by))
      | Concurrent_call \<Rightarrow>
          Inr (Blocked_conflict operation (Changed_by_concurrent_call kind (label kind entityId)))
      | Stale_draft s \<Rightarrow>
          then_result (draftRereadHint slug_of kind entityId) (\<lambda>hint.
            Inr (Blocked_conflict operation
                   (Changed_in_draft kind (label kind entityId) (sd_chatTitle s) (sd_changedAt s) hint)))
      | Permitted t \<Rightarrow>
          Inl (plain_error (''entityWriteBlockedError called for '' @ operation @ '' without a conflict'')))"

section \<open>Releasing a chat's locks\<close>

text \<open>A draft lock stays while the tables of its kind have a pending row of the entity on the
  branch; a kind without tables keeps none.\<close>

definition releaseIdleDraftLocks :: "string \<Rightarrow> site_db \<Rightarrow> site_db" where
  "releaseIdleDraftLocks branch db =
     db\<lparr>locks := filter (\<lambda>((kind, entity), l). \<not> (lk_branch l = branch
          \<and> \<not> list_ex (\<lambda>r. sr_table r \<in> set (snapshotTablesForLockKind kind) \<and> sr_entity r = entity
                         \<and> pending_on db branch r) (snapshots db))) (locks db)\<rparr>"

definition releaseChatLocks :: "string \<Rightarrow> site_db \<Rightarrow> site_db" where
  "releaseChatLocks chat db =
     (case find_session chat db of
        Some c \<Rightarrow>
          (case (cs_branch_kind c = ''draft'', truthy (cs_branch c)) of
             (True, Some branch) \<Rightarrow>
               (let db1 = releaseIdleDraftLocks branch db
                in db1\<lparr>leases := releaseLeasesByHolder chat (leases db1)\<rparr>)
           | (_, b) \<Rightarrow>
               (let db1 = db\<lparr>locks := filter (\<lambda>(k, l). lk_session l \<noteq> chat) (locks db)\<rparr>
                in case b of
                     Some branch \<Rightarrow> db1\<lparr>leases := releaseLeasesByBranch branch (leases db1)\<rparr>
                   | None \<Rightarrow> db1))
      | None \<Rightarrow> db\<lparr>locks := filter (\<lambda>(k, l). lk_session l \<noteq> chat) (locks db)\<rparr>)"

definition lockPluginRow ::
  "(LockedEntityKind \<Rightarrow> string \<Rightarrow> string) \<Rightarrow> (string \<Rightarrow> string \<Rightarrow> string option) \<Rightarrow> string \<Rightarrow> lock_request
   \<Rightarrow> site_db \<Rightarrow> (thrown, blocked_write option \<times> site_db) result" where
  "lockPluginRow label slug_of operation q db =
     then_result (checkAndAcquireEntityLock label (q\<lparr>lq_kind := PluginRow\<rparr>) db) (\<lambda>(r, db1).
       (case r of
          Permitted t \<Rightarrow> Inr (None, db1)
        | blocked \<Rightarrow>
            then_result (entityWriteBlockedError label slug_of operation PluginRow (lq_entity q) blocked)
              (\<lambda>b. Inr (Some b, db1))))"

section \<open>Lemmas\<close>

lemma js_get_recordLockWrite:
  "js_get (recordLockWrite xid key callId ls) k =
     (if k = key then map_option (\<lambda>l. l\<lparr>lk_write := Some xid, lk_call := callId\<rparr>) (js_get ls key)
      else js_get ls k)"
  by (auto simp: recordLockWrite_def js_map_simps split: option.splits)

lemma js_get_move_lock:
  "js_get (move_lock now holder taker u ls) k =
     (if k = u then map_option (\<lambda>l. if lk_session l = tp_session holder
           then l\<lparr>lk_session := tp_session taker, lk_branch := tp_branch taker, lk_at := now\<rparr> else l) (js_get ls u)
      else js_get ls k)"
  by (auto simp: move_lock_def js_map_simps split: option.splits)

lemma fold_move_lock_branch:
  assumes "js_get ls k = Some l" "lk_session l = tp_session holder \<or> lk_branch l = tp_branch taker"
    "k \<in> set us \<or> lk_branch l = tp_branch taker"
  shows "\<exists>l'. js_get (fold (move_lock now holder taker) us ls) k = Some l' \<and> lk_branch l' = tp_branch taker"
  using assms
proof (induction us arbitrary: ls l)
  case (Cons u us)
  show ?case
  proof (cases "k = u \<and> lk_session l = tp_session holder")
    case True
    then have "js_get (move_lock now holder taker u ls) k =
        Some (l\<lparr>lk_session := tp_session taker, lk_branch := tp_branch taker, lk_at := now\<rparr>)"
      using Cons.prems(1) by (simp add: js_get_move_lock)
    from Cons.IH [OF this] show ?thesis by simp
  next
    case False
    then have "js_get (move_lock now holder taker u ls) k = Some l"
      using Cons.prems(1) by (auto simp: js_get_move_lock)
    from Cons.IH [OF this] show ?thesis using False Cons.prems(2,3) by auto
  qed
qed simp

lemma insert_lock_frame [simp]:
  "sessions (insert_lock q chat b db) = sessions db" "snapshots (insert_lock q chat b db) = snapshots db"
  "headers (insert_lock q chat b db) = headers db" "branch_tag (insert_lock q chat b db) = branch_tag db"
  "leases (insert_lock q chat b db) = leases db" "observations (insert_lock q chat b db) = observations db"
  by (simp_all add: insert_lock_def)

lemma stamp_write_frame [simp]:
  "sessions (stamp_write q db) = sessions db" "snapshots (stamp_write q db) = snapshots db"
  "headers (stamp_write q db) = headers db" "leases (stamp_write q db) = leases db"
  "observations (stamp_write q db) = observations db"
  by (simp_all add: stamp_write_def)

definition same_tables :: "site_db \<Rightarrow> site_db \<Rightarrow> bool" where
  "same_tables db db' =
     (sessions db' = sessions db \<and> snapshots db' = snapshots db \<and> headers db' = headers db
      \<and> branch_tag db' = branch_tag db \<and> locks db' = locks db)"

lemma sibling_refusal_frame:
  assumes "sibling_refusal q b w db = (r, db')"
  shows "same_tables db db' \<and> observations db' = observations db"
  using assms by (auto simp: sibling_refusal_def same_tables_def split: option.splits if_splits prod.splits)

lemma draftConflict_frame:
  "same_tables db (snd (draftConflict now key b chat db)) \<and> leases (snd (draftConflict now key b chat db)) = leases db"
  by (simp add: draftConflict_def observeDraftEntity_def same_tables_def)

lemma same_branch_write_cases:
  assumes "same_branch_write q b w row db = (r, db')"
  obtains "r = Concurrent_call" "db' = db" "written_since_call (lq_call q) row"
  | (stale) s where "r = Stale_draft s" "wc_branch_kind w = ''draft''" "wc_is_caller w"
      "draftConflict (lq_now q) (lq_kind q, lq_entity q) b (wc_owner w) db = (Some s, db')"
  | (permitted) db1 where "r = Permitted None" "same_tables db db1" "leases db1 = leases db" "db' = stamp_write q db1"
      "\<not> written_since_call (lq_call q) row"
proof (cases "written_since_call (lq_call q) row")
  case True
  then show ?thesis using assms that(1) by (simp add: same_branch_write_def)
next
  case False
  show ?thesis
  proof (cases "wc_branch_kind w = ''draft'' \<and> wc_is_caller w")
    case draft: True
    obtain c db1 where c: "draftConflict (lq_now q) (lq_kind q, lq_entity q) b (wc_owner w) db = (c, db1)"
      by fastforce
    have "same_tables db db1 \<and> leases db1 = leases db"
      using draftConflict_frame [of db "lq_now q" "(lq_kind q, lq_entity q)" b "wc_owner w"] c by simp
    then show ?thesis
      using assms False draft c stale permitted by (cases c) (auto simp: same_branch_write_def)
  next
    case nodraft: False
    have "same_branch_write q b w row db = (Permitted None, stamp_write q db)"
      using False nodraft by (auto simp: same_branch_write_def)
    then show ?thesis using assms False by (intro permitted [of db]) (simp_all add: same_tables_def)
  qed
qed

lemma insert_lock_row:
  "\<exists>l. js_get (locks (insert_lock q chat b db)) (lq_kind q, lq_entity q) = Some l"
  by (auto simp: insert_lock_def js_get_insert_if_absent split: option.splits)

text \<open>The cases of a check by a chat on a branch.\<close>

lemma check_cases:
  assumes "checkAndAcquireEntityLock label q db = Inr (r, db')"
    and "truthy (lq_branch q) = Some b" "writingChat db b (lq_holder q) = Some w"
  obtains row db2 where
    "js_get (locks (insert_lock q (wc_owner w) b db)) (lq_kind q, lq_entity q) = Some row"
    "sibling_refusal q b w (insert_lock q (wc_owner w) b db) = (None, db2)" "lk_branch row = b"
    "same_branch_write q b w row db2 = (r, db')"
  | (taken) row db2 where
    "js_get (locks (insert_lock q (wc_owner w) b db)) (lq_kind q, lq_entity q) = Some row"
    "sibling_refusal q b w (insert_lock q (wc_owner w) b db) = (None, db2)" "lk_branch row \<noteq> b"
    "other_branch_write label q b w row db2 = Inr (r, db')"
  | (leased) held_by where "r = Sibling_lease held_by"
    "sibling_refusal q b w (insert_lock q (wc_owner w) b db) = (Some held_by, db')"
proof -
  obtain row where row: "js_get (locks (insert_lock q (wc_owner w) b db)) (lq_kind q, lq_entity q) = Some row"
    using insert_lock_row by blast
  obtain s db2 where s: "sibling_refusal q b w (insert_lock q (wc_owner w) b db) = (s, db2)" by fastforce
  note run = assms(1) [unfolded checkAndAcquireEntityLock_def assms(2) option.case assms(3) Let_def row s prod.case]
  show ?thesis
  proof (cases s)
    case None
    show ?thesis
      by (cases "lk_branch row = b") (use run row s None that in auto)
  next
    case (Some held_by)
    then show ?thesis using run s leased by auto
  qed
qed

text \<open>A permitted write leaves the lock on its branch, stamped with its transaction and call.\<close>

lemma permitted_write_recorded:
  assumes "checkAndAcquireEntityLock label q db = Inr (Permitted t, db')"
    and "truthy (lq_branch q) = Some b" "writingChat db b (lq_holder q) = Some w"
  shows "\<exists>l. js_get (locks db') (lq_kind q, lq_entity q) = Some l \<and> lk_branch l = b
    \<and> lk_write l = Some (lq_xid q) \<and> lk_call l = map_option tc_callId (lq_call q)"
  using assms
proof (cases rule: check_cases)
  case (1 row db2)
  let ?db1 = "insert_lock q (wc_owner w) b db"
  have "locks db2 = locks ?db1" using sibling_refusal_frame [OF 1(2)] by (simp add: same_tables_def)
  then have row: "js_get (locks db2) (lq_kind q, lq_entity q) = Some row" using 1(1) by simp
  have "\<exists>db3. locks db3 = locks db2 \<and> db' = stamp_write q db3"
    using 1(4) by (cases rule: same_branch_write_cases) (auto simp: same_tables_def)
  then show ?thesis using row 1(3) by (auto simp: stamp_write_def js_get_recordLockWrite)
next
  case (taken row db2)
  let ?db1 = "insert_lock q (wc_owner w) b db"
  have "locks db2 = locks ?db1" using sibling_refusal_frame [OF taken(2)] by (simp add: same_tables_def)
  then have row: "js_get (locks db2) (lq_kind q, lq_entity q) = Some row" using taken(1) by simp
  let ?h = "\<lparr>tp_session = lk_session row, tp_branch = lk_branch row\<rparr>"
  let ?t = "\<lparr>tp_session = wc_owner w, tp_branch = b\<rparr>"
  obtain outcome db3 where tk: "takeOverEntity label (lq_now q) (lq_kind q) (lq_entity q) ?h ?t db2 = Inr (outcome, db3)"
    and db4: "db' = stamp_write q (if wc_branch_kind w = ''draft'' \<and> wc_is_caller w
        then observeDraftEntity (lq_now q) (wc_owner w) (lq_kind q, lq_entity q) db3 else db3)"
    using taken(4) by (auto simp: other_branch_write_def result_simps Let_def)
  then have db': "\<exists>db4. locks db4 = locks db3 \<and> db' = stamp_write q db4"
    by (intro exI conjI) (auto simp: observeDraftEntity_def)
  from takeOverEntity_adopting [OF tk] obtain c where
    c: "c = collect_units db2 (tp_branch ?h) (tp_branch ?t) [(lq_kind q, lq_entity q)] [(lq_kind q, lq_entity q)]
           (initial_collected db2)"
    and l: "locks db3 = fold (move_lock (lq_now q) ?h ?t) (c_units c) (locks db2)" by metis
  have "\<exists>l'. js_get (locks db3) (lq_kind q, lq_entity q) = Some l' \<and> lk_branch l' = tp_branch ?t"
    unfolding l by (rule fold_move_lock_branch [OF row]) (use collected_rows(1) [OF c] in simp_all)
  with db' show ?thesis by (auto simp: stamp_write_def js_get_recordLockWrite)
qed simp

lemma takeover_sessions:
  "takeOverEntity label now kind entity holder taker db = Inr (out, db') \<Longrightarrow> sessions db' = sessions db"
  by (erule takeOverEntity_adopting) simp

lemma check_sessions:
  assumes "checkAndAcquireEntityLock label q db = Inr (r, db')"
  shows "sessions db' = sessions db"
proof (cases "truthy (lq_branch q)")
  case (Some b)
  show ?thesis
  proof (cases "writingChat db b (lq_holder q)")
    case w: (Some w)
    show ?thesis
    proof (rule check_cases [OF assms Some w])
      fix row db2
      assume s: "sibling_refusal q b w (insert_lock q (wc_owner w) b db) = (None, db2)"
      have db2: "sessions db2 = sessions db" using sibling_refusal_frame [OF s] by (simp add: same_tables_def)
      show ?thesis if "same_branch_write q b w row db2 = (r, db')"
        using that
      proof (cases rule: same_branch_write_cases)
        case (stale s)
        then show ?thesis using db2 draftConflict_frame by (metis same_tables_def snd_conv)
      qed (use db2 in \<open>auto simp: same_tables_def\<close>)
      show ?thesis if "other_branch_write label q b w row db2 = Inr (r, db')"
        using that db2
        by (auto simp: other_branch_write_def result_simps Let_def observeDraftEntity_def dest!: takeover_sessions)
    next
      fix held_by assume "sibling_refusal q b w (insert_lock q (wc_owner w) b db) = (Some held_by, db')"
      from sibling_refusal_frame [OF this] show ?thesis by (simp add: same_tables_def)
    qed
  qed (use assms Some in \<open>simp add: checkAndAcquireEntityLock_def\<close>)
qed (use assms in \<open>simp add: checkAndAcquireEntityLock_def\<close>)

lemma find_session_cong: "sessions db' = sessions db \<Longrightarrow> find_session i db' = find_session i db"
  by (simp add: find_session_def)

lemma caelo_chat_owner_cong: "sessions db' = sessions db \<Longrightarrow> caelo_chat_owner db' i = caelo_chat_owner db i"
  by (simp add: caelo_chat_owner_def find_session_cong [of db' db])

lemma writingChat_cong:
  assumes "sessions db' = sessions db"
  shows "writingChat db' b h = writingChat db b h"
proof -
  have "writing_chat_of db' = writing_chat_of db"
    by (intro ext) (simp add: writing_chat_of_def caelo_chat_owner_cong [OF assms])
  then show ?thesis unfolding writingChat_def assms by (auto split: option.splits list.splits)
qed

lemma draft_changes_cong:
  assumes "sessions db' = sessions db" "snapshots db' = snapshots db" "headers db' = headers db"
  shows "draft_changes db' kind entity b = draft_changes db kind entity b"
proof -
  have "caelo_chat_owner db' = caelo_chat_owner db" using caelo_chat_owner_cong [OF assms(1)] by (rule ext)
  moreover have f: "find_header i db' = find_header i db" for i using assms(3) by (simp add: find_header_def)
  moreover have "pending_on db' b = pending_on db b" by (rule ext) (simp add: pending_on_def f)
  moreover have "header_at db' r = header_at db r" for r by (simp add: header_at_def f)
  ultimately show ?thesis unfolding draft_changes_def assms(2) by presburger
qed

lemma insert_lock_present:
  assumes "js_get (locks db) (lq_kind q, lq_entity q) = Some l"
  shows "insert_lock q chat b db = db"
  using assms by (simp add: insert_lock_def insert_if_absent_def)

lemma acquireEntityLease_holds:
  assumes "acquireEntityLease key h t ttl tbl = (None, tbl')"
  shows "\<exists>l. js_get tbl' key = Some l \<and> holderKey l = h"
  using assms
  by (auto simp: acquireEntityLease_def Let_def js_get_insert_if_absent js_map_simps evaluateLease_def
      split: option.splits if_splits lease_decision.splits)

lemma acquireEntityLease_again:
  assumes "js_get tbl key = Some l" "holderKey l = h"
  shows "fst (acquireEntityLease key h t ttl tbl) = None"
  using assms by (simp add: acquireEntityLease_def Let_def insert_if_absent_def evaluateLease_def)

lemma sibling_refusal_again:
  assumes "sibling_refusal q b w db = (None, db')" "leases db'' = leases db'"
    "lq_kind q' = lq_kind q" "lq_entity q' = lq_entity q" "lq_holder q' = lq_holder q"
  shows "fst (sibling_refusal q' b w db'') = None"
proof (cases "truthy (lq_holder q)")
  case (Some key)
  show ?thesis
  proof (cases "wc_branch_kind w \<noteq> ''draft'' \<or> wc_is_caller w \<and> wc_is_subagent w")
    case True
    obtain tbl where a: "acquireEntityLease (lq_kind q, lq_entity q, b) key (lq_lease_now q) (lq_ttl q) (leases db) = (None, tbl)"
      and "leases db' = tbl"
      using assms(1) Some True by (auto simp: sibling_refusal_def split: prod.splits)
    with acquireEntityLease_holds [OF a] assms(2) obtain l where
      "js_get (leases db'') (lq_kind q, lq_entity q, b) = Some l" "holderKey l = key" by auto
    from acquireEntityLease_again [OF this, of "lq_lease_now q'" "lq_ttl q'"] show ?thesis
      using Some True assms(3-5) by (simp add: sibling_refusal_def case_prod_beta)
  next
    case False
    then show ?thesis using Some assms(5) by (auto simp: sibling_refusal_def)
  qed
qed (use assms in \<open>simp add: sibling_refusal_def\<close>)

section \<open>Writes of a small site\<close>

definition demo_request :: "string \<Rightarrow> string \<Rightarrow> int \<Rightarrow> nat \<Rightarrow> ToolCallVersion option \<Rightarrow> lock_request" where
  "demo_request holder branch now xid call =
     \<lparr>lq_kind = Module, lq_entity = ''m'', lq_branch = Some branch, lq_holder = Some holder, lq_now = now,
      lq_xid = xid, lq_call = call, lq_lease_now = now, lq_ttl = 100\<rparr>"

lemma demo_request_fields [simp]:
  "lq_kind (demo_request h b n x c) = Module" "lq_entity (demo_request h b n x c) = ''m''"
  "lq_branch (demo_request h b n x c) = Some b" "lq_holder (demo_request h b n x c) = Some h"
  "lq_now (demo_request h b n x c) = n" "lq_xid (demo_request h b n x c) = x" "lq_call (demo_request h b n x c) = c"
  by (simp_all add: demo_request_def)

definition demo_check :: "lock_request \<Rightarrow> site_db \<Rightarrow> LockCheckResult \<times> site_db" where
  "demo_check q db = projr (checkAndAcquireEntityLock (\<lambda>_ _. ''Hero'') q db)"

definition call_before :: "string \<Rightarrow> nat \<Rightarrow> ToolCallVersion option" where
  "call_before i x = Some \<lparr>tc_callId = i, tc_visible = (\<lambda>y. y < x)\<rparr>"

abbreviation "demo_first \<equiv> demo_request ''A'' ''a'' 30 7 (call_before ''c1'' 7)"
abbreviation "demo_second \<equiv> demo_request ''A'' ''a'' 40 8 (call_before ''c2'' 7)"


lemma demo_check:
  assumes "\<not> isl (checkAndAcquireEntityLock (\<lambda>_ _. ''Hero'') q db)" "fst (demo_check q db) = r"
  shows "checkAndAcquireEntityLock (\<lambda>_ _. ''Hero'') q db = Inr (r, snd (demo_check q db))"
  using assms by (cases "checkAndAcquireEntityLock (\<lambda>_ _. ''Hero'') q db") (auto simp: demo_check_def)

abbreviation "demo_stale \<equiv> demo_request ''D'' ''d'' 30 7 None"
abbreviation "demo_again \<equiv> demo_request ''D'' ''d'' 40 8 None"

lemma demo_stale:
  "checkAndAcquireEntityLock (\<lambda>_ _. ''Hero'') demo_stale demo_draft
    = Inr (Stale_draft \<lparr>sd_chatTitle = ''Chat C'', sd_changedAt = 10\<rparr>, snd (demo_check demo_stale demo_draft))"
  by (rule demo_check) code_simp+

section \<open>Properties\<close>

text \<open>C14. No lost update between two calls: after a permitted write by one call, a write of
  the same entity on the same branch by another call that did not see the first one's
  transaction when it started is refused, whatever happened to other entities in between.\<close>

theorem concurrent_call_is_refused:
  assumes "checkAndAcquireEntityLock label qa db = Inr (Permitted t, db1)"
    and "truthy (lq_branch qa) = Some b" "writingChat db b (lq_holder qa) = Some wa"
    and "sessions d = sessions db1"
    and "js_get (locks d) (lq_kind qa, lq_entity qa) = js_get (locks db1) (lq_kind qa, lq_entity qa)"
    and "lq_kind qb = lq_kind qa" "lq_entity qb = lq_entity qa" "lq_branch qb = lq_branch qa"
    and "writingChat db b (lq_holder qb) = Some wb"
    and "lq_call qb = Some c" "\<not> tc_visible c (lq_xid qa)" "map_option tc_callId (lq_call qa) \<noteq> Some (tc_callId c)"
    and "checkAndAcquireEntityLock label qb d = Inr (r, d')"
  shows "r = Concurrent_call \<or> (\<exists>held_by. r = Sibling_lease held_by)"
proof -
  from permitted_write_recorded [OF assms(1-3)] assms(5) obtain l where
    l: "js_get (locks d) (lq_kind qa, lq_entity qa) = Some l" "lk_branch l = b"
    "lk_write l = Some (lq_xid qa)" "lk_call l = map_option tc_callId (lq_call qa)" by auto
  have "sessions d = sessions db" using check_sessions [OF assms(1)] assms(4) by simp
  then have w: "writingChat d b (lq_holder qb) = Some wb" using assms(9) writingChat_cong by metis
  have same: "insert_lock qb (wc_owner wb) b d = d"
    using l(1) assms(6,7) by (intro insert_lock_present) simp
  have since: "written_since_call (lq_call qb) l"
    using l(3,4) assms(10-12) by (auto simp: written_since_call_def)
  show ?thesis
  proof (rule check_cases [OF assms(13) _ w])
    show "truthy (lq_branch qb) = Some b" using assms(2,8) by simp
    fix row db2
    assume row: "js_get (locks (insert_lock qb (wc_owner wb) b d)) (lq_kind qb, lq_entity qb) = Some row"
    then have "row = l" using l(1) assms(6,7) same by simp
    show ?thesis if "same_branch_write qb b wb row db2 = (r, d')"
      using that since \<open>row = l\<close> by (simp add: same_branch_write_def)
    show ?thesis if "lk_branch row \<noteq> b" using that l(2) \<open>row = l\<close> by simp
  qed simp
qed

lemma concurrent_call_is_refused_witness:
  "fst (demo_check demo_second (snd (demo_check demo_first demo_site))) = Concurrent_call
   \<or> (\<exists>l. fst (demo_check demo_second (snd (demo_check demo_first demo_site))) = Sibling_lease l)"
proof (rule concurrent_call_is_refused)
  show "checkAndAcquireEntityLock (\<lambda>_ _. ''Hero'') demo_first demo_site
      = Inr (Permitted None, snd (demo_check demo_first demo_site))"
    by (rule demo_check) code_simp+
  let ?db = "snd (demo_check demo_first demo_site)"
  show "checkAndAcquireEntityLock (\<lambda>_ _. ''Hero'') demo_second ?db
      = Inr (fst (demo_check demo_second ?db), snd (demo_check demo_second ?db))"
    by (rule demo_check) (code_simp, rule refl)
  show "truthy (lq_branch demo_first) = Some ''a''" by code_simp
  have w: "writingChat demo_site ''a'' (Some ''A'')
      = Some \<lparr>wc_owner = ''A'', wc_branch_kind = ''chat'', wc_is_caller = True, wc_is_subagent = False\<rparr>"
    by code_simp
  then show "writingChat demo_site ''a'' (lq_holder demo_first)
      = Some \<lparr>wc_owner = ''A'', wc_branch_kind = ''chat'', wc_is_caller = True, wc_is_subagent = False\<rparr>"
    "writingChat demo_site ''a'' (lq_holder demo_second)
      = Some \<lparr>wc_owner = ''A'', wc_branch_kind = ''chat'', wc_is_caller = True, wc_is_subagent = False\<rparr>"
    by simp_all
  show "lq_call demo_second = Some \<lparr>tc_callId = ''c2'', tc_visible = (\<lambda>y. y < 7)\<rparr>" by (simp add: call_before_def)
qed (simp_all add: call_before_def)

text \<open>A refused write changes nothing of anybody's work: no snapshot, header or branch
  tag, and every lock row there was keeps its holder and its stamp.\<close>

theorem refused_write_changes_no_work:
  assumes "checkAndAcquireEntityLock label q db = Inr (r, db')" "\<And>t. r \<noteq> Permitted t"
  shows "snapshots db' = snapshots db \<and> headers db' = headers db \<and> branch_tag db' = branch_tag db
    \<and> (\<forall>k l. js_get (locks db) k = Some l \<longrightarrow> js_get (locks db') k = Some l)"
proof -
  obtain b where b: "truthy (lq_branch q) = Some b"
    using assms by (cases "truthy (lq_branch q)") (auto simp: checkAndAcquireEntityLock_def)
  obtain w where w: "writingChat db b (lq_holder q) = Some w"
    using assms b by (cases "writingChat db b (lq_holder q)") (auto simp: checkAndAcquireEntityLock_def)
  let ?db1 = "insert_lock q (wc_owner w) b db"
  have keeps: "js_get (locks ?db1) k = Some l" if "js_get (locks db) k = Some l" for k l
    using that by (auto simp: insert_lock_def js_get_insert_if_absent)
  have "same_tables ?db1 db'"
  proof (rule check_cases [OF assms(1) b w])
    fix row db2 assume s: "sibling_refusal q b w ?db1 = (None, db2)"
    have t: "same_tables ?db1 db2" using sibling_refusal_frame [OF s] by simp
    show ?thesis if "same_branch_write q b w row db2 = (r, db')"
      using that
    proof (cases rule: same_branch_write_cases)
      case (stale s)
      have "same_tables db2 (snd (draftConflict (lq_now q) (lq_kind q, lq_entity q) b (wc_owner w) db2))"
        using draftConflict_frame by blast
      then show ?thesis using t stale(4) by (simp add: same_tables_def)
    qed (use t assms(2) in auto)
    show ?thesis if "other_branch_write label q b w row db2 = Inr (r, db')"
      using that assms(2) by (auto simp: other_branch_write_def result_simps Let_def)
  next
    fix held_by assume "sibling_refusal q b w ?db1 = (Some held_by, db')"
    from sibling_refusal_frame [OF this] show ?thesis by simp
  qed
  with keeps show ?thesis by (simp add: same_tables_def)
qed

lemma refused_write_changes_no_work_witness:
  "snapshots (snd (demo_check demo_stale demo_draft)) = snapshots demo_draft
    \<and> headers (snd (demo_check demo_stale demo_draft)) = headers demo_draft"
  using refused_write_changes_no_work [OF demo_stale] by simp

lemma seen_after_conflict:
  "\<exists>seen. seen_at (snd (draftConflict now key b chat db)) chat key = Some seen \<and> now \<le> seen"
  by (auto simp: draftConflict_def observeDraftEntity_def seen_at_def observe_def js_map_simps
      split: option.splits)

lemma draftConflict_None:
  "fst (draftConflict now key b chat db) = None \<longleftrightarrow> unseen db chat key b = []"
proof -
  have "sort_key (\<lambda>c. - fst c) (unseen db chat key b) = [] \<longleftrightarrow> unseen db chat key b = []"
    by (metis length_0_conv length_sort)
  then show ?thesis
    by (cases "sort_key (\<lambda>c. - fst c) (unseen db chat key b)") (auto simp: draftConflict_def)
qed

lemma unseen_Nil:
  "unseen db chat key b = [] \<longleftrightarrow>
     (\<forall>at owner. (at, owner) \<in> set (draft_changes db (fst key) (snd key) b) \<longrightarrow> owner \<noteq> Some chat
        \<longrightarrow> (\<exists>seen. seen_at db chat key = Some seen \<and> at \<le> seen))"
  by (cases "seen_at db chat key") (fastforce simp: unseen_def filter_empty_conv not_less)+

text \<open>A stale draft write goes through once it is told: when a write was refused because
  another chat changed the entity, the same write made again by a call that sees everything,
  with no change newer than the refusal in between, is permitted.\<close>

theorem stale_write_passes_when_redone:
  assumes "checkAndAcquireEntityLock label q db = Inr (Stale_draft s, db1)"
    and "truthy (lq_branch q) = Some b"
    and "\<forall>c \<in> set (draft_changes db (lq_kind q) (lq_entity q) b). fst c \<le> lq_now q"
    and "lq_kind q' = lq_kind q" "lq_entity q' = lq_entity q" "lq_branch q' = lq_branch q"
      "lq_holder q' = lq_holder q"
    and "\<forall>c xid. lq_call q' = Some c \<longrightarrow> tc_visible c xid"
  shows "\<exists>db2. checkAndAcquireEntityLock label q' db1 = Inr (Permitted None, db2)"
proof -
  let ?key = "(lq_kind q, lq_entity q)"
  obtain w where w: "writingChat db b (lq_holder q) = Some w"
    using assms(1,2) by (cases "writingChat db b (lq_holder q)") (auto simp: checkAndAcquireEntityLock_def)
  obtain row db0 where row: "js_get (locks (insert_lock q (wc_owner w) b db)) ?key = Some row"
    and lease: "sibling_refusal q b w (insert_lock q (wc_owner w) b db) = (None, db0)"
    and branch: "lk_branch row = b" and written: "same_branch_write q b w row db0 = (Stale_draft s, db1)"
    by (rule check_cases [OF assms(1,2) w]) (auto simp: other_branch_write_def result_simps Let_def)
  have draft: "wc_branch_kind w = ''draft''" "wc_is_caller w"
    and conflict: "draftConflict (lq_now q) ?key b (wc_owner w) db0 = (Some s, db1)"
    using written by (auto elim: same_branch_write_cases)
  have t0: "same_tables (insert_lock q (wc_owner w) b db) db0" using sibling_refusal_frame [OF lease] by simp
  have t1: "same_tables db0 db1" "leases db1 = leases db0"
    using draftConflict_frame [of db0 "lq_now q" ?key b "wc_owner w"] conflict by simp_all
  have same: "sessions db1 = sessions db" "snapshots db1 = snapshots db" "headers db1 = headers db"
    using t0 t1 by (simp_all add: same_tables_def)
  have row1: "js_get (locks db1) (lq_kind q', lq_entity q') = Some row"
    using row t0 t1 assms(4,5) by (simp add: same_tables_def)
  have w': "writingChat db1 b (lq_holder q') = Some w"
    using w assms(7) writingChat_cong [OF same(1)] by simp
  have ins: "insert_lock q' (wc_owner w) b db1 = db1" by (rule insert_lock_present [OF row1])
  obtain db3 where lease': "sibling_refusal q' b w db1 = (None, db3)"
    using sibling_refusal_again [OF lease t1(2) assms(4,5,7)] by (metis prod.collapse)
  note t3 = sibling_refusal_frame [OF lease']
  have since: "\<not> written_since_call (lq_call q') row"
    using assms(8) by (auto simp: written_since_call_def split: option.splits)
  have "unseen db3 (wc_owner w) ?key b = []"
  proof -
    obtain seen where seen: "seen_at db1 (wc_owner w) ?key = Some seen" "lq_now q \<le> seen"
      using seen_after_conflict [where now = "lq_now q" and key = ?key and b = b and chat = "wc_owner w" and db = db0] conflict by auto
    have "draft_changes db3 (lq_kind q) (lq_entity q) b = draft_changes db (lq_kind q) (lq_entity q) b"
      using t3 same by (intro draft_changes_cong) (simp_all add: same_tables_def)
    moreover have "seen_at db3 (wc_owner w) ?key = Some seen" using seen(1) t3 by (simp add: seen_at_def)
    ultimately show ?thesis using assms(3) seen(2) by (fastforce simp: unseen_Nil)
  qed
  then have "fst (draftConflict (lq_now q') (lq_kind q', lq_entity q') b (wc_owner w) db3) = None"
    using assms(4,5) by (simp add: draftConflict_None)
  then obtain db4 where "draftConflict (lq_now q') (lq_kind q', lq_entity q') b (wc_owner w) db3 = (None, db4)"
    by (metis prod.collapse)
  then have "same_branch_write q' b w row db3 = (Permitted None, stamp_write q' db4)"
    using draft since by (simp add: same_branch_write_def)
  then have "checkAndAcquireEntityLock label q' db1 = Inr (Permitted None, stamp_write q' db4)"
    using assms(2,6) w' ins row1 lease' branch by (simp add: checkAndAcquireEntityLock_def Let_def)
  then show ?thesis by blast
qed

lemma stale_write_passes_when_redone_witness:
  "\<exists>db2. checkAndAcquireEntityLock (\<lambda>_ _. ''Hero'') demo_again (snd (demo_check demo_stale demo_draft))
     = Inr (Permitted None, db2)"
proof (rule stale_write_passes_when_redone [OF demo_stale])
  show "\<forall>c \<in> set (draft_changes demo_draft (lq_kind demo_stale) (lq_entity demo_stale) ''d''). fst c \<le> lq_now demo_stale"
    by code_simp
qed (simp_all add: truthy_def)

text \<open>A draft chat's write of an entity nobody else's branch holds is refused as stale
  exactly when another chat has a pending change of it dated after this chat last saw it.  A
  change is dated by the start of its transaction, so one that started before this chat's
  read and committed after it is never reported.\<close>

theorem draft_write_stale_exactly_when_unseen:
  assumes "truthy (lq_branch q) = Some b" "writingChat db b (lq_holder q) = Some w"
    and "wc_branch_kind w = ''draft''" "wc_is_caller w" "\<not> wc_is_subagent w" "lq_call q = None"
    and "\<forall>l. js_get (locks db) (lq_kind q, lq_entity q) = Some l \<longrightarrow> lk_branch l = b"
  shows "(\<exists>s db'. checkAndAcquireEntityLock label q db = Inr (Stale_draft s, db')) \<longleftrightarrow>
    (\<exists>at owner. (at, owner) \<in> set (draft_changes db (lq_kind q) (lq_entity q) b)
       \<and> owner \<noteq> Some (wc_owner w)
       \<and> (\<forall>seen. seen_at db (wc_owner w) (lq_kind q, lq_entity q) = Some seen \<longrightarrow> seen < at))"
proof -
  let ?key = "(lq_kind q, lq_entity q)" and ?db1 = "insert_lock q (wc_owner w) b db"
  obtain row where row: "js_get (locks ?db1) ?key = Some row" "lk_branch row = b"
    using assms(7) by (cases "js_get (locks db) ?key") (auto simp: insert_lock_def js_get_insert_if_absent)
  have lease: "sibling_refusal q b w ?db1 = (None, ?db1)"
    using assms(3,5) by (simp add: sibling_refusal_def split: option.split)
  have since: "\<not> written_since_call (lq_call q) row" using assms(6) by (simp add: written_since_call_def)
  have "checkAndAcquireEntityLock label q db = Inr (same_branch_write q b w row ?db1)"
    using assms(1,2) row lease by (simp add: checkAndAcquireEntityLock_def Let_def)
  moreover have "(\<exists>s db'. same_branch_write q b w row ?db1 = (Stale_draft s, db')) \<longleftrightarrow>
      fst (draftConflict (lq_now q) ?key b (wc_owner w) ?db1) \<noteq> None"
    using since assms(3,4)
    by (auto simp: same_branch_write_def split: option.splits prod.splits)
  moreover have "draft_changes ?db1 (lq_kind q) (lq_entity q) b = draft_changes db (lq_kind q) (lq_entity q) b"
    by (intro draft_changes_cong) simp_all
  moreover have "seen_at ?db1 (wc_owner w) ?key = seen_at db (wc_owner w) ?key" by (simp add: seen_at_def)
  ultimately show ?thesis
    by (simp add: draftConflict_None unseen_Nil) (metis not_le)
qed

lemma draft_write_stale_exactly_when_unseen_witness: "\<exists>s db'. checkAndAcquireEntityLock (\<lambda>_ _. ''Hero'') demo_stale demo_draft = Inr (Stale_draft s, db')"
proof (subst draft_write_stale_exactly_when_unseen)
  show "writingChat demo_draft ''d'' (lq_holder demo_stale)
     = Some \<lparr>wc_owner = ''D'', wc_branch_kind = ''draft'', wc_is_caller = True, wc_is_subagent = False\<rparr>"
    by code_simp
  have c: "set (draft_changes demo_draft Module ''m'' ''d'') = {(10, Some ''C'')}" by code_simp
  have o1: "seen_at demo_draft w k = None" for w k by (simp add: seen_at_def demo_site_defs js_get_def)
  show "\<exists>at owner. (at, owner) \<in> set (draft_changes demo_draft (lq_kind demo_stale) (lq_entity demo_stale) ''d'')
       \<and> owner \<noteq> Some (wc_owner \<lparr>wc_owner = ''D'', wc_branch_kind = ''draft'', wc_is_caller = True, wc_is_subagent = False\<rparr>)
       \<and> (\<forall>seen. seen_at demo_draft (wc_owner \<lparr>wc_owner = ''D'', wc_branch_kind = ''draft'', wc_is_caller = True, wc_is_subagent = False\<rparr>) (lq_kind demo_stale, lq_entity demo_stale) = Some seen \<longrightarrow> seen < at)"
    by (simp add: c o1)
qed (simp_all add: truthy_def demo_site_defs js_get_def)

end
