(* ===== verification/History_Repair.thy ===== *)
theory History_Repair
  imports Entity_Refs
begin

text \<open>
  Repair of the history a chat replays to its provider
  (packages/admin-core/src/ai/chat-runner/history-repair.ts): results separated from their call
  move back to it, orphaned and repeated results go, unanswered calls are stripped or answered.
  A passthrough row carries messages of the provider's SDK, read here as the JSON they are; the
  sets of ids are lists without repetition, in insertion order.
\<close>

section \<open>Rows\<close>

datatype chat_role = User_role | Assistant_role | Tool_role

record ProviderToolCall =
  tc_id :: string
  tc_name :: string
  tc_arguments :: json

text \<open>The fields the repair only copies are kept as one value.\<close>

record ChatMessageInput =
  m_role :: chat_role
  m_content :: string
  m_toolCalls :: "ProviderToolCall list option"
  m_toolCallId :: "string option"
  m_sdkMessages :: "json list option"
  m_rest :: json

definition isPassthroughRow :: "ChatMessageInput \<Rightarrow> bool" where
  "isPassthroughRow m = (case m_sdkMessages m of Some sdk \<Rightarrow> sdk \<noteq> [] | None \<Rightarrow> False)"

definition sdk_of :: "ChatMessageInput \<Rightarrow> json list" where
  "sdk_of m = (case m_sdkMessages m of Some sdk \<Rightarrow> sdk | None \<Rightarrow> [])"

definition calls_of :: "ChatMessageInput \<Rightarrow> ProviderToolCall list" where
  "calls_of m = (case m_toolCalls m of Some calls \<Rightarrow> calls | None \<Rightarrow> [])"

definition isTurnRow :: "ChatMessageInput \<Rightarrow> bool" where
  "isTurnRow m = (m_role m = User_role \<or> m_role m = Assistant_role)"

section \<open>Parts of an assembly\<close>

text \<open>A string field of a part or message; what is no object has none.\<close>

definition string_field :: "string \<Rightarrow> json \<Rightarrow> string option" where
  "string_field k p = (case member k p of Some (JString s) \<Rightarrow> Some s | _ \<Rightarrow> None)"

definition part_is :: "string \<Rightarrow> json \<Rightarrow> bool" where
  "part_is t p = (string_field ''type'' p = Some t)"

definition providerExecuted :: "json \<Rightarrow> bool" where
  "providerExecuted p = (member ''providerExecuted'' p = Some (JBool True))"

definition sdk_parts :: "json list \<Rightarrow> json list" where
  "sdk_parts sdk = concat (map (array_member ''content'') sdk)"

record pair_ids =
  use_ids :: "string list"
  result_ids :: "string list"
  executed_ids :: "string list"

definition no_ids :: pair_ids where
  "no_ids = \<lparr>use_ids = [], result_ids = [], executed_ids = []\<rparr>"

definition harvest_part :: "json \<Rightarrow> pair_ids \<Rightarrow> pair_ids" where
  "harvest_part p ids =
     (case string_field ''toolCallId'' p of
        None \<Rightarrow> ids
      | Some i \<Rightarrow>
          if part_is ''tool-call'' p
          then (let ids1 = ids\<lparr>use_ids := js_add i (use_ids ids)\<rparr>
                in if providerExecuted p
                   then ids1\<lparr>executed_ids := js_add i (executed_ids ids1)\<rparr> else ids1)
          else if part_is ''tool-result'' p \<or> part_is ''tool-error'' p
          then ids\<lparr>result_ids := js_add i (result_ids ids)\<rparr>
          else ids)"

definition harvestSdkPairIds :: "json list \<Rightarrow> pair_ids \<Rightarrow> pair_ids" where
  "harvestSdkPairIds sdk ids = fold harvest_part (sdk_parts sdk) ids"

record PassthroughClientCall =
  pc_id :: string
  pc_name :: string

record client_inventory =
  client_calls :: "PassthroughClientCall list"
  approval_calls :: "(string \<times> string) list"
  approval_decisions :: "(string \<times> bool) list"

definition no_clients :: client_inventory where
  "no_clients = \<lparr>client_calls = [], approval_calls = [], approval_decisions = []\<rparr>"

definition client_call :: "json \<Rightarrow> PassthroughClientCall option" where
  "client_call p =
     (if part_is ''tool-call'' p \<and> \<not> providerExecuted p
      then (case (string_field ''toolCallId'' p, string_field ''toolName'' p) of
              (Some i, Some n) \<Rightarrow> Some \<lparr>pc_id = i, pc_name = n\<rparr> | _ \<Rightarrow> None)
      else None)"

definition harvest_client_part :: "json \<Rightarrow> client_inventory \<Rightarrow> client_inventory" where
  "harvest_client_part p found =
     (case client_call p of
        Some c \<Rightarrow> found\<lparr>client_calls := client_calls found @ [c]\<rparr>
      | None \<Rightarrow>
          (case (part_is ''tool-approval-request'' p, string_field ''approvalId'' p,
                 string_field ''toolCallId'' p) of
             (True, Some a, Some i) \<Rightarrow> found\<lparr>approval_calls := js_set a i (approval_calls found)\<rparr>
           | _ \<Rightarrow>
               (case (part_is ''tool-approval-response'' p, string_field ''approvalId'' p,
                      member ''approved'' p) of
                  (True, Some a, Some (JBool b)) \<Rightarrow>
                    found\<lparr>approval_decisions := js_set a b (approval_decisions found)\<rparr>
                | _ \<Rightarrow> found)))"

definition harvestClientCallsAndApprovals :: "json list \<Rightarrow> client_inventory \<Rightarrow> client_inventory" where
  "harvestClientCallsAndApprovals sdk found = fold harvest_client_part (sdk_parts sdk) found"

section \<open>Synthetic answers\<close>

text \<open>The dash of the source's prose in UTF-8.\<close>

definition em_dash :: string where
  "em_dash = '' '' @ [CHR 0xE2, CHR 0x80, CHR 0x94] @ '' ''"

definition interrupted_text :: "string \<Rightarrow> bool \<Rightarrow> string" where
  "interrupted_text name approved =
     (if approved
      then ''No result was recorded for this '' @ name @ '' call: it was approved, but the turn stopped while it ran. It may have been applied''
        @ em_dash @ ''check the current state before calling it again.''
      else ''This '' @ name @ '' call was not applied: the conversation continued before it was approved. Call it again if it is still needed.'')"

definition interruptedCallResult :: "PassthroughClientCall \<Rightarrow> bool \<Rightarrow> json" where
  "interruptedCallResult c approved =
     JObject [(''type'', JString ''tool-result''), (''toolCallId'', JString (pc_id c)),
       (''toolName'', JString (pc_name c)),
       (''output'', JObject [(''type'', JString ''error-text''),
          (''value'', JString (interrupted_text (pc_name c) approved))])]"

section \<open>Displaced results\<close>

definition openedClientCallIds :: "ChatMessageInput \<Rightarrow> string list" where
  "openedClientCallIds m =
     (if isPassthroughRow m
      then filter (\<lambda>i. i \<notin> set (result_ids (harvestSdkPairIds (sdk_of m) no_ids)))
             (map pc_id (client_calls (harvestClientCallsAndApprovals (sdk_of m) no_clients)))
      else if m_role m = Assistant_role then map tc_id (calls_of m)
      else [])"

definition result_row_id :: "ChatMessageInput \<Rightarrow> string option" where
  "result_row_id m =
     (if m_role m = Tool_role \<and> \<not> isPassthroughRow m then truthy (m_toolCallId m) else None)"

record relocation =
  ownerOf :: "(string \<times> nat) list"
  displacedByOwner :: "(nat \<times> ChatMessageInput list) list"
  displaced :: "nat list"
  relocatedIds :: "string list"
  lastTurnRow :: int

definition displace :: "nat \<Rightarrow> ChatMessageInput \<Rightarrow> relocation \<Rightarrow> relocation" where
  "displace i m s =
     (case result_row_id m of
        None \<Rightarrow> s
      | Some call \<Rightarrow>
          (case js_get (ownerOf s) call of
             None \<Rightarrow> s
           | Some owner \<Rightarrow>
               if lastTurnRow s > int owner
               then s\<lparr>displaced := displaced s @ [i], relocatedIds := relocatedIds s @ [call],
                      displacedByOwner := js_set owner
                        ((case js_get (displacedByOwner s) owner of Some rows \<Rightarrow> rows | None \<Rightarrow> []) @ [m])
                        (displacedByOwner s)\<rparr>
               else s))"

definition note_row :: "nat \<times> ChatMessageInput \<Rightarrow> relocation \<Rightarrow> relocation" where
  "note_row = (\<lambda>(i, m) s.
     (let s1 = displace i m s;
          s2 = s1\<lparr>ownerOf := fold (\<lambda>call. insert_if_absent call i) (openedClientCallIds m) (ownerOf s1)\<rparr>
      in if isTurnRow m then s2\<lparr>lastTurnRow := int i\<rparr> else s2))"

definition displaced_of :: "relocation \<Rightarrow> int \<Rightarrow> ChatMessageInput list" where
  "displaced_of s owner =
     (if owner < 0 then []
      else case js_get (displacedByOwner s) (nat owner) of Some rows \<Rightarrow> rows | None \<Rightarrow> [])"

definition place_row ::
  "relocation \<Rightarrow> nat \<times> ChatMessageInput \<Rightarrow> ChatMessageInput list \<times> int \<Rightarrow> ChatMessageInput list \<times> int" where
  "place_row s = (\<lambda>(i, m) (out, openOwner).
     (if i \<in> set (displaced s) then (out, openOwner)
      else if isTurnRow m then (out @ displaced_of s openOwner @ [m], int i)
      else (out @ [m], openOwner)))"

definition relocateDisplacedToolResults ::
  "ChatMessageInput list \<Rightarrow> ChatMessageInput list \<times> string list" where
  "relocateDisplacedToolResults messages =
     (let s = fold note_row (enumerate 0 messages)
                \<lparr>ownerOf = [], displacedByOwner = [], displaced = [], relocatedIds = [], lastTurnRow = -1\<rparr>
      in if displaced s = [] then (messages, relocatedIds s)
         else (let (out, openOwner) = fold (place_row s) (enumerate 0 messages) ([], -1)
               in (out @ displaced_of s openOwner, relocatedIds s)))"

section \<open>Rewriting an assembly\<close>

definition with_content :: "json list \<Rightarrow> json \<Rightarrow> json" where
  "with_content kept msg =
     (case msg of JObject fs \<Rightarrow> JObject (js_set ''content'' (JArray kept) fs) | _ \<Rightarrow> msg)"

definition isSayingPart :: "json \<Rightarrow> bool" where
  "isSayingPart p = (\<not> part_is ''reasoning'' p \<and> \<not> part_is ''custom'' p)"

definition dangling_call :: "string list \<Rightarrow> json \<Rightarrow> bool" where
  "dangling_call ids p =
     (part_is ''tool-call'' p \<and> providerExecuted p
      \<and> (case string_field ''toolCallId'' p of Some i \<Rightarrow> i \<in> set ids | None \<Rightarrow> False))"

definition strip_message :: "string list \<Rightarrow> json \<Rightarrow> json list" where
  "strip_message ids msg =
     (if \<not> is_array (member ''content'' msg) then [msg]
      else (let parts = array_member ''content'' msg;
                kept = filter (\<lambda>p. \<not> dangling_call ids p) parts
            in if length kept = length parts then [msg]
               else if list_ex isSayingPart kept then [with_content kept msg]
               else []))"

definition stripDanglingServerCalls :: "json list \<Rightarrow> string list \<Rightarrow> json list" where
  "stripDanglingServerCalls sdk ids = concat (map (strip_message ids) sdk)"

text \<open>The parts kept, the ids dropped and the ids answered so far.\<close>

fun keep_results :: "json list \<Rightarrow> string list \<Rightarrow> json list \<times> string list \<times> string list" where
  "keep_results [] emitted = ([], [], emitted)"
| "keep_results (p # ps) emitted =
     (case (if part_is ''tool-result'' p then string_field ''toolCallId'' p else None) of
        None \<Rightarrow> (let (kept, dropped, e) = keep_results ps emitted in (p # kept, dropped, e))
      | Some i \<Rightarrow>
          if i \<in> set emitted
          then (let (kept, dropped, e) = keep_results ps emitted in (kept, i # dropped, e))
          else (let (kept, dropped, e) = keep_results ps (js_add i emitted) in (p # kept, dropped, e)))"

definition tool_message :: "json \<Rightarrow> bool" where
  "tool_message msg = (string_field ''role'' msg = Some ''tool'' \<and> is_array (member ''content'' msg))"

fun drop_messages :: "json list \<Rightarrow> string list \<Rightarrow> json list \<times> string list \<times> string list" where
  "drop_messages [] emitted = ([], [], emitted)"
| "drop_messages (msg # msgs) emitted =
     (if \<not> tool_message msg
      then (let (out, dropped, e) = drop_messages msgs emitted in (msg # out, dropped, e))
      else (let parts = array_member ''content'' msg;
                (kept, dropped1, e1) = keep_results parts emitted;
                (out, dropped2, e2) = drop_messages msgs e1
            in ((if length kept = length parts then [msg]
                 else if kept \<noteq> [] then [with_content kept msg] else []) @ out,
                dropped1 @ dropped2, e2)))"

definition dropRepeatedToolResults :: "json list \<Rightarrow> string list \<Rightarrow> json list \<times> string list \<times> string list" where
  "dropRepeatedToolResults sdk emitted =
     (case drop_messages sdk emitted of
        (out, dropped, e) \<Rightarrow> (if dropped = [] then sdk else out, dropped, e))"

section \<open>Deferred server calls\<close>

text \<open>A null in an assembly has no role; the caller stores the last assistant row's new assembly.\<close>

definition isBareToolRow :: "ChatMessageInput \<Rightarrow> bool" where
  "isBareToolRow m =
     (m_role m = Tool_role \<and> \<not> list_ex (\<lambda>msg. string_field ''role'' msg = Some ''user'') (sdk_of m))"

record SettledServerCalls =
  ss_messages :: "ChatMessageInput list"
  ss_strippedIds :: "string list"
  ss_lastAssistant :: "json list option"

definition harvest_rows :: "ChatMessageInput list \<Rightarrow> pair_ids" where
  "harvest_rows messages =
     fold (\<lambda>m ids. if isPassthroughRow m then harvestSdkPairIds (sdk_of m) ids else ids) messages no_ids"

definition settle_row :: "string list \<Rightarrow> ChatMessageInput \<Rightarrow> ChatMessageInput list" where
  "settle_row dangling m =
     (if \<not> isPassthroughRow m \<or> m_role m \<noteq> Assistant_role then [m]
      else (let sdk = stripDanglingServerCalls (sdk_of m) dangling
            in if sdk = [] then [] else [m\<lparr>m_sdkMessages := Some sdk\<rparr>]))"

definition after_last_assistant :: "ChatMessageInput list \<Rightarrow> ChatMessageInput option \<times> ChatMessageInput list" where
  "after_last_assistant messages =
     (let later = takeWhile (\<lambda>m. m_role m \<noteq> Assistant_role) (rev messages)
      in (case dropWhile (\<lambda>m. m_role m \<noteq> Assistant_role) (rev messages) of m # _ \<Rightarrow> Some m | [] \<Rightarrow> None,
          rev later))"

definition settleDeferredServerCalls :: "ChatMessageInput list \<Rightarrow> SettledServerCalls" where
  "settleDeferredServerCalls messages =
     (let ids = harvest_rows messages;
          dangling = filter (\<lambda>i. i \<notin> set (result_ids ids)) (executed_ids ids);
          (lastAssistant, later) = after_last_assistant messages;
          deferred = (case lastAssistant of
                        Some m \<Rightarrow> executed_ids (harvestSdkPairIds (sdk_of m) no_ids) | None \<Rightarrow> []);
          dangling1 = (if list_all isBareToolRow later then filter (\<lambda>i. i \<notin> set deferred) dangling
                       else dangling)
      in if dangling1 = [] then \<lparr>ss_messages = messages, ss_strippedIds = [], ss_lastAssistant = None\<rparr>
         else \<lparr>ss_messages = concat (map (settle_row dangling1) messages), ss_strippedIds = dangling1,
                ss_lastAssistant =
                  (case lastAssistant of
                     Some m \<Rightarrow>
                       (if isPassthroughRow m \<and> stripDanglingServerCalls (sdk_of m) dangling1 \<noteq> []
                        then Some (stripDanglingServerCalls (sdk_of m) dangling1) else None)
                   | None \<Rightarrow> None)\<rparr>)"

section \<open>The repair\<close>

record answered_call =
  ac_id :: string
  ac_name :: string
  ac_approved :: bool

record HistoryRepairResult =
  hr_messages :: "ChatMessageInput list"
  droppedToolResultIds :: "string list"
  strippedToolCallIds :: "string list"
  droppedEmptyAssistantMessages :: nat
  strippedServerToolCallIds :: "string list"
  answeredInterruptedCalls :: "answered_call list"
  relocatedToolResultIds :: "string list"

text \<open>The inventory of the first pass, and what the second pass has so far besides its result.\<close>

definition inventory_row :: "ChatMessageInput \<Rightarrow> pair_ids \<Rightarrow> pair_ids" where
  "inventory_row m ids =
     (if isPassthroughRow m then harvestSdkPairIds (sdk_of m) ids
      else if m_role m = Assistant_role
      then ids\<lparr>use_ids := fold js_add (map tc_id (calls_of m)) (use_ids ids)\<rparr>
      else case result_row_id m of
             Some i \<Rightarrow> ids\<lparr>result_ids := js_add i (result_ids ids)\<rparr>
           | None \<Rightarrow> ids)"

definition inventory :: "ChatMessageInput list \<Rightarrow> pair_ids" where
  "inventory messages = fold inventory_row messages no_ids"

definition row_client_calls :: "ChatMessageInput \<Rightarrow> PassthroughClientCall list" where
  "row_client_calls m =
     (if isPassthroughRow m
      then client_calls (harvestClientCallsAndApprovals (sdk_of m) no_clients) else [])"

definition approvedCallIds :: "ChatMessageInput list \<Rightarrow> string list" where
  "approvedCallIds messages =
     (let found = fold (\<lambda>m f. if isPassthroughRow m
                    then harvestClientCallsAndApprovals (sdk_of m) f else f) messages no_clients
      in map snd (filter (\<lambda>(a, i). js_get (approval_decisions found) a = Some True) (approval_calls found)))"

definition lastTurnIndex :: "ChatMessageInput list \<Rightarrow> int" where
  "lastTurnIndex messages =
     fold (\<lambda>(i, m) last. if isTurnRow m then int i else last) (enumerate 0 messages) (-1)"

record repair_pass =
  r_ids :: pair_ids
  r_dangling :: "string list"
  r_approved :: "string list"
  r_lastTurn :: int

record repair_state =
  rs_result :: HistoryRepairResult
  rs_emitted :: "string list"
  rs_results :: "string list"

definition push_row :: "ChatMessageInput \<Rightarrow> repair_state \<Rightarrow> repair_state" where
  "push_row m s = s\<lparr>rs_result := (rs_result s)\<lparr>hr_messages := hr_messages (rs_result s) @ [m]\<rparr>\<rparr>"

definition answers_row :: "json list \<Rightarrow> ChatMessageInput" where
  "answers_row parts =
     \<lparr>m_role = Tool_role, m_content = [], m_toolCalls = None, m_toolCallId = None,
      m_sdkMessages = Some [JObject [(''role'', JString ''tool''), (''content'', JArray parts)]],
      m_rest = JNull\<rparr>"

definition pushWithInterruptedAnswers ::
  "repair_pass \<Rightarrow> PassthroughClientCall list \<Rightarrow> ChatMessageInput \<Rightarrow> nat \<Rightarrow> repair_state \<Rightarrow> repair_state" where
  "pushWithInterruptedAnswers pass calls m index s =
     (let s1 = push_row m s;
          dangling = filter (\<lambda>c. pc_id c \<notin> set (rs_results s) \<and> int index < r_lastTurn pass) calls
      in if dangling = [] then s1
         else (let approved = (\<lambda>c. pc_id c \<in> set (r_approved pass));
                   r = rs_result s1;
                   s2 = s1\<lparr>rs_result := r\<lparr>answeredInterruptedCalls := answeredInterruptedCalls r @
                          map (\<lambda>c. \<lparr>ac_id = pc_id c, ac_name = pc_name c, ac_approved = approved c\<rparr>) dangling\<rparr>,
                          rs_results := fold js_add (map pc_id dangling) (rs_results s1)\<rparr>
               in push_row (answers_row (map (\<lambda>c. interruptedCallResult c (approved c)) dangling)) s2))"

definition repair_passthrough :: "repair_pass \<Rightarrow> nat \<Rightarrow> ChatMessageInput \<Rightarrow> repair_state \<Rightarrow> repair_state" where
  "repair_passthrough pass index m s =
     (let rowDangling = executed_ids (harvestSdkPairIds (sdk_of m) no_ids);
          toStrip = filter (\<lambda>i. i \<in> set (r_dangling pass)) rowDangling;
          sdk = (if toStrip = [] then sdk_of m else stripDanglingServerCalls (sdk_of m) (r_dangling pass));
          r = rs_result s;
          s1 = s\<lparr>rs_result := r\<lparr>strippedServerToolCallIds := strippedServerToolCallIds r @ toStrip\<rparr>\<rparr>
      in if toStrip \<noteq> [] \<and> sdk = []
         then s1\<lparr>rs_result := (rs_result s1)\<lparr>droppedEmptyAssistantMessages :=
                   droppedEmptyAssistantMessages r + 1\<rparr>\<rparr>
         else (case dropRepeatedToolResults sdk (rs_emitted s1) of
                 (deduped, dropped, emitted) \<Rightarrow>
                   (let s2 = s1\<lparr>rs_emitted := emitted,
                          rs_result := (rs_result s1)\<lparr>droppedToolResultIds := droppedToolResultIds r @ dropped\<rparr>\<rparr>
                    in if dropped \<noteq> [] \<and> deduped = [] then s2
                       else pushWithInterruptedAnswers pass (row_client_calls m)
                              (m\<lparr>m_sdkMessages := Some deduped\<rparr>) index s2)))"

definition repair_tool_row :: "repair_pass \<Rightarrow> ChatMessageInput \<Rightarrow> repair_state \<Rightarrow> repair_state" where
  "repair_tool_row pass m s =
     (let r = rs_result s;
          drop_it = (\<lambda>i. s\<lparr>rs_result := r\<lparr>droppedToolResultIds := droppedToolResultIds r @ [i]\<rparr>\<rparr>)
      in case truthy (m_toolCallId m) of
           None \<Rightarrow> drop_it ''(missing toolCallId)''
         | Some i \<Rightarrow>
             if i \<notin> set (use_ids (r_ids pass)) \<or> i \<in> set (rs_emitted s) then drop_it i
             else push_row m (s\<lparr>rs_emitted := js_add i (rs_emitted s)\<rparr>))"

definition repair_calls_row :: "ChatMessageInput \<Rightarrow> repair_state \<Rightarrow> repair_state" where
  "repair_calls_row m s =
     (let calls = calls_of m;
          answered = filter (\<lambda>c. tc_id c \<in> set (rs_results s)) calls;
          r = rs_result s
      in if length answered = length calls then push_row m s
         else (let s1 = s\<lparr>rs_result := r\<lparr>strippedToolCallIds := strippedToolCallIds r
                          @ map tc_id (filter (\<lambda>c. tc_id c \<notin> set (rs_results s)) calls)\<rparr>\<rparr>
               in if m_content m = [] \<and> answered = []
                  then s1\<lparr>rs_result := (rs_result s1)\<lparr>droppedEmptyAssistantMessages :=
                            droppedEmptyAssistantMessages r + 1\<rparr>\<rparr>
                  else push_row (m\<lparr>m_toolCalls := (if answered = [] then None else Some answered)\<rparr>) s1))"

definition repair_row :: "repair_pass \<Rightarrow> nat \<times> ChatMessageInput \<Rightarrow> repair_state \<Rightarrow> repair_state" where
  "repair_row pass = (\<lambda>(index, m) s.
     (if isPassthroughRow m then repair_passthrough pass index m s
      else if m_role m = Tool_role then repair_tool_row pass m s
      else if m_role m = Assistant_role \<and> calls_of m \<noteq> [] then repair_calls_row m s
      else push_row m s))"

definition repair_pass_of :: "ChatMessageInput list \<Rightarrow> repair_pass" where
  "repair_pass_of messages =
     (let ids = inventory messages
      in \<lparr>r_ids = ids, r_dangling = filter (\<lambda>i. i \<notin> set (result_ids ids)) (executed_ids ids),
          r_approved = approvedCallIds messages, r_lastTurn = lastTurnIndex messages\<rparr>)"

definition no_repairs :: "string list \<Rightarrow> HistoryRepairResult" where
  "no_repairs relocated =
     \<lparr>hr_messages = [], droppedToolResultIds = [], strippedToolCallIds = [],
      droppedEmptyAssistantMessages = 0, strippedServerToolCallIds = [], answeredInterruptedCalls = [],
      relocatedToolResultIds = relocated\<rparr>"

definition repairToolCallPairing :: "ChatMessageInput list \<Rightarrow> HistoryRepairResult" where
  "repairToolCallPairing stored =
     (let (messages, relocated) = relocateDisplacedToolResults stored;
          pass = repair_pass_of messages
      in rs_result (fold (repair_row pass) (enumerate 0 messages)
           \<lparr>rs_result = no_repairs relocated, rs_emitted = [], rs_results = result_ids (r_ids pass)\<rparr>))"

end
