(* ===== verification/History_Pairing.thy ===== *)
theory History_Pairing
  imports History_Repair
begin

text \<open>
  What the second pass of the history repair establishes: a specification of a paired history,
  one preservation lemma per kind of row, and the repair of a history that is paired already.
\<close>

section \<open>What rows and assemblies carry\<close>

definition parts_where :: "(json \<Rightarrow> bool) \<Rightarrow> json list \<Rightarrow> json list" where
  "parts_where P sdk = concat (map (\<lambda>msg. if P msg then array_member ''content'' msg else []) sdk)"

definition part_use :: "json \<Rightarrow> string option" where
  "part_use p = (if part_is ''tool-call'' p then string_field ''toolCallId'' p else None)"

definition part_executed :: "json \<Rightarrow> string option" where
  "part_executed p = (if providerExecuted p then part_use p else None)"

definition part_result :: "json \<Rightarrow> string option" where
  "part_result p =
     (if part_is ''tool-result'' p \<or> part_is ''tool-error'' p then string_field ''toolCallId'' p else None)"

definition part_client_result :: "json \<Rightarrow> string option" where
  "part_client_result p = (if part_is ''tool-result'' p then string_field ''toolCallId'' p else None)"

definition ids_in :: "(json \<Rightarrow> 'a option) \<Rightarrow> json list \<Rightarrow> 'a set" where
  "ids_in f sdk = {i. \<exists>p \<in> set (sdk_parts sdk). f p = Some i}"

definition sdk_client_results :: "json list \<Rightarrow> string list" where
  "sdk_client_results sdk = List.map_filter part_client_result (parts_where tool_message sdk)"

lemmas part_defs = part_use_def part_executed_def part_result_def part_client_result_def

lemma sdk_parts_where: "sdk_parts sdk = parts_where (\<lambda>_. True) sdk"
  by (simp add: sdk_parts_def parts_where_def)

lemma part_is_unique: "part_is t p \<Longrightarrow> part_is u p \<longleftrightarrow> u = t"
  by (auto simp: part_is_def)

lemma harvest_part_sets:
  "set (use_ids (harvest_part p ids)) = set (use_ids ids) \<union> set_option (part_use p)"
  "set (result_ids (harvest_part p ids)) = set (result_ids ids) \<union> set_option (part_result p)"
  "set (executed_ids (harvest_part p ids)) = set (executed_ids ids) \<union> set_option (part_executed p)"
  by (auto simp: harvest_part_def part_defs Let_def part_is_unique split: option.splits)

lemma fold_harvest_part_sets:
  "set (use_ids (fold harvest_part ps ids)) = set (use_ids ids) \<union> {i. \<exists>p \<in> set ps. part_use p = Some i}"
  "set (result_ids (fold harvest_part ps ids)) = set (result_ids ids) \<union> {i. \<exists>p \<in> set ps. part_result p = Some i}"
  "set (executed_ids (fold harvest_part ps ids)) = set (executed_ids ids) \<union> {i. \<exists>p \<in> set ps. part_executed p = Some i}"
  by (induction ps arbitrary: ids) (auto simp: harvest_part_sets)

lemma harvest_sets:
  "set (use_ids (harvestSdkPairIds sdk ids)) = set (use_ids ids) \<union> ids_in part_use sdk"
  "set (result_ids (harvestSdkPairIds sdk ids)) = set (result_ids ids) \<union> ids_in part_result sdk"
  "set (executed_ids (harvestSdkPairIds sdk ids)) = set (executed_ids ids) \<union> ids_in part_executed sdk"
  by (simp_all add: harvestSdkPairIds_def fold_harvest_part_sets ids_in_def)

lemma no_ids_sets [simp]: "use_ids no_ids = []" "result_ids no_ids = []" "executed_ids no_ids = []"
  by (simp_all add: no_ids_def)

lemma client_calls_harvest:
  "client_calls (harvestClientCallsAndApprovals sdk found) = client_calls found @ List.map_filter client_call (sdk_parts sdk)"
proof -
  have "client_calls (fold harvest_client_part ps f) = client_calls f @ List.map_filter client_call ps" for ps f
  proof (induction ps arbitrary: f)
    case (Cons p ps)
    have "client_calls (harvest_client_part p f) = client_calls f @ (case client_call p of Some c \<Rightarrow> [c] | None \<Rightarrow> [])"
      by (auto simp: harvest_client_part_def split: option.splits bool.splits json.splits)
    with Cons show ?case by (simp split: option.splits)
  qed simp
  then show ?thesis by (simp add: harvestClientCallsAndApprovals_def)
qed

section \<open>Rewritten assemblies\<close>

lemma with_content_member:
  assumes "is_array (member ''content'' msg)"
  shows "member k (with_content kept msg) = (if k = ''content'' then Some (JArray kept) else member k msg)"
  using assms
  by (cases msg) (auto simp: is_array_def member_def with_content_def js_map_simps js_get_def [symmetric])

lemma with_content_content:
  "is_array (member ''content'' msg) \<Longrightarrow> array_member ''content'' (with_content kept msg) = kept"
  by (simp add: array_member_def with_content_member)

lemma tool_message_with_content:
  "is_array (member ''content'' msg) \<Longrightarrow> tool_message (with_content kept msg) = tool_message msg"
  by (simp add: tool_message_def string_field_def with_content_member is_array_def)

lemma no_array_no_content: "\<not> is_array (member ''content'' msg) \<Longrightarrow> array_member ''content'' msg = []"
  by (auto simp: is_array_def array_member_def split: option.splits json.splits)

lemma map_filter_filter:
  "(\<And>p. p \<in> set ps \<Longrightarrow> f p \<noteq> None \<Longrightarrow> Q p) \<Longrightarrow> List.map_filter f (filter Q ps) = List.map_filter f ps"
  by (induction ps) (auto split: option.splits)

lemma map_filter_Nil: "List.map_filter f ps = [] \<longleftrightarrow> (\<forall>p \<in> set ps. f p = None)"
  by (induction ps) (auto split: option.splits)

lemma set_map_filter: "set (List.map_filter f ps) = {i. \<exists>p \<in> set ps. f p = Some i}"
  by (induction ps) (auto split: option.splits)

lemma length_filter_eq: "length (filter Q xs) = length xs \<longleftrightarrow> (\<forall>x \<in> set xs. Q x)"
proof (induction xs)
  case (Cons x xs)
  then show ?case using length_filter_le [of Q xs] by (auto simp: not_less_eq_eq [symmetric] simp del: length_filter_le)
qed simp

text \<open>The strip keeps, in order, what speaks and is no dangling call.\<close>

lemma strip_message_keeps:
  assumes "\<And>p. f p \<noteq> None \<Longrightarrow> isSayingPart p \<and> \<not> dangling_call ids p"
    and "\<And>m k. is_array (member ''content'' m) \<Longrightarrow> Q (with_content k m) = Q m"
  shows "List.map_filter f (parts_where Q (strip_message ids msg)) = List.map_filter f (parts_where Q [msg])"
proof (cases "is_array (member ''content'' msg)")
  case True
  let ?ps = "array_member ''content'' msg"
  let ?kept = "filter (\<lambda>p. \<not> dangling_call ids p) ?ps"
  have f: "List.map_filter f ?kept = List.map_filter f ?ps" using assms(1) by (intro map_filter_filter) auto
  show ?thesis
  proof (cases "list_ex isSayingPart ?kept")
    case True
    then show ?thesis using \<open>is_array _\<close> f
      by (auto simp: strip_message_def parts_where_def assms(2) with_content_content Let_def)
  next
    case False
    then have "List.map_filter f ?kept = []" using assms(1) by (force simp: map_filter_Nil list_ex_iff)
    then show ?thesis using False \<open>is_array _\<close> f by (auto simp: strip_message_def parts_where_def Let_def)
  qed
qed (simp add: strip_message_def parts_where_def)

lemma map_filter_append [simp]: "List.map_filter f (xs @ ys) = List.map_filter f xs @ List.map_filter f ys"
  by (induction xs) (auto split: option.splits)

lemma parts_where_append [simp]: "parts_where Q (xs @ ys) = parts_where Q xs @ parts_where Q ys"
  by (simp add: parts_where_def)

lemma strip_keeps:
  assumes "\<And>p. f p \<noteq> None \<Longrightarrow> isSayingPart p \<and> \<not> dangling_call ids p"
    and "\<And>m k. is_array (member ''content'' m) \<Longrightarrow> Q (with_content k m) = Q m"
  shows "List.map_filter f (parts_where Q (stripDanglingServerCalls sdk ids)) = List.map_filter f (parts_where Q sdk)"
proof (induction sdk)
  case (Cons msg sdk)
  have "stripDanglingServerCalls (msg # sdk) ids = strip_message ids msg @ stripDanglingServerCalls sdk ids"
    by (simp add: stripDanglingServerCalls_def)
  moreover have "parts_where Q (msg # sdk) = parts_where Q [msg] @ parts_where Q sdk" by (simp add: parts_where_def)
  ultimately show ?case using Cons strip_message_keeps [OF assms] by simp
qed (simp add: stripDanglingServerCalls_def)

lemma ids_in_map_filter: "ids_in f sdk = set (List.map_filter f (sdk_parts sdk))"
  by (simp add: ids_in_def set_map_filter)

lemma saying:
  "part_result p \<noteq> None \<Longrightarrow> isSayingPart p \<and> \<not> dangling_call ids p"
  "part_client_result p \<noteq> None \<Longrightarrow> isSayingPart p \<and> \<not> dangling_call ids p"
  "client_call p \<noteq> None \<Longrightarrow> isSayingPart p \<and> \<not> dangling_call ids p"
  by (auto simp: part_defs client_call_def isSayingPart_def dangling_call_def part_is_unique split: if_splits)

lemma strip_results:
  "ids_in part_result (stripDanglingServerCalls sdk ids) = ids_in part_result sdk"
  "sdk_client_results (stripDanglingServerCalls sdk ids) = sdk_client_results sdk"
  "List.map_filter client_call (sdk_parts (stripDanglingServerCalls sdk ids)) = List.map_filter client_call (sdk_parts sdk)"
  unfolding ids_in_map_filter sdk_client_results_def sdk_parts_where
  by (simp_all add: strip_keeps saying tool_message_with_content)

lemma strip_parts_subset: "set (sdk_parts (stripDanglingServerCalls sdk ids)) \<subseteq> set (sdk_parts sdk)"
proof (induction sdk)
  case (Cons msg sdk)
  have "set (sdk_parts (strip_message ids msg)) \<subseteq> set (sdk_parts [msg])"
    by (auto simp: strip_message_def sdk_parts_def Let_def with_content_content)
  then have "set (sdk_parts (strip_message ids msg @ stripDanglingServerCalls sdk ids)) \<subseteq> set (sdk_parts (msg # sdk))"
    using Cons unfolding sdk_parts_def map_append concat_append set_append by auto
  then show ?case by (simp add: stripDanglingServerCalls_def)
qed (simp add: stripDanglingServerCalls_def)

lemma strip_uses:
  assumes "i \<in> ids_in part_use sdk" "i \<notin> set ids"
  shows "i \<in> ids_in part_use (stripDanglingServerCalls sdk ids)"
proof -
  let ?f = "\<lambda>p. if part_use p = Some i then Some i else None"
  have "List.map_filter ?f (sdk_parts (stripDanglingServerCalls sdk ids)) = List.map_filter ?f (sdk_parts sdk)"
    unfolding sdk_parts_where using assms(2)
    by (intro strip_keeps) (auto simp: part_defs isSayingPart_def dangling_call_def part_is_unique split: if_splits option.splits)
  then have "ids_in ?f (stripDanglingServerCalls sdk ids) = ids_in ?f sdk" by (simp add: ids_in_map_filter)
  moreover have "i \<in> ids_in ?f sdk" using assms(1) by (auto simp: ids_in_def)
  ultimately show ?thesis by (auto simp: ids_in_def split: if_splits)
qed

lemma strip_no_dangling:
  "ids_in part_executed (stripDanglingServerCalls sdk ids) \<subseteq> ids_in part_executed sdk - set ids"
proof -
  have "\<not> dangling_call ids p" if "p \<in> set (sdk_parts (stripDanglingServerCalls sdk ids))" for p
    using that
  proof (induction sdk)
    case (Cons msg sdk)
    have "\<not> dangling_call ids p" if "p \<in> set (sdk_parts (strip_message ids msg))"
      using that
      by (auto simp: strip_message_def sdk_parts_def Let_def with_content_content no_array_no_content
          length_filter_eq split: if_splits)
    moreover have "p \<in> set (sdk_parts (strip_message ids msg)) \<or> p \<in> set (sdk_parts (stripDanglingServerCalls sdk ids))"
      using Cons.prems by (auto simp: stripDanglingServerCalls_def sdk_parts_def)
    ultimately show ?case using Cons.IH by blast
  qed (simp add: stripDanglingServerCalls_def sdk_parts_def)
  then show ?thesis
    using strip_parts_subset [of sdk ids] unfolding ids_in_def part_defs dangling_call_def
    by (fastforce split: if_splits)
qed

text \<open>Dropping repeated results: the client results left are new and distinct, and nothing else goes.\<close>

lemma keep_results_Cons:
  "keep_results (p # ps) emitted =
     (case part_client_result p of
        None \<Rightarrow> (let (kept, dropped, e) = keep_results ps emitted in (p # kept, dropped, e))
      | Some i \<Rightarrow>
          if i \<in> set emitted
          then (let (kept, dropped, e) = keep_results ps emitted in (kept, i # dropped, e))
          else (let (kept, dropped, e) = keep_results ps (js_add i emitted) in (p # kept, dropped, e)))"
  by (simp add: part_client_result_def)

declare keep_results.simps(2) [simp del]

lemma keep_results_client:
  assumes "keep_results ps emitted = (kept, dropped, e)"
  shows "distinct (List.map_filter part_client_result kept)
    \<and> set (List.map_filter part_client_result kept) = set (List.map_filter part_client_result ps) - set emitted
    \<and> set e = set emitted \<union> set (List.map_filter part_client_result ps)"
  using assms
proof (induction ps arbitrary: emitted kept dropped e)
  case (Cons p ps)
  show ?case
  proof (cases "part_client_result p")
    case None
    then obtain kept' where "keep_results ps emitted = (kept', dropped, e)" "kept = p # kept'"
      using Cons.prems by (auto simp: keep_results_Cons split: prod.splits)
    with Cons.IH [OF this(1)] None show ?thesis by simp
  next
    case (Some i)
    show ?thesis
    proof (cases "i \<in> set emitted")
      case True
      then obtain d where "keep_results ps emitted = (kept, d, e)"
        using Cons.prems Some by (auto simp: keep_results_Cons split: prod.splits)
      with Cons.IH [OF this] Some True show ?thesis by auto
    next
      case False
      then obtain kept' where "keep_results ps (js_add i emitted) = (kept', dropped, e)" "kept = p # kept'"
        using Cons.prems Some by (auto simp: keep_results_Cons split: prod.splits)
      with Cons.IH [OF this(1)] Some False show ?thesis by auto
    qed
  qed
qed simp

lemma keep_results_others:
  assumes "keep_results ps emitted = (kept, dropped, e)" "\<And>p. part_client_result p \<noteq> None \<Longrightarrow> f p = None"
  shows "List.map_filter f kept = List.map_filter f ps"
  using assms(1)
proof (induction ps arbitrary: emitted kept dropped e)
  case (Cons p ps)
  show ?case
  proof (cases "part_client_result p")
    case None
    with Cons show ?thesis by (auto simp: keep_results_Cons split: prod.splits option.splits)
  next
    case (Some i)
    with assms(2) have "f p = None" by simp
    with Some Cons show ?thesis
      by (auto simp: keep_results_Cons split: prod.splits if_splits)
  qed
qed simp

lemma keep_results_size:
  assumes "keep_results ps emitted = (kept, dropped, e)"
  shows "set kept \<subseteq> set ps \<and> length kept + length dropped = length ps \<and> (dropped = [] \<longrightarrow> kept = ps)"
  using assms
proof (induction ps arbitrary: emitted kept dropped e)
  case (Cons p ps)
  then show ?case
    by (auto simp: keep_results_Cons split: prod.splits option.splits if_splits) blast+
qed simp

lemma keep_results_fresh:
  assumes "keep_results ps emitted = (kept, dropped, e)" "distinct (List.map_filter part_client_result ps)"
    "set (List.map_filter part_client_result ps) \<inter> set emitted = {}"
  shows "dropped = []"
  using assms
proof (induction ps arbitrary: emitted kept dropped e)
  case (Cons p ps)
  show ?case
  proof (cases "part_client_result p")
    case None
    with Cons show ?thesis by (auto simp: keep_results_Cons split: prod.splits)
  next
    case (Some i)
    then obtain kept' where "keep_results ps (js_add i emitted) = (kept', dropped, e)"
      using Cons.prems by (auto simp: keep_results_Cons split: prod.splits)
    from Cons.IH [OF this] show ?thesis using Cons.prems Some by auto
  qed
qed simp

lemma sdk_client_results_Cons:
  "sdk_client_results (msg # msgs) =
     (if tool_message msg then List.map_filter part_client_result (array_member ''content'' msg) else [])
     @ sdk_client_results msgs"
  by (simp add: sdk_client_results_def parts_where_def)

lemma sdk_client_results_append [simp]:
  "sdk_client_results (xs @ ys) = sdk_client_results xs @ sdk_client_results ys"
  by (simp add: sdk_client_results_def)

lemma sdk_client_results_Nil [simp]: "sdk_client_results [] = []"
  by (simp add: sdk_client_results_def parts_where_def)

text \<open>What stands for one tool message after the drop.\<close>

definition kept_message :: "json \<Rightarrow> json list \<Rightarrow> json list" where
  "kept_message msg kept =
     (if length kept = length (array_member ''content'' msg) then [msg]
      else if kept \<noteq> [] then [with_content kept msg] else [])"

lemma kept_message:
  assumes "keep_results (array_member ''content'' msg) emitted = (kept, dropped, e)" "tool_message msg"
  shows "sdk_client_results (kept_message msg kept) = List.map_filter part_client_result kept"
    and "sdk_parts (kept_message msg kept) = kept" and "dropped = [] \<Longrightarrow> kept_message msg kept = [msg]"
proof -
  have arr: "is_array (member ''content'' msg)" using assms(2) by (simp add: tool_message_def)
  have same: "kept = array_member ''content'' msg" if "length kept = length (array_member ''content'' msg)"
    using keep_results_size [OF assms(1)] that by simp
  show "sdk_client_results (kept_message msg kept) = List.map_filter part_client_result kept"
    using same assms(2) arr
    by (auto simp: kept_message_def sdk_client_results_Cons tool_message_with_content with_content_content)
  show "sdk_parts (kept_message msg kept) = kept"
    using same arr by (auto simp: kept_message_def sdk_parts_def with_content_content)
  show "dropped = [] \<Longrightarrow> kept_message msg kept = [msg]"
    using keep_results_size [OF assms(1)] by (auto simp: kept_message_def)
qed

lemma drop_messages_Cons:
  "drop_messages (msg # msgs) emitted =
     (if \<not> tool_message msg
      then (let (out, dropped, e) = drop_messages msgs emitted in (msg # out, dropped, e))
      else (let (kept, dropped1, e1) = keep_results (array_member ''content'' msg) emitted;
                (out, dropped2, e2) = drop_messages msgs e1
            in (kept_message msg kept @ out, dropped1 @ dropped2, e2)))"
  by (simp add: kept_message_def Let_def)

declare drop_messages.simps(2) [simp del]

lemma drop_messages_cases:
  assumes "drop_messages (msg # msgs) emitted = (out, dropped, e)"
  obtains (other) out' where "\<not> tool_message msg" "drop_messages msgs emitted = (out', dropped, e)" "out = msg # out'"
  | (tool) kept d1 e1 out' d2 where "tool_message msg"
      "keep_results (array_member ''content'' msg) emitted = (kept, d1, e1)"
      "drop_messages msgs e1 = (out', d2, e)" "out = kept_message msg kept @ out'" "dropped = d1 @ d2"
  using assms by (auto simp: drop_messages_Cons split: if_splits prod.splits)

lemma drop_messages_client:
  assumes "drop_messages sdk emitted = (out, dropped, e)"
  shows "distinct (sdk_client_results out)
    \<and> set (sdk_client_results out) = set (sdk_client_results sdk) - set emitted
    \<and> set e = set emitted \<union> set (sdk_client_results sdk)"
  using assms
proof (induction sdk arbitrary: emitted out dropped e)
  case (Cons msg msgs)
  from Cons.prems show ?case
  proof (cases rule: drop_messages_cases)
    case (other out')
    with Cons.IH [OF other(2)] show ?thesis by (simp add: sdk_client_results_Cons)
  next
    case (tool kept d1 e1 out' d2)
    note k = keep_results_client [OF tool(2)] kept_message(1) [OF tool(2,1)] 
    with Cons.IH [OF tool(3)] tool show ?thesis
      by (auto simp: sdk_client_results_Cons)
  qed
qed simp

lemma drop_messages_others:
  assumes "drop_messages sdk emitted = (out, dropped, e)" "\<And>p. part_client_result p \<noteq> None \<Longrightarrow> f p = None"
  shows "List.map_filter f (sdk_parts out) = List.map_filter f (sdk_parts sdk)"
  using assms(1)
proof (induction sdk arbitrary: emitted out dropped e)
  case (Cons msg msgs)
  from Cons.prems show ?case
  proof (cases rule: drop_messages_cases)
    case (other out')
    with Cons.IH [OF other(2)] show ?thesis by (simp add: sdk_parts_def)
  next
    case (tool kept d1 e1 out' d2)
    have "sdk_parts out = kept @ sdk_parts out'"
      using kept_message(2) [OF tool(2,1)] tool(4) by (simp add: sdk_parts_def)
    then show ?thesis
      using Cons.IH [OF tool(3)] keep_results_others [OF tool(2) assms(2)] by (simp add: sdk_parts_def)
  qed
qed simp

lemma drop_messages_fresh:
  assumes "drop_messages sdk emitted = (out, dropped, e)" "distinct (sdk_client_results sdk)"
    "set (sdk_client_results sdk) \<inter> set emitted = {}"
  shows "dropped = []"
  using assms
proof (induction sdk arbitrary: emitted out dropped e)
  case (Cons msg msgs)
  from Cons.prems(1) show ?case
  proof (cases rule: drop_messages_cases)
    case (other out')
    with Cons.IH [OF other(2)] Cons.prems show ?thesis by (simp add: sdk_client_results_Cons)
  next
    case (tool kept d1 e1 out' d2)
    have "d1 = []"
      using keep_results_fresh [OF tool(2)] Cons.prems(2,3) tool(1) by (auto simp: sdk_client_results_Cons)
    moreover have "d2 = []"
      using Cons.IH [OF tool(3)] keep_results_client [OF tool(2)] Cons.prems(2,3) tool(1)
      by (auto simp: sdk_client_results_Cons)
    ultimately show ?thesis using tool by simp
  qed
qed simp

lemma drop_messages_same:
  "drop_messages sdk emitted = (out, [], e) \<Longrightarrow> out = sdk"
proof (induction sdk arbitrary: emitted out e)
  case (Cons msg msgs)
  from Cons.prems show ?case
  proof (cases rule: drop_messages_cases)
    case (tool kept d1 e1 out' d2)
    with Cons.IH kept_message(3) [OF tool(2,1)] show ?thesis by simp
  qed (use Cons.IH in auto)
qed simp

lemma dropRepeated_eq: "dropRepeatedToolResults sdk emitted = drop_messages sdk emitted"
  by (auto simp: dropRepeatedToolResults_def split: prod.splits dest: drop_messages_same)

lemma not_client:
  "part_client_result p \<noteq> None \<Longrightarrow> part_use p = None"
  "part_client_result p \<noteq> None \<Longrightarrow> part_executed p = None"
  "part_client_result p \<noteq> None \<Longrightarrow> client_call p = None"
  by (auto simp: part_defs client_call_def part_is_unique split: if_splits)

lemma parts_where_subset: "set (parts_where Q sdk) \<subseteq> set (sdk_parts sdk)"
  by (auto simp: parts_where_def sdk_parts_def split: if_splits)

lemma client_results_results: "set (sdk_client_results sdk) \<subseteq> ids_in part_result sdk"
  using parts_where_subset [of tool_message sdk]
  by (auto simp: sdk_client_results_def set_map_filter ids_in_def part_defs split: if_splits)

text \<open>Every result is still there or was there before.\<close>

lemma drop_messages_results:
  assumes "drop_messages sdk emitted = (out, dropped, e)"
  shows "ids_in part_result sdk \<subseteq> ids_in part_result out \<union> set emitted"
    and "ids_in part_result out \<subseteq> ids_in part_result sdk"
proof -
  let ?f = "\<lambda>p. if part_client_result p = None then part_result p else None"
  have "ids_in ?f out = ids_in ?f sdk"
    unfolding ids_in_map_filter
    by (intro arg_cong [where f = set] drop_messages_others [OF assms]) auto
  moreover have "ids_in part_result ps = ids_in ?f ps \<union> {i. \<exists>p \<in> set (sdk_parts ps). part_client_result p = Some i}" for ps
    by (auto simp: ids_in_def part_defs split: if_splits)
  moreover have "set (List.map_filter part_client_result (sdk_parts sdk))
      \<subseteq> set (List.map_filter part_client_result (sdk_parts out)) \<union> set emitted
    \<and> set (List.map_filter part_client_result (sdk_parts out)) \<subseteq> set (List.map_filter part_client_result (sdk_parts sdk))"
    using assms
  proof (induction sdk arbitrary: emitted out dropped e)
    case (Cons msg msgs)
    from Cons.prems show ?case
    proof (cases rule: drop_messages_cases)
      case (other out')
      with Cons.IH [OF other(2)] show ?thesis by (auto simp: sdk_parts_def)
    next
      case (tool kept d1 e1 out' d2)
      have "sdk_parts out = kept @ sdk_parts out'"
        using kept_message(2) [OF tool(2,1)] tool(4) by (simp add: sdk_parts_def)
      then show ?thesis
        using Cons.IH [OF tool(3)] keep_results_client [OF tool(2)] by (auto simp: sdk_parts_def)
    qed
  qed simp
  ultimately show "ids_in part_result sdk \<subseteq> ids_in part_result out \<union> set emitted"
    "ids_in part_result out \<subseteq> ids_in part_result sdk"
    by (auto simp: set_map_filter)
qed

section \<open>Rows\<close>

definition row_uses :: "ChatMessageInput \<Rightarrow> string set" where
  "row_uses m =
     (if isPassthroughRow m then ids_in part_use (sdk_of m)
      else if m_role m = Assistant_role then tc_id ` set (calls_of m) else {})"

definition row_executed :: "ChatMessageInput \<Rightarrow> string set" where
  "row_executed m = (if isPassthroughRow m then ids_in part_executed (sdk_of m) else {})"

definition row_results :: "ChatMessageInput \<Rightarrow> string set" where
  "row_results m =
     (if isPassthroughRow m then ids_in part_result (sdk_of m) else set_option (result_row_id m))"

definition row_client_results :: "ChatMessageInput \<Rightarrow> string list" where
  "row_client_results m =
     (if isPassthroughRow m then sdk_client_results (sdk_of m)
      else case result_row_id m of Some i \<Rightarrow> [i] | None \<Rightarrow> [])"

definition uses :: "ChatMessageInput list \<Rightarrow> string set" where
  "uses ms = (\<Union>m \<in> set ms. row_uses m)"

definition results :: "ChatMessageInput list \<Rightarrow> string set" where
  "results ms = (\<Union>m \<in> set ms. row_results m)"

definition client_results :: "ChatMessageInput list \<Rightarrow> string list" where
  "client_results ms = concat (map row_client_results ms)"

text \<open>The rows a turn row comes after.\<close>

fun moved_past :: "ChatMessageInput list \<Rightarrow> ChatMessageInput list" where
  "moved_past [] = []"
| "moved_past (m # ms) = (if list_ex isTurnRow ms then [m] else []) @ moved_past ms"

text \<open>What a provider accepts: a result row names a call, the calls of a stored row and the
  server's calls have results, no call has two, and a client call the conversation moved past
  has one.\<close>

definition row_paired :: "string set \<Rightarrow> string set \<Rightarrow> ChatMessageInput \<Rightarrow> bool" where
  "row_paired called answered m =
     (if isPassthroughRow m then row_executed m \<subseteq> answered
      else if m_role m = Tool_role then (\<exists>i. result_row_id m = Some i \<and> i \<in> called)
      else if m_role m = Assistant_role then row_uses m \<subseteq> answered
      else True)"

definition row_answered :: "string set \<Rightarrow> ChatMessageInput \<Rightarrow> bool" where
  "row_answered answered m = (pc_id ` set (row_client_calls m) \<subseteq> answered)"

definition rows_paired :: "ChatMessageInput list \<Rightarrow> bool" where
  "rows_paired ms =
     (list_all (row_paired (uses ms) (results ms)) ms \<and> distinct (client_results ms)
      \<and> list_all (row_answered (results ms)) (moved_past ms))"

lemma uses_append [simp]: "uses (xs @ ys) = uses xs \<union> uses ys" and uses_Nil [simp]: "uses [] = {}"
  and uses_Cons [simp]: "uses (m # xs) = row_uses m \<union> uses xs"
  by (simp_all add: uses_def)

lemma results_append [simp]: "results (xs @ ys) = results xs \<union> results ys" and results_Nil [simp]: "results [] = {}"
  and results_Cons [simp]: "results (m # xs) = row_results m \<union> results xs"
  by (simp_all add: results_def)

lemma client_results_append [simp]: "client_results (xs @ ys) = client_results xs @ client_results ys"
  and client_results_Nil [simp]: "client_results [] = []"
  and client_results_Cons [simp]: "client_results (m # xs) = row_client_results m @ client_results xs"
  by (simp_all add: client_results_def)

lemma moved_past_append [simp]:
  "moved_past (xs @ [m]) = (if isTurnRow m then xs else moved_past xs)"
  by (induction xs) auto

lemma moved_past_subset: "set (moved_past ms) \<subseteq> set ms"
  by (induction ms) auto

lemma row_client_results_results: "set (row_client_results m) \<subseteq> row_results m"
  using client_results_results by (auto simp: row_client_results_def row_results_def split: option.splits)

lemma client_results_subset: "set (client_results ms) \<subseteq> results ms"
  using row_client_results_results by (fastforce simp: client_results_def results_def)

lemma row_client_calls_eq:
  "row_client_calls m = (if isPassthroughRow m then List.map_filter client_call (sdk_parts (sdk_of m)) else [])"
  by (simp add: row_client_calls_def client_calls_harvest no_clients_def)

lemma result_row_id_Some: "result_row_id m = Some i \<Longrightarrow> m_role m = Tool_role \<and> \<not> isPassthroughRow m"
  by (simp add: result_row_id_def split: if_splits)

lemma inventory_sets:
  "set (use_ids (inventory ms)) = uses ms" "set (result_ids (inventory ms)) = results ms"
  "set (executed_ids (inventory ms)) = (\<Union>m \<in> set ms. row_executed m)"
proof -
  have row: "set (use_ids (inventory_row m ids)) = set (use_ids ids) \<union> row_uses m"
    "set (result_ids (inventory_row m ids)) = set (result_ids ids) \<union> row_results m"
    "set (executed_ids (inventory_row m ids)) = set (executed_ids ids) \<union> row_executed m" for m ids
    by (auto simp: inventory_row_def harvest_sets row_uses_def row_results_def row_executed_def result_row_id_def
        split: option.splits)
  have "set (use_ids (fold inventory_row ms ids)) = set (use_ids ids) \<union> uses ms
    \<and> set (result_ids (fold inventory_row ms ids)) = set (result_ids ids) \<union> results ms
    \<and> set (executed_ids (fold inventory_row ms ids)) = set (executed_ids ids) \<union> (\<Union>m \<in> set ms. row_executed m)" for ids
    by (induction ms arbitrary: ids) (auto simp: row uses_def results_def)
  then show "set (use_ids (inventory ms)) = uses ms" "set (result_ids (inventory ms)) = results ms"
    "set (executed_ids (inventory ms)) = (\<Union>m \<in> set ms. row_executed m)"
    by (simp_all add: inventory_def)
qed

lemma lastTurnIndex_append [simp]:
  "lastTurnIndex (ms @ [m]) = (if isTurnRow m then int (length ms) else lastTurnIndex ms)"
  by (simp add: lastTurnIndex_def enumerate_append_eq)

lemma lastTurnIndex_Nil [simp]: "lastTurnIndex [] = -1"
  by (simp add: lastTurnIndex_def)

lemma lastTurnIndex_later: "int (length xs) \<le> lastTurnIndex (xs @ ys) \<longleftrightarrow> list_ex isTurnRow ys"
proof (induction ys rule: rev_induct)
  case Nil
  have "lastTurnIndex xs < int (length xs)" by (induction xs rule: rev_induct) auto
  then show ?case by simp
next
  case (snoc m ys)
  have "lastTurnIndex (xs @ ys @ [m]) = (if isTurnRow m then int (length (xs @ ys)) else lastTurnIndex (xs @ ys))"
    using lastTurnIndex_append [of "xs @ ys" m] by simp
  with snoc show ?case by simp
qed

lemma moved_past_split: "list_ex isTurnRow ys \<Longrightarrow> m \<in> set (moved_past (xs @ m # ys))"
  by (induction xs) auto

text \<open>The row of synthetic answers.\<close>

lemma answers_row_carries:
  fixes ok :: "PassthroughClientCall \<Rightarrow> bool"
  assumes "cs \<noteq> []"
  defines "row \<equiv> answers_row (map (\<lambda>c. interruptedCallResult c (ok c)) cs)"
  shows "isPassthroughRow row" "row_results row = pc_id ` set cs" "row_client_results row = map pc_id cs"
    "row_uses row = {}" "row_executed row = {}" "row_client_calls row = []" "\<not> isTurnRow row"
proof -
  let ?ps = "map (\<lambda>c. interruptedCallResult c (ok c)) cs"
  have parts: "sdk_parts (sdk_of row) = ?ps"
    by (simp add: row_def answers_row_def sdk_of_def sdk_parts_def array_member_def member_def)
  have part: "part_result (interruptedCallResult c b) = Some (pc_id c)"
    "part_client_result (interruptedCallResult c b) = Some (pc_id c)"
    "part_use (interruptedCallResult c b) = None" "part_executed (interruptedCallResult c b) = None"
    "client_call (interruptedCallResult c b) = None" for c b
    by (simp_all add: part_defs client_call_def part_is_def string_field_def member_def interruptedCallResult_def)
  show p: "isPassthroughRow row" by (simp add: row_def answers_row_def isPassthroughRow_def)
  show "row_results row = pc_id ` set cs"
    using p parts by (auto simp: row_results_def ids_in_def part)
  have "parts_where tool_message (sdk_of row) = ?ps"
    by (simp add: parts_where_def row_def answers_row_def sdk_of_def tool_message_def string_field_def
        member_def is_array_def array_member_def)
  moreover have "List.map_filter part_client_result ?ps = map pc_id cs" by (induction cs) (simp_all add: part)
  ultimately show "row_client_results row = map pc_id cs"
    using p by (simp add: row_client_results_def sdk_client_results_def)
  show "row_uses row = {}" "row_executed row = {}"
    using p parts by (auto simp: row_uses_def row_executed_def ids_in_def part)
  have "List.map_filter client_call ?ps = []" by (induction cs) (simp_all add: part)
  then show "row_client_calls row = []" using p parts by (simp add: row_client_calls_eq)
  show "\<not> isTurnRow row" by (simp add: row_def answers_row_def isTurnRow_def)
qed

lemma client_call_use: "client_call p = Some c \<Longrightarrow> part_use p = Some (pc_id c)"
  by (cases "string_field ''toolCallId'' p"; cases "string_field ''toolName'' p")
    (auto simp: client_call_def part_use_def split: if_splits)

section \<open>One row of the repair\<close>

abbreviation out_of :: "repair_state \<Rightarrow> ChatMessageInput list" where
  "out_of s \<equiv> hr_messages (rs_result s)"

text \<open>What a step adds: results it emits are new, calls and results of its row survive, and each
  row it adds is paired.\<close>

definition row_step ::
  "ChatMessageInput list \<Rightarrow> nat \<Rightarrow> ChatMessageInput \<Rightarrow> repair_state \<Rightarrow> repair_state \<Rightarrow> ChatMessageInput list \<Rightarrow> bool" where
  "row_step ms index m s s' added =
     (out_of s' = out_of s @ added
      \<and> set (rs_results s) \<subseteq> set (rs_results s')
      \<and> set (rs_results s') \<subseteq> set (rs_results s) \<union> results added
      \<and> set (rs_emitted s) \<subseteq> set (rs_emitted s')
      \<and> set (rs_emitted s') \<subseteq> set (rs_emitted s) \<union> results added \<inter> results ms
      \<and> row_uses m \<inter> results ms \<subseteq> uses added
      \<and> (\<forall>i \<in> row_results m. i \<in> uses ms \<or> isPassthroughRow m \<longrightarrow> i \<in> results added \<union> set (rs_emitted s))
      \<and> distinct (client_results added)
      \<and> set (client_results added) \<inter> (set (rs_emitted s) \<union> (set (rs_results s) - results ms)) = {}
      \<and> set (client_results added) \<subseteq> set (rs_emitted s') \<union> (set (rs_results s') - results ms)
      \<and> list_all (row_paired (uses ms \<inter> results ms) (set (rs_results s') \<inter> (uses ms \<union> - results ms))) added
      \<and> (int index < lastTurnIndex ms \<longrightarrow> list_all (row_answered (set (rs_results s') \<inter> (uses ms \<union> - results ms))) added)
      \<and> (lastTurnIndex ms \<le> int index \<longrightarrow> (added = [] \<or> (\<exists>a. added = [a] \<and> isTurnRow a = isTurnRow m))))"

lemma push_row_simps [simp]:
  "out_of (push_row m s) = out_of s @ [m]" "rs_emitted (push_row m s) = rs_emitted s"
  "rs_results (push_row m s) = rs_results s"
  by (simp_all add: push_row_def)

lemma repair_pass_sets:
  "set (use_ids (r_ids (repair_pass_of ms))) = uses ms"
  "set (r_dangling (repair_pass_of ms)) = (\<Union>m \<in> set ms. row_executed m) - results ms"
  "r_lastTurn (repair_pass_of ms) = lastTurnIndex ms"
  "set (result_ids (r_ids (repair_pass_of ms))) = results ms"
  by (auto simp: repair_pass_of_def Let_def inventory_sets)

lemma repair_tool_row_step:
  assumes "m \<in> set ms" "m_role m = Tool_role" "\<not> isPassthroughRow m"
  shows "\<exists>added. row_step ms index m s (repair_tool_row (repair_pass_of ms) m s) added"
proof -
  have no: "row_uses m = {}" "row_client_calls m = []" "\<not> isTurnRow m"
    using assms by (simp_all add: row_uses_def row_client_calls_def isTurnRow_def)
  have id: "result_row_id m = truthy (m_toolCallId m)" using assms by (simp add: result_row_id_def)
  have sub: "row_results m \<subseteq> results ms" using assms(1) by (auto simp: results_def)
  let ?s' = "repair_tool_row (repair_pass_of ms) m s"
  show ?thesis
  proof (cases "\<exists>i. result_row_id m = Some i \<and> i \<in> uses ms \<and> i \<notin> set (rs_emitted s)")
    case True
    then obtain i where i: "result_row_id m = Some i" "i \<in> uses ms" "i \<notin> set (rs_emitted s)" by blast
    have r: "row_results m = {i}" "row_client_results m = [i]"
      using i(1) assms(3) by (simp_all add: row_results_def row_client_results_def)
    have "?s' = push_row m (s\<lparr>rs_emitted := js_add i (rs_emitted s)\<rparr>)"
      using i id by (simp add: repair_tool_row_def repair_pass_sets)
    then have "row_step ms index m s ?s' [m]"
      using i r no sub assms(2,3) by (auto simp: row_step_def row_paired_def row_answered_def)
    then show ?thesis by blast
  next
    case False
    have "out_of ?s' = out_of s \<and> rs_emitted ?s' = rs_emitted s \<and> rs_results ?s' = rs_results s"
      using False id by (auto simp: repair_tool_row_def repair_pass_sets Let_def split: option.splits)
    moreover have "i \<in> set (rs_emitted s)" if "i \<in> row_results m" "i \<in> uses ms" for i
      using False that assms(3) by (auto simp: row_results_def)
    ultimately have "row_step ms index m s ?s' []"
      using no assms(3) by (auto simp: row_step_def)
    then show ?thesis by blast
  qed
qed

lemma repair_calls_row_step:
  assumes "m \<in> set ms" "m_role m = Assistant_role" "\<not> isPassthroughRow m" "results ms \<subseteq> set (rs_results s)"
  shows "\<exists>added. row_step ms index m s (repair_calls_row m s) added"
proof -
  let ?answered = "filter (\<lambda>c. tc_id c \<in> set (rs_results s)) (calls_of m)"
  let ?s' = "repair_calls_row m s"
  have m: "row_results m = {}" "row_client_results m = []" "row_client_calls m = []" "isTurnRow m"
    "row_uses m = tc_id ` set (calls_of m)" "row_uses m \<subseteq> uses ms"
    using assms
    by (auto simp: row_results_def row_client_results_def result_row_id_def row_client_calls_def isTurnRow_def
        row_uses_def uses_def)
  have step: "row_step ms index m s s' [a]"
    if "out_of s' = out_of s @ [a]" "rs_emitted s' = rs_emitted s" "rs_results s' = rs_results s"
      "\<not> isPassthroughRow a" "m_role a = Assistant_role" "calls_of a = ?answered" for s' a
  proof -
    have a: "row_results a = {}" "row_client_results a = []" "row_client_calls a = []" "isTurnRow a"
      "row_uses a = tc_id ` set ?answered"
      using that(4-6)
      by (auto simp: row_results_def row_client_results_def result_row_id_def row_client_calls_def isTurnRow_def
          row_uses_def)
    show ?thesis
      using that a m assms(4) by (auto simp: row_step_def row_paired_def row_answered_def)
  qed
  show ?thesis
  proof (cases "length ?answered = length (calls_of m)")
    case True
    then have "?answered = calls_of m" by (auto simp: length_filter_eq)
    moreover have "?s' = push_row m s" using True by (simp add: repair_calls_row_def)
    ultimately have "row_step ms index m s ?s' [m]" using assms(2,3) by (intro step) simp_all
    then show ?thesis by blast
  next
    case False
    show ?thesis
    proof (cases "m_content m = [] \<and> ?answered = []")
      case True
      then have "out_of ?s' = out_of s \<and> rs_emitted ?s' = rs_emitted s \<and> rs_results ?s' = rs_results s"
        using False by (simp add: repair_calls_row_def Let_def)
      moreover have "row_uses m \<inter> results ms = {}"
        using True assms(4) m(5) by (auto simp: filter_empty_conv)
      ultimately have "row_step ms index m s ?s' []" using m by (simp add: row_step_def)
      then show ?thesis by blast
    next
      case kept: False
      let ?a = "m\<lparr>m_toolCalls := (if ?answered = [] then None else Some ?answered)\<rparr>"
      have "out_of ?s' = out_of s @ [?a] \<and> rs_emitted ?s' = rs_emitted s \<and> rs_results ?s' = rs_results s"
        using False kept by (simp add: repair_calls_row_def Let_def)
      moreover have "calls_of ?a = ?answered" by (simp add: calls_of_def)
      moreover have "isPassthroughRow ?a = isPassthroughRow m" by (simp add: isPassthroughRow_def)
      ultimately have "row_step ms index m s ?s' [?a]" using assms(2,3) by (intro step) simp_all
      then show ?thesis by blast
    qed
  qed
qed

lemma other_row_step:
  assumes "\<not> isPassthroughRow m" "m_role m = User_role \<or> m_role m = Assistant_role \<and> calls_of m = []"
  shows "row_step ms index m s (push_row m s) [m]"
proof -
  have "row_results m = {}" "row_client_results m = []" "row_client_calls m = []" "row_uses m = {}"
    using assms
    by (auto simp: row_results_def row_client_results_def result_row_id_def row_client_calls_def row_uses_def)
  then show ?thesis using assms by (auto simp: row_step_def row_paired_def row_answered_def)
qed

text \<open>The assembly a passthrough row is left with.\<close>

definition repaired_sdk :: "repair_pass \<Rightarrow> ChatMessageInput \<Rightarrow> json list" where
  "repaired_sdk pass m =
     (if ids_in part_executed (sdk_of m) \<inter> set (r_dangling pass) = {} then sdk_of m
      else stripDanglingServerCalls (sdk_of m) (r_dangling pass))"

lemma repaired_sdk_carries:
  assumes "m \<in> set ms" "isPassthroughRow m"
  defines "sdk \<equiv> repaired_sdk (repair_pass_of ms) m"
  shows "ids_in part_result sdk = row_results m" "sdk_client_results sdk = row_client_results m"
    "List.map_filter client_call (sdk_parts sdk) = row_client_calls m"
    "row_uses m \<inter> results ms \<subseteq> ids_in part_use sdk" "ids_in part_executed sdk \<subseteq> results ms \<inter> row_uses m"
proof -
  let ?d = "r_dangling (repair_pass_of ms)"
  show "ids_in part_result sdk = row_results m" "sdk_client_results sdk = row_client_results m"
    "List.map_filter client_call (sdk_parts sdk) = row_client_calls m"
    using assms(2)
    by (simp_all add: sdk_def repaired_sdk_def strip_results row_results_def row_client_results_def row_client_calls_eq)
  show "row_uses m \<inter> results ms \<subseteq> ids_in part_use sdk"
    using strip_uses [of _ "sdk_of m" ?d] assms(2)
    by (auto simp: sdk_def repaired_sdk_def row_uses_def repair_pass_sets)
  have "ids_in part_executed (sdk_of m) = row_executed m" using assms(2) by (simp add: row_executed_def)
  moreover have "ids_in part_executed (sdk_of m) \<subseteq> row_uses m"
    using assms(2) by (auto simp: row_uses_def ids_in_def part_executed_def split: if_splits)
  ultimately show "ids_in part_executed sdk \<subseteq> results ms \<inter> row_uses m"
    using strip_no_dangling [of "sdk_of m" ?d] assms(1)
    by (auto simp: sdk_def repaired_sdk_def repair_pass_sets)
qed

lemma row_of_assembly:
  fixes m :: ChatMessageInput
  assumes "sdk \<noteq> []"
  defines "a \<equiv> m\<lparr>m_sdkMessages := Some sdk\<rparr>"
  shows "isPassthroughRow a" "row_results a = ids_in part_result sdk" "row_client_results a = sdk_client_results sdk"
    "row_uses a = ids_in part_use sdk" "row_executed a = ids_in part_executed sdk"
    "row_client_calls a = List.map_filter client_call (sdk_parts sdk)" "isTurnRow a = isTurnRow m"
proof -
  have "sdk_of a = sdk" by (simp add: a_def sdk_of_def)
  moreover show "isPassthroughRow a" using assms(1) by (simp add: a_def isPassthroughRow_def)
  ultimately show "row_results a = ids_in part_result sdk" "row_client_results a = sdk_client_results sdk"
    "row_uses a = ids_in part_use sdk" "row_executed a = ids_in part_executed sdk"
    "row_client_calls a = List.map_filter client_call (sdk_parts sdk)"
    by (simp_all add: row_results_def row_client_results_def row_uses_def row_executed_def row_client_calls_eq)
  show "isTurnRow a = isTurnRow m" by (simp add: a_def isTurnRow_def)
qed

text \<open>A passthrough row, as its steps.\<close>

lemma repair_passthrough_eq:
  assumes "drop_messages (repaired_sdk pass m) (rs_emitted s) = (sdk, dropped, emitted)" "isPassthroughRow m"
  obtains (gone) s' where "repair_passthrough pass index m s = s'" "sdk = []" "out_of s' = out_of s"
      "rs_results s' = rs_results s" "rs_emitted s' = emitted"
  | (kept) s1 where "sdk \<noteq> []" "out_of s1 = out_of s" "rs_results s1 = rs_results s" "rs_emitted s1 = emitted"
      "repair_passthrough pass index m s
         = pushWithInterruptedAnswers pass (row_client_calls m) (m\<lparr>m_sdkMessages := Some sdk\<rparr>) index s1"
proof -
  let ?strip = "filter (\<lambda>i. i \<in> set (r_dangling pass)) (executed_ids (harvestSdkPairIds (sdk_of m) no_ids))"
  have strip: "?strip = [] \<longleftrightarrow> ids_in part_executed (sdk_of m) \<inter> set (r_dangling pass) = {}"
    by (auto simp: filter_empty_conv harvest_sets simp flip: set_empty)
  have sdk: "(if ?strip = [] then sdk_of m else stripDanglingServerCalls (sdk_of m) (r_dangling pass))
      = repaired_sdk pass m"
    unfolding strip by (simp add: repaired_sdk_def)
  have ne: "sdk_of m \<noteq> []" using assms(2) by (auto simp: isPassthroughRow_def sdk_of_def split: option.splits)
  show ?thesis
  proof (cases "?strip \<noteq> [] \<and> repaired_sdk pass m = []")
    case True
    then have "sdk = []" "emitted = rs_emitted s" using assms(1) by simp_all
    with True show ?thesis
      by (intro gone [OF refl], unfold repair_passthrough_def Let_def sdk) simp_all
  next
    case False
    then have full: "repaired_sdk pass m \<noteq> []" using ne sdk by metis
    have nonempty: "sdk \<noteq> []" if "dropped = []"
      using drop_messages_same [of "repaired_sdk pass m" "rs_emitted s" sdk emitted] that assms(1) full by simp
    show ?thesis
    proof (cases "sdk = []")
      case True
      then have "dropped \<noteq> []" using nonempty by blast
      with True False assms(1) show ?thesis
        by (intro gone [OF refl], unfold repair_passthrough_def Let_def sdk) (auto simp: dropRepeated_eq)
    next
      case 2: False
      let ?s1 = "s\<lparr>rs_emitted := emitted, rs_result := (rs_result s)\<lparr>
          strippedServerToolCallIds := strippedServerToolCallIds (rs_result s) @ ?strip,
          droppedToolResultIds := droppedToolResultIds (rs_result s) @ dropped\<rparr>\<rparr>"
      have "repair_passthrough pass index m s
         = pushWithInterruptedAnswers pass (row_client_calls m) (m\<lparr>m_sdkMessages := Some sdk\<rparr>) index ?s1"
        unfolding repair_passthrough_def Let_def sdk using 2 False assms(1) by (auto simp: dropRepeated_eq)
      with 2 show ?thesis by (intro kept [of ?s1]) simp_all
    qed
  qed
qed

lemma push_answers:
  defines "late pass cs index s \<equiv> filter (\<lambda>c. pc_id c \<notin> set (rs_results s) \<and> int index < r_lastTurn pass) cs"
  shows "\<exists>added. out_of (pushWithInterruptedAnswers pass cs a index s) = out_of s @ [a] @ added
    \<and> rs_emitted (pushWithInterruptedAnswers pass cs a index s) = rs_emitted s
    \<and> set (rs_results (pushWithInterruptedAnswers pass cs a index s))
        = set (rs_results s) \<union> pc_id ` set (late pass cs index s)
    \<and> (late pass cs index s = [] \<and> added = []
       \<or> late pass cs index s \<noteq> [] \<and> (\<exists>ok. added = [answers_row (map (\<lambda>c. interruptedCallResult c (ok c)) (late pass cs index s))]))"
proof (cases "late pass cs index s = []")
  case True
  then show ?thesis by (simp add: pushWithInterruptedAnswers_def late_def)
next
  case False
  then show ?thesis
    by (intro exI [of _ "[answers_row (map (\<lambda>c. interruptedCallResult c (pc_id c \<in> set (r_approved pass))) (late pass cs index s))]"])
      (auto simp: pushWithInterruptedAnswers_def late_def Let_def)
qed

lemma repair_passthrough_step:
  assumes "m \<in> set ms" "isPassthroughRow m" "results ms \<subseteq> set (rs_results s)"
    and "set (rs_emitted s) \<subseteq> results ms" "distinct (map pc_id (row_client_calls m))"
  shows "\<exists>added. row_step ms index m s (repair_passthrough (repair_pass_of ms) index m s) added"
proof -
  let ?pass = "repair_pass_of ms"
  obtain sdk dropped emitted where d: "drop_messages (repaired_sdk ?pass m) (rs_emitted s) = (sdk, dropped, emitted)"
    by (metis prod_cases3)
  note c = repaired_sdk_carries [OF assms(1,2)]
  note client = drop_messages_client [OF d, unfolded c(2)]
  note res = drop_messages_results [OF d, unfolded c(1)]
  have same: "ids_in f sdk = ids_in f (repaired_sdk ?pass m)" if "\<And>p. part_client_result p \<noteq> None \<Longrightarrow> f p = None"
    for f :: "json \<Rightarrow> string option"
    unfolding ids_in_map_filter using drop_messages_others [OF d that] by simp
  have uses: "row_uses m \<inter> results ms \<subseteq> ids_in part_use sdk" using c(4) same [OF not_client(1)] by simp
  have executed: "ids_in part_executed sdk \<subseteq> results ms \<inter> uses ms" using assms(1) c(5) same [OF not_client(2)] by (auto simp: uses_def)
  have calls: "List.map_filter client_call (sdk_parts sdk) = row_client_calls m"
    using drop_messages_others [OF d, of client_call] not_client(3) c(3) by simp
  have rms: "row_results m \<subseteq> results ms" using assms(1) by (auto simp: results_def)
  have mine: "set (row_client_results m) \<subseteq> row_results m" by (rule row_client_results_results)
  from d assms(2) show ?thesis
  proof (cases rule: repair_passthrough_eq [where index = index])
    case (gone s')
    have "row_results m \<subseteq> set (rs_emitted s)" using res(1) gone(2) by (simp add: ids_in_def sdk_parts_def)
    moreover have "set emitted = set (rs_emitted s)"
      using client mine calculation by auto
    moreover have "row_uses m \<inter> results ms = {}" using uses gone(2) by (simp add: ids_in_def sdk_parts_def)
    ultimately have "row_step ms index m s s' []" using gone(3-5) by (auto simp: row_step_def)
    with gone(1) show ?thesis by blast
  next
    case (kept s1)
    let ?a = "m\<lparr>m_sdkMessages := Some sdk\<rparr>"
    define late where
      "late = filter (\<lambda>c. pc_id c \<notin> set (rs_results s) \<and> int index < lastTurnIndex ms) (row_client_calls m)"
    let ?s' = "repair_passthrough ?pass index m s"
    note a = row_of_assembly [OF kept(1), of m]
    obtain added where p: "out_of ?s' = out_of s @ [?a] @ added" "rs_emitted ?s' = emitted"
      "set (rs_results ?s') = set (rs_results s) \<union> pc_id ` set late"
      "late = [] \<and> added = [] \<or> late \<noteq> [] \<and> (\<exists>ok. added = [answers_row (map (\<lambda>c. interruptedCallResult c (ok c)) late)])"
      using push_answers [of ?pass "row_client_calls m" ?a index s1] kept(2-5)
      by (auto simp: repair_pass_sets late_def)
    have new: "results added = pc_id ` set late" "client_results added = map pc_id late" "uses added = {}"
      "list_all (row_paired C D) added" "list_all (row_answered D) added" for C D
      using p(4) by (auto simp: row_paired_def row_answered_def answers_row_carries)
    have old: "set (map pc_id late) \<inter> (results ms \<union> set (rs_results s)) = {}" using assms(3) by (auto simp: late_def)
    have "pc_id ` set (row_client_calls m) \<subseteq> row_uses m"
      using assms(2)
      by (auto simp: row_client_calls_eq row_uses_def set_map_filter ids_in_def dest: client_call_use)
    then have "pc_id ` set (row_client_calls m) \<subseteq> uses ms" using assms(1) by (auto simp: uses_def)
    then have answered: "row_answered (set (rs_results ?s') \<inter> (uses ms \<union> - results ms)) ?a"
      if "int index < lastTurnIndex ms"
      using that p(3) a(6) calls by (auto simp: row_answered_def late_def)
    have distinct: "distinct (map pc_id late)" unfolding late_def using assms(5) by (rule distinct_map_filter)
    have sub: "set (row_client_results ?a) \<subseteq> results ms" "row_results ?a \<subseteq> results ms"
      "set emitted \<subseteq> set (rs_emitted s) \<union> row_results ?a" "row_results m \<subseteq> row_results ?a \<union> set (rs_emitted s)"
      using a(2,3) client res mine rms by auto
    have "row_step ms index m s ?s' ([?a] @ added)"
      unfolding row_step_def
    proof (intro conjI)
      show "out_of ?s' = out_of s @ [?a] @ added" "set (rs_results s) \<subseteq> set (rs_results ?s')"
        "set (rs_results ?s') \<subseteq> set (rs_results s) \<union> results ([?a] @ added)"
        "set (rs_emitted s) \<subseteq> set (rs_emitted ?s')" "row_uses m \<inter> results ms \<subseteq> uses ([?a] @ added)"
        using p new(1,3) client uses a(4) by auto
      show "set (rs_emitted ?s') \<subseteq> set (rs_emitted s) \<union> results ([?a] @ added) \<inter> results ms"
        using p(2) sub by auto
      show "\<forall>i \<in> row_results m. i \<in> uses ms \<or> isPassthroughRow m \<longrightarrow> i \<in> results ([?a] @ added) \<union> set (rs_emitted s)"
        using sub(4) by auto
      show "distinct (client_results ([?a] @ added))"
        using distinct sub(1) old client a(3) new(2) by auto
      show "set (client_results ([?a] @ added)) \<inter> (set (rs_emitted s) \<union> (set (rs_results s) - results ms)) = {}"
        using sub(1) old client a(3) new(2) assms(4) by auto
      show "set (client_results ([?a] @ added)) \<subseteq> set (rs_emitted ?s') \<union> (set (rs_results ?s') - results ms)"
        using p(2,3) client a(3) new(2) old by auto
      show "list_all (row_paired (uses ms \<inter> results ms) (set (rs_results ?s') \<inter> (uses ms \<union> - results ms))) ([?a] @ added)"
        using new(4) a(1,5) executed p(3) assms(3) by (auto simp: row_paired_def)
      show "int index < lastTurnIndex ms \<longrightarrow> list_all (row_answered (set (rs_results ?s') \<inter> (uses ms \<union> - results ms))) ([?a] @ added)"
        using answered new(5) by simp
      show "lastTurnIndex ms \<le> int index \<longrightarrow> ([?a] @ added = [] \<or> (\<exists>a. [?a] @ added = [a] \<and> isTurnRow a = isTurnRow m))"
        using p(4) a(7) by (auto simp: late_def)
    qed
    then show ?thesis by blast
  qed
qed

lemma repair_row_step:
  assumes "m \<in> set ms" "results ms \<subseteq> set (rs_results s)" "set (rs_emitted s) \<subseteq> results ms"
    and "distinct (map pc_id (row_client_calls m))"
  shows "\<exists>added. row_step ms index m s (repair_row (repair_pass_of ms) (index, m) s) added"
proof (cases "isPassthroughRow m")
  case True
  with repair_passthrough_step assms show ?thesis by (simp add: repair_row_def)
next
  case False
  note here = this
  show ?thesis
  proof (cases "m_role m = Tool_role")
    case True
    with repair_tool_row_step assms here show ?thesis by (simp add: repair_row_def)
  next
    case False
    show ?thesis
    proof (cases "m_role m = Assistant_role \<and> calls_of m \<noteq> []")
      case True
      with repair_calls_row_step assms here show ?thesis by (simp add: repair_row_def)
    next
      case no: False
      with False here have "row_step ms index m s (push_row m s) [m]"
        by (intro other_row_step) (cases "m_role m"; simp)+
      moreover have "repair_row (repair_pass_of ms) (index, m) s = push_row m s"
        using no False here by (auto simp: repair_row_def)
      ultimately show ?thesis by auto
    qed
  qed
qed

definition repaired ::
  "ChatMessageInput list \<Rightarrow> ChatMessageInput list \<Rightarrow> repair_state \<Rightarrow> bool" where
  "repaired ms done s =
     (let out = out_of s in
      results ms \<subseteq> set (rs_results s) \<and> set (rs_results s) \<subseteq> results ms \<union> results out
      \<and> set (rs_emitted s) \<subseteq> results ms \<inter> results out
      \<and> (\<forall>m \<in> set done. row_uses m \<inter> results ms \<subseteq> uses out)
      \<and> (\<forall>m \<in> set done. \<forall>i \<in> row_results m. i \<in> uses ms \<or> isPassthroughRow m \<longrightarrow> i \<in> results out)
      \<and> distinct (client_results out)
      \<and> set (client_results out) \<subseteq> set (rs_emitted s) \<union> (set (rs_results s) - results ms)
      \<and> list_all (row_paired (uses ms \<inter> results ms) (set (rs_results s) \<inter> (uses ms \<union> - results ms))) out
      \<and> (int (length done) \<le> lastTurnIndex ms \<longrightarrow> list_all (row_answered (set (rs_results s) \<inter> (uses ms \<union> - results ms))) out)
      \<and> list_all (row_answered (set (rs_results s) \<inter> (uses ms \<union> - results ms))) (moved_past out))"

lemma row_paired_mono: "row_paired A B m \<Longrightarrow> A \<subseteq> A' \<Longrightarrow> B \<subseteq> B' \<Longrightarrow> row_paired A' B' m"
  by (auto simp: row_paired_def split: if_splits)

lemma row_answered_mono: "row_answered B m \<Longrightarrow> B \<subseteq> B' \<Longrightarrow> row_answered B' m"
  by (auto simp: row_answered_def)

lemma list_all_subset: "list_all P xs \<Longrightarrow> set ys \<subseteq> set xs \<Longrightarrow> list_all P ys"
  by (auto simp: list_all_iff)

lemma no_turn_after:
  assumes "ms = xs @ m # ys" "lastTurnIndex ms < int (length xs)"
  shows "\<not> isTurnRow m"
  using lastTurnIndex_later [of xs "m # ys"] assms by simp

lemma repaired_step:
  assumes "repaired ms done s" "ms = done @ m # todo"
    and "row_step ms (length done) m s s' added"
  shows "repaired ms (done @ [m]) s'"
proof -
  note inv = assms(1) [unfolded repaired_def Let_def]
  note step = assms(3) [unfolded row_step_def]
  have grow: "set (rs_results s) \<subseteq> set (rs_results s')" using step by blast
  have paired: "list_all (row_paired (uses ms \<inter> results ms) (set (rs_results s') \<inter> (uses ms \<union> - results ms))) (out_of s)"
    using inv grow by (auto simp: list_all_iff intro: row_paired_mono)
  have old: "list_all (row_answered (set (rs_results s') \<inter> (uses ms \<union> - results ms))) rows" if "list_all (row_answered (set (rs_results s) \<inter> (uses ms \<union> - results ms))) rows" for rows
    using that grow by (auto simp: list_all_iff intro: row_answered_mono)
  have "list_all (row_answered (set (rs_results s') \<inter> (uses ms \<union> - results ms))) (moved_past (out_of s @ added))"
  proof (cases "int (length done) < lastTurnIndex ms")
    case True
    then have "list_all (row_answered (set (rs_results s') \<inter> (uses ms \<union> - results ms))) (out_of s @ added)"
      using step inv old by simp
    then show ?thesis using moved_past_subset by (rule list_all_subset)
  next
    case False
    then consider "added = []" | a where "added = [a]" "isTurnRow a = isTurnRow m" using step by force
    then show ?thesis
    proof cases
      case 1 then show ?thesis using inv old by simp
    next
      case 2
      show ?thesis
      proof (cases "isTurnRow m")
        case True
        then have "int (length done) = lastTurnIndex ms"
          using no_turn_after [OF assms(2)] False by linarith
        then show ?thesis using 2 True inv old by simp
      qed (use 2 inv old in simp)
    qed
  qed
  moreover have "int (length (done @ [m])) \<le> lastTurnIndex ms \<longrightarrow> list_all (row_answered (set (rs_results s') \<inter> (uses ms \<union> - results ms))) (out_of s @ added)"
    using step inv old by simp
  ultimately have answered: "list_all (row_answered (set (rs_results s') \<inter> (uses ms \<union> - results ms))) (moved_past (out_of s @ added))"
    "int (length (done @ [m])) \<le> lastTurnIndex ms \<longrightarrow> list_all (row_answered (set (rs_results s') \<inter> (uses ms \<union> - results ms))) (out_of s @ added)"
    by blast+
  have out: "out_of s' = out_of s @ added" using step by blast
  have "distinct (client_results added)" "distinct (client_results (out_of s))"
    "set (client_results added) \<inter> (set (rs_emitted s) \<union> (set (rs_results s) - results ms)) = {}"
    "set (client_results (out_of s)) \<subseteq> set (rs_emitted s) \<union> (set (rs_results s) - results ms)"
    using step inv by blast+
  then have distinct: "distinct (client_results (out_of s @ added))" by auto
  have results: "set (rs_results s') \<subseteq> set (rs_results s) \<union> results added"
    "set (rs_emitted s') \<subseteq> set (rs_emitted s) \<union> results added \<inter> results ms"
    "row_uses m \<inter> results ms \<subseteq> uses added"
    "\<forall>i \<in> row_results m. i \<in> uses ms \<or> isPassthroughRow m \<longrightarrow> i \<in> results added \<union> set (rs_emitted s)"
    "set (client_results added) \<subseteq> set (rs_emitted s') \<union> (set (rs_results s') - results ms)"
    "set (rs_emitted s) \<subseteq> set (rs_emitted s')"
    "list_all (row_paired (uses ms \<inter> results ms) (set (rs_results s') \<inter> (uses ms \<union> - results ms))) added"
    using step by blast+
  have before: "results ms \<subseteq> set (rs_results s)" "set (rs_results s) \<subseteq> results ms \<union> results (out_of s)"
    "set (rs_emitted s) \<subseteq> results ms \<inter> results (out_of s)"
    "\<forall>m \<in> set done. row_uses m \<inter> results ms \<subseteq> uses (out_of s)"
    "\<forall>m \<in> set done. \<forall>i \<in> row_results m. i \<in> uses ms \<or> isPassthroughRow m \<longrightarrow> i \<in> results (out_of s)"
    "set (client_results (out_of s)) \<subseteq> set (rs_emitted s) \<union> (set (rs_results s) - results ms)"
    using inv by blast+
  show ?thesis
    unfolding repaired_def Let_def out
  proof (intro conjI)
    show "list_all (row_paired (uses ms \<inter> results ms) (set (rs_results s') \<inter> (uses ms \<union> - results ms))) (out_of s @ added)"
      using paired results(7) by simp
    show "\<forall>m' \<in> set (done @ [m]). row_uses m' \<inter> results ms \<subseteq> uses (out_of s @ added)"
      using before(4) results(3) by auto
    show "\<forall>m' \<in> set (done @ [m]). \<forall>i \<in> row_results m'. i \<in> uses ms \<or> isPassthroughRow m' \<longrightarrow> i \<in> results (out_of s @ added)"
      using before(3,5) results(4) by auto
    show "set (client_results (out_of s @ added)) \<subseteq> set (rs_emitted s') \<union> (set (rs_results s') - results ms)"
      using before(6) results(5,6) grow by auto
  qed (use answered distinct before(1-3) results(1,2) grow in auto)
qed

lemma repair_fold:
  assumes "\<And>m. m \<in> set ms \<Longrightarrow> distinct (map pc_id (row_client_calls m))"
    and "ms = done @ todo" "repaired ms done s"
  shows "repaired ms ms (fold (repair_row (repair_pass_of ms)) (enumerate (length done) todo) s)"
  using assms(2,3)
proof (induction todo arbitrary: "done" s)
  case (Cons m todo)
  have "results ms \<subseteq> set (rs_results s)" "set (rs_emitted s) \<subseteq> results ms"
    using Cons.prems(2) by (auto simp: repaired_def Let_def)
  then obtain added where "row_step ms (length done) m s (repair_row (repair_pass_of ms) (length done, m) s) added"
    using repair_row_step [of m ms s "length done"] assms(1) Cons.prems(1) by auto
  from repaired_step [OF Cons.prems(2) Cons.prems(1) this]
  have "repaired ms (done @ [m]) (repair_row (repair_pass_of ms) (length done, m) s)" .
  from Cons.IH [OF _ this] Cons.prems(1) show ?case by simp
qed simp

lemma repaired_paired:
  assumes "repaired ms ms s"
  shows "rows_paired (out_of s)"
proof -
  note inv = assms [unfolded repaired_def Let_def]
  have r: "i \<in> results (out_of s)" if "i \<in> uses ms" "i \<in> results ms" for i
    using inv that by (auto simp: results_def [of ms])
  have "i \<in> uses (out_of s)" if "i \<in> uses ms" "i \<in> results ms" for i
    using inv that by (auto simp: uses_def [of ms])
  then have "uses ms \<inter> results ms \<subseteq> uses (out_of s)" by blast
  moreover have answered: "set (rs_results s) \<inter> (uses ms \<union> - results ms) \<subseteq> results (out_of s)"
    using inv r by blast
  ultimately have "list_all (row_paired (uses (out_of s)) (results (out_of s))) (out_of s)"
    using inv by (auto simp: list_all_iff intro: row_paired_mono)
  moreover have "list_all (row_answered (results (out_of s))) (moved_past (out_of s))"
    using inv answered by (auto simp: list_all_iff intro: row_answered_mono)
  ultimately show ?thesis using inv unfolding rows_paired_def by blast
qed

lemma repair_paired:
  assumes "\<And>m. m \<in> set ms \<Longrightarrow> distinct (map pc_id (row_client_calls m))"
  shows "rows_paired (out_of (fold (repair_row (repair_pass_of ms)) (enumerate 0 ms)
    \<lparr>rs_result = no_repairs relocated, rs_emitted = [], rs_results = result_ids (r_ids (repair_pass_of ms))\<rparr>))"
proof (rule repaired_paired)
  let ?s = "\<lparr>rs_result = no_repairs relocated, rs_emitted = [], rs_results = result_ids (r_ids (repair_pass_of ms))\<rparr>"
  have "repaired ms [] ?s" by (simp add: repaired_def repair_pass_sets no_repairs_def)
  from repair_fold [OF assms _ this, of ms] show
    "repaired ms ms (fold (repair_row (repair_pass_of ms)) (enumerate 0 ms) ?s)" by simp
qed

section \<open>A paired history\<close>

lemma drop_messages_fresh_eq:
  assumes "distinct (sdk_client_results sdk)" "set (sdk_client_results sdk) \<inter> set emitted = {}"
  shows "\<exists>e. drop_messages sdk emitted = (sdk, [], e) \<and> set e = set emitted \<union> set (sdk_client_results sdk)"
proof -
  obtain out dropped e where d: "drop_messages sdk emitted = (out, dropped, e)" by (metis prod_cases3)
  with drop_messages_fresh [OF d assms] drop_messages_same have "dropped = []" "out = sdk" by auto
  with drop_messages_client [OF d] d show ?thesis by simp
qed

definition healthy_state :: "ChatMessageInput list \<Rightarrow> ChatMessageInput list \<Rightarrow> repair_state \<Rightarrow> bool" where
  "healthy_state ms done s =
     (rs_result s = (no_repairs [])\<lparr>hr_messages := done\<rparr> \<and> set (rs_results s) = results ms
      \<and> set (rs_emitted s) = set (client_results done))"

lemma healthy_step:
  assumes "rows_paired ms" "ms = done @ m # todo" "healthy_state ms done s"
  shows "healthy_state ms (done @ [m]) (repair_row (repair_pass_of ms) (length done, m) s)"
proof -
  let ?pass = "repair_pass_of ms"
  have p: "row_paired (uses ms) (results ms) m" and d: "distinct (client_results ms)"
    using assms(1,2) by (auto simp: rows_paired_def)
  have fresh: "set (row_client_results m) \<inter> set (client_results done) = {}" "distinct (row_client_results m)"
    using d unfolding assms(2) by auto
  have s: "rs_result s = (no_repairs [])\<lparr>hr_messages := done\<rparr>" "set (rs_results s) = results ms"
    "set (rs_emitted s) = set (client_results done)" using assms(3) by (simp_all add: healthy_state_def)
  have push: "healthy_state ms (done @ [m]) (push_row m t)"
    if "rs_result t = rs_result s" "rs_results t = rs_results s"
      "set (rs_emitted t) = set (rs_emitted s) \<union> set (row_client_results m)" for t
    using that s by (simp add: healthy_state_def push_row_def)
  show ?thesis
  proof (cases "isPassthroughRow m")
    case True
    have nodangle: "filter (\<lambda>i. i \<in> set (r_dangling ?pass)) (executed_ids (harvestSdkPairIds (sdk_of m) no_ids)) = []"
      using p True by (auto simp: row_paired_def row_executed_def harvest_sets repair_pass_sets filter_empty_conv)
    obtain e where e: "drop_messages (sdk_of m) (rs_emitted s) = (sdk_of m, [], e)"
      "set e = set (rs_emitted s) \<union> set (row_client_results m)"
      using drop_messages_fresh_eq [of "sdk_of m" "rs_emitted s"] fresh s(3) True
      by (auto simp: row_client_results_def)
    have same: "m\<lparr>m_sdkMessages := Some (sdk_of m)\<rparr> = m"
      using True by (cases m) (auto simp: sdk_of_def isPassthroughRow_def split: option.splits)
    have "row_answered (results ms) m" if "int (length done) < lastTurnIndex ms"
    proof -
      have "list_ex isTurnRow todo"
        using that lastTurnIndex_later [of "done @ [m]" todo] assms(2) by simp
      then have "m \<in> set (moved_past ms)" unfolding assms(2) by (rule moved_past_split)
      then show ?thesis using assms(1) by (auto simp: rows_paired_def list_all_iff)
    qed
    then have none: "filter (\<lambda>c. pc_id c \<notin> set (rs_results s) \<and> int (length done) < r_lastTurn ?pass) (row_client_calls m) = []"
      using s(2) by (auto simp: repair_pass_sets row_answered_def filter_empty_conv)
    have "repair_row ?pass (length done, m) s = push_row m (s\<lparr>rs_emitted := e\<rparr>)"
      using True e(1) none
      by (simp add: repair_row_def repair_passthrough_def Let_def nodangle dropRepeated_eq same
          pushWithInterruptedAnswers_def)
    then show ?thesis using push [of "s\<lparr>rs_emitted := e\<rparr>"] e(2) by simp
  next
    case False
    note here = this
    show ?thesis
    proof (cases "m_role m = Tool_role")
      case True
      then obtain i where i: "result_row_id m = Some i" "i \<in> uses ms"
        using p here by (auto simp: row_paired_def)
      then have "row_client_results m = [i]" using here by (simp add: row_client_results_def)
      moreover have "truthy (m_toolCallId m) = Some i" using i(1) True here by (simp add: result_row_id_def)
      ultimately have "repair_row ?pass (length done, m) s = push_row m (s\<lparr>rs_emitted := js_add i (rs_emitted s)\<rparr>)"
        using True here i(2) fresh s(3) by (simp add: repair_row_def repair_tool_row_def repair_pass_sets)
      then show ?thesis using push [of "s\<lparr>rs_emitted := js_add i (rs_emitted s)\<rparr>"] \<open>row_client_results m = [i]\<close> by simp
    next
      case False
      have "row_client_results m = []" using False here by (simp add: row_client_results_def result_row_id_def)
      then have "healthy_state ms (done @ [m]) (push_row m s)" by (intro push) simp_all
      moreover have "repair_row ?pass (length done, m) s = push_row m s"
      proof (cases "m_role m = Assistant_role \<and> calls_of m \<noteq> []")
        case True
        then have "tc_id ` set (calls_of m) \<subseteq> set (rs_results s)"
          using p here s(2) by (simp add: row_paired_def row_uses_def)
        then have "filter (\<lambda>c. tc_id c \<in> set (rs_results s)) (calls_of m) = calls_of m" by (auto simp: filter_id_conv)
        then show ?thesis using True here by (simp add: repair_row_def repair_calls_row_def)
      qed (use False here in \<open>auto simp: repair_row_def\<close>)
      ultimately show ?thesis by simp
    qed
  qed
qed

lemma healthy_fold:
  assumes "rows_paired ms" "ms = done @ todo" "healthy_state ms done s"
  shows "healthy_state ms ms (fold (repair_row (repair_pass_of ms)) (enumerate (length done) todo) s)"
  using assms(2,3)
proof (induction todo arbitrary: "done" s)
  case (Cons m todo)
  from Cons.IH [OF _ healthy_step [OF assms(1) Cons.prems]] Cons.prems(1) show ?case by simp
qed simp

lemma healthy_repair:
  assumes "rows_paired ms" "relocateDisplacedToolResults ms = (ms, [])"
  shows "repairToolCallPairing ms = (no_repairs [])\<lparr>hr_messages := ms\<rparr>"
proof -
  let ?s = "\<lparr>rs_result = no_repairs [], rs_emitted = [], rs_results = result_ids (r_ids (repair_pass_of ms))\<rparr>"
  have "healthy_state ms [] ?s" by (simp add: healthy_state_def no_repairs_def repair_pass_sets)
  from healthy_fold [OF assms(1) _ this, of ms] show ?thesis
    by (simp add: repairToolCallPairing_def assms(2) healthy_state_def)
qed

section \<open>Settled requests\<close>

text \<open>What a continuation request drops is gone from its assistant rows.\<close>

lemma settled_rows_strip:
  assumes "m \<in> set (ss_messages (settleDeferredServerCalls messages))" "m_role m = Assistant_role"
    and "i \<in> set (ss_strippedIds (settleDeferredServerCalls messages))"
  shows "i \<notin> row_executed m"
proof -
  let ?d = "ss_strippedIds (settleDeferredServerCalls messages)"
  have "?d \<noteq> []" using assms(3) by auto
  then have "ss_messages (settleDeferredServerCalls messages) = concat (map (settle_row ?d) messages)"
    by (auto simp: settleDeferredServerCalls_def Let_def split: prod.splits if_splits)
  then obtain m0 where m0: "m \<in> set (settle_row ?d m0)" using assms(1) by auto
  show ?thesis
  proof (cases "isPassthroughRow m0 \<and> m_role m0 = Assistant_role")
    case True
    then have "m = m0\<lparr>m_sdkMessages := Some (stripDanglingServerCalls (sdk_of m0) ?d)\<rparr>"
      using m0 by (auto simp: settle_row_def Let_def split: if_splits)
    then have "row_executed m \<subseteq> ids_in part_executed (stripDanglingServerCalls (sdk_of m0) ?d)"
      by (auto simp: row_executed_def sdk_of_def)
    then show ?thesis using strip_no_dangling [of "sdk_of m0" ?d] assms(3) by blast
  next
    case False
    then have "m = m0" using m0 by (auto simp: settle_row_def)
    then have "\<not> isPassthroughRow m" using False assms(2) by blast
    then show ?thesis by (simp add: row_executed_def)
  qed
qed

end
