(* ===== verification/History_Assemblies.thy ===== *)
theory History_Assemblies
  imports History_Pairing "HOL-Library.Multiset"
begin

text \<open>
  All results of a history, those of the server and errors inside assemblies included: what the
  repair does to them, and pairing in full when the stored assemblies are paired among themselves,
  as the source takes the SDK's to be.
\<close>

section \<open>Every result\<close>

definition part_error :: "json \<Rightarrow> string option" where
  "part_error p = (if part_is ''tool-error'' p then string_field ''toolCallId'' p else None)"

text \<open>Results the repair never drops: outside tool messages the server's own, and errors.\<close>

definition sdk_other_results :: "json list \<Rightarrow> string list" where
  "sdk_other_results sdk =
     List.map_filter part_result (parts_where (\<lambda>msg. \<not> tool_message msg) sdk)
     @ List.map_filter part_error (parts_where tool_message sdk)"

definition row_other_results :: "ChatMessageInput \<Rightarrow> string list" where
  "row_other_results m = (if isPassthroughRow m then sdk_other_results (sdk_of m) else [])"

definition other_results :: "ChatMessageInput list \<Rightarrow> string list" where
  "other_results ms = concat (map row_other_results ms)"

definition row_all_results :: "ChatMessageInput \<Rightarrow> string list" where
  "row_all_results m =
     (if isPassthroughRow m then List.map_filter part_result (sdk_parts (sdk_of m))
      else case result_row_id m of Some i \<Rightarrow> [i] | None \<Rightarrow> [])"

definition all_results :: "ChatMessageInput list \<Rightarrow> string list" where
  "all_results ms = concat (map row_all_results ms)"

text \<open>A history in which results and calls correspond: every result, wherever it stands, answers a
  call of the history, none answers one twice, and the stored calls, the server's calls and the
  client calls the conversation moved past have results.\<close>

definition paired :: "ChatMessageInput list \<Rightarrow> bool" where
  "paired ms = (distinct (all_results ms) \<and> set (all_results ms) \<subseteq> uses ms \<and> rows_paired ms)"

text \<open>What the source relies on of stored assemblies: their results answer calls of the history,
  the server answers a call once and the client does not, and an assembly calls with distinct ids.\<close>

definition assemblies_paired :: "ChatMessageInput list \<Rightarrow> bool" where
  "assemblies_paired ms =
     (list_all (\<lambda>m. isPassthroughRow m \<longrightarrow> row_results m \<subseteq> uses ms) ms
      \<and> distinct (other_results ms) \<and> set (other_results ms) \<inter> set (client_results ms) = {}
      \<and> list_all (\<lambda>m. distinct (map pc_id (row_client_calls m))) ms)"

lemma other_results_append [simp]: "other_results (xs @ ys) = other_results xs @ other_results ys"
  and other_results_Nil [simp]: "other_results [] = []"
  and other_results_Cons [simp]: "other_results (m # xs) = row_other_results m @ other_results xs"
  by (simp_all add: other_results_def)

lemma mset_map_filter_split:
  assumes "\<And>p. mset_set (set_option (f p)) = mset_set (set_option (g p)) + mset_set (set_option (h p))"
  shows "mset (List.map_filter f ps) = mset (List.map_filter g ps) + mset (List.map_filter h ps)"
proof (induction ps)
  case (Cons p ps)
  have "mset (List.map_filter k (p # ps)) = mset_set (set_option (k p)) + mset (List.map_filter k ps)"
    for k :: "'a \<Rightarrow> 'b option" by (cases "k p") simp_all
  with Cons assms [of p] show ?case by simp
qed simp

lemma mset_parts_where:
  "mset (List.map_filter f (sdk_parts sdk))
     = mset (List.map_filter f (parts_where (\<lambda>m. \<not> P m) sdk)) + mset (List.map_filter f (parts_where P sdk))"
  by (induction sdk) (simp_all add: sdk_parts_def parts_where_def)

lemma mset_sdk_results:
  "mset (List.map_filter part_result (sdk_parts sdk)) = mset (sdk_client_results sdk) + mset (sdk_other_results sdk)"
proof -
  have "mset (List.map_filter part_result ps)
      = mset (List.map_filter part_client_result ps) + mset (List.map_filter part_error ps)" for ps
    by (rule mset_map_filter_split) (auto simp: part_defs part_error_def part_is_unique)
  then show ?thesis
    by (simp add: mset_parts_where [of _ _ tool_message] sdk_client_results_def sdk_other_results_def)
qed

lemma set_all_results: "set (row_all_results m) = row_results m" "set (all_results ms) = results ms"
proof -
  show row: "set (row_all_results m) = row_results m" for m
    by (cases "result_row_id m") (simp_all add: row_all_results_def row_results_def ids_in_map_filter)
  show "set (all_results ms) = results ms" by (simp add: all_results_def results_def row)
qed

lemma mset_all_results: "mset (all_results ms) = mset (client_results ms) + mset (other_results ms)"
proof (induction ms)
  case (Cons m ms)
  have "mset (row_all_results m) = mset (row_client_results m) + mset (row_other_results m)"
    by (auto simp: row_all_results_def row_client_results_def row_other_results_def mset_sdk_results split: option.splits)
  with Cons show ?case by (simp add: all_results_def)
qed (simp add: all_results_def)

lemma distinct_all_results:
  "distinct (all_results ms) \<longleftrightarrow>
     distinct (client_results ms) \<and> distinct (other_results ms) \<and> set (client_results ms) \<inter> set (other_results ms) = {}"
proof -
  have "mset (all_results ms) = mset (client_results ms @ other_results ms)" by (simp add: mset_all_results)
  then have "distinct (all_results ms) = distinct (client_results ms @ other_results ms)"
    by (rule mset_eq_imp_distinct_iff)
  then show ?thesis by simp
qed

lemma results_split: "results ms = set (client_results ms) \<union> set (other_results ms)"
  by (metis mset_all_results set_all_results(2) set_mset_mset set_mset_union)

section \<open>What the repair does to them\<close>

lemma part_error_result: "part_error p \<noteq> None \<Longrightarrow> part_result p \<noteq> None"
  by (simp add: part_error_def part_result_def split: if_splits)

lemma strip_other_results: "sdk_other_results (stripDanglingServerCalls sdk ids) = sdk_other_results sdk"
  by (simp add: sdk_other_results_def strip_keeps saying part_error_result tool_message_with_content)

lemma kept_message_where:
  assumes "keep_results (array_member ''content'' msg) emitted = (kept, dropped, e)" "tool_message msg"
  shows "parts_where (\<lambda>m. \<not> tool_message m) (kept_message msg kept) = []"
    and "parts_where tool_message (kept_message msg kept) = kept"
proof -
  have "is_array (member ''content'' msg)" using assms(2) by (simp add: tool_message_def)
  then have "\<forall>m \<in> set (kept_message msg kept). tool_message m"
    using assms(2) by (simp add: kept_message_def tool_message_with_content)
  then show "parts_where (\<lambda>m. \<not> tool_message m) (kept_message msg kept) = []"
    and "parts_where tool_message (kept_message msg kept) = kept"
    using kept_message(2) [OF assms] by (auto simp: parts_where_def sdk_parts_def cong: map_cong)
qed

lemma drop_messages_other_results:
  "drop_messages sdk emitted = (out, dropped, e) \<Longrightarrow> sdk_other_results out = sdk_other_results sdk"
proof -
  assume d: "drop_messages sdk emitted = (out, dropped, e)"
  have "parts_where (\<lambda>m. \<not> tool_message m) out = parts_where (\<lambda>m. \<not> tool_message m) sdk
    \<and> List.map_filter part_error (parts_where tool_message out) = List.map_filter part_error (parts_where tool_message sdk)"
    using d
  proof (induction sdk arbitrary: emitted out dropped e)
    case (Cons msg msgs)
    have cons: "parts_where Q (msg # rest) = (if Q msg then array_member ''content'' msg else []) @ parts_where Q rest"
      for Q rest by (simp add: parts_where_def)
    from Cons.prems show ?case
    proof (cases rule: drop_messages_cases)
      case (other out')
      with Cons.IH [OF other(2)] show ?thesis by (simp add: cons)
    next
      case (tool kept d1 e1 out' d2)
      have "List.map_filter part_error kept = List.map_filter part_error (array_member ''content'' msg)"
        by (rule keep_results_others [OF tool(2)])
          (auto simp: part_error_def part_client_result_def part_is_unique split: if_splits)
      then show ?thesis
        using Cons.IH [OF tool(3)] kept_message_where [OF tool(2,1)] tool(1,4)
        by (simp add: cons)
    qed
  qed simp
  then show ?thesis by (simp add: sdk_other_results_def)
qed

text \<open>What a step adds comes from its row or is the answer of a call it pushes.\<close>

definition row_source ::
  "ChatMessageInput list \<Rightarrow> ChatMessageInput \<Rightarrow> repair_state \<Rightarrow> repair_state \<Rightarrow> ChatMessageInput list \<Rightarrow> bool" where
  "row_source ms m s s' added =
     (out_of s' = out_of s @ added \<and> other_results added = row_other_results m
      \<and> set (client_results added) \<subseteq> set (row_client_results m) \<union> (set (rs_results s') - results ms)
      \<and> set (rs_results s) \<subseteq> set (rs_results s') \<and> set (rs_results s') \<subseteq> set (rs_results s) \<union> uses added
      \<and> results added \<subseteq> uses ms)"

lemma plain_row_source:
  assumes "\<not> isPassthroughRow m" "rs_results s' = rs_results s"
    and "out_of s' = out_of s @ added" "added = [] \<or> (\<exists>a. added = [a] \<and> \<not> isPassthroughRow a
      \<and> (result_row_id a = None \<or> (\<exists>i. result_row_id a = Some i \<and> result_row_id m = Some i \<and> i \<in> uses ms)))"
  shows "row_source ms m s s' added"
  using assms by (auto simp: row_source_def row_other_results_def row_client_results_def row_results_def)

lemma repair_tool_row_source:
  assumes "m_role m = Tool_role" "\<not> isPassthroughRow m"
  shows "\<exists>added. row_source ms m s (repair_tool_row (repair_pass_of ms) m s) added"
proof -
  have id: "result_row_id m = truthy (m_toolCallId m)" using assms by (simp add: result_row_id_def)
  let ?s' = "repair_tool_row (repair_pass_of ms) m s"
  have "rs_results ?s' = rs_results s \<and> (out_of ?s' = out_of s
      \<or> out_of ?s' = out_of s @ [m] \<and> (\<exists>i. result_row_id m = Some i \<and> i \<in> uses ms))"
    using id by (auto simp: repair_tool_row_def repair_pass_sets Let_def split: option.splits)
  then show ?thesis using plain_row_source [OF assms(2), of ?s' s] assms(2) by (metis append.right_neutral)
qed

lemma repair_calls_row_source:
  assumes "m_role m = Assistant_role" "\<not> isPassthroughRow m"
  shows "\<exists>added. row_source ms m s (repair_calls_row m s) added"
proof -
  let ?s' = "repair_calls_row m s"
  have "rs_results ?s' = rs_results s \<and> (out_of ?s' = out_of s
      \<or> (\<exists>a. out_of ?s' = out_of s @ [a] \<and> \<not> isPassthroughRow a \<and> result_row_id a = None))"
    using assms by (auto simp: repair_calls_row_def Let_def isPassthroughRow_def result_row_id_def)
  then show ?thesis using plain_row_source [OF assms(2), of ?s' s] by (metis append.right_neutral)
qed

lemma answers_row_other: "row_other_results (answers_row (map (\<lambda>c. interruptedCallResult c (ok c)) cs)) = []"
proof -
  have "part_error (interruptedCallResult c b) = None" for c b
    by (simp add: part_error_def part_is_def string_field_def member_def interruptedCallResult_def)
  then have "List.map_filter part_error (map (\<lambda>c. interruptedCallResult c (ok c)) cs) = []"
    by (induction cs) simp_all
  then show ?thesis
    by (simp add: row_other_results_def sdk_other_results_def parts_where_def answers_row_def sdk_of_def
        tool_message_def string_field_def member_def is_array_def array_member_def)
qed

lemma answered_calls_used: "pc_id ` set (List.map_filter client_call ps) \<subseteq> {i. \<exists>p \<in> set ps. part_use p = Some i}"
  by (auto simp: set_map_filter dest: client_call_use)

lemma repair_passthrough_source:
  assumes "m \<in> set ms" "isPassthroughRow m" "results ms \<subseteq> set (rs_results s)" "row_results m \<subseteq> uses ms"
  shows "\<exists>added. row_source ms m s (repair_passthrough (repair_pass_of ms) index m s) added"
proof -
  let ?pass = "repair_pass_of ms"
  let ?s' = "repair_passthrough ?pass index m s"
  obtain sdk dropped emitted where d: "drop_messages (repaired_sdk ?pass m) (rs_emitted s) = (sdk, dropped, emitted)"
    by (metis prod_cases3)
  note c = repaired_sdk_carries [OF assms(1,2)]
  have other: "sdk_other_results sdk = row_other_results m"
    using drop_messages_other_results [OF d] assms(2)
    by (simp add: repaired_sdk_def strip_other_results row_other_results_def split: if_splits)
  have client: "set (sdk_client_results sdk) \<subseteq> set (row_client_results m)"
    using drop_messages_client [OF d, unfolded c(2)] by auto
  have res: "ids_in part_result sdk \<subseteq> row_results m" using drop_messages_results(2) [OF d, unfolded c(1)] .
  have calls: "List.map_filter client_call (sdk_parts sdk) = row_client_calls m"
    using drop_messages_others [OF d, of client_call] not_client(3) c(3) by simp
  have used: "pc_id ` set (row_client_calls m) \<subseteq> ids_in part_use sdk"
    using answered_calls_used [of "sdk_parts sdk"] by (simp add: calls ids_in_def)
  have "pc_id ` set (row_client_calls m) \<subseteq> row_uses m"
    using answered_calls_used [of "sdk_parts (sdk_of m)"] assms(2) by (simp add: row_client_calls_eq row_uses_def ids_in_def)
  then have used_ms: "pc_id ` set (row_client_calls m) \<subseteq> uses ms" using assms(1) by (auto simp: uses_def)
  from d assms(2) show ?thesis
  proof (cases rule: repair_passthrough_eq [where index = index])
    case (gone s')
    then have "row_source ms m s s' []"
      using other by (simp add: row_source_def sdk_other_results_def parts_where_def)
    with gone(1) show ?thesis by blast
  next
    case (kept s1)
    let ?a = "m\<lparr>m_sdkMessages := Some sdk\<rparr>"
    define late where
      "late = filter (\<lambda>c. pc_id c \<notin> set (rs_results s) \<and> int index < lastTurnIndex ms) (row_client_calls m)"
    note a = row_of_assembly [OF kept(1), of m]
    have a_other: "row_other_results ?a = row_other_results m"
      using a(1) other by (simp add: row_other_results_def sdk_of_def)
    obtain added where p: "out_of ?s' = out_of s @ [?a] @ added"
      "set (rs_results ?s') = set (rs_results s) \<union> pc_id ` set late"
      "late = [] \<and> added = [] \<or> late \<noteq> [] \<and> (\<exists>ok. added = [answers_row (map (\<lambda>c. interruptedCallResult c (ok c)) late)])"
      using push_answers [of ?pass "row_client_calls m" ?a index s1] kept(2-5)
      by (auto simp: repair_pass_sets late_def)
    have new: "results added = pc_id ` set late" "client_results added = map pc_id late" "uses added = {}"
      "other_results added = []"
      using p(3) by (auto simp: answers_row_carries answers_row_other)
    have late: "pc_id ` set late \<subseteq> pc_id ` set (row_client_calls m)" "pc_id ` set late \<inter> results ms = {}"
      using assms(3) by (auto simp: late_def)
    have late_used: "pc_id ` set late \<subseteq> ids_in part_use sdk" "pc_id ` set late \<subseteq> uses ms"
      using late(1) used used_ms by blast+
    have "row_source ms m s ?s' ([?a] @ added)"
      unfolding row_source_def
    proof (intro conjI)
      show "set (client_results ([?a] @ added)) \<subseteq> set (row_client_results m) \<union> (set (rs_results ?s') - results ms)"
        using new(2) a(3) client p(2) late(2) by auto
      show "set (rs_results ?s') \<subseteq> set (rs_results s) \<union> uses ([?a] @ added)"
        using p(2) a(4) late_used(1) by auto
      show "results ([?a] @ added) \<subseteq> uses ms" using new(1) a(2) res assms(4) late_used(2) by auto
    qed (use p new a_other in auto)
    then show ?thesis by blast
  qed
qed

lemma repair_row_source:
  assumes "m \<in> set ms" "results ms \<subseteq> set (rs_results s)" "isPassthroughRow m \<longrightarrow> row_results m \<subseteq> uses ms"
  shows "\<exists>added. row_source ms m s (repair_row (repair_pass_of ms) (index, m) s) added"
proof -
  consider "isPassthroughRow m" | "\<not> isPassthroughRow m" "m_role m = Tool_role"
    | "\<not> isPassthroughRow m" "m_role m = Assistant_role" "calls_of m \<noteq> []"
    | "\<not> isPassthroughRow m" "m_role m \<noteq> Tool_role" "m_role m \<noteq> Assistant_role \<or> calls_of m = []"
    by blast
  then show ?thesis
  proof cases
    case 4
    then have "row_source ms m s (push_row m s) [m]" by (intro plain_row_source) (auto simp: result_row_id_def)
    with 4 show ?thesis by (auto simp: repair_row_def)
  qed (use repair_passthrough_source repair_tool_row_source repair_calls_row_source assms in
      \<open>simp_all add: repair_row_def\<close>)
qed

definition sourced :: "ChatMessageInput list \<Rightarrow> ChatMessageInput list \<Rightarrow> repair_state \<Rightarrow> bool" where
  "sourced ms done s =
     (results ms \<subseteq> set (rs_results s) \<and> set (rs_results s) \<subseteq> results ms \<union> uses (out_of s)
      \<and> other_results (out_of s) = other_results done
      \<and> set (client_results (out_of s)) \<subseteq> set (client_results done) \<union> (set (rs_results s) - results ms)
      \<and> results (out_of s) \<subseteq> uses ms)"

lemma sourced_step:
  assumes "sourced ms done s" "row_source ms m s s' added"
  shows "sourced ms (done @ [m]) s'"
  using assms unfolding sourced_def row_source_def by auto

lemma sourced_fold:
  assumes "\<And>m. m \<in> set ms \<Longrightarrow> isPassthroughRow m \<Longrightarrow> row_results m \<subseteq> uses ms"
    and "ms = done @ todo" "sourced ms done s"
  shows "sourced ms ms (fold (repair_row (repair_pass_of ms)) (enumerate (length done) todo) s)"
  using assms(2,3)
proof (induction todo arbitrary: "done" s)
  case (Cons m todo)
  have "results ms \<subseteq> set (rs_results s)" using Cons.prems(2) by (simp add: sourced_def)
  then obtain added where "row_source ms m s (repair_row (repair_pass_of ms) (length done, m) s) added"
    using repair_row_source [of m ms s "length done"] assms(1) Cons.prems(1) by auto
  from Cons.IH [OF _ sourced_step [OF Cons.prems(2) this]] Cons.prems(1) show ?case by simp
qed simp

lemma repair_pairs_all:
  assumes "assemblies_paired ms"
  shows "paired (out_of (fold (repair_row (repair_pass_of ms)) (enumerate 0 ms)
    \<lparr>rs_result = no_repairs relocated, rs_emitted = [], rs_results = result_ids (r_ids (repair_pass_of ms))\<rparr>))"
proof -
  let ?s0 = "\<lparr>rs_result = no_repairs relocated, rs_emitted = [], rs_results = result_ids (r_ids (repair_pass_of ms))\<rparr>"
  define s where "s = fold (repair_row (repair_pass_of ms)) (enumerate 0 ms) ?s0"
  have calls: "\<And>m. m \<in> set ms \<Longrightarrow> distinct (map pc_id (row_client_calls m))"
    and answer: "\<And>m. m \<in> set ms \<Longrightarrow> isPassthroughRow m \<Longrightarrow> row_results m \<subseteq> uses ms"
    and other: "distinct (other_results ms)" "set (other_results ms) \<inter> set (client_results ms) = {}"
    using assms by (auto simp: assemblies_paired_def list_all_iff)
  have "repaired ms [] ?s0" by (simp add: repaired_def repair_pass_sets no_repairs_def)
  from repair_fold [OF calls _ this, of ms] have rep: "repaired ms ms s" by (simp add: s_def)
  have "sourced ms [] ?s0" by (simp add: sourced_def repair_pass_sets no_repairs_def)
  from sourced_fold [OF answer _ this, of ms] have src: "sourced ms ms s" by (simp add: s_def)
  have rows: "rows_paired (out_of s)" by (rule repaired_paired [OF rep])
  have "set (client_results (out_of s)) \<inter> set (other_results ms) = {}"
    using src other(2) results_split [of ms] by (auto simp: sourced_def)
  then have distinct: "distinct (all_results (out_of s))"
    using rows other(1) src by (simp add: distinct_all_results rows_paired_def sourced_def)
  have "uses ms \<inter> results ms \<subseteq> uses (out_of s)"
  proof -
    have "\<forall>m \<in> set ms. row_uses m \<inter> results ms \<subseteq> uses (out_of s)" using rep by (simp add: repaired_def Let_def)
    then show ?thesis by (auto simp: uses_def [of ms])
  qed
  moreover have "results (out_of s) \<subseteq> results ms \<union> uses (out_of s)"
    unfolding results_split [of "out_of s"] using src results_split [of ms] by (auto simp: sourced_def)
  moreover have "results (out_of s) \<subseteq> uses ms" using src by (simp add: sourced_def)
  ultimately have "results (out_of s) \<subseteq> uses (out_of s)" by blast
  then show ?thesis using distinct rows by (simp add: paired_def set_all_results s_def)
qed

lemma assemblies_paired_perm:
  assumes "mset ms = mset ms'" "assemblies_paired ms"
  shows "assemblies_paired ms'"
proof -
  have s: "set ms = set ms'" using assms(1) by (rule mset_eq_setD)
  have cong: "mset (concat (map f ms)) = mset (concat (map f ms'))" for f :: "ChatMessageInput \<Rightarrow> string list"
  proof -
    have "mset (concat (map f xs)) = \<Sum>\<^sub># (image_mset (\<lambda>m. mset (f m)) (mset xs))" for xs
      by (induction xs) simp_all
    then show ?thesis using assms(1) by simp
  qed
  have "set (client_results ms) = set (client_results ms')" "set (other_results ms) = set (other_results ms')"
    "uses ms = uses ms'"
    by (simp_all add: client_results_def other_results_def uses_def s)
  moreover have "distinct (other_results ms) = distinct (other_results ms')"
    unfolding other_results_def by (intro mset_eq_imp_distinct_iff cong)
  ultimately show ?thesis using assms(2) by (simp add: assemblies_paired_def list_all_iff s)
qed

text \<open>The assumption, computed.\<close>

lemma assemblies_paired_code:
  "assemblies_paired ms \<longleftrightarrow>
     (let called = use_ids (inventory ms) in
      list_all (\<lambda>m. isPassthroughRow m \<longrightarrow> list_all (\<lambda>i. i \<in> set called) (row_all_results m)) ms
      \<and> distinct (other_results ms) \<and> list_all (\<lambda>i. i \<notin> set (client_results ms)) (other_results ms)
      \<and> list_all (\<lambda>m. distinct (map pc_id (row_client_calls m))) ms)"
  by (auto simp: assemblies_paired_def list_all_iff inventory_sets Let_def simp flip: set_all_results(1))

end
