(* ===== verification/History_Relocation.thy ===== *)
theory History_Relocation
  imports History_Assemblies
begin

text \<open>
  What the first pass of the history repair establishes, results back behind their calls and
  nothing lost, and the properties of the whole repair.
\<close>

section \<open>Relocation\<close>

text \<open>The calls of a row since its first opener: no turn row may come between a call and its result.\<close>

definition opens :: "string \<Rightarrow> ChatMessageInput \<Rightarrow> bool" where
  "opens i m = (i \<in> set (openedClientCallIds m))"

definition follows_its_call :: "ChatMessageInput list \<Rightarrow> ChatMessageInput \<Rightarrow> bool" where
  "follows_its_call before m =
     (case result_row_id m of
        None \<Rightarrow> True
      | Some i \<Rightarrow> \<not> list_ex isTurnRow (tl (dropWhile (\<lambda>r. \<not> opens i r) before)))"

fun in_place_from :: "ChatMessageInput list \<Rightarrow> ChatMessageInput list \<Rightarrow> bool" where
  "in_place_from before [] = True"
| "in_place_from before (m # ms) = (follows_its_call before m \<and> in_place_from (before @ [m]) ms)"

definition in_place :: "ChatMessageInput list \<Rightarrow> bool" where
  "in_place ms = in_place_from [] ms"

lemma in_place_append [simp]:
  "in_place (xs @ [m]) = (in_place xs \<and> follows_its_call xs m)"
proof -
  have "in_place_from bs (xs @ [m]) = (in_place_from bs xs \<and> follows_its_call (bs @ xs) m)" for bs
    by (induction xs arbitrary: bs) auto
  then show ?thesis by (simp add: in_place_def)
qed

lemma in_place_Nil [simp]: "in_place []" by (simp add: in_place_def)

definition opener :: "string \<Rightarrow> ChatMessageInput list \<Rightarrow> nat option" where
  "opener i ms =
     (let k = length (takeWhile (\<lambda>r. \<not> opens i r) ms) in if k < length ms then Some k else None)"

definition moves_to :: "ChatMessageInput list \<Rightarrow> ChatMessageInput \<Rightarrow> nat option" where
  "moves_to before m =
     (case result_row_id m of
        None \<Rightarrow> None
      | Some i \<Rightarrow>
          (case opener i before of
             None \<Rightarrow> None
           | Some k \<Rightarrow> if lastTurnIndex before > int k then Some k else None))"

fun moves_from :: "ChatMessageInput list \<Rightarrow> ChatMessageInput list \<Rightarrow> (nat \<times> nat \<times> ChatMessageInput) list" where
  "moves_from before [] = []"
| "moves_from before (m # ms) =
     (case moves_to before m of Some k \<Rightarrow> [(length before, k, m)] | None \<Rightarrow> []) @ moves_from (before @ [m]) ms"

definition moves :: "ChatMessageInput list \<Rightarrow> (nat \<times> nat \<times> ChatMessageInput) list" where
  "moves ms = moves_from [] ms"

definition rows_to :: "nat \<Rightarrow> (nat \<times> nat \<times> ChatMessageInput) list \<Rightarrow> ChatMessageInput list" where
  "rows_to k mv = map (\<lambda>(j, k, m). m) (filter (\<lambda>(j, k', m). k' = k) mv)"

definition scan :: "ChatMessageInput list \<Rightarrow> relocation" where
  "scan ms = fold note_row (enumerate 0 ms)
     \<lparr>ownerOf = [], displacedByOwner = [], displaced = [], relocatedIds = [], lastTurnRow = -1\<rparr>"

lemma scan_append [simp]: "scan (ms @ [m]) = note_row (length ms, m) (scan ms)"
  by (simp add: scan_def enumerate_append_eq)

lemma moves_append [simp]:
  "moves (ms @ [m]) = moves ms @ (case moves_to ms m of Some k \<Rightarrow> [(length ms, k, m)] | None \<Rightarrow> [])"
proof -
  have "moves_from bs (ms @ [m]) = moves_from bs ms
      @ (case moves_to (bs @ ms) m of Some k \<Rightarrow> [(length (bs @ ms), k, m)] | None \<Rightarrow> [])" for bs
    by (induction ms arbitrary: bs) (auto split: option.splits)
  from this [of "[]"] show ?thesis by (simp add: moves_def cong: option.case_cong)
qed

lemma moves_Nil [simp]: "moves [] = []" by (simp add: moves_def)

lemma in_moves:
  "(j, k, m) \<in> set (moves ms) \<longleftrightarrow>
     (\<exists>xs ys. ms = xs @ m # ys \<and> j = length xs \<and> moves_to xs m = Some k)"
proof -
  have "(j, k, m) \<in> set (moves_from bs ms) \<longleftrightarrow>
     (\<exists>xs ys. ms = xs @ m # ys \<and> j = length bs + length xs \<and> moves_to (bs @ xs) m = Some k)" for bs
  proof (induction ms arbitrary: bs)
    case (Cons a ms)
    have "(j, k, m) \<in> set (moves_from bs (a # ms)) \<longleftrightarrow>
        (a = m \<and> j = length bs \<and> moves_to bs m = Some k)
        \<or> (\<exists>xs ys. ms = xs @ m # ys \<and> j = length (bs @ [a]) + length xs \<and> moves_to ((bs @ [a]) @ xs) m = Some k)"
      using Cons.IH [of "bs @ [a]"] by (auto split: option.splits)
    also have "\<dots> \<longleftrightarrow> (\<exists>xs ys. a # ms = xs @ m # ys \<and> j = length bs + length xs \<and> moves_to (bs @ xs) m = Some k)"
    proof
      assume "(a = m \<and> j = length bs \<and> moves_to bs m = Some k)
        \<or> (\<exists>xs ys. ms = xs @ m # ys \<and> j = length (bs @ [a]) + length xs \<and> moves_to ((bs @ [a]) @ xs) m = Some k)"
      then show "\<exists>xs ys. a # ms = xs @ m # ys \<and> j = length bs + length xs \<and> moves_to (bs @ xs) m = Some k"
      proof (elim disjE exE conjE)
        assume "a = m" "j = length bs" "moves_to bs m = Some k"
        then show ?thesis by (intro exI [of _ "[]"] exI [of _ ms]) simp
      next
        fix xs ys
        assume "ms = xs @ m # ys" "j = length (bs @ [a]) + length xs" "moves_to ((bs @ [a]) @ xs) m = Some k"
        then show ?thesis by (intro exI [of _ "a # xs"] exI [of _ ys]) simp
      qed
    next
      assume "\<exists>xs ys. a # ms = xs @ m # ys \<and> j = length bs + length xs \<and> moves_to (bs @ xs) m = Some k"
      then obtain xs ys where x: "a # ms = xs @ m # ys" "j = length bs + length xs" "moves_to (bs @ xs) m = Some k" by blast
      then show "(a = m \<and> j = length bs \<and> moves_to bs m = Some k)
        \<or> (\<exists>xs ys. ms = xs @ m # ys \<and> j = length (bs @ [a]) + length xs \<and> moves_to ((bs @ [a]) @ xs) m = Some k)"
        by (cases xs) auto
    qed
    finally show ?case .
  qed simp
  from this [of "[]"] show ?thesis by (simp add: moves_def)
qed

lemma opener_append [simp]:
  "opener i (ms @ [m]) =
     (case opener i ms of Some k \<Rightarrow> Some k | None \<Rightarrow> if opens i m then Some (length ms) else None)"
proof (cases "\<exists>r \<in> set ms. opens i r")
  case True
  then have "takeWhile (\<lambda>r. \<not> opens i r) (ms @ [m]) = takeWhile (\<lambda>r. \<not> opens i r) ms"
    by (auto simp: takeWhile_append)
  moreover have "length (takeWhile (\<lambda>r. \<not> opens i r) ms) < length ms"
    using True by (metis length_takeWhile_le nat_less_le takeWhile_eq_all_conv takeWhile_eq_take take_all)
  ultimately show ?thesis by (simp add: opener_def)
next
  case False
  then have t: "takeWhile (\<lambda>r. \<not> opens i r) ms = ms" by (simp add: takeWhile_eq_all_conv)
  then have "opener i ms = None" unfolding opener_def t by simp
  moreover have "takeWhile (\<lambda>r. \<not> opens i r) (ms @ [m]) = (if opens i m then ms else ms @ [m])"
    using False by (simp add: takeWhile_append)
  ultimately show ?thesis by (simp add: opener_def)
qed

lemma opener_Nil [simp]: "opener i [] = None" by (simp add: opener_def)

lemma opener_Some:
  assumes "opener i ms = Some k"
  shows "k < length ms" "opens i (ms ! k)" "\<forall>r \<in> set (take k ms). \<not> opens i r"
proof -
  have k: "k = length (takeWhile (\<lambda>r. \<not> opens i r) ms)" "k < length ms"
    using assms by (auto simp: opener_def Let_def split: if_splits)
  show "k < length ms" by (rule k(2))
  show "opens i (ms ! k)" using nth_length_takeWhile [of "\<lambda>r. \<not> opens i r" ms] k by simp
  have "take k ms = takeWhile (\<lambda>r. \<not> opens i r) ms" using k(1) by (metis takeWhile_eq_take)
  then show "\<forall>r \<in> set (take k ms). \<not> opens i r" by (auto dest: set_takeWhileD)
qed

lemma moves_to_None: "moves_to before m = None \<longleftrightarrow> follows_its_call before m"
proof (cases "result_row_id m")
  case (Some i)
  let ?P = "\<lambda>r. \<not> opens i r"
  let ?k = "length (takeWhile ?P before)"
  have tail: "tl (dropWhile ?P before) = drop (Suc ?k) before"
    by (simp add: dropWhile_eq_drop drop_Suc tl_drop)
  show ?thesis
  proof (cases "?k < length before")
    case True
    have "int ?k < lastTurnIndex before \<longleftrightarrow> int (length (take (Suc ?k) before)) \<le> lastTurnIndex (take (Suc ?k) before @ drop (Suc ?k) before)"
      using True by simp linarith
    also have "\<dots> \<longleftrightarrow> list_ex isTurnRow (drop (Suc ?k) before)" by (rule lastTurnIndex_later)
    finally show ?thesis using Some True
      by (simp add: moves_to_def follows_its_call_def opener_def Let_def tail)
  qed (use Some in \<open>simp add: moves_to_def follows_its_call_def opener_def tail\<close>)
qed (simp add: moves_to_def follows_its_call_def)

lemma displace_frame [simp]:
  "ownerOf (displace j m s) = ownerOf s" "lastTurnRow (displace j m s) = lastTurnRow s"
  by (auto simp: displace_def split: option.splits)

lemma note_row_fields:
  "ownerOf (note_row (j, m) s) = fold (\<lambda>call. insert_if_absent call j) (openedClientCallIds m) (ownerOf s)"
  "lastTurnRow (note_row (j, m) s) = (if isTurnRow m then int j else lastTurnRow s)"
  "displaced (note_row (j, m) s) = displaced (displace j m s)"
  "relocatedIds (note_row (j, m) s) = relocatedIds (displace j m s)"
  "displacedByOwner (note_row (j, m) s) = displacedByOwner (displace j m s)"
  by (simp_all add: note_row_def Let_def)

lemma js_get_fold_insert:
  "js_get (fold (\<lambda>call. insert_if_absent call j) calls m) i =
     (case js_get m i of Some k \<Rightarrow> Some k | None \<Rightarrow> if i \<in> set calls then Some j else None)"
  by (induction calls arbitrary: m) (auto simp: js_get_insert_if_absent split: option.splits)

lemma scan_owner: "js_get (ownerOf (scan ms)) i = opener i ms"
  by (induction ms rule: rev_induct)
    (auto simp: note_row_fields js_get_fold_insert opens_def scan_def [of "[]"] js_get_def [of "[]"] split: option.splits)

lemma scan_last: "lastTurnRow (scan ms) = lastTurnIndex ms"
  by (induction ms rule: rev_induct) (simp_all add: note_row_fields scan_def [of "[]"])

lemma scan_displace:
  "displace j m (scan ms) =
     (case moves_to ms m of
        None \<Rightarrow> scan ms
      | Some k \<Rightarrow> (scan ms)\<lparr>displaced := displaced (scan ms) @ [j],
          relocatedIds := relocatedIds (scan ms) @ [the (result_row_id m)],
          displacedByOwner := js_set k
            ((case js_get (displacedByOwner (scan ms)) k of Some rows \<Rightarrow> rows | None \<Rightarrow> []) @ [m])
            (displacedByOwner (scan ms))\<rparr>)"
  by (auto simp: displace_def moves_to_def scan_owner scan_last split: option.splits)

lemma scan_moves:
  "displaced (scan ms) = map fst (moves ms)" "length (relocatedIds (scan ms)) = length (moves ms)"
  by (induction ms rule: rev_induct)
    (auto simp: note_row_fields scan_displace scan_def [of "[]"] split: option.splits)

lemma rows_to_append [simp]: "rows_to k (xs @ ys) = rows_to k xs @ rows_to k ys"
  by (simp add: rows_to_def)

lemma scan_rows:
  "js_get (displacedByOwner (scan ms)) k = (if rows_to k (moves ms) = [] then None else Some (rows_to k (moves ms)))"
proof (induction ms arbitrary: k rule: rev_induct)
  case Nil
  then show ?case by (simp add: scan_def rows_to_def js_get_def)
next
  case (snoc m ms)
  show ?case
  proof (cases "moves_to ms m")
    case None
    with snoc show ?thesis by (simp add: note_row_fields scan_displace)
  next
    case (Some k')
    then show ?thesis
      by (simp add: note_row_fields scan_displace js_map_simps snoc) (simp add: rows_to_def)
  qed
qed

lemma displaced_of_scan: "displaced_of (scan ms) o' = (if o' < 0 then [] else rows_to (nat o') (moves ms))"
  by (simp add: displaced_of_def scan_rows)

lemma quiet_turns:
  assumes "\<And>r. r \<in> set xs \<Longrightarrow> opens i r \<Longrightarrow> isTurnRow r"
  shows "\<not> list_ex isTurnRow (tl (dropWhile (\<lambda>r. \<not> opens i r) xs))
    \<longleftrightarrow> tl (dropWhile (\<lambda>r. \<not> opens i r) (filter isTurnRow xs)) = []"
  using assms
proof (induction xs)
  case (Cons x xs)
  show ?case
  proof (cases "opens i x")
    case True
    with Cons.prems show ?thesis by (simp add: list_ex_iff filter_empty_conv)
  qed (use Cons in simp)
qed simp

definition openers_are_turns :: "ChatMessageInput list \<Rightarrow> bool" where
  "openers_are_turns ms = (\<forall>m \<in> set ms. openedClientCallIds m \<noteq> [] \<longrightarrow> m_role m = Assistant_role)"

lemma openers_are_turnsD: "openers_are_turns ms \<Longrightarrow> m \<in> set ms \<Longrightarrow> opens i m \<Longrightarrow> isTurnRow m"
  by (auto simp: openers_are_turns_def opens_def isTurnRow_def)

lemma openers_are_turns_append [simp]:
  "openers_are_turns (xs @ ys) = (openers_are_turns xs \<and> openers_are_turns ys)"
  by (auto simp: openers_are_turns_def)

lemma openers_subset: "openers_are_turns xs \<Longrightarrow> set ys \<subseteq> set xs \<Longrightarrow> openers_are_turns ys"
  by (auto simp: openers_are_turns_def)

lemma follows_cong:
  assumes "openers_are_turns xs" "openers_are_turns ys" "filter isTurnRow xs = filter isTurnRow ys"
  shows "follows_its_call xs m = follows_its_call ys m"
proof (cases "result_row_id m")
  case (Some i)
  have "\<not> list_ex isTurnRow (tl (dropWhile (\<lambda>r. \<not> opens i r) zs))
      \<longleftrightarrow> tl (dropWhile (\<lambda>r. \<not> opens i r) (filter isTurnRow zs)) = []" if "openers_are_turns zs" for zs
    using openers_are_turnsD [OF that] by (intro quiet_turns)
  from this [OF assms(1)] this [OF assms(2)] show ?thesis
    unfolding follows_its_call_def Some option.case assms(3) by simp
qed (simp add: follows_its_call_def)

lemma in_place_rows:
  assumes "in_place out" "openers_are_turns out" "openers_are_turns rows"
    and "\<And>r. r \<in> set rows \<Longrightarrow> \<not> isTurnRow r \<and> follows_its_call out r"
  shows "in_place (out @ rows)"
  using assms(3,4)
proof (induction rows rule: rev_induct)
  case (snoc r rows)
  have "filter isTurnRow (out @ rows) = filter isTurnRow out" using snoc.prems(2) by (auto simp: filter_empty_conv)
  then have "follows_its_call (out @ rows) r"
    using follows_cong [of "out @ rows" out r] assms(2) snoc.prems by simp
  moreover have "in_place (out @ rows)" using snoc by simp
  ultimately show ?case by (simp flip: append_assoc)
qed (use assms(1) in simp)

lemma result_row_no_turn: "result_row_id m = Some i \<Longrightarrow> \<not> isTurnRow m"
  by (auto dest: result_row_id_Some simp: isTurnRow_def)

lemma moves_to_result: "moves_to xs m = Some k \<Longrightarrow> \<exists>i. result_row_id m = Some i \<and> opener i xs = Some k"
  by (auto simp: moves_to_def split: option.splits if_splits)

lemma in_rows_to:
  "r \<in> set (rows_to k (moves ms)) \<longleftrightarrow> (\<exists>xs ys. ms = xs @ r # ys \<and> moves_to xs r = Some k)"
proof -
  have "r \<in> set (rows_to k (moves ms)) \<longleftrightarrow> (\<exists>j. (j, k, r) \<in> set (moves ms))" by (force simp: rows_to_def)
  then show ?thesis by (auto simp: in_moves)
qed

lemma lastTurnIndex_props:
  "lastTurnIndex ms < int (length ms)"
  "0 \<le> lastTurnIndex ms \<Longrightarrow> isTurnRow (ms ! nat (lastTurnIndex ms))"
  "\<forall>r \<in> set (drop (Suc (nat (lastTurnIndex ms))) ms). \<not> isTurnRow r"
proof -
  show l: "lastTurnIndex ms < int (length ms)" by (induction ms rule: rev_induct) auto
  show "0 \<le> lastTurnIndex ms \<Longrightarrow> isTurnRow (ms ! nat (lastTurnIndex ms))"
  proof (induction ms rule: rev_induct)
    case (snoc m ms)
    have "lastTurnIndex ms < int (length ms)" by (induction ms rule: rev_induct) auto
    with snoc show ?case by (auto simp: nth_append)
  qed simp
  let ?k = "Suc (nat (lastTurnIndex ms))"
  have "\<not> int (length (take ?k ms)) \<le> lastTurnIndex (take ?k ms @ drop ?k ms) \<or> drop ?k ms = []"
    using l by auto
  then show "\<forall>r \<in> set (drop ?k ms). \<not> isTurnRow r"
    using lastTurnIndex_later [of "take ?k ms" "drop ?k ms"] by (auto simp: list_ex_iff)
qed

text \<open>A row flushed after its owner, the last turn row, follows its call.\<close>

lemma flushed_follows:
  assumes "full = done @ todo" "openers_are_turns full" "r \<in> set (rows_to k (moves full))"
    and "lastTurnIndex done = int k"
  shows "follows_its_call done r"
proof -
  obtain xs ys where xs: "full = xs @ r # ys" "moves_to xs r = Some k"
    using assms(3) by (auto simp: in_rows_to)
  obtain i where i: "result_row_id r = Some i" "opener i xs = Some k"
    using moves_to_result [OF xs(2)] by blast
  have k: "k < length done" using lastTurnIndex_props(1) [of "done"] assms(4) by simp
  have kx: "k < length xs" "opens i (xs ! k)" "\<forall>m \<in> set (take k xs). \<not> opens i m"
    using opener_Some [OF i(2)] by simp_all
  have "done ! k = full ! k" "take k done = take k full" using k assms(1) by (simp_all add: nth_append)
  moreover have "xs ! k = full ! k" "take k xs = take k full" using kx(1) xs(1) by (simp_all add: nth_append)
  ultimately have here: "opens i (done ! k)" "\<forall>m \<in> set (take k done). \<not> opens i m" using kx by simp_all
  have "done = take k done @ done ! k # drop (Suc k) done" using k by (rule id_take_nth_drop)
  moreover have "dropWhile (\<lambda>m. \<not> opens i m) (take k done @ done ! k # drop (Suc k) done) = done ! k # drop (Suc k) done"
    using here by (simp add: dropWhile_append2)
  ultimately have "dropWhile (\<lambda>m. \<not> opens i m) done = done ! k # drop (Suc k) done" by metis
  then show ?thesis
    using i(1) lastTurnIndex_props(3) [of "done"] assms(4)
    by (auto simp: follows_its_call_def list_ex_iff)
qed

definition turns :: "ChatMessageInput list \<Rightarrow> nat set" where
  "turns ms = {k. k < length ms \<and> isTurnRow (ms ! k)}"

lemma turns_append [simp]: "turns (ms @ [m]) = (if isTurnRow m then insert (length ms) (turns ms) else turns ms)"
  by (auto simp: turns_def nth_append less_Suc_eq)

lemma finite_turns [simp]: "finite (turns ms)" by (simp add: turns_def)

lemma turns_fresh [simp]: "length ms \<notin> turns ms" by (simp add: turns_def)

definition moved_rows :: "ChatMessageInput list \<Rightarrow> ChatMessageInput list" where
  "moved_rows ms = map (\<lambda>(j, k, m). m) (moves ms)"

lemma mset_moved_rows:
  assumes "openers_are_turns ms"
  shows "(\<Sum>k \<in> turns ms. mset (rows_to k (moves ms))) = mset (moved_rows ms)"
proof -
  have split: "(\<Sum>k \<in> T. mset (rows_to k mv)) = mset (map (\<lambda>(j, k, m). m) mv)"
    if "finite T" "\<forall>(j, k, m) \<in> set mv. k \<in> T" for T mv
    using that(2)
  proof (induction mv)
    case (Cons a mv)
    obtain j k m where a: "a = (j, k, m)" by (cases a)
    have "(\<Sum>k' \<in> T. mset (rows_to k' (a # mv))) = (\<Sum>k' \<in> T. (if k' = k then {#m#} else {#}) + mset (rows_to k' mv))"
      by (intro sum.cong) (auto simp: rows_to_def a)
    also have "\<dots> = (\<Sum>k' \<in> T. if k' = k then {#m#} else {#}) + (\<Sum>k' \<in> T. mset (rows_to k' mv))"
      by (simp only: sum.distrib)
    also have "(\<Sum>k' \<in> T. if k' = k then {#m#} else {#}) = {#m#}"
      using Cons.prems that(1) a by (simp add: sum.delta)
    finally show ?case using Cons a by simp
  qed (simp add: rows_to_def)
  have "k \<in> turns ms" if mv: "(j, k, m) \<in> set (moves ms)" for j k m
  proof -
    obtain xs ys where xs: "ms = xs @ m # ys" "moves_to xs m = Some k" using mv by (auto simp: in_moves)
    obtain i where "opener i xs = Some k" using moves_to_result [OF xs(2)] by blast
    from opener_Some [OF this] have "k < length xs" "opens i (xs ! k)" by simp_all
    then show ?thesis using assms openers_are_turnsD [of ms "xs ! k" i] xs(1)
      by (auto simp: turns_def nth_append)
  qed
  with split [OF finite_turns] show ?thesis by (fastforce simp: moved_rows_def)
qed

definition placed ::
  "ChatMessageInput list \<Rightarrow> ChatMessageInput list \<Rightarrow> ChatMessageInput list \<times> int \<Rightarrow> bool" where
  "placed full done = (\<lambda>(out, owner).
     filter isTurnRow out = filter isTurnRow done \<and> set out \<subseteq> set full \<and> owner = lastTurnIndex done
     \<and> in_place out
     \<and> mset out + mset (displaced_of (scan full) owner) + mset (moved_rows done)
       = mset done + (\<Sum>k \<in> turns done. mset (rows_to k (moves full))))"

lemma displaced_of_last:
  "displaced_of (scan full) (lastTurnIndex done) =
     (if lastTurnIndex done < 0 then [] else rows_to (nat (lastTurnIndex done)) (moves full))"
  by (simp add: displaced_of_scan)

lemma flush:
  assumes "full = done @ todo" "openers_are_turns full" "placed full done (out, owner)"
  shows "in_place (out @ displaced_of (scan full) owner)"
    "set (displaced_of (scan full) owner) \<subseteq> set full"
    "filter isTurnRow (displaced_of (scan full) owner) = []"
proof -
  have o1: "owner = lastTurnIndex done" "filter isTurnRow out = filter isTurnRow done" "set out \<subseteq> set full" "in_place out"
    using assms(3) by (simp_all add: placed_def)
  show rows: "set (displaced_of (scan full) owner) \<subseteq> set full"
    by (auto simp: displaced_of_scan in_rows_to split: if_splits)
  have row: "\<not> isTurnRow r \<and> follows_its_call out r" if r: "r \<in> set (displaced_of (scan full) owner)" for r
  proof -
    have "lastTurnIndex done = int (nat owner)" "r \<in> set (rows_to (nat owner) (moves full))"
      using r o1(1) by (auto simp: displaced_of_scan split: if_splits)
    then have "follows_its_call done r" by (intro flushed_follows [OF assms(1,2)])
    moreover have "openers_are_turns done" "openers_are_turns out"
      using openers_subset [OF assms(2)] assms(1) o1(3) by auto
    moreover have "\<not> isTurnRow r"
      using \<open>r \<in> set (rows_to (nat owner) (moves full))\<close> moves_to_result result_row_no_turn
      by (auto simp: in_rows_to) blast
    ultimately show ?thesis using follows_cong [of out "done" r] o1(2) by simp
  qed
  then show "filter isTurnRow (displaced_of (scan full) owner) = []" by (auto simp: filter_empty_conv)
  show "in_place (out @ displaced_of (scan full) owner)"
    using o1 rows row openers_subset [OF assms(2)] by (intro in_place_rows) auto
qed

lemma placed_step:
  assumes "full = done @ m # todo" "openers_are_turns full" "placed full done p"
  shows "placed full (done @ [m]) (place_row (scan full) (length done, m) p)"
proof -
  obtain out owner where p: "p = (out, owner)" by (cases p)
  note inv = assms(3) [unfolded placed_def p prod.case]
  note fl = flush [OF assms(1,2) assms(3) [unfolded p]]
  have gone: "length done \<in> set (displaced (scan full)) \<longleftrightarrow> moves_to done m \<noteq> None"
  proof -
    have "length done \<in> set (displaced (scan full)) \<longleftrightarrow> (\<exists>k m'. (length done, k, m') \<in> set (moves full))"
      by (force simp: scan_moves)
    also have "\<dots> \<longleftrightarrow> moves_to done m \<noteq> None"
      using assms(1) by (auto simp: in_moves)
    finally show ?thesis .
  qed
  have open_out: "openers_are_turns done" "openers_are_turns out"
    using openers_subset [OF assms(2)] assms(1) inv by auto
  show ?thesis
  proof (cases "moves_to done m")
    case (Some k)
    then have "\<not> isTurnRow m" using moves_to_result result_row_no_turn by blast
    then show ?thesis using Some inv gone p
      by (auto simp: placed_def place_row_def moved_rows_def)
  next
    case None
    then have follows: "follows_its_call out m"
      using follows_cong [OF open_out(2,1)] inv by (simp add: moves_to_None)
    show ?thesis
    proof (cases "isTurnRow m")
      case False
      then show ?thesis using None inv gone p follows assms(1)
        by (auto simp: placed_def place_row_def moved_rows_def)
    next
      case True
      have "follows_its_call (out @ displaced_of (scan full) owner) m"
        using True by (auto simp: follows_its_call_def dest: result_row_no_turn split: option.splits)
      then have "in_place (out @ displaced_of (scan full) owner @ [m])"
        using fl(1) by (simp flip: append_assoc)
      then show ?thesis using None True inv gone p fl assms(1)
        by (auto simp: placed_def place_row_def moved_rows_def displaced_of_scan ac_simps)
    qed
  qed
qed

lemma placed_fold:
  assumes "full = done @ todo" "openers_are_turns full" "placed full done p"
  shows "placed full full (fold (place_row (scan full)) (enumerate (length done) todo) p)"
  using assms(1,3)
proof (induction todo arbitrary: "done" p)
  case (Cons m todo)
  from Cons.IH [OF _ placed_step [OF Cons.prems(1) assms(2) Cons.prems(2)]] Cons.prems(1) show ?case by simp
qed simp

lemma relocate_scan:
  "relocateDisplacedToolResults ms =
     (if displaced (scan ms) = [] then (ms, relocatedIds (scan ms))
      else (let (out, openOwner) = fold (place_row (scan ms)) (enumerate 0 ms) ([], -1)
            in (out @ displaced_of (scan ms) openOwner, relocatedIds (scan ms))))"
  by (simp add: relocateDisplacedToolResults_def scan_def Let_def)

lemma moves_Nil_iff: "moves ms = [] \<longleftrightarrow> in_place ms"
  by (induction ms rule: rev_induct) (auto simp flip: moves_to_None split: option.splits)

lemma relocate_in_place:
  assumes "in_place ms"
  shows "relocateDisplacedToolResults ms = (ms, [])"
  using assms scan_moves [of ms] by (simp add: relocate_scan moves_Nil_iff [symmetric])

lemma relocate_ok:
  assumes "openers_are_turns ms"
  shows "mset (fst (relocateDisplacedToolResults ms)) = mset ms"
    and "in_place (fst (relocateDisplacedToolResults ms))"
proof -
  obtain out owner where f: "fold (place_row (scan ms)) (enumerate 0 ms) ([], -1) = (out, owner)" by fastforce
  have "placed ms [] ([], -1)" by (simp add: placed_def displaced_of_scan moved_rows_def turns_def)
  from placed_fold [OF _ assms this, of ms] f have p: "placed ms ms (out, owner)" by simp
  have "mset out + mset (displaced_of (scan ms) owner) = mset ms"
    using p mset_moved_rows [OF assms] by (auto simp: placed_def)
  moreover have "in_place (out @ displaced_of (scan ms) owner)"
    using flush(1) [OF _ assms p, of "[]"] by simp
  moreover have "in_place ms" if "displaced (scan ms) = []" using that by (simp add: scan_moves moves_Nil_iff)
  ultimately show "mset (fst (relocateDisplacedToolResults ms)) = mset ms"
    "in_place (fst (relocateDisplacedToolResults ms))"
    by (simp_all add: relocate_scan f)
qed

section \<open>A wedged chat\<close>

definition demo_say :: "chat_role \<Rightarrow> string \<Rightarrow> ChatMessageInput" where
  "demo_say who text =
     \<lparr>m_role = who, m_content = text, m_toolCalls = None, m_toolCallId = None, m_sdkMessages = None, m_rest = JNull\<rparr>"

definition demo_calls :: "string list \<Rightarrow> ChatMessageInput" where
  "demo_calls ids =
     (demo_say Assistant_role ''on it'')\<lparr>m_toolCalls := Some (map (\<lambda>i. \<lparr>tc_id = i, tc_name = ''edit'', tc_arguments = JNull\<rparr>) ids)\<rparr>"

definition demo_result :: "string \<Rightarrow> ChatMessageInput" where
  "demo_result i = (demo_say Tool_role ''done'')\<lparr>m_toolCallId := Some i\<rparr>"

definition demo_assembly :: ChatMessageInput where
  "demo_assembly = (demo_say Assistant_role [])\<lparr>m_sdkMessages := Some
     [JObject [(''role'', JString ''assistant''), (''content'', JArray
       [JObject [(''type'', JString ''text'')],
        JObject [(''type'', JString ''tool-call''), (''toolCallId'', JString ''search''), (''providerExecuted'', JBool True)],
        JObject [(''type'', JString ''tool-call''), (''toolCallId'', JString ''found''), (''providerExecuted'', JBool True)],
        JObject [(''type'', JString ''tool-result''), (''toolCallId'', JString ''found'')],
        JObject [(''type'', JString ''tool-call''), (''toolCallId'', JString ''gated''), (''toolName'', JString ''publish'')]])]]\<rparr>"

definition demo_repeat :: ChatMessageInput where
  "demo_repeat = (demo_say Tool_role [])\<lparr>m_sdkMessages := Some
     [JObject [(''role'', JString ''tool''), (''content'', JArray
       [JObject [(''type'', JString ''tool-result''), (''toolCallId'', JString ''a'')]])]]\<rparr>"

text \<open>A late result, an orphaned one, a result stored twice, a call and a search without result, an
  answered search, a gated call the chat moved past.\<close>

definition demo_wedged :: "ChatMessageInput list" where
  "demo_wedged =
     [demo_say User_role ''go'', demo_calls [''a'', ''b''], demo_say User_role ''and?'', demo_result ''a'',
      demo_result ''orphan'', demo_repeat, demo_assembly, demo_say User_role ''so?'']"

definition demo_healthy :: "ChatMessageInput list" where
  "demo_healthy = [demo_say User_role ''go'', demo_calls [''a''], demo_result ''a'', demo_say Assistant_role ''ok'']"

lemma demo_openers: "openers_are_turns demo_wedged"
proof -
  have "list_all (\<lambda>m. openedClientCallIds m = [] \<or> m_role m = Assistant_role) demo_wedged" by code_simp
  then show ?thesis by (auto simp: openers_are_turns_def list_all_iff)
qed

section \<open>Properties\<close>

text \<open>The relocation loses no row and adds none, and puts every result behind the row that
  opened its call: no user or assistant message stands between the two.\<close>

theorem relocation_moves_results_back:
  assumes "openers_are_turns messages"
  shows "mset (fst (relocateDisplacedToolResults messages)) = mset messages
    \<and> in_place (fst (relocateDisplacedToolResults messages))"
  using relocate_ok [OF assms] by simp

lemma relocation_moves_results_back_witness:
  "mset (fst (relocateDisplacedToolResults demo_wedged)) = mset demo_wedged
    \<and> in_place (fst (relocateDisplacedToolResults demo_wedged))
    \<and> snd (relocateDisplacedToolResults demo_wedged) = [''a'']"
proof -
  have "snd (relocateDisplacedToolResults demo_wedged) = [''a'']" by code_simp
  then show ?thesis using relocation_moves_results_back [OF demo_openers] by simp
qed

text \<open>C10. When the stored assemblies are paired among themselves, as the source takes the SDK's to
  be, the repaired history is one a provider accepts: every result, in a row or in an assembly,
  answers a call of the history and no call has two; every stored call and every server call has a
  result; a result row names its call; and a client call the conversation moved past is answered.\<close>

theorem repaired_history_is_paired:
  assumes "openers_are_turns messages" and "assemblies_paired messages"
  shows "paired (hr_messages (repairToolCallPairing messages))"
proof -
  obtain ms relocated where r: "relocateDisplacedToolResults messages = (ms, relocated)" by fastforce
  have "mset messages = mset ms" using relocate_ok(1) [OF assms(1)] r by simp
  from repair_pairs_all [OF assemblies_paired_perm [OF this assms(2)]] show ?thesis
    by (simp add: repairToolCallPairing_def r Let_def)
qed

lemma repaired_history_is_paired_witness:
  "paired (hr_messages (repairToolCallPairing demo_wedged))
    \<and> strippedToolCallIds (repairToolCallPairing demo_wedged) = [''b'']
    \<and> strippedServerToolCallIds (repairToolCallPairing demo_wedged) = [''search'']
    \<and> droppedToolResultIds (repairToolCallPairing demo_wedged) = [''orphan'', ''a'']
    \<and> map ac_id (answeredInterruptedCalls (repairToolCallPairing demo_wedged)) = [''gated'']"
proof -
  have "assemblies_paired demo_wedged" unfolding assemblies_paired_code by code_simp
  with demo_openers have "paired (hr_messages (repairToolCallPairing demo_wedged))"
    by (rule repaired_history_is_paired)
  moreover have "strippedToolCallIds (repairToolCallPairing demo_wedged) = [''b'']"
    "strippedServerToolCallIds (repairToolCallPairing demo_wedged) = [''search'']"
    "droppedToolResultIds (repairToolCallPairing demo_wedged) = [''orphan'', ''a'']"
    "map ac_id (answeredInterruptedCalls (repairToolCallPairing demo_wedged)) = [''gated'']" by code_simp+
  ultimately show ?thesis by simp
qed

text \<open>Whatever the assemblies hold, the stored rows and the results of tool messages are paired.\<close>

lemma repaired_rows_are_paired:
  assumes "openers_are_turns messages" and "\<forall>m \<in> set messages. distinct (map pc_id (row_client_calls m))"
  shows "rows_paired (hr_messages (repairToolCallPairing messages))"
proof -
  obtain ms relocated where r: "relocateDisplacedToolResults messages = (ms, relocated)" by fastforce
  have "mset ms = mset messages" using relocate_ok(1) [OF assms(1)] r by simp
  then have "set ms = set messages" by (rule mset_eq_setD)
  with assms(2) repair_paired [of ms relocated] show ?thesis by (simp add: repairToolCallPairing_def r Let_def)
qed

text \<open>A history that is paired and in place is replayed as it is stored: the repair changes
  and reports nothing.\<close>

theorem paired_history_is_unchanged:
  assumes "rows_paired messages" "in_place messages"
  shows "repairToolCallPairing messages = (no_repairs [])\<lparr>hr_messages := messages\<rparr>"
  using healthy_repair [OF assms(1) relocate_in_place [OF assms(2)]] .

lemma demo_healthy: "rows_paired demo_healthy" "in_place demo_healthy"
  by (simp_all add: rows_paired_def demo_healthy_def demo_say_def demo_calls_def demo_result_def row_paired_def
      row_answered_def row_uses_def row_results_def row_client_results_def row_client_calls_eq result_row_id_def
      isPassthroughRow_def truthy_def calls_of_def isTurnRow_def in_place_def follows_its_call_def opens_def
      openedClientCallIds_def)

lemma paired_history_is_unchanged_witness:
  "repairToolCallPairing demo_healthy = (no_repairs [])\<lparr>hr_messages := demo_healthy\<rparr>"
  by (rule paired_history_is_unchanged [OF demo_healthy])

end
