(* ===== verification/Rate_Limits.thy ===== *)
theory Rate_Limits
  imports Complex_Main Caelo_Prelude
begin

text \<open>
  Rate limits: the gateway's token buckets in memory (apps/api-gateway/src/middleware/
  memory-limiter.ts), its database limit (middleware/rate-limit.ts) and the admin's
  (packages/admin-core/src/rate-limit.ts).  Times are integers of milliseconds, tokens in
  memory rationals (the source computes in doubles); the reading of the clock is an argument.
  The two database limits share the contract of a fixed window, a locale interpreted on both.
\<close>

section \<open>Token buckets in memory\<close>

record MemoryLimitSpec =
  ml_capacity :: rat
  ml_refillPerSec :: rat

record MemoryLimitDecision =
  md_allowed :: bool
  md_retryAfterSec :: int

record Bucket =
  b_tokens :: rat
  b_at :: int

type_synonym bucket_map = "(string \<times> Bucket) list"

definition refilled :: "MemoryLimitSpec \<Rightarrow> Bucket \<Rightarrow> int \<Rightarrow> rat" where
  "refilled spec b now =
     min (ml_capacity spec) (b_tokens b + (of_int (now - b_at b) / 1000) * ml_refillPerSec spec)"

definition retry_after :: "MemoryLimitSpec \<Rightarrow> rat \<Rightarrow> int" where
  "retry_after spec level = max 1 \<lceil>(1 - level) / ml_refillPerSec spec\<rceil>"

definition full_again :: "MemoryLimitSpec \<Rightarrow> int \<Rightarrow> Bucket \<Rightarrow> bool" where
  "full_again spec now b =
     (((ml_capacity spec - b_tokens b) / ml_refillPerSec spec) * 1000 \<le> of_int (now - b_at b))"

text \<open>The scan deletes full buckets while there are too many; the entries kept so far come first.\<close>

fun evict_full :: "MemoryLimitSpec \<Rightarrow> nat \<Rightarrow> int \<Rightarrow> bucket_map \<Rightarrow> bucket_map \<Rightarrow> bucket_map" where
  "evict_full spec maxKeys now kept [] = kept"
| "evict_full spec maxKeys now kept ((k, b) # rest) =
     (if length kept + length ((k, b) # rest) \<le> maxKeys then kept @ (k, b) # rest
      else if full_again spec now b then evict_full spec maxKeys now kept rest
      else evict_full spec maxKeys now (kept @ [(k, b)]) rest)"

definition evict :: "MemoryLimitSpec \<Rightarrow> nat \<Rightarrow> int \<Rightarrow> bucket_map \<Rightarrow> bucket_map" where
  "evict spec maxKeys now bs =
     (let bs1 = evict_full spec maxKeys now [] bs in drop (length bs1 - maxKeys) bs1)"

definition take_token ::
  "MemoryLimitSpec \<Rightarrow> nat \<Rightarrow> int \<Rightarrow> string \<Rightarrow> bucket_map \<Rightarrow> MemoryLimitDecision \<times> bucket_map" where
  "take_token spec maxKeys now key bs =
     (let found = js_get bs key;
          bucket = (case found of Some b \<Rightarrow> b | None \<Rightarrow> \<lparr>b_tokens = ml_capacity spec, b_at = now\<rparr>);
          level = refilled spec bucket now;
          bs1 = js_delete key bs
      in if level < 1
         then (\<lparr>md_allowed = False, md_retryAfterSec = retry_after spec level\<rparr>,
               js_set key \<lparr>b_tokens = level, b_at = now\<rparr> bs1)
         else (let bs2 = js_set key \<lparr>b_tokens = level - 1, b_at = now\<rparr> bs1
               in (\<lparr>md_allowed = True, md_retryAfterSec = 0\<rparr>,
                   if found = None \<and> length bs2 > maxKeys then evict spec maxKeys now bs2 else bs2)))"

definition peek :: "MemoryLimitSpec \<Rightarrow> int \<Rightarrow> string \<Rightarrow> bucket_map \<Rightarrow> MemoryLimitDecision" where
  "peek spec now key bs =
     (case js_get bs key of
        None \<Rightarrow> \<lparr>md_allowed = True, md_retryAfterSec = 0\<rparr>
      | Some b \<Rightarrow>
          if refilled spec b now \<ge> 1 then \<lparr>md_allowed = True, md_retryAfterSec = 0\<rparr>
          else \<lparr>md_allowed = False, md_retryAfterSec = retry_after spec (refilled spec b now)\<rparr>)"

definition VISITOR_MEMORY_LIMIT :: MemoryLimitSpec where
  "VISITOR_MEMORY_LIMIT = \<lparr>ml_capacity = 120, ml_refillPerSec = 2\<rparr>"

definition OPERATION_MEMORY_LIMIT :: MemoryLimitSpec where
  "OPERATION_MEMORY_LIMIT = \<lparr>ml_capacity = 300, ml_refillPerSec = 5\<rparr>"

definition DEEP_HEALTH_MEMORY_LIMIT :: MemoryLimitSpec where
  "DEEP_HEALTH_MEMORY_LIMIT = \<lparr>ml_capacity = 10, ml_refillPerSec = 1 / 5\<rparr>"

section \<open>The database limits\<close>

record RateLimitSpec =
  perVisitorMax :: int
  windowSeconds :: int

record RateLimitDecision =
  rd_allowed :: bool
  rd_retryAfterSec :: int
  rd_limit :: int
  rd_windowSec :: int
  rd_remaining :: int

record gateway_row =
  gr_count :: int
  gr_window_start :: int
  gr_expires_at :: int
  gr_tokens :: int
  gr_last_refill :: int

definition DEFAULT_SPEC :: RateLimitSpec where
  "DEFAULT_SPEC = \<lparr>perVisitorMax = 30, windowSeconds = 60\<rparr>"

definition BURST_TOKENS :: int where "BURST_TOKENS = 10"

definition BURST_REFILL_PER_SEC :: int where "BURST_REFILL_PER_SEC = 1"

text \<open>The row a request writes.\<close>

definition consume_row :: "RateLimitSpec \<Rightarrow> int \<Rightarrow> gateway_row option \<Rightarrow> gateway_row" where
  "consume_row spec now existing =
     (let windowMs = windowSeconds spec * 1000
      in case existing of
           None \<Rightarrow> \<lparr>gr_count = 1, gr_window_start = now, gr_expires_at = now + windowMs,
                     gr_tokens = BURST_TOKENS - 1, gr_last_refill = now\<rparr>
         | Some e \<Rightarrow>
             (let expired = gr_expires_at e < now;
                  refillSec = max 0 ((now - gr_last_refill e) div 1000);
                  refill = min BURST_TOKENS (max 0 (gr_tokens e) + refillSec * BURST_REFILL_PER_SEC)
              in \<lparr>gr_count = (if expired then 1 else gr_count e + 1),
                  gr_window_start = (if expired then now else gr_window_start e),
                  gr_expires_at = (if expired then now + windowMs else gr_expires_at e),
                  gr_tokens = max (-1) (refill - 1),
                  gr_last_refill = (if refillSec > 0 then gr_last_refill e + refillSec * 1000
                                    else gr_last_refill e)\<rparr>))"

definition decide_row :: "RateLimitSpec \<Rightarrow> int \<Rightarrow> gateway_row option \<Rightarrow> RateLimitDecision" where
  "decide_row spec now written =
     (case written of
        None \<Rightarrow> \<lparr>rd_allowed = True, rd_retryAfterSec = 0, rd_limit = perVisitorMax spec,
                  rd_windowSec = windowSeconds spec, rd_remaining = perVisitorMax spec - 1\<rparr>
      | Some row \<Rightarrow>
          (let retryAfterMs = max 0 (gr_expires_at row - now)
           in if gr_tokens row < 0
              then \<lparr>rd_allowed = False, rd_retryAfterSec = 1, rd_limit = perVisitorMax spec,
                    rd_windowSec = windowSeconds spec, rd_remaining = max 0 (perVisitorMax spec - gr_count row)\<rparr>
              else if gr_count row > perVisitorMax spec
              then \<lparr>rd_allowed = False, rd_retryAfterSec = - ((- retryAfterMs) div 1000),
                    rd_limit = perVisitorMax spec, rd_windowSec = windowSeconds spec, rd_remaining = 0\<rparr>
              else \<lparr>rd_allowed = True, rd_retryAfterSec = 0, rd_limit = perVisitorMax spec,
                    rd_windowSec = windowSeconds spec, rd_remaining = perVisitorMax spec - gr_count row\<rparr>))"

text \<open>The advisory lock serialises the requests of a key, so one request reads and writes the row
  at a time; the decision reads the clock again.\<close>

definition consumeRateLimit ::
  "RateLimitSpec \<Rightarrow> string \<Rightarrow> int \<Rightarrow> int \<Rightarrow> (string \<times> gateway_row) list
   \<Rightarrow> RateLimitDecision \<times> (string \<times> gateway_row) list" where
  "consumeRateLimit spec key now decided rows =
     (let row = consume_row spec now (js_get rows key)
      in (decide_row spec decided (Some row), js_set key row rows))"

definition ipScopedRateLimitKey :: "string \<Rightarrow> string \<Rightarrow> string \<Rightarrow> string" where
  "ipScopedRateLimitKey pluginSlug operation ipHash =
     ''gateway-ip:'' @ pluginSlug @ '':'' @ operation @ '':'' @ ipHash"

text \<open>The admin's limiter.\<close>

record limit_bucket =
  lb_window_start :: int
  lb_count :: int
  lb_expires_at :: int

definition bucket_hit :: "int \<Rightarrow> int \<Rightarrow> limit_bucket option \<Rightarrow> limit_bucket" where
  "bucket_hit windowMs now existing =
     (case existing of
        None \<Rightarrow> \<lparr>lb_window_start = now, lb_count = 1, lb_expires_at = now + windowMs\<rparr>
      | Some b \<Rightarrow>
          \<lparr>lb_window_start = (if lb_expires_at b < now then now else lb_window_start b),
           lb_count = (if lb_expires_at b < now then 1 else lb_count b + 1),
           lb_expires_at = (if lb_expires_at b < now then now + windowMs else lb_expires_at b)\<rparr>)"

definition bucket_decision :: "int \<Rightarrow> int \<Rightarrow> limit_bucket \<Rightarrow> bool \<times> int" where
  "bucket_decision limit now b =
     (if lb_count b \<le> limit then (True, 0) else (False, max 0 (lb_expires_at b - now)))"

definition postgres_consume ::
  "int \<Rightarrow> int \<Rightarrow> string \<Rightarrow> int \<Rightarrow> int \<Rightarrow> (string \<times> limit_bucket) list
   \<Rightarrow> (bool \<times> int) \<times> (string \<times> limit_bucket) list" where
  "postgres_consume windowMs limit key now decided rows =
     (let b = bucket_hit windowMs now (js_get rows key)
      in (bucket_decision limit decided b, js_set key b rows))"

definition postgres_reset :: "(string \<times> limit_bucket) list \<Rightarrow> (string \<times> limit_bucket) list" where
  "postgres_reset rows = []"

section \<open>Buckets against their specification\<close>

text \<open>The specification: every key has a level, a request takes one token if there is one.\<close>

definition spec_take :: "string \<Rightarrow> (string \<Rightarrow> rat) \<Rightarrow> bool \<times> (string \<Rightarrow> rat)" where
  "spec_take key levels =
     (if 1 \<le> levels key then (True, levels(key := levels key - 1)) else (False, levels))"

definition level :: "MemoryLimitSpec \<Rightarrow> bucket_map \<Rightarrow> int \<Rightarrow> string \<Rightarrow> rat" where
  "level spec bs now key =
     (case js_get bs key of None \<Rightarrow> ml_capacity spec | Some b \<Rightarrow> refilled spec b now)"

definition spec_ok :: "MemoryLimitSpec \<Rightarrow> bool" where
  "spec_ok spec = (1 \<le> ml_capacity spec \<and> 0 < ml_refillPerSec spec)"

definition bucket_ok :: "MemoryLimitSpec \<Rightarrow> int \<Rightarrow> Bucket \<Rightarrow> bool" where
  "bucket_ok spec now b = (0 \<le> b_tokens b \<and> b_tokens b \<le> ml_capacity spec \<and> b_at b \<le> now)"

definition buckets_ok :: "MemoryLimitSpec \<Rightarrow> int \<Rightarrow> bucket_map \<Rightarrow> bool" where
  "buckets_ok spec now bs = (js_map_ok bs \<and> (\<forall>(k, b) \<in> set bs. bucket_ok spec now b))"

lemma refilled_bounds:
  assumes "spec_ok spec" "bucket_ok spec now b"
  shows "0 \<le> refilled spec b now" "refilled spec b now \<le> ml_capacity spec"
  using assms by (auto simp: refilled_def spec_ok_def bucket_ok_def)

lemma refilled_later:
  assumes "spec_ok spec" "b_at b \<le> now" "now \<le> t"
  shows "refilled spec b t
    = min (ml_capacity spec) (refilled spec b now + (of_int (t - now) / 1000) * ml_refillPerSec spec)"
proof -
  let ?r = "ml_refillPerSec spec" and ?c = "ml_capacity spec"
  have "(of_int (t - b_at b) / 1000) * ?r
      = (of_int (now - b_at b) / 1000) * ?r + (of_int (t - now) / 1000) * ?r"
    by (simp add: field_simps)
  moreover have "0 \<le> (of_int (t - now) / 1000) * ?r"
    using assms by (simp add: spec_ok_def)
  ultimately show ?thesis unfolding refilled_def by linarith
qed

lemma refilled_at [simp]: "l \<le> ml_capacity spec \<Longrightarrow> refilled spec \<lparr>b_tokens = l, b_at = now\<rparr> now = l"
  by (simp add: refilled_def)

lemma full_again_level: "spec_ok spec \<Longrightarrow> full_again spec now b \<longleftrightarrow> refilled spec b now = ml_capacity spec"
  by (auto simp: full_again_def refilled_def spec_ok_def field_simps min_def)

text \<open>Evicting keeps a subset, and only full buckets go before the oldest ones.\<close>

lemma evict_full_kept:
  "\<exists>rest. evict_full spec maxKeys now kept bs = kept @ rest \<and> set rest \<subseteq> set bs
    \<and> (distinct (map fst bs) \<longrightarrow> distinct (map fst rest))
    \<and> (\<forall>(k, b) \<in> set bs. (k, b) \<in> set rest \<or> full_again spec now b)
    \<and> (bs \<noteq> [] \<and> \<not> full_again spec now (snd (last bs)) \<longrightarrow> rest \<noteq> [] \<and> last rest = last bs)"
  (is "\<exists>rest. ?P kept bs rest")
proof (induction spec maxKeys now kept bs rule: evict_full.induct)
  case (2 spec maxKeys now kept k b bs)
  let ?E = "evict_full spec maxKeys now kept ((k, b) # bs)"
  consider (fits) "length kept + length ((k, b) # bs) \<le> maxKeys"
    | (full) "\<not> length kept + length ((k, b) # bs) \<le> maxKeys" "full_again spec now b"
    | (stays) "\<not> length kept + length ((k, b) # bs) \<le> maxKeys" "\<not> full_again spec now b" by blast
  then show ?case
  proof cases
    case fits
    then show ?thesis by (intro exI [of _ "(k, b) # bs"]) auto
  next
    case full
    then obtain rest where r: "evict_full spec maxKeys now kept bs = kept @ rest" "set rest \<subseteq> set bs"
      "distinct (map fst bs) \<longrightarrow> distinct (map fst rest)"
      "\<forall>(k, b) \<in> set bs. (k, b) \<in> set rest \<or> full_again spec now b"
      "bs \<noteq> [] \<and> \<not> full_again spec now (snd (last bs)) \<longrightarrow> rest \<noteq> [] \<and> last rest = last bs"
      using 2(1) by blast
    have "?E = kept @ rest" using full r(1) by simp
    then show ?thesis using r(2-5) full(2) by (intro exI [of _ rest]) auto
  next
    case stays
    then obtain rest where r: "evict_full spec maxKeys now (kept @ [(k, b)]) bs = (kept @ [(k, b)]) @ rest"
      "set rest \<subseteq> set bs" "distinct (map fst bs) \<longrightarrow> distinct (map fst rest)"
      "\<forall>(k, b) \<in> set bs. (k, b) \<in> set rest \<or> full_again spec now b"
      "bs \<noteq> [] \<and> \<not> full_again spec now (snd (last bs)) \<longrightarrow> rest \<noteq> [] \<and> last rest = last bs"
      using 2(2) by blast
    have "?E = kept @ (k, b) # rest" using stays r(1) by simp
    moreover have "distinct (map fst ((k, b) # bs)) \<longrightarrow> distinct (map fst ((k, b) # rest))"
      using r(2,3) by auto
    ultimately show ?thesis using r(2,4,5)
      by (intro exI [of _ "(k, b) # rest"] conjI) (auto split: if_splits)
  qed
qed simp

lemma evict_props:
  assumes "js_map_ok bs" "0 < maxKeys" "bs \<noteq> []" "\<not> full_again spec now (snd (last bs))"
  shows "js_map_ok (evict spec maxKeys now bs)" "set (evict spec maxKeys now bs) \<subseteq> set bs"
    "length (evict spec maxKeys now bs) \<le> maxKeys" "last bs \<in> set (evict spec maxKeys now bs)"
proof -
  obtain rest where r: "evict_full spec maxKeys now [] bs = rest" "set rest \<subseteq> set bs"
    "distinct (map fst bs) \<longrightarrow> distinct (map fst rest)" "rest \<noteq> []" "last rest = last bs"
    using evict_full_kept [of spec maxKeys now "[]" bs] assms(3,4) by auto
  have e: "evict spec maxKeys now bs = drop (length rest - maxKeys) rest"
    by (simp add: evict_def Let_def r(1))
  show "js_map_ok (evict spec maxKeys now bs)"
    using assms(1) r(3) by (simp add: e js_map_ok_def flip: drop_map)
  show "set (evict spec maxKeys now bs) \<subseteq> set bs" using r(2) set_drop_subset by (fastforce simp: e)
  show "length (evict spec maxKeys now bs) \<le> maxKeys" by (simp add: e)
  have "length rest - maxKeys < length rest" using assms(2) r(4) by (cases rest) auto
  then have "last (drop (length rest - maxKeys) rest) = last rest" "drop (length rest - maxKeys) rest \<noteq> []"
    by (simp_all add: last_drop)
  then show "last bs \<in> set (evict spec maxKeys now bs)" using r(5) last_in_set e by metis
qed

text \<open>The map after a request, before it is bounded: the key is its newest entry.\<close>

lemma length_js_delete:
  assumes "js_map_ok bs"
  shows "length (js_delete k bs) = (if js_get bs k = None then length bs else length bs - 1)"
  using assms
proof (induction bs)
  case (Cons e bs)
  obtain k' v where e: "e = (k', v)" by (cases e)
  have ok: "js_map_ok bs" "k' \<notin> fst ` set bs" using Cons.prems e by (auto simp: js_map_ok_def)
  show ?case
  proof (cases "k' = k")
    case True
    then have "js_delete k bs = bs" using ok(2) by (force simp: js_delete_def AList.delete_eq filter_id_conv)
    then show ?thesis using True e by (simp add: js_delete_def js_get_def)
  next
    case False
    have "bs \<noteq> []" if "js_get bs k \<noteq> None" using that by (auto simp: js_get_def)
    then show ?thesis using False e Cons.IH [OF ok(1)]
      by (cases bs) (auto simp: js_delete_def js_get_def)
  qed
qed (simp add: js_delete_def js_get_def)

definition spent :: "MemoryLimitSpec \<Rightarrow> int \<Rightarrow> string \<Rightarrow> bucket_map \<Rightarrow> Bucket" where
  "spent spec now key bs =
     (let l = level spec bs now key in \<lparr>b_tokens = (if l < 1 then l else l - 1), b_at = now\<rparr>)"

lemma take_token_level:
  assumes "spec_ok spec"
  shows "md_allowed (fst (take_token spec maxKeys now key bs)) = (1 \<le> level spec bs now key)"
    and "snd (take_token spec maxKeys now key bs) =
      (let bs2 = js_delete key bs @ [(key, spent spec now key bs)]
       in if 1 \<le> level spec bs now key \<and> js_get bs key = None \<and> length bs2 > maxKeys
          then evict spec maxKeys now bs2 else bs2)"
  using assms
  by (auto simp: take_token_def Let_def level_def spent_def js_set_delete spec_ok_def split: option.splits)

lemma level_bounds:
  assumes "spec_ok spec" "buckets_ok spec now bs"
  shows "0 \<le> level spec bs now key" "level spec bs now key \<le> ml_capacity spec"
proof -
  have "bucket_ok spec now b" if "js_get bs key = Some b" for b
    using that assms(2) by (auto simp: buckets_ok_def js_get_in)
  then show "0 \<le> level spec bs now key" "level spec bs now key \<le> ml_capacity spec"
    using refilled_bounds [OF assms(1)] assms(1)
    by (auto simp: level_def spec_ok_def split: option.splits)
qed

lemma spent_ok:
  assumes "spec_ok spec" "buckets_ok spec now bs"
  shows "bucket_ok spec now (spent spec now key bs)" "\<not> full_again spec now (spent spec now key bs) \<or> level spec bs now key < 1"
    "refilled spec (spent spec now key bs) now = snd (spec_take key (level spec bs now)) key"
  using level_bounds [OF assms, of key] assms(1)
  by (auto simp: spent_def bucket_ok_def Let_def spec_take_def full_again_level)

lemma take_token_ok:
  assumes "spec_ok spec" "buckets_ok spec now bs" "0 < maxKeys"
  shows "buckets_ok spec now (snd (take_token spec maxKeys now key bs))"
    and "length bs \<le> maxKeys \<Longrightarrow> length (snd (take_token spec maxKeys now key bs)) \<le> maxKeys"
    and "js_get (snd (take_token spec maxKeys now key bs)) key = Some (spent spec now key bs)"
    and "k \<noteq> key \<Longrightarrow> js_get (snd (take_token spec maxKeys now key bs)) k = js_get bs k
      \<or> js_get (snd (take_token spec maxKeys now key bs)) k = None
        \<and> 1 \<le> level spec bs now key \<and> js_get bs key = None \<and> maxKeys \<le> length bs"
proof -
  let ?bs2 = "js_delete key bs @ [(key, spent spec now key bs)]"
  let ?out = "snd (take_token spec maxKeys now key bs)"
  have ok: "js_map_ok bs" using assms(2) by (simp add: buckets_ok_def)
  have ok2: "js_map_ok ?bs2"
    using js_map_ok_set [OF js_map_ok_delete [OF ok]] by (simp add: js_set_delete [symmetric])
  have get2: "js_get ?bs2 k = (if k = key then Some (spent spec now key bs) else js_get bs k)" for k
    by (simp add: js_set_delete [symmetric] js_map_simps)
  have b2: "buckets_ok spec now ?bs2"
    using ok2 assms(2) spent_ok(1) [OF assms(1,2)] by (auto simp: buckets_ok_def js_delete_in)
  note out = take_token_level(2) [OF assms(1), of maxKeys now key bs]
  have main: "buckets_ok spec now ?out \<and> (length bs \<le> maxKeys \<longrightarrow> length ?out \<le> maxKeys)
      \<and> js_get ?out key = Some (spent spec now key bs)
      \<and> (k \<noteq> key \<longrightarrow> js_get ?out k = js_get bs k
        \<or> js_get ?out k = None \<and> 1 \<le> level spec bs now key \<and> js_get bs key = None \<and> maxKeys \<le> length bs)" for k
  proof (cases "1 \<le> level spec bs now key \<and> js_get bs key = None \<and> length ?bs2 > maxKeys")
    case True
    then have o1: "?out = evict spec maxKeys now ?bs2" using out by (simp add: Let_def)
    have "\<not> full_again spec now (snd (last ?bs2))" using spent_ok(2) [OF assms(1,2), of key] True by simp
    note e = evict_props [OF ok2 assms(3) _ this]
    have "js_get ?out key = Some (spent spec now key bs)"
      using e(1,4) o1 by (simp add: js_get_in)
    moreover have "js_get ?out k = js_get bs k \<or> js_get ?out k = None" if "k \<noteq> key"
    proof (cases "js_get ?out k")
      case (Some b)
      then have "(k, b) \<in> set ?bs2" using e(1,2) o1 by (auto simp: js_get_in)
      then have "js_get bs k = Some b" using that ok by (auto simp: js_get_in js_delete_in)
      then show ?thesis using Some by simp
    qed simp
    moreover have "maxKeys \<le> length bs" using True ok by (auto simp: length_js_delete)
    moreover have "buckets_ok spec now ?out" using e(1,2) b2 o1 by (auto simp: buckets_ok_def)
    ultimately show "buckets_ok spec now ?out \<and> (length bs \<le> maxKeys \<longrightarrow> length ?out \<le> maxKeys)
      \<and> js_get ?out key = Some (spent spec now key bs)
      \<and> (k \<noteq> key \<longrightarrow> js_get ?out k = js_get bs k
        \<or> js_get ?out k = None \<and> 1 \<le> level spec bs now key \<and> js_get bs key = None \<and> maxKeys \<le> length bs)"
      using e(3) o1 True by auto
  next
    case False
    then have o1: "?out = ?bs2" using out by (auto simp: Let_def)
    have "length ?bs2 \<le> maxKeys" if "length bs \<le> maxKeys"
    proof (cases "js_get bs key")
      case None
      then have "1 \<le> level spec bs now key" using assms(1) by (simp add: level_def spec_ok_def)
      with None False show ?thesis by simp
    next
      case (Some b)
      then have "bs \<noteq> []" by (auto simp: js_get_def)
      with Some that ok show ?thesis by (cases bs) (auto simp: length_js_delete)
    qed
    then show "buckets_ok spec now ?out \<and> (length bs \<le> maxKeys \<longrightarrow> length ?out \<le> maxKeys)
      \<and> js_get ?out key = Some (spent spec now key bs)
      \<and> (k \<noteq> key \<longrightarrow> js_get ?out k = js_get bs k
        \<or> js_get ?out k = None \<and> 1 \<le> level spec bs now key \<and> js_get bs key = None \<and> maxKeys \<le> length bs)"
      using b2 get2 o1 by simp
  qed
  then show "buckets_ok spec now ?out" "length bs \<le> maxKeys \<Longrightarrow> length ?out \<le> maxKeys"
    "js_get ?out key = Some (spent spec now key bs)"
    "k \<noteq> key \<Longrightarrow> js_get ?out k = js_get bs k
      \<or> js_get ?out k = None \<and> 1 \<le> level spec bs now key \<and> js_get bs key = None \<and> maxKeys \<le> length bs"
    by blast+
qed


section \<open>Runs of requests\<close>

fun run_takes :: "MemoryLimitSpec \<Rightarrow> nat \<Rightarrow> (int \<times> string) list \<Rightarrow> bucket_map \<Rightarrow> bool list \<times> bucket_map" where
  "run_takes spec maxKeys [] bs = ([], bs)"
| "run_takes spec maxKeys ((now, key) # ops) bs =
     (let (d, bs1) = take_token spec maxKeys now key bs;
          (ds, bs2) = run_takes spec maxKeys ops bs1
      in (md_allowed d # ds, bs2))"

text \<open>How many requests of a key were let through.\<close>

definition let_through :: "string \<Rightarrow> (int \<times> string) list \<Rightarrow> bool list \<Rightarrow> nat" where
  "let_through key ops ds = length (filter (\<lambda>((t, k), d). k = key \<and> d) (zip ops ds))"

lemma buckets_ok_later: "buckets_ok spec now bs \<Longrightarrow> now \<le> t \<Longrightarrow> buckets_ok spec t bs"
  by (fastforce simp: buckets_ok_def bucket_ok_def)

lemma level_later:
  assumes "spec_ok spec" "buckets_ok spec now bs" "now \<le> t"
  shows "level spec bs t key \<le> level spec bs now key + (of_int (t - now) / 1000) * ml_refillPerSec spec"
proof (cases "js_get bs key")
  case None
  moreover have "0 \<le> (of_int (t - now) / 1000 :: rat) * ml_refillPerSec spec"
    using assms by (simp add: spec_ok_def)
  ultimately show ?thesis by (simp add: level_def)
next
  case (Some b)
  then have "b_at b \<le> now" using assms(2) by (auto simp: buckets_ok_def js_get_in bucket_ok_def)
  from refilled_later [OF assms(1) this assms(3)] show ?thesis using Some by (simp add: level_def)
qed

lemma take_level:
  assumes "spec_ok spec" "buckets_ok spec now bs" "0 < maxKeys"
  shows "level spec (snd (take_token spec maxKeys now key bs)) now key = snd (spec_take key (level spec bs now)) key"
    and "k \<noteq> key \<Longrightarrow> level spec bs now k \<le> level spec (snd (take_token spec maxKeys now key bs)) now k"
    and "k \<noteq> key \<Longrightarrow> js_get bs key \<noteq> None \<or> length bs < maxKeys \<Longrightarrow>
      level spec (snd (take_token spec maxKeys now key bs)) now k = level spec bs now k"
proof -
  let ?out = "snd (take_token spec maxKeys now key bs)"
  note t = take_token_ok [OF assms]
  show "level spec ?out now key = snd (spec_take key (level spec bs now)) key"
    using t(3) [of key] spent_ok(3) [OF assms(1,2), of key] by (simp add: level_def [of spec ?out])
  show "level spec bs now k \<le> level spec ?out now k" if "k \<noteq> key"
  proof (cases "js_get ?out k = js_get bs k")
    case False
    then have "level spec ?out now k = ml_capacity spec" using t(4) [OF that] by (auto simp: level_def)
    then show ?thesis using level_bounds(2) [OF assms(1,2)] by simp
  qed (simp add: level_def)
  show "level spec ?out now k = level spec bs now k" if "k \<noteq> key" "js_get bs key \<noteq> None \<or> length bs < maxKeys"
  proof -
    have "js_get ?out k = js_get bs k" using t(4) [OF that(1)] that(2) by auto
    then show ?thesis by (simp add: level_def)
  qed
qed

lemma take_dom:
  assumes "spec_ok spec" "buckets_ok spec now bs" "0 < maxKeys"
  shows "fst ` set (snd (take_token spec maxKeys now key bs)) \<subseteq> insert key (fst ` set bs)"
proof -
  have ok: "js_map_ok bs" "js_map_ok (snd (take_token spec maxKeys now key bs))"
    using assms(2) take_token_ok(1) [OF assms] by (simp_all add: buckets_ok_def)
  have dom: "k \<in> fst ` set m \<longleftrightarrow> js_get m k \<noteq> None" for k and m :: bucket_map
    by (simp add: js_get_def map_of_eq_None_iff)
  have "js_get bs k \<noteq> None" if "js_get (snd (take_token spec maxKeys now key bs)) k \<noteq> None" "k \<noteq> key" for k
    using take_token_ok(4) [OF assms that(2)] that(1) by auto
  then show ?thesis unfolding subset_iff insert_iff dom by blast
qed

lemma run_takes_level:
  assumes "spec_ok spec" "0 < maxKeys" "card (fst ` set bs \<union> snd ` set ops) \<le> maxKeys"
    and "buckets_ok spec start bs" "sorted (start # map fst ops)"
    and "run_takes spec maxKeys ops bs = (ds, bs')" "\<forall>(t, k) \<in> set ops. t \<le> stop" "start \<le> stop"
  shows "of_nat (let_through key ops ds)
    \<le> level spec bs start key + (of_int (stop - start) / 1000) * ml_refillPerSec spec"
  using assms(3-8)
proof (induction ops arbitrary: bs start ds)
  case Nil
  have "0 \<le> (of_int (stop - start) / 1000 :: rat) * ml_refillPerSec spec"
    using assms(1) Nil.prems(6) by (simp add: spec_ok_def)
  then show ?case using level_bounds(1) [OF assms(1) Nil.prems(2), of key] by (simp add: let_through_def)
next
  case (Cons op ops)
  obtain now k where op: "op = (now, k)" by (cases op)
  obtain d bs1 where t: "take_token spec maxKeys now k bs = (d, bs1)" by fastforce
  obtain ds' where r: "run_takes spec maxKeys ops bs1 = (ds', bs')" "ds = md_allowed d # ds'"
    using Cons.prems(4) op t by (auto split: prod.splits)
  have now: "start \<le> now" "now \<le> stop" "sorted (now # map fst ops)" using Cons.prems(3,5) op by auto
  have ok: "buckets_ok spec now bs" using buckets_ok_later [OF Cons.prems(2) now(1)] .
  note tk = take_token_ok [OF assms(1) ok assms(2), of k, unfolded t snd_conv]
  have "fst ` set bs1 \<union> snd ` set ops \<subseteq> fst ` set bs \<union> snd ` set (op # ops)"
    using take_dom [OF assms(1) ok assms(2), of k] t op by auto
  then have card: "card (fst ` set bs1 \<union> snd ` set ops) \<le> maxKeys"
    using Cons.prems(1) by (meson card_mono finite_UnI finite_imageI finite_set order_trans)
  have "of_nat (let_through key ops ds') \<le> level spec bs1 now key + (of_int (stop - now) / 1000) * ml_refillPerSec spec"
    by (rule Cons.IH [OF card tk(1) now(3) r(1) _ now(2)]) (use Cons.prems(5) in auto)
  moreover have "(of_nat (let_through key (op # ops) ds) :: rat)
      = (if k = key \<and> md_allowed d then 1 else 0) + of_nat (let_through key ops ds')"
    using op r(2) by (simp add: let_through_def)
  moreover have "level spec bs1 now key + (if k = key \<and> md_allowed d then 1 else 0) \<le> level spec bs now key"
  proof (cases "k = key")
    case True
    have "md_allowed d = (1 \<le> level spec bs now key)" using take_token_level(1) [OF assms(1), of maxKeys now k bs] t True by simp
    then show ?thesis
      using take_level(1) [OF assms(1) ok assms(2), of k] t True by (simp add: spec_take_def)
  next
    case False
    have "js_get bs k \<noteq> None \<or> length bs < maxKeys"
    proof (cases "js_get bs k")
      case None
      then have "k \<notin> fst ` set bs" by (simp add: js_get_def map_of_eq_None_iff)
      then have "fst ` set bs \<subset> fst ` set bs \<union> snd ` set (op # ops)" using op by auto
      then have "card (fst ` set bs) < card (fst ` set bs \<union> snd ` set (op # ops))"
        by (intro psubset_card_mono) auto
      moreover have "card (fst ` set bs) = length bs"
        using Cons.prems(2) distinct_card [of "map fst bs"] by (simp add: buckets_ok_def js_map_ok_def)
      ultimately show ?thesis using Cons.prems(1) by simp
    qed simp
    then show ?thesis using take_level(3) [OF assms(1) ok assms(2), of key k] t False by simp
  qed
  moreover have "level spec bs now key \<le> level spec bs start key + (of_int (now - start) / 1000) * ml_refillPerSec spec"
    by (rule level_later [OF assms(1) Cons.prems(2) now(1)])
  moreover have "(of_int (stop - start) / 1000 :: rat) * ml_refillPerSec spec
      = (of_int (now - start) / 1000) * ml_refillPerSec spec + (of_int (stop - now) / 1000) * ml_refillPerSec spec"
    by (simp add: field_simps)
  ultimately show ?case by linarith
qed

section \<open>Fixed windows\<close>

text \<open>How many of the requests at these times a window lets through.\<close>

fun passed :: "(int \<Rightarrow> 's option \<Rightarrow> 's) \<Rightarrow> ('s \<Rightarrow> bool) \<Rightarrow> int list \<Rightarrow> 's option \<Rightarrow> nat" where
  "passed hit passes [] s = 0"
| "passed hit passes (t # ts) s =
     (if passes (hit t s) then 1 else 0) + passed hit passes ts (Some (hit t s))"

locale fixed_window =
  fixes hit :: "int \<Rightarrow> 's option \<Rightarrow> 's"
    and count :: "'s \<Rightarrow> int"
    and expires :: "'s \<Rightarrow> int"
    and passes :: "'s \<Rightarrow> bool"
    and limit :: int
    and window :: int
  assumes fresh: "(\<And>r. s = Some r \<Longrightarrow> expires r < t) \<Longrightarrow> count (hit t s) = 1 \<and> expires (hit t s) = t + window"
    and running: "t \<le> expires r \<Longrightarrow> count (hit t (Some r)) = count r + 1 \<and> expires (hit t (Some r)) = expires r"
    and passes_count: "passes r \<Longrightarrow> count r \<le> limit"
begin

lemma one_window:
  "\<forall>t \<in> set ts. t \<le> expires r \<Longrightarrow> int (passed hit passes ts (Some r)) \<le> max 0 (limit - count r)"
proof (induction ts arbitrary: r)
  case (Cons t ts)
  have h: "count (hit t (Some r)) = count r + 1" "expires (hit t (Some r)) = expires r"
    using running Cons.prems by auto
  then have "int (passed hit passes ts (Some (hit t (Some r)))) \<le> max 0 (limit - (count r + 1))"
    using Cons.IH [of "hit t (Some r)"] Cons.prems by simp
  moreover have "count r + 1 \<le> limit" if "passes (hit t (Some r))" using passes_count [OF that] h by simp
  ultimately show ?case by auto
qed simp

lemma new_window:
  assumes "\<And>r. s = Some r \<Longrightarrow> expires r < t" "\<forall>u \<in> set ts. u \<le> t + window" "1 \<le> limit"
  shows "int (passed hit passes (t # ts) s) \<le> limit"
proof -
  have h: "count (hit t s) = 1" "expires (hit t s) = t + window" using fresh [OF assms(1)] by auto
  then have "int (passed hit passes ts (Some (hit t s))) \<le> max 0 (limit - 1)"
    using one_window [of ts "hit t s"] assms(2) by simp
  then show ?thesis using assms(3) by simp
qed

lemma two_windows:
  assumes "sorted ts" "\<forall>t \<in> set ts. a \<le> t \<and> t \<le> a + window" "1 \<le> limit"
  shows "int (passed hit passes ts (Some r)) \<le> max 0 (limit - count r) + limit"
  using assms(1,2)
proof (induction ts arbitrary: r)
  case (Cons t ts)
  show ?case
  proof (cases "t \<le> expires r")
    case True
    from Cons have "int (passed hit passes ts (Some (hit t (Some r)))) \<le> max 0 (limit - count (hit t (Some r))) + limit"
      by simp
    moreover have "count r + 1 \<le> limit" if "passes (hit t (Some r))"
      using passes_count [OF that] running [OF True] by simp
    ultimately show ?thesis using running [OF True] by auto
  next
    case False
    then have "int (passed hit passes (t # ts) (Some r)) \<le> limit"
      using Cons.prems assms(3) by (intro new_window) auto
    then show ?thesis by linarith
  qed
qed (use assms(3) in simp)

end

definition gateway_passes :: "RateLimitSpec \<Rightarrow> gateway_row \<Rightarrow> bool" where
  "gateway_passes spec row = rd_allowed (decide_row spec 0 (Some row))"

lemma decide_row_allowed:
  "rd_allowed (decide_row spec now (Some row)) = (0 \<le> gr_tokens row \<and> gr_count row \<le> perVisitorMax spec)"
  by (simp add: decide_row_def Let_def)

interpretation gateway: fixed_window "consume_row spec" gr_count gr_expires_at "gateway_passes spec"
  "perVisitorMax spec" "windowSeconds spec * 1000" for spec
  by unfold_locales
    (auto simp: consume_row_def gateway_passes_def decide_row_allowed Let_def split: option.splits)

interpretation admin: fixed_window "bucket_hit windowMs" lb_count lb_expires_at "\<lambda>b. fst (bucket_decision limit 0 b)"
  limit windowMs for windowMs limit
  by unfold_locales (auto simp: bucket_hit_def bucket_decision_def split: option.splits if_splits)

section \<open>Rows of the gateway\<close>

definition row_ok :: "RateLimitSpec \<Rightarrow> int \<Rightarrow> gateway_row \<Rightarrow> bool" where
  "row_ok spec now r =
     (1 \<le> gr_count r \<and> - 1 \<le> gr_tokens r \<and> gr_tokens r < BURST_TOKENS
      \<and> gr_expires_at r = gr_window_start r + windowSeconds spec * 1000
      \<and> gr_window_start r \<le> now \<and> gr_last_refill r \<le> now)"

fun row_after :: "RateLimitSpec \<Rightarrow> int list \<Rightarrow> gateway_row option \<Rightarrow> gateway_row option" where
  "row_after spec [] s = s"
| "row_after spec (t # ts) s = row_after spec ts (Some (consume_row spec t s))"

lemma consume_row_ok:
  assumes "\<And>r. s = Some r \<Longrightarrow> row_ok spec now r" "now \<le> t"
  shows "row_ok spec t (consume_row spec t s)"
proof (cases s)
  case None
  then show ?thesis by (simp add: consume_row_def row_ok_def Let_def BURST_TOKENS_def)
next
  case (Some r)
  have "(t - gr_last_refill r) div 1000 * 1000 \<le> t - gr_last_refill r"
    using div_mult_mod_eq [of "t - gr_last_refill r" 1000] pos_mod_sign [of 1000 "t - gr_last_refill r"] by linarith
  then show ?thesis
    using assms Some by (auto simp: consume_row_def row_ok_def Let_def BURST_TOKENS_def BURST_REFILL_PER_SEC_def)
qed


text \<open>The requests counted together: a window begins with the first request after the last one ended.\<close>

definition current_window :: "int \<Rightarrow> int list \<Rightarrow> int list" where
  "current_window w ts = foldl (\<lambda>cur t. if cur = [] \<or> hd cur + w < t then [t] else cur @ [t]) [] ts"

lemma current_window_snoc [simp]:
  "current_window w (ts @ [t]) =
     (let cur = current_window w ts in if cur = [] \<or> hd cur + w < t then [t] else cur @ [t])"
  by (simp add: current_window_def Let_def)

lemma row_after_snoc [simp]: "row_after spec (ts @ [t]) s = Some (consume_row spec t (row_after spec ts s))"
  by (induction ts arbitrary: s) simp_all




section \<open>Properties\<close>

text \<open>C38. The limiter in memory implements one token bucket per key: a request is let through
  exactly when the key's bucket has a token and takes it, and bounding the map never takes a
  token from another key; while the map has room no other level changes at all.\<close>

theorem memory_limiter_refines_buckets:
  assumes "spec_ok spec" "buckets_ok spec now bs" "0 < maxKeys"
  shows "md_allowed (fst (take_token spec maxKeys now key bs)) = fst (spec_take key (level spec bs now))
    \<and> level spec (snd (take_token spec maxKeys now key bs)) now key = snd (spec_take key (level spec bs now)) key
    \<and> (\<forall>k. snd (spec_take key (level spec bs now)) k \<le> level spec (snd (take_token spec maxKeys now key bs)) now k)
    \<and> (js_get bs key \<noteq> None \<or> length bs < maxKeys \<longrightarrow>
        level spec (snd (take_token spec maxKeys now key bs)) now = snd (spec_take key (level spec bs now)))
    \<and> (length bs \<le> maxKeys \<longrightarrow> length (snd (take_token spec maxKeys now key bs)) \<le> maxKeys)
    \<and> buckets_ok spec now (snd (take_token spec maxKeys now key bs))"
proof -
  have other: "snd (spec_take key (level spec bs now)) k = level spec bs now k" if "k \<noteq> key" for k
    using that by (simp add: spec_take_def)
  have le: "snd (spec_take key (level spec bs now)) k \<le> level spec (snd (take_token spec maxKeys now key bs)) now k" for k
    using take_level(1) [OF assms, of key] take_level(2) [OF assms, where k = k and key = key] other
    by (cases "k = key") auto
  have "level spec (snd (take_token spec maxKeys now key bs)) now = snd (spec_take key (level spec bs now))"
    if "js_get bs key \<noteq> None \<or> length bs < maxKeys"
  proof (rule ext)
    fix k show "level spec (snd (take_token spec maxKeys now key bs)) now k = snd (spec_take key (level spec bs now)) k"
      using take_level(1) [OF assms, of key] take_level(3) [OF assms, where k = k and key = key] other that
      by (cases "k = key") auto
  qed
  moreover have "md_allowed (fst (take_token spec maxKeys now key bs)) = fst (spec_take key (level spec bs now))"
    using take_token_level(1) [OF assms(1)] by (simp add: spec_take_def)
  ultimately show ?thesis
    using le take_level(1) [OF assms] take_token_ok(1,2) [OF assms] by blast
qed

definition demo_limit :: MemoryLimitSpec where
  "demo_limit = \<lparr>ml_capacity = 2, ml_refillPerSec = 1\<rparr>"

lemma demo_limit_ok: "spec_ok demo_limit" "buckets_ok demo_limit now []"
  by (simp_all add: spec_ok_def demo_limit_def buckets_ok_def js_map_ok_def)

lemma memory_limiter_refines_buckets_witness:
  "md_allowed (fst (take_token demo_limit 1 0 ''a'' []))
    \<and> level demo_limit (snd (take_token demo_limit 1 0 ''a'' [])) 0 ''a'' = 1"
  using memory_limiter_refines_buckets [OF demo_limit_ok, of 1 0 "''a''"]
  by (simp add: spec_take_def level_def js_get_def demo_limit_def)

text \<open>A client gets no more than its budget: over any requests of any keys, as many keys as
  the map holds, a key is let through at most as often as the capacity plus what refills in
  the time they span.\<close>

theorem client_stays_within_budget:
  assumes "spec_ok spec" "0 < maxKeys" "card (fst ` set bs \<union> snd ` set ops) \<le> maxKeys"
    and "buckets_ok spec start bs" "sorted (start # map fst ops)" "\<forall>(t, k) \<in> set ops. t \<le> stop" "start \<le> stop"
  shows "of_nat (let_through key ops (fst (run_takes spec maxKeys ops bs)))
    \<le> ml_capacity spec + (of_int (stop - start) / 1000) * ml_refillPerSec spec"
proof -
  obtain ds bs' where r: "run_takes spec maxKeys ops bs = (ds, bs')" by fastforce
  show ?thesis
    using run_takes_level [OF assms(1-5) r assms(6,7), of key] level_bounds(2) [OF assms(1,4), of key] r
    by simp
qed

definition demo_requests :: "(int \<times> string) list" where
  "demo_requests = [(0, ''a''), (0, ''a''), (0, ''a''), (500, ''b''), (1000, ''a''), (1000, ''a'')]"

lemma client_stays_within_budget_witness:
  "let_through ''a'' demo_requests (fst (run_takes demo_limit 2 demo_requests [])) = 3
    \<and> of_nat (let_through ''a'' demo_requests (fst (run_takes demo_limit 2 demo_requests []))) \<le> (3 :: rat)"
proof -
  have keys: "snd ` set demo_requests = {''a'', ''b''}" by (auto simp: demo_requests_def)
  have "of_nat (let_through ''a'' demo_requests (fst (run_takes demo_limit 2 demo_requests [])))
      \<le> ml_capacity demo_limit + (of_int (1000 - 0) / 1000) * ml_refillPerSec demo_limit"
  proof (rule client_stays_within_budget [OF demo_limit_ok(1)])
    show "buckets_ok demo_limit 0 []" by (rule demo_limit_ok)
  qed (simp_all add: keys, simp_all add: demo_requests_def)
  moreover have "let_through ''a'' demo_requests (fst (run_takes demo_limit 2 demo_requests [])) = 3"
    by code_simp
  ultimately show ?thesis by (simp add: demo_limit_def)
qed




text \<open>The gateway's window is fixed, not sliding: requests within one window's length are let
  through at most twice the limit less one.\<close>

theorem window_admits_less_than_twice:
  assumes "1 \<le> perVisitorMax spec" "row_ok spec now row" "sorted ts"
    and "\<forall>t \<in> set ts. a \<le> t \<and> t \<le> a + windowSeconds spec * 1000"
  shows "int (passed (consume_row spec) (gateway_passes spec) ts (Some row)) \<le> 2 * perVisitorMax spec - 1"
  using gateway.two_windows [OF assms(3,4,1), of row] assms(1,2) by (auto simp: row_ok_def)

definition demo_window :: RateLimitSpec where
  "demo_window = \<lparr>perVisitorMax = 2, windowSeconds = 1\<rparr>"

lemma window_admits_less_than_twice_witness:
  "int (passed (consume_row demo_window) (gateway_passes demo_window) [1, 1001, 1001] (Some (consume_row demo_window 0 None))) \<le> 3
    \<and> passed (consume_row demo_window) (gateway_passes demo_window) [1, 1001, 1001] (Some (consume_row demo_window 0 None)) = 3"
proof -
  have "row_ok demo_window 0 (consume_row demo_window 0 None)" by (rule consume_row_ok [where now = 0]) simp_all
  then have "int (passed (consume_row demo_window) (gateway_passes demo_window) [1, 1001, 1001] (Some (consume_row demo_window 0 None)))
      \<le> 2 * perVisitorMax demo_window - 1"
    by (intro window_admits_less_than_twice [where a = 1]) (simp_all add: demo_window_def)
  moreover have "passed (consume_row demo_window) (gateway_passes demo_window) [1, 1001, 1001] (Some (consume_row demo_window 0 None)) = 3"
    by code_simp
  ultimately show ?thesis by (simp add: demo_window_def)
qed

end
