(* ===== verification/Published_Cache.thy ===== *)
theory Published_Cache
  imports Rate_Limits Redirect_Plan
begin

text \<open>
  The gateway's copies of published state (apps/api-gateway/src/published-changes.ts) and the
  reads they guard: the rate limit of an operation (middleware/rate-limit.ts), the settings, the
  staging site and the redirects (server.ts).  The database, the LISTEN connection and the reads
  in flight are part of the state, every await is a place where other steps may come between.
  A copy is stated of the published state p; what a read takes from the request besides
  the published state is its context c.
\<close>

section \<open>The subscription and its copies\<close>

record ('c, 'k, 'v) read_in_flight =
  rf_context :: 'c
  rf_key :: 'k
  rf_startedAt :: nat
  rf_answer :: "'v option option"

record ('p, 'c, 'k, 'v) gateway_state =
  g_published :: 'p
  g_linked :: bool
  g_pending :: nat
  g_subscribed :: bool
  g_generation :: nat
  g_cache :: "('k \<times> 'v) list"
  g_reads :: "(nat \<times> ('c, 'k, 'v) read_in_flight) list"

definition publishedCacheUsable :: "('p, 'c, 'k, 'v) gateway_state \<Rightarrow> bool" where
  "publishedCacheUsable s = g_subscribed s"

definition publishedCacheGeneration :: "('p, 'c, 'k, 'v) gateway_state \<Rightarrow> nat" where
  "publishedCacheGeneration s = g_generation s"

definition mayCacheRead :: "nat \<Rightarrow> ('p, 'c, 'k, 'v) gateway_state \<Rightarrow> bool" where
  "mayCacheRead startedAt s = (g_subscribed s \<and> startedAt = g_generation s)"

definition invalidateAll :: "('p, 'c, 'k, 'v) gateway_state \<Rightarrow> ('p, 'c, 'k, 'v) gateway_state" where
  "invalidateAll s = s\<lparr>g_generation := g_generation s + 1, g_cache := []\<rparr>"

definition onNotify :: "('p, 'c, 'k, 'v) gateway_state \<Rightarrow> ('p, 'c, 'k, 'v) gateway_state" where
  "onNotify s = invalidateAll s"

definition onListen :: "('p, 'c, 'k, 'v) gateway_state \<Rightarrow> ('p, 'c, 'k, 'v) gateway_state" where
  "onListen s = (invalidateAll s)\<lparr>g_subscribed := True\<rparr>"

definition onLost :: "('p, 'c, 'k, 'v) gateway_state \<Rightarrow> ('p, 'c, 'k, 'v) gateway_state" where
  "onLost s = invalidateAll (s\<lparr>g_subscribed := False\<rparr>)"

text \<open>A lookup serves the copy, or starts a read of its own; the read asks the database and then
  stores what it found, when it may.\<close>

definition served :: "('p, 'c, 'k, 'v) gateway_state \<Rightarrow> 'k \<Rightarrow> 'v option" where
  "served s k = (if publishedCacheUsable s then js_get (g_cache s) k else None)"

definition start_read :: "nat \<Rightarrow> 'c \<Rightarrow> 'k \<Rightarrow> ('p, 'c, 'k, 'v) gateway_state \<Rightarrow> ('p, 'c, 'k, 'v) gateway_state" where
  "start_read rid c k s =
     s\<lparr>g_reads := js_set rid \<lparr>rf_context = c, rf_key = k, rf_startedAt = publishedCacheGeneration s,
                            rf_answer = None\<rparr> (g_reads s)\<rparr>"

definition ask_database ::
  "('c \<Rightarrow> 'p \<Rightarrow> 'k \<Rightarrow> 'v option) \<Rightarrow> nat \<Rightarrow> ('c, 'k, 'v) read_in_flight \<Rightarrow> ('p, 'c, 'k, 'v) gateway_state
   \<Rightarrow> ('p, 'c, 'k, 'v) gateway_state" where
  "ask_database load rid r s =
     s\<lparr>g_reads := js_set rid (r\<lparr>rf_answer := Some (load (rf_context r) (g_published s) (rf_key r))\<rparr>) (g_reads s)\<rparr>"

text \<open>A read that failed stores nothing.\<close>

definition finish_read ::
  "nat \<Rightarrow> ('c, 'k, 'v) read_in_flight \<Rightarrow> 'v option \<Rightarrow> ('p, 'c, 'k, 'v) gateway_state
   \<Rightarrow> ('p, 'c, 'k, 'v) gateway_state" where
  "finish_read rid r answer s =
     (let s1 = s\<lparr>g_reads := js_delete rid (g_reads s)\<rparr>
      in case answer of
           None \<Rightarrow> s1
         | Some v \<Rightarrow> if mayCacheRead (rf_startedAt r) s then s1\<lparr>g_cache := js_set (rf_key r) v (g_cache s)\<rparr>
                     else s1)"

text \<open>The admin publishes: the change and its notification commit together, and the notification
  is queued for the gateway when its LISTEN is registered.\<close>

definition publish_state :: "'p \<Rightarrow> ('p, 'c, 'k, 'v) gateway_state \<Rightarrow> ('p, 'c, 'k, 'v) gateway_state" where
  "publish_state p s = s\<lparr>g_published := p, g_pending := (if g_linked s then g_pending s + 1 else g_pending s)\<rparr>"

inductive gateway_step ::
  "('c \<Rightarrow> 'p \<Rightarrow> 'k \<Rightarrow> 'v option) \<Rightarrow> ('k \<Rightarrow> 'c \<Rightarrow> bool)
   \<Rightarrow> ('p, 'c, 'k, 'v) gateway_state \<Rightarrow> ('p, 'c, 'k, 'v) gateway_state \<Rightarrow> bool"
  for load :: "'c \<Rightarrow> 'p \<Rightarrow> 'k \<Rightarrow> 'v option" and good :: "'k \<Rightarrow> 'c \<Rightarrow> bool" where
  Published: "gateway_step load good s (publish_state p s)"
| Registered: "\<not> g_linked s \<Longrightarrow> \<not> g_subscribed s
    \<Longrightarrow> gateway_step load good s (s\<lparr>g_linked := True, g_pending := 0\<rparr>)"
| Acknowledged: "g_linked s \<Longrightarrow> \<not> g_subscribed s \<Longrightarrow> gateway_step load good s (onListen s)"
| Notified: "g_linked s \<Longrightarrow> g_subscribed s \<Longrightarrow> 0 < g_pending s
    \<Longrightarrow> gateway_step load good s (onNotify (s\<lparr>g_pending := g_pending s - 1\<rparr>))"
| Dropped: "g_linked s \<Longrightarrow> gateway_step load good s (s\<lparr>g_linked := False, g_pending := 0\<rparr>)"
| Lost: "\<not> g_linked s \<Longrightarrow> gateway_step load good s (onLost s)"
| Started: "served s k = None \<Longrightarrow> good k c \<Longrightarrow> js_get (g_reads s) rid = None
    \<Longrightarrow> gateway_step load good s (start_read rid c k s)"
| Asked: "js_get (g_reads s) rid = Some r \<Longrightarrow> rf_answer r = None
    \<Longrightarrow> gateway_step load good s (ask_database load rid r s)"
| Finished: "js_get (g_reads s) rid = Some r \<Longrightarrow> rf_answer r = Some answer
    \<Longrightarrow> gateway_step load good s (finish_read rid r answer s)"

definition gateway_boot :: "'p \<Rightarrow> ('p, 'c, 'k, 'v) gateway_state" where
  "gateway_boot p = \<lparr>g_published = p, g_linked = False, g_pending = 0, g_subscribed = False,
     g_generation = 0, g_cache = [], g_reads = []\<rparr>"

inductive gateway_reachable ::
  "('c \<Rightarrow> 'p \<Rightarrow> 'k \<Rightarrow> 'v option) \<Rightarrow> ('k \<Rightarrow> 'c \<Rightarrow> bool) \<Rightarrow> ('p, 'c, 'k, 'v) gateway_state \<Rightarrow> bool"
  for load :: "'c \<Rightarrow> 'p \<Rightarrow> 'k \<Rightarrow> 'v option" and good :: "'k \<Rightarrow> 'c \<Rightarrow> bool" where
  boot: "gateway_reachable load good (gateway_boot p)"
| step: "gateway_reachable load good s \<Longrightarrow> gateway_step load good s s' \<Longrightarrow> gateway_reachable load good s'"

section \<open>The copies\<close>

text \<open>The rate limit of an operation: the published override, else the operation's declared limit,
  else the default.  The context is what the request's loaded plugin declares.\<close>

definition resolveRateLimitSpec ::
  "RateLimitSpec option \<Rightarrow> ((string \<times> string) \<times> RateLimitSpec) list \<Rightarrow> string \<times> string
   \<Rightarrow> RateLimitSpec option" where
  "resolveRateLimitSpec declared overrides k =
     (case js_get overrides k of
        Some s \<Rightarrow> Some s
      | None \<Rightarrow> (case declared of Some s \<Rightarrow> Some s | None \<Rightarrow> Some DEFAULT_SPEC))"

record public_operation =
  po_name :: string
  po_rateLimit :: "RateLimitSpec option"

definition publicOperationOf :: "public_operation list option \<Rightarrow> string \<Rightarrow> public_operation option" where
  "publicOperationOf publicOperations name =
     find (\<lambda>op. po_name op = name) (case publicOperations of Some ops \<Rightarrow> ops | None \<Rightarrow> [])"

definition declared_limit :: "public_operation list option \<Rightarrow> string \<Rightarrow> RateLimitSpec option" where
  "declared_limit publicOperations operation =
     (case publicOperationOf publicOperations operation of Some op \<Rightarrow> po_rateLimit op | None \<Rightarrow> None)"

definition spec_cache_key :: "string \<times> string \<Rightarrow> string" where
  "spec_cache_key k = fst k @ '':'' @ snd k"

text \<open>The settings: without a row, or without a secret in it, the gateway is not ready.\<close>

record settings_row =
  sr_cookie_secret :: "string option"
  sr_max_body_bytes :: "int option"
  sr_captcha_provider :: "string option"
  sr_captcha_pow_target_prefix :: "string option"
  sr_live_origins :: "string list option"
  sr_mail_link_key :: "string option"

record GatewaySettings =
  gs_cookieSecret :: string
  gs_maxBodyBytes :: int
  gs_captcha_provider :: string
  gs_captcha_powTargetPrefix :: string
  gs_liveOrigins :: "string list option"
  gs_mailLinkKey :: "string option"

definition loadSettings :: "unit \<Rightarrow> settings_row option \<Rightarrow> unit \<Rightarrow> GatewaySettings option" where
  "loadSettings c row k =
     (case row of
        None \<Rightarrow> None
      | Some r \<Rightarrow>
          (case sr_cookie_secret r of
             None \<Rightarrow> None
           | Some secret \<Rightarrow>
               if secret = [] then None
               else Some \<lparr>gs_cookieSecret = secret,
                          gs_maxBodyBytes = (case sr_max_body_bytes r of Some n \<Rightarrow> n | None \<Rightarrow> 65536),
                          gs_captcha_provider = (case sr_captcha_provider r of Some p \<Rightarrow> p | None \<Rightarrow> ''pow''),
                          gs_captcha_powTargetPrefix =
                            (case sr_captcha_pow_target_prefix r of Some p \<Rightarrow> p | None \<Rightarrow> ''000fff''),
                          gs_liveOrigins = sr_live_origins r, gs_mailLinkKey = sr_mail_link_key r\<rparr>))"

record redirect_row =
  rr_from_path :: string
  rr_to_path :: string
  rr_status_code :: int

text \<open>The rows come ordered from the database.\<close>

definition loadPublishedRedirects :: "unit \<Rightarrow> redirect_row list \<Rightarrow> unit \<Rightarrow> RedirectTableRow list option" where
  "loadPublishedRedirects c rows k =
     Some (map (\<lambda>r. \<lparr>fromPath = rr_from_path r, toPath = rr_to_path r, statusCode = rr_status_code r\<rparr>) rows)"

section \<open>The invariant\<close>

declare js_get_nil [simp]

text \<open>The gateway is listening and every notification sent to it has arrived.\<close>

definition in_sync :: "('p, 'c, 'k, 'v) gateway_state \<Rightarrow> bool" where
  "in_sync s = (g_linked s \<and> g_subscribed s \<and> g_pending s = 0)"

definition no_copy_unsubscribed :: "('p, 'c, 'k, 'v) gateway_state \<Rightarrow> bool" where
  "no_copy_unsubscribed s = (g_subscribed s \<or> g_cache s = [])"

definition reads_started :: "('k \<Rightarrow> 'c \<Rightarrow> bool) \<Rightarrow> ('p, 'c, 'k, 'v) gateway_state \<Rightarrow> bool" where
  "reads_started good s =
     (\<forall>rid r. js_get (g_reads s) rid = Some r
        \<longrightarrow> rf_startedAt r \<le> g_generation s \<and> good (rf_key r) (rf_context r))"

definition copies_current ::
  "('c \<Rightarrow> 'p \<Rightarrow> 'k \<Rightarrow> 'v option) \<Rightarrow> ('k \<Rightarrow> 'c \<Rightarrow> bool) \<Rightarrow> ('p, 'c, 'k, 'v) gateway_state \<Rightarrow> bool" where
  "copies_current load good s =
     (in_sync s \<longrightarrow> (\<forall>k v. js_get (g_cache s) k = Some v \<longrightarrow> (\<exists>c. good k c \<and> load c (g_published s) k = Some v)))"

definition reads_current ::
  "('c \<Rightarrow> 'p \<Rightarrow> 'k \<Rightarrow> 'v option) \<Rightarrow> ('p, 'c, 'k, 'v) gateway_state \<Rightarrow> bool" where
  "reads_current load s =
     (in_sync s \<longrightarrow> (\<forall>rid r a. js_get (g_reads s) rid = Some r \<longrightarrow> rf_startedAt r = g_generation s
        \<longrightarrow> rf_answer r = Some a \<longrightarrow> a = load (rf_context r) (g_published s) (rf_key r)))"

lemmas gateway_defs =
  publish_state_def invalidateAll_def onNotify_def onListen_def onLost_def start_read_def ask_database_def
  finish_read_def mayCacheRead_def publishedCacheGeneration_def Let_def

lemma no_copy_step:
  "gateway_step load good s s' \<Longrightarrow> no_copy_unsubscribed s \<Longrightarrow> no_copy_unsubscribed s'"
  by (induction rule: gateway_step.induct)
    (auto simp: no_copy_unsubscribed_def gateway_defs split: option.splits)

lemma reads_started_step:
  "gateway_step load good s s' \<Longrightarrow> reads_started good s \<Longrightarrow> reads_started good s'"
  by (induction rule: gateway_step.induct)
    (auto simp: reads_started_def gateway_defs js_map_simps le_Suc_eq split: option.splits if_splits)

lemma started_before:
  "reads_started good s \<Longrightarrow> js_get (g_reads s) rid = Some r \<Longrightarrow> rf_startedAt r \<le> g_generation s"
  by (simp add: reads_started_def)

lemma reads_current_step:
  assumes "gateway_step load good s s'" "reads_started good s" "reads_current load s"
  shows "reads_current load s'"
  using assms
  by (induction rule: gateway_step.induct)
    (auto simp: reads_current_def in_sync_def gateway_defs js_map_simps
      dest: started_before split: option.splits if_splits)

lemma copies_current_step:
  assumes "gateway_step load good s s'" "reads_started good s" "reads_current load s" "copies_current load good s"
  shows "copies_current load good s'"
  using assms
proof (induction rule: gateway_step.induct)
  case (Finished s rid r answer)
  show ?case
  proof (cases "in_sync s \<and> mayCacheRead (rf_startedAt r) s")
    case True
    then have "answer = load (rf_context r) (g_published s) (rf_key r)" "good (rf_key r) (rf_context r)"
      using Finished by (auto simp: reads_current_def reads_started_def mayCacheRead_def)
    then show ?thesis using Finished(5) True
      by (auto simp: copies_current_def finish_read_def in_sync_def Let_def js_map_simps split: option.splits)
  next
    case False
    then show ?thesis using Finished(5)
      by (auto simp: copies_current_def finish_read_def in_sync_def Let_def split: option.splits)
  qed
qed (auto simp: copies_current_def in_sync_def gateway_defs)

definition gateway_inv ::
  "('c \<Rightarrow> 'p \<Rightarrow> 'k \<Rightarrow> 'v option) \<Rightarrow> ('k \<Rightarrow> 'c \<Rightarrow> bool) \<Rightarrow> ('p, 'c, 'k, 'v) gateway_state \<Rightarrow> bool" where
  "gateway_inv load good s =
     (no_copy_unsubscribed s \<and> reads_started good s \<and> reads_current load s \<and> copies_current load good s)"

lemma gateway_reachable_inv: "gateway_reachable load good s \<Longrightarrow> gateway_inv load good s"
proof (induction rule: gateway_reachable.induct)
  case (boot p)
  show ?case
    by (simp add: gateway_inv_def gateway_boot_def no_copy_unsubscribed_def reads_started_def
        reads_current_def copies_current_def)
next
  case (step s s')
  then show ?case
    using no_copy_step reads_started_step reads_current_step copies_current_step
    unfolding gateway_inv_def by metis
qed

lemma served_copies:
  assumes "gateway_reachable load good s" "g_linked s" "g_pending s = 0" "served s k = Some v"
  shows "\<exists>c. good k c \<and> load c (g_published s) k = Some v"
  using gateway_reachable_inv [OF assms(1)] assms(2-)
  by (auto simp: gateway_inv_def served_def publishedCacheUsable_def copies_current_def in_sync_def split: if_splits)

text \<open>C30. What the gateway serves from memory is what is published: whatever publishes, losses of
  the connection and reads in flight came before, while it listens and nothing sent to it is
  under way a served copy is what a read of the published state would answer now, and while it
  is not subscribed no copy is served or kept.\<close>

theorem served_copies_are_published:
  assumes "gateway_reachable load good s"
  shows "(g_linked s \<and> g_pending s = 0 \<and> served s k = Some v
      \<longrightarrow> (\<exists>c. good k c \<and> load c (g_published s) k = Some v))
    \<and> (\<not> g_subscribed s \<longrightarrow> served s k = None \<and> g_cache s = [])"
  using gateway_reachable_inv [OF assms]
  by (auto simp: gateway_inv_def served_def publishedCacheUsable_def copies_current_def in_sync_def
      no_copy_unsubscribed_def split: if_splits)

section \<open>Publishing takes effect\<close>

text \<open>A lookup nothing comes between.\<close>

definition lookup_copy ::
  "('c \<Rightarrow> 'p \<Rightarrow> 'k \<Rightarrow> 'v option) \<Rightarrow> nat \<Rightarrow> 'c \<Rightarrow> 'k \<Rightarrow> ('p, 'c, 'k, 'v) gateway_state
   \<Rightarrow> 'v option \<times> ('p, 'c, 'k, 'v) gateway_state" where
  "lookup_copy load rid c k s =
     (case served s k of
        Some v \<Rightarrow> (Some v, s)
      | None \<Rightarrow>
          (let r = \<lparr>rf_context = c, rf_key = k, rf_startedAt = publishedCacheGeneration s, rf_answer = None\<rparr>;
               s2 = ask_database load rid r (start_read rid c k s);
               answer = load c (g_published s) k
           in (answer, finish_read rid (r\<lparr>rf_answer := Some answer\<rparr>) answer s2)))"

fun deliver :: "nat \<Rightarrow> ('p, 'c, 'k, 'v) gateway_state \<Rightarrow> ('p, 'c, 'k, 'v) gateway_state" where
  "deliver 0 s = s"
| "deliver (Suc n) s = deliver n (onNotify (s\<lparr>g_pending := g_pending s - 1\<rparr>))"

lemma deliver_reachable:
  assumes "gateway_reachable load good s" "g_linked s" "g_subscribed s" "n \<le> g_pending s"
  shows "gateway_reachable load good (deliver n s) \<and> g_linked (deliver n s) \<and> g_subscribed (deliver n s)
    \<and> g_pending (deliver n s) = g_pending s - n \<and> g_published (deliver n s) = g_published s"
  using assms
proof (induction n arbitrary: s)
  case (Suc n)
  let ?s = "onNotify (s\<lparr>g_pending := g_pending s - 1\<rparr>)"
  have "gateway_reachable load good ?s"
    using Suc.prems by (intro gateway_reachable.step [OF Suc.prems(1)] gateway_step.Notified) simp_all
  then show ?case using Suc.IH [of ?s] Suc.prems by (auto simp: onNotify_def invalidateAll_def)
qed simp

lemma deliver_no_copies: "g_cache s = [] \<or> 0 < n \<Longrightarrow> g_cache (deliver n s) = []"
proof (induction n arbitrary: s)
  case (Suc n)
  have "g_cache (onNotify (s\<lparr>g_pending := g_pending s - 1\<rparr>)) = []" by (simp add: onNotify_def invalidateAll_def)
  then show ?case using Suc.IH by simp
qed simp

lemma steps_reachable:
  "(gateway_step load good)\<^sup>*\<^sup>* s t \<Longrightarrow> gateway_reachable load good s \<Longrightarrow> gateway_reachable load good t"
  by (induction rule: rtranclp_induct) (auto intro: gateway_reachable.step)

lemma lookup_answers_for_a_request:
  assumes "gateway_reachable load good s" "in_sync s" "good k c"
  shows "\<exists>c'. good k c' \<and> fst (lookup_copy load rid c k s) = load c' (g_published s) k"
proof (cases "served s k")
  case None
  then show ?thesis using assms(3) by (intro exI [of _ c]) (simp add: lookup_copy_def Let_def)
next
  case (Some v)
  then obtain c' where "good k c'" "load c' (g_published s) k = Some v"
    using served_copies [OF assms(1) _ _ Some] assms(2) by (auto simp: in_sync_def)
  with Some show ?thesis by (intro exI [of _ c']) (simp add: lookup_copy_def)
qed

text \<open>A lookup without a copy asks the database and keeps the answer.\<close>

lemma lookup_without_copy:
  assumes "g_subscribed s" "served s k = None"
  shows "fst (lookup_copy load rid c k s) = load c (g_published s) k"
    and "served (snd (lookup_copy load rid c k s)) k = load c (g_published s) k"
proof -
  show "fst (lookup_copy load rid c k s) = load c (g_published s) k"
    using assms(2) by (simp add: lookup_copy_def Let_def)
  show "served (snd (lookup_copy load rid c k s)) k = load c (g_published s) k"
    using assms
    by (cases "load c (g_published s) k")
      (simp_all add: lookup_copy_def served_def publishedCacheUsable_def gateway_defs js_map_simps)
qed

text \<open>C36. A publish takes effect with its notification, whatever copies and reads in flight there
  were: once a listening gateway received what was sent to it, the next lookup answers what the
  published state says for its request, and the copy kept answers the same; and until the next
  publish every lookup of an operation answers what the published state says for a request of it.\<close>

theorem publish_takes_effect:
  assumes "gateway_reachable load good s" "g_linked s" "g_subscribed s"
  shows "let t = deliver (Suc (g_pending s)) (publish_state p s)
    in in_sync t \<and> g_published t = p
      \<and> fst (lookup_copy load rid c k t) = load c p k
      \<and> served (snd (lookup_copy load rid c k t)) k = load c p k
      \<and> ((gateway_step load good)\<^sup>*\<^sup>* t u \<and> in_sync u \<and> g_published u = p \<and> good k' c'
          \<longrightarrow> (\<exists>c''. good k' c'' \<and> fst (lookup_copy load rid' c' k' u) = load c'' p k'))"
proof -
  let ?t = "deliver (Suc (g_pending s)) (publish_state p s)"
  have "gateway_reachable load good (publish_state p s)"
    using assms(1) gateway_step.Published by (rule gateway_reachable.step)
  then have t: "gateway_reachable load good ?t" "in_sync ?t" "g_published ?t = p"
    using deliver_reachable [of load good "publish_state p s" "Suc (g_pending s)"] assms(2,3)
    by (auto simp: publish_state_def in_sync_def)
  have "served ?t k = None"
    using deliver_no_copies [of "publish_state p s" "Suc (g_pending s)"] by (simp add: served_def)
  from lookup_without_copy [OF _ this] t
  have "fst (lookup_copy load rid c k ?t) = load c p k" "served (snd (lookup_copy load rid c k ?t)) k = load c p k"
    by (simp_all add: in_sync_def)
  moreover have "\<exists>c''. good k' c'' \<and> fst (lookup_copy load rid' c' k' u) = load c'' p k'"
    if "(gateway_step load good)\<^sup>*\<^sup>* ?t u" "in_sync u" "g_published u = p" "good k' c'"
    using lookup_answers_for_a_request [OF steps_reachable [OF that(1) t(1)] that(2,4)] that(3) by metis
  ultimately show ?thesis using t(2,3) unfolding Let_def by blast
qed

section \<open>Rate limits\<close>

text \<open>The key of a copy names its operation: slugs have no colon.\<close>

lemma spec_cache_key_inj:
  assumes "CHR '':'' \<notin> set (fst k)" "CHR '':'' \<notin> set (fst k')" "spec_cache_key k = spec_cache_key k'"
  shows "k = k'"
proof -
  have "fst k = takeWhile (\<lambda>c. c \<noteq> CHR '':'') (spec_cache_key k)" if "CHR '':'' \<notin> set (fst k)" for k
    using that by (auto simp: spec_cache_key_def takeWhile_append)
  then have "fst k = fst k'" using assms by metis
  then show ?thesis using assms(3) by (cases k; cases k') (simp add: spec_cache_key_def)
qed

text \<open>A published override is the limit: while the gateway is in sync, a served rate limit is
  the published override of the operation whatever the request's plugin declares, and without
  one it is a limit some request's loaded plugin declared, or the default.\<close>

theorem served_limit_obeys_override:
  assumes "gateway_reachable resolveRateLimitSpec good s" "g_linked s" "g_pending s = 0"
    and "served s k = Some spec"
  shows "case js_get (g_published s) k of
      Some override \<Rightarrow> spec = override
    | None \<Rightarrow> \<exists>declared. good k declared \<and> spec = (case declared of Some d \<Rightarrow> d | None \<Rightarrow> DEFAULT_SPEC)"
proof -
  obtain c where "good k c" "resolveRateLimitSpec c (g_published s) k = Some spec"
    using served_copies [OF assms] by blast
  then show ?thesis
    by (cases "js_get (g_published s) k"; cases c) (auto simp: resolveRateLimitSpec_def intro: exI [of _ c])
qed

section \<open>A gateway that listens, publishes and looks up\<close>

lemma lookup_reachable:
  assumes "gateway_reachable load good s" "good k c" "js_get (g_reads s) rid = None"
  shows "gateway_reachable load good (snd (lookup_copy load rid c k s))"
proof (cases "served s k")
  case None
  let ?r = "\<lparr>rf_context = c, rf_key = k, rf_startedAt = publishedCacheGeneration s, rf_answer = None\<rparr>"
  let ?a = "load c (g_published s) k"
  have r1: "gateway_reachable load good (start_read rid c k s)"
    by (rule gateway_reachable.step [OF assms(1)]) (rule gateway_step.Started, use None assms(2,3) in simp_all)
  have "js_get (g_reads (start_read rid c k s)) rid = Some ?r"
    by (simp add: start_read_def js_map_simps)
  then have r2: "gateway_reachable load good (ask_database load rid ?r (start_read rid c k s))"
    by (intro gateway_reachable.step [OF r1] gateway_step.Asked) simp_all
  have "js_get (g_reads (ask_database load rid ?r (start_read rid c k s))) rid = Some (?r\<lparr>rf_answer := Some ?a\<rparr>)"
    by (simp add: ask_database_def start_read_def js_map_simps)
  then have "gateway_reachable load good
      (finish_read rid (?r\<lparr>rf_answer := Some ?a\<rparr>) ?a (ask_database load rid ?r (start_read rid c k s)))"
    by (intro gateway_reachable.step [OF r2] gateway_step.Finished) simp_all
  then show ?thesis using None by (simp add: lookup_copy_def Let_def)
qed (use assms in \<open>simp add: lookup_copy_def\<close>)

definition listening :: "'p \<Rightarrow> ('p, 'c, 'k, 'v) gateway_state" where
  "listening p = onListen ((gateway_boot p)\<lparr>g_linked := True, g_pending := 0\<rparr>)"

lemma listening_reachable: "gateway_reachable load good (listening p)"
  unfolding listening_def
  by (rule gateway_reachable.step [OF gateway_reachable.step [OF gateway_reachable.boot gateway_step.Registered]
        gateway_step.Acknowledged]) (simp_all add: gateway_boot_def)

lemma listening_props:
  "g_linked (listening p)" "g_subscribed (listening p)" "g_pending (listening p) = 0"
  "g_reads (listening p) = []" "g_published (listening p) = p" "g_cache (listening p) = []"
  by (simp_all add: listening_def gateway_boot_def gateway_defs)

definition demo_op :: "string \<times> string" where
  "demo_op = (''shop'', ''buy'')"

definition demo_overrides :: "((string \<times> string) \<times> RateLimitSpec) list" where
  "demo_overrides = [(demo_op, \<lparr>perVisitorMax = 5, windowSeconds = 60\<rparr>)]"

type_synonym limit_gateway =
  "(((string \<times> string) \<times> RateLimitSpec) list, RateLimitSpec option, string \<times> string, RateLimitSpec) gateway_state"

definition demo_gateway :: limit_gateway where
  "demo_gateway = snd (lookup_copy resolveRateLimitSpec 0 None demo_op (listening demo_overrides))"

lemma demo_gateway_reachable: "gateway_reachable resolveRateLimitSpec (\<lambda>k c. c = None) demo_gateway"
  unfolding demo_gateway_def
  by (rule lookup_reachable [OF listening_reachable]) (simp_all add: listening_props)

lemma demo_override: "js_get demo_overrides demo_op = Some \<lparr>perVisitorMax = 5, windowSeconds = 60\<rparr>"
  by (simp add: demo_overrides_def js_get_def)

lemma demo_gateway_props:
  "g_linked demo_gateway" "g_subscribed demo_gateway" "g_pending demo_gateway = 0"
  "served demo_gateway demo_op = Some \<lparr>perVisitorMax = 5, windowSeconds = 60\<rparr>"
  "g_published demo_gateway = demo_overrides"
  by (simp_all add: demo_gateway_def lookup_copy_def served_def publishedCacheUsable_def listening_props
      gateway_defs js_map_simps resolveRateLimitSpec_def demo_override)

lemma served_copies_are_published_witness:
  "resolveRateLimitSpec None (g_published demo_gateway) demo_op = Some \<lparr>perVisitorMax = 5, windowSeconds = 60\<rparr>"
  using served_copies_are_published [OF demo_gateway_reachable, of demo_op] demo_gateway_props by auto

text \<open>A request of the old plugin looked up its limit; after a publish a request of the new one gets
  its own.\<close>

definition small_limit :: RateLimitSpec where
  "small_limit = \<lparr>perVisitorMax = 5, windowSeconds = 60\<rparr>"

definition plugin_gateway :: limit_gateway where
  "plugin_gateway = snd (lookup_copy resolveRateLimitSpec 0 (Some small_limit) demo_op (listening []))"

lemma publish_takes_effect_witness:
  "served plugin_gateway demo_op = Some small_limit
    \<and> fst (lookup_copy resolveRateLimitSpec 1 (Some DEFAULT_SPEC) demo_op
        (deliver (Suc (g_pending plugin_gateway)) (publish_state [] plugin_gateway))) = Some DEFAULT_SPEC"
proof -
  let ?good = "\<lambda>(k :: string \<times> string) c. c \<in> {Some small_limit, Some DEFAULT_SPEC}"
  have "gateway_reachable resolveRateLimitSpec ?good plugin_gateway"
    unfolding plugin_gateway_def by (rule lookup_reachable [OF listening_reachable]) (simp_all add: listening_props)
  moreover have "g_linked plugin_gateway" "g_subscribed plugin_gateway" "served plugin_gateway demo_op = Some small_limit"
    by (simp_all add: plugin_gateway_def lookup_copy_def served_def publishedCacheUsable_def listening_props
        gateway_defs js_map_simps resolveRateLimitSpec_def)
  ultimately show ?thesis
    using publish_takes_effect [where load = resolveRateLimitSpec and good = ?good and s = plugin_gateway and p = "[]"
        and rid = 1 and c = "Some DEFAULT_SPEC" and k = demo_op]
    by (simp add: Let_def resolveRateLimitSpec_def)
qed

lemma served_limit_obeys_override_witness:
  "js_get demo_overrides demo_op = served demo_gateway demo_op"
  using served_limit_obeys_override [OF demo_gateway_reachable demo_gateway_props(1,3,4)] demo_gateway_props(4,5)
  by (simp add: demo_overrides_def js_get_def)

text \<open>The declared limit is read off the request's plugin before the generation is taken: a
  request that still holds the old plugin after the notification arrived stores its limit, and
  the gateway serves it to requests of the new plugin until the next publish.\<close>

lemma declared_limit_can_be_stale:
  fixes old new :: RateLimitSpec
  shows "\<exists>s :: limit_gateway. gateway_reachable resolveRateLimitSpec (\<lambda>k c. c = Some old \<or> c = Some new) s
    \<and> in_sync s \<and> fst (lookup_copy resolveRateLimitSpec rid (Some new) demo_op s) = Some old"
proof (intro exI conjI)
  let ?s = "snd (lookup_copy resolveRateLimitSpec 0 (Some old) demo_op (listening [] :: limit_gateway))"
  show "gateway_reachable resolveRateLimitSpec (\<lambda>k c. c = Some old \<or> c = Some new) ?s"
    by (rule lookup_reachable [OF listening_reachable]) (simp_all add: listening_props)
  show "in_sync ?s" "fst (lookup_copy resolveRateLimitSpec rid (Some new) demo_op ?s) = Some old"
    by (simp_all add: in_sync_def lookup_copy_def served_def publishedCacheUsable_def listening_props
        gateway_defs js_map_simps resolveRateLimitSpec_def)
qed

end
