(* ===== verification/Client_Address.thy ===== *)
theory Client_Address
  imports Js_Strings
begin

text \<open>
  The client's address: which X-Forwarded-For entry is believed
  (packages/shared/src/client-address.ts), and the part of an address that names one client
  for rate limiting (apps/api-gateway/src/client-ip.ts).  The keyed hash of that part is a
  function given by the runtime.
\<close>

section \<open>Forwarded entries\<close>

datatype ClientAddressError =
    Hops_not_set
  | Hops_not_a_number string
  | Peer_unknown
  | Too_few_entries nat

text \<open>The hop count of the environment: digits, or an error that says what to set.\<close>

definition trustedProxyHopsFromEnv :: "string option \<Rightarrow> (ClientAddressError, nat) result" where
  "trustedProxyHopsFromEnv raw =
     (case raw of
        None \<Rightarrow> Inl Hops_not_set
      | Some s \<Rightarrow>
          if js_trim s = [] then Inl Hops_not_set
          else if list_all is_digit (js_trim s) then Inr (read_decimal (js_trim s))
          else Inl (Hops_not_a_number s))"

definition forwarded_entries :: "string \<Rightarrow> string list" where
  "forwarded_entries header = filter (\<lambda>s. s \<noteq> []) (map js_trim (split_on (CHR '','') header))"

definition forwardedClientIp :: "string option \<Rightarrow> nat \<Rightarrow> string option" where
  "forwardedClientIp header hops =
     (case header of
        None \<Rightarrow> None
      | Some h \<Rightarrow>
          if hops < 1 \<or> h = [] then None
          else (let entries = forwarded_entries h
                in if hops \<le> length entries then Some (entries ! (length entries - hops)) else None))"

definition clientAddress ::
  "string option \<Rightarrow> nat \<Rightarrow> string option \<Rightarrow> (ClientAddressError, string) result" where
  "clientAddress header hops peer =
     (if hops = 0
      then (case peer of
              Some p \<Rightarrow> if p = [] then Inl Peer_unknown else Inr p
            | None \<Rightarrow> Inl Peer_unknown)
      else (case forwardedClientIp header hops of
              Some ip \<Rightarrow> Inr ip
            | None \<Rightarrow> Inl (Too_few_entries hops)))"

section \<open>Addresses as hextets\<close>

definition hex_value :: "char \<Rightarrow> nat" where
  "hex_value c = (if is_digit c then digit_value c else of_char c - 87)"

definition hex_digit :: "char \<Rightarrow> bool" where
  "hex_digit c = (is_digit c \<or> (97 \<le> (of_char c :: nat) \<and> (of_char c :: nat) \<le> 102))"

definition parse_hex :: "string \<Rightarrow> nat" where
  "parse_hex s = foldl (\<lambda>n c. 16 * n + hex_value c) 0 s"

definition hex_char :: "nat \<Rightarrow> char" where
  "hex_char d = (if d < 10 then digit_char d else char_of (87 + d))"

fun to_hex :: "nat \<Rightarrow> string" where
  "to_hex n = (if n < 16 then [hex_char n] else to_hex (n div 16) @ [hex_char (n mod 16)])"

declare to_hex.simps [simp del]

text \<open>Four groups of one to three digits, a dot between, at the end of the text: the leftmost
  place where they fit.\<close>

definition quad :: "string \<Rightarrow> nat list option" where
  "quad s =
     (let ws = split_on (CHR ''.'') s
      in if length ws = 4 \<and> list_all (\<lambda>w. w \<noteq> [] \<and> length w \<le> 3 \<and> list_all is_digit w) ws
         then Some (map read_decimal ws) else None)"

fun quad_at_end :: "string \<Rightarrow> (string \<times> nat list) option" where
  "quad_at_end [] = None"
| "quad_at_end (c # s) =
     (case quad (c # s) of
        Some q \<Rightarrow> Some ([], q)
      | None \<Rightarrow> (case quad_at_end s of Some (before, q) \<Rightarrow> Some (c # before, q) | None \<Rightarrow> None))"

fun split_double :: "string \<Rightarrow> string list" where
  "split_double [] = [[]]"
| "split_double [c] = [[c]]"
| "split_double (c # d # s) =
     (if c = CHR '':'' \<and> d = CHR '':'' then [] # split_double s
      else (case split_double (d # s) of [] \<Rightarrow> [[c]] | w # ws \<Rightarrow> (c # w) # ws))"

definition colon_parts :: "string \<Rightarrow> string list" where
  "colon_parts s = (if s = [] then [] else split_on (CHR '':'') s)"

definition hextet :: "string \<Rightarrow> bool" where
  "hextet g = (g \<noteq> [] \<and> length g \<le> 4 \<and> list_all hex_digit g)"

text \<open>The eight groups of the halves around a double colon.\<close>

definition groups_of :: "string list \<Rightarrow> nat list option" where
  "groups_of halves =
     (case halves of
        [h] \<Rightarrow> if length (colon_parts h) = 8 \<and> list_all hextet (colon_parts h)
               then Some (map parse_hex (colon_parts h)) else None
      | [h, t] \<Rightarrow>
          (let head = colon_parts h; tail = colon_parts t;
               parts = head @ replicate (8 - (length head + length tail)) ''0'' @ tail
           in if length head + length tail < 8 \<and> list_all hextet parts
              then Some (map parse_hex parts) else None)
      | _ \<Rightarrow> None)"

definition ipv6Hextets :: "string \<Rightarrow> nat list option" where
  "ipv6Hextets ip =
     (case quad_at_end ip of
        None \<Rightarrow> groups_of (split_double ip)
      | Some (before, [a, b, c, d]) \<Rightarrow>
          if list_ex (\<lambda>n. 255 < n) [a, b, c, d] then None
          else groups_of (split_double (before @ to_hex (a * 256 + b) @ '':'' @ to_hex (c * 256 + d)))
      | Some (before, _) \<Rightarrow> None)"

definition v4_mapped :: "nat list \<Rightarrow> bool" where
  "v4_mapped groups = (list_all (\<lambda>g. g = 0) (take 5 groups) \<and> groups ! 5 = 65535)"

definition rateLimitAddress :: "string \<Rightarrow> string" where
  "rateLimitAddress address =
     (let raw = map to_lower (js_trim address)
      in if CHR '':'' \<notin> set raw then raw
         else (case ipv6Hextets (takeWhile (\<lambda>c. c \<noteq> CHR ''%'') raw) of
                 None \<Rightarrow> raw
               | Some groups \<Rightarrow>
                   if v4_mapped groups
                   then join_with ''.'' (map decimal [groups ! 6 div 256, groups ! 6 mod 256,
                                                      groups ! 7 div 256, groups ! 7 mod 256])
                   else join_with '':'' (map to_hex (take 4 groups)) @ ''::/64''))"

definition hashClientAddress :: "('key \<Rightarrow> string \<Rightarrow> string) \<Rightarrow> string \<Rightarrow> 'key \<Rightarrow> string" where
  "hashClientAddress hmac address key = hmac key (rateLimitAddress address)"

section \<open>Hexadecimal\<close>

lemma of_char_hex_char: "d < 16 \<Longrightarrow> (of_char (hex_char d) :: nat) = (if d < 10 then 48 + d else 87 + d)"
  by (simp add: hex_char_def of_char_digit_char)

lemma hex_char_props [simp]:
  assumes "d < 16"
  shows "hex_digit (hex_char d)" "hex_value (hex_char d) = d"
  using assms of_char_hex_char [OF assms]
  by (auto simp: hex_digit_def hex_value_def is_digit_def digit_value_def)

lemma to_hex_digits: "list_all hex_digit (to_hex n)"
  by (induction n rule: to_hex.induct) (subst to_hex.simps, simp)

lemma to_hex_not_Nil [simp]: "to_hex n \<noteq> []"
  by (subst to_hex.simps) simp

lemma parse_to_hex [simp]: "parse_hex (to_hex n) = n"
proof (induction n rule: to_hex.induct)
  case (1 n)
  show ?case
  proof (cases "n < 16")
    case True
    then show ?thesis by (simp add: to_hex.simps [of n] parse_hex_def)
  next
    case False
    then have "parse_hex (to_hex n) = 16 * (n div 16) + n mod 16"
      using 1 by (simp add: to_hex.simps [of n] parse_hex_def)
    then show ?thesis by simp
  qed
qed

lemma length_to_hex: "n < 16 ^ k \<Longrightarrow> 0 < k \<Longrightarrow> length (to_hex n) \<le> k"
proof (induction k arbitrary: n)
  case (Suc k)
  show ?case
  proof (cases "n < 16")
    case False
    have "n div 16 < 16 ^ k" using Suc.prems(1) by (simp add: less_mult_imp_div_less)
    moreover have "0 < k" using Suc.prems(1) False by (cases k) simp_all
    ultimately show ?thesis using Suc.IH False by (simp add: to_hex.simps [of n])
  qed (simp add: to_hex.simps [of n])
qed simp

lemma to_hex_hextet: "n < 65536 \<Longrightarrow> hextet (to_hex n)"
  using length_to_hex [of n 4] to_hex_digits by (simp add: hextet_def)

lemma to_hex_inj: "to_hex m = to_hex n \<longleftrightarrow> m = n"
  by (metis parse_to_hex)

section \<open>Notations of an address\<close>

text \<open>The two last groups as the dotted quad of an embedded IPv4 address.\<close>

definition octets :: "nat \<Rightarrow> nat \<Rightarrow> nat list" where
  "octets g h = [g div 256, g mod 256, h div 256, h mod 256]"

definition dotted :: "nat \<Rightarrow> nat \<Rightarrow> string" where
  "dotted g h = join_with ''.'' (map decimal (octets g h))"

text \<open>A group is written in up to four hexadecimal digits, an octet in up to three decimal ones; both
  may start with zeros.\<close>

definition hex_word :: "nat \<Rightarrow> string \<Rightarrow> bool" where
  "hex_word g w = (length w \<le> 4 \<and> (\<exists>k. w = replicate k (CHR ''0'') @ to_hex g))"

definition decimal_word :: "nat \<Rightarrow> string \<Rightarrow> bool" where
  "decimal_word n w = (length w \<le> 3 \<and> (\<exists>k. w = replicate k (CHR ''0'') @ decimal n))"

definition quad_written :: "nat \<Rightarrow> nat \<Rightarrow> string \<Rightarrow> bool" where
  "quad_written g h s = (\<exists>ws. list_all2 decimal_word (octets g h) ws \<and> s = join_with ''.'' ws)"

text \<open>The groups of an address in full, or with a run of zero groups left out.\<close>

definition hex_written :: "nat list \<Rightarrow> string \<Rightarrow> bool" where
  "hex_written gs s =
     ((\<exists>ws. list_all2 hex_word gs ws \<and> s = join_with '':'' ws)
      \<or> (\<exists>h t hs ts. gs = h @ replicate (8 - (length h + length t)) 0 @ t \<and> length h + length t < 8
           \<and> list_all2 hex_word h hs \<and> list_all2 hex_word t ts
           \<and> s = join_with '':'' hs @ ''::'' @ join_with '':'' ts))"

definition groups_ok :: "nat list \<Rightarrow> bool" where
  "groups_ok gs = (length gs = 8 \<and> list_all (\<lambda>g. g < 65536) gs)"

text \<open>The last two groups may be written as a dotted quad.\<close>

definition written_as :: "nat list \<Rightarrow> string \<Rightarrow> bool" where
  "written_as gs s =
     (groups_ok gs
      \<and> (hex_written gs s
         \<or> (\<exists>p q. s = p @ '':'' @ q \<and> quad_written (gs ! 6) (gs ! 7) q
               \<and> hex_written gs (p @ '':'' @ to_hex (gs ! 6) @ '':'' @ to_hex (gs ! 7)))))"

text \<open>An address names these groups, whatever its letter case, white space around it and zone; an
  IPv4 address, whose octets have no leading zeros, names the groups that carry it.\<close>

definition address_names :: "nat list \<Rightarrow> string \<Rightarrow> bool" where
  "address_names gs a =
     (written_as gs (takeWhile (\<lambda>c. c \<noteq> CHR ''%'') (map to_lower (js_trim a)))
      \<or> (groups_ok gs \<and> v4_mapped gs \<and> map to_lower (js_trim a) = dotted (gs ! 6) (gs ! 7)))"

text \<open>The client: the IPv4 address, or the network of 64 bits.\<close>

definition client_of :: "nat list \<Rightarrow> nat list" where
  "client_of gs = (if v4_mapped gs then drop 6 gs else take 4 gs)"

section \<open>Reading a notation\<close>

fun single :: "string \<Rightarrow> bool" where
  "single [] = True"
| "single [c] = (c \<noteq> CHR '':'')"
| "single (c # d # s) = (\<not> (c = CHR '':'' \<and> d = CHR '':'') \<and> single (d # s))"

lemma split_double_not_Nil [simp]: "split_double s \<noteq> []"
  by (induction s rule: split_double.induct) (auto split: list.splits)

lemma split_double_single: "single w \<Longrightarrow> split_double w = [w]"
  by (induction w rule: split_double.induct) auto

lemma split_double_append: "single w \<Longrightarrow> split_double (w @ ''::'' @ s) = w # split_double s"
proof (induction w rule: single.induct)
  case (2 c)
  then show ?case by (cases s) auto
qed auto

lemma single_word: "CHR '':'' \<notin> set w \<Longrightarrow> single w"
  by (induction w rule: single.induct) auto

lemma single_join_word:
  "CHR '':'' \<notin> set w \<Longrightarrow> w \<noteq> [] \<Longrightarrow> single r \<Longrightarrow> r \<noteq> [] \<Longrightarrow> hd r \<noteq> CHR '':''
    \<Longrightarrow> single (w @ CHR '':'' # r)"
proof (induction w rule: single.induct)
  case (2 c)
  then show ?case by (cases r) auto
qed auto

lemma hex_not_special: "hex_digit c \<Longrightarrow> c \<noteq> CHR '':'' \<and> c \<noteq> CHR ''.'' \<and> c \<noteq> CHR ''%''"
  by (auto simp: hex_digit_def is_digit_def)

lemma to_hex_no_special:
  "CHR '':'' \<notin> set (to_hex n)" "CHR ''.'' \<notin> set (to_hex n)" "CHR ''%'' \<notin> set (to_hex n)"
  using to_hex_digits [of n] hex_not_special by (auto simp: list_all_iff)

text \<open>Lists of words of hexadecimal digits.\<close>

definition hex_words :: "string list \<Rightarrow> bool" where
  "hex_words ws = list_all (\<lambda>w. w \<noteq> [] \<and> list_all hex_digit w) ws"

lemma hex_words_simps [simp]:
  "hex_words []" "hex_words (w # ws) = (w \<noteq> [] \<and> list_all hex_digit w \<and> hex_words ws)"
  by (auto simp: hex_words_def)

lemma hex_words_to_hex [simp]: "hex_words (map to_hex gs)"
  by (induction gs) (simp_all add: to_hex_digits)

lemma digits_no_colon: "list_all hex_digit w \<Longrightarrow> CHR '':'' \<notin> set w"
  using hex_not_special by (auto simp: list_all_iff)

lemma single_join: "hex_words ws \<Longrightarrow> single (join_with '':'' ws)"
proof (induction ws rule: induct_list012)
  case (3 v w ws)
  have "join_with '':'' (w # ws) \<noteq> [] \<and> hd (join_with '':'' (w # ws)) \<noteq> CHR '':''"
    using 3(3) digits_no_colon [of w] by (cases w; cases ws) auto
  then show ?case using 3 single_join_word [OF digits_no_colon] by simp
qed (simp_all add: single_word digits_no_colon)

lemma colon_parts_join: "hex_words ws \<Longrightarrow> colon_parts (join_with '':'' ws) = ws"
proof (cases "ws = []")
  case False
  assume w: "hex_words ws"
  then have "join_with '':'' ws \<noteq> []" using False by (cases ws rule: remdups_adj.cases) simp_all
  moreover have "CHR '':'' \<notin> set v" if "v \<in> set ws" for v
    using w that digits_no_colon by (auto simp: hex_words_def list_all_iff)
  ultimately show ?thesis
    using False split_join [of ws "CHR '':''"] by (simp add: colon_parts_def)
qed (simp add: colon_parts_def)

lemma join_special:
  "hex_words ws \<Longrightarrow> c \<in> set (join_with '':'' ws) \<Longrightarrow> hex_digit c \<or> c = CHR '':''"
  by (induction ws rule: induct_list012) (auto simp: list_all_iff)

lemma zero_digit: "hex_digit (CHR ''0'')" "hex_value (CHR ''0'') = 0"
  by code_simp+

lemma parse_hex_zeros [simp]: "parse_hex (replicate k (CHR ''0'') @ w) = parse_hex w"
  by (induction k) (simp_all add: parse_hex_def zero_digit)

lemma hex_word_props:
  assumes "hex_word g w"
  shows "hextet w" "parse_hex w = g"
proof -
  obtain k where "w = replicate k (CHR ''0'') @ to_hex g" "length w \<le> 4" using assms by (auto simp: hex_word_def)
  then show "hextet w" "parse_hex w = g"
    using to_hex_digits [of g] by (auto simp: hextet_def zero_digit list_all_iff)
qed

lemma hex_word_list:
  assumes "list_all2 hex_word gs ws"
  shows "list_all hextet ws" "map parse_hex ws = gs" "hex_words ws" "length ws = length gs"
  using assms by (induction) (simp_all add: hex_word_props, simp_all add: hextet_def hex_word_props(1) [unfolded hextet_def])

lemma to_hex_word: "g < 65536 \<Longrightarrow> hex_word g (to_hex g)"
  unfolding hex_word_def using to_hex_hextet [of g] by (auto simp: hextet_def intro: exI [of _ 0])

lemma to_hex_words: "list_all (\<lambda>g. g < 65536) gs \<Longrightarrow> list_all2 hex_word gs (map to_hex gs)"
  by (simp add: list_all2_conv_all_nth list_all_length to_hex_word)

lemma parse_all [simp]: "map (parse_hex \<circ> to_hex) gs = gs"
  by (induction gs) simp_all

lemma zero_hextet: "hextet ''0''" "parse_hex ''0'' = 0"
  by code_simp+

lemma groups_of_written:
  assumes "groups_ok gs" "hex_written gs s"
  shows "groups_of (split_double s) = Some gs"
proof -
  consider (full) ws where "list_all2 hex_word gs ws" "s = join_with '':'' ws"
    | (short) h t hs ts where "gs = h @ replicate (8 - (length h + length t)) 0 @ t" "length h + length t < 8"
        "list_all2 hex_word h hs" "list_all2 hex_word t ts" "s = join_with '':'' hs @ ''::'' @ join_with '':'' ts"
    using assms(2) unfolding hex_written_def by blast
  then show ?thesis
  proof cases
    case full
    then show ?thesis using assms(1) hex_word_list [OF full(1)]
      by (simp add: split_double_single single_join groups_of_def colon_parts_join groups_ok_def)
  next
    case short
    note h = hex_word_list [OF short(3)] and t = hex_word_list [OF short(4)]
    have "split_double s = [join_with '':'' hs, join_with '':'' ts]"
      unfolding short(5)
      using split_double_append [OF single_join [OF h(3)]] split_double_single [OF single_join [OF t(3)]] by simp
    then show ?thesis
      using short(1,2) h t zero_hextet
      by (simp add: groups_of_def colon_parts_join Let_def list_all_iff ball_Un)
  qed
qed

lemma hex_written_chars:
  assumes "hex_written gs s" "c \<in> set s"
  shows "hex_digit c \<or> c = CHR '':''"
proof -
  consider (full) ws where "list_all2 hex_word gs ws" "s = join_with '':'' ws"
    | (short) h t hs ts where "list_all2 hex_word h hs" "list_all2 hex_word t ts"
        "s = join_with '':'' hs @ ''::'' @ join_with '':'' ts"
    using assms(1) unfolding hex_written_def by blast
  then show ?thesis
  proof cases
    case full
    then show ?thesis using assms(2) join_special [OF hex_word_list(3) [OF full(1)]] by simp
  next
    case short
    then show ?thesis
      using assms(2) join_special [OF hex_word_list(3) [OF short(1)]] join_special [OF hex_word_list(3) [OF short(2)]]
      by auto
  qed
qed

lemma hex_written_no_dot: "hex_written gs s \<Longrightarrow> CHR ''.'' \<notin> set s"
  using hex_written_chars hex_not_special by blast

section \<open>Embedded quads\<close>

lemma length_decimal: "n < 10 ^ k \<Longrightarrow> 0 < k \<Longrightarrow> length (decimal n) \<le> k"
proof (induction k arbitrary: n)
  case (Suc k)
  show ?case
  proof (cases "n < 10")
    case False
    have "n div 10 < 10 ^ k" using Suc.prems(1) by (simp add: less_mult_imp_div_less)
    moreover have "0 < k" using Suc.prems(1) False by (cases k) simp_all
    ultimately show ?thesis using Suc.IH False by (simp add: decimal.simps [of n])
  qed (simp add: decimal.simps [of n])
qed simp

lemma decimal_no_special: "CHR ''.'' \<notin> set (decimal n)" "CHR '':'' \<notin> set (decimal n)"
  using decimal_digits [of n] by (auto simp: is_digit_def)

lemma decimal_word_props:
  assumes "decimal_word n w"
  shows "w \<noteq> []" "length w \<le> 3" "list_all is_digit w" "read_decimal w = n" "CHR ''.'' \<notin> set w"
proof -
  obtain k where w: "w = replicate k (CHR ''0'') @ decimal n" "length w \<le> 3"
    using assms by (auto simp: decimal_word_def)
  have zero: "is_digit (CHR ''0'')" "digit_value (CHR ''0'') = 0" by code_simp+
  show d: "list_all is_digit w" using decimal_digits [of n] zero by (auto simp: w(1) list_all_iff)
  have "read_decimal (replicate k (CHR ''0'') @ v) = read_decimal v" for v
    by (induction k) (simp_all add: read_decimal_def zero)
  then show "w \<noteq> []" "length w \<le> 3" "read_decimal w = n" using w by simp_all
  show "CHR ''.'' \<notin> set w" using d by (auto simp: list_all_iff is_digit_def)
qed

lemma decimal_word_decimal: "n < 256 \<Longrightarrow> decimal_word n (decimal n)"
  unfolding decimal_word_def using length_decimal [of n 3] by (auto intro: exI [of _ 0])

lemma octets_small: "g < 65536 \<Longrightarrow> h < 65536 \<Longrightarrow> n \<in> set (octets g h) \<Longrightarrow> n < 256"
  by (auto simp: octets_def less_mult_imp_div_less)

lemma dotted_written: "g < 65536 \<Longrightarrow> h < 65536 \<Longrightarrow> quad_written g h (dotted g h)"
  unfolding quad_written_def dotted_def
proof (intro exI conjI)
  assume "g < 65536" "h < 65536"
  then have "decimal_word n (decimal n)" if "n \<in> set (octets g h)" for n
    using octets_small that by (intro decimal_word_decimal)
  then show "list_all2 decimal_word (octets g h) (map decimal (octets g h))"
    by (simp add: list_all2_conv_all_nth)
qed (rule refl)

lemma quad_written_quad:
  assumes "quad_written g h q"
  shows "quad q = Some (octets g h)"
proof -
  obtain ws where ws: "list_all2 decimal_word (octets g h) ws" "q = join_with ''.'' ws"
    using assms by (auto simp: quad_written_def)
  then have len: "length ws = 4" by (simp add: octets_def list_all2_lengthD [symmetric])
  have word: "\<exists>n. decimal_word n w" if "w \<in> set ws" for w
    using that ws(1) by (auto simp: list_all2_conv_all_nth in_set_conv_nth)
  have "split_on (CHR ''.'') q = ws"
    unfolding ws(2) using len word decimal_word_props(5) by (intro split_join) auto
  moreover have "map read_decimal ws = octets g h"
    using ws(1) by (intro nth_equalityI) (auto simp: list_all2_conv_all_nth decimal_word_props(4))
  moreover have "w \<noteq> [] \<and> length w \<le> 3 \<and> list_all is_digit w" if "w \<in> set ws" for w
    using word [OF that] decimal_word_props(1-3) by blast
  ultimately show ?thesis using len by (simp add: quad_def Let_def list_all_iff)
qed

lemma quad_dotted: "g < 65536 \<Longrightarrow> h < 65536 \<Longrightarrow> quad (dotted g h) = Some (octets g h)"
  by (rule quad_written_quad [OF dotted_written])

lemma quad_written_first:
  assumes "quad_written g h q"
  obtains w r where "list_all is_digit w" "w \<noteq> []" "q = w @ CHR ''.'' # r"
proof -
  obtain ws where ws: "list_all2 decimal_word (octets g h) ws" "q = join_with ''.'' ws"
    using assms by (auto simp: quad_written_def)
  then obtain w v vs where "ws = w # v # vs" "decimal_word (g div 256) w"
    by (auto simp: octets_def list_all2_Cons1)
  then show thesis using that [of w] ws(2) decimal_word_props [of _ w] by simp
qed

lemma quad_not_here:
  assumes "CHR ''.'' \<notin> set p" "quad_written g h q"
  shows "quad (p @ CHR '':'' # q) = None"
proof -
  obtain w r where w: "list_all is_digit w" "q = w @ CHR ''.'' # r" by (rule quad_written_first [OF assms(2)])
  then have "CHR ''.'' \<notin> set w" by (auto simp: list_all_iff is_digit_def)
  then have "split_on (CHR ''.'') ((p @ CHR '':'' # w) @ CHR ''.'' # r)
      = (p @ CHR '':'' # w) # split_on (CHR ''.'') r"
    by (intro split_on_append) (simp add: assms(1))
  then show ?thesis by (simp add: w(2) quad_def Let_def is_digit_def)
qed

lemma quad_at_end_written:
  assumes "quad_written g h q" "CHR ''.'' \<notin> set p"
  shows "quad_at_end (p @ CHR '':'' # q) = Some (p @ '':'', octets g h)"
  using assms(2)
proof (induction p)
  case Nil
  obtain c r where "q = c # r" using quad_written_first [OF assms(1)] by (metis append_is_Nil_conv list.exhaust)
  then have "quad_at_end q = Some ([], octets g h)" using quad_written_quad [OF assms(1)] by simp
  then show ?case using quad_not_here [OF _ assms(1), of "[]"] by simp
next
  case (Cons c p)
  then show ?case using quad_not_here [OF _ assms(1), of "c # p"] by simp
qed

lemma quad_at_end_none: "CHR ''.'' \<notin> set s \<Longrightarrow> quad_at_end s = None"
proof (induction s)
  case (Cons c s)
  have "quad (c # s) = None" using split_on_none [OF Cons.prems] by (simp add: quad_def)
  then show ?case using Cons by simp
qed simp

lemma ipv6Hextets_written:
  assumes "written_as gs s"
  shows "ipv6Hextets s = Some gs"
proof -
  have ok: "groups_ok gs" using assms by (simp add: written_as_def)
  then have lt: "gs ! 6 < 65536" "gs ! 7 < 65536" by (auto simp: groups_ok_def list_all_length)
  consider (hex) "hex_written gs s"
    | (quad) p q where "s = p @ '':'' @ q" "quad_written (gs ! 6) (gs ! 7) q"
        "hex_written gs (p @ '':'' @ to_hex (gs ! 6) @ '':'' @ to_hex (gs ! 7))"
    using assms by (auto simp: written_as_def)
  then show ?thesis
  proof cases
    case hex
    then show ?thesis
      using quad_at_end_none [OF hex_written_no_dot] groups_of_written [OF ok] by (simp add: ipv6Hextets_def)
  next
    case quad
    have "CHR ''.'' \<notin> set p" using hex_written_no_dot [OF quad(3)] by simp
    moreover have "gs ! 6 div 256 \<le> 255" "gs ! 7 div 256 \<le> 255" using lt by linarith+
    moreover have "gs ! 6 mod 256 \<le> 255" "gs ! 7 mod 256 \<le> 255" by linarith+
    ultimately show ?thesis
      using quad_at_end_written [OF quad(2)] groups_of_written [OF ok quad(3)] quad(1)
      by (simp add: ipv6Hextets_def octets_def)
  qed
qed

section \<open>One key per client\<close>

text \<open>What the limiter's key says of the groups.\<close>

definition shown :: "nat list \<Rightarrow> string" where
  "shown gs = (if v4_mapped gs then dotted (gs ! 6) (gs ! 7)
               else join_with '':'' (map to_hex (take 4 gs)) @ ''::/64'')"

lemma dotted_no_colon: "CHR '':'' \<notin> set (dotted g h)"
  by (simp add: dotted_def octets_def decimal_no_special)

lemma colon_in_written: "written_as gs s \<Longrightarrow> CHR '':'' \<in> set s"
proof -
  assume w: "written_as gs s"
  then have "length gs = 8" by (simp add: written_as_def groups_ok_def)
  have "CHR '':'' \<in> set (join_with '':'' ws)" if "list_all2 hex_word gs ws" for ws
    using \<open>length gs = 8\<close> hex_word_list(4) [OF that] by (cases ws rule: remdups_adj.cases) simp_all
  then show ?thesis using w by (auto simp: written_as_def hex_written_def)
qed

lemma rateLimitAddress_shown:
  assumes "address_names gs a"
  shows "rateLimitAddress a = shown gs"
proof -
  let ?raw = "map to_lower (js_trim a)"
  consider (six) "written_as gs (takeWhile (\<lambda>c. c \<noteq> CHR ''%'') ?raw)"
    | (four) "v4_mapped gs" "?raw = dotted (gs ! 6) (gs ! 7)"
    using assms by (auto simp: address_names_def)
  then show ?thesis
  proof cases
    case six
    have "CHR '':'' \<in> set ?raw" using colon_in_written [OF six] set_takeWhileD by fastforce
    then show ?thesis
      using ipv6Hextets_written [OF six] by (simp add: rateLimitAddress_def Let_def shown_def dotted_def octets_def)
  next
    case four
    then show ?thesis using dotted_no_colon by (simp add: rateLimitAddress_def Let_def shown_def)
  qed
qed

lemma dotted_inj:
  assumes "g < 65536" "h < 65536" "g' < 65536" "h' < 65536" "dotted g h = dotted g' h'"
  shows "g = g' \<and> h = h'"
proof -
  have "g div 256 = g' div 256 \<and> g mod 256 = g' mod 256 \<and> h div 256 = h' div 256 \<and> h mod 256 = h' mod 256"
    using quad_dotted [OF assms(1,2)] quad_dotted [OF assms(3,4)] assms(5) by (simp add: octets_def)
  then show ?thesis by (metis mult_div_mod_eq)
qed

lemma hex_join_inj:
  assumes "join_with '':'' (map to_hex gs) @ r = join_with '':'' (map to_hex hs) @ r"
  shows "gs = hs"
proof -
  have "map to_hex gs = map to_hex hs"
    using colon_parts_join [OF hex_words_to_hex] assms by (metis append_same_eq)
  then show ?thesis by (metis list.map_comp list.map_id parse_all)
qed

lemma shown_inj:
  assumes "groups_ok gs" "groups_ok hs"
  shows "shown gs = shown hs \<longleftrightarrow> client_of gs = client_of hs"
proof -
  have eight: "drop 6 xs = [xs ! 6, xs ! 7]" "length (take 4 xs) = 4" if "groups_ok xs" for xs
    using that by (simp_all add: groups_ok_def Cons_nth_drop_Suc [symmetric])
  have lt: "xs ! 6 < 65536 \<and> xs ! 7 < 65536" if "groups_ok xs" for xs
    using that by (auto simp: groups_ok_def list_all_length)
  have no: "dotted g h \<noteq> w @ ''::/64''" for g h w using dotted_no_colon [of g h] by auto
  show ?thesis
  proof (cases "v4_mapped gs = v4_mapped hs")
    case True
    then show ?thesis
      using eight(1) [OF assms(1)] eight(1) [OF assms(2)] dotted_inj lt [OF assms(1)] lt [OF assms(2)]
        hex_join_inj
      by (cases "v4_mapped gs") (auto simp: shown_def client_of_def)
  next
    case False
    then have "shown gs \<noteq> shown hs" using no by (auto simp: shown_def) (metis no)
    moreover have "length (client_of gs) \<noteq> length (client_of hs)"
      using False eight assms by (auto simp: client_of_def groups_ok_def)
    ultimately show ?thesis by auto
  qed
qed

text \<open>C34. The limiter's key is the client: whatever notation of an IPv6 address, with or without
  zeros at the head of a group, a run of zero groups or an embedded IPv4 address, and whatever
  letter case or zone, two addresses share a key exactly when they carry the same IPv4 address or lie
  in the same network of 64 bits.\<close>

theorem rate_limit_key_is_the_client:
  assumes "address_names gs a" "address_names hs b"
  shows "rateLimitAddress a = rateLimitAddress b \<longleftrightarrow> client_of gs = client_of hs"
proof -
  have "groups_ok gs" "groups_ok hs" using assms by (auto simp: address_names_def written_as_def)
  then show ?thesis using assms rateLimitAddress_shown shown_inj by metis
qed

definition demo_net :: "nat list" where
  "demo_net = [8193, 3512, 1, 2, 43690, 0, 0, 1]"

definition demo_host :: "nat list" where
  "demo_host = [8193, 3512, 1, 2, 0, 0, 0, 5]"

definition demo_mapped :: "nat list" where
  "demo_mapped = [0, 0, 0, 0, 0, 65535, 50739, 25607]"

lemma names_hex:
  assumes "groups_ok gs" "hex_written gs (takeWhile (\<lambda>c. c \<noteq> CHR ''%'') (map to_lower (js_trim a)))"
  shows "address_names gs a"
  using assms by (simp add: address_names_def written_as_def)

lemma names_quad:
  assumes "groups_ok gs"
    and "takeWhile (\<lambda>c. c \<noteq> CHR ''%'') (map to_lower (js_trim a)) = p @ '':'' @ q" "quad_written (gs ! 6) (gs ! 7) q"
    and "hex_written gs (p @ '':'' @ to_hex (gs ! 6) @ '':'' @ to_hex (gs ! 7))"
  shows "address_names gs a"
  using assms unfolding address_names_def written_as_def by blast

lemma hex_written_full: "list_all2 hex_word gs ws \<Longrightarrow> s = join_with '':'' ws \<Longrightarrow> hex_written gs s"
  by (auto simp: hex_written_def)

lemma hex_written_short:
  assumes "gs = h @ replicate (8 - (length h + length t)) 0 @ t" "length h + length t < 8"
    and "list_all2 hex_word h hs" "list_all2 hex_word t ts" "s = join_with '':'' hs @ ''::'' @ join_with '':'' ts"
  shows "hex_written gs s"
  using assms unfolding hex_written_def by blast

text \<open>Whether a word stands for a number, computed.\<close>

lemma hex_word_code: "hex_word g w \<longleftrightarrow> length w \<le> 4 \<and> w = replicate (length w - length (to_hex g)) (CHR ''0'') @ to_hex g"
  by (auto simp: hex_word_def)

lemma decimal_word_code:
  "decimal_word n w \<longleftrightarrow> length w \<le> 3 \<and> w = replicate (length w - length (decimal n)) (CHR ''0'') @ decimal n"
  by (auto simp: decimal_word_def)

lemmas demo_hex = to_hex.simps hex_char_def digit_char_def char_of_def bit_iff_odd

lemma replicate_run: "replicate 2 x = [x, x]" "replicate 5 x = [x, x, x, x, x]"
  by (simp_all add: numeral_eq_Suc)

lemma demo_names:
  "address_names demo_net ''2001:DB8:1:2:aaaa::1%eth0''"
  "address_names demo_host '' 2001:0DB8:0001:0002:0:0:0:5''"
  "address_names demo_mapped ''198.51.100.7''"
  "address_names demo_mapped ''::ffff:198.051.100.7''"
proof -
  have lower: "takeWhile (\<lambda>c. c \<noteq> CHR ''%'') (map to_lower (js_trim ''2001:DB8:1:2:aaaa::1%eth0''))
      = ''2001:db8:1:2:aaaa::1''"
    "takeWhile (\<lambda>c. c \<noteq> CHR ''%'') (map to_lower (js_trim '' 2001:0DB8:0001:0002:0:0:0:5''))
      = ''2001:0db8:0001:0002:0:0:0:5''"
    "takeWhile (\<lambda>c. c \<noteq> CHR ''%'') (map to_lower (js_trim ''::ffff:198.051.100.7'')) = ''::ffff:198.051.100.7''"
    "map to_lower (js_trim ''198.51.100.7'') = ''198.51.100.7''"
    by code_simp+
  have ok: "groups_ok demo_net" "groups_ok demo_host" "groups_ok demo_mapped" "v4_mapped demo_mapped"
    by (simp_all add: groups_ok_def v4_mapped_def demo_net_def demo_host_def demo_mapped_def)
  have last: "dotted (demo_mapped ! 6) (demo_mapped ! 7) = ''198.51.100.7''"
    "to_hex (demo_mapped ! 6) = ''c633''" "to_hex (demo_mapped ! 7) = ''6407''"
    by (simp_all add: demo_mapped_def dotted_def octets_def decimal.simps demo_hex)
  show "address_names demo_net ''2001:DB8:1:2:aaaa::1%eth0''"
  proof (rule names_hex [OF ok(1)], unfold lower, rule hex_written_short)
    show "list_all2 hex_word [8193, 3512, 1, 2, 43690] [''2001'', ''db8'', ''1'', ''2'', ''aaaa'']"
      "list_all2 hex_word [1] [''1'']"
      by (simp_all add: hex_word_code demo_hex)
  qed (simp_all add: demo_net_def replicate_run)
  show "address_names demo_host '' 2001:0DB8:0001:0002:0:0:0:5''"
  proof (rule names_hex [OF ok(2)], unfold lower, rule hex_written_full)
    show "list_all2 hex_word demo_host [''2001'', ''0db8'', ''0001'', ''0002'', ''0'', ''0'', ''0'', ''5'']"
      by (simp add: demo_host_def hex_word_code demo_hex)
  qed simp
  show "address_names demo_mapped ''198.51.100.7''" using ok lower(4) last(1) by (simp only: address_names_def) blast
  have "quad_written (demo_mapped ! 6) (demo_mapped ! 7) ''198.051.100.7''"
  proof (unfold quad_written_def, intro exI conjI)
    show "list_all2 decimal_word (octets (demo_mapped ! 6) (demo_mapped ! 7)) [''198'', ''051'', ''100'', ''7'']"
      by (simp add: demo_mapped_def octets_def decimal_word_code decimal.simps demo_hex)
  qed simp
  then show "address_names demo_mapped ''::ffff:198.051.100.7''"
  proof (rule names_quad [OF ok(3), where p = "''::ffff''", rotated], unfold lower last)
    show "hex_written demo_mapped (''::ffff'' @ '':'' @ ''c633'' @ '':'' @ ''6407'')"
    proof (rule hex_written_short [where h = "[]" and hs = "[]"])
      show "list_all2 hex_word [65535, 50739, 25607] [''ffff'', ''c633'', ''6407'']"
        by (simp add: hex_word_code demo_hex)
    qed (simp_all add: demo_mapped_def replicate_run)
  qed simp
qed

lemma rate_limit_key_is_the_client_witness:
  "rateLimitAddress ''2001:DB8:1:2:aaaa::1%eth0'' = rateLimitAddress '' 2001:0DB8:0001:0002:0:0:0:5''
    \<and> rateLimitAddress ''::ffff:198.051.100.7'' = rateLimitAddress ''198.51.100.7''
    \<and> rateLimitAddress ''198.51.100.7'' \<noteq> rateLimitAddress '' 2001:0DB8:0001:0002:0:0:0:5''"
proof -
  have "client_of demo_net = client_of demo_host" "client_of demo_mapped \<noteq> client_of demo_host"
    by (simp_all add: client_of_def v4_mapped_def demo_net_def demo_host_def demo_mapped_def)
  then show ?thesis
    using rate_limit_key_is_the_client [OF demo_names(1,2)] rate_limit_key_is_the_client [OF demo_names(4,3)]
      rate_limit_key_is_the_client [OF demo_names(3,2)] by blast
qed

section \<open>Forged entries\<close>

lemma split_on_not_Nil [simp]: "split_on d s \<noteq> []"
  by (induction s) (auto split: list.splits)

lemma split_on_concat: "split_on d (xs @ d # ys) = split_on d xs @ split_on d ys"
  by (induction xs) (auto split: list.splits)

lemma forwarded_entries_append:
  "forwarded_entries (xs @ CHR '','' # ys) = forwarded_entries xs @ forwarded_entries ys"
  by (simp add: forwarded_entries_def split_on_concat)

text \<open>Forged entries are ignored: whatever a client wrote into the header, the address is the
  entry the deployment's own proxies appended at the configured place, and a client cannot
  leave the proxies' entries out of the count.\<close>

theorem forged_entries_are_ignored:
  assumes "0 < hops" "hops \<le> length (forwarded_entries appended)"
  shows "clientAddress (Some (forged @ '','' @ appended)) hops peer
      = Inr (forwarded_entries appended ! (length (forwarded_entries appended) - hops))
    \<and> clientAddress (Some (forged @ '','' @ appended)) hops peer = clientAddress (Some appended) hops peer"
proof -
  have "appended \<noteq> []" using assms by (auto simp: forwarded_entries_def js_trim_def)
  then show ?thesis
    using assms by (auto simp: clientAddress_def forwardedClientIp_def forwarded_entries_append nth_append Let_def)
qed

lemma forged_entries_are_ignored_witness:
  "clientAddress (Some (''6.6.6.6, 7.7.7.7'' @ '','' @ '' 198.51.100.7, 34.1.2.3'')) 2 None = Inr ''198.51.100.7''"
proof -
  have "forwarded_entries '' 198.51.100.7, 34.1.2.3'' = [''198.51.100.7'', ''34.1.2.3'']" by code_simp
  then show ?thesis
    using forged_entries_are_ignored [of 2 "'' 198.51.100.7, 34.1.2.3''" "''6.6.6.6, 7.7.7.7''" None] by simp
qed

end
