(* ===== verification/Journal_Marks.thy ===== *)
theory Journal_Marks
  imports Js_Strings "HOL-Library.Product_Lexorder" "HOL-Library.List_Lexorder" "HOL-Library.Char_ord"
begin

text \<open>
  The entity change journal (packages/query-api/src/change-journal.ts), first part: the rows,
  the filter a reader names, and the mark that proves a cached read fresh.  What Postgres does
  is modelled as its manual says: transaction ids, snapshots with the ids in flight, and a
  statement that reads the rows of the transactions its snapshot shows and of its own.  Text is
  ordered by character code.
\<close>

section \<open>Snapshots\<close>

record pg_snapshot =
  s_xmin :: nat
  s_xmax :: nat
  s_xip :: "nat list"

definition pg_visible_in_snapshot :: "nat \<Rightarrow> pg_snapshot \<Rightarrow> bool" where
  "pg_visible_in_snapshot x s = (x < s_xmin s \<or> (x < s_xmax s \<and> x \<notin> set (s_xip s)))"

definition snapshot_ok :: "pg_snapshot \<Rightarrow> bool" where
  "snapshot_ok s = (s_xmin s \<le> s_xmax s \<and> (\<forall>x \<in> set (s_xip s). s_xmin s \<le> x \<and> x < s_xmax s))"

section \<open>Journal rows\<close>

datatype change_op = Insert | Update | Delete | Truncate

record JournalChange =
  jc_xid :: nat
  jc_table :: string
  jc_rowId :: string
  jc_kind :: string
  jc_op :: change_op
  jc_changedColumns :: "string list option"
  jc_parentId :: "string option"
  jc_pluginId :: "string option"
  jc_chatBranchId :: "string option"
  jc_ownerChatSessionId :: "string option"
  jc_siteSnapshotId :: "string option"
  jc_prevSnapshotId :: "string option"
  jc_opName :: "string option"
  jc_createdAt :: int

type_synonym journal_key = "nat \<times> string \<times> string"

definition journal_key :: "JournalChange \<Rightarrow> journal_key" where
  "journal_key c = (jc_xid c, jc_table c, jc_rowId c)"

section \<open>Filters\<close>

record JournalFilter =
  jf_kinds :: "string list"
  jf_branchId :: "string option option"
  jf_unscopedKinds :: "string list"
  jf_unscopedOps :: "change_op list"
  jf_kindOps :: "(string \<times> change_op list) list"
  jf_columns :: "(string \<times> string list) list"
  jf_pluginIds :: "string list option"
  jf_pluginTables :: "string list option"
  jf_branchOnlyKinds :: "string list"

text \<open>Undefined lists of the source count as empty ones here: it tests both.  The branch is
  undefined, null or named.\<close>

definition named_branch :: "JournalFilter \<Rightarrow> string option" where
  "named_branch f = (case jf_branchId f of Some (Some b) \<Rightarrow> if b = [] then None else Some b | _ \<Rightarrow> None)"

fun op_text :: "change_op \<Rightarrow> string" where
  "op_text Insert = ''insert''"
| "op_text Update = ''update''"
| "op_text Delete = ''delete''"
| "op_text Truncate = ''truncate''"

definition ALL_OPS :: "change_op list" where
  "ALL_OPS = [Insert, Update, Delete, Truncate]"

record op_group =
  og_ops :: "change_op list"
  og_kinds :: "string list"

definition sorted_ops :: "JournalFilter \<Rightarrow> string \<Rightarrow> change_op list" where
  "sorted_ops f kind = sort_key op_text (case map_of (jf_kindOps f) kind of Some ops \<Rightarrow> ops | None \<Rightarrow> ALL_OPS)"

definition ops_key :: "change_op list \<Rightarrow> string" where
  "ops_key ops = join_with '','' (map op_text ops)"

definition add_to_group ::
  "JournalFilter \<Rightarrow> string \<Rightarrow> (string \<times> op_group) list \<Rightarrow> (string \<times> op_group) list" where
  "add_to_group f kind groups =
     (if kind \<in> set (jf_branchOnlyKinds f) \<and> named_branch f = None then groups
      else (let ops = sorted_ops f kind;
                g = (case js_get groups (ops_key ops) of
                       Some g \<Rightarrow> g | None \<Rightarrow> \<lparr>og_ops = ops, og_kinds = []\<rparr>)
            in js_set (ops_key ops) (g\<lparr>og_kinds := og_kinds g @ [kind]\<rparr>) groups))"

definition op_groups :: "JournalFilter \<Rightarrow> (string \<times> op_group) list" where
  "op_groups f = fold (add_to_group f) (jf_kinds f) []"

definition group_counts :: "op_group \<Rightarrow> JournalChange \<Rightarrow> bool" where
  "group_counts g c =
     (if length (og_ops g) = length ALL_OPS then jc_kind c \<in> set (og_kinds g)
      else if Insert \<in> set (og_ops g) then jc_kind c \<in> set (og_kinds g) \<and> jc_op c \<in> set (og_ops g)
      else jc_kind c \<in> set (og_kinds g) \<and> jc_op c \<in> set (og_ops g) \<and> jc_op c \<noteq> Insert)"

definition kindOpsSql :: "JournalFilter \<Rightarrow> JournalChange \<Rightarrow> bool" where
  "kindOpsSql f c = list_ex (\<lambda>(k, g). group_counts g c) (op_groups f)"

definition branch_only_counts :: "JournalFilter \<Rightarrow> JournalChange \<Rightarrow> bool" where
  "branch_only_counts f c =
     (case named_branch f of
        None \<Rightarrow> True
      | Some b \<Rightarrow>
          jf_branchOnlyKinds f = [] \<or> jc_kind c \<notin> set (jf_branchOnlyKinds f)
          \<or> jc_chatBranchId c = Some b \<or> jc_op c \<in> set (jf_unscopedOps f))"

definition branch_counts :: "JournalFilter \<Rightarrow> JournalChange \<Rightarrow> bool" where
  "branch_counts f c =
     (case jf_branchId f of
        None \<Rightarrow> True
      | Some b \<Rightarrow>
          jc_kind c \<in> set (jf_unscopedKinds f) \<or> jc_op c \<in> set (jf_unscopedOps f)
          \<or> jc_chatBranchId c = None \<or> (b \<noteq> None \<and> jc_chatBranchId c = b))"

definition columns_count :: "JournalFilter \<Rightarrow> JournalChange \<Rightarrow> bool" where
  "columns_count f c =
     list_all (\<lambda>(kind, columns).
        jc_kind c \<noteq> kind \<or> jc_op c \<noteq> Update
        \<or> (case jc_changedColumns c of None \<Rightarrow> True | Some cs \<Rightarrow> list_ex (\<lambda>x. x \<in> set columns) cs))
       (jf_columns f)"

text \<open>A null never equals an element of an array.\<close>

definition among :: "string option \<Rightarrow> string list \<Rightarrow> bool" where
  "among v xs = (case v of Some x \<Rightarrow> x \<in> set xs | None \<Rightarrow> False)"

definition plugin_counts :: "JournalFilter \<Rightarrow> JournalChange \<Rightarrow> bool" where
  "plugin_counts f c =
     (case jf_pluginIds f of
        None \<Rightarrow> True
      | Some ids \<Rightarrow>
          jc_kind c \<notin> {''plugin_storage'', ''plugin_row'', ''plugin_file''} \<or> among (jc_pluginId c) ids)"

definition storage_table :: "JournalChange \<Rightarrow> string option" where
  "storage_table c =
     (if jc_kind c = ''plugin_row'' then jc_parentId c
      else Some (case split_on (CHR ''.'') (jc_table c) of _ # t # _ \<Rightarrow> t | _ \<Rightarrow> []))"

definition table_counts :: "JournalFilter \<Rightarrow> JournalChange \<Rightarrow> bool" where
  "table_counts f c =
     (case jf_pluginTables f of
        None \<Rightarrow> True
      | Some tables \<Rightarrow>
          jc_kind c \<notin> {''plugin_storage'', ''plugin_row''} \<or> among (storage_table c) tables)"

definition filterSql :: "JournalFilter \<Rightarrow> JournalChange \<Rightarrow> bool" where
  "filterSql f c =
     (kindOpsSql f c \<and> branch_only_counts f c \<and> branch_counts f c \<and> columns_count f c
      \<and> plugin_counts f c \<and> table_counts f c)"

text \<open>Grouping the kinds by their operations counts what asking kind by kind counts.\<close>

lemma op_text_inj: "op_text a = op_text b \<longleftrightarrow> a = b"
  by (cases a; cases b) simp_all

lemma op_text_no_comma: "CHR '','' \<notin> set (op_text a)"
  by (cases a) simp_all

lemma ops_key_inj: "ops_key xs = ops_key ys \<longleftrightarrow> xs = ys"
proof
  have split: "split_on (CHR '','') (ops_key zs) = map op_text zs" if "zs \<noteq> []" for zs
    using that by (simp add: ops_key_def split_join op_text_no_comma)
  have ne: "ops_key zs \<noteq> []" if "zs \<noteq> []" for zs
  proof
    assume "ops_key zs = []"
    then have "map op_text zs = [[]]" using split [OF that] by simp
    then show False by (cases zs; cases "hd zs") auto
  qed
  assume eq: "ops_key xs = ops_key ys"
  show "xs = ys"
  proof (cases "xs = [] \<or> ys = []")
    case True
    have "ops_key [] = []" by (simp add: ops_key_def)
    then show ?thesis using True eq ne by metis
  next
    case False
    then have "map op_text xs = map op_text ys" using eq split by metis
    then show ?thesis by (metis op_text_inj injI inj_map_eq_map)
  qed
qed simp

definition kind_read :: "JournalFilter \<Rightarrow> string \<Rightarrow> bool" where
  "kind_read f kind = (\<not> (kind \<in> set (jf_branchOnlyKinds f) \<and> named_branch f = None))"

definition groups_ok :: "JournalFilter \<Rightarrow> string set \<Rightarrow> (string \<times> op_group) list \<Rightarrow> bool" where
  "groups_ok f ks groups =
     (js_map_ok groups
      \<and> (\<forall>key g. js_get groups key = Some g \<longrightarrow> key = ops_key (og_ops g)
          \<and> set (og_kinds g) = {k \<in> ks. kind_read f k \<and> sorted_ops f k = og_ops g})
      \<and> (\<forall>k \<in> ks. kind_read f k \<longrightarrow> js_get groups (ops_key (sorted_ops f k)) \<noteq> None))"

lemma groups_okD:
  assumes "groups_ok f ks groups" "js_get groups key = Some g"
  shows "key = ops_key (og_ops g)"
    and "set (og_kinds g) = {k \<in> ks. kind_read f k \<and> sorted_ops f k = og_ops g}"
  using assms by (auto simp: groups_ok_def)

lemma groups_ok_add:
  assumes "groups_ok f ks groups"
  shows "groups_ok f (insert k ks) (add_to_group f k groups)"
proof (cases "kind_read f k")
  case False
  then have "add_to_group f k groups = groups" by (simp add: add_to_group_def kind_read_def)
  then show ?thesis using assms False by (fastforce simp: groups_ok_def)
next
  case True
  let ?ops = "sorted_ops f k"
  let ?g = "case js_get groups (ops_key ?ops) of Some g \<Rightarrow> g | None \<Rightarrow> \<lparr>og_ops = ?ops, og_kinds = []\<rparr>"
  have add: "add_to_group f k groups = js_set (ops_key ?ops) (?g\<lparr>og_kinds := og_kinds ?g @ [k]\<rparr>) groups"
    using True by (simp only: add_to_group_def kind_read_def Let_def) auto
  have g: "og_ops ?g = ?ops" "set (og_kinds ?g) = {k' \<in> ks. kind_read f k' \<and> sorted_ops f k' = ?ops}"
  proof -
    show "og_ops ?g = ?ops"
      using groups_okD(1) [OF assms, of "ops_key ?ops"]
      by (cases "js_get groups (ops_key ?ops)") (simp_all add: ops_key_inj)
    show "set (og_kinds ?g) = {k' \<in> ks. kind_read f k' \<and> sorted_ops f k' = ?ops}"
    proof (cases "js_get groups (ops_key ?ops)")
      case (Some g)
      then have "og_ops g = ?ops" using groups_okD(1) [OF assms Some] by (simp add: ops_key_inj)
      then show ?thesis using groups_okD(2) [OF assms Some] Some by simp
    next
      case None
      then show ?thesis using assms by (auto simp: groups_ok_def)
    qed
  qed
  obtain G where G: "?g = G" by blast
  let ?G = "G\<lparr>og_kinds := og_kinds G @ [k]\<rparr>"
  have new: "add_to_group f k groups = js_set (ops_key ?ops) ?G groups" using add G by simp
  have one: "ops_key ?ops = ops_key (og_ops ?G)"
    "set (og_kinds ?G) = {k' \<in> insert k ks. kind_read f k' \<and> sorted_ops f k' = og_ops ?G}"
    using g True unfolding G by auto
  have other: "key = ops_key (og_ops h)"
    "set (og_kinds h) = {k' \<in> insert k ks. kind_read f k' \<and> sorted_ops f k' = og_ops h}"
    if "key \<noteq> ops_key ?ops" "js_get groups key = Some h" for key h
    using groups_okD [OF assms that(2)] that(1) by auto
  show ?thesis
    unfolding groups_ok_def new js_map_simps
  proof (intro conjI allI impI ballI)
    show "js_map_ok (js_set (ops_key ?ops) ?G groups)"
      using assms by (simp add: groups_ok_def js_map_ok_set)
  next
    fix key h assume h: "(if key = ops_key ?ops then Some ?G else js_get groups key) = Some h"
    consider "key = ops_key ?ops" "h = ?G" | "key \<noteq> ops_key ?ops" "js_get groups key = Some h"
      using h by (cases "key = ops_key ?ops") simp_all
    then have "key = ops_key (og_ops h)
        \<and> set (og_kinds h) = {k' \<in> insert k ks. kind_read f k' \<and> sorted_ops f k' = og_ops h}"
    proof cases
      case 1
      then show ?thesis using one by blast
    next
      case 2
      then show ?thesis using other by blast
    qed
    then show "key = ops_key (og_ops h)"
      "set (og_kinds h) = {k' \<in> insert k ks. kind_read f k' \<and> sorted_ops f k' = og_ops h}" by blast+
  next
    fix k' assume "k' \<in> insert k ks" "kind_read f k'"
    then show "(if ops_key (sorted_ops f k') = ops_key ?ops then Some ?G
        else js_get groups (ops_key (sorted_ops f k'))) \<noteq> None"
      using assms by (auto simp: groups_ok_def)
  qed
qed

lemma op_groups_ok: "groups_ok f (set (jf_kinds f)) (op_groups f)"
proof -
  have "groups_ok f ks groups \<Longrightarrow> groups_ok f (ks \<union> set kinds) (fold (add_to_group f) kinds groups)" for kinds ks groups
  proof (induction kinds arbitrary: ks groups)
    case (Cons k kinds)
    then show ?case using Cons.IH [OF groups_ok_add [OF Cons.prems, of k]] by simp
  qed simp
  from this [of "{}" "[]"] show ?thesis by (simp add: op_groups_def groups_ok_def js_map_ok_def js_get_nil)
qed

lemma all_ops:
  fixes ops :: "change_op list"
  assumes "distinct ops" "length ops = length ALL_OPS"
  shows "op \<in> set ops"
proof -
  have sub: "set ops \<subseteq> set ALL_OPS" using change_op.exhaust by (auto simp: ALL_OPS_def)
  have "distinct ALL_OPS" by (simp add: ALL_OPS_def)
  then have "card (set ops) = card (set ALL_OPS)" using assms by (simp only: distinct_card)
  then have "set ops = set ALL_OPS" using sub by (intro card_subset_eq) simp_all
  moreover have "op \<in> set ALL_OPS" by (cases op) (simp_all add: ALL_OPS_def)
  ultimately show ?thesis by simp
qed

lemma kindOpsSql_iff:
  assumes "\<forall>(k, ops) \<in> set (jf_kindOps f). distinct ops"
  shows "kindOpsSql f c \<longleftrightarrow> jc_kind c \<in> set (jf_kinds f) \<and> kind_read f (jc_kind c)
    \<and> jc_op c \<in> set (sorted_ops f (jc_kind c))"
proof -
  have counts: "group_counts g c \<longleftrightarrow> jc_kind c \<in> set (og_kinds g) \<and> jc_op c \<in> set (og_ops g)"
    if "distinct (og_ops g)" for g
    using all_ops [OF that] by (auto simp: group_counts_def)
  have dist: "distinct (sorted_ops f k)" for k
    using assms by (fastforce simp: sorted_ops_def ALL_OPS_def split: option.splits dest: map_of_SomeD)
  have ok: "groups_ok f (set (jf_kinds f)) (op_groups f)" by (rule op_groups_ok)
  have "kindOpsSql f c \<longleftrightarrow> (\<exists>key g. js_get (op_groups f) key = Some g \<and> group_counts g c)"
    using ok by (auto simp: kindOpsSql_def list_ex_iff js_get_in groups_ok_def)
  also have "\<dots> \<longleftrightarrow> (\<exists>key g. js_get (op_groups f) key = Some g \<and> jc_kind c \<in> set (og_kinds g) \<and> jc_op c \<in> set (og_ops g))"
  proof -
    have some: "distinct (og_ops g)" if "js_get (op_groups f) key = Some g" "jc_kind c \<in> set (og_kinds g)" for key g
    proof -
      have "sorted_ops f (jc_kind c) = og_ops g" using groups_okD(2) [OF ok that(1)] that(2) by simp
      then show ?thesis using dist by metis
    qed
    moreover have "jc_kind c \<in> set (og_kinds g)" if "group_counts g c" for g
      using that by (auto simp: group_counts_def split: if_splits)
    ultimately show ?thesis using counts by blast
  qed
  also have "\<dots> \<longleftrightarrow> jc_kind c \<in> set (jf_kinds f) \<and> kind_read f (jc_kind c) \<and> jc_op c \<in> set (sorted_ops f (jc_kind c))"
    (is "?l = ?r")
  proof
    show "?l \<Longrightarrow> ?r" using groups_okD(2) [OF ok] by auto
    assume r: ?r
    then obtain g where g: "js_get (op_groups f) (ops_key (sorted_ops f (jc_kind c))) = Some g"
      using ok unfolding groups_ok_def by auto
    then have "og_ops g = sorted_ops f (jc_kind c)" using groups_okD(1) [OF ok g] by (simp add: ops_key_inj)
    then have "jc_kind c \<in> set (og_kinds g) \<and> jc_op c \<in> set (og_ops g)"
      using groups_okD(2) [OF ok g] r by simp
    then show ?l using g by blast
  qed
  finally show ?thesis .
qed

section \<open>The database\<close>

text \<open>A garbage collection that committed: its transaction and its horizon.\<close>

type_synonym horizon_row = "nat \<times> nat"

record consumer_row =
  cr_pluginId :: "string option"
  cr_cursor :: pg_snapshot
  cr_rebuild_pending :: bool
  cr_page_target :: "pg_snapshot option"
  cr_page_after :: "journal_key option"
  cr_claimed_by :: "string option"
  cr_claim_expires_at :: "int option"

text \<open>The rows of transactions that are running or committed; the rows of an aborted one are gone.
  jd_collected remembers the rows garbage collection deleted: no operation reads it.\<close>

record journal_db =
  jd_rows :: "JournalChange list"
  jd_collected :: "JournalChange list"
  jd_running :: "nat list"
  jd_next :: nat
  jd_horizons :: "horizon_row list"
  jd_consumers :: "(string \<times> consumer_row) list"

text \<open>One past the highest completed transaction id.\<close>

fun completed_below :: "nat list \<Rightarrow> nat \<Rightarrow> nat" where
  "completed_below running 0 = 0"
| "completed_below running (Suc n) = (if n \<in> set running then completed_below running n else Suc n)"

text \<open>A transaction's own id counts in the xmin, not among the ids in flight.\<close>

definition pg_current_snapshot :: "nat option \<Rightarrow> journal_db \<Rightarrow> pg_snapshot" where
  "pg_current_snapshot own d =
     (let xmax = completed_below (jd_running d) (jd_next d)
      in \<lparr>s_xmin = fold min (jd_running d) xmax, s_xmax = xmax,
          s_xip = filter (\<lambda>x. x < xmax \<and> Some x \<noteq> own) (jd_running d)\<rparr>)"

definition readable :: "nat option \<Rightarrow> journal_db \<Rightarrow> JournalChange \<Rightarrow> bool" where
  "readable own d c =
     (pg_visible_in_snapshot (jc_xid c) (pg_current_snapshot own d) \<or> Some (jc_xid c) = own)"

definition entity_changes :: "nat option \<Rightarrow> journal_db \<Rightarrow> JournalChange list" where
  "entity_changes own d = filter (readable own d) (jd_rows d)"

section \<open>Marks\<close>

definition unseenRows :: "pg_snapshot \<Rightarrow> nat option \<Rightarrow> JournalChange list \<Rightarrow> JournalChange list" where
  "unseenRows s withOwn rows =
     filter (\<lambda>c. s_xmax s \<le> jc_xid c) rows @ filter (\<lambda>c. jc_xid c \<in> set (s_xip s)) rows
     @ filter (\<lambda>c. Some (jc_xid c) = withOwn) rows"

record JournalMark =
  jm_snapshot :: pg_snapshot
  jm_ownXid :: "nat option"
  jm_dirty :: bool

record JournalCheck =
  ck_fresh :: bool
  ck_mark :: JournalMark

definition past_horizon :: "pg_snapshot \<Rightarrow> journal_db \<Rightarrow> bool" where
  "past_horizon s d = list_ex (\<lambda>(gc, h). s_xmin s \<le> h) (jd_horizons d)"

definition mark_fresh :: "nat option \<Rightarrow> journal_db \<Rightarrow> pg_snapshot \<Rightarrow> nat option \<Rightarrow> JournalFilter \<Rightarrow> bool" where
  "mark_fresh own d s markedOwn f =
     (let r = pg_current_snapshot own d
      in s_xmax s \<le> s_xmax r
         \<and> \<not> list_ex (\<lambda>x. x < s_xmax s \<and> pg_visible_in_snapshot x s) (s_xip r)
         \<and> \<not> list_ex (\<lambda>c. (\<not> pg_visible_in_snapshot (jc_xid c) s \<or> Some (jc_xid c) = markedOwn) \<and> filterSql f c)
              (unseenRows s markedOwn (entity_changes own d))
         \<and> \<not> past_horizon s d)"

definition checkJournalMark ::
  "nat option \<Rightarrow> journal_db \<Rightarrow> (pg_snapshot \<times> nat option) option \<Rightarrow> JournalFilter \<Rightarrow> JournalCheck" where
  "checkJournalMark own d cached f =
     \<lparr>ck_fresh = (case cached of None \<Rightarrow> False | Some (s, markedOwn) \<Rightarrow> mark_fresh own d s markedOwn f),
      ck_mark = \<lparr>jm_snapshot = pg_current_snapshot own d, jm_ownXid = own,
                 jm_dirty = list_ex (\<lambda>c. Some (jc_xid c) = own \<and> filterSql f c) (entity_changes own d)\<rparr>\<rparr>"

section \<open>Transactions\<close>

text \<open>A transaction begins with its first write; its rows are merged by key.\<close>

definition write_row :: "JournalChange \<Rightarrow> journal_db \<Rightarrow> journal_db" where
  "write_row c d = d\<lparr>jd_rows := filter (\<lambda>r. journal_key r \<noteq> journal_key c) (jd_rows d) @ [c]\<rparr>"

definition end_transaction :: "nat \<Rightarrow> journal_db \<Rightarrow> journal_db" where
  "end_transaction x d = d\<lparr>jd_running := filter (\<lambda>y. y \<noteq> x) (jd_running d)\<rparr>"

definition abort_transaction :: "nat \<Rightarrow> journal_db \<Rightarrow> journal_db" where
  "abort_transaction x d =
     end_transaction x (d\<lparr>jd_rows := filter (\<lambda>r. jc_xid r \<noteq> x) (jd_rows d)\<rparr>)"

section \<open>Garbage collection\<close>

definition JOURNAL_RETENTION_MS :: int where "JOURNAL_RETENTION_MS = 24 * 60 * 60 * 1000"

definition JOURNAL_STALLED_CONSUMER_MS :: int where
  "JOURNAL_STALLED_CONSUMER_MS = 7 * 24 * 60 * 60 * 1000"

text \<open>A consumer is stalled when its first undelivered row is older than the window.\<close>

definition stalled :: "int \<Rightarrow> int \<Rightarrow> JournalChange list \<Rightarrow> consumer_row \<Rightarrow> bool" where
  "stalled now stalledSecs rows c =
     (case sort_key jc_xid (filter (\<lambda>p. s_xmin (cr_cursor c) \<le> jc_xid p
                              \<and> \<not> pg_visible_in_snapshot (jc_xid p) (cr_cursor c)) rows) of
        [] \<Rightarrow> False
      | p # _ \<Rightarrow> jc_createdAt p < now - stalledSecs * 1000)"

definition held_xmins :: "int \<Rightarrow> int \<Rightarrow> JournalChange list \<Rightarrow> (string \<times> consumer_row) list \<Rightarrow> nat list" where
  "held_xmins now stalledSecs rows consumers =
     map (\<lambda>(n, c). s_xmin (cr_cursor c)) (filter (\<lambda>(n, c). \<not> stalled now stalledSecs rows c) consumers)"

definition gc_victims ::
  "int \<Rightarrow> int \<Rightarrow> int \<Rightarrow> nat \<Rightarrow> (JournalChange \<Rightarrow> bool) \<Rightarrow> journal_db \<Rightarrow> JournalChange list" where
  "gc_victims now retentionSecs stalledSecs batch row_locked d =
     (let rows = entity_changes None d;
          held = held_xmins now stalledSecs rows (jd_consumers d)
      in take batch (sort_key jc_xid (filter (\<lambda>c. jc_createdAt c < now - retentionSecs * 1000
           \<and> jc_xid c < s_xmin (pg_current_snapshot None d)
           \<and> (held = [] \<or> jc_xid c < Min (set held))
           \<and> \<not> row_locked c) rows)))"

text \<open>The transaction takes an id of its own; only the newest horizon stays.\<close>

definition collectJournalGarbage ::
  "int \<Rightarrow> int \<Rightarrow> int \<Rightarrow> nat \<Rightarrow> (JournalChange \<Rightarrow> bool) \<Rightarrow> journal_db \<Rightarrow> nat \<times> journal_db" where
  "collectJournalGarbage now retentionMs stalledMs batch row_locked d =
     (let victims = gc_victims now (retentionMs div 1000) (stalledMs div 1000) batch row_locked d;
          horizons = (if victims = [] then jd_horizons d
                      else jd_horizons d @ [(jd_next d, Max (set (map jc_xid victims)))])
      in (length victims,
          d\<lparr>jd_rows := filter (\<lambda>c. journal_key c \<notin> set (map journal_key victims)) (jd_rows d),
            jd_collected := jd_collected d @ victims,
            jd_next := Suc (jd_next d),
            jd_horizons := filter (\<lambda>(gc, h). \<not> h < Max (set (map snd horizons))) horizons\<rparr>))"

text \<open>What the database goes through, consumers apart.\<close>

inductive journal_step :: "journal_db \<Rightarrow> journal_db \<Rightarrow> bool" where
  Began: "journal_step d (d\<lparr>jd_running := jd_next d # jd_running d, jd_next := Suc (jd_next d)\<rparr>)"
| Wrote: "jc_xid c \<in> set (jd_running d) \<Longrightarrow> journal_step d (write_row c d)"
| Ended: "x \<in> set (jd_running d) \<Longrightarrow> journal_step d (end_transaction x d)"
| Aborted: "x \<in> set (jd_running d) \<Longrightarrow> journal_step d (abort_transaction x d)"
| Collected: "journal_step d (snd (collectJournalGarbage now retentionMs stalledMs batch row_locked d))"
| Consumers: "journal_step d (d\<lparr>jd_consumers := cs\<rparr>)"

abbreviation journal_later :: "journal_db \<Rightarrow> journal_db \<Rightarrow> bool" where
  "journal_later \<equiv> journal_step\<^sup>*\<^sup>*"

section \<open>What a snapshot shows\<close>

definition completed :: "journal_db \<Rightarrow> nat \<Rightarrow> bool" where
  "completed d x = (x < jd_next d \<and> x \<notin> set (jd_running d))"

lemma unseen_exact:
  assumes "snapshot_ok s"
  shows "\<not> pg_visible_in_snapshot x s \<longleftrightarrow> s_xmax s \<le> x \<or> x \<in> set (s_xip s)"
  using assms by (auto simp: snapshot_ok_def pg_visible_in_snapshot_def)

text \<open>Reading the two index ranges reads exactly the rows the snapshot does not show, and those of
  the marked transaction.\<close>

lemma unseenRows_set:
  assumes "snapshot_ok s"
  shows "set (unseenRows s markedOwn rows)
    = {c \<in> set rows. \<not> pg_visible_in_snapshot (jc_xid c) s \<or> Some (jc_xid c) = markedOwn}"
  using unseen_exact [OF assms] by (auto simp: unseenRows_def)

lemma completed_below_le: "completed_below running n \<le> n"
  by (induction n) auto

lemma completed_below_running: "completed_below running n \<le> x \<Longrightarrow> x < n \<Longrightarrow> x \<in> set running"
  by (induction n) (auto simp: less_Suc_eq split: if_splits)

lemma fold_min_le: "fold min xs (m :: nat) \<le> m \<and> (\<forall>x \<in> set xs. fold min xs m \<le> x)"
proof (induction xs arbitrary: m)
  case (Cons x xs)
  have "fold min xs (min x m) \<le> min x m" "\<forall>y \<in> set xs. fold min xs (min x m) \<le> y"
    using Cons [of "min x m"] by simp_all
  then show ?case by simp
qed simp

lemma snapshot_xmin:
  "s_xmin (pg_current_snapshot own d) \<le> s_xmax (pg_current_snapshot own d)"
  "x \<in> set (jd_running d) \<Longrightarrow> s_xmin (pg_current_snapshot own d) \<le> x"
  using fold_min_le [of "jd_running d" "completed_below (jd_running d) (jd_next d)"]
  by (simp_all add: pg_current_snapshot_def Let_def)

lemma current_snapshot_ok: "snapshot_ok (pg_current_snapshot own d)"
  using snapshot_xmin [where own = own and d = d]
  by (auto simp: snapshot_ok_def) (auto simp: pg_current_snapshot_def Let_def)

lemma visible_now:
  "pg_visible_in_snapshot x (pg_current_snapshot own d)
    \<longleftrightarrow> completed d x \<or> (Some x = own \<and> x < s_xmax (pg_current_snapshot own d))"
proof -
  let ?s = "pg_current_snapshot own d"
  have max: "s_xmax ?s = completed_below (jd_running d) (jd_next d)"
    by (simp add: pg_current_snapshot_def Let_def)
  have xip: "x \<in> set (s_xip ?s) \<longleftrightarrow> x \<in> set (jd_running d) \<and> x < s_xmax ?s \<and> Some x \<noteq> own"
    by (auto simp: pg_current_snapshot_def Let_def)
  have "completed d x \<Longrightarrow> x < s_xmax ?s"
    using completed_below_running [of "jd_running d" "jd_next d" x] max
    by (auto simp: completed_def not_less [symmetric])
  moreover have "x < s_xmax ?s \<Longrightarrow> x < jd_next d"
    using completed_below_le [of "jd_running d" "jd_next d"] max by simp
  moreover have "pg_visible_in_snapshot x ?s \<longleftrightarrow> x < s_xmax ?s \<and> x \<notin> set (s_xip ?s)"
    using unseen_exact [OF current_snapshot_ok] not_less by blast
  ultimately show ?thesis using xip by (auto simp: completed_def)
qed

corollary visible_completed: "pg_visible_in_snapshot x (pg_current_snapshot None d) = completed d x"
  by (simp add: visible_now)

lemma readable_iff: "readable own d c \<longleftrightarrow> completed d (jc_xid c) \<or> Some (jc_xid c) = own"
  by (auto simp: readable_def visible_now)

section \<open>The invariant of the database\<close>

text \<open>The changes ever made, the collected ones included.\<close>

definition changes :: "journal_db \<Rightarrow> JournalChange set" where
  "changes d = set (jd_rows d) \<union> set (jd_collected d)"

definition journal_ok :: "journal_db \<Rightarrow> bool" where
  "journal_ok d =
     ((\<forall>x \<in> set (jd_running d). x < jd_next d)
      \<and> (\<forall>c \<in> set (jd_rows d). jc_xid c < jd_next d)
      \<and> distinct (map journal_key (jd_rows d))
      \<and> (\<forall>c \<in> set (jd_collected d). completed d (jc_xid c) \<and> (\<exists>(gc, h) \<in> set (jd_horizons d). jc_xid c \<le> h)))"

lemma gc_victims_sub:
  "set (gc_victims now rs ss batch row_locked d)
    \<subseteq> {c \<in> set (jd_rows d). completed d (jc_xid c) \<and> jc_xid c < s_xmin (pg_current_snapshot None d)
         \<and> (\<forall>n r. (n, r) \<in> set (jd_consumers d) \<longrightarrow> \<not> stalled now ss (entity_changes None d) r
              \<longrightarrow> jc_xid c < s_xmin (cr_cursor r))}"
proof
  fix c assume "c \<in> set (gc_victims now rs ss batch row_locked d)"
  then have c: "c \<in> set (entity_changes None d)" "jc_xid c < s_xmin (pg_current_snapshot None d)"
    "held_xmins now ss (entity_changes None d) (jd_consumers d) = []
      \<or> jc_xid c < Min (set (held_xmins now ss (entity_changes None d) (jd_consumers d)))"
    by (auto simp: gc_victims_def Let_def dest!: in_set_takeD)
  have "jc_xid c < s_xmin (cr_cursor r)"
    if r: "(n, r) \<in> set (jd_consumers d)" "\<not> stalled now ss (entity_changes None d) r" for n r
  proof -
    have "s_xmin (cr_cursor r) \<in> set (held_xmins now ss (entity_changes None d) (jd_consumers d))"
      using r unfolding held_xmins_def by force
    then have "Min (set (held_xmins now ss (entity_changes None d) (jd_consumers d))) \<le> s_xmin (cr_cursor r)"
      "held_xmins now ss (entity_changes None d) (jd_consumers d) \<noteq> []"
      by (auto intro: Min_le)
    moreover from this have "jc_xid c < Min (set (held_xmins now ss (entity_changes None d) (jd_consumers d)))"
      using c(3) by blast
    ultimately show ?thesis by (meson less_le_trans)
  qed
  then show "c \<in> {c \<in> set (jd_rows d). completed d (jc_xid c) \<and> jc_xid c < s_xmin (pg_current_snapshot None d)
         \<and> (\<forall>n r. (n, r) \<in> set (jd_consumers d) \<longrightarrow> \<not> stalled now ss (entity_changes None d) r
              \<longrightarrow> jc_xid c < s_xmin (cr_cursor r))}"
    using c by (simp add: entity_changes_def readable_iff)
qed

lemma newest_horizon:
  assumes "(gc, h) \<in> set hs" "x \<le> h"
  shows "\<exists>(gc, h) \<in> set (filter (\<lambda>(gc, h). \<not> h < Max (set (map snd hs))) hs). x \<le> h"
proof -
  have "hs \<noteq> []" using assms(1) by auto
  then have "Max (set (map snd hs)) \<in> set (map snd hs)" by (intro Max_in) simp_all
  then obtain g where "(g, Max (set (map snd hs))) \<in> set hs" by auto
  moreover have "h \<le> Max (set (map snd hs))" using assms(1) by (intro Max_ge) force+
  ultimately show ?thesis using assms(2) by fastforce
qed

lemma collect_fields:
  "jd_running (snd (collectJournalGarbage now rm sm batch lk d)) = jd_running d"
  "jd_next (snd (collectJournalGarbage now rm sm batch lk d)) = Suc (jd_next d)"
  "jd_consumers (snd (collectJournalGarbage now rm sm batch lk d)) = jd_consumers d"
  "jd_collected (snd (collectJournalGarbage now rm sm batch lk d))
    = jd_collected d @ gc_victims now (rm div 1000) (sm div 1000) batch lk d"
  "jd_rows (snd (collectJournalGarbage now rm sm batch lk d))
    = filter (\<lambda>c. journal_key c \<notin> journal_key ` set (gc_victims now (rm div 1000) (sm div 1000) batch lk d)) (jd_rows d)"
  by (simp_all add: collectJournalGarbage_def Let_def)

lemma collected_changes:
  assumes "distinct (map journal_key (jd_rows d))"
  shows "changes (snd (collectJournalGarbage now rm sm batch lk d)) = changes d"
proof -
  let ?v = "set (gc_victims now (rm div 1000) (sm div 1000) batch lk d)"
  have "c \<in> ?v" if "c \<in> set (jd_rows d)" "journal_key c \<in> journal_key ` ?v" for c
    using that gc_victims_sub [of now "rm div 1000" "sm div 1000" batch lk d] assms
    by (auto simp: distinct_map dest!: inj_onD)
  then show ?thesis
    using gc_victims_sub [of now "rm div 1000" "sm div 1000" batch lk d]
    by (auto simp: changes_def collect_fields)
qed

lemma collected_horizons:
  assumes "c \<in> set (jd_collected d) \<Longrightarrow> \<exists>(gc, h) \<in> set (jd_horizons d). jc_xid c \<le> h"
    and "c \<in> set (jd_collected (snd (collectJournalGarbage now rm sm batch lk d)))"
  shows "\<exists>(gc, h) \<in> set (jd_horizons (snd (collectJournalGarbage now rm sm batch lk d))). jc_xid c \<le> h"
proof -
  let ?v = "gc_victims now (rm div 1000) (sm div 1000) batch lk d"
  let ?hs = "if ?v = [] then jd_horizons d else jd_horizons d @ [(jd_next d, Max (set (map jc_xid ?v)))]"
  have "\<exists>(gc, h) \<in> set ?hs. jc_xid c \<le> h"
  proof (cases "c \<in> set ?v")
    case True
    then have "?v \<noteq> []" "jc_xid c \<le> Max (set (map jc_xid ?v))" by (auto intro: Max_ge)
    then show ?thesis by auto
  next
    case False
    then show ?thesis using assms by (fastforce simp: collect_fields)
  qed
  then obtain gc h where "(gc, h) \<in> set ?hs" "jc_xid c \<le> h" by blast
  then show ?thesis
    using newest_horizon [where hs = ?hs] by (auto simp: collectJournalGarbage_def Let_def)
qed

lemma completed_step:
  assumes "journal_step d d'" "completed d x"
  shows "completed d' x"
  using assms
  by (induction rule: journal_step.induct)
    (auto simp: completed_def write_row_def end_transaction_def abort_transaction_def collect_fields)

lemma journal_ok_step:
  assumes "journal_step d d'" "journal_ok d"
  shows "journal_ok d'"
  using assms
proof (induction rule: journal_step.induct)
  case (Collected d now retentionMs stalledMs batch row_locked)
  let ?d = "snd (collectJournalGarbage now retentionMs stalledMs batch row_locked d)"
  have "completed d (jc_xid c)" if "c \<in> set (jd_collected ?d)" for c
    using that Collected gc_victims_sub [of now "retentionMs div 1000" "stalledMs div 1000" batch row_locked d]
    by (auto simp: journal_ok_def collect_fields)
  then have "completed ?d (jc_xid c)" if "c \<in> set (jd_collected ?d)" for c
    using that unfolding completed_def collect_fields by (blast intro: less_SucI)
  moreover have "\<exists>(gc, h) \<in> set (jd_horizons ?d). jc_xid c \<le> h" if "c \<in> set (jd_collected ?d)" for c
    using collected_horizons [OF _ that] Collected by (auto simp: journal_ok_def)
  ultimately show ?case
    using Collected by (auto simp: journal_ok_def collect_fields distinct_map_filter less_Suc_eq)
next
  case (Wrote c d)
  then show ?case
    by (auto simp: journal_ok_def write_row_def completed_def distinct_map_filter)
next
  case (Began d)
  then show ?case by (fastforce simp: journal_ok_def completed_def)
next
  case (Ended x d)
  then show ?case by (fastforce simp: journal_ok_def completed_def end_transaction_def)
next
  case (Aborted x d)
  then show ?case
    by (fastforce simp: journal_ok_def completed_def end_transaction_def abort_transaction_def distinct_map_filter)
next
  case (Consumers d cs)
  then show ?case by (auto simp: journal_ok_def completed_def)
qed

text \<open>The changes of a transaction that ended never change.\<close>

lemma changes_step:
  assumes "journal_step d d'" "journal_ok d" "completed d (jc_xid c)"
  shows "c \<in> changes d' \<longleftrightarrow> c \<in> changes d"
  using assms
proof (induction rule: journal_step.induct)
  case (Collected d now retentionMs stalledMs batch row_locked)
  then show ?case using collected_changes by (simp add: journal_ok_def)
next
  case (Wrote c' d)
  then show ?case by (auto simp: changes_def write_row_def completed_def journal_key_def)
next
  case (Aborted x d)
  then show ?case by (auto simp: changes_def abort_transaction_def end_transaction_def completed_def)
qed (simp_all add: changes_def end_transaction_def)

lemma journal_later_props:
  assumes "journal_later d d'" "journal_ok d"
  shows "journal_ok d' \<and> (\<forall>x. completed d x \<longrightarrow> completed d' x)
    \<and> (\<forall>c. completed d (jc_xid c) \<longrightarrow> (c \<in> changes d' \<longleftrightarrow> c \<in> changes d))"
  using assms
proof (induction rule: rtranclp_induct)
  case (step d' d'')
  then show ?case using journal_ok_step completed_step changes_step by metis
qed simp

lemmas journal_later_ok = journal_later_props [THEN conjunct1]
lemmas journal_later_completed = journal_later_props [THEN conjunct2, THEN conjunct1, rule_format]
lemmas journal_later_changes = journal_later_props [THEN conjunct2, THEN conjunct2, rule_format]

section \<open>Fresh marks\<close>

text \<open>What a reader's filtered read rests on: the changes it can see, those collected since included.\<close>

definition seen_changes :: "nat option \<Rightarrow> journal_db \<Rightarrow> JournalFilter \<Rightarrow> JournalChange set" where
  "seen_changes own d f = {c \<in> changes d. filterSql f c \<and> readable own d c}"

lemma past_horizon_no:
  assumes "journal_ok d" "\<not> past_horizon s d" "c \<in> set (jd_collected d)"
  shows "jc_xid c < s_xmin s"
  using assms by (fastforce simp: journal_ok_def past_horizon_def list_ex_iff)

lemma mark_freshD:
  assumes "mark_fresh own d s markedOwn f" "snapshot_ok s" "journal_ok d"
    and "c \<in> changes d" "readable own d c" "filterSql f c"
  shows "c \<in> set (jd_rows d) \<and> pg_visible_in_snapshot (jc_xid c) s \<and> Some (jc_xid c) \<noteq> markedOwn
    \<or> jc_xid c < s_xmin s"
proof (cases "c \<in> set (jd_rows d)")
  case True
  then have "c \<in> set (entity_changes own d)" using assms(5) by (simp add: entity_changes_def)
  then have "\<not> (\<not> pg_visible_in_snapshot (jc_xid c) s \<or> Some (jc_xid c) = markedOwn)"
    using assms(1,6) unseenRows_set [OF assms(2), of markedOwn "entity_changes own d"]
    unfolding mark_fresh_def Let_def list_ex_iff by auto
  then show ?thesis using True by simp
next
  case False
  then have "c \<in> set (jd_collected d)" using assms(4) by (simp add: changes_def)
  then show ?thesis using past_horizon_no [OF assms(3)] assms(1) by (simp add: mark_fresh_def Let_def)
qed

lemma mark_fresh_completed:
  assumes "mark_fresh own d s markedOwn f" "pg_visible_in_snapshot x s" "snapshot_ok s" "own = None"
  shows "completed d x"
proof -
  let ?r = "pg_current_snapshot own d"
  have x: "x < s_xmax s" using assms(2,3) unseen_exact not_less by blast
  then have "x \<notin> set (s_xip ?r)" "x < s_xmax ?r"
    using assms(1,2) by (auto simp: mark_fresh_def Let_def list_ex_iff)
  then have "pg_visible_in_snapshot x ?r" by (simp add: pg_visible_in_snapshot_def)
  then show ?thesis using assms(4) by (simp add: visible_completed)
qed

lemma seen_sub_marked:
  assumes ok: "journal_ok d1" "journal_ok d2"
    and order: "journal_later d1 d2 \<or> (journal_later d2 d1 \<and> own2 = None)"
    and own1: "\<forall>x. own1 = Some x \<longrightarrow> x \<in> set (jd_running d1)"
    and fresh: "mark_fresh own2 d2 (pg_current_snapshot own1 d1) own1 f"
  shows "seen_changes own2 d2 f \<subseteq> {c \<in> changes d1. filterSql f c \<and> completed d1 (jc_xid c)}"
proof
  fix c assume "c \<in> seen_changes own2 d2 f"
  then have c: "c \<in> changes d2" "filterSql f c" "readable own2 d2 c" by (auto simp: seen_changes_def)
  let ?s = "pg_current_snapshot own1 d1"
  have "pg_visible_in_snapshot (jc_xid c) ?s \<and> Some (jc_xid c) \<noteq> own1"
    using mark_freshD [OF fresh current_snapshot_ok ok(2) c(1,3,2)]
  proof
    assume low: "jc_xid c < s_xmin ?s"
    then have "Some (jc_xid c) \<noteq> own1" using own1 snapshot_xmin(2) by (metis not_less)
    with low show ?thesis by (simp add: pg_visible_in_snapshot_def)
  qed simp
  then have fin: "completed d1 (jc_xid c)" by (auto simp: visible_now)
  have "c \<in> changes d1"
    using order
  proof
    assume "journal_later d1 d2"
    then show ?thesis using journal_later_changes [OF _ ok(1)] fin c(1) by blast
  next
    assume l: "journal_later d2 d1 \<and> own2 = None"
    then have "completed d2 (jc_xid c)" using c(3) by (simp add: readable_iff)
    then show ?thesis using journal_later_changes [OF _ ok(2)] l c(1) by blast
  qed
  then show "c \<in> {c \<in> changes d1. filterSql f c \<and> completed d1 (jc_xid c)}" using fin c(2) by simp
qed

lemma marked_sub_seen:
  assumes ok: "journal_ok d1" "journal_ok d2"
    and order: "journal_later d1 d2 \<or> (journal_later d2 d1 \<and> own2 = None)"
    and fresh: "mark_fresh own2 d2 (pg_current_snapshot own1 d1) own1 f"
  shows "{c \<in> changes d1. filterSql f c \<and> completed d1 (jc_xid c)} \<subseteq> seen_changes own2 d2 f"
proof
  fix c assume "c \<in> {c \<in> changes d1. filterSql f c \<and> completed d1 (jc_xid c)}"
  then have c: "c \<in> changes d1" "filterSql f c" "completed d1 (jc_xid c)" by auto
  have "completed d2 (jc_xid c) \<and> c \<in> changes d2"
    using order
  proof
    assume "journal_later d1 d2"
    then show ?thesis using journal_later_completed journal_later_changes ok(1) c by blast
  next
    assume l: "journal_later d2 d1 \<and> own2 = None"
    then have "completed d2 (jc_xid c)"
      using mark_fresh_completed [OF fresh _ current_snapshot_ok] c(3) by (simp add: visible_now)
    then show ?thesis using journal_later_changes [OF _ ok(2)] l c(1) by blast
  qed
  then show "c \<in> seen_changes own2 d2 f" using c(2) by (simp add: seen_changes_def readable_iff)
qed

lemma clean_mark_seen:
  assumes "journal_ok d" "\<forall>x. own = Some x \<longrightarrow> x \<in> set (jd_running d)"
    and "\<not> jm_dirty (ck_mark (checkJournalMark own d cached f))"
  shows "seen_changes own d f = {c \<in> changes d. filterSql f c \<and> completed d (jc_xid c)}"
proof -
  have "completed d (jc_xid c)" if "c \<in> changes d" "filterSql f c" "readable own d c" for c
  proof (rule ccontr)
    assume n: "\<not> completed d (jc_xid c)"
    then have "Some (jc_xid c) = own" "c \<in> set (jd_rows d)"
      using that assms(1) by (auto simp: readable_iff changes_def journal_ok_def)
    then have "jm_dirty (ck_mark (checkJournalMark own d cached f))"
      using that(2,3) by (auto simp: checkJournalMark_def list_ex_iff entity_changes_def)
    then show False using assms(3) by simp
  qed
  then show ?thesis by (auto simp: seen_changes_def readable_iff)
qed

text \<open>C9. A mark proved fresh tells the truth: the filtered read under a clean mark saw exactly the
  changes a reader sees now, also when the reader's snapshot is older than the mark, when the
  marked transaction wrote on, and when garbage was collected in between; and every read by a
  plain reader between the two saw the same.\<close>

theorem fresh_mark_reads_the_same:
  assumes "journal_ok d1" "journal_ok d2"
    and "journal_later d1 d2 \<or> (journal_later d2 d1 \<and> own2 = None)"
    and "\<forall>x. own1 = Some x \<longrightarrow> x \<in> set (jd_running d1)"
    and "m = ck_mark (checkJournalMark own1 d1 cached f)" "\<not> jm_dirty m"
    and "ck_fresh (checkJournalMark own2 d2 (Some (jm_snapshot m, jm_ownXid m)) f)"
  shows "seen_changes own2 d2 f = seen_changes own1 d1 f
    \<and> (\<forall>d. journal_later d1 d \<and> journal_later d d2 \<longrightarrow> seen_changes None d f = seen_changes own1 d1 f)"
proof -
  have fresh: "mark_fresh own2 d2 (pg_current_snapshot own1 d1) own1 f"
    using assms(5,7) by (simp add: checkJournalMark_def)
  have one: "seen_changes own1 d1 f = {c \<in> changes d1. filterSql f c \<and> completed d1 (jc_xid c)}"
    using clean_mark_seen [OF assms(1,4)] assms(5,6) by blast
  have two: "seen_changes own2 d2 f = seen_changes own1 d1 f"
    using seen_sub_marked [OF assms(1-4) fresh] marked_sub_seen [OF assms(1-3) fresh] one by blast
  have "seen_changes None d f = seen_changes own1 d1 f" if "journal_later d1 d" "journal_later d d2" for d
  proof -
    have "seen_changes own1 d1 f \<subseteq> seen_changes None d f"
      unfolding one using journal_later_completed [OF that(1) assms(1)] journal_later_changes [OF that(1) assms(1)]
      by (auto simp: seen_changes_def readable_iff)
    moreover have "seen_changes None d f \<subseteq> seen_changes own2 d2 f"
      using journal_later_completed [OF that(2)] journal_later_changes [OF that(2)] journal_later_ok [OF that(1) assms(1)]
      by (auto simp: seen_changes_def readable_iff)
    ultimately show ?thesis using two by blast
  qed
  with two show ?thesis by blast
qed

section \<open>An example\<close>

definition demo_change :: "nat \<Rightarrow> string option \<Rightarrow> JournalChange" where
  "demo_change x b =
     \<lparr>jc_xid = x, jc_table = ''pages'', jc_rowId = ''home'', jc_kind = ''page'', jc_op = Update,
      jc_changedColumns = None, jc_parentId = None, jc_pluginId = None, jc_chatBranchId = b,
      jc_ownerChatSessionId = None, jc_siteSnapshotId = None, jc_prevSnapshotId = None, jc_opName = None,
      jc_createdAt = 0\<rparr>"

definition demo_consumer :: consumer_row where
  "demo_consumer =
     \<lparr>cr_pluginId = Some ''p'', cr_cursor = \<lparr>s_xmin = 3, s_xmax = 3, s_xip = []\<rparr>, cr_rebuild_pending = False,
      cr_page_target = None, cr_page_after = None, cr_claimed_by = None, cr_claim_expires_at = None\<rparr>"

definition demo_journal :: journal_db where
  "demo_journal =
     \<lparr>jd_rows = [demo_change 4 (Some ''b''), demo_change 3 None], jd_collected = [], jd_running = [5], jd_next = 6,
      jd_horizons = [], jd_consumers = [(''plugin:p'', demo_consumer)]\<rparr>"

text \<open>Transaction 5 writes a change of another kind and commits.\<close>

definition demo_later :: journal_db where
  "demo_later = end_transaction 5 (write_row ((demo_change 5 None)\<lparr>jc_kind := ''theme''\<rparr>) demo_journal)"

definition demo_filter :: JournalFilter where
  "demo_filter =
     \<lparr>jf_kinds = [''page''], jf_branchId = None, jf_unscopedKinds = [], jf_unscopedOps = [], jf_kindOps = [],
      jf_columns = [], jf_pluginIds = None, jf_pluginTables = None, jf_branchOnlyKinds = []\<rparr>"

lemma demo_journal_ok: "journal_ok demo_journal"
  by (simp add: journal_ok_def demo_journal_def journal_key_def demo_change_def)

lemma demo_journal_later: "journal_later demo_journal demo_later"
proof -
  have "journal_step demo_journal (write_row ((demo_change 5 None)\<lparr>jc_kind := ''theme''\<rparr>) demo_journal)"
    by (rule journal_step.Wrote) (simp add: demo_journal_def demo_change_def)
  moreover have "journal_step (write_row ((demo_change 5 None)\<lparr>jc_kind := ''theme''\<rparr>) demo_journal) demo_later"
    unfolding demo_later_def by (rule journal_step.Ended) (simp add: demo_journal_def write_row_def)
  ultimately show ?thesis by simp
qed

lemma fresh_mark_reads_the_same_witness:
  "seen_changes None demo_later demo_filter = seen_changes None demo_journal demo_filter
    \<and> demo_change 3 None \<in> seen_changes None demo_later demo_filter"
proof -
  let ?m = "ck_mark (checkJournalMark None demo_journal None demo_filter)"
  have "journal_ok demo_later" using journal_later_ok [OF demo_journal_later demo_journal_ok] .
  moreover have "\<not> jm_dirty ?m" "ck_fresh (checkJournalMark None demo_later (Some (jm_snapshot ?m, jm_ownXid ?m)) demo_filter)"
    by code_simp+
  ultimately have "seen_changes None demo_later demo_filter = seen_changes None demo_journal demo_filter"
    using fresh_mark_reads_the_same [OF demo_journal_ok _ _ _ refl, of demo_later None None None demo_filter]
      demo_journal_later by blast
  moreover have "demo_change 3 None \<in> changes demo_journal \<and> filterSql demo_filter (demo_change 3 None)
      \<and> readable None demo_journal (demo_change 3 None)"
    unfolding changes_def by code_simp
  ultimately show ?thesis by (simp add: seen_changes_def)
qed

end
