(* ===== verification/Change_Journal.thy ===== *)
theory Change_Journal
  imports Journal_Marks Ttl_Lease
begin

text \<open>
  The entity change journal (packages/query-api/src/change-journal.ts), second part: the
  persisted consumers with their cursors, pages, rebuilds and claims.  A call is one statement
  of its own transaction; the order of the calls of several instances is the order of the steps.
\<close>

section \<open>Reading\<close>

datatype journal_error =
    Bad_limit
  | Unknown_consumer string
  | Token_unreadable string
  | Token_of_other string
  | Cursor_moved string
  | Rebuild_claim_lost string
  | Bad_lease

record journal_read =
  jr_changes :: "JournalChange list"
  jr_target :: pg_snapshot
  jr_needsRebuild :: bool
  jr_more :: bool

definition after_key :: "journal_key option \<Rightarrow> JournalChange \<Rightarrow> bool" where
  "after_key after c = (case after of None \<Rightarrow> True | Some k \<Rightarrow> k < journal_key c)"

text \<open>The rows a read pages through, in order.\<close>

definition unread_rows ::
  "journal_db \<Rightarrow> pg_snapshot \<Rightarrow> pg_snapshot \<Rightarrow> journal_key option \<Rightarrow> JournalFilter \<Rightarrow> JournalChange list" where
  "unread_rows d cursor target after f =
     sort_key journal_key (filter (\<lambda>c. \<not> pg_visible_in_snapshot (jc_xid c) cursor
        \<and> pg_visible_in_snapshot (jc_xid c) target \<and> after_key after c \<and> filterSql f c)
       (unseenRows cursor None (entity_changes None d)))"

definition read_target :: "journal_db \<Rightarrow> pg_snapshot option \<Rightarrow> pg_snapshot" where
  "read_target d target = (case target of Some t \<Rightarrow> t | None \<Rightarrow> pg_current_snapshot None d)"

definition readChanges ::
  "journal_db \<Rightarrow> pg_snapshot \<Rightarrow> pg_snapshot option \<Rightarrow> journal_key option \<Rightarrow> JournalFilter \<Rightarrow> int
   \<Rightarrow> (journal_error, journal_read) result" where
  "readChanges d cursor target after f limit =
     (if limit < 1 \<or> 5000 < limit then Inl Bad_limit
      else (let t = read_target d target;
                raw = take (nat limit + 1) (unread_rows d cursor t after f)
            in if past_horizon cursor d
               then Inr \<lparr>jr_changes = [], jr_target = t, jr_needsRebuild = True, jr_more = False\<rparr>
               else Inr \<lparr>jr_changes = take (nat limit) raw, jr_target = t, jr_needsRebuild = False,
                         jr_more = (nat limit < length raw)\<rparr>))"

section \<open>Consumers\<close>

text \<open>A token as it is read back: text that is no JSON, or the fields.\<close>

record Token =
  ct_v :: int
  ct_name :: string
  ct_from :: pg_snapshot
  ct_cursor :: pg_snapshot
  ct_target :: "pg_snapshot option"
  ct_after :: "journal_key option"

datatype token_text = Not_json | Token_json Token

record ChangeBatch =
  cb_changes :: "JournalChange list"
  cb_token :: token_text
  cb_more :: bool
  cb_needsRebuild :: bool

definition registerConsumer :: "journal_db \<Rightarrow> string \<Rightarrow> string option \<Rightarrow> bool \<times> journal_db" where
  "registerConsumer d name pluginId =
     (case js_get (jd_consumers d) name of
        Some _ \<Rightarrow> (False, d)
      | None \<Rightarrow> (True, d\<lparr>jd_consumers := js_set name
          \<lparr>cr_pluginId = pluginId, cr_cursor = pg_current_snapshot None d, cr_rebuild_pending = True,
           cr_page_target = None, cr_page_after = None, cr_claimed_by = None, cr_claim_expires_at = None\<rparr>
          (jd_consumers d)\<rparr>))"

definition beginConsumerRebuild :: "journal_db \<Rightarrow> string \<Rightarrow> (journal_error, journal_db) result" where
  "beginConsumerRebuild d name =
     (case js_get (jd_consumers d) name of
        None \<Rightarrow> Inl (Unknown_consumer name)
      | Some r \<Rightarrow> Inr (d\<lparr>jd_consumers := js_set name
          (r\<lparr>cr_cursor := pg_current_snapshot None d, cr_page_target := None, cr_page_after := None,
             cr_rebuild_pending := True\<rparr>) (jd_consumers d)\<rparr>))"

definition claimHeld :: "int \<Rightarrow> string option \<Rightarrow> consumer_row \<Rightarrow> bool" where
  "claimHeld now holder r =
     (case holder of
        None \<Rightarrow> True
      | Some h \<Rightarrow> cr_claimed_by r = Some h \<and> (case cr_claim_expires_at r of Some e \<Rightarrow> now \<le> e | None \<Rightarrow> False))"

definition finishConsumerRebuild ::
  "int \<Rightarrow> journal_db \<Rightarrow> string \<Rightarrow> string option \<Rightarrow> (journal_error, journal_db) result" where
  "finishConsumerRebuild now d name holder =
     (case js_get (jd_consumers d) name of
        Some r \<Rightarrow>
          if claimHeld now holder r
          then Inr (d\<lparr>jd_consumers := js_set name (r\<lparr>cr_rebuild_pending := False\<rparr>) (jd_consumers d)\<rparr>)
          else Inl (Rebuild_claim_lost name)
      | None \<Rightarrow> Inl (if holder = None then Unknown_consumer name else Rebuild_claim_lost name))"

definition consumerRebuildPending :: "journal_db \<Rightarrow> string \<Rightarrow> (journal_error, bool) result" where
  "consumerRebuildPending d name =
     (case js_get (jd_consumers d) name of
        None \<Rightarrow> Inl (Unknown_consumer name) | Some r \<Rightarrow> Inr (cr_rebuild_pending r))"

definition consumerClaimExpiresInMs :: "int \<Rightarrow> journal_db \<Rightarrow> string \<Rightarrow> int option" where
  "consumerClaimExpiresInMs now d name =
     (case js_get (jd_consumers d) name of
        None \<Rightarrow> None
      | Some r \<Rightarrow> (case cr_claim_expires_at r of None \<Rightarrow> None | Some e \<Rightarrow> Some (max 0 (e - now))))"

definition consumerCursorContinuous :: "journal_db \<Rightarrow> string \<Rightarrow> bool" where
  "consumerCursorContinuous d name =
     (case js_get (jd_consumers d) name of
        None \<Rightarrow> False | Some r \<Rightarrow> \<not> cr_rebuild_pending r \<and> \<not> past_horizon (cr_cursor r) d)"

definition dropConsumers :: "journal_db \<Rightarrow> string \<Rightarrow> nat \<times> journal_db" where
  "dropConsumers d pluginId =
     (let gone = filter (\<lambda>(n, r). cr_pluginId r = Some pluginId) (jd_consumers d)
      in (length gone, d\<lparr>jd_consumers := filter (\<lambda>(n, r). cr_pluginId r \<noteq> Some pluginId) (jd_consumers d)\<rparr>))"

text \<open>Where a consumer stands; the three columns of the last row read are one key.\<close>

record ConsumerState =
  con_cursor :: pg_snapshot
  con_target :: "pg_snapshot option"
  con_after :: "journal_key option"

definition loadConsumer :: "journal_db \<Rightarrow> string \<Rightarrow> (journal_error, ConsumerState) result" where
  "loadConsumer d name =
     (case js_get (jd_consumers d) name of
        None \<Rightarrow> Inl (Unknown_consumer name)
      | Some r \<Rightarrow> Inr \<lparr>con_cursor = cr_cursor r, con_target = cr_page_target r, con_after = cr_page_after r\<rparr>)"

text \<open>The second statement of a poll reads with a snapshot of its own.\<close>

definition poll_from ::
  "journal_db \<Rightarrow> string \<Rightarrow> ConsumerState \<Rightarrow> JournalFilter \<Rightarrow> int \<Rightarrow> (journal_error, ChangeBatch) result" where
  "poll_from d name state f limit =
     then_result (readChanges d (con_cursor state) (con_target state) (con_after state) f limit)
       (\<lambda>read.
         (let changes = jr_changes read;
              after = (if changes = [] then con_after state else Some (journal_key (last changes)));
              token = (if jr_more read
                       then \<lparr>ct_v = 1, ct_name = name, ct_from = con_cursor state, ct_cursor = con_cursor state,
                             ct_target = Some (jr_target read), ct_after = after\<rparr>
                       else \<lparr>ct_v = 1, ct_name = name, ct_from = con_cursor state, ct_cursor = jr_target read,
                             ct_target = None, ct_after = None\<rparr>)
          in Inr \<lparr>cb_changes = changes, cb_token = Token_json token, cb_more = jr_more read,
                  cb_needsRebuild = jr_needsRebuild read\<rparr>))"

definition pollChanges ::
  "journal_db \<Rightarrow> string \<Rightarrow> JournalFilter \<Rightarrow> int \<Rightarrow> (journal_error, ChangeBatch) result" where
  "pollChanges d name f limit = then_result (loadConsumer d name) (\<lambda>state. poll_from d name state f limit)"

definition commitChanges ::
  "int \<Rightarrow> journal_db \<Rightarrow> string \<Rightarrow> token_text \<Rightarrow> string option \<Rightarrow> (journal_error, journal_db) result" where
  "commitChanges now d name token holder =
     (case token of
        Not_json \<Rightarrow> Inl (Token_unreadable name)
      | Token_json parsed \<Rightarrow>
          if ct_v parsed \<noteq> 1 \<or> ct_name parsed \<noteq> name then Inl (Token_of_other (ct_name parsed))
          else (case js_get (jd_consumers d) name of
                  Some r \<Rightarrow>
                    if cr_cursor r = ct_from parsed \<and> claimHeld now holder r
                    then Inr (d\<lparr>jd_consumers := js_set name
                      (r\<lparr>cr_cursor := ct_cursor parsed, cr_page_target := ct_target parsed,
                         cr_page_after := ct_after parsed\<rparr>) (jd_consumers d)\<rparr>)
                    else Inl (Cursor_moved name)
                | None \<Rightarrow> Inl (Cursor_moved name)))"

text \<open>A claim another transaction is writing counts as held.\<close>

definition claimConsumer ::
  "int \<Rightarrow> bool \<Rightarrow> journal_db \<Rightarrow> string \<Rightarrow> string \<Rightarrow> int \<Rightarrow> (journal_error, bool \<times> journal_db) result" where
  "claimConsumer now row_locked d name holder leaseMs =
     (if leaseMs < 1000 then Inl Bad_lease
      else (case js_get (jd_consumers d) name of
              None \<Rightarrow> Inr (False, d)
            | Some r \<Rightarrow>
                if row_locked \<or> \<not> (cr_claimed_by r = None \<or> cr_claimed_by r = Some holder
                      \<or> (case cr_claim_expires_at r of Some e \<Rightarrow> e < now | None \<Rightarrow> False))
                then Inr (False, d)
                else Inr (True, d\<lparr>jd_consumers := js_set name
                       (r\<lparr>cr_claimed_by := Some holder, cr_claim_expires_at := Some (now + leaseMs)\<rparr>)
                       (jd_consumers d)\<rparr>)))"

definition releaseConsumer :: "journal_db \<Rightarrow> string \<Rightarrow> string \<Rightarrow> journal_db" where
  "releaseConsumer d name holder =
     (case js_get (jd_consumers d) name of
        Some r \<Rightarrow>
          if cr_claimed_by r = Some holder
          then d\<lparr>jd_consumers := js_set name (r\<lparr>cr_claimed_by := None, cr_claim_expires_at := None\<rparr>) (jd_consumers d)\<rparr>
          else d
      | None \<Rightarrow> d)"

definition currentJournalCursor :: "journal_db \<Rightarrow> pg_snapshot" where
  "currentJournalCursor d = pg_current_snapshot None d"

end
