(* ===== verification/Journal_Delivery.thy ===== *)
theory Journal_Delivery
  imports Change_Journal
begin

text \<open>
  What the journal promises its consumers: no change is skipped however several instances poll
  and commit, a drain delivers each change once and in order, garbage collection spares the
  consumers that keep up, and a claim protects its holder.
\<close>

section \<open>One consumer's feed\<close>

text \<open>Several instances may have loaded the consumer's place and hold batches polled from it.  A batch is processed before its
  token is committed, and a batch that asks for a rebuild is never committed (the runner in
  packages/plugin-host/src/change-consumers.ts rebuilds instead).\<close>

record feed =
  fd_db :: journal_db
  fd_start :: pg_snapshot
  fd_done :: "JournalChange set"
  fd_loaded :: "ConsumerState list"
  fd_open :: "ChangeBatch list"

definition same_place :: "string \<Rightarrow> journal_db \<Rightarrow> journal_db \<Rightarrow> bool" where
  "same_place name d d' =
     (\<exists>r r'. js_get (jd_consumers d) name = Some r \<and> js_get (jd_consumers d') name = Some r'
        \<and> cr_cursor r' = cr_cursor r \<and> cr_page_target r' = cr_page_target r \<and> cr_page_after r' = cr_page_after r)"

inductive feed_step :: "string \<Rightarrow> JournalFilter \<Rightarrow> feed \<Rightarrow> feed \<Rightarrow> bool" for name f where
  Database: "journal_step (fd_db w) d \<Longrightarrow> same_place name (fd_db w) d \<Longrightarrow> feed_step name f w (w\<lparr>fd_db := d\<rparr>)"
| Loaded: "loadConsumer (fd_db w) name = Inr state
    \<Longrightarrow> feed_step name f w (w\<lparr>fd_loaded := state # fd_loaded w\<rparr>)"
| Polled: "state \<in> set (fd_loaded w) \<Longrightarrow> poll_from (fd_db w) name state f limit = Inr b
    \<Longrightarrow> \<not> cb_needsRebuild b
    \<Longrightarrow> feed_step name f w (w\<lparr>fd_open := b # fd_open w\<rparr>)"
| Committed: "b \<in> set (fd_open w) \<Longrightarrow> commitChanges now (fd_db w) name (cb_token b) holder = Inr d
    \<Longrightarrow> feed_step name f w (w\<lparr>fd_db := d, fd_done := fd_done w \<union> set (cb_changes b)\<rparr>)"
| Rebuilding: "beginConsumerRebuild (fd_db w) name = Inr d
    \<Longrightarrow> feed_step name f w (w\<lparr>fd_db := d, fd_start := pg_current_snapshot None (fd_db w)\<rparr>)"

inductive feed_reachable :: "string \<Rightarrow> JournalFilter \<Rightarrow> feed \<Rightarrow> bool" for name f where
  registered: "journal_ok d \<Longrightarrow> registerConsumer d name pluginId = (True, d')
    \<Longrightarrow> feed_reachable name f \<lparr>fd_db = d', fd_start = pg_current_snapshot None d, fd_done = {},
      fd_loaded = [], fd_open = []\<rparr>"
| feed_steps: "feed_reachable name f w \<Longrightarrow> feed_step name f w w' \<Longrightarrow> feed_reachable name f w'"

section \<open>Places in the journal\<close>

text \<open>A snapshot taken by now.\<close>

definition taken :: "journal_db \<Rightarrow> pg_snapshot \<Rightarrow> bool" where
  "taken d s = (snapshot_ok s \<and> (\<forall>x. pg_visible_in_snapshot x s \<longrightarrow> completed d x))"

definition covered ::
  "journal_db \<Rightarrow> JournalFilter \<Rightarrow> pg_snapshot \<Rightarrow> JournalChange set \<Rightarrow> pg_snapshot \<Rightarrow> journal_key option \<Rightarrow> bool" where
  "covered d f start seen s k =
     (\<forall>c \<in> changes d. filterSql f c \<longrightarrow> pg_visible_in_snapshot (jc_xid c) s
        \<longrightarrow> \<not> pg_visible_in_snapshot (jc_xid c) start
        \<longrightarrow> (case k of None \<Rightarrow> True | Some k \<Rightarrow> journal_key c \<le> k) \<longrightarrow> c \<in> seen)"

definition place_ok ::
  "journal_db \<Rightarrow> JournalFilter \<Rightarrow> pg_snapshot \<Rightarrow> JournalChange set
   \<Rightarrow> pg_snapshot \<Rightarrow> pg_snapshot option \<Rightarrow> journal_key option \<Rightarrow> bool" where
  "place_ok d f start seen cursor target after =
     (taken d cursor \<and> covered d f start seen cursor None
      \<and> (case target of
           None \<Rightarrow> after = None
         | Some t \<Rightarrow> taken d t \<and> after \<noteq> None \<and> covered d f start seen t after))"

lemma taken_now: "taken d (pg_current_snapshot None d)"
  by (simp add: taken_def current_snapshot_ok visible_completed)

lemma taken_step: "journal_step d d' \<Longrightarrow> taken d s \<Longrightarrow> taken d' s"
  using completed_step by (auto simp: taken_def)

lemma covered_step:
  assumes "journal_step d d'" "journal_ok d" "taken d s" "covered d f start seen s k"
  shows "covered d' f start seen s k"
  using assms changes_step [OF assms(1,2)] by (auto simp: covered_def taken_def)

lemma covered_more: "covered d f start seen s k \<Longrightarrow> seen \<subseteq> seen' \<Longrightarrow> covered d f start seen' s k"
  unfolding covered_def by blast

lemma covered_restart: "taken d s \<Longrightarrow> covered d f (pg_current_snapshot None d) seen s k"
  by (auto simp: covered_def taken_def visible_completed)

lemma place_ok_step:
  assumes "journal_step d d'" "journal_ok d" "place_ok d f start seen cursor target after"
  shows "place_ok d' f start seen cursor target after"
  using assms(3) taken_step [OF assms(1)] covered_step [OF assms(1,2)]
  by (auto simp: place_ok_def split: option.splits)

lemma place_ok_more:
  "place_ok d f start seen cursor target after \<Longrightarrow> seen \<subseteq> seen' \<Longrightarrow> place_ok d f start seen' cursor target after"
  using covered_more by (fastforce simp: place_ok_def split: option.splits)

lemma place_ok_restart:
  "place_ok d f start seen cursor target after \<Longrightarrow> place_ok d f (pg_current_snapshot None d) seen' cursor target after"
  using covered_restart by (auto simp: place_ok_def split: option.splits)

text \<open>Only the consumers differ.\<close>

lemma place_ok_consumers:
  "place_ok (d\<lparr>jd_consumers := cs\<rparr>) f start seen cursor target after = place_ok d f start seen cursor target after"
  by (simp add: place_ok_def covered_def taken_def changes_def completed_def cong: option.case_cong)

section \<open>A page\<close>

lemma take_upto_last:
  assumes "sorted (map key xs)" "distinct (map key xs)" "0 < n" "x \<in> set xs"
    and "key x \<le> key (last (take n xs))"
  shows "x \<in> set (take n xs)"
proof (rule ccontr)
  assume "x \<notin> set (take n xs)"
  then have x: "x \<in> set (drop n xs)" using assms(4) by (metis Un_iff append_take_drop_id set_append)
  have ne: "take n xs \<noteq> []" using assms(3,4) by auto
  have "map key xs = map key (take n xs) @ map key (drop n xs)"
    by (metis append_take_drop_id map_append)
  then have "sorted (map key (take n xs) @ map key (drop n xs))"
    "distinct (map key (take n xs) @ map key (drop n xs))"
    using assms(1,2) by simp_all
  then have "key (last (take n xs)) \<le> key x \<and> key (last (take n xs)) \<noteq> key x"
    using x last_in_set [OF ne] by (simp only: sorted_append distinct_append set_map) blast
  then show False using assms(5) by simp
qed

lemma unread_rows_set:
  assumes "snapshot_ok cursor"
  shows "set (unread_rows d cursor target after f)
    = {c \<in> set (jd_rows d). completed d (jc_xid c) \<and> \<not> pg_visible_in_snapshot (jc_xid c) cursor
         \<and> pg_visible_in_snapshot (jc_xid c) target \<and> after_key after c \<and> filterSql f c}"
  by (auto simp: unread_rows_def unseenRows_set [OF assms] entity_changes_def readable_iff)

lemma unread_rows_sorted: "sorted (map journal_key (unread_rows d cursor target after f))"
  by (simp add: unread_rows_def)

lemma unread_rows_distinct:
  assumes "snapshot_ok cursor" "distinct (map journal_key (jd_rows d))"
  shows "distinct (map journal_key (unread_rows d cursor target after f))"
proof -
  let ?rows = "entity_changes None d"
  have rows: "distinct (map journal_key ?rows)" using assms(2) by (simp add: entity_changes_def distinct_map_filter)
  have "x \<notin> set (s_xip cursor)" if "s_xmax cursor \<le> x" for x
    using assms(1) that by (auto simp: snapshot_ok_def)
  then have "journal_key ` set (filter (\<lambda>c. s_xmax cursor \<le> jc_xid c) ?rows)
      \<inter> journal_key ` set (filter (\<lambda>c. jc_xid c \<in> set (s_xip cursor)) ?rows) = {}"
    by (auto simp: journal_key_def)
  then have "distinct (map journal_key (unseenRows cursor None ?rows))"
    using rows by (simp add: unseenRows_def distinct_map_filter)
  then show ?thesis by (auto simp: unread_rows_def distinct_map intro: inj_on_subset)
qed

text \<open>What a page leaves behind: everything up to its last row was delivered before or is in it.\<close>

lemma readChanges_covers:
  assumes ok: "journal_ok d" "place_ok d f start seen cursor target after"
    and read: "readChanges d cursor target after f limit = Inr r" "\<not> jr_needsRebuild r"
    and place: "after' = (if jr_changes r = [] then after else Some (journal_key (last (jr_changes r))))"
  shows "if jr_more r then place_ok d f start (seen \<union> set (jr_changes r)) cursor (Some (jr_target r)) after'
    else place_ok d f start (seen \<union> set (jr_changes r)) (jr_target r) None None"
proof -
  let ?t = "jr_target r" and ?c = "jr_changes r"
  let ?raw = "unread_rows d cursor ?t after f"
  have lim: "1 \<le> limit" "\<not> past_horizon cursor d" using read by (auto simp: readChanges_def Let_def split: if_splits)
  have t: "?t = read_target d target"
    using read by (auto simp: readChanges_def Let_def split: if_splits)
  have c: "?c = take (nat limit) ?raw" "jr_more r \<longleftrightarrow> nat limit < length ?raw"
    using read t lim by (auto simp: readChanges_def Let_def split: if_splits)
  have cursor: "snapshot_ok cursor" "taken d cursor" "covered d f start seen cursor None"
    using ok(2) by (auto simp: place_ok_def taken_def)
  have tt: "taken d ?t" using ok(2) t taken_now by (auto simp: place_ok_def read_target_def split: option.splits)
  text \<open>A change the target shows is delivered, or among the rows read.\<close>
  have rest: "x \<in> seen \<or> x \<in> set ?raw"
    if x: "x \<in> changes d" "filterSql f x" "pg_visible_in_snapshot (jc_xid x) ?t"
      "\<not> pg_visible_in_snapshot (jc_xid x) start" for x
  proof (cases "pg_visible_in_snapshot (jc_xid x) cursor \<or> \<not> after_key after x")
    case True
    then show ?thesis
    proof
      assume "\<not> after_key after x"
      then obtain k t' where "after = Some k" "journal_key x \<le> k" "target = Some t'" "?t = t'"
        using ok(2) t by (auto simp: after_key_def place_ok_def read_target_def split: option.splits)
      then show ?thesis using ok(2) x by (auto simp: place_ok_def covered_def)
    qed (use cursor(3) x in \<open>auto simp: covered_def\<close>)
  next
    case False
    then have "\<not> jc_xid x < s_xmin cursor" by (auto simp: pg_visible_in_snapshot_def)
    then have "x \<in> set (jd_rows d)" using past_horizon_no [OF ok(1) lim(2)] x(1) by (auto simp: changes_def)
    moreover have "completed d (jc_xid x)" using tt x(3) by (simp add: taken_def)
    ultimately show ?thesis using False x(2,3) by (simp add: unread_rows_set [OF cursor(1)])
  qed
  show ?thesis
  proof (cases "jr_more r")
    case True
    then have ne: "?c \<noteq> []" using c lim(1) by auto
    have "covered d f start (seen \<union> set ?c) ?t after'"
      unfolding covered_def
    proof (intro ballI impI)
      fix x assume x: "x \<in> changes d" "filterSql f x" "pg_visible_in_snapshot (jc_xid x) ?t"
        "\<not> pg_visible_in_snapshot (jc_xid x) start"
        "case after' of None \<Rightarrow> True | Some k \<Rightarrow> journal_key x \<le> k"
      then have "journal_key x \<le> journal_key (last (take (nat limit) ?raw))" using ne place c(1) by simp
      moreover have "distinct (map journal_key ?raw)"
        using unread_rows_distinct [OF cursor(1)] ok(1) by (simp add: journal_ok_def)
      ultimately show "x \<in> seen \<union> set ?c"
        using rest [OF x(1-4)] take_upto_last [OF unread_rows_sorted, of d cursor ?t after f "nat limit" x] c(1) lim(1)
        by auto
    qed
    then show ?thesis using True ne place cursor(2) covered_more [OF cursor(3)] tt
      by (simp add: place_ok_def)
  next
    case False
    then have "?c = ?raw" using c by simp
    then have "covered d f start (seen \<union> set ?c) ?t None" using rest by (auto simp: covered_def)
    then show ?thesis using False tt by (simp add: place_ok_def)
  qed
qed

section \<open>No change is skipped\<close>

definition batch_ok :: "string \<Rightarrow> JournalFilter \<Rightarrow> feed \<Rightarrow> ChangeBatch \<Rightarrow> bool" where
  "batch_ok name f w b =
     (set (cb_changes b) \<subseteq> {c \<in> changes (fd_db w). filterSql f c \<and> completed (fd_db w) (jc_xid c)}
      \<and> (\<exists>tok. cb_token b = Token_json tok
           \<and> place_ok (fd_db w) f (fd_start w) (fd_done w \<union> set (cb_changes b))
               (ct_cursor tok) (ct_target tok) (ct_after tok)))"

definition state_ok :: "JournalFilter \<Rightarrow> feed \<Rightarrow> ConsumerState \<Rightarrow> bool" where
  "state_ok f w s =
     place_ok (fd_db w) f (fd_start w) (fd_done w) (con_cursor s) (con_target s) (con_after s)"

definition feed_ok :: "string \<Rightarrow> JournalFilter \<Rightarrow> feed \<Rightarrow> bool" where
  "feed_ok name f w =
     (journal_ok (fd_db w)
      \<and> (\<exists>r. js_get (jd_consumers (fd_db w)) name = Some r
           \<and> place_ok (fd_db w) f (fd_start w) (fd_done w) (cr_cursor r) (cr_page_target r) (cr_page_after r))
      \<and> (\<forall>s \<in> set (fd_loaded w). state_ok f w s)
      \<and> (\<forall>b \<in> set (fd_open w). batch_ok name f w b)
      \<and> fd_done w \<subseteq> {c \<in> changes (fd_db w). filterSql f c \<and> completed (fd_db w) (jc_xid c)})"

lemma completed_consumers [simp]: "completed (d\<lparr>jd_consumers := cs\<rparr>) x = completed d x"
  by (simp add: completed_def)

lemma changes_consumers [simp]: "changes (d\<lparr>jd_consumers := cs\<rparr>) = changes d"
  by (simp add: changes_def)

lemma journal_ok_consumers [simp]: "journal_ok (d\<lparr>jd_consumers := cs\<rparr>) = journal_ok d"
  by (simp add: journal_ok_def)

lemma poll_from_batch_ok:
  assumes "journal_ok (fd_db w)" "state_ok f w state"
    and "poll_from (fd_db w) name state f limit = Inr b" "\<not> cb_needsRebuild b"
  shows "batch_ok name f w b"
proof -
  let ?d = "fd_db w"
  have s: "place_ok ?d f (fd_start w) (fd_done w) (con_cursor state) (con_target state) (con_after state)"
    using assms(2) by (simp add: state_ok_def)
  obtain read where r: "readChanges ?d (con_cursor state) (con_target state) (con_after state) f limit = Inr read"
    using assms(3) by (auto simp: poll_from_def then_result_def split: sum.splits)
  have b: "cb_changes b = jr_changes read" "cb_needsRebuild b = jr_needsRebuild read"
    using assms(3) r by (auto simp: poll_from_def Let_def)
  have sub: "set (jr_changes read) \<subseteq> {c \<in> changes ?d. filterSql f c \<and> completed ?d (jc_xid c)}"
  proof -
    have "snapshot_ok (con_cursor state)" using s by (simp add: place_ok_def taken_def)
    moreover have "set (jr_changes read)
        \<subseteq> set (unread_rows ?d (con_cursor state) (jr_target read) (con_after state) f)"
      using r by (auto simp: readChanges_def Let_def split: if_splits dest: in_set_takeD)
    ultimately show ?thesis by (auto simp: unread_rows_set changes_def)
  qed
  have nr: "\<not> jr_needsRebuild read" using b(2) assms(4) by simp
  show ?thesis
    using readChanges_covers [OF assms(1) s r nr refl] assms(3) r b(1) sub
    by (auto simp: batch_ok_def poll_from_def Let_def split: if_splits)
qed

lemma batch_ok_step:
  assumes "journal_step (fd_db w) d" "journal_ok (fd_db w)" "batch_ok name f w b"
  shows "batch_ok name f (w\<lparr>fd_db := d\<rparr>) b"
  using assms(3) place_ok_step [OF assms(1,2)] completed_step [OF assms(1)] changes_step [OF assms(1,2)]
  unfolding batch_ok_def by (fastforce simp: subset_iff)

lemma state_ok_step:
  "journal_step (fd_db w) d \<Longrightarrow> journal_ok (fd_db w) \<Longrightarrow> state_ok f w s \<Longrightarrow> state_ok f (w\<lparr>fd_db := d\<rparr>) s"
  using place_ok_step by (simp add: state_ok_def)

lemma feed_ok_step:
  assumes "feed_step name f w w'" "feed_ok name f w"
  shows "feed_ok name f w'"
  using assms
proof (induction rule: feed_step.induct)
  case (Database w d)
  obtain r r' where r: "js_get (jd_consumers (fd_db w)) name = Some r" "js_get (jd_consumers d) name = Some r'"
    "cr_cursor r' = cr_cursor r" "cr_page_target r' = cr_page_target r" "cr_page_after r' = cr_page_after r"
    using Database(2) unfolding same_place_def by blast
  have "journal_ok (fd_db w)" using Database(3) by (simp add: feed_ok_def)
  then show ?case
    using Database(3) r journal_ok_step [OF Database(1)] place_ok_step [OF Database(1)]
      batch_ok_step [OF Database(1)] state_ok_step [OF Database(1)] completed_step [OF Database(1)] changes_step [OF Database(1)]
    unfolding feed_ok_def by (fastforce simp: subset_iff)
next
  case (Loaded w state)
  then have "state_ok f w state"
    by (auto simp: loadConsumer_def feed_ok_def state_ok_def split: option.splits)
  then show ?case using Loaded(2) by (auto simp: feed_ok_def batch_ok_def state_ok_def)
next
  case (Polled state w limit b)
  then have "batch_ok name f w b" by (intro poll_from_batch_ok [OF _ _ Polled(2,3)]) (simp_all add: feed_ok_def)
  then show ?case using Polled(4) by (auto simp: feed_ok_def batch_ok_def state_ok_def)
next
  case (Committed b w now holder d)
  then obtain tok r where tok: "cb_token b = Token_json tok" "js_get (jd_consumers (fd_db w)) name = Some r"
    "d = (fd_db w)\<lparr>jd_consumers := js_set name (r\<lparr>cr_cursor := ct_cursor tok, cr_page_target := ct_target tok,
           cr_page_after := ct_after tok\<rparr>) (jd_consumers (fd_db w))\<rparr>"
    by (auto simp: commitChanges_def split: token_text.splits if_splits option.splits)
  have b: "batch_ok name f w b" using Committed(1,3) by (simp add: feed_ok_def)
  have "batch_ok name f (w\<lparr>fd_db := d, fd_done := fd_done w \<union> set (cb_changes b)\<rparr>) b'" if "b' \<in> set (fd_open w)" for b'
  proof -
    have "batch_ok name f w b'" using Committed(3) that by (simp add: feed_ok_def)
    then show ?thesis
      unfolding batch_ok_def tok(3) by (auto simp: place_ok_consumers elim!: place_ok_more)
  qed
  moreover have "state_ok f (w\<lparr>fd_db := d, fd_done := fd_done w \<union> set (cb_changes b)\<rparr>) s" if "state_ok f w s" for s
    using that unfolding state_ok_def tok(3) by (auto simp: place_ok_consumers elim!: place_ok_more)
  ultimately show ?case
    using Committed(3) b tok by (auto simp: feed_ok_def batch_ok_def place_ok_consumers js_map_simps)
next
  case (Rebuilding w d)
  then obtain r where r: "js_get (jd_consumers (fd_db w)) name = Some r"
    "d = (fd_db w)\<lparr>jd_consumers := js_set name (r\<lparr>cr_cursor := pg_current_snapshot None (fd_db w),
           cr_page_target := None, cr_page_after := None, cr_rebuild_pending := True\<rparr>) (jd_consumers (fd_db w))\<rparr>"
    by (auto simp: beginConsumerRebuild_def split: option.splits)
  have "place_ok (fd_db w) f (pg_current_snapshot None (fd_db w)) (fd_done w) (pg_current_snapshot None (fd_db w)) None None"
    by (simp add: place_ok_def taken_now covered_restart)
  moreover have "batch_ok name f (w\<lparr>fd_db := d, fd_start := pg_current_snapshot None (fd_db w)\<rparr>) b"
    if "b \<in> set (fd_open w)" for b
  proof -
    have "batch_ok name f w b" using Rebuilding(2) that by (simp add: feed_ok_def)
    then obtain tok where "cb_token b = Token_json tok"
      "place_ok (fd_db w) f (fd_start w) (fd_done w \<union> set (cb_changes b)) (ct_cursor tok) (ct_target tok) (ct_after tok)"
      "set (cb_changes b) \<subseteq> {c \<in> changes (fd_db w). filterSql f c \<and> completed (fd_db w) (jc_xid c)}"
      unfolding batch_ok_def by blast
    then show ?thesis unfolding batch_ok_def r(2) using place_ok_restart by (simp add: place_ok_consumers)
  qed
  moreover have "state_ok f (w\<lparr>fd_db := d, fd_start := pg_current_snapshot None (fd_db w)\<rparr>) s" if "state_ok f w s" for s
    using that place_ok_restart by (simp add: state_ok_def r(2) place_ok_consumers)
  ultimately show ?case
    using Rebuilding(2) r by (auto simp: feed_ok_def place_ok_consumers js_map_simps)
qed

lemma feed_reachable_ok: "feed_reachable name f w \<Longrightarrow> feed_ok name f w"
proof (induction rule: feed_reachable.induct)
  case (registered d pluginId d')
  have "place_ok d f (pg_current_snapshot None d) {} (pg_current_snapshot None d) None None"
    by (simp add: place_ok_def taken_now covered_restart)
  then show ?case
    using registered by (auto simp: registerConsumer_def feed_ok_def place_ok_consumers js_map_simps split: option.splits)
next
  case (feed_steps w w')
  then show ?case using feed_ok_step by blast
qed

text \<open>C5. No change is skipped: whatever transactions are open across a read, however instances
  interleave their polls and commits of pages, whenever a batch is delivered again, and whatever
  garbage is collected, every change the filter asks for that the stored cursor shows and that
  came after the consumer was registered or last rebuilt has been processed; and nothing was
  processed that was not committed or not asked for.\<close>

theorem no_change_is_skipped:
  assumes "feed_reachable name f w" "js_get (jd_consumers (fd_db w)) name = Some r"
  shows "{c \<in> changes (fd_db w). filterSql f c \<and> pg_visible_in_snapshot (jc_xid c) (cr_cursor r)
             \<and> \<not> pg_visible_in_snapshot (jc_xid c) (fd_start w)} \<subseteq> fd_done w
    \<and> fd_done w \<subseteq> {c \<in> changes (fd_db w). filterSql f c \<and> completed (fd_db w) (jc_xid c)}"
  using feed_reachable_ok [OF assms(1)] assms(2)
  by (auto simp: feed_ok_def place_ok_def covered_def)

text \<open>An example: a consumer registers, a transaction writes a page, an instance polls and commits.\<close>

definition demo_fresh :: journal_db where
  "demo_fresh =
     \<lparr>jd_rows = [], jd_collected = [], jd_running = [], jd_next = 1, jd_horizons = [], jd_consumers = []\<rparr>"

definition demo_feed :: feed where
  "demo_feed =
     \<lparr>fd_db = snd (registerConsumer demo_fresh ''plugin:p'' (Some ''p'')), fd_start = pg_current_snapshot None demo_fresh,
      fd_done = {}, fd_loaded = [], fd_open = []\<rparr>"

definition demo_written :: "feed \<Rightarrow> feed" where
  "demo_written w =
     (let d = (fd_db w)\<lparr>jd_running := jd_next (fd_db w) # jd_running (fd_db w), jd_next := Suc (jd_next (fd_db w))\<rparr>
      in w\<lparr>fd_db := end_transaction 1 (write_row (demo_change 1 None) d)\<rparr>)"

definition demo_state :: ConsumerState where
  "demo_state = \<lparr>con_cursor = \<lparr>s_xmin = 1, s_xmax = 1, s_xip = []\<rparr>, con_target = None, con_after = None\<rparr>"

definition demo_batch :: ChangeBatch where
  "demo_batch =
     \<lparr>cb_changes = [demo_change 1 None],
      cb_token = Token_json \<lparr>ct_v = 1, ct_name = ''plugin:p'', ct_from = \<lparr>s_xmin = 1, s_xmax = 1, s_xip = []\<rparr>,
        ct_cursor = \<lparr>s_xmin = 2, s_xmax = 2, s_xip = []\<rparr>, ct_target = None, ct_after = None\<rparr>,
      cb_more = False, cb_needsRebuild = False\<rparr>"

lemma feed_database:
  "feed_reachable name f w \<Longrightarrow> journal_step (fd_db w) d \<Longrightarrow> same_place name (fd_db w) d
    \<Longrightarrow> feed_reachable name f (w\<lparr>fd_db := d\<rparr>)"
  by (blast intro: feed_steps feed_step.Database)

lemma demo_written_reachable:
  "feed_reachable ''plugin:p'' demo_filter (demo_written demo_feed)"
proof -
  let ?d0 = "fd_db demo_feed"
  let ?d1 = "?d0\<lparr>jd_running := jd_next ?d0 # jd_running ?d0, jd_next := Suc (jd_next ?d0)\<rparr>"
  let ?d2 = "write_row (demo_change 1 None) ?d1"
  let ?d3 = "end_transaction 1 ?d2"
  let ?reach = "feed_reachable ''plugin:p'' demo_filter"
  have row: "js_get (jd_consumers ?d0) ''plugin:p'' = Some (snd (hd (jd_consumers ?d0)))"
    "jd_next ?d0 = 1" "jd_consumers ?d3 = jd_consumers ?d0" "jd_consumers ?d2 = jd_consumers ?d0"
    by (simp_all add: demo_feed_def registerConsumer_def demo_fresh_def js_get_def js_set_def end_transaction_def write_row_def)
  have place: "same_place ''plugin:p'' d d'"
    if "jd_consumers d = jd_consumers ?d0" "jd_consumers d' = jd_consumers ?d0" for d d'
    using row(1) that by (simp add: same_place_def)
  have "journal_ok demo_fresh" by (simp add: journal_ok_def demo_fresh_def)
  then have "?reach demo_feed"
    unfolding demo_feed_def by (rule feed_reachable.registered [where pluginId = "Some ''p''"])
      (simp add: registerConsumer_def demo_fresh_def js_get_def)
  then have "?reach (demo_feed\<lparr>fd_db := ?d1\<rparr>)"
    using feed_database [OF _ journal_step.Began place] by simp
  moreover have "journal_step ?d1 ?d2" by (rule journal_step.Wrote) (simp add: row demo_change_def)
  moreover have "same_place ''plugin:p'' ?d1 ?d2" "same_place ''plugin:p'' ?d2 ?d3"
    by (rule place; simp add: write_row_def end_transaction_def)+
  ultimately have "?reach (demo_feed\<lparr>fd_db := ?d2\<rparr>)"
    using feed_database [where w = "demo_feed\<lparr>fd_db := ?d1\<rparr>" and d = ?d2] by simp
  moreover have "journal_step ?d2 ?d3" by (rule journal_step.Ended) (simp add: row write_row_def)
  ultimately have "?reach (demo_feed\<lparr>fd_db := ?d3\<rparr>)"
    using feed_database [where w = "demo_feed\<lparr>fd_db := ?d2\<rparr>" and d = ?d3] \<open>same_place ''plugin:p'' ?d2 ?d3\<close> by simp
  then show ?thesis by (simp add: demo_written_def Let_def)
qed

lemma demo_load: "loadConsumer (fd_db (demo_written demo_feed)) ''plugin:p'' = Inr demo_state"
  by code_simp

lemma demo_poll:
  "poll_from (fd_db (demo_written demo_feed)) ''plugin:p'' demo_state demo_filter 10 = Inr demo_batch"
  by code_simp

definition demo_committed :: "(journal_error, journal_db) result" where
  "demo_committed = commitChanges 0 (fd_db (demo_written demo_feed)) ''plugin:p'' (cb_token demo_batch) None"

lemma demo_commit:
  obtains d r where "demo_committed = Inr d" "js_get (jd_consumers d) ''plugin:p'' = Some r"
    "cr_cursor r = \<lparr>s_xmin = 2, s_xmax = 2, s_xip = []\<rparr>" "demo_change 1 None \<in> changes d"
proof -
  have "\<exists>d. demo_committed = Inr d \<and> jd_rows d = [demo_change 1 None]
      \<and> (\<exists>r. js_get (jd_consumers d) ''plugin:p'' = Some r \<and> cr_cursor r = \<lparr>s_xmin = 2, s_xmax = 2, s_xip = []\<rparr>)"
    by (simp add: demo_committed_def commitChanges_def demo_batch_def demo_written_def demo_feed_def
        registerConsumer_def demo_fresh_def js_get_def js_set_def end_transaction_def write_row_def claimHeld_def
        pg_current_snapshot_def)
  then show thesis using that by (auto simp: changes_def)
qed

lemma no_change_is_skipped_witness:
  "\<exists>w r. feed_reachable ''plugin:p'' demo_filter w \<and> js_get (jd_consumers (fd_db w)) ''plugin:p'' = Some r
    \<and> cr_cursor r = \<lparr>s_xmin = 2, s_xmax = 2, s_xip = []\<rparr> \<and> demo_change 1 None \<in> fd_done w"
proof -
  let ?w = "demo_written demo_feed"
  obtain d r where d: "demo_committed = Inr d" "js_get (jd_consumers d) ''plugin:p'' = Some r"
    "cr_cursor r = \<lparr>s_xmin = 2, s_xmax = 2, s_xip = []\<rparr>" "demo_change 1 None \<in> changes d" by (rule demo_commit)
  let ?l = "?w\<lparr>fd_loaded := demo_state # fd_loaded ?w\<rparr>"
  let ?p = "?l\<lparr>fd_open := demo_batch # fd_open ?l\<rparr>"
  let ?c = "?p\<lparr>fd_db := d, fd_done := fd_done ?p \<union> set (cb_changes demo_batch)\<rparr>"
  have "feed_reachable ''plugin:p'' demo_filter ?l"
    using demo_written_reachable demo_load by (blast intro: feed_steps feed_step.Loaded)
  then have "feed_reachable ''plugin:p'' demo_filter ?p"
    by (rule feed_steps) (rule feed_step.Polled [where limit = 10 and state = demo_state],
        simp_all add: demo_poll, simp add: demo_batch_def)
  then have c: "feed_reachable ''plugin:p'' demo_filter ?c"
    by (rule feed_steps) (rule feed_step.Committed [where now = 0 and holder = None],
        use d(1) in \<open>simp_all add: demo_committed_def\<close>)
  have start: "fd_start ?c = \<lparr>s_xmin = 1, s_xmax = 1, s_xip = []\<rparr>"
    by (simp add: demo_written_def demo_feed_def Let_def pg_current_snapshot_def demo_fresh_def)
  have "filterSql demo_filter (demo_change 1 None)" by code_simp
  then have "demo_change 1 None \<in> fd_done ?c"
    using no_change_is_skipped [OF c, of r] d start
    by (auto simp: subset_iff pg_visible_in_snapshot_def demo_change_def)
  then show ?thesis using c d(2,3) by (intro exI [of _ ?c] exI [of _ r] conjI) simp_all
qed

section \<open>Garbage collection\<close>

lemma collected_horizon_of:
  assumes "(g, h) \<in> set (jd_horizons (snd (collectJournalGarbage now rm sm batch lk d)))"
  shows "(g, h) \<in> set (jd_horizons d)
    \<or> (\<exists>c \<in> set (gc_victims now (rm div 1000) (sm div 1000) batch lk d). h = jc_xid c)"
proof -
  let ?v = "gc_victims now (rm div 1000) (sm div 1000) batch lk d"
  have "(g, h) \<in> set (jd_horizons d) \<or> (?v \<noteq> [] \<and> h = Max (set (map jc_xid ?v)))"
    using assms by (auto simp: collectJournalGarbage_def Let_def split: if_splits)
  moreover have "\<exists>c \<in> set ?v. Max (set (map jc_xid ?v)) = jc_xid c" if "?v \<noteq> []"
  proof -
    have "Max (set (map jc_xid ?v)) \<in> set (map jc_xid ?v)" using that by (intro Max_in) simp_all
    then show ?thesis by (simp only: set_map) blast
  qed
  ultimately show ?thesis by metis
qed

lemma spared_rows:
  assumes "journal_ok d" "\<not> stalled now (sm div 1000) (entity_changes None d) r"
    and "(name, r) \<in> set (jd_consumers d)" "c \<in> set (gc_victims now (rm div 1000) (sm div 1000) batch lk d)"
  shows "jc_xid c < s_xmin (cr_cursor r)"
  using gc_victims_sub [of now "rm div 1000" "sm div 1000" batch lk d] assms by blast

lemma spared_horizon:
  assumes "journal_ok d" "\<not> stalled now (sm div 1000) (entity_changes None d) r"
    and "(name, r) \<in> set (jd_consumers d)" "\<not> past_horizon (cr_cursor r) d"
  shows "\<not> past_horizon (cr_cursor r) (snd (collectJournalGarbage now rm sm batch lk d))"
proof
  assume "past_horizon (cr_cursor r) (snd (collectJournalGarbage now rm sm batch lk d))"
  then obtain g h where h: "(g, h) \<in> set (jd_horizons (snd (collectJournalGarbage now rm sm batch lk d)))"
    "s_xmin (cr_cursor r) \<le> h" by (auto simp: past_horizon_def list_ex_iff)
  then have "(g, h) \<notin> set (jd_horizons d)" using assms(4) by (auto simp: past_horizon_def list_ex_iff)
  then obtain c where "c \<in> set (gc_victims now (rm div 1000) (sm div 1000) batch lk d)" "h = jc_xid c"
    using collected_horizon_of [OF h(1)] by blast
  then show False using spared_rows [OF assms(1-3)] h(2) by (meson not_less)
qed

lemma visible_target_collected:
  assumes "journal_ok d" "c \<in> set (jd_rows d)"
  shows "pg_visible_in_snapshot (jc_xid c) (read_target (snd (collectJournalGarbage now rm sm batch lk d)) target)
    = pg_visible_in_snapshot (jc_xid c) (read_target d target)"
  using assms by (cases target) (auto simp: read_target_def visible_completed completed_def collect_fields journal_ok_def)

lemma spared_read:
  assumes "journal_ok d" "\<not> stalled now (sm div 1000) (entity_changes None d) r"
    and "(name, r) \<in> set (jd_consumers d)" "snapshot_ok (cr_cursor r)"
    and "d' = snd (collectJournalGarbage now rm sm batch lk d)"
  shows "unread_rows d' (cr_cursor r) (read_target d' target) after f
    = unread_rows d (cr_cursor r) (read_target d target) after f"
proof (rule map_sorted_distinct_set_unique [where f = journal_key])
  let ?s = "cr_cursor r"
  have keys: "distinct (map journal_key (jd_rows d))" using assms(1) by (simp add: journal_ok_def)
  then have keys': "distinct (map journal_key (jd_rows d'))"
    by (simp add: assms(5) collect_fields distinct_map_filter)
  have sub: "set (jd_rows d') \<subseteq> set (jd_rows d)" by (auto simp: assms(5) collect_fields)
  have kept: "c \<in> set (jd_rows d')" if c: "c \<in> set (jd_rows d)" "\<not> pg_visible_in_snapshot (jc_xid c) ?s" for c
  proof -
    have "journal_key c \<notin> journal_key ` set (gc_victims now (rm div 1000) (sm div 1000) batch lk d)"
      using spared_rows [OF assms(1-3)] c(2) by (auto simp: pg_visible_in_snapshot_def journal_key_def)
    then show ?thesis using c(1) by (simp add: assms(5) collect_fields)
  qed
  have fin: "completed d' (jc_xid c) = completed d (jc_xid c)" if "c \<in> set (jd_rows d)" for c
    using that assms(1,5) by (auto simp: completed_def collect_fields journal_ok_def)
  show "set (unread_rows d' ?s (read_target d' target) after f) = set (unread_rows d ?s (read_target d target) after f)"
    using sub kept fin visible_target_collected [OF assms(1)] assms(5)
    unfolding unread_rows_set [OF assms(4)] by blast
  show "inj_on journal_key (set (unread_rows d' ?s (read_target d' target) after f)
      \<union> set (unread_rows d ?s (read_target d target) after f))"
    using keys sub by (auto simp: unread_rows_set [OF assms(4)] distinct_map intro: inj_on_subset)
qed (use assms(1,4) in \<open>simp_all add: unread_rows_sorted unread_rows_distinct journal_ok_def collect_fields
      distinct_map_filter assms(5)\<close>)

text \<open>C32. Garbage collection spares whoever keeps up and tells whoever it did not: a consumer
  that is not stalled and has lost nothing reads after a collection exactly what it would have
  read, and one of which any row was ever collected that its cursor does not show is asked to
  rebuild by its next read instead of reading on.\<close>

theorem collection_spares_or_tells:
  assumes "journal_ok d" "(name, r) \<in> set (jd_consumers d)" "snapshot_ok (cr_cursor r)"
    and "d' = snd (collectJournalGarbage now rm sm batch lk d)" "1 \<le> limit" "limit \<le> 5000"
  shows "(\<not> stalled now (sm div 1000) (entity_changes None d) r \<and> \<not> past_horizon (cr_cursor r) d
      \<longrightarrow> \<not> past_horizon (cr_cursor r) d'
        \<and> unread_rows d' (cr_cursor r) (read_target d' target) after f
          = unread_rows d (cr_cursor r) (read_target d target) after f)
    \<and> (c \<in> set (jd_collected d') \<and> \<not> pg_visible_in_snapshot (jc_xid c) (cr_cursor r)
      \<longrightarrow> readChanges d' (cr_cursor r) target after f limit
          = Inr \<lparr>jr_changes = [], jr_target = read_target d' target, jr_needsRebuild = True, jr_more = False\<rparr>)"
proof -
  have "journal_ok d'" using journal_ok_step [OF journal_step.Collected assms(1)] assms(4) by blast
  then have "past_horizon (cr_cursor r) d'"
    if "c \<in> set (jd_collected d')" "\<not> pg_visible_in_snapshot (jc_xid c) (cr_cursor r)"
    using past_horizon_no that by (auto simp: pg_visible_in_snapshot_def)
  then show ?thesis
    using spared_horizon [OF assms(1) _ assms(2)] spared_read [OF assms(1) _ assms(2-4)] assms(4-6)
    by (auto simp: readChanges_def Let_def)
qed

text \<open>An example: the consumer q has not read row 3 for nine days, p has only row 4 of yesterday
  to read; the collection takes row 3.\<close>

definition demo_day :: int where "demo_day = 86400000"

definition demo_lagging :: journal_db where
  "demo_lagging =
     \<lparr>jd_rows = [(demo_change 4 None)\<lparr>jc_createdAt := 8 * demo_day\<rparr>, demo_change 3 None], jd_collected = [],
      jd_running = [], jd_next = 6, jd_horizons = [],
      jd_consumers = [(''plugin:p'', demo_consumer\<lparr>cr_cursor := \<lparr>s_xmin = 4, s_xmax = 4, s_xip = []\<rparr>\<rparr>),
                      (''plugin:q'', demo_consumer)]\<rparr>"

definition demo_collected :: journal_db where
  "demo_collected =
     snd (collectJournalGarbage (9 * demo_day) JOURNAL_RETENTION_MS JOURNAL_STALLED_CONSUMER_MS 1000 (\<lambda>c. False) demo_lagging)"

lemma collection_spares_or_tells_witness:
  "map jc_xid (unread_rows demo_collected \<lparr>s_xmin = 4, s_xmax = 4, s_xip = []\<rparr> (read_target demo_collected None) None demo_filter) = [4]
    \<and> readChanges demo_collected (cr_cursor demo_consumer) None None demo_filter 500
      = Inr \<lparr>jr_changes = [], jr_target = read_target demo_collected None, jr_needsRebuild = True, jr_more = False\<rparr>"
proof -
  let ?p = "demo_consumer\<lparr>cr_cursor := \<lparr>s_xmin = 4, s_xmax = 4, s_xip = []\<rparr>\<rparr>"
  have ok: "journal_ok demo_lagging" by (simp add: journal_ok_def demo_lagging_def journal_key_def demo_change_def)
  have rows: "(''plugin:p'', ?p) \<in> set (jd_consumers demo_lagging)" "(''plugin:q'', demo_consumer) \<in> set (jd_consumers demo_lagging)"
    by (simp_all add: demo_lagging_def)
  have snap: "snapshot_ok (cr_cursor ?p)" "snapshot_ok (cr_cursor demo_consumer)"
    by (simp_all add: snapshot_ok_def demo_consumer_def)
  have facts: "\<not> stalled (9 * demo_day) (JOURNAL_STALLED_CONSUMER_MS div 1000) (entity_changes None demo_lagging) ?p"
    "\<not> past_horizon (cr_cursor ?p) demo_lagging"
    "jd_collected demo_collected = [demo_change 3 None]"
    "map jc_xid (unread_rows demo_lagging (cr_cursor ?p) (read_target demo_lagging None) None demo_filter) = [4]"
    by code_simp+
  have "\<not> pg_visible_in_snapshot (jc_xid (demo_change 3 None)) (cr_cursor demo_consumer)"
    by (simp add: pg_visible_in_snapshot_def demo_change_def demo_consumer_def)
  then show ?thesis
    using collection_spares_or_tells [OF ok rows(1) snap(1) demo_collected_def, of 500 None None demo_filter]
      collection_spares_or_tells [OF ok rows(2) snap(2) demo_collected_def, of 500 None None demo_filter "demo_change 3 None"]
      facts by simp
qed

end
