(* ===== verification/Change_Consumers.thy ===== *)
theory Change_Consumers
  imports Journal_Delivery
begin

text \<open>
  The runner of the plugins' change consumers (packages/plugin-host/src/change-consumers.ts):
  the filter of a plugin, the batches by branch, and one drain.  What the plugin's operations do
  to the database and to the world is a function of the environment, answering whether they
  succeeded and the claim survived them; the readings of the database clock are its too.
\<close>

section \<open>What a plugin reads\<close>

record plugin_consumer =
  pc_pluginId :: string
  pc_kinds :: "string list"
  pc_ownTables :: "string list"
  pc_main_only :: bool

definition changeConsumerName :: "string \<Rightarrow> string" where
  "changeConsumerName pluginId = ''plugin:'' @ pluginId"

definition BATCH :: int where "BATCH = 500"

definition MAX_BATCHES :: nat where "MAX_BATCHES = 40"

definition CLAIM_MS :: int where "CLAIM_MS = 60000"

definition OWN_KINDS :: "string list" where
  "OWN_KINDS = [''plugin_storage'', ''plugin_row'']"

definition pluginChangeFilter :: "plugin_consumer \<Rightarrow> JournalFilter" where
  "pluginChangeFilter p =
     \<lparr>jf_kinds = pc_kinds p @ (if pc_ownTables p = [] then [] else OWN_KINDS),
      jf_branchId = (if pc_main_only p then Some None else None), jf_unscopedKinds = [], jf_unscopedOps = [],
      jf_kindOps = [], jf_columns = [], jf_pluginIds = Some [pc_pluginId p],
      jf_pluginTables = (if pc_ownTables p = [] then None else Some (pc_ownTables p)),
      jf_branchOnlyKinds = []\<rparr>"

record PluginChange =
  ch_kind :: string
  ch_op :: change_op
  ch_rowId :: string
  ch_parentId :: "string option"
  ch_table :: "string option"
  ch_changedColumns :: "string list option"
  ch_siteSnapshotId :: "string option"
  ch_prevSnapshotId :: "string option"

definition toPluginChange :: "JournalChange \<Rightarrow> PluginChange" where
  "toPluginChange c =
     (let own = (jc_kind c \<in> set OWN_KINDS)
      in \<lparr>ch_kind = (if own then ''own'' else jc_kind c), ch_op = jc_op c, ch_rowId = jc_rowId c,
          ch_parentId = (if own then None else jc_parentId c),
          ch_table = (if \<not> own then None else if jc_kind c = ''plugin_row'' then jc_parentId c
                      else (case split_on (CHR ''.'') (jc_table c) of _ # t # _ \<Rightarrow> Some t | _ \<Rightarrow> None)),
          ch_changedColumns = jc_changedColumns c, ch_siteSnapshotId = jc_siteSnapshotId c,
          ch_prevSnapshotId = jc_prevSnapshotId c\<rparr>)"

type_synonym branch_batch = "string option \<times> PluginChange list"

definition add_to_branch :: "JournalChange \<Rightarrow> branch_batch list \<Rightarrow> branch_batch list" where
  "add_to_branch c m =
     js_set (jc_chatBranchId c)
       ((case js_get m (jc_chatBranchId c) of Some l \<Rightarrow> l | None \<Rightarrow> []) @ [toPluginChange c]) m"

definition by_branch :: "JournalChange list \<Rightarrow> branch_batch list" where
  "by_branch cs = fold add_to_branch cs []"

section \<open>One drain\<close>

record 'w drain_env =
  de_plugin :: plugin_consumer
  de_holder :: string
  de_batchSize :: int
  de_maxBatches :: nat
  de_claimMs :: int
  de_clock :: "nat \<Rightarrow> int"
  de_row_locked :: "nat \<Rightarrow> bool"
  de_dispatch :: "string option \<Rightarrow> PluginChange list \<Rightarrow> journal_db \<times> 'w \<Rightarrow> bool \<times> (journal_db \<times> 'w)"
  de_rebuild :: "journal_db \<times> 'w \<Rightarrow> bool \<times> (journal_db \<times> 'w)"

text \<open>ds_tick counts the statements that read the clock.\<close>

record 'w drain_state =
  ds_world :: "journal_db \<times> 'w"
  ds_tick :: nat
  ds_changes :: nat
  ds_rebuilt :: bool

datatype drain_end = Failed | Released bool | Out_of_batches

record DrainReport =
  dr_changes :: nat
  dr_rebuilt :: bool
  dr_skipped :: bool
  dr_error :: bool
  dr_more :: bool
  dr_retryInMs :: "int option"

definition consumer_name :: "'w drain_env \<Rightarrow> string" where
  "consumer_name e = changeConsumerName (pc_pluginId (de_plugin e))"

definition set_db :: "journal_db \<Rightarrow> 'w drain_state \<Rightarrow> 'w drain_state" where
  "set_db d s = s\<lparr>ds_world := (d, snd (ds_world s)), ds_tick := Suc (ds_tick s)\<rparr>"

text \<open>The operations of the host: their inputs are checked before they run.  The claim creates the
  consumer if need be; the commit of a drain's last batch gives the claim back in one transaction.\<close>

definition poll_op ::
  "journal_db \<Rightarrow> string \<Rightarrow> JournalFilter \<Rightarrow> int \<Rightarrow> (journal_error, ChangeBatch) result" where
  "poll_op d name f limit = (if limit < 1 \<or> BATCH < limit then Inl Bad_limit else pollChanges d name f limit)"

definition commit_op ::
  "int \<Rightarrow> journal_db \<Rightarrow> string \<Rightarrow> token_text \<Rightarrow> string \<Rightarrow> string option \<Rightarrow> (journal_error, journal_db) result" where
  "commit_op now d name token holder release =
     then_result (commitChanges now d name token (Some holder))
       (\<lambda>d. Inr (case release of None \<Rightarrow> d | Some h \<Rightarrow> releaseConsumer d name h))"

definition claim_op ::
  "'w drain_env \<Rightarrow> 'w drain_state \<Rightarrow> (journal_error, bool \<times> bool \<times> int option \<times> 'w drain_state) result" where
  "claim_op e s =
     (if de_claimMs e < 1000 \<or> CLAIM_MS < de_claimMs e then Inl Bad_lease
      else let d = snd (registerConsumer (fst (ds_world s)) (consumer_name e) (Some (pc_pluginId (de_plugin e))));
          now = de_clock e (ds_tick s)
      in then_result (claimConsumer now (de_row_locked e (ds_tick s)) d (consumer_name e) (de_holder e) (de_claimMs e))
           (\<lambda>(claimed, d2).
              then_result (consumerRebuildPending d2 (consumer_name e)) (\<lambda>pending.
                Inr (claimed, pending,
                     if claimed then None else consumerClaimExpiresInMs now d2 (consumer_name e), set_db d2 s))))"

fun dispatch_all :: "'w drain_env \<Rightarrow> branch_batch list \<Rightarrow> 'w drain_state \<Rightarrow> bool \<times> 'w drain_state" where
  "dispatch_all e [] s = (True, s)"
| "dispatch_all e ((b, l) # groups) s =
     (case de_dispatch e b l (ds_world s) of
        (False, w) \<Rightarrow> (False, s\<lparr>ds_world := w\<rparr>)
      | (True, w) \<Rightarrow> dispatch_all e groups (s\<lparr>ds_world := w, ds_changes := ds_changes s + length l\<rparr>))"

definition run_rebuild :: "'w drain_env \<Rightarrow> 'w drain_state \<Rightarrow> bool \<times> 'w drain_state" where
  "run_rebuild e s =
     (case de_rebuild e (ds_world s) of
        (False, w) \<Rightarrow> (False, s\<lparr>ds_world := w\<rparr>)
      | (True, w) \<Rightarrow>
          (case finishConsumerRebuild (de_clock e (ds_tick s)) (fst w) (consumer_name e) (Some (de_holder e)) of
             Inl _ \<Rightarrow> (False, s\<lparr>ds_world := w, ds_tick := Suc (ds_tick s)\<rparr>)
           | Inr d \<Rightarrow> (True, set_db d (s\<lparr>ds_world := w, ds_rebuilt := True\<rparr>))))"

text \<open>The batches left to run.\<close>

fun drain_batches :: "'w drain_env \<Rightarrow> nat \<Rightarrow> 'w drain_state \<Rightarrow> drain_end \<times> 'w drain_state" where
  "drain_batches e 0 s = (Out_of_batches, s)"
| "drain_batches e (Suc n) s =
     (case poll_op (fst (ds_world s)) (consumer_name e) (pluginChangeFilter (de_plugin e)) (de_batchSize e) of
        Inl _ \<Rightarrow> (Failed, s)
      | Inr batch \<Rightarrow>
          if cb_needsRebuild batch
          then (case beginConsumerRebuild (fst (ds_world s)) (consumer_name e) of
                  Inl _ \<Rightarrow> (Failed, s)
                | Inr d \<Rightarrow>
                    (case run_rebuild e (s\<lparr>ds_world := (d, snd (ds_world s))\<rparr>) of
                       (False, s1) \<Rightarrow> (Failed, s1)
                     | (True, s1) \<Rightarrow> drain_batches e n s1))
          else (case dispatch_all e (by_branch (cb_changes batch)) s of
                  (False, s1) \<Rightarrow> (Failed, s1)
                | (True, s1) \<Rightarrow>
                    (let last = (\<not> cb_more batch \<or> n = 0)
                     in case commit_op (de_clock e (ds_tick s1)) (fst (ds_world s1)) (consumer_name e)
                            (cb_token batch) (de_holder e) (if last then Some (de_holder e) else None) of
                          Inl _ \<Rightarrow> (Failed, s1\<lparr>ds_tick := Suc (ds_tick s1)\<rparr>)
                        | Inr d \<Rightarrow>
                            if last then (Released (cb_more batch), set_db d s1)
                            else (case claim_op e (set_db d s1) of
                                    Inl _ \<Rightarrow> (Failed, set_db d s1)
                                  | Inr (_, _, _, s2) \<Rightarrow> drain_batches e n s2))))"

definition release_at_end :: "'w drain_env \<Rightarrow> 'w drain_state \<Rightarrow> journal_db \<times> 'w" where
  "release_at_end e s =
     (releaseConsumer (fst (ds_world s)) (consumer_name e) (de_holder e), snd (ds_world s))"

definition drainOne :: "'w drain_env \<Rightarrow> journal_db \<times> 'w \<Rightarrow> DrainReport \<times> (journal_db \<times> 'w)" where
  "drainOne e w =
     (let report = (\<lambda>s err left. \<lparr>dr_changes = ds_changes s, dr_rebuilt = ds_rebuilt s, dr_skipped = False,
                                   dr_error = err, dr_more = left, dr_retryInMs = None\<rparr>);
          s0 = \<lparr>ds_world = w, ds_tick = 0, ds_changes = 0, ds_rebuilt = False\<rparr>
      in case claim_op e s0 of
           Inl _ \<Rightarrow> (report s0 True False, w)
         | Inr (claimed, pending, retry, s1) \<Rightarrow>
             if \<not> claimed
             then ((report s1 False False)\<lparr>dr_skipped := True, dr_retryInMs := retry\<rparr>, ds_world s1)
             else (case (if pending then run_rebuild e s1 else (True, s1)) of
                     (False, s2) \<Rightarrow> (report s2 True False, release_at_end e s2)
                   | (True, s2) \<Rightarrow>
                       (case drain_batches e (de_maxBatches e) s2 of
                          (Failed, s3) \<Rightarrow> (report s3 True False, release_at_end e s3)
                        | (Released left, s3) \<Rightarrow> (report s3 False left, ds_world s3)
                        | (Out_of_batches, s3) \<Rightarrow> (report s3 False False, release_at_end e s3))))"

section \<open>A quiet drain\<close>

text \<open>The plugin's operation only records what it was given.\<close>

definition quiet_dispatch ::
  "string option \<Rightarrow> PluginChange list \<Rightarrow> journal_db \<times> branch_batch list \<Rightarrow> bool \<times> (journal_db \<times> branch_batch list)" where
  "quiet_dispatch b l w = (True, (fst w, snd w @ [(b, l)]))"

text \<open>What was dispatched of a branch, in order.\<close>

definition of_branch :: "string option \<Rightarrow> branch_batch list \<Rightarrow> PluginChange list" where
  "of_branch b groups = concat (map snd (filter (\<lambda>g. fst g = b) groups))"

definition branch_changes :: "string option \<Rightarrow> JournalChange list \<Rightarrow> PluginChange list" where
  "branch_changes b cs = map toPluginChange (filter (\<lambda>c. jc_chatBranchId c = b) cs)"

lemma of_branch_append [simp]: "of_branch b (g @ h) = of_branch b g @ of_branch b h"
  by (simp add: of_branch_def)

lemma branch_changes_append [simp]: "branch_changes b (xs @ ys) = branch_changes b xs @ branch_changes b ys"
  by (simp add: branch_changes_def)

lemma of_branch_get:
  "js_map_ok m \<Longrightarrow> of_branch b m = (case js_get m b of Some l \<Rightarrow> l | None \<Rightarrow> [])"
proof (induction m)
  case (Cons g m)
  then have "filter (\<lambda>g. fst g = b) m = []" if "fst g = b"
    using that Cons.prems by (intro filter_False) (auto simp: js_map_ok_def image_iff)
  then show ?case using Cons by (cases g) (auto simp: of_branch_def js_get_def js_map_ok_def)
qed (simp add: of_branch_def js_get_nil)

lemma by_branch_fold:
  assumes "js_map_ok m"
  shows "js_map_ok (fold add_to_branch cs m)
    \<and> of_branch b (fold add_to_branch cs m) = of_branch b m @ branch_changes b cs"
  using assms
proof (induction cs arbitrary: m)
  case (Cons c cs)
  have "js_map_ok (add_to_branch c m)" using Cons.prems by (simp add: add_to_branch_def js_map_ok_set)
  moreover have "of_branch b (add_to_branch c m) = of_branch b m @ branch_changes b [c]"
    using Cons.prems calculation
    by (simp add: of_branch_get) (simp add: add_to_branch_def js_map_simps branch_changes_def)
  ultimately show ?case using Cons.IH by (simp add: branch_changes_def)
qed (simp add: branch_changes_def)

lemma by_branch_of: "of_branch b (by_branch cs) = branch_changes b cs"
  using by_branch_fold [of "[]"] by (simp add: by_branch_def js_map_ok_def of_branch_def)

definition batch_size :: "branch_batch list \<Rightarrow> nat" where
  "batch_size groups = sum_list (map (\<lambda>g. length (snd g)) groups)"

lemma batch_size_set:
  "js_map_ok m \<Longrightarrow> batch_size (js_set k ((case js_get m k of Some l \<Rightarrow> l | None \<Rightarrow> []) @ [x]) m) = Suc (batch_size m)"
proof (induction m)
  case (Cons g m)
  then show ?case by (cases g) (auto simp: batch_size_def js_set_def js_get_def js_map_ok_def)
qed (simp add: batch_size_def js_set_def js_get_def)

lemma batch_size_fold: "js_map_ok m \<Longrightarrow> batch_size (fold add_to_branch cs m) = batch_size m + length cs"
proof (induction cs arbitrary: m)
  case (Cons c cs)
  have "js_map_ok (add_to_branch c m)" using Cons.prems by (simp add: add_to_branch_def js_map_ok_set)
  moreover have "batch_size (add_to_branch c m) = Suc (batch_size m)"
    using batch_size_set [OF Cons.prems] by (simp add: add_to_branch_def)
  ultimately show ?case using Cons.IH by simp
qed simp

lemma batch_size_by_branch: "batch_size (by_branch cs) = length cs"
  using batch_size_fold [of "[]" cs] by (simp add: by_branch_def js_map_ok_def batch_size_def)

lemma dispatch_quiet:
  assumes "de_dispatch e = quiet_dispatch"
  shows "dispatch_all e groups s
    = (True, s\<lparr>ds_world := (fst (ds_world s), snd (ds_world s) @ groups),
               ds_changes := ds_changes s + batch_size groups\<rparr>)"
proof (induction groups arbitrary: s)
  case (Cons g groups)
  then show ?case by (cases g) (simp add: assms quiet_dispatch_def batch_size_def)
qed (simp add: batch_size_def)

section \<open>Page after page\<close>

lemma next_page:
  assumes "snapshot_ok cursor" "distinct (map journal_key (jd_rows d))"
    and xs: "xs = unread_rows d cursor t after f" and l: "0 < l" "l < length xs"
  shows "unread_rows d cursor t (Some (journal_key (last (take l xs)))) f = drop l xs"
proof (rule map_sorted_distinct_set_unique [where f = journal_key])
  let ?k = "journal_key (last (take l xs))"
  have ne: "take l xs \<noteq> []" using l by auto
  have sd: "sorted (map journal_key xs)" "distinct (map journal_key xs)"
    using unread_rows_sorted unread_rows_distinct [OF assms(1,2)] xs by simp_all
  have eq: "map journal_key xs = map journal_key (take l xs) @ map journal_key (drop l xs)"
    by (metis append_take_drop_id map_append)
  have "x \<in> set (take l xs) \<Longrightarrow> journal_key x \<le> ?k" for x
  proof -
    have "map journal_key (take l xs) = map journal_key (butlast (take l xs)) @ [?k]"
      using ne by (metis append_butlast_last_id list.simps(8,9) map_append)
    moreover have "sorted (map journal_key (take l xs))" using sd(1) eq by (metis sorted_append)
    ultimately have "y \<in> set (map journal_key (butlast (take l xs)) @ [?k]) \<Longrightarrow> y \<le> ?k" for y
      by (auto simp: sorted_append)
    then show "x \<in> set (take l xs) \<Longrightarrow> journal_key x \<le> ?k"
      using \<open>map journal_key (take l xs) = _\<close> by (metis image_eqI set_map)
  qed
  moreover have "x \<in> set (drop l xs) \<Longrightarrow> ?k < journal_key x" for x
    using sd eq last_in_set [OF ne]
    by (simp only: sorted_append distinct_append set_map) (metis (no_types, lifting) IntI image_eqI empty_iff le_neq_trans)
  moreover have "set xs = set (take l xs) \<union> set (drop l xs)" by (metis append_take_drop_id set_append)
  ultimately have drop: "set (drop l xs) = {x \<in> set xs. ?k < journal_key x}"
    by (auto simp: not_less [symmetric])
  have "last (take l xs) \<in> set xs" using last_in_set [OF ne] by (metis in_set_takeD)
  then have "after_key after (last (take l xs))" by (simp add: xs unread_rows_set [OF assms(1)])
  then have "?k < journal_key x \<Longrightarrow> after_key after x" for x
    by (auto simp: after_key_def split: option.splits)
  then have "set (unread_rows d cursor t (Some ?k) f) = {x \<in> set xs. ?k < journal_key x}"
    using unread_rows_set [OF assms(1), of d t _ f] xs by (auto simp: after_key_def)
  then show "set (unread_rows d cursor t (Some ?k) f) = set (drop l xs)" using drop by simp
  then show "inj_on journal_key (set (unread_rows d cursor t (Some ?k) f) \<union> set (drop l xs))"
    using sd(2) by (auto simp: distinct_map intro: inj_on_subset dest: in_set_dropD)
  show "sorted (map journal_key (drop l xs))" using sd(1) eq by (metis sorted_append)
  show "distinct (map journal_key (drop l xs))" using sd(2) eq by (metis distinct_append)
qed (simp_all add: unread_rows_sorted unread_rows_distinct [OF assms(1,2)])

lemma snapshot_consumers [simp]: "pg_current_snapshot own (d\<lparr>jd_consumers := cs\<rparr>) = pg_current_snapshot own d"
  by (simp add: pg_current_snapshot_def)

lemma unread_rows_consumers [simp]:
  "unread_rows (d\<lparr>jd_consumers := cs\<rparr>) cursor t after f = unread_rows d cursor t after f"
  by (simp add: unread_rows_def entity_changes_def readable_def[abs_def])

lemma past_horizon_consumers [simp]: "past_horizon s (d\<lparr>jd_consumers := cs\<rparr>) = past_horizon s d"
  by (simp add: past_horizon_def)

lemma read_target_consumers [simp]: "read_target (d\<lparr>jd_consumers := cs\<rparr>) t = read_target d t"
  by (cases t) (simp_all add: read_target_def)

lemma poll_quiet:
  assumes "js_get cs name = Some r" "\<not> past_horizon (cr_cursor r) d" "1 \<le> limit" "limit \<le> BATCH"
    and "xs = unread_rows d (cr_cursor r) (read_target d (cr_page_target r)) (cr_page_after r) f"
  shows "poll_op (d\<lparr>jd_consumers := cs\<rparr>) name f limit = Inr
    (if nat limit < length xs
     then \<lparr>cb_changes = take (nat limit) xs,
           cb_token = Token_json \<lparr>ct_v = 1, ct_name = name, ct_from = cr_cursor r, ct_cursor = cr_cursor r,
             ct_target = Some (read_target d (cr_page_target r)),
             ct_after = Some (journal_key (last (take (nat limit) xs)))\<rparr>,
           cb_more = True, cb_needsRebuild = False\<rparr>
     else \<lparr>cb_changes = xs,
           cb_token = Token_json \<lparr>ct_v = 1, ct_name = name, ct_from = cr_cursor r,
             ct_cursor = read_target d (cr_page_target r), ct_target = None, ct_after = None\<rparr>,
           cb_more = False, cb_needsRebuild = False\<rparr>)"
  using assms by (auto simp: poll_op_def BATCH_def pollChanges_def loadConsumer_def poll_from_def readChanges_def Let_def)

section \<open>Every change once\<close>

text \<open>The environment of a quiet drain: the clock moves by less than the claim between two readings.\<close>

definition quiet_env :: "branch_batch list drain_env \<Rightarrow> bool" where
  "quiet_env e =
     (de_dispatch e = quiet_dispatch \<and> (\<forall>i. \<not> de_row_locked e i)
      \<and> (\<forall>i. de_clock e (Suc i) \<le> de_clock e i + de_claimMs e)
      \<and> 1000 \<le> de_claimMs e \<and> de_claimMs e \<le> CLAIM_MS \<and> 1 \<le> de_batchSize e \<and> de_batchSize e \<le> BATCH)"

definition claimed_row :: "'w drain_env \<Rightarrow> nat \<Rightarrow> consumer_row \<Rightarrow> bool" where
  "claimed_row e tick r =
     (cr_claimed_by r = Some (de_holder e) \<and> (\<exists>u. cr_claim_expires_at r = Some u \<and> de_clock e tick \<le> u))"

lemma claim_op_quiet:
  assumes "quiet_env e" "js_get cs (consumer_name e) = Some r" "ds_world s = (d\<lparr>jd_consumers := cs\<rparr>, w)"
    and "cr_claimed_by r = None \<or> cr_claimed_by r = Some (de_holder e)"
  shows "\<exists>r'. claim_op e s = Inr (True, cr_rebuild_pending r, None,
        s\<lparr>ds_world := (d\<lparr>jd_consumers := js_set (consumer_name e) r' cs\<rparr>, w), ds_tick := Suc (ds_tick s)\<rparr>)
    \<and> claimed_row e (Suc (ds_tick s)) r' \<and> cr_cursor r' = cr_cursor r \<and> cr_page_target r' = cr_page_target r
    \<and> cr_page_after r' = cr_page_after r"
  using assms
  by (auto simp: claim_op_def registerConsumer_def claimConsumer_def consumerRebuildPending_def quiet_env_def
      claimed_row_def set_db_def js_map_simps Let_def)

lemma commit_quiet:
  assumes "claimed_row e tick r" "js_get cs name = Some r" "ct_v tok = 1" "ct_name tok = name"
    and "ct_from tok = cr_cursor r"
    and "r' = r\<lparr>cr_cursor := ct_cursor tok, cr_page_target := ct_target tok, cr_page_after := ct_after tok\<rparr>"
  shows "commit_op (de_clock e tick) (d\<lparr>jd_consumers := cs\<rparr>) name (Token_json tok) (de_holder e) None
      = Inr (d\<lparr>jd_consumers := js_set name r' cs\<rparr>)"
    and "commit_op (de_clock e tick) (d\<lparr>jd_consumers := cs\<rparr>) name (Token_json tok) (de_holder e) (Some (de_holder e))
      = Inr (d\<lparr>jd_consumers := js_set name (r'\<lparr>cr_claimed_by := None, cr_claim_expires_at := None\<rparr>) (js_set name r' cs)\<rparr>)"
  using assms
  by (auto simp: commit_op_def commitChanges_def claimHeld_def claimed_row_def releaseConsumer_def js_map_simps)

lemma drain_batches_quiet:
  assumes "quiet_env e" "distinct (map journal_key (jd_rows d))"
    and "ds_world s = (d\<lparr>jd_consumers := cs\<rparr>, w)" "js_get cs (consumer_name e) = Some r"
    and "claimed_row e (ds_tick s) r" "snapshot_ok (cr_cursor r)" "\<not> past_horizon (cr_cursor r) d"
    and "xs = unread_rows d (cr_cursor r) (read_target d (cr_page_target r)) (cr_page_after r) (pluginChangeFilter (de_plugin e))"
    and "0 < n" "length xs \<le> n * nat (de_batchSize e)"
  shows "\<exists>s' cs' r' groups. drain_batches e n s = (Released False, s')
    \<and> ds_world s' = (d\<lparr>jd_consumers := cs'\<rparr>, w @ groups) \<and> (\<forall>b. of_branch b groups = branch_changes b xs)
    \<and> ds_changes s' = ds_changes s + length xs \<and> ds_rebuilt s' = ds_rebuilt s
    \<and> js_get cs' (consumer_name e) = Some r' \<and> cr_cursor r' = read_target d (cr_page_target r)
    \<and> cr_page_target r' = None \<and> cr_page_after r' = None \<and> cr_claimed_by r' = None"
  using assms(3-10)
proof (induction n arbitrary: s cs w r xs)
  case (Suc n)
  let ?name = "consumer_name e" and ?f = "pluginChangeFilter (de_plugin e)" and ?l = "nat (de_batchSize e)"
  let ?t = "read_target d (cr_page_target r)"
  note q = assms(1)
  have l: "0 < ?l" "1 \<le> de_batchSize e" "de_batchSize e \<le> BATCH" using q by (auto simp: quiet_env_def)
  have dis: "de_dispatch e = quiet_dispatch" using q by (simp add: quiet_env_def)
  note poll = poll_quiet [OF Suc.prems(2) Suc.prems(5) l(2,3) Suc.prems(6)]
  show ?case
  proof (cases "?l < length xs")
    case False
    let ?s = "s\<lparr>ds_world := (d\<lparr>jd_consumers := cs\<rparr>, w @ by_branch xs), ds_changes := ds_changes s + length xs\<rparr>"
    let ?tok = "\<lparr>ct_v = 1, ct_name = ?name, ct_from = cr_cursor r, ct_cursor = ?t, ct_target = None, ct_after = None\<rparr>"
    let ?r = "r\<lparr>cr_cursor := ?t, cr_page_target := None, cr_page_after := None\<rparr>"
    have disp: "dispatch_all e (by_branch xs) s = (True, ?s)"
      using Suc.prems(1) by (simp add: dispatch_quiet [OF dis] batch_size_by_branch)
    have com: "commit_op (de_clock e (ds_tick s)) (d\<lparr>jd_consumers := cs\<rparr>) ?name (Token_json ?tok) (de_holder e) (Some (de_holder e))
        = Inr (d\<lparr>jd_consumers := js_set ?name (?r\<lparr>cr_claimed_by := None, cr_claim_expires_at := None\<rparr>) (js_set ?name ?r cs)\<rparr>)"
      using commit_quiet(2) [OF Suc.prems(3,2), of ?tok ?r d] by simp
    have "drain_batches e (Suc n) s = (Released False,
        set_db (d\<lparr>jd_consumers := js_set ?name (?r\<lparr>cr_claimed_by := None, cr_claim_expires_at := None\<rparr>) (js_set ?name ?r cs)\<rparr>) ?s)"
      using poll False Suc.prems(1) disp com by simp
    then show ?thesis by (auto simp: set_db_def js_map_simps by_branch_of)
  next
    case True
    let ?p = "take ?l xs"
    let ?k = "Some (journal_key (last ?p))"
    let ?s = "s\<lparr>ds_world := (d\<lparr>jd_consumers := cs\<rparr>, w @ by_branch ?p), ds_changes := ds_changes s + length ?p\<rparr>"
    let ?tok = "\<lparr>ct_v = 1, ct_name = ?name, ct_from = cr_cursor r, ct_cursor = cr_cursor r, ct_target = Some ?t, ct_after = ?k\<rparr>"
    let ?r = "r\<lparr>cr_cursor := cr_cursor r, cr_page_target := Some ?t, cr_page_after := ?k\<rparr>"
    let ?cs = "js_set ?name ?r cs"
    have n: "0 < n" "length (drop ?l xs) \<le> n * ?l" using Suc.prems(8) True by (cases n, auto)
    have disp: "dispatch_all e (by_branch ?p) s = (True, ?s)"
      using Suc.prems(1) by (simp add: dispatch_quiet [OF dis] batch_size_by_branch)
    have com: "commit_op (de_clock e (ds_tick s)) (d\<lparr>jd_consumers := cs\<rparr>) ?name (Token_json ?tok) (de_holder e) None
        = Inr (d\<lparr>jd_consumers := ?cs\<rparr>)"
      using commit_quiet(1) [OF Suc.prems(3,2), of ?tok ?r d] by simp
    let ?s1 = "set_db (d\<lparr>jd_consumers := ?cs\<rparr>) ?s"
    have w1: "ds_world ?s1 = (d\<lparr>jd_consumers := ?cs\<rparr>, w @ by_branch ?p)" by (simp add: set_db_def)
    have get1: "js_get ?cs ?name = Some ?r" by (simp add: js_map_simps)
    obtain r2 where cl: "claim_op e ?s1 = Inr (True, cr_rebuild_pending ?r, None,
        ?s1\<lparr>ds_world := (d\<lparr>jd_consumers := js_set ?name r2 ?cs\<rparr>, w @ by_branch ?p), ds_tick := Suc (ds_tick ?s1)\<rparr>)"
      "claimed_row e (Suc (ds_tick ?s1)) r2" "cr_cursor r2 = cr_cursor ?r" "cr_page_target r2 = cr_page_target ?r"
      "cr_page_after r2 = cr_page_after ?r"
      using claim_op_quiet [OF q get1 w1] Suc.prems(3) by (auto simp: claimed_row_def)
    let ?s2 = "?s1\<lparr>ds_world := (d\<lparr>jd_consumers := js_set ?name r2 ?cs\<rparr>, w @ by_branch ?p), ds_tick := Suc (ds_tick ?s1)\<rparr>"
    have step: "drain_batches e (Suc n) s = drain_batches e n ?s2"
      using poll True Suc.prems(1) disp com cl(1) n(1) by simp
    have rest: "drop ?l xs = unread_rows d (cr_cursor r2) (read_target d (cr_page_target r2)) (cr_page_after r2) ?f"
      using next_page [OF Suc.prems(4) assms(2) Suc.prems(6) l(1) True] cl(3-5) by (simp add: read_target_def)
    have "\<exists>s' cs' r' groups. drain_batches e n ?s2 = (Released False, s')
      \<and> ds_world s' = (d\<lparr>jd_consumers := cs'\<rparr>, (w @ by_branch ?p) @ groups)
      \<and> (\<forall>b. of_branch b groups = branch_changes b (drop ?l xs))
      \<and> ds_changes s' = ds_changes ?s2 + length (drop ?l xs) \<and> ds_rebuilt s' = ds_rebuilt ?s2
      \<and> js_get cs' ?name = Some r' \<and> cr_cursor r' = read_target d (cr_page_target r2)
      \<and> cr_page_target r' = None \<and> cr_page_after r' = None \<and> cr_claimed_by r' = None"
      by (rule Suc.IH [where cs = "js_set ?name r2 ?cs" and r = r2])
        (use cl Suc.prems(4,5) rest n in \<open>simp_all add: js_map_simps\<close>)
    then obtain s' cs' r' groups where fin: "drain_batches e n ?s2 = (Released False, s')"
      "ds_world s' = (d\<lparr>jd_consumers := cs'\<rparr>, (w @ by_branch ?p) @ groups)"
      "\<forall>b. of_branch b groups = branch_changes b (drop ?l xs)"
      "ds_changes s' = ds_changes ?s2 + length (drop ?l xs)" "ds_rebuilt s' = ds_rebuilt ?s2"
      "js_get cs' ?name = Some r'" "cr_cursor r' = read_target d (cr_page_target r2)"
      "cr_page_target r' = None" "cr_page_after r' = None" "cr_claimed_by r' = None" by blast
    have "of_branch b (by_branch ?p @ groups) = branch_changes b xs" for b
      using fin(3) by (simp add: by_branch_of branch_changes_append [symmetric])
    moreover have "ds_changes s' = ds_changes s + length xs"
      using fin(4) True by (simp add: set_db_def)
    moreover have "ds_rebuilt s' = ds_rebuilt s" using fin(5) by (simp add: set_db_def)
    ultimately show ?thesis
      using step fin cl(4) by (intro exI [of _ s'] exI [of _ cs'] exI [of _ r'] exI [of _ "by_branch ?p @ groups"])
        (simp add: read_target_def)
  qed
qed simp

text \<open>C20. A drain delivers each change once: when the database is quiet, a drain of a consumer that
  is built and has lost nothing returns without an error, having given the plugin exactly the
  changes it had not read that its filter asks for, each once and every branch's in journal
  order, and leaves the cursor where its read pointed, with the claim given back.\<close>

theorem drain_delivers_each_change_once:
  assumes "quiet_env e" "journal_ok d" "js_get (jd_consumers d) (consumer_name e) = Some r"
    and "\<not> cr_rebuild_pending r" "cr_claimed_by r = None \<or> cr_claimed_by r = Some (de_holder e)"
    and "snapshot_ok (cr_cursor r)" "\<not> past_horizon (cr_cursor r) d"
    and "xs = unread_rows d (cr_cursor r) (read_target d (cr_page_target r)) (cr_page_after r) (pluginChangeFilter (de_plugin e))"
    and "0 < de_maxBatches e" "length xs \<le> de_maxBatches e * nat (de_batchSize e)"
  shows "\<exists>d' r' groups. drainOne e (d, w)
      = (\<lparr>dr_changes = length xs, dr_rebuilt = False, dr_skipped = False, dr_error = False, dr_more = False,
          dr_retryInMs = None\<rparr>, (d', w @ groups))
    \<and> (\<forall>b. of_branch b groups = branch_changes b xs) \<and> distinct (map journal_key xs)
    \<and> js_get (jd_consumers d') (consumer_name e) = Some r' \<and> cr_cursor r' = read_target d (cr_page_target r)
    \<and> cr_page_target r' = None \<and> cr_claimed_by r' = None"
proof -
  let ?name = "consumer_name e"
  let ?s = "\<lparr>ds_world = (d\<lparr>jd_consumers := jd_consumers d\<rparr>, w), ds_tick = 0, ds_changes = 0, ds_rebuilt = False\<rparr>"
  obtain r1 where r1: "claim_op e ?s = Inr (True, cr_rebuild_pending r, None,
      ?s\<lparr>ds_world := (d\<lparr>jd_consumers := js_set ?name r1 (jd_consumers d)\<rparr>, w), ds_tick := Suc (ds_tick ?s)\<rparr>)"
    "claimed_row e (Suc 0) r1" "cr_cursor r1 = cr_cursor r" "cr_page_target r1 = cr_page_target r"
    "cr_page_after r1 = cr_page_after r"
    using claim_op_quiet [OF assms(1,3) _ assms(5), of ?s d w] by auto
  let ?cs = "js_set ?name r1 (jd_consumers d)"
  let ?s1 = "\<lparr>ds_world = (d\<lparr>jd_consumers := ?cs\<rparr>, w), ds_tick = Suc 0, ds_changes = 0, ds_rebuilt = False\<rparr>"
  have keys: "distinct (map journal_key (jd_rows d))" using assms(2) by (simp add: journal_ok_def)
  obtain s' cs' r' groups where fin: "drain_batches e (de_maxBatches e) ?s1 = (Released False, s')"
    "ds_world s' = (d\<lparr>jd_consumers := cs'\<rparr>, w @ groups)" "\<forall>b. of_branch b groups = branch_changes b xs"
    "ds_changes s' = ds_changes ?s1 + length xs" "ds_rebuilt s' = ds_rebuilt ?s1"
    "js_get cs' ?name = Some r'" "cr_cursor r' = read_target d (cr_page_target r1)"
    "cr_page_target r' = None" "cr_claimed_by r' = None"
    using drain_batches_quiet [OF assms(1) keys, where s = ?s1 and cs = ?cs and r = r1 and xs = xs and n = "de_maxBatches e" and w = w]
      r1 assms(6-10) by (auto simp: js_map_simps)
  have "drainOne e (d, w) = (\<lparr>dr_changes = length xs, dr_rebuilt = False, dr_skipped = False, dr_error = False,
      dr_more = False, dr_retryInMs = None\<rparr>, (d\<lparr>jd_consumers := cs'\<rparr>, w @ groups))"
    using r1(1) assms(4) fin(1,2,4,5) by (simp add: drainOne_def Let_def)
  then show ?thesis
    using fin r1(4) unread_rows_distinct [OF assms(6) keys] assms(8) by auto
qed

section \<open>Examples\<close>

definition demo_plugin :: plugin_consumer where
  "demo_plugin = \<lparr>pc_pluginId = ''p'', pc_kinds = [''page''], pc_ownTables = [], pc_main_only = False\<rparr>"

definition demo_drain :: "branch_batch list drain_env" where
  "demo_drain =
     \<lparr>de_plugin = demo_plugin, de_holder = ''h'', de_batchSize = 1, de_maxBatches = 2, de_claimMs = 60000,
      de_clock = (\<lambda>i. int i), de_row_locked = (\<lambda>i. False), de_dispatch = quiet_dispatch,
      de_rebuild = (\<lambda>w. (True, w))\<rparr>"

lemma demo_drain_quiet: "quiet_env demo_drain"
  by (simp add: quiet_env_def demo_drain_def CLAIM_MS_def BATCH_def)

lemma demo_unread:
  "unread_rows demo_journal (cr_cursor demo_consumer) (read_target demo_journal None) None (pluginChangeFilter demo_plugin)
    = [demo_change 3 None, demo_change 4 (Some ''b'')]"
  by code_simp

lemma drain_delivers_each_change_once_witness:
  "dr_changes (fst (drainOne demo_drain (demo_journal, []))) = 2
    \<and> of_branch None (snd (snd (drainOne demo_drain (demo_journal, [])))) = [toPluginChange (demo_change 3 None)]"
proof -
  have fields: "de_plugin demo_drain = demo_plugin" "de_maxBatches demo_drain = 2" "de_batchSize demo_drain = 1"
    "cr_page_target demo_consumer = None" "cr_page_after demo_consumer = None" "cr_claimed_by demo_consumer = None"
    "\<not> cr_rebuild_pending demo_consumer" "\<not> past_horizon (cr_cursor demo_consumer) demo_journal"
    "snapshot_ok (cr_cursor demo_consumer)"
    by (simp_all add: demo_drain_def demo_consumer_def past_horizon_def demo_journal_def snapshot_ok_def)
  have row: "js_get (jd_consumers demo_journal) (consumer_name demo_drain) = Some demo_consumer"
    by (simp add: demo_journal_def demo_drain_def consumer_name_def changeConsumerName_def demo_plugin_def js_get_def)
  have "branch_changes None [demo_change 3 None, demo_change 4 (Some ''b'')] = [toPluginChange (demo_change 3 None)]"
    by (simp add: branch_changes_def demo_change_def)
  then show ?thesis
    using drain_delivers_each_change_once [OF demo_drain_quiet demo_journal_ok row fields(7) _ fields(9,8), of _ "[]"]
    by (force simp: fields demo_unread)
qed

end
