(* ===== verification/Consumer_Loop.thy ===== *)
theory Consumer_Loop
  imports Change_Consumers
begin

text \<open>
  The wake-up loop of the change consumers (startChangeConsumers in
  packages/plugin-host/src/change-consumers.ts): rounds of drains, the retry timer and the backoff
  of a consumer that failed.  The synchronous stretches between two awaits are the steps; what the
  drains report is the environment's.  A loaded plugin is its slug and the identity of its object,
  which a reload renews.
\<close>

section \<open>Draining every consumer\<close>

record loop_plugin =
  lp_slug :: string
  lp_consumer :: bool
  lp_disabled :: bool

type_synonym slug_report = "string \<times> DrainReport"

fun drainChangeConsumers ::
  "(loop_plugin \<Rightarrow> 'w \<Rightarrow> DrainReport \<times> 'w) \<Rightarrow> string option \<Rightarrow> (loop_plugin \<Rightarrow> bool)
   \<Rightarrow> loop_plugin list \<Rightarrow> 'w \<Rightarrow> slug_report list \<times> 'w" where
  "drainChangeConsumers drain only waiting [] w = ([], w)"
| "drainChangeConsumers drain only waiting (p # ps) w =
     (if \<not> lp_consumer p \<or> lp_disabled p then drainChangeConsumers drain only waiting ps w
      else if only \<noteq> None \<and> only \<noteq> Some (lp_slug p) then drainChangeConsumers drain only waiting ps w
      else if waiting p then drainChangeConsumers drain only waiting ps w
      else (case drain p w of
              (r, w1) \<Rightarrow> (case drainChangeConsumers drain only waiting ps w1 of
                           (rs, w2) \<Rightarrow> ((lp_slug p, r) # rs, w2))))"

section \<open>The state of the loop\<close>

definition TAKEOVER_SLACK_MS :: int where "TAKEOVER_SLACK_MS = 250"

definition FAILURE_RETRY_MIN_MS :: int where "FAILURE_RETRY_MIN_MS = 1000"

definition FAILURE_RETRY_MAX_MS :: int where "FAILURE_RETRY_MAX_MS = 5 * 60000"

record retry_limits =
  retryMinMs :: int
  retryMaxMs :: int

record ConsumerBackoff =
  bo_plugin :: nat
  bo_failures :: nat
  bo_notBefore :: int

record consumer_loop =
  cl_running :: bool
  cl_again :: bool
  cl_stopped :: bool
  cl_retry :: "int option"
  cl_backoffs :: "(string \<times> ConsumerBackoff) list"
  cl_loopFailureRetryMs :: int

definition scheduleRetry :: "int \<Rightarrow> int \<Rightarrow> consumer_loop \<Rightarrow> consumer_loop" where
  "scheduleRetry now inMs l =
     (if cl_stopped l then l
      else (let at = now + max 0 inMs + TAKEOVER_SLACK_MS
            in case cl_retry l of
                 Some r \<Rightarrow> if r \<le> at then l else l\<lparr>cl_retry := Some at\<rparr>
               | None \<Rightarrow> l\<lparr>cl_retry := Some at\<rparr>))"

definition clearBackoff :: "string \<Rightarrow> consumer_loop \<Rightarrow> consumer_loop" where
  "clearBackoff slug l = l\<lparr>cl_backoffs := js_delete slug (cl_backoffs l)\<rparr>"

definition forgetStale :: "(string \<times> nat) list \<Rightarrow> consumer_loop \<Rightarrow> consumer_loop" where
  "forgetStale loaded l =
     l\<lparr>cl_backoffs := filter (\<lambda>(slug, b). js_get loaded slug = Some (bo_plugin b)) (cl_backoffs l)\<rparr>"

definition isWaiting :: "string \<Rightarrow> nat \<Rightarrow> int \<Rightarrow> consumer_loop \<Rightarrow> bool" where
  "isWaiting slug plugin now l =
     (case js_get (cl_backoffs l) slug of
        None \<Rightarrow> False | Some b \<Rightarrow> bo_plugin b = plugin \<and> now < bo_notBefore b)"

definition retry_delay :: "retry_limits \<Rightarrow> nat \<Rightarrow> int" where
  "retry_delay lim failures = min (retryMinMs lim * 2 ^ min (failures - 1) 30) (retryMaxMs lim)"

definition settle ::
  "retry_limits \<Rightarrow> int \<Rightarrow> (string \<times> nat) list \<Rightarrow> slug_report \<Rightarrow> consumer_loop \<Rightarrow> consumer_loop" where
  "settle lim now loaded report l =
     (case report of (slug, r) \<Rightarrow>
        if dr_error r
        then (case js_get loaded slug of
                None \<Rightarrow> l
              | Some plugin \<Rightarrow>
                  (let failures = (case js_get (cl_backoffs l) slug of
                                     Some prev \<Rightarrow> if bo_plugin prev = plugin then bo_failures prev else 0
                                   | None \<Rightarrow> 0) + 1
                   in l\<lparr>cl_backoffs := js_set slug
                        \<lparr>bo_plugin = plugin, bo_failures = failures,
                         bo_notBefore = now + retry_delay lim failures\<rparr> (cl_backoffs l)\<rparr>))
        else if \<not> dr_skipped r then clearBackoff slug l else l)"

definition scheduleBackoffRetry :: "int \<Rightarrow> consumer_loop \<Rightarrow> consumer_loop" where
  "scheduleBackoffRetry now l =
     (if cl_backoffs l = [] then l
      else scheduleRetry now (Min (set (map (\<lambda>(slug, b). bo_notBefore b) (cl_backoffs l))) - now) l)"

definition wake :: "consumer_loop \<Rightarrow> consumer_loop" where
  "wake l = (if cl_running l then l\<lparr>cl_again := True\<rparr> else l\<lparr>cl_running := True\<rparr>)"

definition start_round :: "(string \<times> nat) list \<Rightarrow> consumer_loop \<Rightarrow> consumer_loop" where
  "start_round loaded l = forgetStale loaded (l\<lparr>cl_again := False\<rparr>)"

definition finish_round ::
  "retry_limits \<Rightarrow> int \<Rightarrow> (string \<times> nat) list \<Rightarrow> slug_report list \<Rightarrow> consumer_loop \<Rightarrow> consumer_loop" where
  "finish_round lim now loaded reports l =
     (let l1 = fold (settle lim now loaded) reports l;
          l2 = (if list_ex (\<lambda>(slug, r). dr_more r) reports then l1\<lparr>cl_again := True\<rparr> else l1);
          waits = List.map_filter (\<lambda>(slug, r). dr_retryInMs r) reports;
          l3 = (if waits = [] then l2 else scheduleRetry now (Min (set waits)) l2)
      in if cl_again l3 then l3
         else (scheduleBackoffRetry now l3)\<lparr>cl_loopFailureRetryMs := retryMinMs lim, cl_running := False\<rparr>)"

definition round_threw :: "retry_limits \<Rightarrow> int \<Rightarrow> consumer_loop \<Rightarrow> consumer_loop" where
  "round_threw lim now l =
     (scheduleRetry now (cl_loopFailureRetryMs l) l)
       \<lparr>cl_loopFailureRetryMs := min (cl_loopFailureRetryMs l * 2) (retryMaxMs lim), cl_running := False\<rparr>"

definition stop_loop :: "consumer_loop \<Rightarrow> consumer_loop" where
  "stop_loop l = l\<lparr>cl_stopped := True, cl_retry := None\<rparr>"

definition initial_loop :: "retry_limits \<Rightarrow> consumer_loop" where
  "initial_loop lim =
     \<lparr>cl_running = False, cl_again = False, cl_stopped = False, cl_retry = None, cl_backoffs = [],
      cl_loopFailureRetryMs = retryMinMs lim\<rparr>"

section \<open>The loop in its world\<close>

text \<open>The log holds the settled reports, newest first: slug, plugin, time, failed.  No operation
  reads it.\<close>

type_synonym settled = "string \<times> nat \<times> int \<times> bool"

record loop_world =
  lw_clock :: int
  lw_loaded :: "(string \<times> nat) list"
  lw_next :: nat
  lw_loop :: consumer_loop
  lw_log :: "settled list"

definition log_report :: "int \<Rightarrow> (string \<times> nat) list \<Rightarrow> slug_report \<Rightarrow> settled list \<Rightarrow> settled list" where
  "log_report now loaded report log =
     (case report of (slug, r) \<Rightarrow>
        if dr_skipped r \<and> \<not> dr_error r then log
        else (case js_get loaded slug of None \<Rightarrow> log | Some plugin \<Rightarrow> (slug, plugin, now, dr_error r) # log))"

inductive loop_step :: "retry_limits \<Rightarrow> loop_world \<Rightarrow> loop_world \<Rightarrow> bool" for lim where
  Passed: "lw_clock w \<le> now \<Longrightarrow> loop_step lim w (w\<lparr>lw_clock := now\<rparr>)"
| Plugin_loaded: "loop_step lim w (w\<lparr>lw_loaded := js_set slug (lw_next w) (lw_loaded w), lw_next := Suc (lw_next w)\<rparr>)"
| Plugin_gone: "loop_step lim w (w\<lparr>lw_loaded := js_delete slug (lw_loaded w)\<rparr>)"
| Woken: "loop_step lim w (w\<lparr>lw_loop := wake (lw_loop w)\<rparr>)"
| Timer: "cl_retry (lw_loop w) = Some at \<Longrightarrow> at \<le> lw_clock w
    \<Longrightarrow> loop_step lim w (w\<lparr>lw_loop := wake ((lw_loop w)\<lparr>cl_retry := None\<rparr>)\<rparr>)"
| Round_started: "cl_running (lw_loop w)
    \<Longrightarrow> loop_step lim w (w\<lparr>lw_loop := start_round (lw_loaded w) (lw_loop w)\<rparr>)"
| Round_ended: "cl_running (lw_loop w)
    \<Longrightarrow> loop_step lim w (w\<lparr>lw_loop := finish_round lim (lw_clock w) (lw_loaded w) reports (lw_loop w),
                           lw_log := fold (log_report (lw_clock w) (lw_loaded w)) reports (lw_log w)\<rparr>)"
| Round_threw: "cl_running (lw_loop w)
    \<Longrightarrow> loop_step lim w (w\<lparr>lw_loop := round_threw lim (lw_clock w) (lw_loop w)\<rparr>)"
| Stopped: "loop_step lim w (w\<lparr>lw_loop := stop_loop (lw_loop w)\<rparr>)"
| Cleared: "cl_stopped (lw_loop w) \<Longrightarrow> \<not> cl_running (lw_loop w)
    \<Longrightarrow> loop_step lim w (w\<lparr>lw_loop := (lw_loop w)\<lparr>cl_backoffs := []\<rparr>\<rparr>)"

inductive loop_reachable :: "retry_limits \<Rightarrow> loop_world \<Rightarrow> bool" for lim where
  started: "loop_reachable lim \<lparr>lw_clock = now, lw_loaded = [], lw_next = 0, lw_loop = initial_loop lim, lw_log = []\<rparr>"
| loop_steps: "loop_reachable lim w \<Longrightarrow> loop_step lim w w' \<Longrightarrow> loop_reachable lim w'"

section \<open>Failures in a row\<close>

text \<open>How often a plugin failed in a row, and when last.\<close>

fun failure_streak :: "string \<Rightarrow> nat \<Rightarrow> settled list \<Rightarrow> nat" where
  "failure_streak slug plugin [] = 0"
| "failure_streak slug plugin ((s, p, t, failed) # log) =
     (if s = slug \<and> p = plugin then if failed then Suc (failure_streak slug plugin log) else 0
      else failure_streak slug plugin log)"

fun last_settled :: "string \<Rightarrow> nat \<Rightarrow> settled list \<Rightarrow> int" where
  "last_settled slug plugin [] = 0"
| "last_settled slug plugin ((s, p, t, failed) # log) =
     (if s = slug \<and> p = plugin then t else last_settled slug plugin log)"

text \<open>What the backoffs say of a loaded plugin is what its log says.\<close>

definition backoff_of :: "retry_limits \<Rightarrow> string \<Rightarrow> nat \<Rightarrow> settled list \<Rightarrow> ConsumerBackoff" where
  "backoff_of lim slug plugin log =
     (let n = failure_streak slug plugin log
      in \<lparr>bo_plugin = plugin, bo_failures = n, bo_notBefore = last_settled slug plugin log + retry_delay lim n\<rparr>)"

definition backoffs_ok :: "retry_limits \<Rightarrow> (string \<times> nat) list \<Rightarrow> consumer_loop \<Rightarrow> settled list \<Rightarrow> bool" where
  "backoffs_ok lim loaded l log =
     (\<forall>slug plugin. js_get loaded slug = Some plugin \<longrightarrow>
        (if failure_streak slug plugin log = 0
         then \<forall>b. js_get (cl_backoffs l) slug = Some b \<longrightarrow> bo_plugin b \<noteq> plugin
         else js_get (cl_backoffs l) slug = Some (backoff_of lim slug plugin log)))"

definition ids_ok :: "nat \<Rightarrow> (string \<times> nat) list \<Rightarrow> consumer_loop \<Rightarrow> settled list \<Rightarrow> bool" where
  "ids_ok n loaded l log =
     (js_map_ok (cl_backoffs l)
      \<and> (\<forall>slug p. js_get loaded slug = Some p \<longrightarrow> p < n)
      \<and> (\<forall>slug b. js_get (cl_backoffs l) slug = Some b \<longrightarrow> bo_plugin b < n)
      \<and> (\<forall>e \<in> set log. fst (snd e) < n))"

definition waits_ok :: "retry_limits \<Rightarrow> int \<Rightarrow> consumer_loop \<Rightarrow> bool" where
  "waits_ok lim now l =
     ((\<forall>slug b. js_get (cl_backoffs l) slug = Some b \<longrightarrow> bo_notBefore b \<le> now + retryMaxMs lim)
      \<and> cl_loopFailureRetryMs l \<le> retryMaxMs lim)"

definition timer_ok :: "retry_limits \<Rightarrow> int \<Rightarrow> consumer_loop \<Rightarrow> bool" where
  "timer_ok lim now l =
     (\<not> cl_running l \<and> \<not> cl_stopped l \<and> cl_backoffs l \<noteq> []
      \<longrightarrow> (\<exists>at. cl_retry l = Some at \<and> at \<le> now + retryMaxMs lim + TAKEOVER_SLACK_MS))"

definition loop_ok :: "retry_limits \<Rightarrow> loop_world \<Rightarrow> bool" where
  "loop_ok lim w =
     (ids_ok (lw_next w) (lw_loaded w) (lw_loop w) (lw_log w)
      \<and> (cl_stopped (lw_loop w) \<or> backoffs_ok lim (lw_loaded w) (lw_loop w) (lw_log w))
      \<and> waits_ok lim (lw_clock w) (lw_loop w) \<and> timer_ok lim (lw_clock w) (lw_loop w))"

lemma streak_fresh: "\<forall>e \<in> set log. fst (snd e) < n \<Longrightarrow> failure_streak slug n log = 0"
  by (induction slug n log rule: failure_streak.induct) auto

lemma retry_delay_le: "retry_delay lim n \<le> retryMaxMs lim"
  by (simp add: retry_delay_def)

lemma schedule_fields [simp]:
  "cl_backoffs (scheduleRetry now i l) = cl_backoffs l" "cl_stopped (scheduleRetry now i l) = cl_stopped l"
  "cl_running (scheduleRetry now i l) = cl_running l" "cl_again (scheduleRetry now i l) = cl_again l"
  "cl_loopFailureRetryMs (scheduleRetry now i l) = cl_loopFailureRetryMs l"
  by (simp_all add: scheduleRetry_def Let_def split: option.splits)

lemma schedule_backoff_fields [simp]:
  "cl_backoffs (scheduleBackoffRetry now l) = cl_backoffs l" "cl_stopped (scheduleBackoffRetry now l) = cl_stopped l"
  "cl_running (scheduleBackoffRetry now l) = cl_running l" "cl_again (scheduleBackoffRetry now l) = cl_again l"
  "cl_loopFailureRetryMs (scheduleBackoffRetry now l) = cl_loopFailureRetryMs l"
  by (simp_all add: scheduleBackoffRetry_def)

lemma settle_fields [simp]:
  "cl_stopped (settle lim now loaded r l) = cl_stopped l" "cl_running (settle lim now loaded r l) = cl_running l"
  "cl_again (settle lim now loaded r l) = cl_again l" "cl_retry (settle lim now loaded r l) = cl_retry l"
  "cl_loopFailureRetryMs (settle lim now loaded r l) = cl_loopFailureRetryMs l"
  by (simp_all add: settle_def clearBackoff_def Let_def split: prod.splits option.splits)

lemma settle_all_fields [simp]:
  "cl_stopped (fold (settle lim now loaded) rs l) = cl_stopped l" "cl_running (fold (settle lim now loaded) rs l) = cl_running l"
  "cl_again (fold (settle lim now loaded) rs l) = cl_again l" "cl_retry (fold (settle lim now loaded) rs l) = cl_retry l"
  "cl_loopFailureRetryMs (fold (settle lim now loaded) rs l) = cl_loopFailureRetryMs l"
  by (induction rs arbitrary: l) simp_all

lemma schedule_retry_set:
  "\<not> cl_stopped l \<Longrightarrow> \<exists>at. cl_retry (scheduleRetry now i l) = Some at \<and> at \<le> now + max 0 i + TAKEOVER_SLACK_MS"
  by (auto simp: scheduleRetry_def Let_def split: option.splits)

section \<open>The reports of a round\<close>

lemma settle_waits:
  assumes "waits_ok lim now l"
  shows "waits_ok lim now (settle lim now loaded r l)"
  using assms retry_delay_le [of lim]
  by (auto simp: waits_ok_def settle_def clearBackoff_def Let_def js_map_simps split: prod.splits option.splits if_splits)

lemma log_ids:
  assumes "\<forall>e \<in> set log. fst (snd e) < n" "\<forall>slug p. js_get loaded slug = Some p \<longrightarrow> p < n"
  shows "\<forall>e \<in> set (log_report now loaded r log). fst (snd e) < n"
proof -
  consider "log_report now loaded r log = log"
    | p where "js_get loaded (fst r) = Some p" "log_report now loaded r log = (fst r, p, now, dr_error (snd r)) # log"
    by (cases "js_get loaded (fst r)"; cases "dr_skipped (snd r) \<and> \<not> dr_error (snd r)")
      (simp_all add: log_report_def case_prod_unfold)
  then show ?thesis using assms by cases simp_all
qed

lemma settle_ids:
  assumes "ids_ok n loaded l log"
  shows "ids_ok n loaded (settle lim now loaded r l) (log_report now loaded r log)"
proof -
  have "js_map_ok (cl_backoffs (settle lim now loaded r l))"
    using assms by (simp add: ids_ok_def settle_def clearBackoff_def Let_def js_map_ok_set js_map_ok_delete
        split: prod.split option.split)
  moreover have "bo_plugin b < n" if "js_get (cl_backoffs (settle lim now loaded r l)) slug = Some b" for slug b
    using assms that by (auto simp: ids_ok_def settle_def clearBackoff_def Let_def js_map_simps
        split: prod.splits option.splits if_splits)
  ultimately show ?thesis using assms log_ids [of log n loaded now r] by (simp add: ids_ok_def)
qed

lemma settle_backoffs:
  assumes "backoffs_ok lim loaded l log"
  shows "backoffs_ok lim loaded (settle lim now loaded (slug, r) l) (log_report now loaded (slug, r) log)"
  unfolding backoffs_ok_def
proof (intro allI impI)
  fix s p assume p: "js_get loaded s = Some p"
  then have old: "if failure_streak s p log = 0
      then \<forall>b. js_get (cl_backoffs l) s = Some b \<longrightarrow> bo_plugin b \<noteq> p
      else js_get (cl_backoffs l) s = Some (backoff_of lim s p log)"
    using assms by (simp add: backoffs_ok_def)
  let ?l = "settle lim now loaded (slug, r) l" and ?log = "log_report now loaded (slug, r) log"
  show "if failure_streak s p ?log = 0
      then \<forall>b. js_get (cl_backoffs ?l) s = Some b \<longrightarrow> bo_plugin b \<noteq> p
      else js_get (cl_backoffs ?l) s = Some (backoff_of lim s p ?log)"
  proof (cases "s = slug")
    case False
    then show ?thesis using old
      by (auto simp: settle_def log_report_def clearBackoff_def backoff_of_def Let_def js_map_simps split: option.splits)
  next
    case True
    then have prev: "(case js_get (cl_backoffs l) slug of Some prev \<Rightarrow> if bo_plugin prev = p then bo_failures prev else 0
        | None \<Rightarrow> 0) = failure_streak slug p log"
    proof (cases "failure_streak slug p log = 0")
      case zero: True
      then show ?thesis using old True by (auto split: option.splits)
    next
      case streak: False
      then have "js_get (cl_backoffs l) slug = Some (backoff_of lim slug p log)" using old True by simp
      then show ?thesis by (simp add: backoff_of_def Let_def)
    qed
    consider "dr_error r" | "\<not> dr_error r" "dr_skipped r" | "\<not> dr_error r" "\<not> dr_skipped r" by blast
    then show ?thesis
    proof cases
      case 1
      then show ?thesis using True p
        by (simp add: settle_def log_report_def prev backoff_of_def js_map_simps Let_def)
    next
      case 2
      then show ?thesis using old by (simp add: settle_def log_report_def)
    next
      case 3
      then show ?thesis using True p by (simp add: settle_def log_report_def clearBackoff_def js_map_simps)
    qed
  qed
qed

lemma settle_all:
  assumes "ids_ok n loaded l log" "waits_ok lim now l"
    and "cl_stopped l \<or> backoffs_ok lim loaded l log"
  shows "ids_ok n loaded (fold (settle lim now loaded) rs l) (fold (log_report now loaded) rs log)
    \<and> waits_ok lim now (fold (settle lim now loaded) rs l)
    \<and> (cl_stopped l \<or> backoffs_ok lim loaded (fold (settle lim now loaded) rs l) (fold (log_report now loaded) rs log))"
  using assms
proof (induction rs arbitrary: l log)
  case (Cons r rs)
  obtain slug d where "r = (slug, d)" by (cases r)
  then have "cl_stopped (settle lim now loaded r l)
      \<or> backoffs_ok lim loaded (settle lim now loaded r l) (log_report now loaded r log)"
    using Cons.prems(3) settle_backoffs [of lim loaded l log now slug d] by auto
  then show ?case
    using Cons.IH [OF settle_ids [OF Cons.prems(1)] settle_waits [OF Cons.prems(2)]] by simp
qed simp

text \<open>Only what the invariants read of the loop matters.\<close>

lemma ids_ok_cong: "cl_backoffs l' = cl_backoffs l \<Longrightarrow> ids_ok n loaded l' log = ids_ok n loaded l log"
  by (simp add: ids_ok_def)

lemma backoffs_ok_cong: "cl_backoffs l' = cl_backoffs l \<Longrightarrow> backoffs_ok lim loaded l' log = backoffs_ok lim loaded l log"
  by (simp add: backoffs_ok_def)

lemma waits_ok_cong:
  "cl_backoffs l' = cl_backoffs l \<Longrightarrow> cl_loopFailureRetryMs l' = cl_loopFailureRetryMs l
    \<Longrightarrow> waits_ok lim now l' = waits_ok lim now l"
  by (simp add: waits_ok_def)

lemma first_backoff_soon:
  assumes "waits_ok lim now l" "js_map_ok (cl_backoffs l)" "cl_backoffs l \<noteq> []"
  shows "Min (set (map (\<lambda>(slug, b). bo_notBefore b) (cl_backoffs l))) \<le> now + retryMaxMs lim"
proof -
  obtain slug b where "(slug, b) \<in> set (cl_backoffs l)" using assms(3) by (cases "cl_backoffs l") auto
  then have "bo_notBefore b \<le> now + retryMaxMs lim" "bo_notBefore b \<in> set (map (\<lambda>(slug, b). bo_notBefore b) (cl_backoffs l))"
    using assms(1) js_get_in [OF assms(2)] by (auto simp: waits_ok_def)
  then show ?thesis by (meson List.finite_set Min_le order_trans)
qed

lemma finish_round_ok:
  assumes "ids_ok n loaded l log" "waits_ok lim now l" "cl_stopped l \<or> backoffs_ok lim loaded l log"
    and lim: "0 \<le> retryMinMs lim" "retryMinMs lim \<le> retryMaxMs lim" and run: "cl_running l"
  shows "ids_ok n loaded (finish_round lim now loaded rs l) (fold (log_report now loaded) rs log)
    \<and> waits_ok lim now (finish_round lim now loaded rs l)
    \<and> (cl_stopped (finish_round lim now loaded rs l)
       \<or> backoffs_ok lim loaded (finish_round lim now loaded rs l) (fold (log_report now loaded) rs log))
    \<and> timer_ok lim now (finish_round lim now loaded rs l)"
proof -
  let ?l1 = "fold (settle lim now loaded) rs l" and ?log = "fold (log_report now loaded) rs log"
  let ?f = "finish_round lim now loaded rs l"
  note one = settle_all [OF assms(1-3), of rs]
  have fields: "cl_backoffs ?f = cl_backoffs ?l1" "cl_stopped ?f = cl_stopped l"
    "cl_loopFailureRetryMs ?f \<in> {cl_loopFailureRetryMs l, retryMinMs lim}"
    by (simp_all add: finish_round_def Let_def)
  have "timer_ok lim now ?f"
    unfolding timer_ok_def
  proof
    assume idle: "\<not> cl_running ?f \<and> \<not> cl_stopped ?f \<and> cl_backoffs ?f \<noteq> []"
    let ?l2 = "if list_ex (\<lambda>(slug, r). dr_more r) rs then ?l1\<lparr>cl_again := True\<rparr> else ?l1"
    let ?waits = "List.map_filter (\<lambda>(slug, r). dr_retryInMs r) rs"
    define l3 where "l3 = (if ?waits = [] then ?l2 else scheduleRetry now (Min (set ?waits)) ?l2)"
    have f: "?f = (if cl_again l3 then l3
        else (scheduleBackoffRetry now l3)\<lparr>cl_loopFailureRetryMs := retryMinMs lim, cl_running := False\<rparr>)"
      by (simp only: finish_round_def Let_def l3_def)
    have l3: "cl_backoffs l3 = cl_backoffs ?l1" "cl_stopped l3 = cl_stopped l" "cl_running l3 = cl_running l"
      by (simp_all add: l3_def)
    then have retry: "cl_retry ?f = cl_retry (scheduleBackoffRetry now l3)" using idle run unfolding f by (simp split: if_splits)
    have soon: "Min (set (map (\<lambda>(slug, b). bo_notBefore b) (cl_backoffs ?l1))) \<le> now + retryMaxMs lim"
      by (rule first_backoff_soon) (use one idle fields in \<open>simp_all add: ids_ok_def\<close>)
    show "\<exists>at. cl_retry ?f = Some at \<and> at \<le> now + retryMaxMs lim + TAKEOVER_SLACK_MS"
      using schedule_retry_set [of l3 now "Min (set (map (\<lambda>(slug, b). bo_notBefore b) (cl_backoffs ?l1))) - now"]
        l3 retry idle soon fields lim by (force simp: scheduleBackoffRetry_def)
  qed
  moreover have "waits_ok lim now ?f" using one fields lim assms(2) by (auto simp: waits_ok_def)
  ultimately show ?thesis
    using one fields ids_ok_cong [OF fields(1)] backoffs_ok_cong [OF fields(1)] by simp
qed

section \<open>Every step\<close>

lemma waits_ok_later:
  assumes "now \<le> now'" "waits_ok lim now l"
  shows "waits_ok lim now' l"
proof -
  have "bo_notBefore b \<le> now' + retryMaxMs lim" if "js_get (cl_backoffs l) slug = Some b" for slug b
  proof -
    have "bo_notBefore b \<le> now + retryMaxMs lim" using that assms(2) unfolding waits_ok_def by blast
    then show ?thesis using assms(1) by simp
  qed
  then show ?thesis using assms(2) by (simp add: waits_ok_def)
qed

lemma timer_ok_later: "now \<le> now' \<Longrightarrow> timer_ok lim now l \<Longrightarrow> timer_ok lim now' l"
  by (auto simp: timer_ok_def)

lemma backoffs_ok_loaded:
  assumes "backoffs_ok lim loaded l log"
    and "\<And>s p. js_get loaded' s = Some p \<Longrightarrow> js_get loaded s = Some p
      \<or> (failure_streak s p log = 0 \<and> (\<forall>b. js_get (cl_backoffs l) s = Some b \<longrightarrow> bo_plugin b \<noteq> p))"
  shows "backoffs_ok lim loaded' l log"
  unfolding backoffs_ok_def
proof (intro allI impI)
  fix s p assume "js_get loaded' s = Some p"
  from assms(2) [OF this]
  show "if failure_streak s p log = 0 then \<forall>b. js_get (cl_backoffs l) s = Some b \<longrightarrow> bo_plugin b \<noteq> p
      else js_get (cl_backoffs l) s = Some (backoff_of lim s p log)"
  proof
    assume "js_get loaded s = Some p"
    then show ?thesis using assms(1) unfolding backoffs_ok_def by blast
  qed simp
qed

lemma forget_ids:
  assumes "ids_ok n loaded l log"
  shows "ids_ok n loaded (forgetStale loaded l) log"
proof -
  have "js_map_ok (cl_backoffs l)" using assms by (simp add: ids_ok_def)
  note get = js_get_filter [OF this]
  have "js_map_ok (cl_backoffs (forgetStale loaded l))"
    using assms by (simp add: ids_ok_def forgetStale_def js_map_ok_def distinct_map_filter)
  moreover have "bo_plugin b < n" if "js_get (cl_backoffs (forgetStale loaded l)) slug = Some b" for slug b
  proof -
    have "js_get (cl_backoffs l) slug = Some b" using that by (simp add: forgetStale_def get split: option.splits if_splits)
    then show ?thesis using assms unfolding ids_ok_def by blast
  qed
  ultimately show ?thesis using assms by (simp add: ids_ok_def)
qed

lemma forget_get:
  assumes "js_map_ok (cl_backoffs l)" "js_get loaded s = Some p"
  shows "js_get (cl_backoffs (forgetStale loaded l)) s
    = (case js_get (cl_backoffs l) s of Some b \<Rightarrow> if bo_plugin b = p then Some b else None | None \<Rightarrow> None)"
  using assms(2) by (auto simp: forgetStale_def js_get_filter [OF assms(1)] split: option.split)

lemma forget_backoffs:
  assumes "backoffs_ok lim loaded l log" "js_map_ok (cl_backoffs l)"
  shows "backoffs_ok lim loaded (forgetStale loaded l) log"
  unfolding backoffs_ok_def
proof (intro allI impI)
  fix s p assume p: "js_get loaded s = Some p"
  have old: "if failure_streak s p log = 0 then \<forall>b. js_get (cl_backoffs l) s = Some b \<longrightarrow> bo_plugin b \<noteq> p
      else js_get (cl_backoffs l) s = Some (backoff_of lim s p log)"
    using assms(1) p unfolding backoffs_ok_def by blast
  show "if failure_streak s p log = 0
      then \<forall>b. js_get (cl_backoffs (forgetStale loaded l)) s = Some b \<longrightarrow> bo_plugin b \<noteq> p
      else js_get (cl_backoffs (forgetStale loaded l)) s = Some (backoff_of lim s p log)"
  proof (cases "failure_streak s p log = 0")
    case True
    then show ?thesis using old by (auto simp: forget_get [OF assms(2) p] split: option.splits if_splits)
  next
    case False
    then have "js_get (cl_backoffs l) s = Some (backoff_of lim s p log)" using old by simp
    then have "js_get (cl_backoffs (forgetStale loaded l)) s = Some (backoff_of lim s p log)"
      by (simp add: forget_get [OF assms(2) p]) (simp add: backoff_of_def Let_def)
    then show ?thesis using False by simp
  qed
qed

lemma forget_waits:
  assumes "waits_ok lim now l" "js_map_ok (cl_backoffs l)"
  shows "waits_ok lim now (forgetStale loaded l)"
proof -
  have "bo_notBefore b \<le> now + retryMaxMs lim" if "js_get (cl_backoffs (forgetStale loaded l)) slug = Some b" for slug b
  proof -
    have "js_get (cl_backoffs l) slug = Some b"
      using that by (simp add: forgetStale_def js_get_filter [OF assms(2)] split: option.splits if_splits)
    then show ?thesis using assms unfolding waits_ok_def by blast
  qed
  then show ?thesis using assms(1) by (simp add: waits_ok_def forgetStale_def)
qed

text \<open>A step that leaves the backoffs alone and the loop running or its timer set.\<close>

lemma loop_ok_same:
  assumes "loop_ok lim w" "cl_backoffs l = cl_backoffs (lw_loop w)" "cl_stopped (lw_loop w) \<longrightarrow> cl_stopped l"
    and "cl_loopFailureRetryMs l \<le> retryMaxMs lim" "timer_ok lim (lw_clock w) l"
  shows "loop_ok lim (w\<lparr>lw_loop := l\<rparr>)"
  using assms ids_ok_cong [OF assms(2)] backoffs_ok_cong [OF assms(2)] by (auto simp: loop_ok_def waits_ok_def)

lemma loop_ok_step:
  assumes "loop_step lim w w'" "loop_ok lim w" "0 \<le> retryMinMs lim" "retryMinMs lim \<le> retryMaxMs lim"
  shows "loop_ok lim w'"
  using assms(1,2)
proof (induction rule: loop_step.induct)
  case (Passed w now)
  then show ?case using waits_ok_later timer_ok_later by (simp add: loop_ok_def)
next
  case (Plugin_loaded w slug)
  have "failure_streak s (lw_next w) (lw_log w) = 0" for s
    using Plugin_loaded by (intro streak_fresh) (simp add: loop_ok_def ids_ok_def)
  moreover have "bo_plugin b \<noteq> lw_next w" if "js_get (cl_backoffs (lw_loop w)) s = Some b" for s b
    using Plugin_loaded that by (simp add: loop_ok_def ids_ok_def) (metis less_irrefl)
  ultimately have fresh: "failure_streak s (lw_next w) (lw_log w) = 0
      \<and> (\<forall>b. js_get (cl_backoffs (lw_loop w)) s = Some b \<longrightarrow> bo_plugin b \<noteq> lw_next w)" for s
    by blast
  have "backoffs_ok lim (js_set slug (lw_next w) (lw_loaded w)) (lw_loop w) (lw_log w)"
    if "backoffs_ok lim (lw_loaded w) (lw_loop w) (lw_log w)"
    by (rule backoffs_ok_loaded [OF that]) (use fresh in \<open>auto simp: js_map_simps split: if_splits\<close>)
  then show ?case
    using Plugin_loaded by (auto simp: loop_ok_def ids_ok_def js_map_simps less_Suc_eq)
next
  case (Plugin_gone w slug)
  have "backoffs_ok lim (js_delete slug (lw_loaded w)) (lw_loop w) (lw_log w)"
    if "backoffs_ok lim (lw_loaded w) (lw_loop w) (lw_log w)"
    by (rule backoffs_ok_loaded [OF that]) (auto simp: js_map_simps split: if_splits)
  then show ?case using Plugin_gone by (auto simp: loop_ok_def ids_ok_def js_map_simps)
next
  case (Woken w)
  then show ?case by (intro loop_ok_same) (simp_all add: loop_ok_def wake_def waits_ok_def timer_ok_def)
next
  case (Timer w at)
  then show ?case by (intro loop_ok_same) (simp_all add: loop_ok_def wake_def waits_ok_def timer_ok_def)
next
  case (Round_started w)
  let ?l = "(lw_loop w)\<lparr>cl_again := False\<rparr>"
  have ok: "js_map_ok (cl_backoffs ?l)" using Round_started by (simp add: loop_ok_def ids_ok_def)
  have "timer_ok lim (lw_clock w) (start_round (lw_loaded w) (lw_loop w))"
    using Round_started by (simp add: timer_ok_def start_round_def forgetStale_def)
  moreover have "ids_ok (lw_next w) (lw_loaded w) ?l (lw_log w)" "waits_ok lim (lw_clock w) ?l"
    "cl_stopped ?l \<or> backoffs_ok lim (lw_loaded w) ?l (lw_log w)"
    using Round_started ids_ok_cong [of ?l "lw_loop w"] backoffs_ok_cong [of ?l "lw_loop w"] waits_ok_cong [of ?l "lw_loop w"]
    by (simp_all add: loop_ok_def)
  moreover have "cl_stopped (forgetStale (lw_loaded w) ?l) = cl_stopped ?l" by (simp add: forgetStale_def)
  ultimately show ?case
    using forget_ids [of _ _ ?l] forget_waits [OF _ ok] forget_backoffs [OF _ ok]
    by (auto simp: loop_ok_def start_round_def)
next
  case (Round_ended w reports)
  then have old: "ids_ok (lw_next w) (lw_loaded w) (lw_loop w) (lw_log w)" "waits_ok lim (lw_clock w) (lw_loop w)"
    "cl_stopped (lw_loop w) \<or> backoffs_ok lim (lw_loaded w) (lw_loop w) (lw_log w)"
    by (simp_all add: loop_ok_def)
  show ?case
    using finish_round_ok [OF old assms(3,4) Round_ended(1), of reports] by (simp add: loop_ok_def)
next
  case (Round_threw w)
  let ?l = "lw_loop w"
  have le: "cl_loopFailureRetryMs ?l \<le> retryMaxMs lim" using Round_threw by (simp add: loop_ok_def waits_ok_def)
  have "\<exists>at. cl_retry (scheduleRetry (lw_clock w) (cl_loopFailureRetryMs ?l) ?l) = Some at
      \<and> at \<le> lw_clock w + retryMaxMs lim + TAKEOVER_SLACK_MS" if "\<not> cl_stopped ?l"
    using schedule_retry_set [OF that, of "lw_clock w" "cl_loopFailureRetryMs ?l"] le assms(3,4) by force
  then have "timer_ok lim (lw_clock w) (round_threw lim (lw_clock w) ?l)"
    by (simp add: timer_ok_def round_threw_def)
  then show ?case using Round_threw by (intro loop_ok_same) (simp_all add: round_threw_def)
next
  case (Stopped w)
  then show ?case by (intro loop_ok_same) (simp_all add: loop_ok_def stop_loop_def waits_ok_def timer_ok_def)
next
  case (Cleared w)
  then show ?case by (simp add: loop_ok_def ids_ok_def waits_ok_def timer_ok_def js_get_nil js_map_ok_def)
qed

lemma loop_reachable_ok:
  assumes "loop_reachable lim w" "0 \<le> retryMinMs lim" "retryMinMs lim \<le> retryMaxMs lim"
  shows "loop_ok lim w"
  using assms(1)
proof (induction rule: loop_reachable.induct)
  case (started now)
  then show ?case using assms(2,3)
    by (simp add: loop_ok_def ids_ok_def backoffs_ok_def waits_ok_def timer_ok_def initial_loop_def js_get_nil js_map_ok_def)
qed (use loop_ok_step assms(2,3) in blast)

text \<open>C26. Only a failing consumer waits, and it is not forgotten: while the loop is not stopped,
  whatever wakes it and however plugins come, go and are reloaded, a loaded plugin's consumer is
  left out of a round exactly while it failed n > 0 times in a row since its last success and
  the delay after the last failure - the first one doubled n - 1 times, at most the longest one -
  has not passed; and when the loop is idle then, its timer is set and ends within the longest
  delay and the slack from now.\<close>

theorem failing_consumer_waits_and_is_retried:
  assumes "loop_reachable lim w" "0 < retryMinMs lim" "retryMinMs lim \<le> retryMaxMs lim"
    and "\<not> cl_stopped (lw_loop w)" "js_get (lw_loaded w) slug = Some plugin"
    and "n = failure_streak slug plugin (lw_log w)" "t = last_settled slug plugin (lw_log w)"
  shows "(isWaiting slug plugin now (lw_loop w)
      \<longleftrightarrow> 0 < n \<and> now < t + min (retryMinMs lim * 2 ^ min (n - 1) 30) (retryMaxMs lim))
    \<and> (0 < n \<and> \<not> cl_running (lw_loop w)
        \<longrightarrow> (\<exists>at. cl_retry (lw_loop w) = Some at \<and> at \<le> lw_clock w + retryMaxMs lim + TAKEOVER_SLACK_MS))"
proof -
  have ok: "loop_ok lim w" using loop_reachable_ok assms(1-3) by simp
  then have b: "if n = 0 then \<forall>b. js_get (cl_backoffs (lw_loop w)) slug = Some b \<longrightarrow> bo_plugin b \<noteq> plugin
      else js_get (cl_backoffs (lw_loop w)) slug = Some (backoff_of lim slug plugin (lw_log w))"
    using assms(4-6) by (auto simp: loop_ok_def backoffs_ok_def)
  then have "0 < n \<longrightarrow> cl_backoffs (lw_loop w) \<noteq> []" by (auto simp: js_get_nil)
  moreover have "isWaiting slug plugin now (lw_loop w)
      \<longleftrightarrow> 0 < n \<and> now < t + min (retryMinMs lim * 2 ^ min (n - 1) 30) (retryMaxMs lim)"
    using b assms(6,7) by (auto simp: isWaiting_def backoff_of_def retry_delay_def Let_def split: option.splits if_splits)
  ultimately show ?thesis using ok assms(4) by (auto simp: loop_ok_def timer_ok_def)
qed

text \<open>An example: the consumer of p fails once.\<close>

definition demo_limits :: retry_limits where
  "demo_limits = \<lparr>retryMinMs = FAILURE_RETRY_MIN_MS, retryMaxMs = FAILURE_RETRY_MAX_MS\<rparr>"

definition demo_failure :: DrainReport where
  "demo_failure =
     \<lparr>dr_changes = 0, dr_rebuilt = False, dr_skipped = False, dr_error = True, dr_more = False, dr_retryInMs = None\<rparr>"

definition demo_failed :: loop_world where
  "demo_failed =
     \<lparr>lw_clock = 5, lw_loaded = [(''p'', 0)], lw_next = 1,
      lw_loop = \<lparr>cl_running = False, cl_again = False, cl_stopped = False, cl_retry = Some 1255,
        cl_backoffs = [(''p'', \<lparr>bo_plugin = 0, bo_failures = 1, bo_notBefore = 1005\<rparr>)],
        cl_loopFailureRetryMs = 1000\<rparr>,
      lw_log = [(''p'', 0, 5, True)]\<rparr>"

lemma demo_failed_reachable: "loop_reachable demo_limits demo_failed"
proof -
  let ?w0 = "\<lparr>lw_clock = 5, lw_loaded = [], lw_next = 0, lw_loop = initial_loop demo_limits, lw_log = []\<rparr>"
  let ?w1 = "?w0\<lparr>lw_loaded := js_set ''p'' (lw_next ?w0) (lw_loaded ?w0), lw_next := Suc (lw_next ?w0)\<rparr>"
  let ?w2 = "?w1\<lparr>lw_loop := wake (lw_loop ?w1)\<rparr>"
  let ?w3 = "?w2\<lparr>lw_loop := start_round (lw_loaded ?w2) (lw_loop ?w2)\<rparr>"
  let ?w4 = "?w3\<lparr>lw_loop := finish_round demo_limits (lw_clock ?w3) (lw_loaded ?w3) [(''p'', demo_failure)] (lw_loop ?w3),
    lw_log := fold (log_report (lw_clock ?w3) (lw_loaded ?w3)) [(''p'', demo_failure)] (lw_log ?w3)\<rparr>"
  have run: "cl_running (lw_loop ?w2)" "cl_running (lw_loop ?w3)"
    by (simp_all add: wake_def initial_loop_def start_round_def forgetStale_def)
  have "loop_reachable demo_limits ?w1"
    by (rule loop_steps [OF loop_reachable.started]) (rule loop_step.Plugin_loaded)
  then have "loop_reachable demo_limits ?w2" by (rule loop_steps) (rule loop_step.Woken)
  then have "loop_reachable demo_limits ?w3" by (rule loop_steps) (rule loop_step.Round_started [OF run(1)])
  then have "loop_reachable demo_limits ?w4" by (rule loop_steps) (rule loop_step.Round_ended [OF run(2)])
  moreover have "?w4 = demo_failed"
    by code_simp
  ultimately show ?thesis by simp
qed

lemma failing_consumer_waits_and_is_retried_witness:
  "isWaiting ''p'' 0 1004 (lw_loop demo_failed) \<and> \<not> isWaiting ''p'' 0 1005 (lw_loop demo_failed)
    \<and> (\<exists>at. cl_retry (lw_loop demo_failed) = Some at \<and> at \<le> 300255)"
proof -
  have f: "0 < retryMinMs demo_limits" "retryMinMs demo_limits \<le> retryMaxMs demo_limits"
    "\<not> cl_stopped (lw_loop demo_failed)" "js_get (lw_loaded demo_failed) ''p'' = Some 0"
    "1 = failure_streak ''p'' 0 (lw_log demo_failed)" "5 = last_settled ''p'' 0 (lw_log demo_failed)"
    by (simp_all add: demo_failed_def demo_limits_def FAILURE_RETRY_MIN_MS_def FAILURE_RETRY_MAX_MS_def js_get_def)
  have n: "retryMinMs demo_limits = 1000" "retryMaxMs demo_limits = 300000" "TAKEOVER_SLACK_MS = 250"
    "lw_clock demo_failed = 5" "\<not> cl_running (lw_loop demo_failed)"
    by (simp_all add: demo_failed_def demo_limits_def FAILURE_RETRY_MIN_MS_def FAILURE_RETRY_MAX_MS_def TAKEOVER_SLACK_MS_def)
  note claim = failing_consumer_waits_and_is_retried [OF demo_failed_reachable f, unfolded n]
  have "isWaiting ''p'' 0 1004 (lw_loop demo_failed)" using claim [of 1004] by simp
  moreover have "\<not> isWaiting ''p'' 0 1005 (lw_loop demo_failed)" using claim [of 1005] by simp
  moreover have "\<exists>at. cl_retry (lw_loop demo_failed) = Some at \<and> at \<le> 300255" using claim [of 0] n(5) by simp
  ultimately show ?thesis by blast
qed

end
