(* ===== verification/Url_Composition.thy ===== *)
theory Url_Composition
  imports Query_Errors
begin

text \<open>
  The URL composition point of the plugin host (packages/plugin-host/src/url-composition.ts):
  the registry of the slots plugins claim, the grammar host, path prefix, ancestor slugs,
  slug, its inversion, and the collection of annotations.  What a plugin's encode and decode
  do and what its annotation operation answers are arguments of the model.
\<close>

section \<open>Contributions\<close>

datatype url_slot = Host_slot | Path_prefix_slot | Slug_format_slot | Full_path_slot

type_synonym annotations = "(string \<times> json) list"

record compose_page =
  cp_id :: string
  cp_slug :: string
  cp_ancestors :: "string list"
  cp_home :: bool
  cp_ann :: annotations

text \<open>A host encoder and a prefix decoder may throw (Inl).  The prefix decoder answers how
  many segments it consumed and what they imply, or null.\<close>

datatype contribution =
    Host_contribution "compose_page \<Rightarrow> string + string option" "string \<Rightarrow> annotations option"
  | Path_prefix "compose_page \<Rightarrow> string list"
      "string list \<Rightarrow> string + (int \<times> annotations) option"
  | Slug_format "compose_page \<Rightarrow> string" "string \<Rightarrow> string"
  | Full_path "compose_page \<Rightarrow> string"
      "string \<Rightarrow> (string \<times> string list option \<times> annotations) option"

fun contribution_slot :: "contribution \<Rightarrow> url_slot" where
  "contribution_slot (Host_contribution _ _) = Host_slot"
| "contribution_slot (Path_prefix _ _) = Path_prefix_slot"
| "contribution_slot (Slug_format _ _) = Slug_format_slot"
| "contribution_slot (Full_path _ _) = Full_path_slot"

section \<open>The registry\<close>

record url_registry =
  ur_by_slot :: "(url_slot \<times> (string \<times> contribution)) list"
  ur_ops :: "(string \<times> string) list"
  ur_disabled :: "string list"

datatype claim_error =
    Already_claimed url_slot string string
  | Full_path_exclusive "url_slot list"
  | Full_path_held url_slot string

definition isPluginDisabled :: "url_registry \<Rightarrow> string \<Rightarrow> bool" where
  "isPluginDisabled r plugin = (plugin \<in> set (ur_disabled r))"

definition holder_of :: "(url_slot \<times> (string \<times> contribution)) list \<Rightarrow> url_slot \<Rightarrow> string" where
  "holder_of claimed slot = (case js_get claimed slot of None \<Rightarrow> '''' | Some e \<Rightarrow> fst e)"

definition claim_one ::
  "url_registry \<Rightarrow> string \<Rightarrow> contribution \<Rightarrow> (url_slot \<times> (string \<times> contribution)) list
    \<Rightarrow> (claim_error, (url_slot \<times> (string \<times> contribution)) list) result" where
  "claim_one r plugin c claimed =
     (let slot = contribution_slot c;
          active = map fst (filter (\<lambda>e. \<not> isPluginDisabled r (fst (snd e))) claimed)
      in require (js_get claimed slot = None \<or> holder_of claimed slot = plugin)
           (Already_claimed slot (holder_of claimed slot) plugin)
           (require (slot \<noteq> Full_path_slot \<or> list_all (\<lambda>s. s = Full_path_slot) active)
              (Full_path_exclusive active)
              (require (slot = Full_path_slot \<or> js_get claimed Full_path_slot = None)
                 (Full_path_held slot (holder_of claimed Full_path_slot))
                 (Inr (js_set slot (plugin, c) claimed)))))"

fun claim_all ::
  "url_registry \<Rightarrow> string \<Rightarrow> contribution list \<Rightarrow> (url_slot \<times> (string \<times> contribution)) list
    \<Rightarrow> (claim_error, (url_slot \<times> (string \<times> contribution)) list) result" where
  "claim_all r plugin [] claimed = Inr claimed"
| "claim_all r plugin (c # cs) claimed =
     then_result (claim_one r plugin c claimed) (claim_all r plugin cs)"

definition assertClaimable :: "url_registry \<Rightarrow> string \<Rightarrow> contribution list \<Rightarrow> (claim_error, unit) result" where
  "assertClaimable r plugin cs =
     then_result (claim_all r plugin cs (ur_by_slot r)) (\<lambda>_. Inr ())"

definition register_url ::
  "url_registry \<Rightarrow> string \<Rightarrow> contribution list \<Rightarrow> string option \<Rightarrow> (claim_error, url_registry) result" where
  "register_url r plugin cs annotationsOperation =
     then_result (assertClaimable r plugin cs) (\<lambda>_.
       Inr (r\<lparr>ur_by_slot := fold (\<lambda>c m. js_set (contribution_slot c) (plugin, c) m) cs (ur_by_slot r),
              ur_ops := (case annotationsOperation of
                           Some oper \<Rightarrow> if oper = [] then ur_ops r else js_set plugin oper (ur_ops r)
                         | None \<Rightarrow> ur_ops r)\<rparr>))"

definition unregister_url :: "string \<Rightarrow> url_registry \<Rightarrow> url_registry" where
  "unregister_url plugin r =
     r\<lparr>ur_by_slot := filter (\<lambda>e. fst (snd e) \<noteq> plugin) (ur_by_slot r),
       ur_ops := js_delete plugin (ur_ops r)\<rparr>"

definition setPluginDisabled :: "string \<Rightarrow> bool \<Rightarrow> url_registry \<Rightarrow> url_registry" where
  "setPluginDisabled plugin disabled r =
     r\<lparr>ur_disabled := (if disabled then (if plugin \<in> set (ur_disabled r) then ur_disabled r
                                       else ur_disabled r @ [plugin])
                     else filter (\<lambda>p. p \<noteq> plugin) (ur_disabled r))\<rparr>"

text \<open>A view composes as if one plugin were already gone.\<close>

definition bySlot :: "url_registry \<Rightarrow> string option \<Rightarrow> url_slot \<Rightarrow> (string \<times> contribution) option" where
  "bySlot r without slot =
     (case js_get (ur_by_slot r) slot of
        None \<Rightarrow> None
      | Some e \<Rightarrow>
          if isPluginDisabled r (fst e) then None
          else if without = Some (fst e) then None
          else Some e)"

definition activeSlots :: "url_registry \<Rightarrow> url_slot list" where
  "activeSlots r = filter (\<lambda>s. bySlot r None s \<noteq> None) (map fst (ur_by_slot r))"

section \<open>Composition\<close>

datatype url_error =
    Bad_segment string string
  | Bad_host string string
  | Full_path_relative string string
  | Full_path_trailing string string
  | Empty_slug string string
  | Cannot_decode string string
  | Bad_consumed string int nat
  | Ambiguous_prefix string
  | Encode_threw string string

definition ascii_alnum :: "char \<Rightarrow> bool" where
  "ascii_alnum c =
     (let n = (of_char c :: nat)
      in (48 \<le> n \<and> n \<le> 57) \<or> (65 \<le> n \<and> n \<le> 90) \<or> (97 \<le> n \<and> n \<le> 122))"

definition segment_char :: "char \<Rightarrow> bool" where
  "segment_char c = (ascii_alnum c \<or> c \<in> set ''._~-'')"

definition is_segment :: "string \<Rightarrow> bool" where
  "is_segment s =
     (case s of
        [] \<Rightarrow> False
      | c # cs \<Rightarrow> ascii_alnum c \<and> list_all segment_char cs)"

definition assertSegment :: "string \<Rightarrow> string \<Rightarrow> (url_error, 'a) result \<Rightarrow> (url_error, 'a) result" where
  "assertSegment seg source =
     require (is_segment seg \<and> slash \<notin> set seg \<and> seg \<noteq> ''.'' \<and> seg \<noteq> ''..'') (Bad_segment source seg)"

fun assertSegments :: "string list \<Rightarrow> string \<Rightarrow> (url_error, 'a) result \<Rightarrow> (url_error, 'a) result" where
  "assertSegments [] source k = k"
| "assertSegments (seg # segs) source k = assertSegment seg source (assertSegments segs source k)"

definition host_label :: "string \<Rightarrow> bool" where
  "host_label l =
     (l \<noteq> [] \<and> ascii_alnum (hd l) \<and> ascii_alnum (last l)
      \<and> list_all (\<lambda>c. ascii_alnum c \<or> c = CHR ''-'') l)"

definition is_host :: "string \<Rightarrow> bool" where
  "is_host h =
     (case split_on (CHR '':'') h of
        [name] \<Rightarrow> list_all host_label (split_on (CHR ''.'') name)
      | [name, port] \<Rightarrow>
          list_all host_label (split_on (CHR ''.'') name)
          \<and> 1 \<le> length port \<and> length port \<le> 5 \<and> list_all is_digit port
      | _ \<Rightarrow> False)"

definition resolvePageHost ::
  "url_registry \<Rightarrow> string option \<Rightarrow> compose_page \<Rightarrow> (url_error, string option) result" where
  "resolvePageHost r without page =
     (case bySlot r without Host_slot of
        Some (plugin, Host_contribution enc dec) \<Rightarrow>
          (case enc page of
             Inl e \<Rightarrow> Inl (Encode_threw plugin e)
           | Inr None \<Rightarrow> Inr None
           | Inr (Some h) \<Rightarrow> require (is_host h) (Bad_host plugin h) (Inr (Some h)))
      | _ \<Rightarrow> Inr None)"

definition check_full_path :: "string \<Rightarrow> string \<Rightarrow> (url_error, 'a) result \<Rightarrow> (url_error, 'a) result" where
  "check_full_path plugin path k =
     require (starts_with path ''/'') (Full_path_relative plugin path)
       (if path = ''/'' then k
        else require (\<not> ends_with path ''/'') (Full_path_trailing plugin path)
               (assertSegments (split_on slash (drop 1 path)) (plugin @ ''/full-path'') k))"

definition prefix_segments :: "url_registry \<Rightarrow> string option \<Rightarrow> compose_page \<Rightarrow> string \<times> string list" where
  "prefix_segments r without page =
     (case bySlot r without Path_prefix_slot of
        Some (plugin, Path_prefix enc dec) \<Rightarrow> (plugin @ ''/path-prefix'', enc page)
      | _ \<Rightarrow> ('''', []))"

definition slug_part :: "url_registry \<Rightarrow> string option \<Rightarrow> compose_page \<Rightarrow> string \<times> string" where
  "slug_part r without page =
     (case bySlot r without Slug_format_slot of
        Some (plugin, Slug_format enc dec) \<Rightarrow> (plugin @ ''/slug-format'', enc page)
      | Some (plugin, _) \<Rightarrow> (plugin @ ''/slug-format'', cp_slug page)
      | None \<Rightarrow> (''core/slug'', cp_slug page))"

definition path_of_segments :: "string list \<Rightarrow> string" where
  "path_of_segments segs = ''/'' @ join_with ''/'' segs"

definition resolvePageUrl ::
  "url_registry \<Rightarrow> string option \<Rightarrow> compose_page \<Rightarrow> (url_error, string \<times> string option) result" where
  "resolvePageUrl r without page =
     then_result (resolvePageHost r without (page\<lparr>cp_ancestors := []\<rparr>)) (\<lambda>host.
       case bySlot r without Full_path_slot of
         Some (plugin, Full_path enc dec) \<Rightarrow>
           check_full_path plugin (enc page) (Inr (enc page, host))
       | _ \<Rightarrow>
           (let (psource, pre) = prefix_segments r without page
            in assertSegments pre psource
                 (if cp_home page then Inr (if pre = [] then ''/'' else path_of_segments pre, host)
                  else assertSegments (cp_ancestors page) ''core/parent-page''
                    (let (ssource, leaf) = slug_part r without page
                     in require (leaf \<noteq> []) (Empty_slug (cp_id page) (cp_slug page))
                          (assertSegment leaf ssource
                            (Inr (path_of_segments (pre @ cp_ancestors page @ [leaf]), host)))))))"

section \<open>Decoding\<close>

record decoded_path =
  dp_slug :: "string option"
  dp_ancestors :: "string list"
  dp_ann :: annotations

definition merge_ann :: "annotations \<Rightarrow> annotations \<Rightarrow> annotations" where
  "merge_ann a b = fold (\<lambda>(k, v). js_set k v) b a"

definition decode_prefix ::
  "url_registry \<Rightarrow> string list \<Rightarrow> (url_error, string list \<times> annotations) result" where
  "decode_prefix r segments =
     (case bySlot r None Path_prefix_slot of
        Some (plugin, Path_prefix enc dec) \<Rightarrow>
          (case dec segments of
             Inl e \<Rightarrow> Inl (Ambiguous_prefix e)
           | Inr None \<Rightarrow> Inr (segments, [])
           | Inr (Some (consumed, ann)) \<Rightarrow>
               require (0 \<le> consumed \<and> consumed \<le> int (length segments))
                 (Bad_consumed plugin consumed (length segments))
                 (Inr (drop (nat consumed) segments, merge_ann [] ann)))
      | _ \<Rightarrow> Inr (segments, []))"

definition decode_slug :: "url_registry \<Rightarrow> string \<Rightarrow> string" where
  "decode_slug r leaf =
     (case bySlot r None Slug_format_slot of
        Some (plugin, Slug_format enc dec) \<Rightarrow> dec leaf
      | _ \<Rightarrow> leaf)"

definition decodePagePath :: "url_registry \<Rightarrow> string \<Rightarrow> (url_error, decoded_path) result" where
  "decodePagePath r path =
     (let trimmed = trimSlashes path
      in case bySlot r None Full_path_slot of
           Some (plugin, Full_path enc dec) \<Rightarrow>
             (case dec (''/'' @ trimmed) of
                None \<Rightarrow> Inl (Cannot_decode plugin (''/'' @ trimmed))
              | Some (slug, ancestors, ann) \<Rightarrow>
                  Inr \<lparr>dp_slug = Some slug,
                       dp_ancestors = (case ancestors of None \<Rightarrow> [] | Some a \<Rightarrow> a), dp_ann = ann\<rparr>)
         | _ \<Rightarrow>
             then_result (decode_prefix r (if trimmed = [] then [] else split_on slash trimmed))
               (\<lambda>(segments, ann).
                  if segments = [] then Inr \<lparr>dp_slug = None, dp_ancestors = [], dp_ann = ann\<rparr>
                  else Inr \<lparr>dp_slug = Some (decode_slug r (last segments)),
                            dp_ancestors = butlast segments, dp_ann = ann\<rparr>))"

section \<open>Annotations\<close>

text \<open>What a plugin's annotation operation answers: the failure, or the record it returned
  (None when there is no annotations object in it).\<close>

datatype annotation_error = Op_failed string string string | No_annotations string string

fun collect_from ::
  "(string \<Rightarrow> string \<Rightarrow> string list \<Rightarrow> string + (string \<times> annotations) list option) \<Rightarrow> url_registry
    \<Rightarrow> string option \<Rightarrow> string list \<Rightarrow> (string \<times> string) list \<Rightarrow> (string \<times> annotations) list
    \<Rightarrow> (annotation_error, (string \<times> annotations) list) result" where
  "collect_from ask r without pageIds [] out = Inr out"
| "collect_from ask r without pageIds ((plugin, oper) # ops) out =
     (if isPluginDisabled r plugin \<or> without = Some plugin
      then collect_from ask r without pageIds ops out
      else case ask plugin oper pageIds of
             Inl e \<Rightarrow> Inl (Op_failed plugin oper e)
           | Inr None \<Rightarrow> Inl (No_annotations plugin oper)
           | Inr (Some anns) \<Rightarrow>
               collect_from ask r without pageIds ops
                 (fold (\<lambda>(p, ann) m. js_set p
                          (merge_ann (case js_get m p of None \<Rightarrow> [] | Some a \<Rightarrow> a) ann) m) anns out))"

definition collectUrlAnnotations ::
  "(string \<Rightarrow> string \<Rightarrow> string list \<Rightarrow> string + (string \<times> annotations) list option) \<Rightarrow> url_registry
    \<Rightarrow> string option \<Rightarrow> string list \<Rightarrow> (annotation_error, (string \<times> annotations) list) result" where
  "collectUrlAnnotations ask r without pageIds =
     (if pageIds = [] then Inr [] else collect_from ask r without pageIds (ur_ops r) [])"

definition urlAnnotationPluginSlugs :: "url_registry \<Rightarrow> string list" where
  "urlAnnotationPluginSlugs r = filter (\<lambda>p. \<not> isPluginDisabled r p) (map fst (ur_ops r))"

lemma js_get_cons: "js_get ((k, v) # m) x = (if x = k then Some v else js_get m x)"
  by (simp add: js_get_def)

section \<open>Annotations page by page\<close>

text \<open>An annotation operation answers about each page for itself: what it says of a page
  does not depend on which other pages are asked about in the same call.\<close>

locale page_annotator =
  fixes ask :: "string \<Rightarrow> string \<Rightarrow> string list \<Rightarrow> string + (string \<times> annotations) list option"
    and about :: "string \<Rightarrow> string \<Rightarrow> string \<Rightarrow> annotations option"
  assumes answers: "ask plugin oper ids = Inr (Some anns) \<Longrightarrow> js_map_ok anns
     \<and> (\<forall>i. js_get anns i = (if i \<in> set ids then about plugin oper i else None))"
begin

fun merged :: "url_registry \<Rightarrow> string option \<Rightarrow> (string \<times> string) list \<Rightarrow> string \<Rightarrow> annotations option \<Rightarrow> annotations option" where
  "merged r without [] i acc = acc"
| "merged r without ((plugin, oper) # ops) i acc =
     (if isPluginDisabled r plugin \<or> without = Some plugin then merged r without ops i acc
      else merged r without ops i
             (case about plugin oper i of None \<Rightarrow> acc
              | Some ann \<Rightarrow> Some (merge_ann (case acc of None \<Rightarrow> [] | Some a \<Rightarrow> a) ann)))"

lemma fold_merge:
  "js_map_ok anns \<Longrightarrow> js_get (fold (\<lambda>(p, ann) m. js_set p
       (merge_ann (case js_get m p of None \<Rightarrow> [] | Some a \<Rightarrow> a) ann) m) anns out) i
   = (case js_get anns i of None \<Rightarrow> js_get out i
      | Some ann \<Rightarrow> Some (merge_ann (case js_get out i of None \<Rightarrow> [] | Some a \<Rightarrow> a) ann))"
proof (induction anns arbitrary: out)
  case (Cons e anns)
  obtain p ann where e: "e = (p, ann)" by (cases e)
  have ok: "js_map_ok anns" and new: "js_get anns p = None"
    using Cons.prems by (auto simp: js_map_ok_def js_get_def map_of_eq_None_iff e)
  show ?case
    using Cons.IH [OF ok] new by (cases "i = p") (simp_all add: e js_map_simps js_get_cons split: option.splits)
qed (simp add: js_get_nil)

lemma collect_pagewise:
  "collect_from ask r without ids ops out = Inr anns \<Longrightarrow> i \<in> set ids
    \<Longrightarrow> js_get anns i = merged r without ops i (js_get out i)"
proof (induction ops arbitrary: out)
  case (Cons oper ops)
  obtain plugin name where o: "oper = (plugin, name)" by (cases oper)
  show ?case
  proof (cases "isPluginDisabled r plugin \<or> without = Some plugin")
    case True
    then show ?thesis using Cons o by simp
  next
    case False
    then obtain a where a: "ask plugin name ids = Inr (Some a)"
      using Cons.prems o by (auto split: sum.splits option.splits)
    note law = answers [OF a]
    show ?thesis
      using Cons.IH Cons.prems o False a law by (simp add: fold_merge)
  qed
qed simp

end

text \<open>An operation that answers some pages answers the same pages in any order, so that two
  collections over the same pages say the same of each.\<close>

locale steady_annotator = page_annotator +
  assumes same_pages: "ask plugin oper ids = Inr (Some anns) \<Longrightarrow> set ids' = set ids
     \<Longrightarrow> \<exists>anns'. ask plugin oper ids' = Inr (Some anns')"
begin

lemma collect_again:
  "collect_from ask r without ids ops out = Inr anns \<Longrightarrow> set ids' = set ids
    \<Longrightarrow> \<exists>anns'. collect_from ask r without ids' ops out' = Inr anns'"
proof (induction ops arbitrary: out out')
  case (Cons oper ops)
  obtain plugin name where o: "oper = (plugin, name)" by (cases oper)
  show ?case
  proof (cases "isPluginDisabled r plugin \<or> without = Some plugin")
    case True
    then show ?thesis using Cons o by simp
  next
    case False
    then obtain a where a: "ask plugin name ids = Inr (Some a)"
      using Cons.prems o by (auto split: sum.splits option.splits)
    obtain a' where "ask plugin name ids' = Inr (Some a')" using same_pages [OF a Cons.prems(2)] by blast
    then show ?thesis using Cons o False a by simp
  qed
qed simp

lemma collection_again:
  assumes "collectUrlAnnotations ask r without ids = Inr anns" "set ids' = set ids"
  shows "\<exists>anns'. collectUrlAnnotations ask r without ids' = Inr anns' \<and> (\<forall>i \<in> set ids. js_get anns' i = js_get anns i)"
proof (cases "ids = []")
  case True
  then show ?thesis using assms by (simp add: collectUrlAnnotations_def)
next
  case False
  then have ids': "ids' \<noteq> []" using assms(2) by auto
  have c: "collect_from ask r without ids (ur_ops r) [] = Inr anns"
    using assms(1) False by (simp add: collectUrlAnnotations_def)
  obtain anns' where c': "collect_from ask r without ids' (ur_ops r) [] = Inr anns'"
    using collect_again [OF c assms(2)] by blast
  then have "js_get anns' i = js_get anns i" if "i \<in> set ids" for i
    using collect_pagewise [OF c] collect_pagewise [OF c'] that assms(2) by simp
  then show ?thesis using c' ids' by (simp add: collectUrlAnnotations_def)
qed

end

section \<open>Checked segments\<close>

lemma assertSegments_Inr [result_simps]:
  "(assertSegments segs source k = Inr x) \<longleftrightarrow>
     (\<forall>s \<in> set segs. is_segment s \<and> slash \<notin> set s \<and> s \<noteq> ''.'' \<and> s \<noteq> ''..'') \<and> k = Inr x"
  by (induction segs) (auto simp: assertSegment_def result_simps)

definition plain_segment :: "string \<Rightarrow> bool" where
  "plain_segment s = (s \<noteq> [] \<and> slash \<notin> set s)"

lemma plain_ends: "plain_segment s \<Longrightarrow> s \<noteq> [] \<and> hd s \<noteq> slash \<and> last s \<noteq> slash"
  by (metis hd_in_set last_in_set plain_segment_def)

lemma is_segment_plain: "is_segment s \<Longrightarrow> slash \<notin> set s \<Longrightarrow> plain_segment s"
  by (auto simp: is_segment_def plain_segment_def split: list.splits)

lemma join_plain:
  "segs \<noteq> [] \<Longrightarrow> \<forall>s \<in> set segs. plain_segment s \<Longrightarrow>
     join_with ''/'' segs \<noteq> [] \<and> hd (join_with ''/'' segs) \<noteq> slash \<and> last (join_with ''/'' segs) \<noteq> slash"
proof (induction "''/''" segs rule: join_with.induct)
  case (3 w v ws)
  then have "join_with ''/'' (v # ws) \<noteq> []" "last (join_with ''/'' (v # ws)) \<noteq> slash" by simp_all
  moreover have "w \<noteq> []" "hd w \<noteq> slash" using 3 plain_ends by simp_all
  ultimately show ?case by simp
qed (use plain_ends in auto)

lemma trim_id:
  assumes "s \<noteq> []" "hd s \<noteq> slash" "last s \<noteq> slash"
  shows "trimSlashes (slash # s) = s"
proof -
  have "trim_start (slash # s) = s" using assms by (cases s) (simp_all add: trim_start_def)
  moreover have "trim_end s = s" using assms by (cases s rule: rev_cases) (simp_all add: trim_end_def)
  ultimately show ?thesis using trim_walks_equal_regex [of "slash # s"] by simp
qed

lemma trim_root: "trimSlashes ''/'' = []"
  by code_simp

lemma path_trim_split:
  assumes "segs \<noteq> []" "\<forall>s \<in> set segs. plain_segment s"
  shows "trimSlashes (path_of_segments segs) = join_with ''/'' segs"
    and "join_with ''/'' segs \<noteq> []" and "split_on slash (join_with ''/'' segs) = segs"
proof -
  note j = join_plain [OF assms]
  have "''/'' = [slash]" by (simp add: slash_def)
  then show "trimSlashes (path_of_segments segs) = join_with ''/'' segs"
    using trim_id [of "join_with ''/'' segs"] j by (simp add: path_of_segments_def)
  show "join_with ''/'' segs \<noteq> []" using j by simp
  show "split_on slash (join_with ''/'' segs) = segs"
    using split_join [OF assms(1), of slash] assms(2) by (simp add: plain_segment_def slash_def)
qed


section \<open>Exclusive slots\<close>

text \<open>While full-path is claimed, every other claimed slot belongs to a disabled plugin.\<close>

definition full_alone :: "url_registry \<Rightarrow> (url_slot \<times> (string \<times> contribution)) list \<Rightarrow> bool" where
  "full_alone r m \<longleftrightarrow> (js_get m Full_path_slot \<noteq> None \<longrightarrow>
     (\<forall>slot p c. js_get m slot = Some (p, c) \<longrightarrow> slot = Full_path_slot \<or> isPluginDisabled r p))"

lemma claim_one_ok:
  assumes "claim_one r plugin c m = Inr m'" "full_alone r m" "js_map_ok m"
  shows "m' = js_set (contribution_slot c) (plugin, c) m \<and> full_alone r m' \<and> js_map_ok m'
    \<and> (\<forall>e. js_get m (contribution_slot c) = Some e \<longrightarrow> fst e = plugin)"
proof -
  define slot where "slot = contribution_slot c"
  have m': "m' = js_set slot (plugin, c) m"
    and own: "js_get m slot = None \<or> holder_of m slot = plugin"
    and active: "slot \<noteq> Full_path_slot \<or> list_all (\<lambda>s. s = Full_path_slot)
        (map fst (filter (\<lambda>e. \<not> isPluginDisabled r (fst (snd e))) m))"
    and free: "slot = Full_path_slot \<or> js_get m Full_path_slot = None"
    using assms(1) unfolding claim_one_def Let_def require_Inr slot_def by simp_all
  have full: "slot \<noteq> Full_path_slot \<or> (\<forall>e \<in> set m. \<not> isPluginDisabled r (fst (snd e)) \<longrightarrow> fst e = Full_path_slot)"
    using active unfolding list_all_iff set_map set_filter by blast
  have "full_alone r m'"
  proof (cases "slot = Full_path_slot")
    case True
    have "t = Full_path_slot \<or> isPluginDisabled r p" if "js_get m' t = Some (p, d)" for t p d
    proof (cases "t = Full_path_slot")
      case False
      then have "(t, p, d) \<in> set m"
        using that True by (simp add: m' js_map_simps js_get_in [OF assms(3)])
      then show ?thesis using full True by force
    qed simp
    then show ?thesis by (simp add: full_alone_def)
  next
    case False
    then show ?thesis using free by (simp add: full_alone_def m' js_map_simps)
  qed
  then show ?thesis
    using m' own assms(3) by (auto simp: slot_def js_map_ok_set holder_of_def)
qed

lemma claim_all_ok:
  "claim_all r plugin cs m = Inr m' \<Longrightarrow> full_alone r m \<Longrightarrow> js_map_ok m
    \<Longrightarrow> m' = fold (\<lambda>c m. js_set (contribution_slot c) (plugin, c) m) cs m
      \<and> full_alone r m' \<and> js_map_ok m'
      \<and> (\<forall>c \<in> set cs. \<forall>e. js_get m (contribution_slot c) = Some e \<longrightarrow> fst e = plugin)"
proof (induction cs arbitrary: m)
  case (Cons c cs)
  from Cons.prems(1) obtain m1 where one: "claim_one r plugin c m = Inr m1"
      and rest: "claim_all r plugin cs m1 = Inr m'"
    by (auto simp: result_simps)
  note ok = claim_one_ok [OF one Cons.prems(2,3)]
  note IH = Cons.IH [OF rest]
  have "fst e = plugin" if "d \<in> set cs" "js_get m (contribution_slot d) = Some e" for d e
  proof (cases "contribution_slot d = contribution_slot c")
    case True
    then show ?thesis using ok that(2) by (cases e) simp
  next
    case False
    then have "js_get m1 (contribution_slot d) = Some e" using ok that(2) by (simp add: js_map_simps)
    then show ?thesis using IH ok that(1) by blast
  qed
  then show ?case using ok IH by auto
qed simp

definition url_registry_ok :: "url_registry \<Rightarrow> bool" where
  "url_registry_ok r \<longleftrightarrow> js_map_ok (ur_by_slot r) \<and> full_alone r (ur_by_slot r)"

lemma register_slots_get:
  "js_get (fold (\<lambda>c m. js_set (contribution_slot c) (plugin, c) m) cs m) slot =
     (if slot \<in> contribution_slot ` set cs
      then Some (plugin, last (filter (\<lambda>c. contribution_slot c = slot) cs)) else js_get m slot)"
proof (induction cs arbitrary: m)
  case (Cons c cs)
  have "(filter (\<lambda>c. contribution_slot c = slot) cs \<noteq> []) = (slot \<in> contribution_slot ` set cs)"
    by (auto simp: filter_empty_conv)
  then show ?case using Cons.IH by (auto simp: js_map_simps)
qed simp

text \<open>C31. A plugin that registers gets its slots, takes none from another plugin, and leaves
  full-path alone among the active slots.\<close>

theorem register_keeps_slots_exclusive:
  assumes "url_registry_ok r" "register_url r plugin cs oper = Inr r'"
  shows "url_registry_ok r'
    \<and> (\<forall>slot. js_get (ur_by_slot r') slot =
          (if slot \<in> contribution_slot ` set cs
           then Some (plugin, last (filter (\<lambda>c. contribution_slot c = slot) cs))
           else js_get (ur_by_slot r) slot))
    \<and> (\<forall>slot \<in> contribution_slot ` set cs. \<forall>e. js_get (ur_by_slot r) slot = Some e \<longrightarrow> fst e = plugin)
    \<and> (\<forall>slot. bySlot r' None Full_path_slot \<noteq> None \<longrightarrow> bySlot r' None slot \<noteq> None
          \<longrightarrow> slot = Full_path_slot)"
proof -
  obtain m where m: "claim_all r plugin cs (ur_by_slot r) = Inr m"
    using assms(2) by (auto simp: register_url_def assertClaimable_def result_simps)
  have r: "full_alone r (ur_by_slot r)" "js_map_ok (ur_by_slot r)" using assms(1) by (simp_all add: url_registry_ok_def)
  note ok = claim_all_ok [OF m r]
  have r': "ur_by_slot r' = m" "isPluginDisabled r' = isPluginDisabled r"
    using assms(2) ok by (auto simp: register_url_def result_simps isPluginDisabled_def fun_eq_iff)
  have "full_alone r' m" using ok r' by (simp add: full_alone_def)
  then have full: "slot = Full_path_slot"
    if "bySlot r' None Full_path_slot \<noteq> None" "bySlot r' None slot \<noteq> None" for slot
    using that by (auto simp: bySlot_def r' full_alone_def split: option.splits if_splits)
  have reg: "url_registry_ok r'" unfolding url_registry_ok_def r'(1) using ok \<open>full_alone r' m\<close> by blast
  have "js_get m slot = (if slot \<in> contribution_slot ` set cs
           then Some (plugin, last (filter (\<lambda>c. contribution_slot c = slot) cs))
           else js_get (ur_by_slot r) slot)" for slot
    using ok register_slots_get [of plugin cs "ur_by_slot r" slot] by simp
  then have "\<forall>slot. js_get (ur_by_slot r') slot = (if slot \<in> contribution_slot ` set cs
           then Some (plugin, last (filter (\<lambda>c. contribution_slot c = slot) cs))
           else js_get (ur_by_slot r) slot)" unfolding r'(1) by (rule allI)
  moreover have "\<forall>slot \<in> contribution_slot ` set cs. \<forall>e. js_get (ur_by_slot r) slot = Some e \<longrightarrow> fst e = plugin"
    using ok by simp
  ultimately show ?thesis using reg full by (intro conjI) simp_all
qed

lemma register_keeps_slots_exclusive_witness:
  "register_url \<lparr>ur_by_slot = [], ur_ops = [], ur_disabled = []\<rparr> ''router'' [Full_path (\<lambda>_. ''/all'') (\<lambda>_. None)] None
     = Inr \<lparr>ur_by_slot = [(Full_path_slot, (''router'', Full_path (\<lambda>_. ''/all'') (\<lambda>_. None)))], ur_ops = [], ur_disabled = []\<rparr>
   \<and> url_registry_ok \<lparr>ur_by_slot = [(Full_path_slot, (''router'', Full_path (\<lambda>_. ''/all'') (\<lambda>_. None)))],
        ur_ops = [], ur_disabled = []\<rparr>"
proof -
  have run: "register_url \<lparr>ur_by_slot = [], ur_ops = [], ur_disabled = []\<rparr> ''router'' [Full_path (\<lambda>_. ''/all'') (\<lambda>_. None)] None
     = Inr \<lparr>ur_by_slot = [(Full_path_slot, (''router'', Full_path (\<lambda>_. ''/all'') (\<lambda>_. None)))], ur_ops = [], ur_disabled = []\<rparr>"
    by (simp add: register_url_def assertClaimable_def claim_one_def holder_of_def js_get_def js_set_def)
  have "url_registry_ok \<lparr>ur_by_slot = [], ur_ops = [], ur_disabled = []\<rparr>"
    by (simp add: url_registry_ok_def full_alone_def js_map_ok_def js_get_def)
  from register_keeps_slots_exclusive [OF this run] show ?thesis using run by blast
qed

lemma unregister_ok: "url_registry_ok r \<Longrightarrow> url_registry_ok (unregister_url plugin r)"
proof -
  assume r: "url_registry_ok r"
  then have ok: "js_map_ok (ur_by_slot r)" by (simp add: url_registry_ok_def)
  have "isPluginDisabled (unregister_url plugin r) = isPluginDisabled r"
    by (simp add: isPluginDisabled_def unregister_url_def fun_eq_iff)
  moreover have "js_map_ok (ur_by_slot (unregister_url plugin r))"
    using ok by (simp add: unregister_url_def js_map_ok_def distinct_map_filter)
  moreover have "js_get (ur_by_slot (unregister_url plugin r)) slot = Some e
      \<Longrightarrow> js_get (ur_by_slot r) slot = Some e" for slot e
    by (auto simp: unregister_url_def js_get_filter [OF ok] split: option.splits if_splits)
  ultimately show ?thesis using r unfolding url_registry_ok_def full_alone_def by (metis not_None_eq)
qed

lemma disable_ok: "url_registry_ok r \<Longrightarrow> url_registry_ok (setPluginDisabled plugin True r)"
  by (auto simp: url_registry_ok_def full_alone_def setPluginDisabled_def isPluginDisabled_def)

text \<open>Re-enabling a disabled plugin checks nothing: its slot comes back beside a
  full-path claimed meanwhile, and full-path silently wins.\<close>

definition sample_prefix :: contribution where
  "sample_prefix = Path_prefix (\<lambda>_. [''de'']) (\<lambda>_. Inr None)"

definition sample_full :: contribution where
  "sample_full = Full_path (\<lambda>_. ''/all'') (\<lambda>_. None)"

definition two_plugins :: url_registry where
  "two_plugins = \<lparr>ur_by_slot = [(Path_prefix_slot, (''languages'', sample_prefix)),
                                (Full_path_slot, (''router'', sample_full))],
                  ur_ops = [], ur_disabled = []\<rparr>"

lemma reenabled_plugin_beside_full_path:
  "then_result (register_url \<lparr>ur_by_slot = [], ur_ops = [], ur_disabled = []\<rparr> ''languages'' [sample_prefix] None) (\<lambda>r1.
     then_result (register_url (setPluginDisabled ''languages'' True r1) ''router'' [sample_full] None) (\<lambda>r2.
       Inr (setPluginDisabled ''languages'' False r2))) = Inr two_plugins
   \<and> activeSlots two_plugins = [Path_prefix_slot, Full_path_slot]
   \<and> assertClaimable two_plugins ''languages'' [sample_prefix] = Inl (Full_path_held Path_prefix_slot ''router'')"
  by (simp add: two_plugins_def register_url_def assertClaimable_def claim_one_def sample_prefix_def
      sample_full_def setPluginDisabled_def activeSlots_def bySlot_def holder_of_def isPluginDisabled_def
      js_get_def js_set_def Let_def)

section \<open>Reading a composed path back\<close>

definition full_path_active :: "url_registry \<Rightarrow> bool" where
  "full_path_active r =
     (case bySlot r None Full_path_slot of Some (_, Full_path _ _) \<Rightarrow> True | _ \<Rightarrow> False)"

definition core_segments :: "url_registry \<Rightarrow> compose_page \<Rightarrow> string list" where
  "core_segments r page =
     (if cp_home page then [] else cp_ancestors page @ [snd (slug_part r None page)])"

text \<open>The active contributions invert their own encoding of this page.\<close>

definition prefix_inverts :: "url_registry \<Rightarrow> compose_page \<Rightarrow> bool" where
  "prefix_inverts r page =
     (case bySlot r None Path_prefix_slot of
        Some (_, Path_prefix enc dec) \<Rightarrow>
          (case dec (enc page @ core_segments r page) of
             Inr (Some (k, _)) \<Rightarrow> k = int (length (enc page))
           | Inr None \<Rightarrow> enc page = []
           | Inl _ \<Rightarrow> False)
      | _ \<Rightarrow> True)"

definition slug_inverts :: "url_registry \<Rightarrow> compose_page \<Rightarrow> bool" where
  "slug_inverts r page =
     (case bySlot r None Slug_format_slot of
        Some (_, Slug_format enc dec) \<Rightarrow> dec (enc page) = cp_slug page
      | _ \<Rightarrow> True)"

definition full_path_inverts :: "url_registry \<Rightarrow> compose_page \<Rightarrow> bool" where
  "full_path_inverts r page =
     (case bySlot r None Full_path_slot of
        Some (_, Full_path enc dec) \<Rightarrow>
          (case dec (enc page) of
             Some (slug, anc, _) \<Rightarrow> slug = cp_slug page
               \<and> (case anc of None \<Rightarrow> [] | Some a \<Rightarrow> a) = cp_ancestors page
           | None \<Rightarrow> False)
      | _ \<Rightarrow> True)"

lemma path_of_segments_slash: "path_of_segments segs = slash # join_with ''/'' segs"
  by (simp add: path_of_segments_def slash_def)

lemma segments_of_path:
  assumes "\<forall>s \<in> set segs. plain_segment s"
  shows "(let t = trimSlashes (if segs = [] then ''/'' else path_of_segments segs)
          in if t = [] then [] else split_on slash t) = segs"
  using path_trim_split [of segs] assms trim_root by (simp add: Let_def)

lemma full_path_trim:
  assumes "check_full_path plugin path (Inr x) = Inr y"
  shows "''/'' @ trimSlashes path = path"
proof (cases "path = ''/''")
  case False
  obtain rest where rest: "path = slash # rest" "\<not> ends_with path ''/''"
      "\<forall>s \<in> set (split_on slash rest). is_segment s \<and> slash \<notin> set s"
    using assms False by (auto simp: check_full_path_def result_simps)
  have "rest \<noteq> []" using rest(3) by (auto simp: is_segment_def)
  moreover have "hd rest \<noteq> slash"
    using rest(3) \<open>rest \<noteq> []\<close> by (cases rest) (auto simp: is_segment_def split: list.splits)
  moreover have "last rest \<noteq> slash"
  proof
    assume "last rest = slash"
    then obtain b where "rest = b @ [slash]" using \<open>rest \<noteq> []\<close> by (metis append_butlast_last_id)
    then show False using rest(1,2) by (simp add: ends_with_def slash_def)
  qed
  ultimately show ?thesis using rest(1) trim_id by (simp add: slash_def)
qed (simp add: trim_root)

lemma full_path_activeE:
  assumes "full_path_active r"
  obtains plugin enc dec where "bySlot r None Full_path_slot = Some (plugin, Full_path enc dec)"
proof -
  obtain plugin c where b: "bySlot r None Full_path_slot = Some (plugin, c)"
    using assms by (auto simp: full_path_active_def split: option.splits)
  show thesis
  proof (cases c)
    case (Full_path enc dec)
    then show ?thesis using b that by simp
  qed (use assms b in \<open>simp_all add: full_path_active_def\<close>)
qed

lemma no_full_path:
  assumes "\<not> full_path_active r"
  shows "(case bySlot r None Full_path_slot of Some (plugin, Full_path enc dec) \<Rightarrow> f plugin enc dec | _ \<Rightarrow> d) = d"
proof (cases "bySlot r None Full_path_slot")
  case (Some e)
  obtain plugin c where e: "e = (plugin, c)" by (cases e)
  show ?thesis
    by (cases c) (use assms Some e in \<open>simp_all add: full_path_active_def\<close>)
qed simp

lemma composed_segments:
  assumes "resolvePageUrl r None page = Inr (path, host)" "\<not> full_path_active r"
  defines "segs \<equiv> snd (prefix_segments r None page) @ core_segments r page"
  shows "path = (if segs = [] then ''/'' else path_of_segments segs) \<and> (\<forall>s \<in> set segs. plain_segment s)"
proof -
  obtain psource pre where pre: "prefix_segments r None page = (psource, pre)" by (cases "prefix_segments r None page")
  obtain ssource leaf where leaf: "slug_part r None page = (ssource, leaf)" by (cases "slug_part r None page")
  have "\<exists>h. assertSegments pre psource
         (if cp_home page then Inr (if pre = [] then ''/'' else path_of_segments pre, h)
          else assertSegments (cp_ancestors page) ''core/parent-page''
                 (require (leaf \<noteq> []) (Empty_slug (cp_id page) (cp_slug page))
                   (assertSegment leaf ssource
                     (Inr (path_of_segments (pre @ cp_ancestors page @ [leaf]), h))))) = Inr (path, host)"
    using assms(1) unfolding resolvePageUrl_def no_full_path [OF assms(2)] then_result_Inr pre leaf Let_def
      prod.case by blast
  then show ?thesis
    by (auto simp: result_simps segs_def core_segments_def pre leaf assertSegment_def
        dest: is_segment_plain split: if_splits)
qed

lemma decode_prefix_inverts:
  assumes "prefix_inverts r page"
  shows "\<exists>ann. decode_prefix r (snd (prefix_segments r None page) @ core_segments r page)
     = Inr (core_segments r page, ann)"
proof (cases "bySlot r None Path_prefix_slot")
  case None
  then show ?thesis by (simp add: decode_prefix_def prefix_segments_def)
next
  case (Some e)
  obtain plugin c where e: "e = (plugin, c)" by (cases e)
  show ?thesis
  proof (cases c)
    case (Path_prefix enc dec)
    then show ?thesis
      using assms Some e
      by (auto simp: prefix_inverts_def decode_prefix_def prefix_segments_def split: sum.splits option.splits)
  qed (use Some e in \<open>simp_all add: decode_prefix_def prefix_segments_def\<close>)
qed

lemma decode_slug_inverts: "slug_inverts r page \<Longrightarrow> decode_slug r (snd (slug_part r None page)) = cp_slug page"
  by (auto simp: slug_inverts_def decode_slug_def slug_part_def split: option.splits contribution.splits)

text \<open>Without a full-path contribution a composed path is read back from its segments.\<close>

lemma decode_composed:
  assumes "resolvePageUrl r None page = Inr (path, host)" "\<not> full_path_active r"
  shows "decodePagePath r path =
     then_result (decode_prefix r (snd (prefix_segments r None page) @ core_segments r page)) (\<lambda>(segments, ann).
        if segments = [] then Inr \<lparr>dp_slug = None, dp_ancestors = [], dp_ann = ann\<rparr>
        else Inr \<lparr>dp_slug = Some (decode_slug r (last segments)),
                  dp_ancestors = butlast segments, dp_ann = ann\<rparr>)"
proof -
  define segs where "segs = snd (prefix_segments r None page) @ core_segments r page"
  have path: "path = (if segs = [] then ''/'' else path_of_segments segs)" "\<forall>s \<in> set segs. plain_segment s"
    using composed_segments [OF assms] by (simp_all add: segs_def)
  have split: "(if trimSlashes path = [] then [] else split_on slash (trimSlashes path)) = segs"
    using segments_of_path [OF path(2)] unfolding path(1) Let_def .
  show ?thesis
    unfolding decodePagePath_def Let_def no_full_path [OF assms(2)] split segs_def ..
qed

lemma decode_inverts:
  assumes "resolvePageUrl r None page = Inr (path, host)"
    and "prefix_inverts r page" "slug_inverts r page" "full_path_inverts r page"
  shows "\<exists>ann. decodePagePath r path =
     Inr (if cp_home page \<and> \<not> full_path_active r
          then \<lparr>dp_slug = None, dp_ancestors = [], dp_ann = ann\<rparr>
          else \<lparr>dp_slug = Some (cp_slug page), dp_ancestors = cp_ancestors page, dp_ann = ann\<rparr>)"
proof (cases "full_path_active r")
  case True
  then obtain plugin enc dec where full: "bySlot r None Full_path_slot = Some (plugin, Full_path enc dec)"
    by (rule full_path_activeE)
  obtain host2 where h: "check_full_path plugin (enc page) (Inr (enc page, host2)) = Inr (path, host)"
    using assms(1) by (auto simp: resolvePageUrl_def full result_simps)
  then have "path = enc page" by (auto simp: check_full_path_def result_simps split: if_splits)
  then have path: "path = enc page" "''/'' @ trimSlashes path = path" using full_path_trim [OF h] by simp_all
  show ?thesis
    using assms(4) path True
    by (auto simp: decodePagePath_def full full_path_inverts_def Let_def split: option.splits)
next
  case False
  obtain ann where ann: "decode_prefix r (snd (prefix_segments r None page) @ core_segments r page)
      = Inr (core_segments r page, ann)"
    using decode_prefix_inverts [OF assms(2)] by blast
  show ?thesis
    unfolding decode_composed [OF assms(1) False] ann
    using decode_slug_inverts [OF assms(3)] False by (simp add: core_segments_def)
qed

end
