(* ===== verification/Locale_Urls.thy ===== *)
theory Locale_Urls
  imports Url_Composition
begin

text \<open>
  The URL rules of the international-site plugin (packages/plugins/international-site/src/url.ts
  and the URL parts of index.ts): the annotations it gives a page, its path-prefix and host
  contributions, and the rule for prefixing the default locale.  The law a prefix contribution
  owes the composition point is a locale; this plugin's pair is its interpretation.
\<close>

section \<open>Locales\<close>

datatype url_strategy = No_strategy | Subdirectory | Subdomain | Own_domain

fun strategy_name :: "url_strategy \<Rightarrow> string" where
  "strategy_name No_strategy = ''none''"
| "strategy_name Subdirectory = ''subdirectory''"
| "strategy_name Subdomain = ''subdomain''"
| "strategy_name Own_domain = ''domain''"

record url_locale =
  lo_code :: string
  lo_strategy :: url_strategy
  lo_default :: bool
  lo_host :: "string option"

definition PREFIX_DEFAULT_LOCALE_ANNOTATION :: string where
  "PREFIX_DEFAULT_LOCALE_ANNOTATION = ''prefixDefaultLocale''"

definition encodeLocalePrefix :: "compose_page \<Rightarrow> string list" where
  "encodeLocalePrefix page =
     (case js_get (cp_ann page) ''locale'' of
        Some (JString code) \<Rightarrow>
          if js_get (cp_ann page) ''urlStrategy'' \<noteq> Some (JString ''subdirectory'') then []
          else if js_get (cp_ann page) ''isDefaultLocale'' \<noteq> Some (JBool True) then [code]
          else if js_get (cp_ann page) PREFIX_DEFAULT_LOCALE_ANNOTATION \<noteq> Some (JBool True) then []
          else if cp_home page then [] else [code]
      | _ \<Rightarrow> [])"

definition decodeLocalePrefix ::
  "(string \<times> url_locale) list \<Rightarrow> bool \<Rightarrow> string list \<Rightarrow> string + (int \<times> annotations) option" where
  "decodeLocalePrefix locales prefixDefaultLocale segments =
     (case segments of
        [] \<Rightarrow> Inr None
      | h # _ \<Rightarrow>
          (case js_get locales h of
             None \<Rightarrow> Inr None
           | Some l \<Rightarrow>
               if lo_strategy l \<noteq> Subdirectory then Inr None
               else if lo_default l \<and> \<not> prefixDefaultLocale then Inr None
               else Inr (Some (1, [(''locale'', JString (lo_code l))]))))"

definition encode_host :: "compose_page \<Rightarrow> string + string option" where
  "encode_host page =
     (let strategy = js_get (cp_ann page) ''urlStrategy''
      in if strategy \<noteq> Some (JString ''subdomain'') \<and> strategy \<noteq> Some (JString ''domain'') then Inr None
         else (case js_get (cp_ann page) ''urlHost'' of
                 Some (JString host) \<Rightarrow>
                   if host = [] then Inl ''no url_host configured'' else Inr (Some host)
               | _ \<Rightarrow> Inl ''no url_host configured''))"

definition decode_host :: "(string \<times> url_locale) list \<Rightarrow> string \<Rightarrow> annotations option" where
  "decode_host locales host =
     (case find (\<lambda>e. lo_host (snd e) = Some host) locales of
        Some e \<Rightarrow> Some [(''locale'', JString (lo_code (snd e)))]
      | None \<Rightarrow> None)"

definition locale_contributions :: "(string \<times> url_locale) list \<Rightarrow> bool \<Rightarrow> contribution list" where
  "locale_contributions locales prefixDefaultLocale =
     [Path_prefix encodeLocalePrefix (decodeLocalePrefix locales prefixDefaultLocale),
      Host_contribution encode_host (decode_host locales)]"

datatype prefix_setting_error = No_default_locale | Default_not_subdirectory string url_strategy

definition prefixDefaultLocaleError :: "bool \<Rightarrow> url_locale list \<Rightarrow> prefix_setting_error option" where
  "prefixDefaultLocaleError prefixDefaultLocale locales =
     (if \<not> prefixDefaultLocale then None
      else case find lo_default locales of
             None \<Rightarrow> Some No_default_locale
           | Some d \<Rightarrow>
               if lo_strategy d \<noteq> Subdirectory then Some (Default_not_subdirectory (lo_code d) (lo_strategy d))
               else None)"

definition defaultLocaleRootRedirect :: "string \<Rightarrow> string \<times> string \<times> nat" where
  "defaultLocaleRootRedirect code = (''/'' @ code, ''/'', 301)"

section \<open>Annotations\<close>

definition defaultLocale :: "(string \<times> url_locale) list \<Rightarrow> url_locale option" where
  "defaultLocale locales = map_option snd (find (\<lambda>e. lo_default (snd e)) locales)"

text \<open>variants gives the locale code of a page's variant row.\<close>

definition locale_of_page ::
  "(string \<times> url_locale) list \<Rightarrow> (string \<Rightarrow> string option) \<Rightarrow> string \<Rightarrow> url_locale option" where
  "locale_of_page locales variants i =
     (case variants i of Some code \<Rightarrow> js_get locales code | None \<Rightarrow> defaultLocale locales)"

fun locales_of_pages ::
  "(string \<times> url_locale) list \<Rightarrow> (string \<Rightarrow> string option) \<Rightarrow> string list
    \<Rightarrow> (string \<times> url_locale) list \<Rightarrow> (string, (string \<times> url_locale) list) result" where
  "locales_of_pages locales variants [] out = Inr out"
| "locales_of_pages locales variants (i # is) out =
     (case locale_of_page locales variants i of
        None \<Rightarrow> Inl i
      | Some l \<Rightarrow> locales_of_pages locales variants is (js_set i l out))"

definition localesByPage ::
  "(string \<times> url_locale) list \<Rightarrow> (string \<Rightarrow> string option) \<Rightarrow> string list
    \<Rightarrow> (string, (string \<times> url_locale) list) result" where
  "localesByPage locales variants pageIds =
     (if locales = [] then Inr [] else locales_of_pages locales variants pageIds [])"

definition page_annotations :: "url_locale \<Rightarrow> bool \<Rightarrow> bool \<Rightarrow> annotations" where
  "page_annotations l prefixDefaultLocale isLocaleRoot =
     [(''locale'', JString (lo_code l)), (''isDefaultLocale'', JBool (lo_default l)),
      (''urlStrategy'', JString (strategy_name (lo_strategy l)))]
     @ (case lo_host l of Some h \<Rightarrow> if h = [] then [] else [(''urlHost'', JString h)] | None \<Rightarrow> [])
     @ (if isLocaleRoot then [(''isLocaleRoot'', JBool True)] else [])
     @ (if lo_default l \<and> prefixDefaultLocale then [(PREFIX_DEFAULT_LOCALE_ANNOTATION, JBool True)] else [])"

text \<open>The operation url_annotations, with the plugin's tables as arguments: the locales,
  the variant rows, the prefix setting, and which pages are the home of their language.\<close>

definition url_annotations ::
  "(string \<times> url_locale) list \<Rightarrow> (string \<Rightarrow> string option) \<Rightarrow> bool \<Rightarrow> (string \<Rightarrow> bool) \<Rightarrow> string list
    \<Rightarrow> (string, (string \<times> annotations) list) result" where
  "url_annotations locales variants prefixDefaultLocale isLocaleRoot pageIds =
     (if locales = [] then Inr (fold (\<lambda>i m. js_set i [] m) pageIds [])
      else then_result (localesByPage locales variants pageIds)
             (\<lambda>m. Inr (fold (\<lambda>e a. js_set (fst e)
                (page_annotations (snd e) prefixDefaultLocale (isLocaleRoot (fst e))) a) m [])))"

text \<open>What it says of one page.\<close>

definition annotation_about ::
  "(string \<times> url_locale) list \<Rightarrow> (string \<Rightarrow> string option) \<Rightarrow> bool \<Rightarrow> (string \<Rightarrow> bool) \<Rightarrow> string
    \<Rightarrow> annotations option" where
  "annotation_about locales variants prefixDefaultLocale isLocaleRoot i =
     (if locales = [] then Some []
      else map_option (\<lambda>l. page_annotations l prefixDefaultLocale (isLocaleRoot i))
             (locale_of_page locales variants i))"

lemma fold_set_get:
  "js_get (fold (\<lambda>i m. js_set i (f i) m) ids m) i = (if i \<in> set ids then Some (f i) else js_get m i)"
  by (induction ids arbitrary: m) (auto simp: js_map_simps)

lemma fold_set_entries:
  "js_map_ok es \<Longrightarrow> js_get (fold (\<lambda>e a. js_set (fst e) (f (fst e) (snd e)) a) es m) i
     = (case js_get es i of Some v \<Rightarrow> Some (f i v) | None \<Rightarrow> js_get m i)"
proof (induction es arbitrary: m)
  case (Cons e es)
  obtain k v where e: "e = (k, v)" by (cases e)
  have ok: "js_map_ok es" and new: "js_get es k = None"
    using Cons.prems by (auto simp: js_map_ok_def js_get_def map_of_eq_None_iff e)
  show ?case using Cons.IH [OF ok] new by (cases "i = k") (simp_all add: e js_map_simps js_get_cons split: option.splits)
qed (simp add: js_get_nil)

lemma fold_set_ok: "js_map_ok m \<Longrightarrow> js_map_ok (fold (\<lambda>e a. js_set (g e) (f e) a) es m)"
  by (induction es arbitrary: m) (auto simp: js_map_ok_set)

lemma locales_of_pages_get:
  "locales_of_pages locales variants ids out = Inr m \<Longrightarrow> js_map_ok out \<Longrightarrow> js_map_ok m
     \<and> (\<forall>i. js_get m i = (if i \<in> set ids then locale_of_page locales variants i else js_get out i))"
  by (induction ids arbitrary: out) (auto simp: js_map_ok_set js_map_simps split: option.splits)

lemma url_annotations_get:
  assumes "url_annotations locales variants pd isRoot ids = Inr anns"
  shows "js_map_ok anns \<and> (\<forall>i. js_get anns i
     = (if i \<in> set ids then annotation_about locales variants pd isRoot i else None))"
proof (cases "locales = []")
  case True
  have nil: "js_map_ok ([] :: (string \<times> annotations) list)" by (simp add: js_map_ok_def)
  show ?thesis
    using assms True fold_set_ok [OF nil, of "\<lambda>i. i" "\<lambda>_. []" ids] fold_set_get [of "\<lambda>_. [] :: annotations" ids "[]"]
    by (auto simp: url_annotations_def js_get_nil annotation_about_def)
next
  case False
  then obtain m where m: "locales_of_pages locales variants ids [] = Inr m"
      and a: "anns = fold (\<lambda>e a. js_set (fst e) (page_annotations (snd e) pd (isRoot (fst e))) a) m []"
    using assms by (auto simp: url_annotations_def localesByPage_def result_simps)
  have g: "js_map_ok m \<and> (\<forall>i. js_get m i = (if i \<in> set ids then locale_of_page locales variants i else None))"
    using locales_of_pages_get [OF m] by (simp add: js_map_ok_def js_get_nil)
  have "js_get anns i = (case js_get m i of Some v \<Rightarrow> Some (page_annotations v pd (isRoot i)) | None \<Rightarrow> None)" for i
    using fold_set_entries [of m "\<lambda>i l. page_annotations l pd (isRoot i)" "[]" i] g
    by (auto simp: a js_get_nil split: option.splits)
  moreover have "js_map_ok anns" unfolding a by (rule fold_set_ok) (simp add: js_map_ok_def)
  ultimately show ?thesis
    using g False by (auto simp: annotation_about_def split: option.splits)
qed

definition ask_international ::
  "(string \<times> url_locale) list \<Rightarrow> (string \<Rightarrow> string option) \<Rightarrow> bool \<Rightarrow> (string \<Rightarrow> bool)
    \<Rightarrow> string \<Rightarrow> string \<Rightarrow> string list \<Rightarrow> string + (string \<times> annotations) list option" where
  "ask_international locales variants pd isRoot plugin oper ids =
     (case url_annotations locales variants pd isRoot ids of Inl e \<Rightarrow> Inl e | Inr a \<Rightarrow> Inr (Some a))"

lemma locales_of_pages_defined:
  "(\<exists>m. locales_of_pages locales variants ids out = Inr m)
     = (\<forall>i \<in> set ids. locale_of_page locales variants i \<noteq> None)"
  by (induction ids arbitrary: out) (auto split: option.splits)

interpretation international_annotations: steady_annotator
  "ask_international locales variants pd isRoot"
  "\<lambda>plugin oper i. annotation_about locales variants pd isRoot i"
  for locales variants pd isRoot
proof
  fix plugin oper ids anns
  assume "ask_international locales variants pd isRoot plugin oper ids = Inr (Some anns)"
  then have "url_annotations locales variants pd isRoot ids = Inr anns"
    by (auto simp: ask_international_def split: sum.splits)
  then show "js_map_ok anns \<and> (\<forall>i. js_get anns i
      = (if i \<in> set ids then annotation_about locales variants pd isRoot i else None))"
    by (rule url_annotations_get)
next
  fix plugin oper ids ids' anns
  assume asked: "ask_international locales variants pd isRoot plugin oper ids = Inr (Some anns)"
    and same: "set ids' = set ids"
  then obtain a where a: "url_annotations locales variants pd isRoot ids = Inr a"
    by (auto simp: ask_international_def split: sum.splits)
  have "\<exists>a'. url_annotations locales variants pd isRoot ids' = Inr a'"
  proof (cases "locales = []")
    case False
    then have "\<exists>m. locales_of_pages locales variants ids [] = Inr m"
      using a by (auto simp: url_annotations_def localesByPage_def result_simps)
    then have "\<exists>m. locales_of_pages locales variants ids' [] = Inr m"
      unfolding locales_of_pages_defined same .
    then show ?thesis using False by (auto simp: url_annotations_def localesByPage_def)
  qed (simp add: url_annotations_def)
  then show "\<exists>anns'. ask_international locales variants pd isRoot plugin oper ids' = Inr (Some anns')"
    by (auto simp: ask_international_def)
qed

section \<open>The law of a prefix contribution\<close>

text \<open>Decoding what was encoded in front of the page's own segments takes exactly the
  encoded prefix off again.\<close>

locale prefix_code =
  fixes enc :: "compose_page \<Rightarrow> string list"
    and dec :: "string list \<Rightarrow> string + (int \<times> annotations) option"
    and said :: "compose_page \<Rightarrow> annotations"
    and lawful :: "compose_page \<Rightarrow> string list \<Rightarrow> bool"
  assumes prefix_back: "lawful page core \<Longrightarrow> enc page \<noteq> []
      \<Longrightarrow> dec (enc page @ core) = Inr (Some (int (length (enc page)), said page))"
    and bare_back: "lawful page core \<Longrightarrow> enc page = [] \<Longrightarrow> dec core = Inr None"
begin

lemma inverts:
  assumes "bySlot r None Path_prefix_slot = Some (plugin, Path_prefix enc dec)"
    and "lawful page (core_segments r page)"
  shows "prefix_inverts r page"
  using assms prefix_back [OF assms(2)] bare_back [OF assms(2)]
  by (cases "enc page = []") (auto simp: prefix_inverts_def)

lemma prefix_comes_off:
  assumes "bySlot r None Path_prefix_slot = Some (plugin, Path_prefix enc dec)"
    and "lawful page core"
  shows "decode_prefix r (enc page @ core)
    = Inr (core, if enc page = [] then [] else merge_ann [] (said page))"
  using assms(1) prefix_back [OF assms(2)] bare_back [OF assms(2)]
  by (cases "enc page = []") (auto simp: decode_prefix_def)

text \<open>The whole path: what the page was composed from, and what its prefix says.\<close>

lemma reads_back:
  assumes prefix: "bySlot r None Path_prefix_slot = Some (plugin, Path_prefix enc dec)"
    and rest: "bySlot r None Slug_format_slot = None" "bySlot r None Full_path_slot = None"
    and law: "lawful page (core_segments r page)"
    and url: "resolvePageUrl r None page = Inr (path, host)"
  shows "decodePagePath r path =
     Inr \<lparr>dp_slug = (if cp_home page then None else Some (cp_slug page)),
          dp_ancestors = (if cp_home page then [] else cp_ancestors page),
          dp_ann = (if enc page = [] then [] else merge_ann [] (said page))\<rparr>"
proof -
  have nofull: "\<not> full_path_active r" by (simp add: full_path_active_def rest(2))
  have "prefix_segments r None page = (plugin @ ''/path-prefix'', enc page)"
    by (simp add: prefix_segments_def prefix)
  then show ?thesis
    using decode_composed [OF url nofull] prefix_comes_off [OF prefix law]
    by (simp add: core_segments_def decode_slug_def slug_part_def rest(1))
qed

end

text \<open>A page is lawful for the plugin when its annotations are those of a registered locale,
  and, if it composes bare, its first own segment is not the code of a locale that serves
  under a prefix.\<close>

definition counts_as_prefix :: "(string \<times> url_locale) list \<Rightarrow> bool \<Rightarrow> string \<Rightarrow> bool" where
  "counts_as_prefix locales prefixDefaultLocale seg =
     (case js_get locales seg of
        None \<Rightarrow> False
      | Some l \<Rightarrow> lo_strategy l = Subdirectory \<and> (lo_default l \<longrightarrow> prefixDefaultLocale))"

definition locale_lawful ::
  "(string \<times> url_locale) list \<Rightarrow> bool \<Rightarrow> compose_page \<Rightarrow> string list \<Rightarrow> bool" where
  "locale_lawful locales prefixDefaultLocale page core \<longleftrightarrow>
     (\<exists>l isRoot. js_get locales (lo_code l) = Some l
        \<and> cp_ann page = page_annotations l prefixDefaultLocale isRoot)
     \<and> (encodeLocalePrefix page = [] \<longrightarrow>
          (case core of [] \<Rightarrow> True | seg # _ \<Rightarrow> \<not> counts_as_prefix locales prefixDefaultLocale seg))"

lemma encode_annotated:
  assumes "cp_ann page = page_annotations l prefixDefaultLocale isRoot"
  shows "encodeLocalePrefix page =
     (if lo_strategy l = Subdirectory \<and> (lo_default l \<longrightarrow> prefixDefaultLocale \<and> \<not> cp_home page)
      then [lo_code l] else [])"
proof -
  have strat: "(strategy_name s = ''subdirectory'') = (s = Subdirectory)" for s by (cases s) simp_all
  show ?thesis
    by (auto simp: encodeLocalePrefix_def assms page_annotations_def js_get_cons js_get_append js_get_nil
        PREFIX_DEFAULT_LOCALE_ANNOTATION_def strat split: option.splits)
qed

definition said_locale :: "compose_page \<Rightarrow> annotations" where
  "said_locale page = (case js_get (cp_ann page) ''locale'' of Some v \<Rightarrow> [(''locale'', v)] | None \<Rightarrow> [])"

interpretation international: prefix_code encodeLocalePrefix
  "decodeLocalePrefix locales prefixDefaultLocale" said_locale "locale_lawful locales prefixDefaultLocale"
  for locales prefixDefaultLocale
proof
  fix page core
  assume law: "locale_lawful locales prefixDefaultLocale page core"
  then obtain l isRoot where l: "js_get locales (lo_code l) = Some l"
      "cp_ann page = page_annotations l prefixDefaultLocale isRoot"
    by (auto simp: locale_lawful_def)
  note enc = encode_annotated [OF l(2)]
  have said: "said_locale page = [(''locale'', JString (lo_code l))]"
    by (simp add: said_locale_def l(2) page_annotations_def js_get_cons)
  show "decodeLocalePrefix locales prefixDefaultLocale (encodeLocalePrefix page @ core)
      = Inr (Some (int (length (encodeLocalePrefix page)), said_locale page))" if "encodeLocalePrefix page \<noteq> []"
    using that l(1) by (auto simp: enc decodeLocalePrefix_def said split: if_splits)
  show "decodeLocalePrefix locales prefixDefaultLocale core = Inr None" if "encodeLocalePrefix page = []"
    using that law
    by (auto simp: locale_lawful_def decodeLocalePrefix_def counts_as_prefix_def split: list.splits option.splits)
qed

text \<open>A path read under the plugin's prefix contribution alone.\<close>

definition read_page :: "string list \<Rightarrow> annotations \<Rightarrow> decoded_path" where
  "read_page segments ann =
     (if segments = [] then \<lparr>dp_slug = None, dp_ancestors = [], dp_ann = ann\<rparr>
      else \<lparr>dp_slug = Some (last segments), dp_ancestors = butlast segments, dp_ann = ann\<rparr>)"

definition own_segments :: "compose_page \<Rightarrow> string list" where
  "own_segments page = (if cp_home page then [] else cp_ancestors page @ [cp_slug page])"

definition under_prefix :: "url_locale \<Rightarrow> bool \<Rightarrow> compose_page \<Rightarrow> bool" where
  "under_prefix l prefixDefaultLocale page =
     (lo_strategy l = Subdirectory \<and> (lo_default l \<longrightarrow> prefixDefaultLocale \<and> \<not> cp_home page))"

lemma prefixed_core_reads_back:
  assumes "bySlot r None Path_prefix_slot
      = Some (plugin, Path_prefix encodeLocalePrefix (decodeLocalePrefix locales prefixDefaultLocale))"
    and "bySlot r None Slug_format_slot = None" "bySlot r None Full_path_slot = None"
    and "locale_lawful locales prefixDefaultLocale page (core_segments r page)"
    and "resolvePageUrl r None page = Inr (path, host)"
  shows "decodePagePath r path =
     Inr (read_page (own_segments page)
       (if encodeLocalePrefix page = [] then [] else merge_ann [] (said_locale page)))"
  using international.reads_back [OF assms] by (simp add: read_page_def own_segments_def)

lemma bare_core_reads_prefix:
  assumes "bySlot r None Path_prefix_slot
      = Some (plugin, Path_prefix encodeLocalePrefix (decodeLocalePrefix locales prefixDefaultLocale))"
    and rest: "bySlot r None Slug_format_slot = None" "bySlot r None Full_path_slot = None"
    and url: "resolvePageUrl r None page = Inr (path, host)" and bare: "encodeLocalePrefix page = []"
    and core: "core_segments r page = seg # tail" "counts_as_prefix locales prefixDefaultLocale seg"
  shows "\<exists>k. js_get locales seg = Some k
    \<and> decodePagePath r path = Inr (read_page tail [(''locale'', JString (lo_code k))])"
proof -
  obtain k where k: "js_get locales seg = Some k" "lo_strategy k = Subdirectory" "lo_default k \<longrightarrow> prefixDefaultLocale"
    using core(2) by (auto simp: counts_as_prefix_def split: option.splits)
  have nofull: "\<not> full_path_active r" by (simp add: full_path_active_def rest(2))
  have "snd (prefix_segments r None page) = []" by (simp add: prefix_segments_def assms(1) bare)
  moreover have "decode_prefix r (seg # tail) = Inr (tail, [(''locale'', JString (lo_code k))])"
    using k by (simp add: decode_prefix_def assms(1) decodeLocalePrefix_def merge_ann_def js_set_def)
  ultimately have "decodePagePath r path = Inr (read_page tail [(''locale'', JString (lo_code k))])"
    using decode_composed [OF url nofull] core(1) by (simp add: read_page_def decode_slug_def rest(1))
  with k(1) show ?thesis by blast
qed

text \<open>C12. What the path composed for a page of a multilingual site reads back as, with the
  international-site plugin holding the prefix slot and no other path contribution active, for a
  page with the annotations of a registered locale.  The page reads back as it is, its slug (a
  home page: none) below its ancestors' slugs, with its locale when the locale serves the page
  under a prefix and with no annotation when it serves it bare, unless a bare path starts with the
  code of a locale that serves under a prefix; it then reads as a page of that locale, with that
  segment taken off.\<close>

theorem international_path_reads_back:
  assumes slot: "bySlot r None Path_prefix_slot
      = Some (plugin, Path_prefix encodeLocalePrefix (decodeLocalePrefix locales prefixDefaultLocale))"
    and rest: "bySlot r None Slug_format_slot = None" "bySlot r None Full_path_slot = None"
    and l: "js_get locales (lo_code l) = Some l" "cp_ann page = page_annotations l prefixDefaultLocale isLocaleRoot"
    and url: "resolvePageUrl r None page = Inr (path, host)"
  shows "if under_prefix l prefixDefaultLocale page
     then decodePagePath r path = Inr (read_page (own_segments page) [(''locale'', JString (lo_code l))])
     else if own_segments page \<noteq> [] \<and> counts_as_prefix locales prefixDefaultLocale (hd (own_segments page))
     then \<exists>k. js_get locales (hd (own_segments page)) = Some k
       \<and> decodePagePath r path = Inr (read_page (tl (own_segments page)) [(''locale'', JString (lo_code k))])
     else decodePagePath r path = Inr (read_page (own_segments page) [])"
proof -
  let ?own = "own_segments page"
  have core: "core_segments r page = ?own" by (simp add: core_segments_def own_segments_def slug_part_def rest(1))
  have enc: "encodeLocalePrefix page = (if under_prefix l prefixDefaultLocale page then [lo_code l] else [])"
    by (simp add: encode_annotated [OF l(2)] under_prefix_def)
  have said: "merge_ann [] (said_locale page) = [(''locale'', JString (lo_code l))]"
    by (simp add: said_locale_def l(2) page_annotations_def js_get_cons merge_ann_def js_set_def)
  show ?thesis
  proof (cases "\<not> under_prefix l prefixDefaultLocale page
      \<and> ?own \<noteq> [] \<and> counts_as_prefix locales prefixDefaultLocale (hd ?own)")
    case True
    then have "core_segments r page = hd ?own # tl ?own" by (simp add: core)
    with bare_core_reads_prefix [OF slot rest url] True enc show ?thesis by auto
  next
    case False
    then have "locale_lawful locales prefixDefaultLocale page (core_segments r page)"
      using l enc unfolding locale_lawful_def core by (cases ?own) auto
    from prefixed_core_reads_back [OF slot rest this url] show ?thesis
      using False enc said by auto
  qed
qed

definition sample_locales :: "(string \<times> url_locale) list" where
  "sample_locales =
     [(''en'', \<lparr>lo_code = ''en'', lo_strategy = Subdirectory, lo_default = True, lo_host = None\<rparr>),
      (''de'', \<lparr>lo_code = ''de'', lo_strategy = Subdirectory, lo_default = False, lo_host = None\<rparr>)]"

definition sample_registry :: url_registry where
  "sample_registry =
     \<lparr>ur_by_slot = map (\<lambda>c. (contribution_slot c, (''international-site'', c))) (locale_contributions sample_locales False),
      ur_ops = [(''international-site'', ''url_annotations'')], ur_disabled = []\<rparr>"

definition sample_page :: compose_page where
  "sample_page = \<lparr>cp_id = ''p1'', cp_slug = ''preise'', cp_ancestors = [''produkte''], cp_home = False,
     cp_ann = page_annotations \<lparr>lo_code = ''de'', lo_strategy = Subdirectory, lo_default = False, lo_host = None\<rparr> False False\<rparr>"

text \<open>A page of the default locale whose slug is the code of the German one.\<close>

definition bare_page :: compose_page where
  "bare_page = \<lparr>cp_id = ''p2'', cp_slug = ''de'', cp_ancestors = [], cp_home = False,
     cp_ann = page_annotations \<lparr>lo_code = ''en'', lo_strategy = Subdirectory, lo_default = True, lo_host = None\<rparr> False False\<rparr>"

lemma sample_slots:
  "bySlot sample_registry None Path_prefix_slot
    = Some (''international-site'', Path_prefix encodeLocalePrefix (decodeLocalePrefix sample_locales False))"
  "bySlot sample_registry None Host_slot
    = Some (''international-site'', Host_contribution encode_host (decode_host sample_locales))"
  "bySlot sample_registry None Slug_format_slot = None" "bySlot sample_registry None Full_path_slot = None"
  by (simp_all add: bySlot_def sample_registry_def locale_contributions_def isPluginDisabled_def js_get_cons js_get_nil)

lemma plain_segments_pass:
  "list_all (\<lambda>s. is_segment s \<and> slash \<notin> set s \<and> s \<noteq> ''.'' \<and> s \<noteq> ''..'') ss
    \<Longrightarrow> assertSegments ss w rest = rest"
  by (induction ss) (simp_all add: assertSegment_def)

lemma sample_url:
  assumes enc: "encodeLocalePrefix page = pre" and host: "encode_host (page\<lparr>cp_ancestors := []\<rparr>) = Inr None"
    and away: "\<not> cp_home page"
    and segs: "list_all (\<lambda>s. is_segment s \<and> slash \<notin> set s \<and> s \<noteq> ''.'' \<and> s \<noteq> ''..'')
      (pre @ cp_ancestors page @ [cp_slug page])"
  shows "resolvePageUrl sample_registry None page
    = Inr (path_of_segments (pre @ cp_ancestors page @ [cp_slug page]), None)"
proof -
  have "resolvePageHost sample_registry None (page\<lparr>cp_ancestors := []\<rparr>) = Inr None"
    using host by (simp add: resolvePageHost_def sample_slots)
  moreover have "prefix_segments sample_registry None page = (''international-site/path-prefix'', pre)"
    "slug_part sample_registry None page = (''core/slug'', cp_slug page)"
    by (simp_all add: prefix_segments_def sample_slots enc slug_part_def)
  moreover have "cp_slug page \<noteq> []" using segs by (auto simp: is_segment_def)
  ultimately show ?thesis using segs away by (simp add: resolvePageUrl_def sample_slots assertSegment_def plain_segments_pass)
qed

lemma sample_urls:
  "resolvePageUrl sample_registry None sample_page = Inr (''/de/produkte/preise'', None)"
  "resolvePageUrl sample_registry None bare_page = Inr (''/de'', None)"
proof -
  let ?plain = "\<lambda>s. is_segment s \<and> slash \<notin> set s \<and> s \<noteq> ''.'' \<and> s \<noteq> ''..''"
  have "encodeLocalePrefix sample_page = [''de'']" "encode_host (sample_page\<lparr>cp_ancestors := []\<rparr>) = Inr None"
    "\<not> cp_home sample_page" "list_all ?plain ([''de''] @ cp_ancestors sample_page @ [cp_slug sample_page])" by code_simp+
  from sample_url [OF this] show "resolvePageUrl sample_registry None sample_page = Inr (''/de/produkte/preise'', None)"
    by (simp add: sample_page_def) code_simp
  have "encodeLocalePrefix bare_page = []" "encode_host (bare_page\<lparr>cp_ancestors := []\<rparr>) = Inr None"
    "\<not> cp_home bare_page" "list_all ?plain ([] @ cp_ancestors bare_page @ [cp_slug bare_page])" by code_simp+
  from sample_url [OF this] show "resolvePageUrl sample_registry None bare_page = Inr (''/de'', None)"
    by (simp add: bare_page_def) code_simp
qed

text \<open>The German page reads back; the English page at /de reads as the German home.\<close>

lemma international_path_reads_back_witness:
  "decodePagePath sample_registry ''/de/produkte/preise''
      = Inr \<lparr>dp_slug = Some ''preise'', dp_ancestors = [''produkte''], dp_ann = [(''locale'', JString ''de'')]\<rparr>
   \<and> decodePagePath sample_registry ''/de''
      = Inr \<lparr>dp_slug = None, dp_ancestors = [], dp_ann = [(''locale'', JString ''de'')]\<rparr>"
proof -
  let ?de = "\<lparr>lo_code = ''de'', lo_strategy = Subdirectory, lo_default = False, lo_host = None\<rparr>"
  let ?en = "\<lparr>lo_code = ''en'', lo_strategy = Subdirectory, lo_default = True, lo_host = None\<rparr>"
  have l: "js_get sample_locales (lo_code ?de) = Some ?de" "js_get sample_locales (lo_code ?en) = Some ?en" by code_simp+
  have ann: "cp_ann sample_page = page_annotations ?de False False" "cp_ann bare_page = page_annotations ?en False False"
    by (simp_all add: sample_page_def bare_page_def)
  have which: "under_prefix ?de False sample_page" "\<not> under_prefix ?en False bare_page"
    "counts_as_prefix sample_locales False ''de''" by code_simp+
  show ?thesis
    using international_path_reads_back [OF sample_slots(1,3,4) l(1) ann(1) sample_urls(1)]
      international_path_reads_back [OF sample_slots(1,3,4) l(2) ann(2) sample_urls(2)] which l(1)
    by (simp add: sample_page_def bare_page_def read_page_def own_segments_def)
qed

text \<open>The decoding of prefixes is no inverse of their encoding: an English page and the German home
  compose to one path.\<close>

lemma prefix_decoding_is_no_inverse:
  "encodeLocalePrefix bare_page = []
    \<and> decodeLocalePrefix sample_locales False (core_segments sample_registry bare_page)
      = Inr (Some (1, [(''locale'', JString ''de'')]))"
proof -
  have "core_segments sample_registry bare_page = [''de'']"
    by (simp add: core_segments_def slug_part_def sample_slots) (simp add: bare_page_def)
  moreover have "encodeLocalePrefix bare_page = []"
    "decodeLocalePrefix sample_locales False [''de''] = Inr (Some (1, [(''locale'', JString ''de'')]))" by code_simp+
  ultimately show ?thesis by simp
qed

end
