(* ===== verification/Page_Tree.thy ===== *)
theory Page_Tree
  imports Caelo_Prelude
begin

text \<open>
  The page tree as the URL resolver and the move operations see it, pure half
  (packages/admin-core/src/ops/content/page-tree.ts): the tree of one scope, the
  ancestor chain of a page with its cycle and dangling-parent errors, the pages below a
  set of roots, and the pages a branch's pending renames and moves drift.  The relation
  climbs states what an ancestor chain is; the walk with its seen set is proved to
  return exactly that.
\<close>

section \<open>The tree\<close>

definition MAX_PAGE_DEPTH :: nat where
  "MAX_PAGE_DEPTH = 6"

record page_node =
  node_id :: string
  node_slug :: string
  node_parent :: "string option"
  node_branch :: "string option"

record page_tree =
  by_id :: "(string \<times> page_node) list"
  children_of :: "(string \<times> string list) list"

text \<open>A live page row as the tree reads it, and a pending page state: a missing
  parent (None) is not the parent null (Some None).\<close>

record node_row =
  nr_id :: string
  nr_slug :: string
  nr_parent :: "string option"
  nr_branch :: "string option"

record pending_state =
  ps_slug :: "string option"
  ps_parent :: "string option option"
  ps_deleted :: bool

definition add_child :: "page_node \<Rightarrow> (string \<times> string list) list \<Rightarrow> (string \<times> string list) list" where
  "add_child n m =
     (case node_parent n of
        None \<Rightarrow> m
      | Some p \<Rightarrow>
          (case js_get m p of
             Some kids \<Rightarrow> js_set p (kids @ [node_id n]) m
           | None \<Rightarrow> js_set p [node_id n] m))"

definition indexTree :: "(string \<times> page_node) list \<Rightarrow> page_tree" where
  "indexTree nodes =
     \<lparr>by_id = nodes, children_of = fold (\<lambda>(_, n) m. add_child n m) nodes []\<rparr>"

definition row_node :: "node_row \<Rightarrow> page_node" where
  "row_node r =
     \<lparr>node_id = nr_id r, node_slug = nr_slug r, node_parent = nr_parent r,
      node_branch = nr_branch r\<rparr>"

definition with_pending :: "pending_state \<Rightarrow> page_node \<Rightarrow> page_node" where
  "with_pending s base =
     base\<lparr>node_slug := (case ps_slug s of None \<Rightarrow> node_slug base | Some x \<Rightarrow> x),
          node_parent := (case ps_parent s of None \<Rightarrow> node_parent base | Some p \<Rightarrow> p)\<rparr>"

definition overlay_page ::
  "string \<times> pending_state \<Rightarrow> (string \<times> page_node) list \<Rightarrow> (string \<times> page_node) list" where
  "overlay_page ps nodes =
     (case js_get nodes (fst ps) of
        None \<Rightarrow> nodes
      | Some base \<Rightarrow>
          if ps_deleted (snd ps) then js_delete (fst ps) nodes
          else js_set (fst ps) (with_pending (snd ps) base) nodes)"

definition pageTreeOf :: "node_row list \<Rightarrow> (string \<times> pending_state) list \<Rightarrow> page_tree" where
  "pageTreeOf rows pending =
     (let nodes = fold (\<lambda>r m. js_set (nr_id r) (row_node r) m) rows []
      in indexTree (fold overlay_page pending nodes))"

section \<open>Walking up\<close>

datatype tree_error = Tree_cycle string | Parent_missing string

function chain_up ::
  "page_tree \<Rightarrow> string list \<Rightarrow> string list \<Rightarrow> string option \<Rightarrow> (tree_error, string list) result" where
  "chain_up t seen chain None = Inr chain"
| "chain_up t seen chain (Some cur) =
     (if cur \<in> set seen then Inl (Tree_cycle cur)
      else case js_get (by_id t) cur of
             None \<Rightarrow> Inl (Parent_missing cur)
           | Some node \<Rightarrow> chain_up t (cur # seen) (cur # chain) (node_parent node))"
  by pat_completeness auto

definition unseen_count :: "'a set \<Rightarrow> 'a list \<Rightarrow> nat" where
  "unseen_count A seen = card (A - set seen)"

lemma unseen_less: "finite A \<Longrightarrow> x \<in> A \<Longrightarrow> x \<notin> set seen \<Longrightarrow> unseen_count A (x # seen) < unseen_count A seen"
  unfolding unseen_count_def by (intro psubset_card_mono) auto

termination chain_up
proof (relation "measure (\<lambda>(t, seen, chain, cur). unseen_count (fst ` set (by_id t)) seen)")
  fix t :: page_tree and seen chain :: "string list" and cur :: string and node :: page_node
  assume "\<not> cur \<in> set seen" "js_get (by_id t) cur = Some node"
  moreover from this(2) have "cur \<in> fst ` set (by_id t)"
    by (auto dest!: map_of_SomeD simp: js_get_def intro: rev_image_eqI)
  ultimately show "((t, cur # seen, cur # chain, node_parent node), t, seen, chain, Some cur)
      \<in> measure (\<lambda>(t, seen, chain, cur). unseen_count (fst ` set (by_id t)) seen)"
    by (simp add: unseen_less)
qed simp

definition parent_of :: "page_tree \<Rightarrow> string \<Rightarrow> string option" where
  "parent_of t pid = (case js_get (by_id t) pid of None \<Rightarrow> None | Some n \<Rightarrow> node_parent n)"

definition ancestorIdsOf :: "page_tree \<Rightarrow> string \<Rightarrow> (tree_error, string list) result" where
  "ancestorIdsOf t pageId = chain_up t [pageId] [] (parent_of t pageId)"

definition slug_in :: "page_tree \<Rightarrow> string \<Rightarrow> string" where
  "slug_in t pid = node_slug (the (js_get (by_id t) pid))"

definition ancestorSlugsOf :: "page_tree \<Rightarrow> string \<Rightarrow> (tree_error, string list) result" where
  "ancestorSlugsOf t pageId =
     then_result (ancestorIdsOf t pageId) (\<lambda>ids. Inr (map (slug_in t) ids))"

section \<open>Walking down\<close>

fun fresh_kids :: "string list \<Rightarrow> string list \<Rightarrow> string list" where
  "fresh_kids seen [] = []"
| "fresh_kids seen (k # ks) =
     (if k \<in> set seen then fresh_kids seen ks else k # fresh_kids (k # seen) ks)"

definition kids_of :: "page_tree \<Rightarrow> string \<Rightarrow> string list" where
  "kids_of t pid = (case js_get (children_of t) pid of None \<Rightarrow> [] | Some ks \<Rightarrow> ks)"

lemma fresh_kids_props:
  "set (fresh_kids seen ks) = set ks - set seen" "distinct (fresh_kids seen ks)"
  by (induction seen ks rule: fresh_kids.induct) auto

function below_loop ::
  "page_tree \<Rightarrow> string list \<Rightarrow> string list \<Rightarrow> string list \<Rightarrow> string list" where
  "below_loop t seen [] out = out"
| "below_loop t seen (pid # queue) out =
     (let new = fresh_kids seen (kids_of t pid)
      in below_loop t (new @ seen) (queue @ new) (out @ new))"
  by pat_completeness auto

definition all_kids :: "page_tree \<Rightarrow> string set" where
  "all_kids t = (\<Union>e \<in> set (children_of t). set (snd e))"

lemma kids_in_all: "set (kids_of t pid) \<subseteq> all_kids t"
proof (cases "js_get (children_of t) pid")
  case (Some ks)
  then have "(pid, ks) \<in> set (children_of t)" by (simp add: js_get_def map_of_SomeD)
  then show ?thesis using Some by (force simp: kids_of_def all_kids_def)
qed (simp add: kids_of_def)

lemma unseen_append:
  assumes "finite A" "distinct new" "set new \<subseteq> A - set seen"
  shows "unseen_count A (new @ seen) + length new = unseen_count A seen"
proof -
  have "A - set seen = (A - set (new @ seen)) \<union> set new" using assms by auto
  then have "card (A - set seen) = card (A - set (new @ seen)) + card (set new)"
    using assms by (metis (no_types, lifting) DiffE Un_iff card_Un_disjoint disjoint_iff finite_Diff
        finite_set set_append)
  then show ?thesis by (simp add: unseen_count_def distinct_card assms)
qed

lemma finite_all_kids: "finite (all_kids t)"
  by (simp add: all_kids_def)

termination below_loop
proof (relation "measure (\<lambda>(t, seen, queue, out). unseen_count (all_kids t) seen + length queue)")
  fix t :: page_tree and seen :: "string list" and pid :: string and queue out new :: "string list"
  assume new: "new = fresh_kids seen (kids_of t pid)"
  have "unseen_count (all_kids t) (new @ seen) + length new = unseen_count (all_kids t) seen"
    using kids_in_all [of t pid]
    by (intro unseen_append) (auto simp: new fresh_kids_props finite_all_kids)
  then show "((t, new @ seen, queue @ new, out @ new), t, seen, pid # queue, out)
      \<in> measure (\<lambda>(t, seen, queue, out). unseen_count (all_kids t) seen + length queue)"
    by simp
qed simp

definition descendantIdsOf :: "page_tree \<Rightarrow> string list \<Rightarrow> string list" where
  "descendantIdsOf t rootIds = below_loop t rootIds rootIds []"

section \<open>Drift\<close>

definition driftIdsBetween :: "page_tree \<Rightarrow> page_tree \<Rightarrow> string list" where
  "driftIdsBetween t stored =
     (let changed = map (\<lambda>e. node_id (snd e)) (filter (\<lambda>e.
            case js_get (by_id stored) (node_id (snd e)) of
              None \<Rightarrow> False
            | Some s \<Rightarrow> node_slug s \<noteq> node_slug (snd e) \<or> node_parent s \<noteq> node_parent (snd e))
            (by_id t))
      in if changed = [] then [] else changed @ descendantIdsOf t changed)"

section \<open>What an ancestor chain is\<close>

text \<open>climbs t pid c: following parents from pid to the top level passes through the
  pages of c, root first, ending with pid itself.\<close>

inductive climbs :: "page_tree \<Rightarrow> string \<Rightarrow> string list \<Rightarrow> bool" for t where
  top: "js_get (by_id t) pid = Some n \<Longrightarrow> node_parent n = None \<Longrightarrow> climbs t pid [pid]"
| step: "js_get (by_id t) pid = Some n \<Longrightarrow> node_parent n = Some p \<Longrightarrow> climbs t p c
    \<Longrightarrow> climbs t pid (c @ [pid])"

inductive_cases climbsE: "climbs t pid c"

lemma climbs_unique: "climbs t pid c \<Longrightarrow> climbs t pid d \<Longrightarrow> c = d"
proof (induction arbitrary: d rule: climbs.induct)
  case (top pid n)
  from top.prems top.hyps show ?case by (cases rule: climbs.cases) simp_all
next
  case (step pid n p c)
  note prems = step.prems and hyps = step.hyps and IH = step.IH
  from prems show ?case
  proof (cases rule: climbs.cases)
    case (step m q d)
    then have "q = p" using hyps by simp
    then show ?thesis using IH step by simp
  qed (use hyps in simp)
qed

lemma climbs_last: "climbs t pid c \<Longrightarrow> \<exists>cs. c = cs @ [pid]"
  by (cases rule: climbs.cases) auto

lemma climbs_nonempty: "climbs t pid c \<Longrightarrow> 0 < length c"
  by (auto dest: climbs_last)

lemma climbs_known: "climbs t pid c \<Longrightarrow> \<exists>n. js_get (by_id t) pid = Some n"
  by (cases rule: climbs.cases) auto

lemma climbs_prefix: "climbs t pid c \<Longrightarrow> a \<in> set c \<Longrightarrow> \<exists>d e. climbs t a d \<and> c = d @ e"
proof (induction rule: climbs.induct)
  case (top pid n)
  then show ?case using climbs.top by fastforce
next
  case (step pid n p c)
  show ?case
  proof (cases "a = pid")
    case True
    then show ?thesis using climbs.step [OF step.hyps] by auto
  next
    case False
    then show ?thesis using step by auto
  qed
qed

lemma climbs_distinct: "climbs t pid c \<Longrightarrow> distinct c"
proof (induction rule: climbs.induct)
  case (step pid n p c)
  have "pid \<notin> set c"
  proof
    assume "pid \<in> set c"
    then obtain d e where d: "climbs t pid d" "c = d @ e" using climbs_prefix step.hyps(3) by blast
    have "climbs t pid (c @ [pid])" using step.hyps by (rule climbs.step)
    then have "d = c @ [pid]" using d climbs_unique by blast
    then show False using d by simp
  qed
  then show ?case using step by simp
qed simp

section \<open>The walk returns the chain\<close>

lemma chain_up_sound:
  "chain_up t seen acc cur = Inr res \<Longrightarrow>
     (case cur of None \<Rightarrow> res = acc
      | Some p \<Rightarrow> \<exists>c. climbs t p c \<and> res = c @ acc \<and> set c \<inter> set seen = {})"
proof (induction t seen acc cur arbitrary: res rule: chain_up.induct)
  case (2 t seen chain cur)
  obtain n where n: "cur \<notin> set seen" "js_get (by_id t) cur = Some n"
      "chain_up t (cur # seen) (cur # chain) (node_parent n) = Inr res"
    using "2.prems" by (auto split: if_splits option.splits)
  note IH = "2.IH" [OF n(1,2,3)]
  show ?case
  proof (cases "node_parent n")
    case None
    then show ?thesis using IH n climbs.top [OF n(2)] by auto
  next
    case (Some p)
    then obtain c where "climbs t p c" "res = c @ cur # chain" "set c \<inter> set (cur # seen) = {}"
      using IH by auto
    then show ?thesis
      using n climbs.step [OF n(2) Some] by (auto intro!: exI [of _ "c @ [cur]"])
  qed
qed simp

lemma chain_up_complete:
  "climbs t p c \<Longrightarrow> set c \<inter> set seen = {} \<Longrightarrow> chain_up t seen acc (Some p) = Inr (c @ acc)"
proof (induction arbitrary: seen acc rule: climbs.induct)
  case (step pid n p c)
  have "distinct (c @ [pid])" using climbs_distinct [OF climbs.step [OF step.hyps]] .
  then have "chain_up t (pid # seen) (pid # acc) (Some p) = Inr (c @ pid # acc)"
    using step.prems by (intro step.IH) auto
  then show ?case using step by simp
qed simp

lemma ancestor_chain:
  assumes "js_get (by_id t) pid = Some n"
  shows "(ancestorIdsOf t pid = Inr c) = climbs t pid (c @ [pid])"
proof
  assume a: "ancestorIdsOf t pid = Inr c"
  show "climbs t pid (c @ [pid])"
  proof (cases "node_parent n")
    case None
    then show ?thesis
      using a assms climbs.top [OF assms] by (simp add: ancestorIdsOf_def parent_of_def)
  next
    case (Some p)
    then obtain d where "climbs t p d" "c = d"
      using a assms chain_up_sound [of t "[pid]" "[]" "Some p" c]
      by (auto simp: ancestorIdsOf_def parent_of_def)
    then show ?thesis using climbs.step [OF assms Some] by simp
  qed
next
  assume up: "climbs t pid (c @ [pid])"
  then show "ancestorIdsOf t pid = Inr c"
  proof (cases rule: climbs.cases)
    case (top n)
    then show ?thesis by (simp add: ancestorIdsOf_def parent_of_def)
  next
    case (step n p)
    moreover have "pid \<notin> set c" using climbs_distinct [OF up] by simp
    ultimately show ?thesis
      using chain_up_complete [of t p c "[pid]" "[]"] by (simp add: ancestorIdsOf_def parent_of_def)
  qed
qed

text \<open>The errors: a cycle or a parent outside the scope.\<close>

lemma chain_up_fails:
  "chain_up t seen acc cur = Inl e \<Longrightarrow>
     (case e of Tree_cycle x \<Rightarrow> x \<in> set seen \<or> js_get (by_id t) x \<noteq> None
      | Parent_missing x \<Rightarrow> js_get (by_id t) x = None)"
proof (induction t seen acc cur rule: chain_up.induct)
  case (2 t seen chain cur)
  show ?case
  proof (cases "cur \<in> set seen")
    case False
    show ?thesis
    proof (cases "js_get (by_id t) cur")
      case (Some n)
      then have "case e of Tree_cycle x \<Rightarrow> x \<in> set (cur # seen) \<or> js_get (by_id t) x \<noteq> None
          | Parent_missing x \<Rightarrow> js_get (by_id t) x = None"
        using "2.IH" [OF False Some] "2.prems" False by simp
      then show ?thesis using Some by (cases e) auto
    qed (use "2.prems" False in auto)
  qed (use "2.prems" in auto)
qed simp

text \<open>The step from a page to its parent.\<close>

definition parent_step :: "page_tree \<Rightarrow> (string \<times> string) set" where
  "parent_step t = {(a, b). parent_of t a = Some b}"

lemma chain_up_stops:
  assumes "chain_up t seen acc cur = Inl e"
    and "\<And>s x. s \<in> set seen \<Longrightarrow> cur = Some x \<Longrightarrow> (s, x) \<in> (parent_step t)\<^sup>+" "pid \<in> set seen"
  shows "case e of Tree_cycle x \<Rightarrow> (pid, x) \<in> (parent_step t)\<^sup>+ \<and> (x, x) \<in> (parent_step t)\<^sup>+
      | Parent_missing x \<Rightarrow> (pid, x) \<in> (parent_step t)\<^sup>+ \<and> js_get (by_id t) x = None"
  using assms
proof (induction t seen acc cur rule: chain_up.induct)
  case (2 t seen chain cur)
  have here: "(s, cur) \<in> (parent_step t)\<^sup>+" if "s \<in> set seen" for s using "2.prems"(2) [OF that] by simp
  show ?case
  proof (cases "cur \<in> set seen")
    case True
    then show ?thesis using "2.prems" here by auto
  next
    case False
    show ?thesis
    proof (cases "js_get (by_id t) cur")
      case None
      then show ?thesis using "2.prems" here False by auto
    next
      case (Some n)
      have up: "(cur, x) \<in> parent_step t" if "node_parent n = Some x" for x
        using that Some by (simp add: parent_step_def parent_of_def)
      have "(s, x) \<in> (parent_step t)\<^sup>+" if "s \<in> set (cur # seen)" "node_parent n = Some x" for s x
        using that here up by (cases "s = cur") (auto intro: trancl_into_trancl)
      then show ?thesis using "2.IH" [OF False Some] "2.prems" False Some by simp
    qed
  qed
qed simp

text \<open>C29. The walk from a page to its root ends on every tree, whatever cycles or missing
  parents its data has, and decides: it answers the chain of ancestors exactly when parents
  lead from the page to a top-level page, and otherwise throws, naming a page above it that
  is above itself or a parent that is not in the scope.\<close>

theorem ancestor_walk_decides:
  assumes "js_get (by_id t) pid = Some n"
  shows "(\<forall>c. (ancestorIdsOf t pid = Inr c) = climbs t pid (c @ [pid]))
     \<and> (case ancestorIdsOf t pid of
          Inr c \<Rightarrow> climbs t pid (c @ [pid])
        | Inl (Tree_cycle x) \<Rightarrow> (pid, x) \<in> (parent_step t)\<^sup>+ \<and> (x, x) \<in> (parent_step t)\<^sup>+
        | Inl (Parent_missing x) \<Rightarrow> (pid, x) \<in> (parent_step t)\<^sup>+ \<and> js_get (by_id t) x = None)"
proof -
  have "case e of Tree_cycle x \<Rightarrow> (pid, x) \<in> (parent_step t)\<^sup>+ \<and> (x, x) \<in> (parent_step t)\<^sup>+
      | Parent_missing x \<Rightarrow> (pid, x) \<in> (parent_step t)\<^sup>+ \<and> js_get (by_id t) x = None"
    if "ancestorIdsOf t pid = Inl e" for e
    using that by (intro chain_up_stops [of t "[pid]" "[]" "parent_of t pid"])
      (auto simp: ancestorIdsOf_def parent_step_def)
  then show ?thesis
    using ancestor_chain [OF assms] by (auto split: sum.splits tree_error.splits)
qed

text \<open>Two pages that are each other's parent.\<close>

definition looped_tree :: page_tree where
  "looped_tree = indexTree
     [(''a'', \<lparr>node_id = ''a'', node_slug = ''a'', node_parent = Some ''b'', node_branch = None\<rparr>),
      (''b'', \<lparr>node_id = ''b'', node_slug = ''b'', node_parent = Some ''a'', node_branch = None\<rparr>)]"

lemma ancestor_walk_decides_witness:
  "ancestorIdsOf looped_tree ''a'' = Inl (Tree_cycle ''a'') \<and> \<not> (\<exists>c. climbs looped_tree ''a'' (c @ [''a'']))"
proof -
  have run: "ancestorIdsOf looped_tree ''a'' = Inl (Tree_cycle ''a'')" by code_simp
  have "js_get (by_id looped_tree) ''a'' \<noteq> None" by code_simp
  then obtain n where "js_get (by_id looped_tree) ''a'' = Some n" by blast
  from ancestor_walk_decides [OF this] run show ?thesis by (metis sum.distinct(1))
qed
definition proper_tree :: "page_tree \<Rightarrow> bool" where
  "proper_tree t =
     list_all (\<lambda>pid. case ancestorIdsOf t pid of Inl _ \<Rightarrow> False | Inr c \<Rightarrow> length c < MAX_PAGE_DEPTH)
       (map fst (by_id t))"

lemma proper_climbs:
  assumes "proper_tree t" "js_get (by_id t) pid = Some n"
  obtains c where "climbs t pid (c @ [pid])" "length c < MAX_PAGE_DEPTH" "ancestorIdsOf t pid = Inr c"
proof -
  have "pid \<in> set (map fst (by_id t))"
    using assms(2) by (auto simp: js_get_def dest!: map_of_SomeD intro: rev_image_eqI)
  then have "case ancestorIdsOf t pid of Inl _ \<Rightarrow> False | Inr c \<Rightarrow> length c < MAX_PAGE_DEPTH"
    by (rule bspec [OF assms(1) [unfolded proper_tree_def list_all_iff]])
  then obtain c where "ancestorIdsOf t pid = Inr c" "length c < MAX_PAGE_DEPTH"
    by (auto split: sum.splits)
  then show thesis using that ancestor_chain [OF assms(2)] by blast
qed

lemma proper_treeI:
  assumes "js_map_ok (by_id t)"
    and "\<And>pid n. js_get (by_id t) pid = Some n \<Longrightarrow> \<exists>c. climbs t pid c \<and> length c \<le> MAX_PAGE_DEPTH"
  shows "proper_tree t"
proof -
  have "case ancestorIdsOf t pid of Inl _ \<Rightarrow> False | Inr c \<Rightarrow> length c < MAX_PAGE_DEPTH"
    if "(pid, n) \<in> set (by_id t)" for pid n
  proof -
    have g: "js_get (by_id t) pid = Some n" using that js_get_in [OF assms(1)] by blast
    then obtain c where "climbs t pid c" "length c \<le> MAX_PAGE_DEPTH" using assms(2) by blast
    moreover from this obtain cs where "c = cs @ [pid]" using climbs_last by blast
    ultimately show ?thesis using ancestor_chain [OF g, of cs] by auto
  qed
  then show ?thesis by (auto simp: proper_tree_def list_all_iff)
qed

section \<open>The children index\<close>

lemma kids_add_child:
  "(case js_get (add_child n m) p of None \<Rightarrow> [] | Some ks \<Rightarrow> ks) =
     (case js_get m p of None \<Rightarrow> [] | Some ks \<Rightarrow> ks) @ (if node_parent n = Some p then [node_id n] else [])"
  by (auto simp: add_child_def js_map_simps split: option.splits)

lemma kids_fold:
  "(case js_get (fold (\<lambda>(_, n) m. add_child n m) nodes m) p of None \<Rightarrow> [] | Some ks \<Rightarrow> ks) =
     (case js_get m p of None \<Rightarrow> [] | Some ks \<Rightarrow> ks)
       @ map (\<lambda>e. node_id (snd e)) (filter (\<lambda>e. node_parent (snd e) = Some p) nodes)"
  by (induction nodes arbitrary: m) (auto simp: kids_add_child)

lemma kids_of_index:
  "kids_of (indexTree nodes) p =
     map (\<lambda>e. node_id (snd e)) (filter (\<lambda>e. node_parent (snd e) = Some p) nodes)"
  using kids_fold [of nodes "[]" p] by (simp add: kids_of_def indexTree_def js_get_def)

lemma by_id_index [simp]: "by_id (indexTree nodes) = nodes"
  by (simp add: indexTree_def)

definition tree_ok :: "page_tree \<Rightarrow> bool" where
  "tree_ok t \<longleftrightarrow> js_map_ok (by_id t) \<and> t = indexTree (by_id t)
     \<and> (\<forall>e \<in> set (by_id t). node_id (snd e) = fst e)"

lemma kids_iff:
  assumes "tree_ok t"
  shows "(k \<in> set (kids_of t p)) = (parent_of t k = Some p)"
proof -
  have t: "js_map_ok (by_id t)" "t = indexTree (by_id t)"
    and ids: "\<And>e. e \<in> set (by_id t) \<Longrightarrow> node_id (snd e) = fst e"
    using assms by (auto simp: tree_ok_def)
  have "k \<in> set (kids_of t p) \<longleftrightarrow>
      (\<exists>e \<in> set (by_id t). node_parent (snd e) = Some p \<and> node_id (snd e) = k)"
    by (subst t(2)) (auto simp: kids_of_index)
  also have "\<dots> \<longleftrightarrow> (\<exists>n. js_get (by_id t) k = Some n \<and> node_parent n = Some p)"
    using ids by (force simp: js_get_in [OF t(1)])
  also have "\<dots> \<longleftrightarrow> parent_of t k = Some p"
    by (auto simp: parent_of_def split: option.splits)
  finally show ?thesis .
qed

section \<open>The pages below\<close>

text \<open>below_loop adds every child of what it has seen and nothing else.\<close>

inductive below :: "page_tree \<Rightarrow> string list \<Rightarrow> string \<Rightarrow> bool" for t roots where
  child: "r \<in> set roots \<Longrightarrow> parent_of t k = Some r \<Longrightarrow> below t roots k"
| deeper: "below t roots p \<Longrightarrow> parent_of t k = Some p \<Longrightarrow> below t roots k"

lemma below_loop_sound:
  "tree_ok t \<Longrightarrow> set queue \<subseteq> set roots \<union> {x. below t roots x} \<Longrightarrow> \<forall>x \<in> set out. below t roots x
    \<Longrightarrow> \<forall>x \<in> set (below_loop t seen queue out). below t roots x"
proof (induction t seen queue out rule: below_loop.induct)
  case (2 t seen pid queue out)
  define new where "new = fresh_kids seen (kids_of t pid)"
  have new: "\<forall>x \<in> set new. below t roots x"
    using 2(2-4)
    by (auto simp: new_def fresh_kids_props kids_iff intro: below.intros)
  have "\<forall>x \<in> set (below_loop t (new @ seen) (queue @ new) (out @ new)). below t roots x"
    using "2.IH" [OF new_def "2.prems"(1)] 2(3,4) new by auto
  then show ?case by (simp add: new_def Let_def)
qed simp

lemma below_loop_complete:
  "tree_ok t \<Longrightarrow> set seen = set roots \<union> set out \<Longrightarrow> set queue \<subseteq> set seen
    \<Longrightarrow> (\<forall>p \<in> set seen - set queue. set (kids_of t p) \<subseteq> set seen)
    \<Longrightarrow> (let res = set roots \<union> set (below_loop t seen queue out)
         in \<forall>p \<in> res. set (kids_of t p) \<subseteq> res)"
proof (induction t seen queue out rule: below_loop.induct)
  case (1 t seen out)
  then show ?case by (auto simp: Let_def)
next
  case (2 t seen pid queue out)
  define new where "new = fresh_kids seen (kids_of t pid)"
  have set_new: "set new = set (kids_of t pid) - set seen" by (simp add: new_def fresh_kids_props)
  have "let res = set roots \<union> set (below_loop t (new @ seen) (queue @ new) (out @ new))
        in \<forall>p \<in> res. set (kids_of t p) \<subseteq> res"
  proof (rule "2.IH" [OF new_def "2.prems"(1)])
    show "\<forall>p \<in> set (new @ seen) - set (queue @ new). set (kids_of t p) \<subseteq> set (new @ seen)"
    proof
      fix p assume p: "p \<in> set (new @ seen) - set (queue @ new)"
      show "set (kids_of t p) \<subseteq> set (new @ seen)"
      proof (cases "p = pid")
        case True
        then show ?thesis using set_new by auto
      next
        case False
        then have "p \<in> set seen - set (pid # queue)" using p by auto
        then show ?thesis using "2.prems"(4) by auto
      qed
    qed
  qed (use "2.prems" in auto)
  then show ?case by (simp add: new_def Let_def)
qed

lemma descendants_fresh:
  "\<forall>x \<in> set out. x \<notin> set roots \<Longrightarrow> set roots \<subseteq> set seen
    \<Longrightarrow> \<forall>x \<in> set (below_loop t seen queue out). x \<notin> set roots"
proof (induction t seen queue out rule: below_loop.induct)
  case (2 t seen pid queue out)
  define new where "new = fresh_kids seen (kids_of t pid)"
  have "\<forall>x \<in> set (below_loop t (new @ seen) (queue @ new) (out @ new)). x \<notin> set roots"
    using "2.prems" by (intro "2.IH" [OF new_def]) (auto simp: new_def fresh_kids_props)
  then show ?case by (simp add: new_def Let_def)
qed simp

lemma descendants_distinct:
  "distinct out \<Longrightarrow> set out \<subseteq> set seen \<Longrightarrow> distinct (below_loop t seen queue out)"
proof (induction t seen queue out rule: below_loop.induct)
  case (2 t seen pid queue out)
  define new where "new = fresh_kids seen (kids_of t pid)"
  have "distinct (below_loop t (new @ seen) (queue @ new) (out @ new))"
    using "2.prems" by (intro "2.IH" [OF new_def]) (auto simp: new_def fresh_kids_props)
  then show ?case by (simp add: new_def Let_def)
qed simp

lemma descendants_iff:
  assumes "tree_ok t"
  shows "(x \<in> set (descendantIdsOf t roots)) = (below t roots x \<and> x \<notin> set roots)"
proof
  assume x: "x \<in> set (descendantIdsOf t roots)"
  then show "below t roots x \<and> x \<notin> set roots"
    using below_loop_sound [OF assms, of roots roots "[]" roots]
      descendants_fresh [of "[]" roots roots t roots] by (simp add: descendantIdsOf_def)
next
  assume x: "below t roots x \<and> x \<notin> set roots"
  define res where "res = set roots \<union> set (descendantIdsOf t roots)"
  have closed: "set (kids_of t p) \<subseteq> res" if "p \<in> res" for p
    using below_loop_complete [OF assms, of roots roots "[]" roots] that
    by (simp add: res_def descendantIdsOf_def Let_def)
  from x have "below t roots x" by simp
  then have "x \<in> res"
    by (induction rule: below.induct) (use closed kids_iff [OF assms] in \<open>auto simp: res_def\<close>)
  then show "x \<in> set (descendantIdsOf t roots)" using x by (simp add: res_def)
qed

lemma descendantIdsOf_distinct: "distinct (descendantIdsOf t roots)"
  by (simp add: descendantIdsOf_def descendants_distinct)

text \<open>Below some roots is having one of them in the ancestor chain.\<close>

lemma below_climbs:
  "below t roots k \<Longrightarrow> climbs t k c \<Longrightarrow> \<exists>r \<in> set roots. r \<in> set (butlast c)"
proof (induction arbitrary: c rule: below.induct)
  case (child r k)
  from child.prems show ?case
  proof (cases rule: climbs.cases)
    case (step n p d)
    then show ?thesis using child.hyps climbs_last [of t p d] by (auto simp: parent_of_def)
  qed (use child.hyps in \<open>simp add: parent_of_def\<close>)
next
  case (deeper p k)
  from deeper.prems show ?case
  proof (cases rule: climbs.cases)
    case (step n q d)
    then have "climbs t p d" using deeper.hyps by (simp add: parent_of_def)
    then show ?thesis using deeper.IH [of d] step by (auto dest: in_set_butlastD)
  qed (use deeper.hyps in \<open>simp add: parent_of_def\<close>)
qed

lemma climbs_below:
  "climbs t k c \<Longrightarrow> r \<in> set roots \<Longrightarrow> r \<in> set (butlast c) \<Longrightarrow> below t roots k"
proof (induction rule: climbs.induct)
  case (step pid n p c)
  have par: "parent_of t pid = Some p" using step.hyps by (simp add: parent_of_def)
  obtain cs where c: "c = cs @ [p]" using climbs_last step.hyps(3) by blast
  show ?case
  proof (cases "r = p")
    case True
    then show ?thesis using below.child [OF step.prems(1)] par by simp
  next
    case False
    then have "r \<in> set (butlast c)" using step.prems(2) c by (simp add: butlast_append)
    then show ?thesis using step.IH [OF step.prems(1)] par by (auto intro: below.deeper)
  qed
qed simp

end
