(* ===== verification/Page_Tree_Reads.thy ===== *)
theory Page_Tree_Reads
  imports Page_Tree
begin

text \<open>
  Reading the page tree (packages/admin-core/src/ops/content/page-tree.ts, with
  headOverlaySql of draft.ts): the whole tree of a scope, the ancestor chains of given
  pages with the pages a branch drifted, the pages below given roots, and both together.
  The partial reads are proved to answer as the whole tree would.
\<close>

section \<open>The rows\<close>

text \<open>A row of the pages table, and a row of the draft head: the newest pending state
  one owner wrote of a page on a branch, with its order key (header time, row time and row
  id as one number).\<close>

record page_row =
  pr_id :: string
  pr_slug :: string
  pr_parent :: "string option"
  pr_branch :: "string option"
  pr_deleted :: bool
  pr_path :: string
  pr_published :: bool

record head_row =
  hd_branch :: string
  hd_page :: string
  hd_at :: nat
  hd_state :: pending_state
  hd_owner :: "string option"

record page_db =
  db_pages :: "page_row list"
  db_heads :: "head_row list"

definition js_unique :: "'a list \<Rightarrow> 'a list" where
  "js_unique xs = rev (remdups (rev xs))"

lemma js_unique_simps [simp]: "set (js_unique xs) = set xs" "distinct (js_unique xs)"
  by (simp_all add: js_unique_def)

definition visible_row :: "string option \<Rightarrow> page_row \<Rightarrow> bool" where
  "visible_row chatBranchId r =
     (\<not> pr_deleted r \<and> (pr_branch r = None \<or> (chatBranchId \<noteq> None \<and> pr_branch r = chatBranchId)))"

definition raw_node :: "page_row \<Rightarrow> node_row" where
  "raw_node r =
     \<lparr>nr_id = pr_id r, nr_slug = pr_slug r, nr_parent = pr_parent r, nr_branch = pr_branch r\<rparr>"

fun newest_head :: "head_row \<Rightarrow> head_row list \<Rightarrow> head_row" where
  "newest_head h [] = h"
| "newest_head h (g # gs) = newest_head (if hd_at h < hd_at g then g else h) gs"

definition newest_state :: "head_row list \<Rightarrow> string \<Rightarrow> pending_state" where
  "newest_state hs page =
     (case filter (\<lambda>h. hd_page h = page) hs of
        h # gs \<Rightarrow> hd_state (newest_head h gs)
      | [] \<Rightarrow> \<lparr>ps_slug = None, ps_parent = None, ps_deleted = False\<rparr>)"

definition headOverlay ::
  "page_db \<Rightarrow> string \<Rightarrow> string list option \<Rightarrow> (string \<times> pending_state) list" where
  "headOverlay db branch ids =
     (let hs = filter (\<lambda>h. hd_branch h = branch
                 \<and> (case ids of None \<Rightarrow> True | Some is \<Rightarrow> hd_page h \<in> set is)) (db_heads db)
      in map (\<lambda>page. (page, newest_state hs page)) (sort (remdups (map hd_page hs))))"

section \<open>The whole tree\<close>

definition loadPageTree :: "page_db \<Rightarrow> string option \<Rightarrow> bool \<Rightarrow> page_tree" where
  "loadPageTree db chatBranchId overlay =
     (let rows = map raw_node (filter (visible_row chatBranchId) (db_pages db));
          pending = (case chatBranchId of
                       Some b \<Rightarrow> if overlay then headOverlay db b None else []
                     | None \<Rightarrow> [])
      in pageTreeOf rows pending)"

definition pendingDriftIds :: "page_db \<Rightarrow> page_tree \<Rightarrow> string \<Rightarrow> string list" where
  "pendingDriftIds db t chatBranchId = driftIdsBetween t (loadPageTree db (Some chatBranchId) False)"

section \<open>Ancestor chains\<close>

record chain_read =
  cr_nodes :: "(string \<times> page_node) list"
  cr_changed :: "string list"
  cr_next :: "string list"

definition read_chain_row ::
  "(string \<times> pending_state) list \<Rightarrow> page_node \<Rightarrow> chain_read \<Rightarrow> chain_read" where
  "read_chain_row pending s c =
     (let p = js_get pending (node_id s)
      in if (case p of None \<Rightarrow> False | Some st \<Rightarrow> ps_deleted st) then c
         else let n = (case p of None \<Rightarrow> s | Some st \<Rightarrow> with_pending st s);
                  nodes = js_set (node_id s) n (cr_nodes c)
              in c\<lparr>cr_nodes := nodes,
                   cr_changed := (if node_slug n \<noteq> node_slug s \<or> node_parent n \<noteq> node_parent s
                                  then js_add (node_id s) (cr_changed c) else cr_changed c),
                   cr_next := (case node_parent n of
                                 None \<Rightarrow> cr_next c
                               | Some q \<Rightarrow> if js_get nodes q = None then js_add q (cr_next c)
                                           else cr_next c)\<rparr>)"

definition stored_nodes :: "page_row list \<Rightarrow> (string \<times> page_node) list" where
  "stored_nodes rows = fold (\<lambda>r m. js_set (pr_id r) (row_node (raw_node r)) m) rows []"

definition read_chain_level ::
  "page_db \<Rightarrow> string option \<Rightarrow> string list \<Rightarrow> chain_read \<Rightarrow> chain_read" where
  "read_chain_level db chatBranchId frontier c =
     (let rows = filter (\<lambda>r. pr_id r \<in> set frontier \<and> visible_row chatBranchId r) (db_pages db);
          stored = stored_nodes rows;
          pending = (case chatBranchId of
                       Some b \<Rightarrow> if rows = [] then [] else headOverlay db b (Some (map pr_id rows))
                     | None \<Rightarrow> [])
      in fold (\<lambda>e. read_chain_row pending (snd e)) stored (c\<lparr>cr_next := []\<rparr>))"

text \<open>The first argument counts the levels left; the source reads levels 0 to
  MAX_PAGE_DEPTH.\<close>

fun read_chains :: "page_db \<Rightarrow> string option \<Rightarrow> nat \<Rightarrow> string list \<Rightarrow> chain_read \<Rightarrow> chain_read" where
  "read_chains db b 0 frontier c = c"
| "read_chains db b (Suc levels) frontier c =
     (if frontier = [] then c
      else let c' = read_chain_level db b frontier c in read_chains db b levels (cr_next c') c')"

fun drifts :: "(string \<times> page_node) list \<Rightarrow> string list \<Rightarrow> nat \<Rightarrow> string option \<Rightarrow> bool" where
  "drifts nodes changed 0 cur = False"
| "drifts nodes changed (Suc n) None = False"
| "drifts nodes changed (Suc n) (Some cur) =
     (cur \<in> set changed
      \<or> drifts nodes changed n
          (case js_get nodes cur of None \<Rightarrow> None | Some node \<Rightarrow> node_parent node))"

definition loadPageChains ::
  "page_db \<Rightarrow> string option \<Rightarrow> string list \<Rightarrow> page_tree \<times> string list" where
  "loadPageChains db chatBranchId pageIds =
     (let c = read_chains db chatBranchId (MAX_PAGE_DEPTH + 1) (js_unique pageIds)
                \<lparr>cr_nodes = [], cr_changed = [], cr_next = []\<rparr>
      in (indexTree (cr_nodes c),
          fold (\<lambda>i d. if js_get (cr_nodes c) i \<noteq> None
                         \<and> drifts (cr_nodes c) (cr_changed c) (MAX_PAGE_DEPTH + 1) (Some i)
                      then js_add i d else d) pageIds []))"

section \<open>Subtrees\<close>

definition head_parent :: "head_row \<Rightarrow> string option" where
  "head_parent h = (case ps_parent (hd_state h) of Some p \<Rightarrow> p | None \<Rightarrow> None)"

definition live_parent :: "page_row list \<Rightarrow> string \<Rightarrow> string option" where
  "live_parent live i =
     (case js_get (fold (\<lambda>r m. js_set (pr_id r) (pr_parent r) m) live []) i of
        None \<Rightarrow> None | Some p \<Rightarrow> p)"

definition kept_candidate ::
  "(string \<times> pending_state) list \<Rightarrow> page_row list \<Rightarrow> string list \<Rightarrow> string \<Rightarrow> bool" where
  "kept_candidate head live level i =
     (let h = js_get head i
      in if (case h of None \<Rightarrow> False | Some st \<Rightarrow> ps_deleted st) then False
         else case (case h of None \<Rightarrow> live_parent live i
                    | Some st \<Rightarrow> (case ps_parent st of None \<Rightarrow> live_parent live i | Some p \<Rightarrow> p)) of
                None \<Rightarrow> False
              | Some p \<Rightarrow> p \<in> set level)"

definition level_candidates :: "page_db \<Rightarrow> string option \<Rightarrow> string list \<Rightarrow> string list" where
  "level_candidates db chatBranchId frontier =
     (let live = filter (\<lambda>r. (case pr_parent r of None \<Rightarrow> False | Some p \<Rightarrow> p \<in> set frontier)
                   \<and> visible_row chatBranchId r) (db_pages db)
      in case chatBranchId of
           None \<Rightarrow> map pr_id live
         | Some b \<Rightarrow>
             let movedIn = remdups (map hd_page (filter (\<lambda>h. hd_branch h = b
                   \<and> (case head_parent h of None \<Rightarrow> False | Some p \<Rightarrow> p \<in> set frontier)) (db_heads db)));
                 candidates = js_unique (map pr_id live @ movedIn);
                 head = (if candidates = [] then [] else headOverlay db b (Some candidates))
             in filter (kept_candidate head live frontier) candidates)"

fun read_subtree ::
  "page_db \<Rightarrow> string option \<Rightarrow> nat \<Rightarrow> string list \<Rightarrow> string list \<Rightarrow> string list \<Rightarrow> string list" where
  "read_subtree db b 0 frontier seen out = out"
| "read_subtree db b (Suc levels) frontier seen out =
     (if frontier = [] then out
      else let new = filter (\<lambda>i. i \<notin> set seen) (level_candidates db b frontier)
           in read_subtree db b levels new (fold js_add new seen) (out @ new))"

definition loadSubtreeIds :: "page_db \<Rightarrow> string option \<Rightarrow> string list \<Rightarrow> string list" where
  "loadSubtreeIds db chatBranchId rootIds =
     (let roots = js_unique rootIds in read_subtree db chatBranchId MAX_PAGE_DEPTH roots roots [])"

definition loadScopedTree ::
  "page_db \<Rightarrow> string option \<Rightarrow> string list \<Rightarrow> page_tree \<times> string list" where
  "loadScopedTree db chatBranchId rootIds =
     (let roots = js_unique rootIds;
          below = loadSubtreeIds db chatBranchId roots;
          (t, drifted) = loadPageChains db chatBranchId (roots @ below)
      in (t, below))"

section \<open>The overlay\<close>

text \<open>page ids are the primary key of the pages table.\<close>

definition pages_ok :: "page_db \<Rightarrow> bool" where
  "pages_ok db = distinct (map pr_id (db_pages db))"

lemma newest_state_filter:
  "P page \<Longrightarrow> newest_state (filter (\<lambda>h. Q h \<and> P (hd_page h)) hs) page = newest_state (filter Q hs) page"
proof -
  assume p: "P page"
  have "filter (\<lambda>h. hd_page h = page) (filter (\<lambda>h. Q h \<and> P (hd_page h)) hs)
      = filter (\<lambda>h. hd_page h = page) (filter Q hs)"
    using p by (induction hs) auto
  then show ?thesis by (simp add: newest_state_def)
qed

lemma js_get_map_key:
  "js_get (map (\<lambda>k. (k, f k)) ks) k = (if k \<in> set ks then Some (f k) else None)"
  by (induction ks) (auto simp: js_get_def)

lemma headOverlay_ok: "js_map_ok (headOverlay db b ids)"
  by (simp add: headOverlay_def js_map_ok_def Let_def comp_def)

lemma headOverlay_ids:
  "js_get (headOverlay db b (Some is)) i = (if i \<in> set is then js_get (headOverlay db b None) i else None)"
  by (auto simp: headOverlay_def Let_def js_get_map_key newest_state_filter [where P = "\<lambda>x. x \<in> set is"])

text \<open>What a page is in a scope: its stored row unless the branch deleted it, with the
  branch's newest slug and parent.\<close>

definition pending_of :: "page_db \<Rightarrow> string option \<Rightarrow> string \<Rightarrow> pending_state option" where
  "pending_of db b i = (case b of None \<Rightarrow> None | Some br \<Rightarrow> js_get (headOverlay db br None) i)"

definition stored_node :: "page_db \<Rightarrow> string option \<Rightarrow> string \<Rightarrow> page_node option" where
  "stored_node db b i =
     js_get (map (\<lambda>r. (pr_id r, row_node (raw_node r))) (filter (visible_row b) (db_pages db))) i"

definition node_in :: "page_db \<Rightarrow> string option \<Rightarrow> string \<Rightarrow> page_node option" where
  "node_in db b i =
     (case stored_node db b i of
        None \<Rightarrow> None
      | Some s \<Rightarrow>
          (case pending_of db b i of
             None \<Rightarrow> Some s
           | Some st \<Rightarrow> if ps_deleted st then None else Some (with_pending st s)))"

lemma js_map_of_rows:
  "distinct (map f rows) \<Longrightarrow> \<forall>r \<in> set rows. js_get m (f r) = None
    \<Longrightarrow> fold (\<lambda>r m. js_set (f r) (g r) m) rows m = m @ map (\<lambda>r. (f r, g r)) rows"
proof (induction rows arbitrary: m)
  case (Cons r rows)
  have "fold (\<lambda>r m. js_set (f r) (g r) m) rows (js_set (f r) (g r) m)
      = js_set (f r) (g r) m @ map (\<lambda>r. (f r, g r)) rows"
    using Cons.prems by (intro Cons.IH) (auto simp: js_map_simps rev_image_eqI)
  then show ?case using Cons.prems by (simp add: js_set_new)
qed simp

lemma js_map_of_distinct:
  "distinct (map f rows) \<Longrightarrow> fold (\<lambda>r m. js_set (f r) (g r) m) rows [] = map (\<lambda>r. (f r, g r)) rows"
  by (simp add: js_map_of_rows js_get_nil)

lemma js_map_ok_map: "distinct (map f rows) \<Longrightarrow> js_map_ok (map (\<lambda>r. (f r, g r)) rows)"
  by (simp add: js_map_ok_def comp_def)

lemma overlay_page_get:
  "js_get (overlay_page e nodes) i =
     (if i = fst e then (case js_get nodes i of None \<Rightarrow> None
         | Some s \<Rightarrow> if ps_deleted (snd e) then None else Some (with_pending (snd e) s))
      else js_get nodes i)"
  by (auto simp: overlay_page_def js_map_simps split: option.splits)

lemma overlay_get:
  "js_map_ok pend \<Longrightarrow> js_get (fold overlay_page pend nodes) i =
     (case js_get nodes i of
        None \<Rightarrow> None
      | Some s \<Rightarrow>
          (case js_get pend i of
             None \<Rightarrow> Some s
           | Some st \<Rightarrow> if ps_deleted st then None else Some (with_pending st s)))"
proof (induction pend arbitrary: nodes)
  case (Cons e pend)
  have ok: "js_map_ok pend" and new: "js_get pend (fst e) = None"
    using Cons.prems by (auto simp: js_map_ok_def js_get_def map_of_eq_None_iff)
  have cons: "js_get (e # pend) i = (if i = fst e then Some (snd e) else js_get pend i)"
    by (cases e) (simp add: js_get_def)
  show ?case
  proof (cases "i = fst e")
    case True
    then show ?thesis
      using Cons.IH [OF ok] new cons by (simp add: overlay_page_get split: option.splits)
  next
    case False
    then show ?thesis
      using Cons.IH [OF ok, of "overlay_page e nodes"] cons
      by (simp add: overlay_page_get split: option.splits)
  qed
qed (simp add: js_get_nil split: option.splits)

definition ids_match :: "(string \<times> page_node) list \<Rightarrow> bool" where
  "ids_match nodes = (\<forall>e \<in> set nodes. node_id (snd e) = fst e)"

lemma node_id_with_pending [simp]: "node_id (with_pending st s) = node_id s"
  by (simp add: with_pending_def)

lemma ids_match_set:
  "ids_match nodes \<Longrightarrow> node_id n = i \<Longrightarrow> js_map_ok nodes \<Longrightarrow> ids_match (js_set i n nodes)"
proof -
  assume a: "ids_match nodes" "node_id n = i" "js_map_ok nodes"
  have "node_id v = k" if "(k, v) \<in> set (js_set i n nodes)" for k v
  proof -
    have "js_get (js_set i n nodes) k = Some v"
      using that js_get_in [OF js_map_ok_set [OF a(3)]] by blast
    then have "k = i \<and> v = n \<or> (k, v) \<in> set nodes"
      by (auto simp: js_map_simps js_get_in [OF a(3)] split: if_splits)
    then show ?thesis using a by (auto simp: ids_match_def)
  qed
  then show ?thesis by (auto simp: ids_match_def)
qed

lemma ids_match_overlay:
  "js_map_ok nodes \<Longrightarrow> ids_match nodes
    \<Longrightarrow> js_map_ok (overlay_page e nodes) \<and> ids_match (overlay_page e nodes)"
proof -
  assume a: "js_map_ok nodes" "ids_match nodes"
  have "ids_match (js_delete (fst e) nodes)"
    using a(2) by (auto simp: ids_match_def js_delete_in)
  moreover have "ids_match (js_set (fst e) (with_pending (snd e) s) nodes)"
    if "js_get nodes (fst e) = Some s" for s
    using a that by (intro ids_match_set) (auto simp: js_get_in ids_match_def)
  ultimately show ?thesis
    using a by (auto simp: overlay_page_def js_map_ok_delete js_map_ok_set split: option.splits)
qed

lemma overlay_ok:
  "js_map_ok nodes \<Longrightarrow> ids_match nodes
    \<Longrightarrow> js_map_ok (fold overlay_page pend nodes) \<and> ids_match (fold overlay_page pend nodes)"
proof (induction pend arbitrary: nodes)
  case (Cons e pend)
  then show ?case using ids_match_overlay [of nodes e] by simp
qed simp

lemma pages_distinct: "pages_ok db \<Longrightarrow> distinct (map pr_id (filter P (db_pages db)))"
  by (simp add: pages_ok_def distinct_map_filter)

lemma visible_nodes:
  assumes "pages_ok db"
  shows "fold (\<lambda>r m. js_set (nr_id r) (row_node r) m)
           (map raw_node (filter (visible_row b) (db_pages db))) []
       = map (\<lambda>r. (pr_id r, row_node (raw_node r))) (filter (visible_row b) (db_pages db))"
proof -
  have "nr_id (raw_node r) = pr_id r" for r by (simp add: raw_node_def)
  then have d: "distinct (map nr_id (map raw_node (filter (visible_row b) (db_pages db))))"
    using pages_distinct [OF assms] by (simp add: comp_def)
  show ?thesis
    using js_map_of_distinct [OF d, of row_node] \<open>\<And>r. nr_id (raw_node r) = pr_id r\<close>
    by (simp add: comp_def)
qed

definition page_pending :: "page_db \<Rightarrow> string option \<Rightarrow> bool \<Rightarrow> (string \<times> pending_state) list" where
  "page_pending db b overlay =
     (case b of Some br \<Rightarrow> if overlay then headOverlay db br None else [] | None \<Rightarrow> [])"

lemma loadPageTree_nodes:
  assumes "pages_ok db"
  shows "by_id (loadPageTree db b overlay) = fold overlay_page (page_pending db b overlay)
     (map (\<lambda>r. (pr_id r, row_node (raw_node r))) (filter (visible_row b) (db_pages db)))"
  by (simp add: loadPageTree_def Let_def pageTreeOf_def visible_nodes [OF assms] page_pending_def)

lemma page_pending_ok: "js_map_ok (page_pending db b overlay)"
  by (auto simp: page_pending_def headOverlay_ok js_map_ok_def [of "[]"] split: option.splits)

lemma loadPageTree_get:
  assumes "pages_ok db"
  shows "js_get (by_id (loadPageTree db b True)) i = node_in db b i"
    and "js_get (by_id (loadPageTree db b False)) i = stored_node db b i"
  unfolding loadPageTree_nodes [OF assms] overlay_get [OF page_pending_ok]
  by (auto simp: node_in_def stored_node_def pending_of_def page_pending_def js_get_nil
      split: option.splits)

lemma loadPageTree_ok:
  assumes "pages_ok db"
  shows "tree_ok (loadPageTree db b overlay)"
proof -
  define rows where "rows = map (\<lambda>r. (pr_id r, row_node (raw_node r))) (filter (visible_row b) (db_pages db))"
  have "js_map_ok rows" unfolding rows_def by (rule js_map_ok_map [OF pages_distinct [OF assms]])
  moreover have "ids_match rows" by (auto simp: rows_def ids_match_def row_node_def raw_node_def)
  ultimately have "js_map_ok (by_id (loadPageTree db b overlay)) \<and> ids_match (by_id (loadPageTree db b overlay))"
    by (simp add: loadPageTree_nodes [OF assms] overlay_ok rows_def [symmetric])
  moreover have "loadPageTree db b overlay = indexTree (by_id (loadPageTree db b overlay))"
    by (simp add: loadPageTree_def pageTreeOf_def Let_def)
  ultimately show ?thesis by (simp add: tree_ok_def ids_match_def)
qed

lemma node_in_id:
  assumes "pages_ok db" "node_in db b i = Some n"
  shows "node_id n = i"
proof -
  have "(i, n) \<in> set (by_id (loadPageTree db b True))"
    using assms loadPageTree_ok [OF assms(1)]
    by (simp add: loadPageTree_get [OF assms(1), symmetric] tree_ok_def js_get_in)
  then show ?thesis using loadPageTree_ok [OF assms(1), of b True] by (auto simp: tree_ok_def)
qed

section \<open>A level of the chain walk\<close>

definition changed_in :: "page_db \<Rightarrow> string option \<Rightarrow> string \<Rightarrow> bool" where
  "changed_in db b i =
     (case (stored_node db b i, node_in db b i) of
        (Some s, Some n) \<Rightarrow> node_slug n \<noteq> node_slug s \<or> node_parent n \<noteq> node_parent s
      | _ \<Rightarrow> False)"

definition level_rows_ok ::
  "page_db \<Rightarrow> string option \<Rightarrow> (string \<times> pending_state) list \<Rightarrow> (string \<times> page_node) list \<Rightarrow> bool" where
  "level_rows_ok db b pend es \<longleftrightarrow> (\<forall>e \<in> set es. node_id (snd e) = fst e
     \<and> stored_node db b (fst e) = Some (snd e) \<and> js_get pend (fst e) = pending_of db b (fst e))"

text \<open>What reading one stored row does to the walk's state.\<close>

lemma read_chain_row_eq:
  assumes "node_id s = i" "stored_node db b i = Some s" "js_get pend i = pending_of db b i"
  shows "read_chain_row pend s c =
     (case node_in db b i of
        None \<Rightarrow> c
      | Some n \<Rightarrow>
          let nodes = js_set i n (cr_nodes c)
          in c\<lparr>cr_nodes := nodes,
               cr_changed := (if changed_in db b i then js_add i (cr_changed c) else cr_changed c),
               cr_next := (case node_parent n of
                             None \<Rightarrow> cr_next c
                           | Some q \<Rightarrow> if js_get nodes q = None then js_add q (cr_next c) else cr_next c)\<rparr>)"
  using assms
  by (auto simp: read_chain_row_def node_in_def changed_in_def Let_def split: option.splits)


lemma level_rows_ok_Cons:
  "level_rows_ok db b pend (e # es) \<longleftrightarrow> node_id (snd e) = fst e \<and> stored_node db b (fst e) = Some (snd e)
     \<and> js_get pend (fst e) = pending_of db b (fst e) \<and> level_rows_ok db b pend es"
  by (auto simp: level_rows_ok_def)

lemma changed_in_known: "changed_in db b i \<Longrightarrow> node_in db b i \<noteq> None"
  by (auto simp: changed_in_def split: option.splits)

lemmas row_step = read_chain_row_eq [where s = "snd e" and i = "fst e" for e]

abbreviation read_rows ::
  "(string \<times> pending_state) list \<Rightarrow> (string \<times> page_node) list \<Rightarrow> chain_read \<Rightarrow> chain_read" where
  "read_rows pend es \<equiv> fold (\<lambda>e. read_chain_row pend (snd e)) es"

lemma level_nodes:
  "level_rows_ok db b pend es \<Longrightarrow> js_get (cr_nodes (read_rows pend es c)) i =
     (if i \<in> fst ` set es \<and> node_in db b i \<noteq> None then node_in db b i else js_get (cr_nodes c) i)"
proof (induction es arbitrary: c)
  case (Cons e es)
  have "js_get (cr_nodes (read_chain_row pend (snd e) c)) i =
      (if i = fst e \<and> node_in db b i \<noteq> None then node_in db b i else js_get (cr_nodes c) i)"
    using Cons.prems
    by (auto simp: level_rows_ok_Cons row_step Let_def js_map_simps split: option.splits)
  then show ?case
    using Cons.IH [of "read_chain_row pend (snd e) c"] Cons.prems by (auto simp: level_rows_ok_Cons)
qed simp

lemma level_changed:
  "level_rows_ok db b pend es \<Longrightarrow> set (cr_changed (read_rows pend es c)) =
     set (cr_changed c) \<union> {i \<in> fst ` set es. changed_in db b i}"
proof (induction es arbitrary: c)
  case (Cons e es)
  have "set (cr_changed (read_chain_row pend (snd e) c)) =
      set (cr_changed c) \<union> (if changed_in db b (fst e) then {fst e} else {})"
    using Cons.prems changed_in_known [of db b "fst e"]
    by (auto simp: level_rows_ok_Cons row_step Let_def split: option.splits)
  then show ?case
    using Cons.IH [of "read_chain_row pend (snd e) c"] Cons.prems by (auto simp: level_rows_ok_Cons)
qed simp

lemma level_keys_ok:
  "level_rows_ok db b pend es \<Longrightarrow> pages_ok db \<Longrightarrow> js_map_ok (cr_nodes c) \<Longrightarrow> ids_match (cr_nodes c)
    \<Longrightarrow> js_map_ok (cr_nodes (read_rows pend es c)) \<and> ids_match (cr_nodes (read_rows pend es c))"
proof (induction es arbitrary: c)
  case (Cons e es)
  have "js_map_ok (cr_nodes (read_chain_row pend (snd e) c))
      \<and> ids_match (cr_nodes (read_chain_row pend (snd e) c))"
    using Cons.prems node_in_id [OF Cons.prems(2)]
    by (auto simp: level_rows_ok_Cons row_step Let_def js_map_ok_set ids_match_set split: option.splits)
  then show ?case
    using Cons.IH [of "read_chain_row pend (snd e) c"] Cons.prems by (simp add: level_rows_ok_Cons)
qed simp

lemma level_next_from:
  "level_rows_ok db b pend es \<Longrightarrow> q \<in> set (cr_next (read_rows pend es c)) \<Longrightarrow> q \<in> set (cr_next c)
     \<or> (\<exists>i n. i \<in> fst ` set es \<and> node_in db b i = Some n \<and> node_parent n = Some q)"
proof (induction es arbitrary: c)
  case (Cons e es)
  have "q \<in> set (cr_next (read_chain_row pend (snd e) c)) \<Longrightarrow> q \<in> set (cr_next c)
      \<or> (\<exists>n. node_in db b (fst e) = Some n \<and> node_parent n = Some q)"
    using Cons.prems(1)
    by (auto simp: level_rows_ok_Cons row_step Let_def split: option.splits if_splits)
  then show ?case
    using Cons.IH [of "read_chain_row pend (snd e) c"] Cons.prems
    by (auto simp: level_rows_ok_Cons)
qed simp

lemma level_next_grows:
  "level_rows_ok db b pend es \<Longrightarrow> set (cr_next c) \<subseteq> set (cr_next (read_rows pend es c))"
proof (induction es arbitrary: c)
  case (Cons e es)
  have "set (cr_next c) \<subseteq> set (cr_next (read_chain_row pend (snd e) c))"
    using Cons.prems
    by (auto simp: level_rows_ok_Cons row_step Let_def split: option.splits if_splits)
  then show ?case
    using Cons.IH [of "read_chain_row pend (snd e) c"] Cons.prems by (auto simp: level_rows_ok_Cons)
qed simp

lemma level_parents:
  "level_rows_ok db b pend es \<Longrightarrow> i \<in> fst ` set es \<Longrightarrow> node_in db b i = Some n \<Longrightarrow> node_parent n = Some q
    \<Longrightarrow> js_get (cr_nodes (read_rows pend es c)) q \<noteq> None \<or> q \<in> set (cr_next (read_rows pend es c))"
proof (induction es arbitrary: c)
  case (Cons e es)
  define c1 where "c1 = read_chain_row pend (snd e) c"
  have ok: "level_rows_ok db b pend es" using Cons.prems(1) by (simp add: level_rows_ok_Cons)
  have c: "read_rows pend (e # es) c = read_rows pend es c1" by (simp add: c1_def)
  show ?case
  proof (cases "i \<in> fst ` set es")
    case True
    then show ?thesis using Cons.IH [OF ok True Cons.prems(3,4), of c1] c by simp
  next
    case False
    then have "i = fst e" using Cons.prems(2) by simp
    then have "js_get (cr_nodes c1) q \<noteq> None \<or> q \<in> set (cr_next c1)"
      using Cons.prems by (auto simp: c1_def level_rows_ok_Cons row_step Let_def split: if_splits)
    then show ?thesis
      using level_next_grows [OF ok, of c1] level_nodes [OF ok, of c1 q] c by auto
  qed
qed simp

text \<open>The rows one level reads are those of the frontier the scope shows.\<close>

lemma level_reads:
  assumes "pages_ok db"
  obtains pend es where "read_chain_level db b frontier c = read_rows pend es (c\<lparr>cr_next := []\<rparr>)"
    "level_rows_ok db b pend es"
    "fst ` set es = {i \<in> set frontier. stored_node db b i \<noteq> None}"
proof -
  define rows where "rows = filter (\<lambda>r. pr_id r \<in> set frontier \<and> visible_row b r) (db_pages db)"
  define es where "es = map (\<lambda>r. (pr_id r, row_node (raw_node r))) rows"
  define pend where "pend = (case b of Some br \<Rightarrow> if rows = [] then [] else headOverlay db br (Some (map pr_id rows))
                     | None \<Rightarrow> [])"
  have es: "stored_nodes rows = es"
    unfolding stored_nodes_def es_def rows_def
    by (rule js_map_of_distinct [OF pages_distinct [OF assms]])
  have stored: "(stored_node db b i = Some s) = (\<exists>r \<in> set (db_pages db).
      visible_row b r \<and> pr_id r = i \<and> s = row_node (raw_node r))" for i s
    unfolding stored_node_def js_get_in [OF js_map_ok_map [OF pages_distinct [OF assms]]] by auto
  have "js_get pend (pr_id r) = pending_of db b (pr_id r)" if "r \<in> set rows" for r
    using that by (auto simp: pend_def pending_of_def headOverlay_ids js_get_nil split: option.splits)
  moreover have "stored_node db b (pr_id r) = Some (row_node (raw_node r))" if "r \<in> set rows" for r
    unfolding stored using that by (auto simp: rows_def)
  moreover have "node_id (row_node (raw_node r)) = pr_id r" for r
    by (simp add: row_node_def raw_node_def)
  ultimately have "level_rows_ok db b pend es"
    unfolding level_rows_ok_def es_def by simp
  moreover have "fst ` set es = {i \<in> set frontier. stored_node db b i \<noteq> None}"
  proof -
    have "(stored_node db b i \<noteq> None) = (\<exists>r \<in> set (db_pages db). visible_row b r \<and> pr_id r = i)" for i
      using stored by (simp only: not_None_eq) blast
    then show ?thesis by (simp only:) (auto simp: es_def rows_def image_image)
  qed
  moreover have "read_chain_level db b frontier c = read_rows pend es (c\<lparr>cr_next := []\<rparr>)"
    by (simp add: read_chain_level_def Let_def rows_def [symmetric] es pend_def)
  ultimately show thesis using that by blast
qed

section \<open>The chain walk\<close>

text \<open>Every page read is the scope's page, and its parent is read too or still to read.\<close>

definition chain_inv :: "page_db \<Rightarrow> string option \<Rightarrow> string list \<Rightarrow> chain_read \<Rightarrow> bool" where
  "chain_inv db b frontier c \<longleftrightarrow>
     js_map_ok (cr_nodes c) \<and> ids_match (cr_nodes c)
     \<and> (\<forall>i n. js_get (cr_nodes c) i = Some n \<longrightarrow> node_in db b i = Some n)
     \<and> (\<forall>i n q. js_get (cr_nodes c) i = Some n \<longrightarrow> node_parent n = Some q \<longrightarrow> node_in db b q \<noteq> None
          \<longrightarrow> js_get (cr_nodes c) q \<noteq> None \<or> q \<in> set frontier)
     \<and> (\<forall>i. (i \<in> set (cr_changed c)) = (js_get (cr_nodes c) i \<noteq> None \<and> changed_in db b i))"

lemma chain_invD:
  assumes "chain_inv db b frontier c"
  shows "js_get (cr_nodes c) i = Some n \<Longrightarrow> node_in db b i = Some n"
    and "js_get (cr_nodes c) i = Some n \<Longrightarrow> node_parent n = Some q \<Longrightarrow> node_in db b q \<noteq> None
          \<Longrightarrow> js_get (cr_nodes c) q \<noteq> None \<or> q \<in> set frontier"
    and "(i \<in> set (cr_changed c)) = (js_get (cr_nodes c) i \<noteq> None \<and> changed_in db b i)"
  using assms unfolding chain_inv_def by blast+

lemma node_in_stored: "node_in db b i \<noteq> None \<Longrightarrow> stored_node db b i \<noteq> None"
  by (auto simp: node_in_def split: option.splits)

lemma level_inv:
  assumes ok: "pages_ok db" and inv: "chain_inv db b frontier c"
  shows "chain_inv db b (cr_next (read_chain_level db b frontier c)) (read_chain_level db b frontier c)"
    and "\<And>i. js_get (cr_nodes c) i \<noteq> None \<or> (i \<in> set frontier \<and> node_in db b i \<noteq> None)
         \<Longrightarrow> js_get (cr_nodes (read_chain_level db b frontier c)) i \<noteq> None"
    and "\<And>q. q \<in> set (cr_next (read_chain_level db b frontier c))
         \<Longrightarrow> \<exists>i n. i \<in> set frontier \<and> node_in db b i = Some n \<and> node_parent n = Some q"
proof -
  obtain pend es where level: "read_chain_level db b frontier c = read_rows pend es (c\<lparr>cr_next := []\<rparr>)"
      and rows: "level_rows_ok db b pend es"
      and keys: "fst ` set es = {i \<in> set frontier. stored_node db b i \<noteq> None}"
    by (rule level_reads [OF ok])
  define c' where "c' = read_chain_level db b frontier c"
  have nodes: "js_get (cr_nodes c') i =
      (if i \<in> set frontier \<and> node_in db b i \<noteq> None then node_in db b i else js_get (cr_nodes c) i)" for i
  proof -
    have "(i \<in> fst ` set es \<and> node_in db b i \<noteq> None) = (i \<in> set frontier \<and> node_in db b i \<noteq> None)"
      unfolding keys using node_in_stored [of db b i] by blast
    then show ?thesis
      using level_nodes [OF rows, of "c\<lparr>cr_next := []\<rparr>" i] by (auto simp: c'_def level)
  qed
  have inv1: "js_map_ok (cr_nodes c)" "ids_match (cr_nodes c)"
      "\<And>i n. js_get (cr_nodes c) i = Some n \<Longrightarrow> node_in db b i = Some n"
      "\<And>i n q. js_get (cr_nodes c) i = Some n \<Longrightarrow> node_parent n = Some q \<Longrightarrow> node_in db b q \<noteq> None
          \<Longrightarrow> js_get (cr_nodes c) q \<noteq> None \<or> q \<in> set frontier"
      "\<And>i. (i \<in> set (cr_changed c)) = (js_get (cr_nodes c) i \<noteq> None \<and> changed_in db b i)"
    using inv unfolding chain_inv_def by blast+
  have known: "node_in db b i = Some n" if "js_get (cr_nodes c') i = Some n" for i n
    using that inv1(3) by (auto simp: nodes split: if_splits)
  have parents: "js_get (cr_nodes c') q \<noteq> None \<or> q \<in> set (cr_next c')"
    if g: "js_get (cr_nodes c') i = Some n" "node_parent n = Some q" "node_in db b q \<noteq> None" for i n q
  proof (cases "i \<in> set frontier")
    case True
    then have "i \<in> fst ` set es" using keys known [OF g(1)] node_in_stored [of db b i] by auto
    then show ?thesis
      using level_parents [OF rows _ known [OF g(1)] g(2), of "c\<lparr>cr_next := []\<rparr>"]
      by (simp add: c'_def level)
  next
    case False
    then have "js_get (cr_nodes c) q \<noteq> None \<or> q \<in> set frontier"
      using g inv1(4) by (simp add: nodes)
    then show ?thesis using g(3) by (auto simp: nodes)
  qed
  have changed: "(i \<in> set (cr_changed c')) = (js_get (cr_nodes c') i \<noteq> None \<and> changed_in db b i)" for i
    using level_changed [OF rows, of "c\<lparr>cr_next := []\<rparr>"] keys inv1(5) [of i]
      changed_in_known [of db b i] node_in_stored [of db b i] nodes [of i]
    by (cases "changed_in db b i") (auto simp: c'_def level)
  have keysok: "js_map_ok (cr_nodes c') \<and> ids_match (cr_nodes c')"
    using level_keys_ok [OF rows ok, of "c\<lparr>cr_next := []\<rparr>"] inv1(1,2) by (simp add: c'_def level)
  show "chain_inv db b (cr_next (read_chain_level db b frontier c)) (read_chain_level db b frontier c)"
    unfolding c'_def [symmetric] chain_inv_def
    using keysok known parents changed by blast
  show "js_get (cr_nodes (read_chain_level db b frontier c)) i \<noteq> None"
    if "js_get (cr_nodes c) i \<noteq> None \<or> (i \<in> set frontier \<and> node_in db b i \<noteq> None)" for i
    using that nodes [of i] by (auto simp: c'_def)
  show "\<exists>i n. i \<in> set frontier \<and> node_in db b i = Some n \<and> node_parent n = Some q"
    if "q \<in> set (cr_next (read_chain_level db b frontier c))" for q
    using level_next_from [OF rows, of q "c\<lparr>cr_next := []\<rparr>"] that keys by (auto simp: level)
qed

text \<open>The levels read are enough when no page to read has a longer chain.\<close>

abbreviation whole_tree :: "page_db \<Rightarrow> string option \<Rightarrow> page_tree" where
  "whole_tree db b \<equiv> loadPageTree db b True"

definition chains_fit :: "page_db \<Rightarrow> string option \<Rightarrow> nat \<Rightarrow> string list \<Rightarrow> bool" where
  "chains_fit db b levels frontier =
     (\<forall>i \<in> set frontier. \<forall>d. climbs (whole_tree db b) i d \<longrightarrow> length d \<le> levels)"

lemma chains_fit_next:
  assumes ok: "pages_ok db" and fit: "chains_fit db b (Suc levels) frontier"
    and from_frontier: "\<And>q. q \<in> set next
       \<Longrightarrow> \<exists>i n. i \<in> set frontier \<and> node_in db b i = Some n \<and> node_parent n = Some q"
  shows "chains_fit db b levels next"
proof -
  have "length d \<le> levels" if q: "q \<in> set next" "climbs (whole_tree db b) q d" for q d
  proof -
    obtain i n where i: "i \<in> set frontier" "node_in db b i = Some n" "node_parent n = Some q"
      using from_frontier [OF q(1)] by blast
    then have "climbs (whole_tree db b) i (d @ [i])"
      using q(2) climbs.step [of "whole_tree db b" i n q d] by (simp add: loadPageTree_get [OF ok])
    then show ?thesis using fit i(1) by (fastforce simp: chains_fit_def)
  qed
  then show ?thesis by (auto simp: chains_fit_def)
qed

lemma read_chains_closed:
  assumes ok: "pages_ok db" and proper: "proper_tree (whole_tree db b)"
  shows "chain_inv db b frontier c \<Longrightarrow> chains_fit db b levels frontier
    \<Longrightarrow> chain_inv db b [] (read_chains db b levels frontier c)
        \<and> (\<forall>i. js_get (cr_nodes c) i \<noteq> None \<or> (i \<in> set frontier \<and> node_in db b i \<noteq> None)
             \<longrightarrow> js_get (cr_nodes (read_chains db b levels frontier c)) i \<noteq> None)"
proof (induction levels arbitrary: frontier c)
  case 0
  have none: "node_in db b i = None" if "i \<in> set frontier" for i
  proof (rule ccontr)
    assume "node_in db b i \<noteq> None"
    then obtain n where "js_get (by_id (whole_tree db b)) i = Some n"
      by (auto simp: loadPageTree_get [OF ok])
    then obtain d where "climbs (whole_tree db b) i (d @ [i])" by (rule proper_climbs [OF proper])
    then show False using 0(2) that by (fastforce simp: chains_fit_def)
  qed
  have "chain_inv db b [] c" using 0(1) none unfolding chain_inv_def by fastforce
  then show ?case using none by auto
next
  case (Suc levels)
  show ?case
  proof (cases "frontier = []")
    case False
    define c' where "c' = read_chain_level db b frontier c"
    note step = level_inv [OF ok Suc.prems(1), folded c'_def]
    have "chains_fit db b levels (cr_next c')"
      by (rule chains_fit_next [OF ok Suc.prems(2) step(3)])
    then show ?thesis
      using Suc.IH [OF step(1)] step(2) False by (simp add: c'_def [symmetric] Let_def)
  qed (use Suc.prems in simp)
qed

section \<open>The chains are the whole tree's\<close>

definition chain_nodes :: "page_db \<Rightarrow> string option \<Rightarrow> string list \<Rightarrow> chain_read" where
  "chain_nodes db b pageIds =
     read_chains db b (MAX_PAGE_DEPTH + 1) (js_unique pageIds) \<lparr>cr_nodes = [], cr_changed = [], cr_next = []\<rparr>"

lemma chain_nodes_inv:
  assumes ok: "pages_ok db" and proper: "proper_tree (whole_tree db b)"
  shows "chain_inv db b [] (chain_nodes db b pageIds)"
    and "i \<in> set pageIds \<Longrightarrow> js_get (cr_nodes (chain_nodes db b pageIds)) i = node_in db b i"
proof -
  have "chain_inv db b (js_unique pageIds) \<lparr>cr_nodes = [], cr_changed = [], cr_next = []\<rparr>"
    by (simp add: chain_inv_def js_get_nil js_map_ok_def ids_match_def)
  moreover have "chains_fit db b (MAX_PAGE_DEPTH + 1) (js_unique pageIds)"
  proof -
    have "length d \<le> MAX_PAGE_DEPTH + 1" if d: "climbs (whole_tree db b) i d" for i d
    proof -
      obtain n where "js_get (by_id (whole_tree db b)) i = Some n" using climbs_known [OF d] by blast
      then obtain e where "climbs (whole_tree db b) i (e @ [i])" "length e < MAX_PAGE_DEPTH"
        by (rule proper_climbs [OF proper])
      then show ?thesis using climbs_unique [OF d] by fastforce
    qed
    then show ?thesis by (simp add: chains_fit_def)
  qed
  ultimately have closed: "chain_inv db b [] (chain_nodes db b pageIds)
      \<and> (\<forall>i. js_get (cr_nodes \<lparr>cr_nodes = [], cr_changed = [], cr_next = []\<rparr>) i \<noteq> None
             \<or> (i \<in> set (js_unique pageIds) \<and> node_in db b i \<noteq> None)
           \<longrightarrow> js_get (cr_nodes (chain_nodes db b pageIds)) i \<noteq> None)"
    unfolding chain_nodes_def by (rule read_chains_closed [OF ok proper])
  then show inv: "chain_inv db b [] (chain_nodes db b pageIds)" by blast
  show "js_get (cr_nodes (chain_nodes db b pageIds)) i = node_in db b i" if "i \<in> set pageIds"
  proof (cases "node_in db b i")
    case None
    then show ?thesis
      using chain_invD(1) [OF inv, of i] by (cases "js_get (cr_nodes (chain_nodes db b pageIds)) i") auto
  next
    case (Some n)
    then have "js_get (cr_nodes (chain_nodes db b pageIds)) i \<noteq> None"
      using closed that by (simp del: not_None_eq)
    then obtain m where "js_get (cr_nodes (chain_nodes db b pageIds)) i = Some m" by blast
    then show ?thesis using chain_invD(1) [OF inv] Some by auto
  qed
qed

lemma chains_climb:
  assumes ok: "pages_ok db" and inv: "chain_inv db b [] c"
  shows "climbs (whole_tree db b) i d \<Longrightarrow> js_get (cr_nodes c) i \<noteq> None
    \<Longrightarrow> climbs (indexTree (cr_nodes c)) i d \<and> (\<forall>a \<in> set d. js_get (cr_nodes c) a = node_in db b a)"
proof (induction rule: climbs.induct)
  case (top i n)
  have D: "node_in db b i = Some n" using top.hyps(1) by (simp add: loadPageTree_get [OF ok])
  then have "js_get (cr_nodes c) i = Some n" using top.prems chain_invD(1) [OF inv] by fastforce
  then show ?case using climbs.top [of "indexTree (cr_nodes c)" i n] top.hyps(2) D by simp
next
  case (step i n p d)
  have D: "node_in db b i = Some n" using step.hyps(1) by (simp add: loadPageTree_get [OF ok])
  then have g: "js_get (cr_nodes c) i = Some n" using step.prems chain_invD(1) [OF inv] by fastforce
  have "node_in db b p \<noteq> None"
    using climbs_known [OF step.hyps(3)] by (auto simp: loadPageTree_get [OF ok])
  then have "js_get (cr_nodes c) p \<noteq> None"
    using chain_invD(2) [OF inv g step.hyps(2)] by simp
  note IH = step.IH [OF this]
  then show ?case
    using climbs.step [of "indexTree (cr_nodes c)" i n p d] step.hyps(2) g D by simp
qed

lemma chains_agree:
  assumes ok: "pages_ok db" and proper: "proper_tree (whole_tree db b)"
    and i: "i \<in> set pageIds" and c: "c = chain_nodes db b pageIds"
    and n: "node_in db b i = Some n"
  shows "ancestorIdsOf (indexTree (cr_nodes c)) i = ancestorIdsOf (whole_tree db b) i"
    and "ancestorSlugsOf (indexTree (cr_nodes c)) i = ancestorSlugsOf (whole_tree db b) i"
proof -
  have g: "js_get (by_id (whole_tree db b)) i = Some n" using n by (simp add: loadPageTree_get [OF ok])
  have g': "js_get (by_id (indexTree (cr_nodes c))) i = Some n"
    using chain_nodes_inv(2) [OF ok proper i] n by (simp add: c)
  obtain d where d: "climbs (whole_tree db b) i (d @ [i])" "ancestorIdsOf (whole_tree db b) i = Inr d"
    by (rule proper_climbs [OF proper g])
  have e: "climbs (indexTree (cr_nodes c)) i (d @ [i])"
      "\<forall>a \<in> set (d @ [i]). js_get (cr_nodes c) a = node_in db b a"
    using chains_climb [OF ok _ d(1), of c] chain_nodes_inv(1) [OF ok proper] g' by (auto simp: c)
  show ids: "ancestorIdsOf (indexTree (cr_nodes c)) i = ancestorIdsOf (whole_tree db b) i"
    using e(1) ancestor_chain [OF g'] d(2) by simp
  show "ancestorSlugsOf (indexTree (cr_nodes c)) i = ancestorSlugsOf (whole_tree db b) i"
    using e(2) by (simp add: ancestorSlugsOf_def ids d(2) slug_in_def loadPageTree_get [OF ok])
qed


lemma drifts_chain:
  "climbs (indexTree nodes) i d \<Longrightarrow> length d \<le> n
    \<Longrightarrow> drifts nodes changed n (Some i) = (\<exists>a \<in> set d. a \<in> set changed)"
proof (induction arbitrary: n rule: climbs.induct)
  case (top i m)
  then obtain k where k: "n = Suc k" by (cases n) auto
  have "drifts nodes changed k None = False" by (cases k) simp_all
  then show ?case using top by (simp add: k)
next
  case (step i m p d)
  then obtain k where k: "n = Suc k" by (cases n) auto
  then show ?case using step by auto
qed

lemma set_fold_js_add_if:
  "set (fold (\<lambda>i d. if P i then js_add i d else d) xs d) = set d \<union> {i \<in> set xs. P i}"
  by (induction xs arbitrary: d) auto

lemma below_none: "\<not> below t [] k"
proof
  assume "below t [] k"
  then show False by (induction rule: below.induct) simp_all
qed

lemma drift_ids_iff:
  assumes ok: "pages_ok db" and proper: "proper_tree (whole_tree db b)"
    and up: "climbs (whole_tree db b) i d"
  shows "(i \<in> set (driftIdsBetween (whole_tree db b) (loadPageTree db b False)))
    = (\<exists>a \<in> set d. changed_in db b a)"
proof -
  define t where "t = whole_tree db b"
  define ch where "ch = map (\<lambda>e. node_id (snd e)) (filter (\<lambda>e.
            case js_get (by_id (loadPageTree db b False)) (node_id (snd e)) of
              None \<Rightarrow> False
            | Some s \<Rightarrow> node_slug s \<noteq> node_slug (snd e) \<or> node_parent s \<noteq> node_parent (snd e))
            (by_id t))"
  have tok: "tree_ok t" by (simp add: t_def loadPageTree_ok [OF ok])
  have in_t: "(k, n) \<in> set (by_id t) \<longleftrightarrow> node_in db b k = Some n" for k n
    using tok by (simp add: t_def js_get_in [symmetric] tree_ok_def loadPageTree_get [OF ok])
  have "a \<in> set ch \<longleftrightarrow> changed_in db b a" for a
  proof
    assume "a \<in> set ch"
    then obtain e where e: "e \<in> set (by_id t)" "node_id (snd e) = a"
        "case stored_node db b (node_id (snd e)) of None \<Rightarrow> False
         | Some s \<Rightarrow> node_slug s \<noteq> node_slug (snd e) \<or> node_parent s \<noteq> node_parent (snd e)"
      unfolding ch_def set_map set_filter loadPageTree_get [OF ok] by blast
    then have n: "node_in db b (fst e) = Some (snd e)" using in_t [of "fst e" "snd e"] by simp
    then have "fst e = a" using node_in_id [OF ok n] e(2) by simp
    then show "changed_in db b a"
      using n e(2,3) by (auto simp: changed_in_def split: option.splits)
  next
    assume c: "changed_in db b a"
    then obtain s n where sn: "stored_node db b a = Some s" "node_in db b a = Some n"
        "node_slug n \<noteq> node_slug s \<or> node_parent n \<noteq> node_parent s"
      by (auto simp: changed_in_def split: option.splits)
    then have "(a, n) \<in> set (by_id t)" "node_id n = a" using in_t node_in_id [OF ok] by blast+
    then show "a \<in> set ch" using sn unfolding ch_def set_map set_filter
      by (intro image_eqI [where x = "(a, n)"]) (auto simp: loadPageTree_get [OF ok])
  qed
  then have ch: "set ch = {a. changed_in db b a}" by blast
  have "(i \<in> set (driftIdsBetween t (loadPageTree db b False)))
      = (changed_in db b i \<or> i \<in> set (descendantIdsOf t ch) \<and> ch \<noteq> [])"
    using ch by (auto simp: driftIdsBetween_def Let_def ch_def [symmetric])
  also have "\<dots> = (changed_in db b i \<or> below t ch i)"
    using ch by (auto simp: descendants_iff [OF tok] below_none)
  also have "\<dots> = (\<exists>a \<in> set d. changed_in db b a)"
  proof -
    obtain cs where cs: "d = cs @ [i]" using climbs_last [OF up] by blast
    have "below t ch i \<longleftrightarrow> (\<exists>a \<in> set cs. a \<in> set ch)"
      using below_climbs [of t ch i d] climbs_below [of t i d] up by (auto simp: t_def cs)
    then show ?thesis using ch by (auto simp: cs)
  qed
  finally show ?thesis by (simp add: t_def)
qed

lemma loadPageChains_parts:
  "fst (loadPageChains db b pageIds) = indexTree (cr_nodes (chain_nodes db b pageIds))"
  "(i \<in> set (snd (loadPageChains db b pageIds))) =
     (i \<in> set pageIds \<and> js_get (cr_nodes (chain_nodes db b pageIds)) i \<noteq> None
      \<and> drifts (cr_nodes (chain_nodes db b pageIds)) (cr_changed (chain_nodes db b pageIds))
           (MAX_PAGE_DEPTH + 1) (Some i))"
  unfolding loadPageChains_def Let_def chain_nodes_def [symmetric] snd_conv fst_conv set_fold_js_add_if
  by auto

lemma chain_drift_exact:
  assumes ok: "pages_ok db" and proper: "proper_tree (whole_tree db b)"
  shows "(i \<in> set (snd (loadPageChains db b pageIds)))
    = (i \<in> set pageIds \<and> i \<in> set (driftIdsBetween (whole_tree db b) (loadPageTree db b False)))"
proof (cases "i \<in> set pageIds \<and> node_in db b i \<noteq> None")
  case False
  have "i \<notin> set (driftIdsBetween (whole_tree db b) (loadPageTree db b False))" if "node_in db b i = None"
  proof
    assume "i \<in> set (driftIdsBetween (whole_tree db b) (loadPageTree db b False))"
    then have "i \<in> (\<lambda>e. node_id (snd e)) ` set (by_id (whole_tree db b))
        \<or> (\<exists>roots. below (whole_tree db b) roots i)"
      by (auto simp: driftIdsBetween_def Let_def descendants_iff [OF loadPageTree_ok [OF ok]] split: if_splits)
    moreover have "parent_of (whole_tree db b) i = None"
      using that by (simp add: parent_of_def loadPageTree_get [OF ok])
    ultimately obtain e where "e \<in> set (by_id (whole_tree db b))" "node_id (snd e) = i"
      by (auto elim: below.cases)
    then have "(i, snd e) \<in> set (by_id (whole_tree db b))"
      using loadPageTree_ok [OF ok, of b True] by (cases e) (auto simp: tree_ok_def)
    then have "js_get (by_id (whole_tree db b)) i = Some (snd e)"
      using loadPageTree_ok [OF ok, of b True] by (simp add: tree_ok_def js_get_in)
    then show False using that by (simp add: loadPageTree_get [OF ok])
  qed
  moreover have "i \<notin> set (snd (loadPageChains db b pageIds))"
  proof (cases "i \<in> set pageIds")
    case True
    then show ?thesis
      using False chain_nodes_inv(2) [OF ok proper True] unfolding loadPageChains_parts by simp
  qed (simp only: loadPageChains_parts simp_thms)
  ultimately show ?thesis using False by blast
next
  case True
  then obtain n where n: "node_in db b i = Some n" and i: "i \<in> set pageIds" by blast
  define c where "c = chain_nodes db b pageIds"
  have inv: "chain_inv db b [] c" unfolding c_def by (rule chain_nodes_inv(1) [OF ok proper])
  have g: "js_get (cr_nodes c) i = Some n"
    using chain_nodes_inv(2) [OF ok proper i] n by (simp add: c_def)
  have "js_get (by_id (whole_tree db b)) i = Some n" using n by (simp add: loadPageTree_get [OF ok])
  then obtain d where d: "climbs (whole_tree db b) i (d @ [i])" "length d < MAX_PAGE_DEPTH"
    by (rule proper_climbs [OF proper])
  have up: "climbs (indexTree (cr_nodes c)) i (d @ [i])"
      "\<forall>a \<in> set (d @ [i]). js_get (cr_nodes c) a = node_in db b a"
    using chains_climb [OF ok inv d(1)] g by auto
  have "(i \<in> set (snd (loadPageChains db b pageIds)))
      = drifts (cr_nodes c) (cr_changed c) (MAX_PAGE_DEPTH + 1) (Some i)"
    unfolding loadPageChains_parts using i g unfolding c_def by blast
  also have "\<dots> = (\<exists>a \<in> set (d @ [i]). a \<in> set (cr_changed c))"
    using d(2) by (intro drifts_chain [OF up(1)]) simp
  also have "\<dots> = (\<exists>a \<in> set (d @ [i]). changed_in db b a)"
  proof -
    have "(a \<in> set (cr_changed c)) = changed_in db b a" if "a \<in> set (d @ [i])" for a
      using chain_invD(3) [OF inv, of a] up(2) that changed_in_known [of db b a] by auto
    then show ?thesis by blast
  qed
  also have "\<dots> = (i \<in> set (driftIdsBetween (whole_tree db b) (loadPageTree db b False)))"
    by (rule drift_ids_iff [OF ok proper d(1), symmetric])
  finally show ?thesis using i by simp
qed

section \<open>The subtree walk\<close>

lemma newest_head_in: "newest_head h gs \<in> set (h # gs)"
  by (induction h gs rule: newest_head.induct) auto

lemma pending_has_head:
  assumes "js_get (headOverlay db br None) i = Some st"
  obtains h where "h \<in> set (db_heads db)" "hd_branch h = br" "hd_page h = i" "hd_state h = st"
proof -
  define hs where "hs = filter (\<lambda>h. hd_branch h = br) (db_heads db)"
  have st: "i \<in> set (map hd_page hs)" "st = newest_state hs i"
    using assms by (auto simp: headOverlay_def Let_def js_get_map_key hs_def split: if_splits)
  obtain h gs where f: "filter (\<lambda>h. hd_page h = i) hs = h # gs"
    using st(1) by (cases "filter (\<lambda>h. hd_page h = i) hs") (auto simp: filter_empty_conv)
  have "newest_head h gs \<in> set (filter (\<lambda>h. hd_page h = i) hs)"
    using newest_head_in f by metis
  then show thesis using that [of "newest_head h gs"] st(2) f by (simp add: newest_state_def hs_def)
qed

lemma live_parent_eq:
  assumes ok: "pages_ok db" and s: "stored_node db b i = Some s"
    and live: "live = filter (\<lambda>r. (case pr_parent r of None \<Rightarrow> False | Some p \<Rightarrow> p \<in> set frontier)
                   \<and> visible_row b r) (db_pages db)"
  shows "live_parent live i = (case node_parent s of None \<Rightarrow> None
           | Some p \<Rightarrow> if p \<in> set frontier then Some p else None)"
    and "(i \<in> pr_id ` set live) = (\<exists>p \<in> set frontier. node_parent s = Some p)"
proof -
  have m: "fold (\<lambda>r m. js_set (pr_id r) (pr_parent r) m) live [] = map (\<lambda>r. (pr_id r, pr_parent r)) live"
    unfolding live by (rule js_map_of_distinct [OF pages_distinct [OF ok]])
  have mok: "js_map_ok (map (\<lambda>r. (pr_id r, pr_parent r)) live)"
    unfolding live by (rule js_map_ok_map [OF pages_distinct [OF ok]])
  have "(i, s) \<in> set (map (\<lambda>r. (pr_id r, row_node (raw_node r))) (filter (visible_row b) (db_pages db)))"
    using s unfolding stored_node_def js_get_in [OF js_map_ok_map [OF pages_distinct [OF ok]]] .
  then obtain r where r: "r \<in> set (db_pages db)" "visible_row b r" "pr_id r = i" "node_parent s = pr_parent r"
    by (auto simp: row_node_def raw_node_def)
  have same: "q = r" if "q \<in> set (db_pages db)" "pr_id q = i" for q
    using that r(1,3) ok by (auto simp: pages_ok_def distinct_map inj_on_def)
  have sub: "set live \<subseteq> set (db_pages db)" by (auto simp: live)
  have got: "js_get (map (\<lambda>r. (pr_id r, pr_parent r)) live) i = Some x \<longleftrightarrow> r \<in> set live \<and> x = pr_parent r" for x
  proof -
    have "(i, x) \<in> set (map (\<lambda>r. (pr_id r, pr_parent r)) live)
        \<longleftrightarrow> (\<exists>q \<in> set live. pr_id q = i \<and> x = pr_parent q)" by auto
    then show ?thesis unfolding js_get_in [OF mok] using same [OF subsetD [OF sub]] r(3) by blast
  qed
  have in_live: "(i \<in> pr_id ` set live) = (r \<in> set live)"
    using same [OF subsetD [OF sub]] r(3) by blast
  then show "(i \<in> pr_id ` set live) = (\<exists>p \<in> set frontier. node_parent s = Some p)"
    using r by (cases "pr_parent r") (auto simp: live)
  show "live_parent live i = (case node_parent s of None \<Rightarrow> None
           | Some p \<Rightarrow> if p \<in> set frontier then Some p else None)"
  proof (cases "r \<in> set live")
    case True
    then have "js_get (map (\<lambda>r. (pr_id r, pr_parent r)) live) i = Some (pr_parent r)" using got by blast
    moreover obtain p where "pr_parent r = Some p" "p \<in> set frontier"
      using True by (auto simp: live split: option.splits)
    ultimately show ?thesis by (simp add: live_parent_def m r(4))
  next
    case False
    then have "js_get (map (\<lambda>r. (pr_id r, pr_parent r)) live) i = None"
      using got by (cases "js_get (map (\<lambda>r. (pr_id r, pr_parent r)) live) i") auto
    moreover have "case pr_parent r of None \<Rightarrow> True | Some p \<Rightarrow> p \<notin> set frontier"
      using False r by (auto simp: live split: option.splits)
    ultimately show ?thesis by (auto simp: live_parent_def m r(4) split: option.splits)
  qed
qed


lemma kept_iff:
  assumes ok: "pages_ok db" and n: "node_in db b i = Some n"
    and live: "live = filter (\<lambda>r. (case pr_parent r of None \<Rightarrow> False | Some p \<Rightarrow> p \<in> set frontier)
                   \<and> visible_row b r) (db_pages db)"
    and h: "js_get head i = pending_of db b i"
  shows "kept_candidate head live frontier i = (\<exists>p \<in> set frontier. node_parent n = Some p)"
proof -
  obtain s where s: "stored_node db b i = Some s" using n node_in_stored [of db b i] by auto
  note lp = live_parent_eq(1) [OF ok s live]
  show ?thesis
  proof (cases "pending_of db b i")
    case None
    then have "n = s" using n s by (simp add: node_in_def)
    then show ?thesis using None lp h by (auto simp: kept_candidate_def split: option.splits)
  next
    case (Some st)
    then have "\<not> ps_deleted st" "n = with_pending st s" using n s by (auto simp: node_in_def split: if_splits)
    then show ?thesis
      using Some lp h by (auto simp: kept_candidate_def with_pending_def split: option.splits)
  qed
qed

lemma candidates_cover:
  assumes ok: "pages_ok db" and n: "node_in db (Some br) i = Some n"
    and p: "node_parent n = Some p" "p \<in> set frontier"
    and live: "live = filter (\<lambda>r. (case pr_parent r of None \<Rightarrow> False | Some p \<Rightarrow> p \<in> set frontier)
                   \<and> visible_row (Some br) r) (db_pages db)"
  shows "i \<in> pr_id ` set live \<or> (\<exists>h \<in> set (db_heads db). hd_branch h = br \<and> hd_page h = i
     \<and> head_parent h = Some p)"
proof -
  obtain s where s: "stored_node db (Some br) i = Some s" using n node_in_stored [of db "Some br" i] by auto
  show ?thesis
  proof (cases "node_parent s = Some p")
    case True
    then show ?thesis using live_parent_eq(2) [OF ok s live] p by blast
  next
    case False
    then obtain st where st: "js_get (headOverlay db br None) i = Some st" "n = with_pending st s"
      using n s p by (auto simp: node_in_def pending_of_def split: option.splits if_splits)
    then have par: "ps_parent st = Some (Some p)"
      using False p by (auto simp: with_pending_def split: option.splits)
    obtain h where "h \<in> set (db_heads db)" "hd_branch h = br" "hd_page h = i" "hd_state h = st"
      by (rule pending_has_head [OF st(1)])
    then show ?thesis using par by (auto simp: head_parent_def)
  qed
qed

lemma level_candidates_iff:
  assumes ok: "pages_ok db" and n: "node_in db b i = Some n"
  shows "(i \<in> set (level_candidates db b frontier)) = (\<exists>p \<in> set frontier. node_parent n = Some p)"
proof -
  define live where "live = filter (\<lambda>r. (case pr_parent r of None \<Rightarrow> False | Some p \<Rightarrow> p \<in> set frontier)
                   \<and> visible_row b r) (db_pages db)"
  show ?thesis
  proof (cases b)
    case None
    then have "stored_node db b i = Some n" using n by (auto simp: node_in_def pending_of_def split: option.splits)
    then have "(i \<in> pr_id ` set live) = (\<exists>p \<in> set frontier. node_parent n = Some p)"
      by (rule live_parent_eq(2) [OF ok _ live_def])
    then show ?thesis using None by (simp add: level_candidates_def Let_def live_def)
  next
    case (Some br)
    define movedIn where "movedIn = remdups (map hd_page (filter (\<lambda>h. hd_branch h = br
                   \<and> (case head_parent h of None \<Rightarrow> False | Some p \<Rightarrow> p \<in> set frontier)) (db_heads db)))"
    define cands where "cands = js_unique (map pr_id live @ movedIn)"
    define head where "head = (if cands = [] then [] else headOverlay db br (Some cands))"
    have eq: "level_candidates db b frontier = filter (kept_candidate head live frontier) cands"
      unfolding Some level_candidates_def Let_def option.case head_def cands_def movedIn_def
      by (simp only: live_def Some)
    have head: "js_get head i = pending_of db b i" if "i \<in> set cands"
      using that by (auto simp: head_def headOverlay_ids pending_of_def Some)
    have kept: "kept_candidate head live frontier i = (\<exists>p \<in> set frontier. node_parent n = Some p)"
      if "i \<in> set cands"
      by (rule kept_iff [OF ok n live_def head [OF that]])
    have "i \<in> set cands" if "p \<in> set frontier" "node_parent n = Some p" for p
      using candidates_cover [OF ok, of br i n p frontier live] n that
      by (auto simp: cands_def movedIn_def live_def Some)
    then show ?thesis unfolding eq using kept by auto
  qed
qed

definition subtree_inv ::
  "page_db \<Rightarrow> string option \<Rightarrow> string list \<Rightarrow> nat \<Rightarrow> string list \<Rightarrow> string list \<Rightarrow> string list \<Rightarrow> bool" where
  "subtree_inv db b roots levels frontier seen out \<longleftrightarrow>
     set seen = set roots \<union> set out \<and> set frontier \<subseteq> set seen \<and> set out \<inter> set roots = {}
     \<and> (\<forall>i n p. node_in db b i = Some n \<longrightarrow> node_parent n = Some p \<longrightarrow> p \<in> set seen
          \<longrightarrow> i \<in> set seen \<or> p \<in> set frontier)
     \<and> (\<forall>i \<in> set out. node_in db b i \<noteq> None \<longrightarrow> below (whole_tree db b) roots i)
     \<and> (\<forall>i \<in> set frontier. \<forall>d. climbs (whole_tree db b) i d \<longrightarrow> MAX_PAGE_DEPTH < length d + levels)"

lemma subtree_invD:
  assumes "subtree_inv db b roots levels frontier seen out"
  shows "set seen = set roots \<union> set out" "set frontier \<subseteq> set seen" "set out \<inter> set roots = {}"
    and "node_in db b i = Some n \<Longrightarrow> node_parent n = Some p \<Longrightarrow> p \<in> set seen
          \<Longrightarrow> i \<in> set seen \<or> p \<in> set frontier"
    and "i \<in> set out \<Longrightarrow> node_in db b i \<noteq> None \<Longrightarrow> below (whole_tree db b) roots i"
    and "i \<in> set frontier \<Longrightarrow> climbs (whole_tree db b) i d \<Longrightarrow> MAX_PAGE_DEPTH < length d + levels"
  using assms unfolding subtree_inv_def by blast+

lemma parent_known:
  assumes ok: "pages_ok db" and proper: "proper_tree (whole_tree db b)"
    and n: "node_in db b i = Some n" "node_parent n = Some p"
  shows "node_in db b p \<noteq> None"
proof -
  have "js_get (by_id (whole_tree db b)) i = Some n" using n by (simp add: loadPageTree_get [OF ok])
  then obtain d where "climbs (whole_tree db b) i (d @ [i])" by (rule proper_climbs [OF proper])
  then show ?thesis
  proof (cases rule: climbs.cases)
    case (step m q)
    then show ?thesis using n climbs_known [of "whole_tree db b" q d] by (auto simp: loadPageTree_get [OF ok])
  qed (use n in \<open>auto simp: loadPageTree_get [OF ok]\<close>)
qed

lemma set_fold_add: "set (fold js_add xs ys) = set ys \<union> set xs"
  by (induction xs arbitrary: ys) auto

lemma subtree_level:
  assumes ok: "pages_ok db" and proper: "proper_tree (whole_tree db b)"
    and inv: "subtree_inv db b roots (Suc levels) frontier seen out"
    and new: "new = filter (\<lambda>i. i \<notin> set seen) (level_candidates db b frontier)"
  shows "subtree_inv db b roots levels new (fold js_add new seen) (out @ new)"
proof -
  note D = subtree_invD [OF inv]
  have par: "\<exists>p \<in> set frontier. node_parent n = Some p" if "i \<in> set new" "node_in db b i = Some n" for i n
    using that level_candidates_iff [OF ok that(2)] by (simp add: new)
  have in_new: "i \<in> set new \<or> i \<in> set seen"
    if "node_in db b i = Some n" "node_parent n = Some p" "p \<in> set frontier" for i n p
    using that level_candidates_iff [OF ok that(1), of frontier] by (auto simp: new)
  have par_of: "parent_of (whole_tree db b) i = node_parent n" if "node_in db b i = Some n" for i n
    using that by (simp add: parent_of_def loadPageTree_get [OF ok])
  have below_new: "below (whole_tree db b) roots i" if i: "i \<in> set new" "node_in db b i = Some n" for i n
  proof -
    obtain p where p: "p \<in> set frontier" "node_parent n = Some p" using par [OF i] by blast
    show ?thesis
    proof (cases "p \<in> set roots")
      case True
      then show ?thesis using p par_of [OF i(2)] by (auto intro: below.child)
    next
      case False
      then have "p \<in> set out" using p(1) D(1,2) by auto
      then have "below (whole_tree db b) roots p"
        using D(5) parent_known [OF ok proper i(2) p(2)] by blast
      then show ?thesis using p par_of [OF i(2)] by (auto intro: below.deeper)
    qed
  qed
  have deep: "MAX_PAGE_DEPTH < length d + levels"
    if i: "i \<in> set new" and d: "climbs (whole_tree db b) i d" for i d
  proof -
    obtain n where n: "node_in db b i = Some n" using climbs_known [OF d] by (auto simp: loadPageTree_get [OF ok])
    obtain p where p: "p \<in> set frontier" "node_parent n = Some p" using par [OF i n] by blast
    from d show ?thesis
    proof (cases rule: climbs.cases)
      case (step m q e)
      then have "q = p" using n p(2) by (simp add: loadPageTree_get [OF ok])
      then have "MAX_PAGE_DEPTH < length e + Suc levels" using D(6) [OF p(1)] step by simp
      then show ?thesis using step by simp
    qed (use n p in \<open>simp add: loadPageTree_get [OF ok]\<close>)
  qed
  have closed: "i \<in> set (fold js_add new seen) \<or> p \<in> set new"
    if "node_in db b i = Some n" "node_parent n = Some p" "p \<in> set (fold js_add new seen)" for i n p
    using that D(4) [OF that(1,2)] in_new [OF that(1,2)] by (auto simp: set_fold_add)
  have "set (out @ new) \<inter> set roots = {}" using D(1,3) by (auto simp: new)
  moreover have "set (fold js_add new seen) = set roots \<union> set (out @ new)" using D(1) by (auto simp: set_fold_add)
  moreover have "set new \<subseteq> set (fold js_add new seen)" by (simp add: set_fold_add)
  moreover have "below (whole_tree db b) roots i" if "i \<in> set (out @ new)" "node_in db b i \<noteq> None" for i
    using that D(5) below_new by auto
  ultimately show ?thesis unfolding subtree_inv_def using closed deep by blast
qed

lemma subtree_done:
  assumes ok: "pages_ok db" and proper: "proper_tree (whole_tree db b)"
    and inv: "subtree_inv db b roots levels frontier seen out"
    and none: "\<And>i. i \<in> set frontier \<Longrightarrow> node_in db b i = None"
    and n: "node_in db b i = Some n"
  shows "(i \<in> set out) = (below (whole_tree db b) roots i \<and> i \<notin> set roots)"
proof
  note D = subtree_invD [OF inv]
  show "below (whole_tree db b) roots i \<and> i \<notin> set roots" if "i \<in> set out"
    using that D(3,5) n by auto
  have closed: "k \<in> set seen" if k: "parent_of (whole_tree db b) k = Some p" "p \<in> set seen" for k p
  proof -
    obtain m where m: "node_in db b k = Some m" "node_parent m = Some p"
      using k(1) by (auto simp: parent_of_def loadPageTree_get [OF ok] split: option.splits)
    then show ?thesis using D(4) [OF m k(2)] none [of p] parent_known [OF ok proper m] by fastforce
  qed
  show "i \<in> set out" if i: "below (whole_tree db b) roots i \<and> i \<notin> set roots"
  proof -
    from i have "below (whole_tree db b) roots i" by blast
    then have "i \<in> set seen" by (induction rule: below.induct) (use closed D(1) in auto)
    then show ?thesis using i D(1) by blast
  qed
qed

lemma read_subtree_iff:
  assumes ok: "pages_ok db" and proper: "proper_tree (whole_tree db b)" and n: "node_in db b i = Some n"
  shows "subtree_inv db b roots levels frontier seen out
    \<Longrightarrow> (i \<in> set (read_subtree db b levels frontier seen out))
      = (below (whole_tree db b) roots i \<and> i \<notin> set roots)"
proof (induction levels arbitrary: frontier seen out)
  case 0
  have "node_in db b k = None" if "k \<in> set frontier" for k
  proof (rule ccontr)
    assume "node_in db b k \<noteq> None"
    then obtain m where "js_get (by_id (whole_tree db b)) k = Some m" by (auto simp: loadPageTree_get [OF ok])
    then obtain d where "climbs (whole_tree db b) k (d @ [k])" "length d < MAX_PAGE_DEPTH"
      by (rule proper_climbs [OF proper])
    then show False using subtree_invD(6) [OF 0 that] by fastforce
  qed
  then show ?case using subtree_done [OF ok proper 0 _ n] by simp
next
  case (Suc levels)
  show ?case
  proof (cases "frontier = []")
    case True
    then show ?thesis using subtree_done [OF ok proper Suc.prems _ n] by simp
  next
    case False
    then show ?thesis
      using Suc.IH [OF subtree_level [OF ok proper Suc.prems refl]] by (simp add: Let_def)
  qed
qed

lemma loadSubtreeIds_iff:
  assumes ok: "pages_ok db" and proper: "proper_tree (whole_tree db b)" and n: "node_in db b i = Some n"
  shows "(i \<in> set (loadSubtreeIds db b roots)) = (i \<in> set (descendantIdsOf (whole_tree db b) roots))"
proof -
  have "subtree_inv db b (js_unique roots) MAX_PAGE_DEPTH (js_unique roots) (js_unique roots) []"
    by (auto simp: subtree_inv_def dest: climbs_nonempty)
  then have "(i \<in> set (loadSubtreeIds db b roots))
      = (below (whole_tree db b) (js_unique roots) i \<and> i \<notin> set (js_unique roots))"
    unfolding loadSubtreeIds_def Let_def by (rule read_subtree_iff [OF ok proper n])
  also have "\<dots> = (i \<in> set (descendantIdsOf (whole_tree db b) (js_unique roots)))"
    by (rule descendants_iff [OF loadPageTree_ok [OF ok], symmetric])
  also have "\<dots> = (i \<in> set (descendantIdsOf (whole_tree db b) roots))"
  proof -
    have "below t (js_unique roots) k = below t roots k" for t k
    proof
      show "below t roots k" if "below t (js_unique roots) k"
        using that by (induction rule: below.induct) (auto intro: below.intros)
      show "below t (js_unique roots) k" if "below t roots k"
        using that by (induction rule: below.induct) (auto intro: below.intros)
    qed
    then show ?thesis by (simp add: descendants_iff [OF loadPageTree_ok [OF ok]])
  qed
  finally show ?thesis .
qed

lemma loadScopedTree_agrees:
  assumes ok: "pages_ok db" and proper: "proper_tree (whole_tree db b)"
    and read: "loadScopedTree db b roots = (t, sub)"
  shows "i \<in> set roots \<union> set sub \<Longrightarrow> js_get (by_id t) i = js_get (by_id (whole_tree db b)) i"
    and "i \<in> set roots \<union> set sub \<Longrightarrow> node_in db b i = Some n
      \<Longrightarrow> ancestorSlugsOf t i = ancestorSlugsOf (whole_tree db b) i"
    and "node_in db b i = Some n \<Longrightarrow> (i \<in> set sub) = (i \<in> set (descendantIdsOf (whole_tree db b) roots))"
proof -
  define ids where "ids = js_unique roots @ loadSubtreeIds db b (js_unique roots)"
  have t: "t = indexTree (cr_nodes (chain_nodes db b ids))" and sub: "sub = loadSubtreeIds db b (js_unique roots)"
    using read loadPageChains_parts(1) [of db b ids]
    by (auto simp: loadScopedTree_def Let_def ids_def split: prod.splits)
  have ids: "set ids = set roots \<union> set sub" by (simp add: ids_def sub)
  show "js_get (by_id t) i = js_get (by_id (whole_tree db b)) i" if "i \<in> set roots \<union> set sub"
    using chain_nodes_inv(2) [OF ok proper, of i ids] that ids by (simp add: t loadPageTree_get [OF ok])
  show "ancestorSlugsOf t i = ancestorSlugsOf (whole_tree db b) i"
    if "i \<in> set roots \<union> set sub" "node_in db b i = Some n"
    unfolding t using chains_agree(2) [OF ok proper _ refl that(2)] that(1) ids by blast
  have "loadSubtreeIds db b (js_unique roots) = loadSubtreeIds db b roots"
    by (simp add: loadSubtreeIds_def js_unique_def Let_def distinct_remdups_id)
  then show "(i \<in> set sub) = (i \<in> set (descendantIdsOf (whole_tree db b) roots))"
    if "node_in db b i = Some n"
    using loadSubtreeIds_iff [OF ok proper that] by (simp add: sub)
qed

end
