(* ===== verification/Compose_Paths.thy ===== *)
theory Compose_Paths
  imports Page_Tree_Reads Url_Composition
begin

text \<open>
  The path of each page of a tree
  (packages/admin-core/src/ops/content/compose-paths.ts): which page is the root of its URL
  space, the site's designated home and 404 pages as a branch sees them, and the composition
  from the ancestor chain, the plugins' annotations and the grammar.  A composition over a
  partial tree that agrees with the whole one gives the same paths.
\<close>

section \<open>Home and designations\<close>

definition isCompositionHome ::
  "string \<Rightarrow> string \<Rightarrow> bool \<Rightarrow> string option \<Rightarrow> annotations \<Rightarrow> bool" where
  "isCompositionHome pageId slug hasParent designated ann =
     (if hasParent then False
      else if js_get ann ''isLocaleRoot'' = Some (JBool True) then True
      else case designated of
             Some d \<Rightarrow> pageId = d
           | None \<Rightarrow> isHomeSlug slug)"

record site_defaults =
  sd_home :: "string option"
  sd_not_found :: "string option"
  sd_pending_home :: "string option"
  sd_pending_not_found :: "string option"

text \<open>The join of a pending designation: the page exists on this very branch (never on
  main, where the comparison with null holds for no row).\<close>

definition pending_page_on :: "page_db \<Rightarrow> string option \<Rightarrow> string option \<Rightarrow> string option" where
  "pending_page_on db chatBranchId pending =
     (case pending of
        None \<Rightarrow> None
      | Some p \<Rightarrow>
          if list_ex (\<lambda>r. pr_id r = p \<and> \<not> pr_deleted r \<and> chatBranchId \<noteq> None \<and> pr_branch r = chatBranchId)
               (db_pages db)
          then Some p else None)"

definition loadSiteDesignations ::
  "page_db \<Rightarrow> site_defaults \<Rightarrow> string option \<Rightarrow> string option \<times> string option" where
  "loadSiteDesignations db d chatBranchId =
     (case pending_page_on db chatBranchId (sd_pending_home d) of Some p \<Rightarrow> Some p | None \<Rightarrow> sd_home d,
      case pending_page_on db chatBranchId (sd_pending_not_found d) of Some p \<Rightarrow> Some p | None \<Rightarrow> sd_not_found d)"

section \<open>The root without annotations\<close>

definition HOME_SLUGS :: "string list" where
  "HOME_SLUGS = [[], ''home'', ''index'']"

record root_candidate =
  rc_slug :: string
  rc_parent :: "string option"
  rc_deleted :: bool

definition head_candidate :: "root_candidate option \<Rightarrow> pending_state \<Rightarrow> root_candidate" where
  "head_candidate live st =
     \<lparr>rc_slug = (case ps_slug st of Some s \<Rightarrow> s | None \<Rightarrow> (case live of Some c \<Rightarrow> rc_slug c | None \<Rightarrow> '''')),
      rc_parent = (case ps_parent st of Some p \<Rightarrow> p
                   | None \<Rightarrow> (case live of Some c \<Rightarrow> rc_parent c | None \<Rightarrow> None)),
      rc_deleted = ps_deleted st\<rparr>"

definition stored_roots :: "page_db \<Rightarrow> string option \<Rightarrow> (string \<times> root_candidate) list" where
  "stored_roots db chatBranchId =
     fold (\<lambda>r m. js_set (pr_id r) \<lparr>rc_slug = pr_slug r, rc_parent = pr_parent r, rc_deleted = False\<rparr> m)
       (filter (\<lambda>r. pr_path r = ''/'' \<and> visible_row chatBranchId r) (db_pages db)) []"

definition root_candidates :: "page_db \<Rightarrow> string option \<Rightarrow> (string \<times> root_candidate) list" where
  "root_candidates db chatBranchId =
     (let stored = stored_roots db chatBranchId
      in case chatBranchId of
           None \<Rightarrow> stored
         | Some b \<Rightarrow>
             let pendingTopLevel = remdups (map hd_page (filter (\<lambda>h. hd_branch h = b \<and> head_parent h = None
                   \<and> (case ps_slug (hd_state h) of Some s \<Rightarrow> s \<in> set HOME_SLUGS | None \<Rightarrow> False)) (db_heads db)));
                 ids = js_unique (map fst stored @ pendingTopLevel)
             in if ids = [] then stored
                else fold (\<lambda>h m. js_set (fst h) (head_candidate (js_get m (fst h)) (snd h)) m)
                       (headOverlay db b (Some ids)) stored)"

definition loadCompositionRootPageId :: "page_db \<Rightarrow> string option \<Rightarrow> string option \<Rightarrow> string option" where
  "loadCompositionRootPageId db chatBranchId designated =
     (case designated of
        Some d \<Rightarrow> Some d
      | None \<Rightarrow>
          (case sort (map fst (filter (\<lambda>(i, c). \<not> rc_deleted c
                  \<and> isCompositionHome i (rc_slug c) (rc_parent c \<noteq> None) None []) (root_candidates db chatBranchId))) of
             [] \<Rightarrow> None
           | i # _ \<Rightarrow> Some i))"

section \<open>Composing\<close>

text \<open>What composition needs of the running server: the registry of URL contributions, and
  the annotation operations of its plugins by branch, plugin, operation and page ids.\<close>

record url_env =
  ue_registry :: url_registry
  ue_ask :: "string option \<Rightarrow> string \<Rightarrow> string \<Rightarrow> string list \<Rightarrow> string + (string \<times> annotations) list option"

record composed_path =
  co_path :: string
  co_root :: bool

datatype compose_error = Annotation_failed annotation_error | Tree_broken tree_error | Url_refused url_error

definition composableIds :: "page_tree \<Rightarrow> string list \<Rightarrow> string list" where
  "composableIds t pageIds = filter (\<lambda>i. js_get (by_id t) i \<noteq> None) (js_unique pageIds)"

definition compose_one ::
  "url_env \<Rightarrow> page_tree \<Rightarrow> string option \<Rightarrow> annotations \<Rightarrow> string option \<Rightarrow> string
    \<Rightarrow> (compose_error, composed_path) result" where
  "compose_one env t designated ann without i =
     (let node = the (js_get (by_id t) i);
          isRoot = isCompositionHome i (node_slug node) (node_parent node \<noteq> None) designated ann
      in case ancestorSlugsOf t i of
           Inl e \<Rightarrow> Inl (Tree_broken e)
         | Inr slugs \<Rightarrow>
             (case resolvePageUrl (ue_registry env) without
                 \<lparr>cp_id = i, cp_slug = node_slug node, cp_ancestors = slugs, cp_home = isRoot, cp_ann = ann\<rparr> of
                Inl e \<Rightarrow> Inl (Url_refused e)
              | Inr url \<Rightarrow> Inr \<lparr>co_path = fst url, co_root = isRoot\<rparr>))"

fun composePathsFrom ::
  "url_env \<Rightarrow> page_tree \<Rightarrow> string list \<Rightarrow> string option \<Rightarrow> (string \<times> annotations) list \<Rightarrow> string option
    \<Rightarrow> (compose_error, (string \<times> composed_path) list) result" where
  "composePathsFrom env t [] designated anns without = Inr []"
| "composePathsFrom env t (i # is) designated anns without =
     then_result (compose_one env t designated (case js_get anns i of None \<Rightarrow> [] | Some a \<Rightarrow> a) without i) (\<lambda>c.
       then_result (composePathsFrom env t is designated anns without) (\<lambda>m. Inr ((i, c) # m)))"

definition compose_ids ::
  "url_env \<Rightarrow> string option \<Rightarrow> string option \<Rightarrow> page_tree \<Rightarrow> string list \<Rightarrow> string option
    \<Rightarrow> (compose_error, (string \<times> composed_path) list) result" where
  "compose_ids env designated branch t ids without =
     (if ids = [] then Inr []
      else case collectUrlAnnotations (ue_ask env branch) (ue_registry env) without ids of
             Inl e \<Rightarrow> Inl (Annotation_failed e)
           | Inr anns \<Rightarrow> composePathsFrom env t ids designated anns without)"

definition composePathsDetailed ::
  "url_env \<Rightarrow> site_defaults \<Rightarrow> page_db \<Rightarrow> page_tree \<Rightarrow> string list \<Rightarrow> string option \<Rightarrow> string option
    \<Rightarrow> (compose_error, (string \<times> composed_path) list) result" where
  "composePathsDetailed env d db t pageIds branch without =
     compose_ids env (fst (loadSiteDesignations db d branch)) branch t (composableIds t pageIds) without"

definition composePaths ::
  "url_env \<Rightarrow> site_defaults \<Rightarrow> page_db \<Rightarrow> page_tree \<Rightarrow> string list \<Rightarrow> string option \<Rightarrow> string option
    \<Rightarrow> (compose_error, (string \<times> string) list) result" where
  "composePaths env d db t pageIds branch without =
     then_result (composePathsDetailed env d db t pageIds branch without)
       (\<lambda>m. Inr (map (\<lambda>e. (fst e, co_path (snd e))) m))"

definition composePathsOutsideTransaction ::
  "url_env \<Rightarrow> page_tree \<Rightarrow> string list \<Rightarrow> string option \<Rightarrow> string option
    \<Rightarrow> (compose_error, (string \<times> string) list) result" where
  "composePathsOutsideTransaction env t pageIds designated branch =
     then_result (compose_ids env designated branch t (composableIds t pageIds) None)
       (\<lambda>m. Inr (map (\<lambda>e. (fst e, co_path (snd e))) m))"

end
