(* ===== verification/Redirect_Store.thy ===== *)
theory Redirect_Store
  imports Redirect_Plan
begin

text \<open>
  The redirect store (packages/admin-core/src/ops/redirects.ts): the rows of the redirects
  table, which is unique by from_path and forbids a row that points at itself, and the
  operations that create, list, look up and delete them, one at a time or many in one call.
  The ILIKE comparison of PostgreSQL and the entity lock's verdict are arguments.
\<close>

section \<open>The table\<close>

record stored_redirect =
  rd_id :: nat
  rd_from :: string
  rd_to :: string
  rd_status :: int
  rd_by :: string
  rd_created :: nat

text \<open>rs_static lists the live static files, rs_syncs counts the requests to push the table
  to the provider.\<close>

record redirect_store =
  rs_rows :: "stored_redirect list"
  rs_static :: "string list"
  rs_next :: nat
  rs_now :: nat
  rs_syncs :: nat

datatype redirect_error =
    Bad_target target_issue
  | Same_path
  | Static_file_there "string list"
  | Self_loop_row string
  | Write_blocked nat
  | Too_many_matches nat

definition requestRedirectSync :: "redirect_store \<Rightarrow> redirect_store" where
  "requestRedirectSync s = s\<lparr>rs_syncs := rs_syncs s + 1\<rparr>"

definition static_bare :: "string \<Rightarrow> string" where
  "static_bare p = (if 1 < length p \<and> ends_with p ''/'' then butlast p else p)"

definition staticFileRedirectRefusal :: "redirect_store \<Rightarrow> string list \<Rightarrow> string list option" where
  "staticFileRedirectRefusal s fromPaths =
     (let rows = filter (\<lambda>f. f \<in> set (map static_bare fromPaths)) (rs_static s)
      in if rows = [] then None else Some rows)"

text \<open>The upsert of one row: the row's place and id are kept when from_path is taken.\<close>

definition upsert_redirect :: "string \<Rightarrow> string \<Rightarrow> string \<Rightarrow> int \<Rightarrow> redirect_store \<Rightarrow> redirect_store \<times> nat" where
  "upsert_redirect actor fp to code s =
     (case find (\<lambda>r. rd_from r = fp) (rs_rows s) of
        Some old \<Rightarrow>
          (s\<lparr>rs_rows := map (\<lambda>r. if rd_from r = fp
               then r\<lparr>rd_to := to, rd_status := code, rd_by := actor, rd_created := rs_now s\<rparr> else r) (rs_rows s)\<rparr>,
           rd_id old)
      | None \<Rightarrow>
          (s\<lparr>rs_rows := rs_rows s @ [\<lparr>rd_id = rs_next s, rd_from = fp, rd_to = to, rd_status = code,
                rd_by = actor, rd_created = rs_now s\<rparr>], rs_next := rs_next s + 1\<rparr>,
           rs_next s))"

definition createRedirect ::
  "url_parser \<Rightarrow> string \<Rightarrow> string \<Rightarrow> string \<Rightarrow> int \<Rightarrow> redirect_store
    \<Rightarrow> (redirect_error, redirect_store \<times> nat) result" where
  "createRedirect parse_url actor fp to code s =
     (case redirectTargetIssue parse_url to of
        Some i \<Rightarrow> Inl (Bad_target i)
      | None \<Rightarrow>
          require (fp \<noteq> to) Same_path
            (case staticFileRedirectRefusal s [fp] of
               Some files \<Rightarrow> Inl (Static_file_there files)
             | None \<Rightarrow>
                 (let (s', i) = upsert_redirect actor fp to code s
                  in Inr (requestRedirectSync s', i))))"

definition listRedirects ::
  "(string \<Rightarrow> string \<Rightarrow> bool) \<Rightarrow> redirect_store \<Rightarrow> string option \<Rightarrow> int option \<Rightarrow> nat \<Rightarrow> nat
    \<Rightarrow> stored_redirect list \<times> nat" where
  "listRedirects ilike s query codeFilter limit offset =
     (let hits = filter (\<lambda>r. (case query of None \<Rightarrow> True
                                | Some q \<Rightarrow> q = [] \<or> ilike q (rd_from r) \<or> ilike q (rd_to r))
                   \<and> (case codeFilter of None \<Rightarrow> True | Some c \<Rightarrow> rd_status r = c)) (rs_rows s)
      in (take limit (drop offset (sort_key (\<lambda>r. - int (rd_created r)) (sort_key rd_id hits))), length hits))"

definition lookupRedirect :: "redirect_store \<Rightarrow> string \<Rightarrow> stored_redirect option" where
  "lookupRedirect s fp = find (\<lambda>r. rd_from r = fp) (rs_rows s)"

definition deleteRedirect ::
  "(nat \<Rightarrow> bool) \<Rightarrow> nat \<Rightarrow> redirect_store \<Rightarrow> (redirect_error, redirect_store) result" where
  "deleteRedirect permitted i s =
     require (permitted i) (Write_blocked i)
       (Inr (requestRedirectSync (s\<lparr>rs_rows := filter (\<lambda>r. rd_id r \<noteq> i) (rs_rows s)\<rparr>)))"

section \<open>Many at once\<close>

record created_counts =
  cc_created :: nat
  cc_updated :: nat
  cc_skipped :: nat

text \<open>One row of the call: a row that points at itself or, without upsert, a taken from_path
  is skipped.\<close>

definition create_one_of_many ::
  "string \<Rightarrow> bool \<Rightarrow> string \<times> string \<times> int \<Rightarrow> redirect_store \<times> created_counts \<Rightarrow> redirect_store \<times> created_counts" where
  "create_one_of_many actor upsert r sc =
     (let (fp, to, code) = r; (s, c) = sc
      in if fp = to then (s, c\<lparr>cc_skipped := cc_skipped c + 1\<rparr>)
         else case lookupRedirect s fp of
                Some old \<Rightarrow>
                  if \<not> upsert then (s, c\<lparr>cc_skipped := cc_skipped c + 1\<rparr>)
                  else (s\<lparr>rs_rows := map (\<lambda>q. if rd_id q = rd_id old then q\<lparr>rd_to := to, rd_status := code\<rparr> else q)
                            (rs_rows s)\<rparr>, c\<lparr>cc_updated := cc_updated c + 1\<rparr>)
              | None \<Rightarrow> (fst (upsert_redirect actor fp to code s), c\<lparr>cc_created := cc_created c + 1\<rparr>))"

definition createRedirectsMany ::
  "string \<Rightarrow> bool \<Rightarrow> (string \<times> string \<times> int) list \<Rightarrow> redirect_store
    \<Rightarrow> (redirect_error, redirect_store \<times> created_counts) result" where
  "createRedirectsMany actor upsert rows s =
     (case staticFileRedirectRefusal s (map fst rows) of
        Some files \<Rightarrow> Inl (Static_file_there files)
      | None \<Rightarrow>
          (let (s', c) = fold (create_one_of_many actor upsert) rows (s, \<lparr>cc_created = 0, cc_updated = 0, cc_skipped = 0\<rparr>)
           in Inr (if 0 < cc_created c + cc_updated c then requestRedirectSync s' else s', c)))"

definition AI_MATCHES_DELETE_LIMIT :: nat where
  "AI_MATCHES_DELETE_LIMIT = 10"

text \<open>The input names its rows in exactly one of three ways.\<close>

datatype delete_request = By_ids "nat list" | By_paths "string list" | By_match string

definition delete_rows :: "(stored_redirect \<Rightarrow> bool) \<Rightarrow> redirect_store \<Rightarrow> redirect_store \<times> nat" where
  "delete_rows P s =
     (s\<lparr>rs_rows := filter (\<lambda>r. \<not> P r) (rs_rows s)\<rparr>, length (filter P (rs_rows s)))"

definition delete_each :: "('a \<Rightarrow> stored_redirect \<Rightarrow> bool) \<Rightarrow> 'a list \<Rightarrow> redirect_store \<Rightarrow> redirect_store \<times> nat" where
  "delete_each P keys s =
     fold (\<lambda>k (s, n). let (s', m) = delete_rows (P k) s in (s', n + m)) keys (s, 0)"

definition counted_sync :: "redirect_store \<times> nat \<Rightarrow> redirect_store \<times> nat" where
  "counted_sync sn = (if 0 < snd sn then (requestRedirectSync (fst sn), snd sn) else sn)"

definition deleteRedirectsMany ::
  "(string \<Rightarrow> string \<Rightarrow> bool) \<Rightarrow> (nat \<Rightarrow> bool) \<Rightarrow> bool \<Rightarrow> delete_request \<Rightarrow> redirect_store
    \<Rightarrow> (redirect_error, redirect_store \<times> nat) result" where
  "deleteRedirectsMany ilike permitted isAi req s =
     (case req of
        By_ids ids \<Rightarrow>
          (case find (\<lambda>i. \<not> permitted i) ids of
             Some i \<Rightarrow> Inl (Write_blocked i)
           | None \<Rightarrow> Inr (counted_sync (delete_each (\<lambda>i r. rd_id r = i) ids s)))
      | By_paths paths \<Rightarrow> Inr (counted_sync (delete_each (\<lambda>p r. rd_from r = p) paths s))
      | By_match m \<Rightarrow>
          (let wouldDelete = length (filter (\<lambda>r. ilike m (rd_from r)) (rs_rows s))
           in require (\<not> isAi \<or> wouldDelete < AI_MATCHES_DELETE_LIMIT) (Too_many_matches wouldDelete)
                (Inr (counted_sync (delete_rows (\<lambda>r. ilike m (rd_from r)) s)))))"

section \<open>The table's constraints\<close>

text \<open>from_path is unique and no row points at itself; ids are unique and below the next.\<close>

definition store_ok :: "redirect_store \<Rightarrow> bool" where
  "store_ok s \<longleftrightarrow> distinct (map rd_from (rs_rows s)) \<and> distinct (map rd_id (rs_rows s))
     \<and> list_all (\<lambda>r. rd_from r \<noteq> rd_to r \<and> rd_id r < rs_next s) (rs_rows s)"

lemma requestRedirectSync_parts [simp]:
  "rs_rows (requestRedirectSync s) = rs_rows s" "rs_next (requestRedirectSync s) = rs_next s"
  "rs_static (requestRedirectSync s) = rs_static s" "rs_now (requestRedirectSync s) = rs_now s"
  by (simp_all add: requestRedirectSync_def)

lemma store_ok_sync [simp]: "store_ok (requestRedirectSync s) = store_ok s"
  by (simp add: store_ok_def)

text \<open>Changing the target of some rows keeps the constraints, when none comes to point at
  itself.\<close>

lemma change_rows_ok:
  assumes "store_ok s" "\<And>r. rd_from (g r) = rd_from r" "\<And>r. rd_id (g r) = rd_id r"
    and "\<And>r. r \<in> set (rs_rows s) \<Longrightarrow> P r \<Longrightarrow> rd_to (g r) \<noteq> rd_from r"
  shows "store_ok (s\<lparr>rs_rows := map (\<lambda>r. if P r then g r else r) (rs_rows s)\<rparr>)"
proof -
  have "rd_from \<circ> (\<lambda>r. if P r then g r else r) = rd_from" "rd_id \<circ> (\<lambda>r. if P r then g r else r) = rd_id"
    using assms(2,3) by (simp_all add: fun_eq_iff)
  moreover have "list_all (\<lambda>r. rd_from r \<noteq> rd_to r \<and> rd_id r < rs_next s)
      (map (\<lambda>r. if P r then g r else r) (rs_rows s))"
    using assms by (fastforce simp: store_ok_def list_all_iff)
  ultimately show ?thesis using assms(1) unfolding store_ok_def by simp
qed

lemma upsert_ok:
  assumes "store_ok s" "fp \<noteq> to"
  shows "store_ok (fst (upsert_redirect actor fp to code s))"
proof (cases "find (\<lambda>r. rd_from r = fp) (rs_rows s)")
  case None
  then have "fp \<notin> rd_from ` set (rs_rows s)" by (auto simp: find_None_iff)
  moreover have "rs_next s \<notin> rd_id ` set (rs_rows s)" using assms(1) by (auto simp: store_ok_def list_all_iff)
  ultimately show ?thesis
    using assms None by (auto simp: upsert_redirect_def store_ok_def list_all_iff)
next
  case (Some old)
  have "store_ok (s\<lparr>rs_rows := map (\<lambda>r. if rd_from r = fp
      then r\<lparr>rd_to := to, rd_status := code, rd_by := actor, rd_created := rs_now s\<rparr> else r) (rs_rows s)\<rparr>)"
    by (rule change_rows_ok [OF assms(1)]) (use assms(2) in auto)
  then show ?thesis using Some by (simp add: upsert_redirect_def)
qed

lemma upsert_lookup:
  "lookupRedirect (fst (upsert_redirect actor fp to code s)) p =
     (if p = fp
      then (case lookupRedirect s fp of
              Some old \<Rightarrow> Some (old\<lparr>rd_to := to, rd_status := code, rd_by := actor, rd_created := rs_now s\<rparr>)
            | None \<Rightarrow> Some \<lparr>rd_id = rs_next s, rd_from = fp, rd_to = to, rd_status = code,
                rd_by = actor, rd_created = rs_now s\<rparr>)
      else lookupRedirect s p)"
proof -
  have keep: "find (\<lambda>r. rd_from r = p) (map (\<lambda>r. if rd_from r = fp then g r else r) rows)
      = (if p = fp then map_option g (find (\<lambda>r. rd_from r = p) rows) else find (\<lambda>r. rd_from r = p) rows)"
    if "\<And>r. rd_from (g r) = rd_from r" for g :: "stored_redirect \<Rightarrow> stored_redirect" and rows
    using that by (induction rows) auto
  have app: "find P (xs @ ys) = (case find P xs of None \<Rightarrow> find P ys | Some x \<Rightarrow> Some x)"
    for P :: "stored_redirect \<Rightarrow> bool" and xs ys by (induction xs) auto
  show ?thesis
    by (cases "find (\<lambda>r. rd_from r = fp) (rs_rows s)")
      (auto simp: upsert_redirect_def lookupRedirect_def keep app split: option.splits)
qed

lemma filter_store_ok: "store_ok s \<Longrightarrow> store_ok (s\<lparr>rs_rows := filter P (rs_rows s)\<rparr>)"
  by (auto simp: store_ok_def list_all_iff distinct_map_filter)

lemma delete_each_ok: "store_ok s \<Longrightarrow> store_ok (fst (delete_each P keys s))"
proof -
  have "store_ok (fst sn) \<Longrightarrow> store_ok (fst (fold (\<lambda>k (s, n). let (s', m) = delete_rows (P k) s in (s', n + m)) keys sn))"
    for sn
    by (induction keys arbitrary: sn) (auto simp: delete_rows_def filter_store_ok)
  then show "store_ok s \<Longrightarrow> store_ok (fst (delete_each P keys s))" by (simp add: delete_each_def)
qed

lemma counted_sync_ok: "store_ok (fst sn) \<Longrightarrow> store_ok (fst (counted_sync sn))"
  by (simp add: counted_sync_def)

lemma create_one_ok:
  "store_ok (fst sc) \<Longrightarrow> store_ok (fst (create_one_of_many actor upsert r sc))"
proof -
  assume ok: "store_ok (fst sc)"
  obtain fp to code where r: "r = (fp, to, code)" by (cases r)
  obtain s c where sc: "sc = (s, c)" by (cases sc)
  show ?thesis
  proof (cases "lookupRedirect s fp")
    case None
    then show ?thesis using ok r sc upsert_ok [of s fp to actor code]
      by (auto simp: create_one_of_many_def)
  next
    case (Some old)
    then have old: "old \<in> set (rs_rows s)" "rd_from old = fp"
      by (auto simp: lookupRedirect_def find_Some_iff)
    have same: "q = old" if "q \<in> set (rs_rows s)" "rd_id q = rd_id old" for q
      using ok old that by (auto simp: sc store_ok_def distinct_map inj_on_def)
    have "store_ok (s\<lparr>rs_rows := map (\<lambda>q. if rd_id q = rd_id old then q\<lparr>rd_to := to, rd_status := code\<rparr> else q)
        (rs_rows s)\<rparr>)" if "fp \<noteq> to"
    proof (rule change_rows_ok)
      show "store_ok s" using ok sc by simp
      show "rd_to (q\<lparr>rd_to := to, rd_status := code\<rparr>) \<noteq> rd_from q"
        if "q \<in> set (rs_rows s)" "rd_id q = rd_id old" for q
        using same [OF that] old(2) \<open>fp \<noteq> to\<close> by simp
    qed simp_all
    then show ?thesis using ok r sc Some by (auto simp: create_one_of_many_def)
  qed
qed


lemma store_operations_ok:
  assumes "store_ok s"
  shows "createRedirect parse_url actor fp to code s = Inr (s', i) \<Longrightarrow> store_ok s'"
    and "deleteRedirect permitted i s = Inr s' \<Longrightarrow> store_ok s'"
    and "createRedirectsMany actor upsert rows s = Inr (s', c) \<Longrightarrow> store_ok s'"
    and "deleteRedirectsMany ilike permitted isAi req s = Inr (s', n) \<Longrightarrow> store_ok s'"
proof -
  show "store_ok s'" if "createRedirect parse_url actor fp to code s = Inr (s', i)"
    using that upsert_ok [OF assms, of fp to actor code]
    by (auto simp: createRedirect_def result_simps split: option.splits prod.splits)
  show "store_ok s'" if "deleteRedirect permitted i s = Inr s'"
    using that filter_store_ok [OF assms] by (auto simp: deleteRedirect_def result_simps)
  have many: "store_ok (fst (fold (create_one_of_many actor upsert) rows sc))" if "store_ok (fst sc)" for sc
    using that by (induction rows arbitrary: sc) (auto simp: create_one_ok)
  show "store_ok s'" if "createRedirectsMany actor upsert rows s = Inr (s', c)"
    using that many [of "(s, \<lparr>cc_created = 0, cc_updated = 0, cc_skipped = 0\<rparr>)"] assms
    by (auto simp: createRedirectsMany_def split: option.splits prod.splits if_splits)
  have del: "store_ok (fst (delete_rows P s))" for P
    using filter_store_ok [OF assms] by (simp add: delete_rows_def)
  show "store_ok s'" if "deleteRedirectsMany ilike permitted isAi req s = Inr (s', n)"
  proof (cases req)
    case (By_ids ids)
    then have "counted_sync (delete_each (\<lambda>i r. rd_id r = i) ids s) = (s', n)"
      using that by (auto simp: deleteRedirectsMany_def split: option.splits)
    then show ?thesis using counted_sync_ok [OF delete_each_ok [OF assms]] by (metis fst_conv)
  next
    case (By_paths paths)
    then have "counted_sync (delete_each (\<lambda>p r. rd_from r = p) paths s) = (s', n)"
      using that by (auto simp: deleteRedirectsMany_def)
    then show ?thesis using counted_sync_ok [OF delete_each_ok [OF assms]] by (metis fst_conv)
  next
    case (By_match m)
    then have "counted_sync (delete_rows (\<lambda>r. ilike m (rd_from r)) s) = (s', n)"
      using that by (auto simp: deleteRedirectsMany_def result_simps Let_def)
    then show ?thesis using counted_sync_ok [OF del] by (metis fst_conv)
  qed
qed

lemma ai_match_is_bounded:
  assumes "deleteRedirectsMany ilike permitted True (By_match m) s = Inr (s', n)"
  shows "n < AI_MATCHES_DELETE_LIMIT \<and> length (rs_rows s) = length (rs_rows s') + n"
proof -
  have "n = length (filter (\<lambda>r. ilike m (rd_from r)) (rs_rows s))"
      "rs_rows s' = filter (\<lambda>r. \<not> ilike m (rd_from r)) (rs_rows s)" "n < AI_MATCHES_DELETE_LIMIT"
    using assms by (auto simp: deleteRedirectsMany_def result_simps Let_def counted_sync_def delete_rows_def
        split: if_splits)
  then show ?thesis using sum_length_filter_compl [of "\<lambda>r. ilike m (rd_from r)" "rs_rows s"] by simp
qed

end
