(* ===== verification/Path_Effects.thy ===== *)
theory Path_Effects
  imports Redirect_Store
begin

text \<open>
  The side effects of a page URL move
  (packages/admin-core/src/ops/content/path-moves.ts): redirects that start at a new path are
  dropped, redirects that pointed at an old path point at the new one, and the old path of
  every moved page gets its 301.  All on the caller's transaction: an error aborts the move.
\<close>

record path_move =
  mv_page :: string
  mv_from :: string
  mv_to :: string

datatype redirect_choice = Auto_redirects | Skip_redirects | Skip_pages "string \<Rightarrow> bool"

fun skips_redirect :: "redirect_choice \<Rightarrow> string \<Rightarrow> bool" where
  "skips_redirect Auto_redirects pageId = False"
| "skips_redirect Skip_redirects pageId = True"
| "skips_redirect (Skip_pages skip) pageId = skip pageId"

datatype effect_error = Move_aborted string string redirect_error | Constraint_no_self_loop string

text \<open>One statement against the original targets: the first matching pair of the VALUES
  list decides, and the table's constraint refuses a row that would point at itself.\<close>

definition collapse_row :: "path_move list \<Rightarrow> stored_redirect \<Rightarrow> stored_redirect" where
  "collapse_row moves r =
     (case find (\<lambda>m. mv_from m = rd_to r) moves of Some m \<Rightarrow> r\<lparr>rd_to := mv_to m\<rparr> | None \<Rightarrow> r)"

definition collapses :: "path_move list \<Rightarrow> stored_redirect \<Rightarrow> bool" where
  "collapses moves r = list_ex (\<lambda>m. mv_from m = rd_to r) moves"

definition collapseRedirectChains ::
  "path_move list \<Rightarrow> redirect_store \<Rightarrow> (effect_error, redirect_store \<times> nat) result" where
  "collapseRedirectChains moves s =
     (case find (\<lambda>r. collapses moves r \<and> rd_to (collapse_row moves r) = rd_from r) (rs_rows s) of
        Some r \<Rightarrow> Inl (Constraint_no_self_loop (rd_from r))
      | None \<Rightarrow> Inr (s\<lparr>rs_rows := map (collapse_row moves) (rs_rows s)\<rparr>,
                      length (filter (collapses moves) (rs_rows s))))"

fun create_old_urls ::
  "url_parser \<Rightarrow> string \<Rightarrow> string list \<Rightarrow> redirect_choice \<Rightarrow> path_move list \<Rightarrow> redirect_store \<Rightarrow> nat
    \<Rightarrow> (effect_error, redirect_store \<times> nat) result" where
  "create_old_urls parse_url actor newPaths choice [] s n = Inr (s, n)"
| "create_old_urls parse_url actor newPaths choice (m # ms) s n =
     (if skips_redirect choice (mv_page m) \<or> mv_from m \<in> set newPaths
      then create_old_urls parse_url actor newPaths choice ms s n
      else case createRedirect parse_url actor (mv_from m) (mv_to m) 301 s of
             Inl e \<Rightarrow> Inl (Move_aborted (mv_from m) (mv_to m) e)
           | Inr (s', _) \<Rightarrow> create_old_urls parse_url actor newPaths choice ms s' (n + 1))"

definition applyPathMoveEffects ::
  "url_parser \<Rightarrow> string \<Rightarrow> path_move list \<Rightarrow> redirect_choice \<Rightarrow> redirect_store
    \<Rightarrow> (effect_error, redirect_store \<times> nat) result" where
  "applyPathMoveEffects parse_url actor moves choice s =
     (let real = filter (\<lambda>m. mv_from m \<noteq> mv_to m) moves
      in if real = [] then Inr (s, 0)
         else
           (let (s1, removed) = delete_each (\<lambda>m r. rd_from r \<in> set (redirectFromPathSpellings (mv_to m))) real s
            in then_result (collapseRedirectChains real s1) (\<lambda>(s2, collapsed).
                 then_result (create_old_urls parse_url actor (map mv_to real) choice real s2 0) (\<lambda>(s3, created).
                   Inr (if 0 < removed + collapsed then requestRedirectSync s3 else s3, created)))))"

section \<open>The three steps\<close>

lemma delete_each_rows:
  "rs_rows (fst (delete_each P keys s)) = filter (\<lambda>r. \<forall>k \<in> set keys. \<not> P k r) (rs_rows s)
   \<and> rs_static (fst (delete_each P keys s)) = rs_static s"
proof -
  have "rs_rows (fst (fold (\<lambda>k (s, n). let (s', m) = delete_rows (P k) s in (s', n + m)) keys sn))
        = filter (\<lambda>r. \<forall>k \<in> set keys. \<not> P k r) (rs_rows (fst sn))
      \<and> rs_static (fst (fold (\<lambda>k (s, n). let (s', m) = delete_rows (P k) s in (s', n + m)) keys sn))
        = rs_static (fst sn)" for sn :: "redirect_store \<times> nat"
    by (induction keys arbitrary: sn) (auto simp: delete_rows_def conj_commute cong: filter_cong)
  then show ?thesis by (simp add: delete_each_def)
qed

lemma collapse_row_parts [simp]:
  "rd_from (collapse_row moves r) = rd_from r" "rd_id (collapse_row moves r) = rd_id r"
  by (simp_all add: collapse_row_def split: option.splits)

lemma collapse_row_to:
  "rd_to (collapse_row moves r) =
     (case find (\<lambda>m. mv_from m = rd_to r) moves of Some m \<Rightarrow> mv_to m | None \<Rightarrow> rd_to r)"
  by (simp add: collapse_row_def split: option.splits)

lemma collapse_row_if: "collapse_row moves r = (if collapses moves r then collapse_row moves r else r)"
proof -
  have "\<not> collapses moves r \<Longrightarrow> find (\<lambda>m. mv_from m = rd_to r) moves = None"
    by (auto simp: collapses_def list_ex_iff find_None_iff)
  then show ?thesis by (simp add: collapse_row_def)
qed

lemma collapse_succeeds:
  assumes ok: "store_ok s"
    and free: "\<And>r m. r \<in> set (rs_rows s) \<Longrightarrow> m \<in> set moves \<Longrightarrow> rd_from r \<noteq> mv_to m"
  shows "collapseRedirectChains moves s
     = Inr (s\<lparr>rs_rows := map (collapse_row moves) (rs_rows s)\<rparr>, length (filter (collapses moves) (rs_rows s)))"
    and "store_ok (s\<lparr>rs_rows := map (collapse_row moves) (rs_rows s)\<rparr>)"
proof -
  have no_loop: "rd_to (collapse_row moves r) \<noteq> rd_from r"
    if r: "r \<in> set (rs_rows s)" "collapses moves r" for r
  proof -
    obtain m where "find (\<lambda>m. mv_from m = rd_to r) moves = Some m"
      using r(2) by (cases "find (\<lambda>m. mv_from m = rd_to r) moves") (auto simp: collapses_def list_ex_iff find_None_iff)
    moreover from this have "m \<in> set moves" by (auto simp: find_Some_iff)
    moreover from this have "rd_from r \<noteq> mv_to m" using free [OF r(1), of m] by simp
    ultimately show ?thesis by (simp add: collapse_row_to)
  qed
  have "find (\<lambda>r. collapses moves r \<and> rd_to (collapse_row moves r) = rd_from r) (rs_rows s) = None"
    using no_loop by (auto simp: find_None_iff)
  then show "collapseRedirectChains moves s
     = Inr (s\<lparr>rs_rows := map (collapse_row moves) (rs_rows s)\<rparr>, length (filter (collapses moves) (rs_rows s)))"
    by (simp add: collapseRedirectChains_def)
  have "store_ok (s\<lparr>rs_rows := map (\<lambda>r. if collapses moves r then collapse_row moves r else r) (rs_rows s)\<rparr>)"
    by (rule change_rows_ok [OF ok]) (use no_loop in simp_all)
  then show "store_ok (s\<lparr>rs_rows := map (collapse_row moves) (rs_rows s)\<rparr>)"
    unfolding collapse_row_if [symmetric] .
qed

definition creates :: "string list \<Rightarrow> redirect_choice \<Rightarrow> path_move \<Rightarrow> bool" where
  "creates newPaths choice m = (\<not> skips_redirect choice (mv_page m) \<and> mv_from m \<notin> set newPaths)"

lemma createRedirect_ok:
  assumes "redirectTargetIssue parse_url to = None" "fp \<noteq> to" "static_bare fp \<notin> set (rs_static s)"
  shows "\<exists>s' i. createRedirect parse_url actor fp to code s = Inr (s', i)
    \<and> rs_static s' = rs_static s
    \<and> (store_ok s \<longrightarrow> store_ok s')
    \<and> (\<forall>p. lookupRedirect s' p = lookupRedirect (fst (upsert_redirect actor fp to code s)) p)"
proof -
  obtain s1 i where u: "upsert_redirect actor fp to code s = (s1, i)" by (cases "upsert_redirect actor fp to code s")
  have "staticFileRedirectRefusal s [fp] = None"
    using assms(3) by (auto simp: staticFileRedirectRefusal_def filter_empty_conv)
  then have "createRedirect parse_url actor fp to code s = Inr (requestRedirectSync s1, i)"
    using assms by (simp add: createRedirect_def u)
  moreover have "rs_static s1 = rs_static s"
    using u by (auto simp: upsert_redirect_def split: option.splits)
  moreover have "store_ok s \<Longrightarrow> store_ok s1" using upsert_ok [of s fp to actor code] assms(2) u by simp
  ultimately show ?thesis by (auto simp: u lookupRedirect_def)
qed

lemma create_old_urls_ok:
  assumes "\<And>m. m \<in> set ms \<Longrightarrow> redirectTargetIssue parse_url (mv_to m) = None \<and> mv_from m \<noteq> mv_to m"
    and "\<And>m. m \<in> set ms \<Longrightarrow> creates newPaths choice m \<Longrightarrow> static_bare (mv_from m) \<notin> set (rs_static s)"
    and "distinct (map mv_from ms)" "store_ok s"
  shows "\<exists>s'. create_old_urls parse_url actor newPaths choice ms s n
       = Inr (s', n + length (filter (creates newPaths choice) ms))
     \<and> store_ok s' \<and> rs_static s' = rs_static s
     \<and> (\<forall>p. p \<notin> mv_from ` {m \<in> set ms. creates newPaths choice m} \<longrightarrow> lookupRedirect s' p = lookupRedirect s p)
     \<and> (\<forall>m \<in> set ms. creates newPaths choice m \<longrightarrow>
          (\<exists>r. lookupRedirect s' (mv_from m) = Some r \<and> rd_to r = mv_to m \<and> rd_status r = 301))"
  using assms
proof (induction ms arbitrary: s n)
  case (Cons m ms)
  show ?case
  proof (cases "creates newPaths choice m")
    case False
    then have "create_old_urls parse_url actor newPaths choice (m # ms) s n
        = create_old_urls parse_url actor newPaths choice ms s n" by (auto simp: creates_def)
    moreover have same: "{k \<in> set (m # ms). creates newPaths choice k} = {k \<in> set ms. creates newPaths choice k}"
      "filter (creates newPaths choice) (m # ms) = filter (creates newPaths choice) ms"
      using False by auto
    moreover have "\<exists>s'. create_old_urls parse_url actor newPaths choice ms s n
         = Inr (s', n + length (filter (creates newPaths choice) ms))
       \<and> store_ok s' \<and> rs_static s' = rs_static s
       \<and> (\<forall>p. p \<notin> mv_from ` {m \<in> set ms. creates newPaths choice m} \<longrightarrow> lookupRedirect s' p = lookupRedirect s p)
       \<and> (\<forall>m \<in> set ms. creates newPaths choice m \<longrightarrow>
            (\<exists>r. lookupRedirect s' (mv_from m) = Some r \<and> rd_to r = mv_to m \<and> rd_status r = 301))"
      by (rule Cons.IH) (use Cons.prems in auto)
    ultimately show ?thesis unfolding same using False by (simp only:) auto
  next
    case True
    obtain s1 i where c: "createRedirect parse_url actor (mv_from m) (mv_to m) 301 s = Inr (s1, i)"
        "rs_static s1 = rs_static s" "store_ok s1"
        "\<And>p. lookupRedirect s1 p = lookupRedirect (fst (upsert_redirect actor (mv_from m) (mv_to m) 301 s)) p"
      using createRedirect_ok [of parse_url "mv_to m" "mv_from m" s actor 301] Cons.prems True by auto
    have step: "create_old_urls parse_url actor newPaths choice (m # ms) s n
        = create_old_urls parse_url actor newPaths choice ms s1 (n + 1)"
      using True c(1) by (simp add: creates_def)
    obtain s' where s': "create_old_urls parse_url actor newPaths choice ms s1 (n + 1)
         = Inr (s', n + 1 + length (filter (creates newPaths choice) ms))"
       "store_ok s'" "rs_static s' = rs_static s1"
       "\<And>p. p \<notin> mv_from ` {m \<in> set ms. creates newPaths choice m} \<Longrightarrow> lookupRedirect s' p = lookupRedirect s1 p"
       "\<And>m. m \<in> set ms \<Longrightarrow> creates newPaths choice m \<Longrightarrow>
          \<exists>r. lookupRedirect s' (mv_from m) = Some r \<and> rd_to r = mv_to m \<and> rd_status r = 301"
      using Cons.IH [of s1 "n + 1"] Cons.prems c(2,3) by auto
    have here: "\<exists>r. lookupRedirect s' (mv_from m) = Some r \<and> rd_to r = mv_to m \<and> rd_status r = 301"
    proof -
      have "mv_from m \<notin> mv_from ` {m \<in> set ms. creates newPaths choice m}" using Cons.prems(3) by auto
      then show ?thesis using s'(4) c(4) by (auto simp: upsert_lookup split: option.splits)
    qed
    have other: "lookupRedirect s' p = lookupRedirect s p"
      if "p \<notin> mv_from ` {k \<in> set (m # ms). creates newPaths choice k}" for p
    proof -
      have "p \<noteq> mv_from m" "p \<notin> mv_from ` {m \<in> set ms. creates newPaths choice m}" using that True by auto
      then show ?thesis using s'(4) [of p] c(4) [of p] by (simp add: upsert_lookup)
    qed
    show ?thesis unfolding step using s'(1,2,3,5) c(2) here other True by auto
  qed
qed simp


section \<open>The effects of a move set\<close>

lemma lookup_row:
  assumes "store_ok s" "r \<in> set (rs_rows s)"
  shows "lookupRedirect s (rd_from r) = Some r"
proof -
  have "find (\<lambda>q. rd_from q = rd_from r) rows = Some r" if "r \<in> set rows" "distinct (map rd_from rows)" for rows
    using that by (induction rows) (auto simp: rev_image_eqI)
  then show ?thesis using assms by (simp add: lookupRedirect_def store_ok_def)
qed

lemma lookup_in: "lookupRedirect s p = Some r \<Longrightarrow> r \<in> set (rs_rows s) \<and> rd_from r = p"
  by (auto simp: lookupRedirect_def find_Some_iff)

lemma bare_spellings:
  assumes "stripTrailingSlash q = q" "stripTrailingSlash p = p" "p \<noteq> q" "q \<noteq> []"
  shows "p \<notin> set (redirectFromPathSpellings q)"
proof
  assume "p \<in> set (redirectFromPathSpellings q)"
  then have "q \<noteq> ''/''" "p = q @ ''/''"
    using assms by (auto simp: redirectFromPathSpellings_def Let_def split: if_splits)
  moreover have "stripTrailingSlash (q @ ''/'') \<noteq> q @ ''/''" if "q \<noteq> ''/''"
  proof -
    have slash_str: "''/'' = [slash]" by (simp add: slash_def)
    have "length (trim_end q) \<le> length q" using length_dropWhile_le [of _ "rev q"] by (simp add: trim_end_def)
    then have "length (trim_end q) < length (q @ [slash])" by simp
    then have "trim_end q \<noteq> q @ [slash]" by force
    moreover have "[slash] \<noteq> q @ [slash]" "length (q @ [slash]) > 1" using assms(4) by (cases q; simp)+
    ultimately show ?thesis by (simp add: stripTrailingSlash_eq slash_str)
  qed
  ultimately show False using assms(2) by simp
qed

text \<open>The effects run in two steps: redirects at the new paths go and the others collapse,
  then the old URLs are created beside what is left.\<close>

lemma path_moves_applied:
  fixes real :: "path_move list"
  assumes ok: "store_ok s" and real: "real = filter (\<lambda>m. mv_from m \<noteq> mv_to m) moves"
    and old: "distinct (map mv_from real)"
    and bare: "\<And>m. m \<in> set real \<Longrightarrow> stripTrailingSlash (mv_to m) = mv_to m"
    and allowed: "\<And>m. m \<in> set real \<Longrightarrow> redirectTargetIssue parse_url (mv_to m) = None
      \<and> static_bare (mv_from m) \<notin> set (rs_static s)"
  obtains s' n s2 where "applyPathMoveEffects parse_url actor moves choice s = Inr (s', n)" "store_ok s'" "store_ok s2"
    "rs_rows s2 = map (collapse_row real)
       (filter (\<lambda>r. \<forall>m \<in> set real. rd_from r \<notin> set (redirectFromPathSpellings (mv_to m))) (rs_rows s))"
    "\<And>p. p \<notin> mv_from ` {m \<in> set real. creates (map mv_to real) choice m} \<Longrightarrow> lookupRedirect s' p = lookupRedirect s2 p"
    "\<And>m. m \<in> set real \<Longrightarrow> creates (map mv_to real) choice m \<Longrightarrow>
       \<exists>r. lookupRedirect s' (mv_from m) = Some r \<and> rd_to r = mv_to m \<and> rd_status r = 301"
proof (cases "real = []")
  case True
  have "map (collapse_row []) rs = rs" for rs
    by (intro map_idI) (simp add: collapse_row_def)
  then show thesis
    using that [of s 0 s] True ok by (auto simp: applyPathMoveEffects_def real [symmetric])
next
  case False
  define P where "P = (\<lambda>(m :: path_move) (r :: stored_redirect). rd_from r \<in> set (redirectFromPathSpellings (mv_to m)))"
  obtain s1 removed where d: "delete_each P real s = (s1, removed)" by (cases "delete_each P real s")
  have s1: "rs_rows s1 = filter (\<lambda>r. \<forall>m \<in> set real. \<not> P m r) (rs_rows s)" "rs_static s1 = rs_static s"
      "store_ok s1"
    using delete_each_rows [of P real s] delete_each_ok [OF ok, of P real] d by simp_all
  have free: "rd_from r \<noteq> mv_to m" if "r \<in> set (rs_rows s1)" "m \<in> set real" for r m
  proof
    assume "rd_from r = mv_to m"
    then have "P m r" using bare [OF that(2)] by (cases "mv_to m = ''/''") (simp_all add: P_def redirectFromPathSpellings_def Let_def)
    then show False using that by (simp add: s1(1))
  qed
  note col = collapse_succeeds [where s = s1 and moves = real, OF s1(3) free]
  define s2 where "s2 = s1\<lparr>rs_rows := map (collapse_row real) (rs_rows s1)\<rparr>"
  have ms: "\<And>m. m \<in> set real \<Longrightarrow> redirectTargetIssue parse_url (mv_to m) = None \<and> mv_from m \<noteq> mv_to m"
    using allowed by (simp add: real)
  have st: "\<And>m. m \<in> set real \<Longrightarrow> creates (map mv_to real) choice m \<Longrightarrow> static_bare (mv_from m) \<notin> set (rs_static s2)"
    using allowed by (simp add: s2_def s1(2))
  obtain s3 n where cr: "create_old_urls parse_url actor (map mv_to real) choice real s2 0 = Inr (s3, n)"
      "store_ok s3"
      "\<And>p. p \<notin> mv_from ` {m \<in> set real. creates (map mv_to real) choice m} \<Longrightarrow> lookupRedirect s3 p = lookupRedirect s2 p"
      "\<And>m. m \<in> set real \<Longrightarrow> creates (map mv_to real) choice m \<Longrightarrow>
          \<exists>r. lookupRedirect s3 (mv_from m) = Some r \<and> rd_to r = mv_to m \<and> rd_status r = 301"
    using create_old_urls_ok [where newPaths = "map mv_to real" and choice = choice and ms = real and s = s2
        and n = 0 and actor = actor and parse_url = parse_url, OF ms st old] col(2) [folded s2_def] by auto
  define s' where "s' = (if 0 < removed + length (filter (collapses real) (rs_rows s1)) then requestRedirectSync s3 else s3)"
  have "applyPathMoveEffects parse_url actor moves choice s = Inr (s', n)"
    using False d col(1) cr(1)
    by (simp add: applyPathMoveEffects_def real [symmetric] Let_def P_def s2_def s'_def)
  moreover have look: "lookupRedirect s' p = lookupRedirect s3 p" for p by (simp add: s'_def lookupRedirect_def)
  moreover have "store_ok s'" using cr(2) by (simp add: s'_def)
  moreover have "rs_rows s2 = map (collapse_row real)
       (filter (\<lambda>r. \<forall>m \<in> set real. rd_from r \<notin> set (redirectFromPathSpellings (mv_to m))) (rs_rows s))"
    by (simp add: s2_def s1(1) P_def)
  ultimately show thesis using that [of s' n s2] col(2) [folded s2_def] cr(3,4) by simp
qed

text \<open>C15. When pages move, every old URL keeps reaching its page in one hop.  For moves from
  pairwise different old paths to paths a redirect may point at, with no static file at an old
  path, the effects succeed and keep the table's constraints, and afterwards no redirect starts
  at the new path of a moved page in either spelling; the old path of every moved page that
  asked for a redirect and that no other page took over answers with a 301 to the page's new
  path; and every redirect the move set leaves in place points where it pointed before, or,
  when it pointed at the old path of a moved page, at that page's new path.\<close>

theorem old_urls_reach_their_pages:
  fixes real :: "path_move list"
  assumes ok: "store_ok s"
    and real: "real = filter (\<lambda>m. mv_from m \<noteq> mv_to m) moves"
    and old: "distinct (map mv_from real)"
    and bare: "\<And>m. m \<in> set real \<Longrightarrow> stripTrailingSlash (mv_from m) = mv_from m
      \<and> stripTrailingSlash (mv_to m) = mv_to m"
    and allowed: "\<And>m. m \<in> set real \<Longrightarrow> redirectTargetIssue parse_url (mv_to m) = None
      \<and> static_bare (mv_from m) \<notin> set (rs_static s)"
  shows "\<exists>s' n. applyPathMoveEffects parse_url actor moves choice s = Inr (s', n) \<and> store_ok s'
     \<and> (\<forall>m \<in> set real. \<forall>r \<in> set (rs_rows s'). rd_from r \<notin> set (redirectFromPathSpellings (mv_to m)))
     \<and> (\<forall>m \<in> set real. creates (map mv_to real) choice m \<longrightarrow>
          (\<exists>r. lookupRedirect s' (mv_from m) = Some r \<and> rd_to r = mv_to m \<and> rd_status r = 301))
     \<and> (\<forall>r \<in> set (rs_rows s). (\<forall>m \<in> set real. rd_from r \<notin> set (redirectFromPathSpellings (mv_to m)))
          \<longrightarrow> (\<forall>m \<in> set real. creates (map mv_to real) choice m \<longrightarrow> mv_from m \<noteq> rd_from r)
          \<longrightarrow> (\<exists>r'. lookupRedirect s' (rd_from r) = Some r'
                 \<and> rd_to r' = (case find (\<lambda>m. mv_from m = rd_to r) real of Some m \<Rightarrow> mv_to m | None \<Rightarrow> rd_to r)))"
proof -
  obtain s' n s2 where run: "applyPathMoveEffects parse_url actor moves choice s = Inr (s', n)"
    and sok: "store_ok s'" "store_ok s2"
    and rows: "rs_rows s2 = map (collapse_row real)
       (filter (\<lambda>r. \<forall>m \<in> set real. rd_from r \<notin> set (redirectFromPathSpellings (mv_to m))) (rs_rows s))"
    and others: "\<And>p. p \<notin> mv_from ` {m \<in> set real. creates (map mv_to real) choice m} \<Longrightarrow> lookupRedirect s' p = lookupRedirect s2 p"
    and created: "\<And>m. m \<in> set real \<Longrightarrow> creates (map mv_to real) choice m \<Longrightarrow>
       \<exists>r. lookupRedirect s' (mv_from m) = Some r \<and> rd_to r = mv_to m \<and> rd_status r = 301"
    by (rule path_moves_applied [where choice = choice and actor = actor,
          OF ok real old conjunct2 [OF bare] allowed]) (assumption | rule that)+
  have "rd_from r \<notin> set (redirectFromPathSpellings (mv_to m))"
    if m: "m \<in> set real" and r: "r \<in> set (rs_rows s')" for m r
  proof (cases "rd_from r \<in> mv_from ` {m \<in> set real. creates (map mv_to real) choice m}")
    case True
    then obtain k where k: "k \<in> set real" "creates (map mv_to real) choice k" "rd_from r = mv_from k" by blast
    have "mv_to m \<noteq> []" using allowed [OF m] by (auto simp: redirectTargetIssue_def starts_with_def split: if_splits)
    moreover have "mv_from k \<noteq> mv_to m" using m k(2) by (auto simp: creates_def)
    ultimately show ?thesis using bare_spellings [of "mv_to m" "mv_from k"] bare k m by simp
  next
    case False
    have "lookupRedirect s2 (rd_from r) = Some r" using lookup_row [OF sok(1) r] others [OF False] by simp
    then show ?thesis using lookup_in [of s2 "rd_from r" r] m by (auto simp: rows)
  qed
  moreover have "\<exists>r'. lookupRedirect s' (rd_from r) = Some r'
       \<and> rd_to r' = (case find (\<lambda>m. mv_from m = rd_to r) real of Some m \<Rightarrow> mv_to m | None \<Rightarrow> rd_to r)"
    if r: "r \<in> set (rs_rows s)" "\<forall>m \<in> set real. rd_from r \<notin> set (redirectFromPathSpellings (mv_to m))"
      "\<forall>m \<in> set real. creates (map mv_to real) choice m \<longrightarrow> mv_from m \<noteq> rd_from r" for r
  proof -
    have "collapse_row real r \<in> set (rs_rows s2)" using r(1,2) by (auto simp: rows)
    then have "lookupRedirect s2 (rd_from r) = Some (collapse_row real r)"
      using lookup_row [OF sok(2), of "collapse_row real r"] by simp
    moreover have "lookupRedirect s' (rd_from r) = lookupRedirect s2 (rd_from r)" using r(3) by (intro others) auto
    ultimately show ?thesis by (simp add: collapse_row_to)
  qed
  ultimately show ?thesis using run sok(1) created by blast
qed

definition swapped_moves :: "path_move list" where
  "swapped_moves =
     [\<lparr>mv_page = ''p1'', mv_from = ''/a'', mv_to = ''/b''\<rparr>,
      \<lparr>mv_page = ''p2'', mv_from = ''/b'', mv_to = ''/c''\<rparr>]"

definition swapped_store :: redirect_store where
  "swapped_store =
     \<lparr>rs_rows = [\<lparr>rd_id = 0, rd_from = ''/legacy'', rd_to = ''/a'', rd_status = 301, rd_by = ''u'', rd_created = 0\<rparr>,
                \<lparr>rd_id = 1, rd_from = ''/c/'', rd_to = ''/x'', rd_status = 301, rd_by = ''u'', rd_created = 0\<rparr>],
      rs_static = [], rs_next = 2, rs_now = 1, rs_syncs = 0\<rparr>"

lemma old_urls_reach_their_pages_witness:
  "\<exists>s' n. applyPathMoveEffects (\<lambda>_. None) ''u'' swapped_moves Auto_redirects swapped_store = Inr (s', n)
     \<and> (\<exists>r. lookupRedirect s' ''/a'' = Some r \<and> rd_to r = ''/b'' \<and> rd_status r = 301)
     \<and> (\<exists>r. lookupRedirect s' ''/legacy'' = Some r \<and> rd_to r = ''/b'')"
proof -
  have real: "swapped_moves = filter (\<lambda>m. mv_from m \<noteq> mv_to m) swapped_moves" by code_simp
  have ok: "store_ok swapped_store" by code_simp
  have old: "distinct (map mv_from swapped_moves)" by code_simp
  have all: "list_all (\<lambda>m. (stripTrailingSlash (mv_from m) = mv_from m \<and> stripTrailingSlash (mv_to m) = mv_to m)
      \<and> redirectTargetIssue (\<lambda>_. None) (mv_to m) = None \<and> static_bare (mv_from m) \<notin> set (rs_static swapped_store)) swapped_moves"
    by code_simp
  obtain s' n where s': "applyPathMoveEffects (\<lambda>_. None) ''u'' swapped_moves Auto_redirects swapped_store = Inr (s', n)"
      "\<forall>m \<in> set swapped_moves. creates (map mv_to swapped_moves) Auto_redirects m \<longrightarrow>
          (\<exists>r. lookupRedirect s' (mv_from m) = Some r \<and> rd_to r = mv_to m \<and> rd_status r = 301)"
      "\<forall>r \<in> set (rs_rows swapped_store). (\<forall>m \<in> set swapped_moves. rd_from r \<notin> set (redirectFromPathSpellings (mv_to m)))
          \<longrightarrow> (\<forall>m \<in> set swapped_moves. creates (map mv_to swapped_moves) Auto_redirects m \<longrightarrow> mv_from m \<noteq> rd_from r)
          \<longrightarrow> (\<exists>r'. lookupRedirect s' (rd_from r) = Some r'
                 \<and> rd_to r' = (case find (\<lambda>m. mv_from m = rd_to r) swapped_moves of Some m \<Rightarrow> mv_to m | None \<Rightarrow> rd_to r))"
    using old_urls_reach_their_pages [OF ok real old, of "\<lambda>_. None" "''u''" Auto_redirects] all
    unfolding list_all_iff by blast
  have one: "\<lparr>mv_page = ''p1'', mv_from = ''/a'', mv_to = ''/b''\<rparr> \<in> set swapped_moves"
      "creates (map mv_to swapped_moves) Auto_redirects \<lparr>mv_page = ''p1'', mv_from = ''/a'', mv_to = ''/b''\<rparr>"
    by code_simp+
  define r where "r = \<lparr>rd_id = 0, rd_from = ''/legacy'', rd_to = ''/a'', rd_status = 301, rd_by = ''u'', rd_created = 0\<rparr>"
  have two: "r \<in> set (rs_rows swapped_store)" by (simp add: r_def swapped_store_def)
  have three: "list_all (\<lambda>m. rd_from r \<notin> set (redirectFromPathSpellings (mv_to m)) \<and> mv_from m \<noteq> rd_from r) swapped_moves"
    unfolding r_def by code_simp
  have four: "(case find (\<lambda>m. mv_from m = rd_to r) swapped_moves of Some m \<Rightarrow> mv_to m | None \<Rightarrow> rd_to r) = ''/b''"
    unfolding r_def by code_simp
  have "\<exists>q. lookupRedirect s' (rd_from r) = Some q \<and> rd_to q = ''/b''"
    using s'(3) two three unfolding list_all_iff four [symmetric] by blast
  moreover have "\<exists>q. lookupRedirect s' ''/a'' = Some q \<and> rd_to q = ''/b'' \<and> rd_status q = 301"
    using s'(2) one by (metis path_move.select_convs(2) path_move.select_convs(3))
  ultimately show ?thesis using s'(1) by (auto simp: r_def)
qed

text \<open>The chain update compares the stored target with the old path as written: a row whose
  target was stored with a trailing slash keeps pointing at the old address, which the new
  redirect then answers with a second hop.\<close>

definition slashed_target :: redirect_store where
  "slashed_target = \<lparr>rs_rows = [\<lparr>rd_id = 0, rd_from = ''/legacy'', rd_to = ''/old/'', rd_status = 301,
       rd_by = ''u'', rd_created = 0\<rparr>], rs_static = [], rs_next = 1, rs_now = 1, rs_syncs = 0\<rparr>"

lemma slashed_target_not_collapsed:
  "case applyPathMoveEffects (\<lambda>_. None) ''u'' [\<lparr>mv_page = ''p'', mv_from = ''/old'', mv_to = ''/new''\<rparr>]
       Auto_redirects slashed_target of
     Inl _ \<Rightarrow> False
   | Inr (s', _) \<Rightarrow> map_option rd_to (lookupRedirect s' ''/legacy'') = Some ''/old/''
       \<and> map_option rd_to (lookupRedirect s' ''/old'') = Some ''/new''"
  by code_simp

end
