(* ===== verification/Path_Writes.thy ===== *)
theory Path_Writes
  imports Compose_Paths Path_Effects
begin

text \<open>
  Storing composed paths (packages/admin-core/src/ops/content/current-path.ts): the
  current_path column is unique among the live rows of one branch, every UPDATE is checked
  on its own, and a set of paths is written by vacating every row before claiming the new
  values.  The recompute of a page and everything below it reads the scoped tree; it is
  proved to store what the whole tree composes.
\<close>

section \<open>One UPDATE\<close>

text \<open>The index pages_current_path_branch_uidx covers the rows that are not deleted.\<close>

definition same_slot :: "page_row \<Rightarrow> page_row \<Rightarrow> bool" where
  "same_slot q r = (\<not> pr_deleted q \<and> \<not> pr_deleted r \<and> pr_branch q = pr_branch r \<and> pr_path q = pr_path r)"

definition paths_unique :: "page_db \<Rightarrow> bool" where
  "paths_unique db =
     (\<forall>q \<in> set (db_pages db). \<forall>r \<in> set (db_pages db). same_slot q r \<longrightarrow> pr_id q = pr_id r)"

definition set_row_path :: "string \<Rightarrow> (string \<Rightarrow> string) \<Rightarrow> page_row \<Rightarrow> page_row" where
  "set_row_path i f r = (if pr_id r = i then r\<lparr>pr_path := f (pr_path r)\<rparr> else r)"

definition update_path :: "string \<Rightarrow> (string \<Rightarrow> string) \<Rightarrow> page_db \<Rightarrow> (string, page_db) result" where
  "update_path i f db =
     (case find (\<lambda>r. pr_id r = i) (db_pages db) of
        None \<Rightarrow> Inr db
      | Some r \<Rightarrow>
          require (\<not> list_ex (\<lambda>q. pr_id q \<noteq> i \<and> same_slot q (set_row_path i f r)) (db_pages db))
            (f (pr_path r))
            (Inr (db\<lparr>db_pages := map (set_row_path i f) (db_pages db)\<rparr>)))"

section \<open>Vacate, then claim\<close>

definition moving_mark :: "string \<Rightarrow> string" where
  "moving_mark i = ''#moving-'' @ i"

fun vacate_paths :: "(string \<times> string) list \<Rightarrow> page_db \<Rightarrow> (string, page_db) result" where
  "vacate_paths [] db = Inr db"
| "vacate_paths (c # cs) db =
     then_result (update_path (fst c) (\<lambda>p. p @ moving_mark (fst c)) db) (vacate_paths cs)"

fun claim_paths :: "(string \<times> string) list \<Rightarrow> page_db \<Rightarrow> (string, page_db) result" where
  "claim_paths [] db = Inr db"
| "claim_paths (c # cs) db =
     then_result (update_path (fst c) (\<lambda>_. snd c) db) (claim_paths cs)"

definition writeCurrentPaths :: "(string \<times> string) list \<Rightarrow> page_db \<Rightarrow> (string, page_db) result" where
  "writeCurrentPaths changes db = then_result (vacate_paths changes db) (claim_paths changes)"

text \<open>What the caller asked for: every changed row at its new path, at once.\<close>

definition assign_path :: "(string \<times> string) list \<Rightarrow> page_row \<Rightarrow> page_row" where
  "assign_path changes r =
     (case map_of changes (pr_id r) of Some p \<Rightarrow> r\<lparr>pr_path := p\<rparr> | None \<Rightarrow> r)"

definition assign_paths :: "(string \<times> string) list \<Rightarrow> page_db \<Rightarrow> page_db" where
  "assign_paths changes db = db\<lparr>db_pages := map (assign_path changes) (db_pages db)\<rparr>"

definition no_mark :: "string \<Rightarrow> bool" where
  "no_mark s = (CHR ''#'' \<notin> set s)"

section \<open>Recompute\<close>

datatype path_error = Compose_failed compose_error | Path_taken string | Effect_failed effect_error

definition loadStoredPaths :: "page_db \<Rightarrow> string list \<Rightarrow> (string \<times> string) list" where
  "loadStoredPaths db ids =
     fold (\<lambda>r m. js_set (pr_id r) (pr_path r) m) (filter (\<lambda>r. pr_id r \<in> set ids) (db_pages db)) []"

definition path_move_of ::
  "page_tree \<Rightarrow> string option \<Rightarrow> (string \<times> string) list \<Rightarrow> string \<times> string \<Rightarrow> path_move option" where
  "path_move_of t branch stored e =
     (if branch \<noteq> None \<and> node_branch (the (js_get (by_id t) (fst e))) \<noteq> branch then None
      else (case js_get stored (fst e) of
              None \<Rightarrow> None
            | Some old \<Rightarrow> if old = snd e then None
                else Some \<lparr>mv_page = fst e, mv_from = old, mv_to = snd e\<rparr>))"

definition path_moves ::
  "page_tree \<Rightarrow> string option \<Rightarrow> (string \<times> string) list \<Rightarrow> (string \<times> string) list \<Rightarrow> path_move list" where
  "path_moves t branch stored paths = List.map_filter (path_move_of t branch stored) paths"

definition move_changes :: "path_move list \<Rightarrow> (string \<times> string) list" where
  "move_changes moves = map (\<lambda>m. (mv_page m, mv_to m)) moves"

definition recomputeCurrentPathsWithMoves ::
  "url_env \<Rightarrow> site_defaults \<Rightarrow> page_db \<Rightarrow> string list \<Rightarrow> string option
    \<Rightarrow> (path_error, page_db \<times> (string \<times> string) list \<times> path_move list) result" where
  "recomputeCurrentPathsWithMoves env d db pageIds branch =
     (let ids = js_unique pageIds
      in if ids = [] then Inr (db, [], [])
         else
           (let (t, below) = loadScopedTree db branch ids
            in case composePaths env d db t (ids @ below) branch None of
                 Inl e \<Rightarrow> Inl (Compose_failed e)
               | Inr paths \<Rightarrow>
                   (let moves = path_moves t branch (loadStoredPaths db (map fst paths)) paths
                    in case writeCurrentPaths (move_changes moves) db of
                         Inl p \<Rightarrow> Inl (Path_taken p)
                       | Inr db' \<Rightarrow> Inr (db', paths, moves))))"

definition recomputeCurrentPaths ::
  "url_env \<Rightarrow> site_defaults \<Rightarrow> page_db \<Rightarrow> string list \<Rightarrow> string option
    \<Rightarrow> (path_error, page_db \<times> (string \<times> string) list) result" where
  "recomputeCurrentPaths env d db pageIds branch =
     then_result (recomputeCurrentPathsWithMoves env d db pageIds branch)
       (\<lambda>(db', paths, _). Inr (db', paths))"

text \<open>Each page in the namespace that owns its row.\<close>

definition owner_groups :: "page_db \<Rightarrow> string list \<Rightarrow> (string option \<times> string list) list" where
  "owner_groups db pageIds =
     fold (\<lambda>r m. js_set (pr_branch r)
             ((case js_get m (pr_branch r) of None \<Rightarrow> [] | Some is \<Rightarrow> is) @ [pr_id r]) m)
       (filter (\<lambda>r. pr_id r \<in> set pageIds \<and> \<not> pr_deleted r) (db_pages db)) []"

fun recompute_groups ::
  "url_env \<Rightarrow> site_defaults \<Rightarrow> (string option \<times> string list) list \<Rightarrow> page_db \<Rightarrow> (path_error, page_db) result" where
  "recompute_groups env d [] db = Inr db"
| "recompute_groups env d (g # gs) db =
     then_result (recomputeCurrentPaths env d db (snd g) (fst g)) (\<lambda>(db', _). recompute_groups env d gs db')"

definition recomputeOwnedCurrentPaths ::
  "url_env \<Rightarrow> site_defaults \<Rightarrow> page_db \<Rightarrow> string list \<Rightarrow> (path_error, page_db) result" where
  "recomputeOwnedCurrentPaths env d db pageIds = recompute_groups env d (owner_groups db pageIds) db"

definition claimPendingDesignations ::
  "url_env \<Rightarrow> site_defaults \<Rightarrow> page_db \<Rightarrow> string list \<Rightarrow> (path_error, site_defaults \<times> page_db) result" where
  "claimPendingDesignations env d db merging =
     (if merging = [] then Inr (d, db)
      else
        then_result
          (case sd_pending_home d of
             Some h \<Rightarrow>
               if h \<in> set merging then
                 (let d' = d\<lparr>sd_home := Some h, sd_pending_home := None\<rparr>;
                      holders = filter (\<lambda>r. pr_path r = ''/'' \<and> pr_branch r = None \<and> \<not> pr_deleted r) (db_pages db)
                  in then_result (recomputeCurrentPaths env d' db (map pr_id holders) None)
                       (\<lambda>(db', _). Inr (d', db')))
               else Inr (d, db)
           | None \<Rightarrow> Inr (d, db))
          (\<lambda>(d', db'). case sd_pending_not_found d of
             Some nf \<Rightarrow> if nf \<in> set merging
                        then Inr (d'\<lparr>sd_not_found := Some nf, sd_pending_not_found := None\<rparr>, db')
                        else Inr (d', db')
           | None \<Rightarrow> Inr (d', db')))"

definition resolveCurrentPathsDryRun ::
  "url_env \<Rightarrow> site_defaults \<Rightarrow> page_db \<Rightarrow> string list \<Rightarrow> string option \<Rightarrow> string option
    \<Rightarrow> (compose_error, (string \<times> string) list) result" where
  "resolveCurrentPathsDryRun env d db pageIds branch without =
     (if pageIds = [] then Inr []
      else composePaths env d db (fst (loadPageChains db branch pageIds)) pageIds branch without)"

section \<open>Writes are simultaneous\<close>

lemma set_row_path_parts [simp]:
  "pr_id (set_row_path i f r) = pr_id r" "pr_deleted (set_row_path i f r) = pr_deleted r"
  "pr_branch (set_row_path i f r) = pr_branch r"
  by (simp_all add: set_row_path_def)

lemma pages_ok_map:
  "(\<And>r. pr_id (g r) = pr_id r) \<Longrightarrow> pages_ok (db\<lparr>db_pages := map g (db_pages db)\<rparr>) = pages_ok db"
  by (simp add: pages_ok_def comp_def)

lemma update_path_result:
  assumes "pages_ok db" "update_path i f db = Inr db'"
  shows "db' = db\<lparr>db_pages := map (set_row_path i f) (db_pages db)\<rparr>"
proof (cases "find (\<lambda>r. pr_id r = i) (db_pages db)")
  case None
  then have "map (set_row_path i f) (db_pages db) = db_pages db"
    by (intro map_idI) (auto simp: find_None_iff set_row_path_def)
  then show ?thesis using assms None by (simp add: update_path_def)
next
  case (Some r)
  then show ?thesis using assms by (simp add: update_path_def result_simps)
qed

lemma update_path_ok:
  assumes "\<And>q r. q \<in> set (db_pages db) \<Longrightarrow> r \<in> set (db_pages db) \<Longrightarrow> pr_id r = i \<Longrightarrow> pr_id q \<noteq> i
     \<Longrightarrow> \<not> same_slot q (set_row_path i f r)"
  shows "\<exists>db'. update_path i f db = Inr db'"
proof (cases "find (\<lambda>r. pr_id r = i) (db_pages db)")
  case (Some r)
  then have "r \<in> set (db_pages db)" "pr_id r = i" by (auto simp: find_Some_iff)
  then have "\<not> list_ex (\<lambda>q. pr_id q \<noteq> i \<and> same_slot q (set_row_path i f r)) (db_pages db)"
    using assms by (auto simp: list_ex_iff)
  then show ?thesis using Some by (simp add: update_path_def)
qed (simp add: update_path_def)

lemma update_keeps_unique:
  assumes "pages_ok db" "paths_unique db" "update_path i f db = Inr db'"
  shows "paths_unique db'"
proof (cases "find (\<lambda>r. pr_id r = i) (db_pages db)")
  case None
  then show ?thesis using assms by (simp add: update_path_def)
next
  case (Some r)
  then have r: "r \<in> set (db_pages db)" "pr_id r = i" by (auto simp: find_Some_iff)
  have only: "q = r" if "q \<in> set (db_pages db)" "pr_id q = i" for q
    using that r assms(1) by (auto simp: pages_ok_def distinct_map inj_on_def)
  have clash: "\<not> same_slot q (set_row_path i f r)" if "q \<in> set (db_pages db)" "pr_id q \<noteq> i" for q
    using assms(3) Some that by (auto simp: update_path_def result_simps list_ex_iff)
  have same: "set_row_path i f q = q" if "pr_id q \<noteq> i" for q using that by (simp add: set_row_path_def)
  have sym: "same_slot a b = same_slot b a" for a b by (auto simp: same_slot_def)
  have "pr_id a = pr_id b" if "a \<in> set (db_pages db)" "b \<in> set (db_pages db)"
      "same_slot (set_row_path i f a) (set_row_path i f b)" for a b
    using that only clash same sym assms(2) unfolding paths_unique_def
    by (cases "pr_id a = i"; cases "pr_id b = i") (metis, metis, metis, metis)
  then show ?thesis
    using update_path_result [OF assms(1,3)] by (simp add: paths_unique_def)
qed

definition vacated :: "string set \<Rightarrow> page_row \<Rightarrow> page_row" where
  "vacated A r = (if pr_id r \<in> A then r\<lparr>pr_path := pr_path r @ moving_mark (pr_id r)\<rparr> else r)"

lemma vacate_result:
  assumes "distinct (map fst cs)" "fst ` set cs \<inter> A = {}"
    and "pages_ok db" "paths_unique db" "\<forall>r \<in> set (db_pages db). no_mark (pr_path r)"
  shows "vacate_paths cs (db\<lparr>db_pages := map (vacated A) (db_pages db)\<rparr>)
    = Inr (db\<lparr>db_pages := map (vacated (A \<union> fst ` set cs)) (db_pages db)\<rparr>)"
  using assms(1,2)
proof (induction cs arbitrary: A)
  case (Cons c cs)
  define i where "i = fst c"
  define dbA where "dbA = db\<lparr>db_pages := map (vacated A) (db_pages db)\<rparr>"
  have i: "i \<notin> A" using Cons.prems(2) by (simp add: i_def)
  have vid: "pr_id (vacated A r) = pr_id r" "pr_deleted (vacated A r) = pr_deleted r"
      "pr_branch (vacated A r) = pr_branch r" for A r by (simp_all add: vacated_def)
  have okA: "pages_ok dbA" unfolding dbA_def using pages_ok_map [of "vacated A" db] vid assms(3) by simp
  have free: "\<not> same_slot q (set_row_path i (\<lambda>p. p @ moving_mark i) r)"
    if h: "q \<in> set (db_pages dbA)" "r \<in> set (db_pages dbA)" "pr_id r = i" "pr_id q \<noteq> i" for q r
  proof
    assume "same_slot q (set_row_path i (\<lambda>p. p @ moving_mark i) r)"
    moreover obtain q0 r0 where q0: "q0 \<in> set (db_pages db)" "q = vacated A q0"
        and r0: "r0 \<in> set (db_pages db)" "r = vacated A r0"
      using h(1,2) by (auto simp: dbA_def)
    ultimately have eq: "pr_path q = pr_path r0 @ ''#moving-'' @ i"
      using h(3) i vid by (simp add: same_slot_def set_row_path_def vacated_def moving_mark_def)
    have hash: "CHR ''#'' \<notin> set (pr_path q0)" "CHR ''#'' \<notin> set (pr_path r0)"
      using assms(5) q0(1) r0(1) by (auto simp: no_mark_def)
    show False
    proof (cases "pr_id q0 \<in> A")
      case True
      then have "pr_path q0 @ ''#moving-'' @ pr_id q0 = pr_path r0 @ ''#moving-'' @ i"
        using eq q0 by (simp add: vacated_def moving_mark_def)
      then have "split_on (CHR ''#'') (pr_path q0 @ CHR ''#'' # (''moving-'' @ pr_id q0))
          = split_on (CHR ''#'') (pr_path r0 @ CHR ''#'' # (''moving-'' @ i))" by simp
      then have "pr_path q0 = pr_path r0"
        by (simp only: split_on_append [OF hash(1)] split_on_append [OF hash(2)] list.inject)
      then have "pr_id q0 = i" using eq q0 True by (simp add: vacated_def moving_mark_def)
      then show False using h(4) q0 vid by simp
    next
      case False
      then have "CHR ''#'' \<in> set (pr_path q0)" using eq q0 by (simp add: vacated_def)
      then show False using hash by simp
    qed
  qed
  obtain db1 where u: "update_path i (\<lambda>p. p @ moving_mark i) dbA = Inr db1"
    using update_path_ok [of dbA i] free by blast
  have "set_row_path i (\<lambda>p. p @ moving_mark i) (vacated A r) = vacated (insert i A) r" for r
    using i by (auto simp: vacated_def set_row_path_def)
  then have "db1 = db\<lparr>db_pages := map (vacated (insert i A)) (db_pages db)\<rparr>"
    using update_path_result [OF okA u] by (simp add: dbA_def comp_def)
  moreover have "vacate_paths cs (db\<lparr>db_pages := map (vacated (insert i A)) (db_pages db)\<rparr>)
    = Inr (db\<lparr>db_pages := map (vacated (insert i A \<union> fst ` set cs)) (db_pages db)\<rparr>)"
    by (rule Cons.IH) (use Cons.prems i_def in auto)
  ultimately show ?case using u by (simp add: dbA_def i_def [symmetric])
qed simp

lemma assign_path_parts [simp]:
  "pr_id (assign_path cs r) = pr_id r" "pr_deleted (assign_path cs r) = pr_deleted r"
  "pr_branch (assign_path cs r) = pr_branch r"
  by (simp_all add: assign_path_def split: option.splits)

text \<open>Midway through the claims: the rows of dn hold their new path, the others of all
  are vacated.\<close>

definition midway :: "(string \<times> string) list \<Rightarrow> string set \<Rightarrow> page_row \<Rightarrow> page_row" where
  "midway dn A r = (case map_of dn (pr_id r) of Some p \<Rightarrow> r\<lparr>pr_path := p\<rparr> | None \<Rightarrow> vacated A r)"

lemma midway_parts [simp]:
  "pr_id (midway dn A r) = pr_id r" "pr_deleted (midway dn A r) = pr_deleted r"
  "pr_branch (midway dn A r) = pr_branch r"
  by (simp_all add: midway_def vacated_def split: option.splits)

lemma claim_result:
  assumes "distinct (map fst (dn @ cs))" "A = fst ` set (dn @ cs)"
    and "pages_ok db" "paths_unique (assign_paths (dn @ cs) db)"
    and "\<forall>c \<in> set (dn @ cs). no_mark (snd c)"
  shows "claim_paths cs (db\<lparr>db_pages := map (midway dn A) (db_pages db)\<rparr>) = Inr (assign_paths (dn @ cs) db)"
  using assms
proof (induction cs arbitrary: dn)
  case Nil
  have "midway dn A r = assign_path dn r" for r
  proof (cases "map_of dn (pr_id r)")
    case None
    then have "pr_id r \<notin> A" using Nil.prems(2) by (simp add: map_of_eq_None_iff)
    then show ?thesis using None by (simp add: midway_def assign_path_def vacated_def)
  qed (simp add: midway_def assign_path_def)
  then show ?case by (simp add: assign_paths_def)
next
  case (Cons c cs)
  define i where "i = fst c"
  define dbM where "dbM = db\<lparr>db_pages := map (midway dn A) (db_pages db)\<rparr>"
  have all: "dn @ c # cs = (dn @ [c]) @ cs" by simp
  have dn_i: "map_of dn i = None" using Cons.prems(1) by (simp add: i_def map_of_eq_None_iff)
  then have i: "map_of dn i = None" "map_of (dn @ c # cs) i = Some (snd c)"
    by (simp_all add: map_add_def i_def)
  have okM: "pages_ok dbM" unfolding dbM_def using pages_ok_map [of "midway dn A" db] Cons.prems(3) by simp
  have free: "\<not> same_slot q (set_row_path i (\<lambda>_. snd c) r)"
    if h: "q \<in> set (db_pages dbM)" "r \<in> set (db_pages dbM)" "pr_id r = i" "pr_id q \<noteq> i" for q r
  proof
    assume s: "same_slot q (set_row_path i (\<lambda>_. snd c) r)"
    obtain q0 r0 where q0: "q0 \<in> set (db_pages db)" "q = midway dn A q0"
        and r0: "r0 \<in> set (db_pages db)" "r = midway dn A r0"
      using h(1,2) by (auto simp: dbM_def)
    have path: "pr_path q = snd c" using s h(3) by (simp add: same_slot_def set_row_path_def)
    show False
    proof (cases "map_of dn (pr_id q0) = None \<and> pr_id q0 \<in> A")
      case True
      then have "CHR ''#'' \<in> set (snd c)"
        using path [symmetric] q0(2) by (simp add: midway_def vacated_def moving_mark_def)
      then show False using Cons.prems(5) by (simp add: no_mark_def)
    next
      case False
      have "assign_path (dn @ c # cs) q0 = q"
      proof (cases "map_of dn (pr_id q0)")
        case None
        then have "pr_id q0 \<notin> A" using False by simp
        then have "map_of (dn @ c # cs) (pr_id q0) = None"
          unfolding map_of_eq_None_iff using Cons.prems(2) by simp
        then show ?thesis using None \<open>pr_id q0 \<notin> A\<close> q0(2)
          by (simp add: assign_path_def midway_def vacated_def del: map_of_append)
      next
        case (Some p)
        then have "map_of (dn @ c # cs) (pr_id q0) = Some p"
          using Cons.prems(1) by (auto simp: map_add_def map_of_eq_None_iff dest!: map_of_SomeD split: option.splits)
        then show ?thesis using Some q0(2) by (simp add: assign_path_def midway_def)
      qed
      moreover have "assign_path (dn @ c # cs) r0 = set_row_path i (\<lambda>_. snd c) r"
      proof -
        have "pr_id r0 = i" using h(3) r0(2) by simp
        then show ?thesis using i dn_i r0(2)
          by (simp add: assign_path_def set_row_path_def midway_def vacated_def del: map_of_append)
      qed
      ultimately have "same_slot (assign_path (dn @ c # cs) q0) (assign_path (dn @ c # cs) r0)" using s by simp
      then have "pr_id q0 = pr_id r0" using Cons.prems(4) q0(1) r0(1)
        by (fastforce simp: paths_unique_def assign_paths_def)
      then show False using h(3,4) q0(2) r0(2) by simp
    qed
  qed
  obtain db1 where u: "update_path i (\<lambda>_. snd c) dbM = Inr db1"
    using update_path_ok [of dbM i] free by blast
  have "set_row_path i (\<lambda>_. snd c) (midway dn A r) = midway (dn @ [c]) A r" for r
    using i(1) by (auto simp: midway_def set_row_path_def i_def vacated_def map_add_def split: option.splits)
  then have "db1 = db\<lparr>db_pages := map (midway (dn @ [c]) A) (db_pages db)\<rparr>"
    using update_path_result [OF okM u] by (simp add: dbM_def comp_def)
  moreover have "claim_paths cs (db\<lparr>db_pages := map (midway (dn @ [c]) A) (db_pages db)\<rparr>)
      = Inr (assign_paths ((dn @ [c]) @ cs) db)"
    by (rule Cons.IH [OF Cons.prems [unfolded all]])
  ultimately show ?case using u by (simp add: dbM_def i_def [symmetric])
qed


lemma update_sequence_result:
  "pages_ok db \<Longrightarrow> vacate_paths cs db = Inr db' \<Longrightarrow> pages_ok db' \<and> (paths_unique db \<longrightarrow> paths_unique db')"
  "pages_ok db \<Longrightarrow> claim_paths cs db = Inr db' \<Longrightarrow> pages_ok db' \<and> (paths_unique db \<longrightarrow> paths_unique db')"
proof -
  have ok: "pages_ok db1" if "pages_ok db" "update_path i f db = Inr db1" for db db1 i f
    using pages_ok_map [of "set_row_path i f" db] that update_path_result [OF that] by simp
  show "pages_ok db \<Longrightarrow> vacate_paths cs db = Inr db' \<Longrightarrow> pages_ok db' \<and> (paths_unique db \<longrightarrow> paths_unique db')"
    by (induction cs arbitrary: db) (auto simp: result_simps dest: ok update_keeps_unique)
  show "pages_ok db \<Longrightarrow> claim_paths cs db = Inr db' \<Longrightarrow> pages_ok db' \<and> (paths_unique db \<longrightarrow> paths_unique db')"
    by (induction cs arbitrary: db) (auto simp: result_simps dest: ok update_keeps_unique)
qed

lemma claim_outcome:
  "pages_ok db \<Longrightarrow> distinct (map fst cs) \<Longrightarrow> claim_paths cs db = Inr db'
    \<Longrightarrow> db' = assign_paths cs db"
proof (induction cs arbitrary: db)
  case Nil
  have "map (assign_path []) (db_pages db) = db_pages db" by (intro map_idI) (simp add: assign_path_def)
  then show ?case using Nil by (simp add: assign_paths_def)
next
  case (Cons c cs)
  then obtain db1 where u: "update_path (fst c) (\<lambda>_. snd c) db = Inr db1" "claim_paths cs db1 = Inr db'"
    by (auto simp: result_simps)
  have db1: "db1 = db\<lparr>db_pages := map (set_row_path (fst c) (\<lambda>_. snd c)) (db_pages db)\<rparr>"
    by (rule update_path_result [OF Cons.prems(1) u(1)])
  have "pages_ok db1" using pages_ok_map [of "set_row_path (fst c) (\<lambda>_. snd c)" db] Cons.prems(1) by (simp add: db1)
  then have "db' = assign_paths cs db1" using Cons.IH [OF _ _ u(2)] Cons.prems(2) by simp
  moreover have "assign_path cs (set_row_path (fst c) (\<lambda>_. snd c) r) = assign_path (c # cs) r" for r
  proof (cases "pr_id r = fst c")
    case True
    then have "map_of cs (pr_id r) = None" using Cons.prems(2) by (simp add: map_of_eq_None_iff)
    then show ?thesis using True by (cases c) (simp add: assign_path_def set_row_path_def)
  next
    case False
    then show ?thesis by (cases c) (simp add: assign_path_def set_row_path_def)
  qed
  ultimately show ?case by (simp add: assign_paths_def db1 comp_def)
qed

lemma path_writes:
  assumes "distinct (map fst changes)" "pages_ok db" "paths_unique db"
    and "\<forall>r \<in> set (db_pages db). no_mark (pr_path r)" "\<forall>c \<in> set changes. no_mark (snd c)"
  shows "(writeCurrentPaths changes db = Inr db')
     = (paths_unique (assign_paths changes db) \<and> db' = assign_paths changes db)"
proof -
  define A where "A = fst ` set changes"
  define dbV where "dbV = db\<lparr>db_pages := map (vacated A) (db_pages db)\<rparr>"
  have "vacate_paths changes (db\<lparr>db_pages := map (vacated {}) (db_pages db)\<rparr>) = Inr dbV"
    using vacate_result [OF assms(1) _ assms(2-4), of "{}"] by (simp add: dbV_def A_def)
  moreover have "map (vacated {}) (db_pages db) = db_pages db" by (intro map_idI) (simp add: vacated_def)
  ultimately have v: "vacate_paths changes db = Inr dbV" by simp
  have okV: "pages_ok dbV" "paths_unique dbV"
    using update_sequence_result(1) [OF assms(2) v] assms(3) by simp_all
  have same: "assign_path changes (vacated A r) = assign_path changes r" for r
  proof (cases "map_of changes (pr_id r)")
    case None
    then have "pr_id r \<notin> A" by (simp add: A_def map_of_eq_None_iff)
    then show ?thesis by (simp add: vacated_def)
  qed (simp add: assign_path_def vacated_def)
  then have out: "assign_paths changes dbV = assign_paths changes db"
    by (simp add: assign_paths_def dbV_def comp_def)
  have eq: "writeCurrentPaths changes db = claim_paths changes dbV" by (simp add: writeCurrentPaths_def v)
  have fwd: "db' = assign_paths changes db \<and> paths_unique (assign_paths changes db)"
    if "claim_paths changes dbV = Inr db'"
    using claim_outcome [OF okV(1) assms(1) that] update_sequence_result(2) [OF okV(1) that] okV(2) out by simp
  have bwd: "claim_paths changes dbV = Inr (assign_paths changes db)"
    if "paths_unique (assign_paths changes db)"
  proof -
    have "midway [] A r = vacated A r" for r by (simp add: midway_def)
    then have dbV: "dbV = db\<lparr>db_pages := map (midway [] A) (db_pages db)\<rparr>" by (simp add: dbV_def)
    have "claim_paths changes (db\<lparr>db_pages := map (midway [] A) (db_pages db)\<rparr>)
        = Inr (assign_paths ([] @ changes) db)"
      by (rule claim_result) (use assms(1,2,5) that in \<open>simp_all add: A_def\<close>)
    then show ?thesis by (simp add: dbV)
  qed
  show ?thesis unfolding eq using fwd bwd by (intro iffI) (blast, elim conjE, simp)
qed


text \<open>C4. Writing a set of paths is one simultaneous assignment: although the index on
  current_path is checked after every single UPDATE, a set of changes of different rows goes
  through exactly when its outcome holds every path at most once per branch, swaps and cycles
  of paths included, and the outcome is every changed row at its new path and every other row
  as it was.  Stored and new paths carry no number sign, the mark of a vacated row.\<close>

theorem path_writes_are_simultaneous:
  assumes "distinct (map fst changes)" "pages_ok db" "paths_unique db"
    and "\<forall>r \<in> set (db_pages db). no_mark (pr_path r)" "\<forall>c \<in> set changes. no_mark (snd c)"
  shows "(writeCurrentPaths changes db = Inr db')
     = (paths_unique (assign_paths changes db) \<and> db' = assign_paths changes db)"
  using assms by (rule path_writes)

section \<open>Composed paths carry no mark\<close>

lemma segment_no_mark: "is_segment s \<Longrightarrow> no_mark s"
proof -
  assume "is_segment s"
  then have "list_all segment_char s"
    by (cases s) (auto simp: is_segment_def segment_char_def)
  moreover have "\<not> segment_char (CHR ''#'')" by code_simp
  ultimately show ?thesis by (auto simp: no_mark_def list_all_iff)
qed

lemma join_no_mark: "\<forall>s \<in> set segs. no_mark s \<Longrightarrow> no_mark (join_with ''/'' segs)"
  by (induction "''/''" segs rule: join_with.induct) (auto simp: no_mark_def)

lemma split_no_mark: "\<forall>w \<in> set (split_on slash s). no_mark w \<Longrightarrow> no_mark s"
  by (induction s) (auto simp: no_mark_def slash_def split: if_splits list.splits)

lemma resolve_no_mark:
  assumes "resolvePageUrl r without page = Inr (path, host)"
  shows "no_mark path"
proof -
  have pre: "no_mark (path_of_segments segs)" if "\<forall>s \<in> set segs. is_segment s" for segs
    using join_no_mark [of segs] segment_no_mark that
    by (simp add: path_of_segments_def no_mark_def)
  have full: "no_mark p" if f: "check_full_path plugin p (Inr (p, h)) = Inr (path, host)" for plugin p h
  proof (cases "p = ''/''")
    case False
    then obtain q where q: "p = slash # q" "\<forall>s \<in> set (split_on slash q). is_segment s"
      using f by (auto simp: check_full_path_def result_simps)
    then have "no_mark q" by (intro split_no_mark) (simp add: segment_no_mark)
    then show ?thesis by (simp add: q(1) no_mark_def slash_def)
  qed (simp add: no_mark_def)
  obtain psource pre_segs where ps: "prefix_segments r without page = (psource, pre_segs)"
    by (cases "prefix_segments r without page")
  obtain ssource leaf where ls: "slug_part r without page = (ssource, leaf)" by (cases "slug_part r without page")
  have plain: "no_mark path"
    if "assertSegments pre_segs psource
           (if cp_home page then Inr (if pre_segs = [] then ''/'' else path_of_segments pre_segs, h)
            else assertSegments (cp_ancestors page) ''core/parent-page''
              (require (leaf \<noteq> []) (Empty_slug (cp_id page) (cp_slug page))
                (assertSegment leaf ssource
                  (Inr (path_of_segments (pre_segs @ cp_ancestors page @ [leaf]), h))))) = Inr (path, host)" for h
    using that
    by (auto simp: result_simps assertSegment_def intro!: pre split: if_splits) (simp add: no_mark_def)
  obtain h where h: "(case bySlot r without Full_path_slot of
         Some (plugin, Full_path enc dec) \<Rightarrow> check_full_path plugin (enc page) (Inr (enc page, h))
       | _ \<Rightarrow> assertSegments pre_segs psource
           (if cp_home page then Inr (if pre_segs = [] then ''/'' else path_of_segments pre_segs, h)
            else assertSegments (cp_ancestors page) ''core/parent-page''
              (require (leaf \<noteq> []) (Empty_slug (cp_id page) (cp_slug page))
                (assertSegment leaf ssource
                  (Inr (path_of_segments (pre_segs @ cp_ancestors page @ [leaf]), h)))))) = Inr (path, host)"
    using assms unfolding resolvePageUrl_def then_result_Inr ps ls Let_def prod.case by blast
  show ?thesis
  proof (cases "bySlot r without Full_path_slot")
    case (Some e)
    obtain plugin c where e: "e = (plugin, c)" by (cases e)
    show ?thesis
    proof (cases c)
      case (Full_path enc dec)
      then have f: "check_full_path plugin (enc page) (Inr (enc page, h)) = Inr (path, host)" using h Some e by simp
      then have "path = enc page" by (auto simp: check_full_path_def result_simps split: if_splits)
      then show ?thesis using full [OF f] by simp
    qed (use h Some e plain in simp_all)
  qed (use h plain in simp)
qed

section \<open>The recompute stores what the whole tree composes\<close>

lemma composePathsFrom_get:
  "composePathsFrom env t ids designated anns without = Inr m \<Longrightarrow> map fst m = ids
     \<and> (\<forall>e \<in> set m. compose_one env t designated (case js_get anns (fst e) of None \<Rightarrow> [] | Some a \<Rightarrow> a) without (fst e)
          = Inr (snd e))"
proof (induction ids arbitrary: m)
  case (Cons i ids)
  obtain c m1 where c: "compose_one env t designated (case js_get anns i of None \<Rightarrow> [] | Some a \<Rightarrow> a) without i = Inr c"
      and m1: "composePathsFrom env t ids designated anns without = Inr m1" and m: "m = (i, c) # m1"
    using Cons.prems by (auto simp: result_simps)
  then show ?case using Cons.IH [OF m1] by simp
qed simp

lemma compose_one_path:
  "compose_one env t designated ann without i = Inr c \<Longrightarrow> no_mark (co_path c)"
  by (auto simp: compose_one_def Let_def dest: resolve_no_mark split: sum.splits)

lemma compose_one_cong:
  "js_get (by_id t) i = js_get (by_id u) i \<Longrightarrow> ancestorSlugsOf t i = ancestorSlugsOf u i
    \<Longrightarrow> compose_one env t designated ann without i = compose_one env u designated ann without i"
  by (simp add: compose_one_def)

lemma composePaths_get:
  assumes "composePaths env d db t pageIds branch without = Inr paths"
  shows "map fst paths = composableIds t pageIds"
    and "\<exists>anns. collectUrlAnnotations (ue_ask env branch) (ue_registry env) without (map fst paths) = Inr anns
      \<and> (\<forall>e \<in> set paths. \<exists>c. compose_one env t (fst (loadSiteDesignations db d branch))
            (case js_get anns (fst e) of None \<Rightarrow> [] | Some a \<Rightarrow> a) without (fst e) = Inr c \<and> snd e = co_path c)"
proof -
  define ids where "ids = composableIds t pageIds"
  define des where "des = fst (loadSiteDesignations db d branch)"
  obtain m where m: "compose_ids env des branch t ids without = Inr m" "paths = map (\<lambda>e. (fst e, co_path (snd e))) m"
    using assms by (auto simp: composePaths_def composePathsDetailed_def result_simps ids_def des_def)
  obtain anns where anns: "collectUrlAnnotations (ue_ask env branch) (ue_registry env) without ids = Inr anns"
      "composePathsFrom env t ids des anns without = Inr m"
    using m(1) by (cases "ids = []") (auto simp: compose_ids_def collectUrlAnnotations_def split: sum.splits)
  note g = composePathsFrom_get [OF anns(2)]
  have fst: "map fst paths = ids" using g by (simp add: m(2) comp_def)
  then show "map fst paths = composableIds t pageIds" by (simp add: ids_def)
  have "\<exists>c. compose_one env t des (case js_get anns (fst e) of None \<Rightarrow> [] | Some a \<Rightarrow> a) without (fst e) = Inr c
      \<and> snd e = co_path c" if "e \<in> set paths" for e
    using that g by (auto simp: m(2))
  then show "\<exists>anns. collectUrlAnnotations (ue_ask env branch) (ue_registry env) without (map fst paths) = Inr anns
      \<and> (\<forall>e \<in> set paths. \<exists>c. compose_one env t (fst (loadSiteDesignations db d branch))
            (case js_get anns (fst e) of None \<Rightarrow> [] | Some a \<Rightarrow> a) without (fst e) = Inr c \<and> snd e = co_path c)"
    using anns(1) fst by (auto simp: des_def)
qed

definition stored_path :: "page_db \<Rightarrow> string \<Rightarrow> string option" where
  "stored_path db i = js_get (map (\<lambda>r. (pr_id r, pr_path r)) (db_pages db)) i"

lemma stored_path_row:
  "pages_ok db \<Longrightarrow> (stored_path db i = Some p) = (\<exists>r \<in> set (db_pages db). pr_id r = i \<and> pr_path r = p)"
  unfolding stored_path_def pages_ok_def by (subst js_get_in [OF js_map_ok_map]) auto

lemma loadStoredPaths_get:
  assumes "pages_ok db"
  shows "js_get (loadStoredPaths db ids) i = (if i \<in> set ids then stored_path db i else None)"
proof -
  have "loadStoredPaths db ids = map (\<lambda>r. (pr_id r, pr_path r)) (filter (\<lambda>r. pr_id r \<in> set ids) (db_pages db))"
    unfolding loadStoredPaths_def by (rule js_map_of_distinct [OF pages_distinct [OF assms]])
  also have "\<dots> = filter (\<lambda>e. fst e \<in> set ids) (map (\<lambda>r. (pr_id r, pr_path r)) (db_pages db))"
    by (simp add: filter_map comp_def)
  finally have eq: "loadStoredPaths db ids = \<dots>" .
  have "js_map_ok (map (\<lambda>r. (pr_id r, pr_path r)) (db_pages db))"
    using assms by (intro js_map_ok_map) (simp add: pages_ok_def)
  then show ?thesis by (simp add: eq js_get_filter stored_path_def split: option.splits)
qed

lemma stored_after_assign:
  assumes "pages_ok db"
  shows "stored_path (assign_paths cs db) i =
     (case stored_path db i of None \<Rightarrow> None
      | Some old \<Rightarrow> (case map_of cs i of Some p \<Rightarrow> Some p | None \<Rightarrow> Some old))"
proof -
  have "js_get (map (\<lambda>r. (pr_id r, pr_path (assign_path cs r))) rows) i =
     (case js_get (map (\<lambda>r. (pr_id r, pr_path r)) rows) i of None \<Rightarrow> None
      | Some old \<Rightarrow> (case map_of cs i of Some p \<Rightarrow> Some p | None \<Rightarrow> Some old))" for rows
    by (induction rows) (auto simp: js_get_nil js_get_cons assign_path_def split: option.splits)
  then show ?thesis by (simp add: stored_path_def assign_paths_def comp_def)
qed

lemma path_move_of_Some:
  "(path_move_of t branch stored e = Some m) =
     ((branch = None \<or> node_branch (the (js_get (by_id t) (fst e))) = branch)
      \<and> (\<exists>old. js_get stored (fst e) = Some old \<and> old \<noteq> snd e
           \<and> m = \<lparr>mv_page = fst e, mv_from = old, mv_to = snd e\<rparr>))"
  by (auto simp: path_move_of_def split: option.splits)

lemma path_moves_Cons:
  "path_moves t branch stored (e # es) =
     (case path_move_of t branch stored e of None \<Rightarrow> path_moves t branch stored es
      | Some m \<Rightarrow> m # path_moves t branch stored es)"
  by (simp add: path_moves_def map_filter_simps split: option.splits)

lemma path_moves_in:
  "(m \<in> set (path_moves t branch stored paths)) = (\<exists>e \<in> set paths. path_move_of t branch stored e = Some m)"
proof (induction paths)
  case (Cons e es)
  then show ?case by (auto simp: path_moves_Cons split: option.splits)
qed (simp add: path_moves_def map_filter_simps)

lemma path_moves_distinct:
  "distinct (map fst paths) \<Longrightarrow> distinct (map fst (move_changes (path_moves t branch stored paths)))"
proof (induction paths)
  case (Cons e es)
  have "fst e \<notin> mv_page ` set (path_moves t branch stored es)"
    using Cons.prems by (auto simp: path_moves_in path_move_of_Some rev_image_eqI)
  then show ?case
    using Cons by (auto simp: path_moves_Cons move_changes_def comp_def path_move_of_Some split: option.splits)
qed (simp add: path_moves_def move_changes_def map_filter_simps)

lemma recompute_parts:
  assumes "recomputeCurrentPathsWithMoves env d db pageIds branch = Inr (db', paths, moves)" "pageIds \<noteq> []"
  obtains t sub where "loadScopedTree db branch pageIds = (t, sub)"
    "composePaths env d db t (js_unique pageIds @ sub) branch None = Inr paths"
    "moves = path_moves t branch (loadStoredPaths db (map fst paths)) paths"
    "writeCurrentPaths (move_changes moves) db = Inr db'"
proof -
  obtain t sub where t: "loadScopedTree db branch (js_unique pageIds) = (t, sub)"
    by (cases "loadScopedTree db branch (js_unique pageIds)")
  have same: "loadScopedTree db branch (js_unique pageIds) = loadScopedTree db branch pageIds"
    by (simp add: loadScopedTree_def js_unique_def Let_def distinct_remdups_id)
  have "js_unique pageIds \<noteq> []" using assms(2) by (simp add: js_unique_def)
  then show thesis
    using that [of t sub] assms(1) t same
    by (auto simp: recomputeCurrentPathsWithMoves_def Let_def split: sum.splits)
qed


definition stored_ok :: "page_db \<Rightarrow> bool" where
  "stored_ok db \<longleftrightarrow> pages_ok db \<and> paths_unique db \<and> (\<forall>r \<in> set (db_pages db). no_mark (pr_path r))"

text \<open>The annotations a composition read of a page.\<close>

definition ann_of :: "(string \<times> annotations) list \<Rightarrow> string \<Rightarrow> annotations" where
  "ann_of anns i = (case js_get anns i of None \<Rightarrow> [] | Some a \<Rightarrow> a)"

text \<open>The pages a recompute of some pages is about: those pages and everything below them, as
  the scope sees the tree.\<close>

definition recomputed :: "page_db \<Rightarrow> string option \<Rightarrow> string list \<Rightarrow> string \<Rightarrow> bool" where
  "recomputed db branch pageIds i =
     (js_get (by_id (whole_tree db branch)) i \<noteq> None
      \<and> (i \<in> set pageIds \<or> i \<in> set (descendantIdsOf (whole_tree db branch) pageIds)))"

lemma recompute_targets:
  assumes ok: "pages_ok db" and proper: "proper_tree (whole_tree db branch)"
    and read: "loadScopedTree db branch pageIds = (t, sub)"
  shows "(i \<in> set (composableIds t (js_unique pageIds @ sub))) = recomputed db branch pageIds i"
proof (cases "i \<in> set pageIds \<or> i \<in> set sub")
  case True
  note agree = loadScopedTree_agrees [OF ok proper read]
  have get: "js_get (by_id t) i = js_get (by_id (whole_tree db branch)) i" using agree(1) True by simp
  have "(i \<in> set sub) = (i \<in> set (descendantIdsOf (whole_tree db branch) pageIds))"
    if "js_get (by_id (whole_tree db branch)) i = Some n" for n
    using agree(3) [of i n] that by (simp add: loadPageTree_get [OF ok])
  then show ?thesis using get True by (auto simp: composableIds_def recomputed_def)
next
  case False
  have "i \<notin> set (descendantIdsOf (whole_tree db branch) pageIds)"
    if "js_get (by_id (whole_tree db branch)) i = Some n" for n
    using loadScopedTree_agrees(3) [OF ok proper read, of i n] that False by (simp add: loadPageTree_get [OF ok])
  then show ?thesis using False by (auto simp: composableIds_def recomputed_def)
qed

lemma recompute_changes:
  assumes ok: "pages_ok db" and paths: "distinct (map fst paths)" and e: "(i, p) \<in> set paths"
    and moves: "moves = path_moves t branch (loadStoredPaths db (map fst paths)) paths"
  shows "map_of (move_changes moves) i =
     (if (branch = None \<or> node_branch (the (js_get (by_id t) i)) = branch)
         \<and> stored_path db i \<noteq> None \<and> stored_path db i \<noteq> Some p then Some p else None)"
proof -
  have only: "f = (i, p)" if "f \<in> set paths" "fst f = i" for f
    using that e paths by (metis eq_key_imp_eq_value prod.collapse)
  have i: "i \<in> set (map fst paths)" using e by (force intro: rev_image_eqI)
  have d: "distinct (map fst (move_changes moves))" unfolding moves by (rule path_moves_distinct [OF paths])
  have "(map_of (move_changes moves) i = Some q) =
      (q = p \<and> (branch = None \<or> node_branch (the (js_get (by_id t) i)) = branch)
         \<and> stored_path db i \<noteq> None \<and> stored_path db i \<noteq> Some p)" for q
  proof -
    have "(map_of (move_changes moves) i = Some q) = ((i, q) \<in> set (move_changes moves))"
      using d by (simp add: map_of_eq_Some_iff)
    also have "\<dots> = (\<exists>m \<in> set moves. mv_page m = i \<and> mv_to m = q)" by (auto simp: move_changes_def)
    also have "\<dots> = (\<exists>f \<in> set paths. fst f = i \<and> snd f = q
        \<and> (branch = None \<or> node_branch (the (js_get (by_id t) (fst f))) = branch)
        \<and> (\<exists>old. js_get (loadStoredPaths db (map fst paths)) (fst f) = Some old \<and> old \<noteq> snd f))"
    proof -
      have mv: "(m \<in> set moves \<and> mv_page m = i \<and> mv_to m = q) = (\<exists>f \<in> set paths. fst f = i \<and> snd f = q
        \<and> (branch = None \<or> node_branch (the (js_get (by_id t) (fst f))) = branch)
        \<and> (\<exists>old. js_get (loadStoredPaths db (map fst paths)) (fst f) = Some old \<and> old \<noteq> snd f
             \<and> m = \<lparr>mv_page = fst f, mv_from = old, mv_to = snd f\<rparr>))" for m
        unfolding moves path_moves_in path_move_of_Some by (rule iffI; elim conjE bexE exE; force)
      show ?thesis unfolding Bex_def mv by blast
    qed
    also have "\<dots> = (q = p \<and> (branch = None \<or> node_branch (the (js_get (by_id t) i)) = branch)
         \<and> stored_path db i \<noteq> None \<and> stored_path db i \<noteq> Some p)"
    proof -
      have one: "(\<exists>f \<in> set paths. fst f = i \<and> P f) = P (i, p)" for P
      proof
        assume "\<exists>f \<in> set paths. fst f = i \<and> P f"
        then obtain f where "f \<in> set paths" "fst f = i" "P f" by blast
        then show "P (i, p)" using only [of f] by (simp only:)
      qed (use e in force)
      show ?thesis unfolding one using i by (auto simp: loadStoredPaths_get [OF ok])
    qed
    finally show ?thesis .
  qed
  then show ?thesis by (cases "map_of (move_changes moves) i") auto
qed

lemma recompute_changes_none:
  assumes "i \<notin> fst ` set paths" "moves = path_moves t branch stored paths"
  shows "map_of (move_changes moves) i = None"
proof -
  have "i \<notin> mv_page ` set moves" using assms by (force simp: path_moves_in path_move_of_Some)
  then show ?thesis by (force simp: map_of_eq_None_iff move_changes_def)
qed

lemma composed_changes:
  assumes comp: "composePaths env d db t ids branch without = Inr paths"
    and moves: "moves = path_moves t branch (loadStoredPaths db' (map fst paths)) paths"
  shows "distinct (map fst (move_changes moves))" "\<forall>c \<in> set (move_changes moves). no_mark (snd c)"
proof -
  have "distinct (map fst paths)" using composePaths_get(1) [OF comp] by (simp add: composableIds_def)
  then show "distinct (map fst (move_changes moves))" unfolding moves by (rule path_moves_distinct)
  show "\<forall>c \<in> set (move_changes moves). no_mark (snd c)"
    using composePaths_get(2) [OF comp]
    by (fastforce simp: move_changes_def moves path_moves_in path_move_of_Some dest: compose_one_path)
qed

lemma recompute_writes:
  assumes ok: "stored_ok db" and comp: "composePaths env d db t ids branch without = Inr paths"
    and moves: "moves = path_moves t branch (loadStoredPaths db (map fst paths)) paths"
    and written: "writeCurrentPaths (move_changes moves) db = Inr db'"
  shows "db' = assign_paths (move_changes moves) db" "stored_ok db'"
proof -
  have pok: "pages_ok db" and uniq: "paths_unique db" "\<forall>r \<in> set (db_pages db). no_mark (pr_path r)"
    using ok by (simp_all add: stored_ok_def)
  note changes = composed_changes [OF comp moves]
  have outcome: "paths_unique (assign_paths (move_changes moves) db) \<and> db' = assign_paths (move_changes moves) db"
    by (rule iffD1 [OF path_writes [OF changes(1) pok uniq changes(2)] written])
  then show db': "db' = assign_paths (move_changes moves) db" by (rule conjunct2)
  have "pages_ok db'" using pok pages_ok_map [of "assign_path (move_changes moves)" db] by (simp add: db' assign_paths_def)
  moreover have "no_mark (pr_path r)" if "r \<in> set (db_pages db')" for r
    using that ok changes(2)
    by (fastforce simp: db' assign_paths_def assign_path_def stored_ok_def split: option.splits dest!: map_of_SomeD)
  moreover have "paths_unique db'" unfolding db' by (rule outcome [THEN conjunct1])
  ultimately show "stored_ok db'" by (simp add: stored_ok_def)
qed

lemma recompute_keeps_others:
  assumes "stored_ok db" "composePaths env d db t ids branch without = Inr paths"
    and "moves = path_moves t branch (loadStoredPaths db (map fst paths)) paths"
    and "writeCurrentPaths (move_changes moves) db = Inr db'" and i: "i \<notin> fst ` set paths"
  shows "js_get paths i = None" "stored_path db' i = stored_path db i"
proof -
  show "js_get paths i = None" using i by (simp add: js_get_def map_of_eq_None_iff)
  have "map_of (move_changes moves) i = None" by (rule recompute_changes_none [OF i assms(3)])
  then show "stored_path db' i = stored_path db i"
    using assms(1) by (simp add: recompute_writes(1) [OF assms(1-4)] stored_after_assign stored_ok_def split: option.splits)
qed

lemma recompute_stores_composed:
  assumes "stored_ok db" "composePaths env d db t ids branch without = Inr paths"
    and "moves = path_moves t branch (loadStoredPaths db (map fst paths)) paths"
    and "writeCurrentPaths (move_changes moves) db = Inr db'" and e: "(i, p) \<in> set paths"
  shows "js_get paths i = Some p"
    "stored_path db i \<noteq> None \<Longrightarrow> stored_path db' i =
       (if branch = None \<or> node_branch (the (js_get (by_id t) i)) = branch then Some p else stored_path db i)"
proof -
  have pok: "pages_ok db" using assms(1) by (simp add: stored_ok_def)
  have dist: "distinct (map fst paths)"
    using composePaths_get(1) [OF assms(2)] by (simp add: composableIds_def)
  then show "js_get paths i = Some p" using e by (simp add: js_get_in js_map_ok_def)
  show "stored_path db' i = (if branch = None \<or> node_branch (the (js_get (by_id t) i)) = branch then Some p else stored_path db i)"
    if "stored_path db i \<noteq> None"
    using that recompute_changes [OF pok dist e assms(3)]
    by (auto simp: recompute_writes(1) [OF assms(1-4)] stored_after_assign [OF pok] split: option.splits)
qed

text \<open>On main every row whose page was composed gets its composed path.\<close>

lemma main_assignment:
  assumes pok: "pages_ok db" and comp: "composePaths env d db t ids None without = Inr paths"
    and moves: "moves = path_moves t None (loadStoredPaths db (map fst paths)) paths"
    and r: "r \<in> set (db_pages db)"
  shows "pr_path (assign_path (move_changes moves) r) = (case js_get paths (pr_id r) of Some p \<Rightarrow> p | None \<Rightarrow> pr_path r)"
proof (cases "js_get paths (pr_id r)")
  case None
  then have "pr_id r \<notin> fst ` set paths" by (simp add: js_get_def map_of_eq_None_iff)
  then show ?thesis using recompute_changes_none [OF _ moves] None by (simp add: assign_path_def)
next
  case (Some p)
  then have e: "(pr_id r, p) \<in> set paths" by (simp add: js_get_def map_of_SomeD)
  have "distinct (map fst paths)" using composePaths_get(1) [OF comp] by (simp add: composableIds_def)
  moreover have "stored_path db (pr_id r) = Some (pr_path r)" using stored_path_row [OF pok] r by blast
  ultimately show ?thesis
    using recompute_changes [OF pok _ e moves] Some by (simp add: assign_path_def split: option.splits if_splits)
qed

lemma stored_node_path:
  "pages_ok db \<Longrightarrow> js_get (by_id (whole_tree db branch)) i = Some n \<Longrightarrow> stored_path db i \<noteq> None"
proof -
  assume pok: "pages_ok db" and n: "js_get (by_id (whole_tree db branch)) i = Some n"
  have "stored_node db branch i \<noteq> None"
    using n node_in_stored [of db branch i] by (simp add: loadPageTree_get(1) [OF pok])
  then obtain r where "r \<in> set (db_pages db)" "pr_id r = i"
    by (auto simp: stored_node_def js_get_def dest!: map_of_SomeD)
  then show ?thesis using stored_path_row [OF pok, of i "pr_path r"] by auto
qed

text \<open>C6. Recomputing the paths of pages through the scoped reads stores exactly what
  composing over the whole tree gives.  When it succeeds, with every page of the scope at
  most six levels deep, each given page and each page below it has the path composed from
  the whole tree's ancestor chain, with the annotations of that one call; a row the scope
  owns (any row on main, the branch's own rows on a branch) stores that path, every other row
  keeps the one it had, and no path is held twice on a branch.\<close>

theorem recompute_stores_whole_tree_paths:
  assumes ok: "stored_ok db" and proper: "proper_tree (loadPageTree db branch True)" and ids: "pageIds \<noteq> []"
    and run: "recomputeCurrentPathsWithMoves env d db pageIds branch = Inr (db', paths, moves)"
  shows "stored_ok db' \<and> (\<exists>anns. collectUrlAnnotations (ue_ask env branch) (ue_registry env) None (map fst paths) = Inr anns
     \<and> (\<forall>i. \<not> recomputed db branch pageIds i \<longrightarrow> js_get paths i = None \<and> stored_path db' i = stored_path db i)
     \<and> (\<forall>i n. recomputed db branch pageIds i \<longrightarrow> js_get (by_id (loadPageTree db branch True)) i = Some n \<longrightarrow>
          (\<exists>c. compose_one env (loadPageTree db branch True) (fst (loadSiteDesignations db d branch)) (ann_of anns i) None i = Inr c
             \<and> js_get paths i = Some (co_path c)
             \<and> stored_path db' i = (if branch = None \<or> node_branch n = branch then Some (co_path c) else stored_path db i))))"
proof -
  have pok: "pages_ok db" using ok by (simp add: stored_ok_def)
  obtain t sub where read: "loadScopedTree db branch pageIds = (t, sub)"
      and comp: "composePaths env d db t (js_unique pageIds @ sub) branch None = Inr paths"
      and moves: "moves = path_moves t branch (loadStoredPaths db (map fst paths)) paths"
      and written: "writeCurrentPaths (move_changes moves) db = Inr db'"
    by (rule recompute_parts [OF run ids])
  note agree = loadScopedTree_agrees [OF pok proper read]
  have keys: "map fst paths = composableIds t (js_unique pageIds @ sub)" by (rule composePaths_get(1) [OF comp])
  have targets: "(i \<in> fst ` set paths) = recomputed db branch pageIds i" for i
    using recompute_targets [OF pok proper read, of i] by (simp flip: keys)
  obtain anns where anns: "collectUrlAnnotations (ue_ask env branch) (ue_registry env) None (map fst paths) = Inr anns"
      "\<forall>e \<in> set paths. \<exists>c. compose_one env t (fst (loadSiteDesignations db d branch)) (ann_of anns (fst e)) None (fst e)
          = Inr c \<and> snd e = co_path c"
    using composePaths_get(2) [OF comp] by (auto simp: ann_of_def)
  have inside: "\<exists>c. compose_one env (whole_tree db branch) (fst (loadSiteDesignations db d branch)) (ann_of anns i) None i = Inr c
       \<and> js_get paths i = Some (co_path c)
       \<and> stored_path db' i = (if branch = None \<or> node_branch n = branch then Some (co_path c) else stored_path db i)"
    if i: "recomputed db branch pageIds i" and n: "js_get (by_id (whole_tree db branch)) i = Some n" for i n
  proof -
    have "i \<in> set (map fst paths)" using targets i by simp
    then have in_read: "i \<in> set pageIds \<union> set sub" unfolding keys by (auto simp: composableIds_def js_unique_def)
    have "compose_one env t des ann None i = compose_one env (whole_tree db branch) des ann None i" for des ann
      by (rule compose_one_cong) (use agree(1,2) in_read n in \<open>simp_all add: loadPageTree_get(1) [OF pok]\<close>)
    then obtain c where c: "compose_one env (whole_tree db branch) (fst (loadSiteDesignations db d branch)) (ann_of anns i) None i = Inr c"
        "(i, co_path c) \<in> set paths"
      using anns(2) iffD2 [OF targets i] by fastforce
    show ?thesis
      using c(1) recompute_stores_composed [OF ok comp moves written c(2)] stored_node_path [OF pok n]
        agree(1) [OF in_read] n by simp
  qed
  show ?thesis
    using recompute_writes(2) [OF ok comp moves written] anns(1) inside
      recompute_keeps_others [OF ok comp moves written] targets by blast
qed

section \<open>Two worked examples\<close>

definition site_page :: "string \<Rightarrow> string \<Rightarrow> string option \<Rightarrow> string \<Rightarrow> page_row" where
  "site_page i slug parent path =
     \<lparr>pr_id = i, pr_slug = slug, pr_parent = parent, pr_branch = None, pr_deleted = False,
      pr_path = path, pr_published = True\<rparr>"

definition renamed_pages :: page_db where
  "renamed_pages = \<lparr>db_pages =
     [site_page ''h'' ''home'' None ''/'', site_page ''a'' ''us'' None ''/about'',
      site_page ''b'' ''team'' (Some ''a'') ''/about/team'', site_page ''c'' ''jobs'' None ''/jobs''],
     db_heads = []\<rparr>"

definition plain_env :: url_env where
  "plain_env = \<lparr>ue_registry = \<lparr>ur_by_slot = [], ur_ops = [], ur_disabled = []\<rparr>, ue_ask = (\<lambda>_ _ _ _. Inr None)\<rparr>"

definition home_site :: site_defaults where
  "home_site = \<lparr>sd_home = Some ''h'', sd_not_found = None, sd_pending_home = None, sd_pending_not_found = None\<rparr>"

text \<open>Two pages exchange their paths in one write.\<close>

lemma path_writes_are_simultaneous_witness:
  "writeCurrentPaths [(''a'', ''/jobs''), (''c'', ''/about'')] renamed_pages
     = Inr (assign_paths [(''a'', ''/jobs''), (''c'', ''/about'')] renamed_pages)"
proof -
  have "paths_unique (assign_paths [(''a'', ''/jobs''), (''c'', ''/about'')] renamed_pages)" by code_simp
  moreover have "distinct (map fst [(''a'', ''/jobs''), (''c'', ''/about'')])" by simp
  moreover have "pages_ok renamed_pages" "paths_unique renamed_pages" by code_simp+
  moreover have "\<forall>r \<in> set (db_pages renamed_pages). no_mark (pr_path r)" by code_simp
  moreover have "\<forall>c \<in> set [(''a'', ''/jobs''), (''c'', ''/about'')]. no_mark (snd c)" by code_simp
  ultimately show ?thesis
    using path_writes_are_simultaneous [of "[(''a'', ''/jobs''), (''c'', ''/about'')]" renamed_pages] by blast
qed

lemma recompute_stores_whole_tree_paths_witness:
  "\<exists>db' paths moves. recomputeCurrentPathsWithMoves plain_env home_site renamed_pages [''a''] None = Inr (db', paths, moves)
     \<and> stored_ok db' \<and> stored_path db' ''b'' = Some ''/us/team'' \<and> stored_path db' ''c'' = Some ''/jobs''"
proof -
  let ?run = "recomputeCurrentPathsWithMoves plain_env home_site renamed_pages [''a''] None"
  have "case ?run of Inl _ \<Rightarrow> False | Inr (db', paths, moves) \<Rightarrow> js_get paths ''b'' = Some ''/us/team''" by code_simp
  then obtain db' paths moves where run: "?run = Inr (db', paths, moves)" "js_get paths ''b'' = Some ''/us/team''"
    by (auto split: sum.splits)
  have ok: "stored_ok renamed_pages" by code_simp
  have proper: "proper_tree (loadPageTree renamed_pages None True)" by code_simp
  have b: "recomputed renamed_pages None [''a''] ''b''" and c: "\<not> recomputed renamed_pages None [''a''] ''c''"
    unfolding recomputed_def by code_simp+
  then obtain n where n: "js_get (by_id (loadPageTree renamed_pages None True)) ''b'' = Some n"
    unfolding recomputed_def by blast
  have out: "stored_path renamed_pages ''c'' = Some ''/jobs''" by code_simp
  have R: "stored_ok db'" "stored_path db' ''c'' = stored_path renamed_pages ''c''"
      "stored_path db' ''b'' = js_get paths ''b''"
    using recompute_stores_whole_tree_paths [OF ok proper _ run(1)] b c n by (metis list.discI)+
  show ?thesis using R run out by auto
qed

end
