(* ===== verification/Path_Refresh.thy ===== *)
theory Path_Refresh
  imports Path_Writes
begin

text \<open>
  Refreshing stored paths outside a move (packages/admin-core/src/ops/content/current-path.ts):
  pages.refresh_current_path after plugin data changed, with the gate that keeps published
  URLs for an approved URL migration, and the recomposition of main after a merge.
\<close>

section \<open>The migration gate\<close>

text \<open>The main pages whose stored path differs from a fresh composition.\<close>

definition pendingMigrationPageIds ::
  "url_env \<Rightarrow> site_defaults \<Rightarrow> page_db \<Rightarrow> page_tree \<Rightarrow> (compose_error, string list) result" where
  "pendingMigrationPageIds env d db t =
     (let ids = map fst (by_id t)
      in then_result (composePaths env d db t ids None None) (\<lambda>fresh.
           Inr (filter (\<lambda>i. js_get (loadStoredPaths db ids) i \<noteq> js_get fresh i) ids)))"

definition movesPublishedPage ::
  "url_env \<Rightarrow> site_defaults \<Rightarrow> page_db \<Rightarrow> page_tree \<Rightarrow> string list \<Rightarrow> (compose_error, bool) result" where
  "movesPublishedPage env d db t pageIds =
     (let ids = map pr_id (filter (\<lambda>r. pr_published r \<and> pr_id r \<in> set pageIds) (db_pages db))
      in if ids = [] then Inr False
         else then_result (composePaths env d db t ids None None) (\<lambda>fresh.
                Inr (list_ex (\<lambda>i. js_get (loadStoredPaths db ids) i \<noteq> js_get fresh i) ids)))"

section \<open>Refreshing one page\<close>

datatype refresh_error =
    Refresh_not_found
  | Refresh_composition compose_error
  | Refresh_paths path_error
  | Refresh_no_path
  | Refresh_effects effect_error

record refresh_answer =
  ra_path :: string
  ra_moved :: bool
  ra_awaiting :: bool

text \<open>The gate: a move that would shift a published page is held for a caller that is not a
  plugin, and for a plugin when pages outside the subtree drift too.\<close>

definition refresh_held ::
  "url_env \<Rightarrow> site_defaults \<Rightarrow> page_db \<Rightarrow> bool \<Rightarrow> string \<Rightarrow> (refresh_error, bool) result" where
  "refresh_held env d db by_plugin pageId =
     (let (t, below) = loadScopedTree db None [pageId];
          subtree = pageId # below
      in case movesPublishedPage env d db t subtree of
           Inl e \<Rightarrow> Inl (Refresh_composition e)
         | Inr False \<Rightarrow> Inr False
         | Inr True \<Rightarrow>
             if \<not> by_plugin then Inr True
             else (case pendingMigrationPageIds env d db (loadPageTree db None True) of
                     Inl e \<Rightarrow> Inl (Refresh_composition e)
                   | Inr ids \<Rightarrow> Inr (list_ex (\<lambda>i. i \<notin> set subtree) ids)))"

definition refreshCurrentPath ::
  "url_parser \<Rightarrow> url_env \<Rightarrow> site_defaults \<Rightarrow> string \<Rightarrow> bool \<Rightarrow> string option \<Rightarrow> redirect_choice \<Rightarrow> string
    \<Rightarrow> page_db \<times> redirect_store \<Rightarrow> (refresh_error, (page_db \<times> redirect_store) \<times> refresh_answer) result" where
  "refreshCurrentPath parse_url env d actor by_plugin branch choice pageId st =
     (let (db, store) = st
      in case find (\<lambda>r. pr_id r = pageId \<and> \<not> pr_deleted r) (db_pages db) of
           None \<Rightarrow> Inl Refresh_not_found
         | Some row \<Rightarrow>
             if branch \<noteq> None \<and> pr_branch row \<noteq> branch
             then (case resolveCurrentPathsDryRun env d db [pageId] branch None of
                     Inl e \<Rightarrow> Inl (Refresh_composition e)
                   | Inr preview \<Rightarrow>
                       Inr (st, \<lparr>ra_path = (case js_get preview pageId of Some p \<Rightarrow> p | None \<Rightarrow> pr_path row),
                                 ra_moved = False, ra_awaiting = False\<rparr>))
             else then_result (refresh_held env d db by_plugin pageId) (\<lambda>held.
                    if held then Inr (st, \<lparr>ra_path = pr_path row, ra_moved = False, ra_awaiting = True\<rparr>)
                    else (case recomputeCurrentPathsWithMoves env d db [pageId] branch of
                            Inl e \<Rightarrow> Inl (Refresh_paths e)
                          | Inr (db', paths, moves) \<Rightarrow>
                              (case js_get paths pageId of
                                 None \<Rightarrow> Inl Refresh_no_path
                               | Some newPath \<Rightarrow>
                                   require (newPath \<noteq> []) Refresh_no_path
                                     (case applyPathMoveEffects parse_url actor moves choice store of
                                        Inl e \<Rightarrow> Inl (Refresh_effects e)
                                      | Inr (store', _) \<Rightarrow>
                                          Inr ((db', store'), \<lparr>ra_path = newPath, ra_moved = (newPath \<noteq> pr_path row),
                                                ra_awaiting = False\<rparr>))))))"

section \<open>After a merge\<close>

definition composeLivePathsBeforePluginMerge ::
  "url_env \<Rightarrow> site_defaults \<Rightarrow> page_db \<Rightarrow> (compose_error, (string \<times> string) list) result" where
  "composeLivePathsBeforePluginMerge env d db =
     (let t = loadPageTree db None True in composePaths env d db t (map fst (by_id t)) None None)"

datatype merge_error = Host_not_loaded | Merge_composition compose_error | Merge_path_taken string | Merge_effects effect_error

record merge_input =
  mi_before :: "(string \<times> string) list option"
  mi_replayed :: "string list"
  mi_new :: "string list"
  mi_skip :: "string list"

text \<open>The pages a merge composes again, with their new paths: the replayed subtrees, and when
  plugin rows were applied also the new pages and those the rows change.\<close>

definition merge_composed ::
  "url_env \<Rightarrow> site_defaults \<Rightarrow> bool \<Rightarrow> string \<Rightarrow> merge_input \<Rightarrow> page_db
    \<Rightarrow> (merge_error, (string \<times> string) list) result" where
  "merge_composed env d host_loaded b inp db =
     (let t = loadPageTree db None True;
          roots = filter (\<lambda>i. js_get (by_id t) i \<noteq> None) (mi_replayed inp);
          replayed = roots @ descendantIdsOf t roots
      in case mi_before inp of
           Some before \<Rightarrow>
             require host_loaded Host_not_loaded
               (let ids = map fst (by_id t)
                in case composePathsOutsideTransaction env t ids (fst (loadSiteDesignations db d None)) (Some b) of
                     Inl e \<Rightarrow> Inl (Merge_composition e)
                   | Inr withMerge \<Rightarrow>
                       (let caused = replayed @ mi_new inp @ filter (\<lambda>i. js_get withMerge i \<noteq> js_get before i) ids
                        in Inr (filter (\<lambda>e. fst e \<in> set caused) withMerge)))
         | None \<Rightarrow>
             (case composePaths env d db t replayed None None of
                Inl e \<Rightarrow> Inl (Merge_composition e)
              | Inr m \<Rightarrow> Inr m))"

text \<open>A page composed here has its ancestors, so the error case of the chain is never taken.\<close>

definition merge_skips :: "page_tree \<Rightarrow> string list \<Rightarrow> string \<Rightarrow> bool" where
  "merge_skips t skipping i =
     (i \<in> set skipping
      \<or> (case ancestorIdsOf t i of Inl _ \<Rightarrow> False | Inr as \<Rightarrow> list_ex (\<lambda>a. a \<in> set skipping) as))"

definition stored_moves :: "(string \<times> string) list \<Rightarrow> (string \<times> string) list \<Rightarrow> path_move list" where
  "stored_moves stored composed =
     List.map_filter (\<lambda>(i, p). case js_get stored i of
        None \<Rightarrow> None
      | Some q \<Rightarrow> if q \<noteq> p then Some \<lparr>mv_page = i, mv_from = q, mv_to = p\<rparr> else None) composed"

definition refreshLivePathsAfterMerge ::
  "url_parser \<Rightarrow> url_env \<Rightarrow> site_defaults \<Rightarrow> string \<Rightarrow> bool \<Rightarrow> string \<Rightarrow> merge_input
    \<Rightarrow> page_db \<times> redirect_store \<Rightarrow> (merge_error, (page_db \<times> redirect_store) \<times> string list) result" where
  "refreshLivePathsAfterMerge parse_url env d actor host_loaded b inp st =
     (let (db, store) = st; t = loadPageTree db None True
      in then_result (merge_composed env d host_loaded b inp db) (\<lambda>composed.
           if composed = [] then Inr (st, [])
           else
             (let moves = stored_moves (loadStoredPaths db (map fst composed)) composed
              in case writeCurrentPaths (move_changes moves) db of
                   Inl p \<Rightarrow> Inl (Merge_path_taken p)
                 | Inr db' \<Rightarrow>
                     (case applyPathMoveEffects parse_url actor
                             (filter (\<lambda>m. mv_page m \<notin> set (mi_new inp)) moves)
                             (Skip_pages (merge_skips t (mi_skip inp))) store of
                        Inl e \<Rightarrow> Inl (Merge_effects e)
                      | Inr (store', _) \<Rightarrow> Inr ((db', store'), map mv_page moves)))))"

section \<open>Two compositions agree\<close>

lemma compositions_agree:
  assumes law: "page_annotator (ue_ask env branch) about"
    and one: "composePaths env d db t ids branch without = Inr p" and two: "composePaths env d db t ids' branch without = Inr q"
    and i: "i \<in> set (map fst p)" "i \<in> set (map fst q)"
  shows "js_get p i = js_get q i"
proof -
  have get: "\<exists>anns. collectUrlAnnotations (ue_ask env branch) (ue_registry env) without (map fst m) = Inr anns
      \<and> (\<exists>c. compose_one env t (fst (loadSiteDesignations db d branch)) (ann_of anns i) without i = Inr c
           \<and> js_get m i = Some (co_path c))"
    if run: "composePaths env d db t is branch without = Inr m" and mem: "i \<in> set (map fst m)" for "is" m
  proof -
    note g = composePaths_get [OF run]
    obtain e where e: "e \<in> set m" "fst e = i" using mem by auto
    have "js_map_ok m" using g(1) by (simp add: js_map_ok_def composableIds_def)
    moreover have "(i, snd e) \<in> set m" using e by (metis prod.collapse)
    ultimately have "js_get m i = Some (snd e)" by (simp add: js_get_in)
    then show ?thesis using g(2) e by (auto simp: ann_of_def)
  qed
  obtain as1 c1 where a1: "collectUrlAnnotations (ue_ask env branch) (ue_registry env) without (map fst p) = Inr as1"
      "compose_one env t (fst (loadSiteDesignations db d branch)) (ann_of as1 i) without i = Inr c1" "js_get p i = Some (co_path c1)"
    using get [OF one i(1)] by blast
  obtain as2 c2 where a2: "collectUrlAnnotations (ue_ask env branch) (ue_registry env) without (map fst q) = Inr as2"
      "compose_one env t (fst (loadSiteDesignations db d branch)) (ann_of as2 i) without i = Inr c2" "js_get q i = Some (co_path c2)"
    using get [OF two i(2)] by blast
  have say: "js_get anns i = page_annotator.merged about (ue_registry env) without (ur_ops (ue_registry env)) i None"
    if c: "collectUrlAnnotations (ue_ask env branch) (ue_registry env) without is = Inr anns" "i \<in> set is" for "is" anns
  proof -
    have "collect_from (ue_ask env branch) (ue_registry env) without is (ur_ops (ue_registry env)) [] = Inr anns"
      using c by (auto simp: collectUrlAnnotations_def split: if_splits)
    from page_annotator.collect_pagewise [OF law this c(2)] show ?thesis by (simp add: js_get_nil)
  qed
  have "ann_of as1 i = ann_of as2 i" using say [OF a1(1) i(1)] say [OF a2(1) i(2)] by (simp add: ann_of_def)
  then show ?thesis using a1 a2 by simp
qed

section \<open>Published URLs wait for the migration\<close>

lemma published_unmoved:
  assumes ok: "pages_ok db" and calm: "movesPublishedPage env d db t pageIds = Inr False"
    and r: "r \<in> set (db_pages db)" "pr_published r" and i: "pr_id r \<in> set pageIds"
  shows "\<exists>ids fresh. composePaths env d db t ids None None = Inr fresh \<and> js_get fresh (pr_id r) = Some (pr_path r)"
proof -
  define ids where "ids = map pr_id (filter (\<lambda>r. pr_published r \<and> pr_id r \<in> set pageIds) (db_pages db))"
  have mem: "pr_id r \<in> set ids" using r i by (auto simp: ids_def)
  then have "ids \<noteq> []" by auto
  then obtain fresh where fresh: "composePaths env d db t ids None None = Inr fresh"
      "\<not> list_ex (\<lambda>i. js_get (loadStoredPaths db ids) i \<noteq> js_get fresh i) ids"
    using calm unfolding movesPublishedPage_def Let_def ids_def [symmetric] by (auto simp: result_simps)
  have "js_get (loadStoredPaths db ids) (pr_id r) = js_get fresh (pr_id r)"
    using fresh(2) mem by (auto simp: list_ex_iff)
  moreover have "stored_path db (pr_id r) = Some (pr_path r)" using stored_path_row [OF ok] r by blast
  ultimately show ?thesis using fresh(1) mem by (auto simp: loadStoredPaths_get [OF ok])
qed

text \<open>The nodes a scoped read finds carry the branch of their rows.\<close>

lemma read_chains_known:
  "pages_ok db \<Longrightarrow> chain_inv db b frontier c
    \<Longrightarrow> js_get (cr_nodes (read_chains db b k frontier c)) i = Some n \<Longrightarrow> node_in db b i = Some n"
proof (induction k arbitrary: frontier c)
  case (Suc k)
  then show ?case using level_inv(1) [OF Suc.prems(1,2)] chain_invD(1) by (auto simp: Let_def split: if_splits)
qed (use chain_invD(1) in auto)

lemma scoped_node_branch:
  assumes ok: "pages_ok db" and read: "loadScopedTree db b roots = (t, sub)"
    and n: "js_get (by_id t) i = Some n" and r: "r \<in> set (db_pages db)" "pr_id r = i"
  shows "node_branch n = pr_branch r"
proof -
  define ids where "ids = js_unique roots @ loadSubtreeIds db b (js_unique roots)"
  have "t = indexTree (cr_nodes (chain_nodes db b ids))"
    using read loadPageChains_parts(1) [of db b ids]
    by (auto simp: loadScopedTree_def Let_def ids_def split: prod.splits)
  moreover have "chain_inv db b (js_unique ids) \<lparr>cr_nodes = [], cr_changed = [], cr_next = []\<rparr>"
    by (simp add: chain_inv_def js_get_nil js_map_ok_def ids_match_def)
  moreover have "js_get (cr_nodes (chain_nodes db b ids)) i = Some n"
    using n calculation(1) by (simp add: indexTree_def)
  ultimately have "node_in db b i = Some n"
    unfolding chain_nodes_def by (blast intro: read_chains_known [OF ok])
  then obtain s where s: "stored_node db b i = Some s" "node_branch n = node_branch s"
    by (auto simp: node_in_def with_pending_def split: option.splits if_splits)
  obtain q where "q \<in> set (db_pages db)" "pr_id q = i" "s = row_node (raw_node q)"
    using s(1) by (auto simp: stored_node_def js_get_def dest!: map_of_SomeD)
  moreover have "q = r" using calculation(1,2) r ok by (auto simp: pages_ok_def distinct_map inj_on_def)
  ultimately show ?thesis using s(2) by (simp add: row_node_def raw_node_def)
qed

text \<open>A recompute on a branch writes the branch's own rows only.\<close>

lemma branch_recompute_keeps:
  assumes ok: "stored_ok db" and rec: "recomputeCurrentPathsWithMoves env d db [pageId] branch = Inr (db', paths, moves)"
    and r: "r \<in> set (db_pages db)" and other: "branch \<noteq> None" "pr_branch r \<noteq> branch"
  shows "stored_path db' (pr_id r) = stored_path db (pr_id r)"
proof -
  have pok: "pages_ok db" using ok by (simp add: stored_ok_def)
  obtain t sub where t: "loadScopedTree db branch [pageId] = (t, sub)"
      "composePaths env d db t (js_unique [pageId] @ sub) branch None = Inr paths"
      "moves = path_moves t branch (loadStoredPaths db (map fst paths)) paths"
      "writeCurrentPaths (move_changes moves) db = Inr db'"
    by (rule recompute_parts [OF rec]) simp
  show ?thesis
  proof (cases "pr_id r \<in> fst ` set paths")
    case outside: False
    show ?thesis by (rule recompute_keeps_others(2) [OF ok t(2-4) outside])
  next
    case True
    then obtain p where p: "(pr_id r, p) \<in> set paths" by auto
    have "pr_id r \<in> set (map fst paths)" using True by simp
    then obtain n where n: "js_get (by_id t) (pr_id r) = Some n"
      unfolding composePaths_get(1) [OF t(2)] by (auto simp: composableIds_def)
    have "stored_path db (pr_id r) \<noteq> None" using stored_path_row [OF pok, of "pr_id r" "pr_path r"] r by auto
    then show ?thesis
      using recompute_stores_composed(2) [OF ok t(2-4) p] scoped_node_branch [OF pok t(1) n r refl] other n by simp
  qed
qed

lemma main_refresh_keeps_published:
  assumes ok: "stored_ok db" and law: "page_annotator (ue_ask env None) about"
    and held: "refresh_held env d db False pageId = Inr False"
    and rec: "recomputeCurrentPathsWithMoves env d db [pageId] None = Inr (db', paths, moves)"
    and r: "r \<in> set (db_pages db)" "pr_published r"
  shows "stored_path db' (pr_id r) = stored_path db (pr_id r)"
proof -
  have pok: "pages_ok db" using ok by (simp add: stored_ok_def)
  have now: "stored_path db (pr_id r) = Some (pr_path r)" using stored_path_row [OF pok] r by blast
  obtain t sub where t: "loadScopedTree db None [pageId] = (t, sub)"
      "composePaths env d db t (js_unique [pageId] @ sub) None None = Inr paths"
      "moves = path_moves t None (loadStoredPaths db (map fst paths)) paths"
      "writeCurrentPaths (move_changes moves) db = Inr db'"
    by (rule recompute_parts [OF rec]) simp
  have calm: "movesPublishedPage env d db t (pageId # sub) = Inr False"
    using held t(1)
    by (cases "movesPublishedPage env d db t (pageId # sub)") (auto simp: refresh_held_def split: bool.splits)
  show ?thesis
  proof (cases "pr_id r \<in> fst ` set paths")
    case outside: False
    show ?thesis by (rule recompute_keeps_others(2) [OF ok t(2-4) outside])
  next
    case True
    then obtain p where p: "(pr_id r, p) \<in> set paths" by auto
    have key: "pr_id r \<in> set (map fst paths)" using True by simp
    then have "pr_id r \<in> set (pageId # sub)"
      unfolding composePaths_get(1) [OF t(2)] by (auto simp: composableIds_def js_unique_def)
    from published_unmoved [OF pok calm r this] obtain ids fresh
      where fresh: "composePaths env d db t ids None None = Inr fresh" "js_get fresh (pr_id r) = Some (pr_path r)"
      by blast
    have "pr_id r \<in> set (map fst fresh)" using fresh(2) by (force simp: js_get_def dest: map_of_SomeD)
    then have "js_get paths (pr_id r) = js_get fresh (pr_id r)"
      by (rule compositions_agree [OF law t(2) fresh(1) key])
    then show ?thesis using recompute_stores_composed [OF ok t(2-4) p] fresh(2) now by simp
  qed
qed

text \<open>C17. A refresh by anyone but a plugin never moves a published page that the caller's own
  branch does not hold: whatever changed since its path was stored, after the refresh of any page,
  on main or from a chat, it stores the path it had, so that its public URL moves only with an
  approved migration; and refreshing such a page itself from a chat changes neither paths nor
  redirects.  The plugins are asked to answer page by page.\<close>

theorem refresh_keeps_published_urls:
  assumes ok: "stored_ok db" and law: "page_annotator (ue_ask env None) about"
    and run: "refreshCurrentPath parse_url env d actor False branch choice pageId (db, store) = Inr ((db', store'), answer)"
    and r: "r \<in> set (db_pages db)" "pr_published r" and other: "branch = None \<or> pr_branch r \<noteq> branch"
  shows "stored_path db' (pr_id r) = Some (pr_path r)
    \<and> (branch \<noteq> None \<and> pr_id r = pageId \<longrightarrow> db' = db \<and> store' = store \<and> \<not> ra_moved answer)"
proof -
  have pok: "pages_ok db" using ok by (simp add: stored_ok_def)
  have now: "stored_path db (pr_id r) = Some (pr_path r)" using stored_path_row [OF pok] r by blast
  obtain row where row: "find (\<lambda>r. pr_id r = pageId \<and> \<not> pr_deleted r) (db_pages db) = Some row"
    using run by (auto simp: refreshCurrentPath_def split: option.splits)
  show ?thesis
  proof (cases "branch \<noteq> None \<and> pr_branch row \<noteq> branch")
    case True
    then have "db' = db" "store' = store" "\<not> ra_moved answer"
      using run row by (auto simp: refreshCurrentPath_def split: sum.splits)
    then show ?thesis using now by simp
  next
    case False
    have self: "\<not> (branch \<noteq> None \<and> pr_id r = pageId)"
    proof
      assume here: "branch \<noteq> None \<and> pr_id r = pageId"
      have "row \<in> set (db_pages db)" "pr_id row = pageId" using row by (auto simp: find_Some_iff)
      then have "row = r" using here r(1) pok by (auto simp: pages_ok_def distinct_map inj_on_def)
      then show False using False here other by simp
    qed
    obtain held where held: "refresh_held env d db False pageId = Inr held"
      using run row False by (auto simp: refreshCurrentPath_def result_simps split: if_splits)
    have "stored_path db' (pr_id r) = stored_path db (pr_id r)"
    proof (cases held)
      case True
      then have "db' = db" using run row held False by (auto simp: refreshCurrentPath_def result_simps split: if_splits)
      then show ?thesis by simp
    next
      case go: False
      then obtain paths moves where rec: "recomputeCurrentPathsWithMoves env d db [pageId] branch = Inr (db', paths, moves)"
        using run row held False
        by (auto simp: refreshCurrentPath_def result_simps require_Inr split: option.splits sum.splits if_splits)
      show ?thesis
      proof (cases branch)
        case None
        then show ?thesis
          using main_refresh_keeps_published [OF ok law _ _ r] held go rec by simp
      next
        case (Some b)
        then show ?thesis using branch_recompute_keeps [OF ok rec r(1)] other by simp
      qed
    qed
    then have "stored_path db' (pr_id r) = Some (pr_path r)" using now by simp
    then show ?thesis using self by blast
  qed
qed

section \<open>A merge moves only what it caused\<close>

lemma update_path_other:
  assumes ok: "pages_ok db" and run: "update_path j f db = Inr db'"
  shows "pages_ok db'" "i \<noteq> j \<Longrightarrow> stored_path db' i = stored_path db i"
proof -
  have db': "db' = db\<lparr>db_pages := map (set_row_path j f) (db_pages db)\<rparr>" by (rule update_path_result [OF ok run])
  then show ok': "pages_ok db'" using ok pages_ok_map [of "set_row_path j f" db] by simp
  assume "i \<noteq> j"
  then have "(stored_path db' i = Some p) = (stored_path db i = Some p)" for p
    unfolding stored_path_row [OF ok] stored_path_row [OF ok'] by (auto simp: db' set_row_path_def)
  then show "stored_path db' i = stored_path db i" by (metis not_Some_eq)
qed

lemma vacate_keeps_others:
  "pages_ok db \<Longrightarrow> vacate_paths cs db = Inr db' \<Longrightarrow> i \<notin> fst ` set cs
    \<Longrightarrow> pages_ok db' \<and> stored_path db' i = stored_path db i"
proof (induction cs arbitrary: db)
  case (Cons c cs)
  then obtain db1 where one: "update_path (fst c) (\<lambda>p. p @ moving_mark (fst c)) db = Inr db1" "vacate_paths cs db1 = Inr db'"
    by (auto simp: result_simps)
  show ?case using Cons.IH [OF update_path_other(1) [OF Cons.prems(1) one(1)] one(2)]
      update_path_other(2) [OF Cons.prems(1) one(1), of i] Cons.prems(3) by simp
qed simp

lemma claim_keeps_others:
  "pages_ok db \<Longrightarrow> claim_paths cs db = Inr db' \<Longrightarrow> i \<notin> fst ` set cs
    \<Longrightarrow> pages_ok db' \<and> stored_path db' i = stored_path db i"
proof (induction cs arbitrary: db)
  case (Cons c cs)
  then obtain db1 where one: "update_path (fst c) (\<lambda>_. snd c) db = Inr db1" "claim_paths cs db1 = Inr db'"
    by (auto simp: result_simps)
  show ?case using Cons.IH [OF update_path_other(1) [OF Cons.prems(1) one(1)] one(2)]
      update_path_other(2) [OF Cons.prems(1) one(1), of i] Cons.prems(3) by simp
qed simp

lemma write_keeps_others:
  assumes "pages_ok db" "writeCurrentPaths cs db = Inr db'" "i \<notin> fst ` set cs"
  shows "stored_path db' i = stored_path db i"
proof -
  obtain db1 where db1: "vacate_paths cs db = Inr db1" "claim_paths cs db1 = Inr db'"
    using assms(2) by (auto simp: writeCurrentPaths_def result_simps)
  show ?thesis
    using vacate_keeps_others [OF assms(1) db1(1) assms(3)] claim_keeps_others [OF _ db1(2) assms(3)] by simp
qed

lemma stored_moves_pages: "mv_page ` set (stored_moves stored composed) \<subseteq> fst ` set composed"
  by (force simp: stored_moves_def List.map_filter_def split: option.splits if_splits)

text \<open>C21. A merge leaves to the URL migration what it did not cause.  When a merge applied
  plugin rows, a page that composes after them as it did before, that is not new with the
  merge and is neither a replayed page nor below one, keeps its stored path and is not
  reported as moved, even when that path differs from its composition.\<close>

theorem drifting_pages_wait_for_migration:
  assumes ok: "pages_ok db" and rows: "mi_before inp = Some before"
    and after: "composePathsOutsideTransaction env (loadPageTree db None True) (map fst (by_id (loadPageTree db None True)))
        (fst (loadSiteDesignations db d None)) (Some b) = Inr withMerge"
    and same: "js_get withMerge i = js_get before i" and old: "i \<notin> set (mi_new inp)"
    and out: "i \<notin> set (mi_replayed inp)" "\<not> below (loadPageTree db None True) (mi_replayed inp) i"
    and run: "refreshLivePathsAfterMerge parse_url env d actor host_loaded b inp (db, store) = Inr ((db', store'), moved)"
  shows "stored_path db' i = stored_path db i \<and> i \<notin> set moved"
proof -
  define t where "t = loadPageTree db None True"
  define roots where "roots = filter (\<lambda>i. js_get (by_id t) i \<noteq> None) (mi_replayed inp)"
  have replayed: "i \<notin> set (roots @ descendantIdsOf t roots)"
  proof -
    have "below t (mi_replayed inp) i" if "below t roots i"
      using that by (induction rule: below.induct) (auto simp: roots_def intro: below.intros)
    then show ?thesis
      using out descendants_iff [OF loadPageTree_ok [OF ok], of i None True roots] by (auto simp: t_def roots_def)
  qed
  obtain composed where composed: "merge_composed env d host_loaded b inp db = Inr composed"
    using run by (auto simp: refreshLivePathsAfterMerge_def result_simps)
  then have "composed = filter (\<lambda>e. fst e \<in> set ((roots @ descendantIdsOf t roots) @ mi_new inp
      @ filter (\<lambda>i. js_get withMerge i \<noteq> js_get before i) (map fst (by_id t)))) withMerge"
    using after by (simp add: merge_composed_def rows require_Inr Let_def t_def roots_def)
  then have "i \<notin> fst ` set composed" using same old replayed by auto
  then have quiet: "i \<notin> mv_page ` set (stored_moves stored composed)" for stored
    using stored_moves_pages by blast
  show ?thesis
  proof (cases "composed = []")
    case True
    then show ?thesis using run composed by (simp add: refreshLivePathsAfterMerge_def)
  next
    case False
    define moves where "moves = stored_moves (loadStoredPaths db (map fst composed)) composed"
    have "writeCurrentPaths (move_changes moves) db = Inr db'" "moved = map mv_page moves"
      using run composed False
      by (auto simp: refreshLivePathsAfterMerge_def Let_def moves_def [symmetric] split: sum.splits)
    moreover have "i \<notin> fst ` set (move_changes moves)"
      using quiet by (simp add: move_changes_def moves_def image_image)
    ultimately show ?thesis using write_keeps_others [OF ok] quiet by (simp add: moves_def)
  qed
qed

section \<open>Worked examples\<close>

text \<open>An unpublished page was renamed and has a page below it: refreshing it moves the two,
  while the published pages keep their URLs.\<close>

definition draft_pages :: page_db where
  "draft_pages = renamed_pages\<lparr>db_pages :=
     map (\<lambda>r. r\<lparr>pr_published := pr_id r \<notin> {''a'', ''b''}\<rparr>) (db_pages renamed_pages)\<rparr>"

definition no_redirects :: redirect_store where
  "no_redirects = \<lparr>rs_rows = [], rs_static = [], rs_next = 0, rs_now = 0, rs_syncs = 0\<rparr>"

lemma noted_pagewise: "page_annotator (ue_ask plain_env None) (\<lambda>_ _ _. None)"
  by unfold_locales (simp add: plain_env_def)

text \<open>Refreshed on main the two pages below the rename move, the published ones stay; the same refresh
  from a chat changes nothing.\<close>

lemma refresh_keeps_published_urls_witness:
  "(\<exists>db' store' answer. refreshCurrentPath (\<lambda>_. None) plain_env home_site ''u'' False None Auto_redirects ''a''
       (draft_pages, no_redirects) = Inr ((db', store'), answer)
     \<and> stored_path db' ''b'' = Some ''/us/team'' \<and> stored_path db' ''c'' = Some ''/jobs'')
   \<and> (\<exists>db' store' answer. refreshCurrentPath (\<lambda>_. None) plain_env home_site ''u'' False (Some ''b1'') Auto_redirects ''a''
       (renamed_pages, no_redirects) = Inr ((db', store'), answer)
     \<and> ra_path answer = ''/us'' \<and> db' = renamed_pages \<and> store' = no_redirects)"
proof -
  let ?run = "refreshCurrentPath (\<lambda>_. None) plain_env home_site ''u'' False None Auto_redirects ''a'' (draft_pages, no_redirects)"
  have "case ?run of Inl _ \<Rightarrow> False | Inr ((db', _), _) \<Rightarrow> stored_path db' ''b'' = Some ''/us/team''" by code_simp
  then obtain db' store' answer where run: "?run = Inr ((db', store'), answer)" "stored_path db' ''b'' = Some ''/us/team''"
    by (auto split: sum.splits)
  have ok: "stored_ok draft_pages" by code_simp
  have row: "db_pages draft_pages ! 3 \<in> set (db_pages draft_pages)" "pr_published (db_pages draft_pages ! 3)"
    "pr_id (db_pages draft_pages ! 3) = ''c''" "pr_path (db_pages draft_pages ! 3) = ''/jobs''"
    by code_simp+
  have "stored_path db' ''c'' = Some ''/jobs''"
    using refresh_keeps_published_urls [OF ok noted_pagewise run(1) row(1,2) disjI1 [OF refl], unfolded row] by blast
  then have main: "\<exists>db' store' answer. ?run = Inr ((db', store'), answer)
     \<and> stored_path db' ''b'' = Some ''/us/team'' \<and> stored_path db' ''c'' = Some ''/jobs''"
    using run by blast
  let ?chat = "refreshCurrentPath (\<lambda>_. None) plain_env home_site ''u'' False (Some ''b1'') Auto_redirects ''a'' (renamed_pages, no_redirects)"
  have "case ?chat of Inl _ \<Rightarrow> False | Inr (_, answer) \<Rightarrow> ra_path answer = ''/us''" by code_simp
  then obtain db2 store2 answer2 where chat: "?chat = Inr ((db2, store2), answer2)" "ra_path answer2 = ''/us''"
    by (auto split: sum.splits)
  have ok2: "stored_ok renamed_pages" by code_simp
  have row2: "db_pages renamed_pages ! 1 \<in> set (db_pages renamed_pages)" "pr_published (db_pages renamed_pages ! 1)"
    "pr_id (db_pages renamed_pages ! 1) = ''a''" "Some ''b1'' = None \<or> pr_branch (db_pages renamed_pages ! 1) \<noteq> Some ''b1''"
    by code_simp+
  have "db2 = renamed_pages \<and> store2 = no_redirects"
    using refresh_keeps_published_urls [OF ok2 noted_pagewise chat(1) row2(1,2,4)] row2(3) by simp
  then show ?thesis using main chat by blast
qed

text \<open>A chat renamed the jobs page and wrote plugin rows; the about page drifts from its stored
  path.\<close>

definition replayed_pages :: page_db where
  "replayed_pages = renamed_pages\<lparr>db_pages :=
     map (\<lambda>r. if pr_id r = ''c'' then r\<lparr>pr_slug := ''careers''\<rparr> else r) (db_pages renamed_pages)\<rparr>"

definition jobs_merge :: merge_input where
  "jobs_merge = \<lparr>mi_before = Some [(''h'', ''/''), (''a'', ''/us''), (''b'', ''/us/team''), (''c'', ''/careers'')],
     mi_replayed = [''c''], mi_new = [], mi_skip = []\<rparr>"

lemma drifting_pages_wait_for_migration_witness:
  "\<exists>db' store' moved. refreshLivePathsAfterMerge (\<lambda>_. None) plain_env home_site ''u'' True ''b1'' jobs_merge
       (replayed_pages, no_redirects) = Inr ((db', store'), moved)
     \<and> stored_path db' ''c'' = Some ''/careers'' \<and> stored_path db' ''a'' = Some ''/about''"
proof -
  let ?t = "loadPageTree replayed_pages None True"
  let ?all = "composePathsOutsideTransaction plain_env ?t (map fst (by_id ?t))
      (fst (loadSiteDesignations replayed_pages home_site None)) (Some ''b1'')"
  let ?before = "[(''h'', ''/''), (''a'', ''/us''), (''b'', ''/us/team''), (''c'', ''/careers'')]"
  let ?run = "refreshLivePathsAfterMerge (\<lambda>_. None) plain_env home_site ''u'' True ''b1'' jobs_merge (replayed_pages, no_redirects)"
  have "case ?run of Inl _ \<Rightarrow> False | Inr ((db', _), _) \<Rightarrow> stored_path db' ''c'' = Some ''/careers''" by code_simp
  then obtain db' store' moved where run: "?run = Inr ((db', store'), moved)" "stored_path db' ''c'' = Some ''/careers''"
    by (auto split: sum.splits)
  have "case ?all of Inl _ \<Rightarrow> False | Inr m \<Rightarrow> js_get m ''a'' = Some ''/us''" by code_simp
  then obtain m where m: "?all = Inr m" "js_get m ''a'' = Some ''/us''" by (auto split: sum.splits)
  have ok: "pages_ok replayed_pages" by code_simp
  have rows: "mi_before jobs_merge = Some ?before" by (simp add: jobs_merge_def)
  have same: "js_get m ''a'' = js_get ?before ''a''" unfolding m(2) by code_simp
  have old: "''a'' \<notin> set (mi_new jobs_merge)" and out: "''a'' \<notin> set (mi_replayed jobs_merge)" by code_simp+
  have "''a'' \<notin> set (descendantIdsOf ?t (mi_replayed jobs_merge))" by code_simp
  then have far: "\<not> below ?t (mi_replayed jobs_merge) ''a''" using out descendants_iff [OF loadPageTree_ok [OF ok]] by blast
  have "stored_path replayed_pages ''a'' = Some ''/about''" by code_simp
  then show ?thesis
    using drifting_pages_wait_for_migration [OF ok rows m(1) same old out far run(1)] run by auto
qed

end
