(* ===== verification/Page_Move_Plan.thy ===== *)
theory Page_Move_Plan
  imports Path_Writes
begin

text \<open>
  Planning a set of tree changes before anything is written
  (packages/admin-core/src/ops/content/page-move-plan.ts): the changes are applied to a copy
  of the tree, the structural rules are checked, every affected page is composed in the
  what-if tree, and a path two pages would share is refused.  An accepted plan is proved to
  keep the tree proper and its paths free.
\<close>

section \<open>Changes and plans\<close>

text \<open>A missing parent (None) keeps the parent; null (Some None) is the top level.\<close>

record tree_change =
  tc_page :: string
  tc_parent :: "string option option"
  tc_slug :: "string option"
  tc_new :: bool

record move_plan =
  pl_affected :: "string list"
  pl_moves :: "path_move list"
  pl_paths :: "(string \<times> string) list"

datatype plan_refusal =
    Page_twice string
  | Page_not_found string
  | Parent_not_found string
  | Homepage_below string
  | Homepage_parent string
  | Would_loop string string
  | Too_deep string nat
  | Page_exists string string
  | Url_conflict string string string bool

datatype page_plan_error = Plan_refused plan_refusal | Plan_threw compose_error

fun check_changes :: "page_tree \<Rightarrow> string list \<Rightarrow> tree_change list \<Rightarrow> (plan_refusal, unit) result" where
  "check_changes t seen [] = Inr ()"
| "check_changes t seen (c # cs) =
     require (tc_page c \<notin> set seen) (Page_twice (tc_page c))
       (require (tc_new c \<or> js_get (by_id t) (tc_page c) \<noteq> None) (Page_not_found (tc_page c))
         (case tc_parent c of
            Some (Some p) \<Rightarrow>
              require (p = [] \<or> js_get (by_id t) p \<noteq> None) (Parent_not_found p)
                (check_changes t (tc_page c # seen) cs)
          | _ \<Rightarrow> check_changes t (tc_page c # seen) cs))"

text \<open>The node a change leaves, from the node it finds.\<close>

definition changed_node :: "string option \<Rightarrow> tree_change \<Rightarrow> page_node option \<Rightarrow> page_node" where
  "changed_node branch c base =
     \<lparr>node_id = tc_page c,
      node_slug = (case tc_slug c of Some s \<Rightarrow> s
                   | None \<Rightarrow> (case base of Some b \<Rightarrow> node_slug b | None \<Rightarrow> '''')),
      node_parent = (case tc_parent c of Some p \<Rightarrow> p
                     | None \<Rightarrow> (case base of Some b \<Rightarrow> node_parent b | None \<Rightarrow> None)),
      node_branch = (case base of
                       Some b \<Rightarrow> (case node_branch b of Some x \<Rightarrow> Some x | None \<Rightarrow> branch)
                     | None \<Rightarrow> branch)\<rparr>"

definition what_if :: "page_tree \<Rightarrow> string option \<Rightarrow> tree_change list \<Rightarrow> page_tree" where
  "what_if t branch changes =
     indexTree (fold (\<lambda>c m. js_set (tc_page c) (changed_node branch c (js_get m (tc_page c))) m)
       changes (by_id t))"

definition affected_ids :: "page_tree \<Rightarrow> tree_change list \<Rightarrow> string list" where
  "affected_ids w changes = map tc_page changes @ descendantIdsOf w (map tc_page changes)"

definition depthIn :: "page_tree \<Rightarrow> string \<Rightarrow> (tree_error, nat) result" where
  "depthIn t i = then_result (ancestorIdsOf t i) (\<lambda>c. Inr (length c + 1))"

section \<open>The checks\<close>

definition shown_path :: "(string \<times> composed_path) list \<Rightarrow> string \<Rightarrow> string" where
  "shown_path m i = (case js_get m i of Some c \<Rightarrow> co_path c | None \<Rightarrow> i)"

definition is_root_in :: "(string \<times> composed_path) list \<Rightarrow> string \<Rightarrow> bool" where
  "is_root_in m i = (case js_get m i of Some c \<Rightarrow> co_root c | None \<Rightarrow> False)"

fun check_places ::
  "page_tree \<Rightarrow> (string \<times> composed_path) list \<Rightarrow> tree_change list \<Rightarrow> (plan_refusal, unit) result" where
  "check_places w before [] = Inr ()"
| "check_places w before (c # cs) =
     (case node_parent (the (js_get (by_id w) (tc_page c))) of
        None \<Rightarrow> check_places w before cs
      | Some p \<Rightarrow>
          require (tc_new c \<or> \<not> is_root_in before (tc_page c)) (Homepage_below (shown_path before (tc_page c)))
            (require (\<not> is_root_in before p) (Homepage_parent (shown_path before p))
              (case ancestorIdsOf w (tc_page c) of
                 Inl _ \<Rightarrow> Inl (Would_loop (shown_path before (tc_page c)) (shown_path before p))
               | Inr _ \<Rightarrow> check_places w before cs)))"

fun check_depths ::
  "page_tree \<Rightarrow> (string \<times> composed_path) list \<Rightarrow> string list \<Rightarrow> (page_plan_error, unit) result" where
  "check_depths w before [] = Inr ()"
| "check_depths w before (i # is) =
     (case depthIn w i of
        Inl e \<Rightarrow> Inl (Plan_threw (Tree_broken e))
      | Inr depth \<Rightarrow>
          require (depth \<le> MAX_PAGE_DEPTH) (Plan_refused (Too_deep (shown_path before i) depth))
            (check_depths w before is))"

section \<open>Who holds a path\<close>

definition loadVisiblePaths :: "page_db \<Rightarrow> string option \<Rightarrow> (string \<times> string) list" where
  "loadVisiblePaths db chatBranchId =
     fold (\<lambda>r m. js_set (pr_id r) (pr_path r) m) (filter (visible_row chatBranchId) (db_pages db)) []"

definition held_path ::
  "(string \<times> composed_path) list \<Rightarrow> (string \<times> string) list \<Rightarrow> string \<Rightarrow> string option" where
  "held_path after stored i =
     (case js_get after i of Some c \<Rightarrow> Some (co_path c) | None \<Rightarrow> js_get stored i)"

definition path_holders ::
  "page_tree \<Rightarrow> string list \<Rightarrow> (string \<times> composed_path) list \<Rightarrow> (string \<times> string) list
    \<Rightarrow> (string \<times> string) list" where
  "path_holders t affected after stored =
     fold (\<lambda>i m. if i \<in> set affected then m
                 else (case held_path after stored i of Some p \<Rightarrow> js_set p i m | None \<Rightarrow> m))
       (map fst (by_id t)) []"

definition requested_change :: "tree_change list \<Rightarrow> string \<Rightarrow> tree_change option" where
  "requested_change changes i = find (\<lambda>c. tc_page c = i) changes"

fun claim_targets ::
  "tree_change list \<Rightarrow> (string \<times> composed_path) list \<Rightarrow> (string \<times> composed_path) list
    \<Rightarrow> (string \<times> string) list \<Rightarrow> string list \<Rightarrow> (string \<times> string) list \<Rightarrow> (plan_refusal, unit) result" where
  "claim_targets changes before after holders [] claimed = Inr ()"
| "claim_targets changes before after holders (i # is) claimed =
     (case js_get after i of
        None \<Rightarrow> claim_targets changes before after holders is claimed
      | Some c \<Rightarrow>
          (case (case js_get holders (co_path c) of Some h \<Rightarrow> Some h | None \<Rightarrow> js_get claimed (co_path c)) of
             None \<Rightarrow> claim_targets changes before after holders is (js_set (co_path c) i claimed)
           | Some clash \<Rightarrow>
               if (case requested_change changes i of Some ch \<Rightarrow> tc_new ch | None \<Rightarrow> False)
               then Inl (Page_exists (co_path c) clash)
               else Inl (Url_conflict
                      (case js_get before i of Some b \<Rightarrow> co_path b | None \<Rightarrow> ''the new page'')
                      (co_path c) clash (requested_change changes i \<noteq> None))))"

definition planned_paths :: "(string \<times> composed_path) list \<Rightarrow> string list \<Rightarrow> (string \<times> string) list" where
  "planned_paths after affected =
     fold (\<lambda>i m. case js_get after i of None \<Rightarrow> m | Some c \<Rightarrow> js_set i (co_path c) m) affected []"

definition planned_move ::
  "(string \<times> composed_path) list \<Rightarrow> (string \<times> composed_path) list \<Rightarrow> string \<Rightarrow> path_move option" where
  "planned_move before after i =
     (case (js_get after i, js_get before i) of
        (Some a, Some b) \<Rightarrow>
          if co_path b \<noteq> co_path a then Some \<lparr>mv_page = i, mv_from = co_path b, mv_to = co_path a\<rparr> else None
      | _ \<Rightarrow> None)"

definition planPageMoves ::
  "url_env \<Rightarrow> site_defaults \<Rightarrow> page_db \<Rightarrow> string option \<Rightarrow> tree_change list
    \<Rightarrow> (page_plan_error, move_plan) result" where
  "planPageMoves env d db branch changes =
     (let t = loadPageTree db branch True
      in case check_changes t [] changes of
           Inl e \<Rightarrow> Inl (Plan_refused e)
         | Inr _ \<Rightarrow>
             (let w = what_if t branch changes;
                  affected = affected_ids w changes;
                  drifted = (case branch of Some b \<Rightarrow> pendingDriftIds db t b | None \<Rightarrow> []);
                  parents = List.map_filter (\<lambda>c. node_parent (the (js_get (by_id w) (tc_page c)))) changes
              in case composePathsDetailed env d db t (affected @ parents @ drifted) branch None of
                   Inl e \<Rightarrow> Inl (Plan_threw e)
                 | Inr before \<Rightarrow>
                     (case check_places w before changes of
                        Inl e \<Rightarrow> Inl (Plan_refused e)
                      | Inr _ \<Rightarrow>
                          then_result (check_depths w before affected) (\<lambda>_.
                            (case composePathsDetailed env d db w (affected @ drifted) branch None of
                               Inl e \<Rightarrow> Inl (Plan_threw e)
                             | Inr after \<Rightarrow>
                                 (case claim_targets changes before after
                                         (path_holders t affected after (loadVisiblePaths db branch)) affected [] of
                                    Inl e \<Rightarrow> Inl (Plan_refused e)
                                  | Inr _ \<Rightarrow>
                                      Inr \<lparr>pl_affected = affected,
                                           pl_moves = List.map_filter (planned_move before after) affected,
                                           pl_paths = planned_paths after affected\<rparr>))))))"

section \<open>The what-if tree\<close>

lemma check_changes_ok:
  "check_changes t seen changes = Inr u \<Longrightarrow> distinct (map tc_page changes) \<and> tc_page ` set changes \<inter> set seen = {}
     \<and> (\<forall>c \<in> set changes. tc_new c \<or> js_get (by_id t) (tc_page c) \<noteq> None)"
  by (induction t seen changes rule: check_changes.induct)
     (auto simp: require_Inr split: option.splits)

lemma requested_change_None: "(requested_change changes i = None) = (i \<notin> tc_page ` set changes)"
  by (auto simp: requested_change_def find_None_iff)

lemma changed_node_id [simp]: "node_id (changed_node branch c base) = tc_page c"
  by (simp add: changed_node_def)

lemma what_if_get:
  assumes "distinct (map tc_page changes)"
  shows "js_get (by_id (what_if t branch changes)) i =
     (case requested_change changes i of
        Some c \<Rightarrow> Some (changed_node branch c (js_get (by_id t) i))
      | None \<Rightarrow> js_get (by_id t) i)"
proof -
  have "js_get (fold (\<lambda>c m. js_set (tc_page c) (changed_node branch c (js_get m (tc_page c))) m) changes m) i =
     (case requested_change changes i of
        Some c \<Rightarrow> Some (changed_node branch c (js_get m i))
      | None \<Rightarrow> js_get m i)" for m
    using assms
  proof (induction changes arbitrary: m)
    case (Cons c cs)
    have none: "requested_change cs i = None" if "tc_page c = i"
      using Cons.prems that by (simp add: requested_change_None)
    show ?case
      using Cons none by (cases "tc_page c = i") (simp_all add: requested_change_def js_map_simps split: option.splits)
  qed (simp add: requested_change_def)
  then show ?thesis by (simp add: what_if_def)
qed

lemma requested_change_Some: "requested_change changes i = Some c \<Longrightarrow> c \<in> set changes \<and> tc_page c = i"
  by (auto simp: requested_change_def find_Some_iff)

lemma what_if_ok:
  assumes "tree_ok t"
  shows "tree_ok (what_if t branch changes)"
proof -
  have "js_map_ok (fold (\<lambda>c m. js_set (tc_page c) (changed_node branch c (js_get m (tc_page c))) m) changes m)
      \<and> (\<forall>e \<in> set (fold (\<lambda>c m. js_set (tc_page c) (changed_node branch c (js_get m (tc_page c))) m) changes m).
           node_id (snd e) = fst e)"
    if "js_map_ok m" "\<forall>e \<in> set m. node_id (snd e) = fst e" for m
    using that
  proof (induction changes arbitrary: m)
    case (Cons c cs)
    let ?m = "js_set (tc_page c) (changed_node branch c (js_get m (tc_page c))) m"
    have ok: "js_map_ok ?m" by (rule js_map_ok_set [OF Cons.prems(1)])
    have "node_id (snd e) = fst e" if e: "e \<in> set ?m" for e
    proof -
      have "js_get ?m (fst e) = Some (snd e)" using e js_get_in [OF ok, of "fst e" "snd e"] by simp
      then show ?thesis
        using Cons.prems by (auto simp: js_map_simps js_get_in [OF Cons.prems(1)] split: if_splits dest!: sym [of _ "snd e"])
    qed
    then show ?case using Cons.IH [OF ok] by simp
  qed simp
  from this [of "by_id t"] show ?thesis using assms by (simp add: tree_ok_def what_if_def)
qed

lemma plan_parts:
  assumes "planPageMoves env d db branch changes = Inr plan"
  obtains before after where
    "check_changes (loadPageTree db branch True) [] changes = Inr ()"
    "check_places (what_if (loadPageTree db branch True) branch changes) before changes = Inr ()"
    "check_depths (what_if (loadPageTree db branch True) branch changes) before
       (affected_ids (what_if (loadPageTree db branch True) branch changes) changes) = Inr ()"
    "composePathsDetailed env d db (what_if (loadPageTree db branch True) branch changes)
       (affected_ids (what_if (loadPageTree db branch True) branch changes) changes
        @ (case branch of Some b \<Rightarrow> pendingDriftIds db (loadPageTree db branch True) b | None \<Rightarrow> [])) branch None = Inr after"
    "claim_targets changes before after
       (path_holders (loadPageTree db branch True)
          (affected_ids (what_if (loadPageTree db branch True) branch changes) changes) after (loadVisiblePaths db branch))
       (affected_ids (what_if (loadPageTree db branch True) branch changes) changes) [] = Inr ()"
    "plan = \<lparr>pl_affected = affected_ids (what_if (loadPageTree db branch True) branch changes) changes,
             pl_moves = List.map_filter (planned_move before after)
               (affected_ids (what_if (loadPageTree db branch True) branch changes) changes),
             pl_paths = planned_paths after (affected_ids (what_if (loadPageTree db branch True) branch changes) changes)\<rparr>"
  using assms unfolding planPageMoves_def Let_def
  by (auto simp: result_simps split: sum.splits)

section \<open>An accepted plan keeps the tree proper\<close>

lemma check_depths_ok:
  "check_depths w before is = Inr u \<Longrightarrow> i \<in> set is \<Longrightarrow> \<exists>c. ancestorIdsOf w i = Inr c \<and> length c < MAX_PAGE_DEPTH"
  by (induction w before "is" rule: check_depths.induct)
     (auto simp: depthIn_def result_simps Suc_le_eq split: sum.splits)

lemma accepted_tree_proper:
  assumes ok: "tree_ok t" and proper: "proper_tree t" and dist: "distinct (map tc_page changes)"
    and depths: "check_depths (what_if t branch changes) before (affected_ids (what_if t branch changes) changes) = Inr u"
  shows "proper_tree (what_if t branch changes)"
    and "i \<notin> set (affected_ids (what_if t branch changes) changes) \<Longrightarrow> js_get (by_id t) i = Some n
      \<Longrightarrow> ancestorIdsOf (what_if t branch changes) i = ancestorIdsOf t i"
proof -
  define w where "w = what_if t branch changes"
  define roots where "roots = map tc_page changes"
  have wok: "tree_ok w" unfolding w_def by (rule what_if_ok [OF ok])
  have aff: "\<exists>c. climbs w i c \<and> length c \<le> MAX_PAGE_DEPTH"
    if i: "js_get (by_id w) i = Some n" and a: "i \<in> set roots \<or> below w roots i" for i n
  proof -
    have "i \<in> set (affected_ids w changes)"
      using a descendants_iff [OF wok, of i roots] by (auto simp: affected_ids_def roots_def)
    then obtain c where "ancestorIdsOf w i = Inr c" "length c < MAX_PAGE_DEPTH"
      using check_depths_ok [OF depths, of i] by (auto simp: w_def)
    then have "climbs w i (c @ [i])" "length (c @ [i]) \<le> MAX_PAGE_DEPTH"
      using ancestor_chain [OF i, of c] by auto
    then show ?thesis by blast
  qed
  have same: "js_get (by_id w) i = js_get (by_id t) i" if "i \<notin> set roots" for i
    using that what_if_get [OF dist, of t branch i] requested_change_None [of changes i] by (simp add: w_def roots_def)
  have keep: "climbs w i c" if "climbs t i c" "i \<notin> set roots" "\<not> below w roots i" for i c
    using that
  proof (induction rule: climbs.induct)
    case (top i n)
    then show ?case using same [of i] by (intro climbs.top) simp_all
  next
    case (step i n p c)
    have n: "js_get (by_id w) i = Some n" using same [of i] step by simp
    then have par: "parent_of w i = Some p" using step by (simp add: parent_of_def)
    then have "p \<notin> set roots" "\<not> below w roots p" using step.prems below.child below.deeper by blast+
    then show ?case using step.IH climbs.step [OF n step.hyps(2)] by simp
  qed
  have "\<exists>c. climbs w i c \<and> length c \<le> MAX_PAGE_DEPTH" if i: "js_get (by_id w) i = Some n" for i n
  proof (cases "i \<in> set roots \<or> below w roots i")
    case False
    then have "js_get (by_id t) i = Some n" using same [of i] i by simp
    then obtain c where "climbs t i (c @ [i])" "length c < MAX_PAGE_DEPTH" using proper_climbs [OF proper] by blast
    then show ?thesis using keep [of i "c @ [i]"] False by (intro exI [of _ "c @ [i]"]) simp
  qed (rule aff [OF i])
  moreover have "js_map_ok (by_id w)" using wok by (simp add: tree_ok_def)
  ultimately show "proper_tree (what_if t branch changes)" unfolding w_def [symmetric] by (intro proper_treeI)
  show "ancestorIdsOf (what_if t branch changes) i = ancestorIdsOf t i"
    if i: "i \<notin> set (affected_ids (what_if t branch changes) changes)" "js_get (by_id t) i = Some n"
  proof -
    have out: "i \<notin> set roots" "\<not> below w roots i"
      using i(1) descendants_iff [OF wok, of i roots] by (auto simp: affected_ids_def roots_def w_def)
    obtain c where c: "climbs t i (c @ [i])" "ancestorIdsOf t i = Inr c" using proper_climbs [OF proper i(2)] by blast
    have "js_get (by_id w) i = Some n" using same [OF out(1)] i(2) by simp
    then have "ancestorIdsOf w i = Inr c" using ancestor_chain keep [OF c(1) out] by blast
    then show ?thesis using c(2) by (simp add: w_def)
  qed
qed

section \<open>An accepted plan's paths are free\<close>

lemma claim_targets_free:
  assumes "claim_targets changes before after holders is claimed = Inr u" "i \<in> set is" "js_get after i = Some c"
  shows "js_get holders (co_path c) = None" "js_get claimed (co_path c) = None"
proof -
  have "js_get holders (co_path c) = None \<and> js_get claimed (co_path c) = None"
    using assms
  proof (induction "is" arbitrary: claimed)
    case (Cons k ks)
    show ?case
    proof (cases "i \<in> set ks")
      case True
      show ?thesis
      proof (cases "js_get after k")
        case None
        then show ?thesis using Cons True by simp
      next
        case (Some e)
        then have "claim_targets changes before after holders ks (js_set (co_path e) k claimed) = Inr u"
          using Cons.prems(1) by (auto split: option.splits if_splits)
        from Cons.IH [OF this True Cons.prems(3)] show ?thesis by (auto simp: js_map_simps split: if_splits)
      qed
    next
      case False
      then show ?thesis using Cons.prems by (auto split: option.splits if_splits)
    qed
  qed simp
  then show "js_get holders (co_path c) = None" "js_get claimed (co_path c) = None" by simp_all
qed

lemma claim_targets_apart:
  assumes "claim_targets changes before after holders is claimed = Inr u" "distinct is"
    and "i \<in> set is" "j \<in> set is" "js_get after i = Some a" "js_get after j = Some b" "co_path a = co_path b"
  shows "i = j"
  using assms
proof (induction "is" arbitrary: claimed)
  case (Cons k ks)
  show ?case
  proof (cases "js_get after k")
    case None
    then show ?thesis using Cons by auto
  next
    case (Some c)
    then have rest: "claim_targets changes before after holders ks (js_set (co_path c) k claimed) = Inr u"
      using Cons.prems(1) by (auto split: option.splits if_splits)
    have other: "co_path e \<noteq> co_path c" if "x \<in> set ks" "js_get after x = Some e" for x e
      using claim_targets_free(2) [OF rest that] by (auto simp: js_map_simps)
    show ?thesis
    proof (cases "i \<in> set ks \<and> j \<in> set ks")
      case True
      then show ?thesis using Cons.IH [OF rest] Cons.prems by simp
    next
      case False
      then show ?thesis using Cons.prems other Some by (metis option.inject set_ConsD)
    qed
  qed
qed simp

lemma path_holders_some:
  assumes "i \<in> set (map fst (by_id t))" "i \<notin> set affected" "held_path after stored i = Some p"
  shows "js_get (path_holders t affected after stored) p \<noteq> None"
proof -
  define step where "step = (\<lambda>i m. if i \<in> set affected then m
      else (case held_path after stored i of Some p \<Rightarrow> js_set p i m | None \<Rightarrow> m))"
  have grow: "js_get (step k m) q \<noteq> None" if "js_get m q \<noteq> None" for k m q
    using that by (auto simp: step_def js_map_simps split: option.splits)
  have keep: "js_get (fold step ks m) q \<noteq> None" if "js_get m q \<noteq> None" for ks m q
    using that grow by (induction ks arbitrary: m) simp_all
  have "js_get (fold step ks m) p \<noteq> None" if "i \<in> set ks" for ks m
    using that
  proof (induction ks arbitrary: m)
    case (Cons k ks)
    show ?case
    proof (cases "k = i")
      case True
      then have "js_get (step k m) p \<noteq> None" using assms(2,3) by (simp add: step_def js_map_simps)
      then show ?thesis using keep by simp
    next
      case False
      then show ?thesis using Cons by simp
    qed
  qed simp
  then show ?thesis using assms(1) by (simp add: path_holders_def step_def)
qed

lemma planned_paths_get:
  "js_get (planned_paths after is) i =
     (if i \<in> set is then map_option co_path (js_get after i) else None)"
proof -
  have "js_get (fold (\<lambda>i m. case js_get after i of None \<Rightarrow> m | Some c \<Rightarrow> js_set i (co_path c) m) is m) i =
     (if i \<in> set is \<and> js_get after i \<noteq> None then map_option co_path (js_get after i) else js_get m i)" for m
    by (induction "is" arbitrary: m) (auto simp: js_map_simps split: option.splits)
  then show ?thesis by (simp add: planned_paths_def js_get_nil)
qed

lemma affected_distinct: "distinct (map tc_page changes) \<Longrightarrow> tree_ok w \<Longrightarrow> distinct (affected_ids w changes)"
  by (auto simp: affected_ids_def descendantIdsOf_distinct descendants_iff)

lemma accepted_paths:
  assumes ok: "pages_ok db" and plan: "planPageMoves env d db branch changes = Inr plan"
  obtains after where
    "composePathsDetailed env d db (what_if (loadPageTree db branch True) branch changes)
       (pl_affected plan
        @ (case branch of Some b \<Rightarrow> pendingDriftIds db (loadPageTree db branch True) b | None \<Rightarrow> [])) branch None = Inr after"
    "pl_affected plan = affected_ids (what_if (loadPageTree db branch True) branch changes) changes"
    "\<And>i. js_get (pl_paths plan) i =
       (if i \<in> set (pl_affected plan) then map_option co_path (js_get after i) else None)"
    "\<And>i j p. js_get (pl_paths plan) i = Some p \<Longrightarrow> js_get (pl_paths plan) j = Some p \<Longrightarrow> i = j"
    "\<And>i j p. i \<in> set (map fst (by_id (loadPageTree db branch True))) \<Longrightarrow> i \<notin> set (pl_affected plan)
       \<Longrightarrow> held_path after (loadVisiblePaths db branch) i = Some p \<Longrightarrow> js_get (pl_paths plan) j \<noteq> Some p"
proof (rule plan_parts [OF plan])
  fix before after
  define t where "t = loadPageTree db branch True"
  define w where "w = what_if t branch changes"
  define holders where "holders = path_holders t (affected_ids w changes) after (loadVisiblePaths db branch)"
  assume checked: "check_changes (loadPageTree db branch True) [] changes = Inr ()"
    and comp: "composePathsDetailed env d db (what_if (loadPageTree db branch True) branch changes)
       (affected_ids (what_if (loadPageTree db branch True) branch changes) changes
        @ (case branch of Some b \<Rightarrow> pendingDriftIds db (loadPageTree db branch True) b | None \<Rightarrow> [])) branch None = Inr after"
    and claims: "claim_targets changes before after
       (path_holders (loadPageTree db branch True)
          (affected_ids (what_if (loadPageTree db branch True) branch changes) changes) after (loadVisiblePaths db branch))
       (affected_ids (what_if (loadPageTree db branch True) branch changes) changes) [] = Inr ()"
    and out: "plan = \<lparr>pl_affected = affected_ids (what_if (loadPageTree db branch True) branch changes) changes,
             pl_moves = List.map_filter (planned_move before after)
               (affected_ids (what_if (loadPageTree db branch True) branch changes) changes),
             pl_paths = planned_paths after (affected_ids (what_if (loadPageTree db branch True) branch changes) changes)\<rparr>"
  have aff: "pl_affected plan = affected_ids w changes" and pths: "pl_paths plan = planned_paths after (affected_ids w changes)"
    by (simp_all add: out w_def t_def)
  have wok: "tree_ok w" unfolding w_def t_def by (rule what_if_ok [OF loadPageTree_ok [OF ok]])
  have dist: "distinct (affected_ids w changes)"
    using check_changes_ok [OF checked] by (intro affected_distinct wok) simp
  have cl: "claim_targets changes before after holders (affected_ids w changes) [] = Inr ()"
    using claims by (simp add: holders_def w_def t_def)
  have paths: "js_get (pl_paths plan) i = (if i \<in> set (pl_affected plan) then map_option co_path (js_get after i) else None)" for i
    by (simp add: pths aff planned_paths_get)
  have in_paths: "\<exists>a. i \<in> set (affected_ids w changes) \<and> js_get after i = Some a \<and> co_path a = p"
    if "js_get (pl_paths plan) i = Some p" for i p
    using that unfolding paths aff by (auto split: if_splits)
  have apart: "i = j" if "js_get (pl_paths plan) i = Some p" "js_get (pl_paths plan) j = Some p" for i j p
    using in_paths [OF that(1)] in_paths [OF that(2)] claim_targets_apart [OF cl dist] by blast
  have free: "js_get (pl_paths plan) j \<noteq> Some p"
    if h: "i \<in> set (map fst (by_id (loadPageTree db branch True)))" "i \<notin> set (pl_affected plan)"
      "held_path after (loadVisiblePaths db branch) i = Some p" for i j p
  proof
    assume "js_get (pl_paths plan) j = Some p"
    then obtain a where a: "j \<in> set (affected_ids w changes)" "js_get after j = Some a" "co_path a = p"
      using in_paths by blast
    have "js_get holders p \<noteq> None"
      unfolding holders_def t_def by (rule path_holders_some [OF h(1) _ h(3)]) (use h(2) aff in simp)
    then show False using claim_targets_free(1) [OF cl a(1,2)] a(3) by simp
  qed
  show thesis
    by (rule that [OF comp [folded aff [unfolded w_def t_def]] aff [unfolded w_def t_def] paths apart free])
qed

section \<open>What an accepted plan guarantees\<close>

lemma plan_checks:
  assumes "planPageMoves env d db branch changes = Inr plan"
  shows "check_changes (loadPageTree db branch True) [] changes = Inr ()
     \<and> (\<exists>before. check_depths (what_if (loadPageTree db branch True) branch changes) before
          (affected_ids (what_if (loadPageTree db branch True) branch changes) changes) = Inr ())
     \<and> pl_affected plan = affected_ids (what_if (loadPageTree db branch True) branch changes) changes"
  by (rule plan_parts [OF assms], intro conjI exI) simp_all

text \<open>C8. An accepted plan keeps the page tree proper: when every page of the scope sits at
  most six levels deep below existing parents without a loop, it still does after the
  changes, and a page that is neither changed nor below a changed page keeps its node and its
  ancestors.\<close>

theorem accepted_plan_keeps_tree_proper:
  assumes ok: "pages_ok db" and proper: "proper_tree (loadPageTree db branch True)"
    and plan: "planPageMoves env d db branch changes = Inr plan"
  shows "proper_tree (what_if (loadPageTree db branch True) branch changes)
     \<and> (\<forall>i. i \<notin> set (pl_affected plan) \<longrightarrow>
          js_get (by_id (what_if (loadPageTree db branch True) branch changes)) i = js_get (by_id (loadPageTree db branch True)) i
          \<and> (js_get (by_id (loadPageTree db branch True)) i = None
             \<or> ancestorIdsOf (what_if (loadPageTree db branch True) branch changes) i
                 = ancestorIdsOf (loadPageTree db branch True) i))"
proof (rule plan_parts [OF plan])
  fix before after
  define t where "t = loadPageTree db branch True"
  assume checked: "check_changes (loadPageTree db branch True) [] changes = Inr ()"
    and depths: "check_depths (what_if (loadPageTree db branch True) branch changes) before
       (affected_ids (what_if (loadPageTree db branch True) branch changes) changes) = Inr ()"
    and out: "plan = \<lparr>pl_affected = affected_ids (what_if (loadPageTree db branch True) branch changes) changes,
             pl_moves = List.map_filter (planned_move before after)
               (affected_ids (what_if (loadPageTree db branch True) branch changes) changes),
             pl_paths = planned_paths after (affected_ids (what_if (loadPageTree db branch True) branch changes) changes)\<rparr>"
  have dist: "distinct (map tc_page changes)" using check_changes_ok [OF checked] by simp
  have tok: "tree_ok t" unfolding t_def by (rule loadPageTree_ok [OF ok])
  note kept = accepted_tree_proper [OF tok proper [folded t_def] dist depths [folded t_def]]
  have aff: "pl_affected plan = affected_ids (what_if t branch changes) changes" by (simp add: out t_def)
  have "js_get (by_id (what_if t branch changes)) i = js_get (by_id t) i
      \<and> (js_get (by_id t) i = None \<or> ancestorIdsOf (what_if t branch changes) i = ancestorIdsOf t i)"
    if i: "i \<notin> set (pl_affected plan)" for i
  proof -
    have "requested_change changes i = None" using i by (simp add: aff affected_ids_def requested_change_None)
    then have "js_get (by_id (what_if t branch changes)) i = js_get (by_id t) i"
      by (simp add: what_if_get [OF dist])
    moreover have "ancestorIdsOf (what_if t branch changes) i = ancestorIdsOf t i" if "js_get (by_id t) i = Some n" for n
      by (rule kept(2) [OF i [unfolded aff] that])
    ultimately show ?thesis by (cases "js_get (by_id t) i") simp_all
  qed
  then show ?thesis using kept(1) unfolding t_def by blast
qed

lemma accepted_paths_hold:
  assumes ok: "pages_ok db" and plan: "planPageMoves env d db branch changes = Inr plan"
  shows "\<exists>after. composePathsDetailed env d db (what_if (loadPageTree db branch True) branch changes)
       (pl_affected plan
        @ (case branch of Some b \<Rightarrow> pendingDriftIds db (loadPageTree db branch True) b | None \<Rightarrow> [])) branch None = Inr after
     \<and> (\<forall>i. js_get (pl_paths plan) i = (if i \<in> set (pl_affected plan) then map_option co_path (js_get after i) else None))
     \<and> (\<forall>i j p. js_get (pl_paths plan) i = Some p \<and> js_get (pl_paths plan) j = Some p \<longrightarrow> i = j)
     \<and> (\<forall>i j p. i \<in> set (map fst (by_id (loadPageTree db branch True))) \<and> i \<notin> set (pl_affected plan)
          \<and> held_path after (loadVisiblePaths db branch) i = Some p \<longrightarrow> js_get (pl_paths plan) j \<noteq> Some p)"
  by (rule accepted_paths [OF ok plan], rule exI, intro conjI allI impI) (assumption | elim conjE | blast)+

text \<open>C13. The paths of an accepted plan are free: they are what composing over the changed
  tree gives the affected pages, no two of them are equal, and none is the path another
  visible page holds (the composed one when the branch's own pending edits drifted it, the
  stored one otherwise).\<close>

theorem accepted_plan_paths_are_free:
  assumes ok: "pages_ok db" and plan: "planPageMoves env d db branch changes = Inr plan"
  shows "\<exists>after. composePathsDetailed env d db (what_if (loadPageTree db branch True) branch changes)
       (pl_affected plan
        @ (case branch of Some b \<Rightarrow> pendingDriftIds db (loadPageTree db branch True) b | None \<Rightarrow> [])) branch None = Inr after
     \<and> (\<forall>i. js_get (pl_paths plan) i = (if i \<in> set (pl_affected plan) then map_option co_path (js_get after i) else None))
     \<and> (\<forall>i j p. js_get (pl_paths plan) i = Some p \<and> js_get (pl_paths plan) j = Some p \<longrightarrow> i = j)
     \<and> (\<forall>i j p. i \<in> set (map fst (by_id (loadPageTree db branch True))) \<and> i \<notin> set (pl_affected plan)
          \<and> held_path after (loadVisiblePaths db branch) i = Some p \<longrightarrow> js_get (pl_paths plan) j \<noteq> Some p)"
  using assms by (rule accepted_paths_hold)

section \<open>A worked example\<close>

text \<open>The jobs page moves below the about page and is renamed.\<close>

definition jobs_move :: "tree_change list" where
  "jobs_move = [\<lparr>tc_page = ''c'', tc_parent = Some (Some ''a''), tc_slug = Some ''careers'', tc_new = False\<rparr>]"

lemma accepted_plan_keeps_tree_proper_witness:
  "\<exists>plan. planPageMoves plain_env home_site renamed_pages None jobs_move = Inr plan
     \<and> proper_tree (what_if (loadPageTree renamed_pages None True) None jobs_move)"
proof -
  have "case planPageMoves plain_env home_site renamed_pages None jobs_move of Inl _ \<Rightarrow> False | Inr plan \<Rightarrow> True" by code_simp
  then obtain plan where plan: "planPageMoves plain_env home_site renamed_pages None jobs_move = Inr plan"
    by (auto split: sum.splits)
  have "pages_ok renamed_pages" "proper_tree (loadPageTree renamed_pages None True)" by code_simp+
  then show ?thesis using accepted_plan_keeps_tree_proper [of renamed_pages None plain_env home_site jobs_move plan] plan by blast
qed

lemma accepted_plan_paths_are_free_witness:
  "\<exists>plan. planPageMoves plain_env home_site renamed_pages None jobs_move = Inr plan
     \<and> js_get (pl_paths plan) ''c'' = Some ''/us/careers''
     \<and> \<not> (\<exists>j. j \<noteq> ''c'' \<and> js_get (pl_paths plan) j = Some ''/us/careers'')"
proof -
  have "case planPageMoves plain_env home_site renamed_pages None jobs_move of
      Inl _ \<Rightarrow> False | Inr plan \<Rightarrow> js_get (pl_paths plan) ''c'' = Some ''/us/careers''" by code_simp
  then obtain plan where plan: "planPageMoves plain_env home_site renamed_pages None jobs_move = Inr plan"
      "js_get (pl_paths plan) ''c'' = Some ''/us/careers''"
    by (auto split: sum.splits)
  have "pages_ok renamed_pages" by code_simp
  from accepted_plan_paths_are_free [OF this plan(1)] show ?thesis using plan by blast
qed

end
