(* ===== verification/Page_Moves.thy ===== *)
theory Page_Moves
  imports Page_Move_Plan Locks
begin

text \<open>
  Moving pages (packages/admin-core/src/ops/content/page-moves.ts): lock every page, plan in
  the caller's branch view, then write.  On main the rows change at once, their paths are
  recomputed and the old URLs get their redirects; on a branch the move is one pending page
  state per moved page.  An accepted plan on main is proved to go through: the recompute
  composes, the unique index never refuses, and what is stored is what was planned.
\<close>

section \<open>State\<close>

text \<open>The pages are those the operation reads once it holds its locks.\<close>

record move_state =
  ms_locks :: site_db
  ms_pages :: page_db
  ms_redirects :: redirect_store

datatype move_error =
    Lock_check_threw thrown
  | Move_blocked string LockCheckResult
  | Move_refused plan_refusal
  | Move_threw compose_error
  | Move_page_missing string
  | Chat_closed
  | Move_paths_failed path_error
  | Move_effects_failed effect_error

record move_result =
  mr_moved :: "path_move list"
  mr_pending :: bool
  mr_redirects :: nat

text \<open>The caller: the actor, the branch and its owner, the lock requests of a page, and
  whether the chat still accepts writes.\<close>

record move_call =
  mc_actor :: string
  mc_branch :: "string option"
  mc_owner :: "string option"
  mc_lock :: "string \<Rightarrow> lock_request"
  mc_open :: bool

fun lock_pages ::
  "(LockedEntityKind \<Rightarrow> string \<Rightarrow> string) \<Rightarrow> (string \<Rightarrow> lock_request) \<Rightarrow> string list \<Rightarrow> site_db
    \<Rightarrow> (move_error, site_db) result" where
  "lock_pages label req [] db = Inr db"
| "lock_pages label req (i # is) db =
     (case checkAndAcquireEntityLock label (req i) db of
        Inl e \<Rightarrow> Inl (Lock_check_threw e)
      | Inr (r, db') \<Rightarrow>
          (case r of
             Permitted _ \<Rightarrow> lock_pages label req is db'
           | _ \<Rightarrow> Inl (Move_blocked i r)))"

section \<open>On a branch\<close>

text \<open>The state of a page a branch write builds on: the branch's pending one, else the row's.\<close>

definition loadPageState :: "page_db \<Rightarrow> string \<Rightarrow> pending_state option" where
  "loadPageState db i =
     map_option (\<lambda>r. \<lparr>ps_slug = Some (pr_slug r), ps_parent = Some (pr_parent r), ps_deleted = pr_deleted r\<rparr>)
       (find (\<lambda>r. pr_id r = i) (db_pages db))"

definition loadPageStateWithBranchOverlay ::
  "page_db \<Rightarrow> string \<Rightarrow> string option \<Rightarrow> pending_state option" where
  "loadPageStateWithBranchOverlay db i chatBranchId =
     (case chatBranchId of
        None \<Rightarrow> loadPageState db i
      | Some b \<Rightarrow>
          (case headOverlay db b (Some [i]) of
             (_, st) # _ \<Rightarrow> Some st
           | [] \<Rightarrow> loadPageState db i))"

definition moved_state :: "tree_change \<Rightarrow> pending_state \<Rightarrow> pending_state" where
  "moved_state c base =
     \<lparr>ps_slug = (case tc_slug c of Some s \<Rightarrow> Some s | None \<Rightarrow> ps_slug base),
      ps_parent = Some (case tc_parent c of Some p \<Rightarrow> p
                        | None \<Rightarrow> (case ps_parent base of Some p \<Rightarrow> p | None \<Rightarrow> None)),
      ps_deleted = False\<rparr>"

fun moved_states ::
  "page_db \<Rightarrow> string \<Rightarrow> tree_change list \<Rightarrow> (move_error, (string \<times> pending_state) list) result" where
  "moved_states db b [] = Inr []"
| "moved_states db b (c # cs) =
     (case loadPageStateWithBranchOverlay db (tc_page c) (Some b) of
        None \<Rightarrow> Inl (Move_page_missing (tc_page c))
      | Some base \<Rightarrow>
          then_result (moved_states db b cs) (\<lambda>es. Inr ((tc_page c, moved_state c base) # es)))"

text \<open>One pending page snapshot: it is newer than every head, and replaces the head its owner
  had of the page.\<close>

definition upsert_head ::
  "string \<Rightarrow> string option \<Rightarrow> nat \<Rightarrow> string \<times> pending_state \<Rightarrow> page_db \<Rightarrow> page_db" where
  "upsert_head b own at e db =
     db\<lparr>db_heads := filter (\<lambda>h. \<not> (hd_branch h = b \<and> hd_page h = fst e \<and> hd_owner h = own)) (db_heads db)
          @ [\<lparr>hd_branch = b, hd_page = fst e, hd_at = at, hd_state = snd e, hd_owner = own\<rparr>]\<rparr>"

definition emit_pages ::
  "string \<Rightarrow> string option \<Rightarrow> (string \<times> pending_state) list \<Rightarrow> page_db \<Rightarrow> page_db" where
  "emit_pages b own entities db =
     fold (upsert_head b own (Suc (fold max (map hd_at (db_heads db)) 0))) entities db"

section \<open>On main\<close>

definition change_row :: "tree_change \<Rightarrow> page_row \<Rightarrow> page_row" where
  "change_row c r =
     (if pr_id r = tc_page c
      then r\<lparr>pr_slug := (case tc_slug c of Some s \<Rightarrow> s | None \<Rightarrow> pr_slug r),
             pr_parent := (case tc_parent c of Some p \<Rightarrow> p | None \<Rightarrow> pr_parent r)\<rparr>
      else r)"

definition write_changes :: "tree_change list \<Rightarrow> page_db \<Rightarrow> page_db" where
  "write_changes changes db = fold (\<lambda>c db. db\<lparr>db_pages := map (change_row c) (db_pages db)\<rparr>) changes db"

section \<open>The operations\<close>

definition executePageMoves ::
  "(LockedEntityKind \<Rightarrow> string \<Rightarrow> string) \<Rightarrow> url_parser \<Rightarrow> url_env \<Rightarrow> site_defaults \<Rightarrow> move_call
    \<Rightarrow> tree_change list \<Rightarrow> redirect_choice \<Rightarrow> move_state \<Rightarrow> (move_error, move_state \<times> move_result) result" where
  "executePageMoves label parse_url env d call changes choice st =
     then_result (lock_pages label (mc_lock call) (map tc_page changes) (ms_locks st)) (\<lambda>locked.
       (case planPageMoves env d (ms_pages st) (mc_branch call) changes of
          Inl (Plan_refused r) \<Rightarrow> Inl (Move_refused r)
        | Inl (Plan_threw e) \<Rightarrow> Inl (Move_threw e)
        | Inr plan \<Rightarrow>
            (case mc_branch call of
               Some b \<Rightarrow>
                 then_result (moved_states (ms_pages st) b changes) (\<lambda>entities.
                   require (mc_open call) Chat_closed
                     (Inr (st\<lparr>ms_locks := locked, ms_pages := emit_pages b (mc_owner call) entities (ms_pages st)\<rparr>,
                           \<lparr>mr_moved = pl_moves plan, mr_pending = True, mr_redirects = 0\<rparr>)))
             | None \<Rightarrow>
                 (case recomputeCurrentPathsWithMoves env d (write_changes changes (ms_pages st))
                         (map tc_page changes) None of
                    Inl e \<Rightarrow> Inl (Move_paths_failed e)
                  | Inr (db', paths, moves) \<Rightarrow>
                      (case applyPathMoveEffects parse_url (mc_actor call) moves choice (ms_redirects st) of
                         Inl e \<Rightarrow> Inl (Move_effects_failed e)
                       | Inr (sent, n) \<Rightarrow>
                           require (mc_open call) Chat_closed
                             (Inr (st\<lparr>ms_locks := locked, ms_pages := db', ms_redirects := sent\<rparr>,
                                   \<lparr>mr_moved = moves, mr_pending = False, mr_redirects = n\<rparr>)))))))"

text \<open>The dry run: what would move, or why not.\<close>

definition planPageMovesOp ::
  "url_env \<Rightarrow> site_defaults \<Rightarrow> page_db \<Rightarrow> string option \<Rightarrow> tree_change list
    \<Rightarrow> (compose_error, plan_refusal option \<times> path_move list) result" where
  "planPageMovesOp env d db branch changes =
     (case planPageMoves env d db branch changes of
        Inl (Plan_refused r) \<Rightarrow> Inr (Some r, [])
      | Inl (Plan_threw e) \<Rightarrow> Inl e
      | Inr plan \<Rightarrow> Inr (None, pl_moves plan))"

section \<open>The tree after the write is the what-if tree\<close>

lemma write_changes_rows:
  assumes "distinct (map tc_page changes)"
  shows "write_changes changes db = db\<lparr>db_pages := map (\<lambda>r. case requested_change changes (pr_id r) of
     Some c \<Rightarrow> change_row c r | None \<Rightarrow> r) (db_pages db)\<rparr>"
  using assms unfolding write_changes_def
proof (induction changes arbitrary: db)
  case (Cons c cs)
  have one: "(case requested_change cs (pr_id (change_row c r)) of Some e \<Rightarrow> change_row e (change_row c r) | None \<Rightarrow> change_row c r)
      = (case requested_change (c # cs) (pr_id r) of Some e \<Rightarrow> change_row e r | None \<Rightarrow> r)" for r
  proof (cases "pr_id r = tc_page c")
    case True
    then have "requested_change cs (pr_id r) = None" using Cons.prems by (simp add: requested_change_None)
    then show ?thesis using True by (simp add: change_row_def requested_change_def)
  next
    case False
    then have "change_row c r = r" by (simp add: change_row_def)
    then show ?thesis using False by (simp add: requested_change_def split: option.splits)
  qed
  show ?case using Cons by (simp add: comp_def one)
qed (simp add: requested_change_def)

lemma change_row_parts [simp]:
  "pr_id (change_row c r) = pr_id r" "pr_branch (change_row c r) = pr_branch r"
  "pr_deleted (change_row c r) = pr_deleted r" "pr_path (change_row c r) = pr_path r"
  by (simp_all add: change_row_def)

lemma write_changes_pages_ok:
  assumes "distinct (map tc_page changes)"
  shows "pages_ok (write_changes changes db) = pages_ok db"
  unfolding write_changes_rows [OF assms] by (rule pages_ok_map) (simp split: option.splits)

lemma stored_node_row:
  assumes "pages_ok db"
  shows "(stored_node db b i = Some n) = (\<exists>r \<in> set (db_pages db). pr_id r = i \<and> visible_row b r \<and> n = row_node (raw_node r))"
  unfolding stored_node_def by (subst js_get_in [OF js_map_ok_map [OF pages_distinct [OF assms]]]) auto

lemma written_tree:
  assumes ok: "pages_ok db" and dist: "distinct (map tc_page changes)"
    and known: "\<forall>c \<in> set changes. js_get (by_id (loadPageTree db None True)) (tc_page c) \<noteq> None"
  shows "js_get (by_id (loadPageTree (write_changes changes db) None True)) i
    = js_get (by_id (what_if (loadPageTree db None True) None changes)) i"
proof -
  define g where "g = (\<lambda>r. case requested_change changes (pr_id r) of Some c \<Rightarrow> change_row c r | None \<Rightarrow> r)"
  have g: "pr_id (g r) = pr_id r" "visible_row None (g r) = visible_row None r" for r
    by (simp_all add: g_def visible_row_def split: option.splits)
  have rows: "db_pages (write_changes changes db) = map g (db_pages db)"
    by (simp add: write_changes_rows [OF dist] g_def)
  have ok1: "pages_ok (write_changes changes db)" using ok by (simp add: write_changes_pages_ok [OF dist])
  have main: "node_in db' None k = stored_node db' None k" for db' k
    by (simp add: node_in_def pending_of_def split: option.splits)
  have node: "row_node (raw_node (change_row c r)) = changed_node None c (Some (row_node (raw_node r)))"
    if "pr_id r = tc_page c" for c r
    using that by (simp add: row_node_def raw_node_def changed_node_def change_row_def split: option.splits)
  have "stored_node (write_changes changes db) None i
      = (case requested_change changes i of Some c \<Rightarrow> Some (changed_node None c (stored_node db None i)) | None \<Rightarrow> stored_node db None i)"
  proof (cases "stored_node db None i")
    case None
    have "stored_node (write_changes changes db) None i = None"
    proof (rule ccontr)
      assume "stored_node (write_changes changes db) None i \<noteq> None"
      then obtain n where "stored_node (write_changes changes db) None i = Some n" by blast
      then obtain r where "r \<in> set (db_pages db)" "pr_id (g r) = i" "visible_row None (g r)"
        unfolding stored_node_row [OF ok1] rows by auto
      then have "stored_node db None i = Some (row_node (raw_node r))"
        unfolding stored_node_row [OF ok] using g by auto
      then show False using None by simp
    qed
    moreover have "requested_change changes i = None"
    proof (rule ccontr)
      assume "requested_change changes i \<noteq> None"
      then obtain c where "c \<in> set changes" "tc_page c = i" using requested_change_Some by blast
      then show False using known None by (auto simp: loadPageTree_get(1) [OF ok] main)
    qed
    ultimately show ?thesis using None by simp
  next
    case (Some n)
    then obtain r where r: "r \<in> set (db_pages db)" "pr_id r = i" "visible_row None r" "n = row_node (raw_node r)"
      using stored_node_row [OF ok] by blast
    have "stored_node (write_changes changes db) None i = Some (row_node (raw_node (g r)))"
      unfolding stored_node_row [OF ok1] rows using r(1-3) g by (intro bexI [of _ "g r"]) simp_all
    then show ?thesis
      using r node Some requested_change_Some [of changes i] by (simp add: g_def split: option.splits)
  qed
  moreover have "js_get (by_id (loadPageTree db None True)) i = stored_node db None i"
    by (simp add: loadPageTree_get(1) [OF ok] main)
  ultimately show ?thesis
    by (simp add: loadPageTree_get(1) [OF ok1] main what_if_get [OF dist] split: option.splits)
qed

section \<open>Trees with the same nodes\<close>

definition same_nodes :: "page_tree \<Rightarrow> page_tree \<Rightarrow> bool" where
  "same_nodes t u \<longleftrightarrow> (\<forall>i. js_get (by_id t) i = js_get (by_id u) i)"

lemma same_nodes_parent: "same_nodes t u \<Longrightarrow> parent_of t i = parent_of u i"
  by (simp add: same_nodes_def parent_of_def)

lemma same_nodes_climbs: "same_nodes t u \<Longrightarrow> climbs t i c \<Longrightarrow> climbs u i c"
  by (rotate_tac 1, induction rule: climbs.induct) (auto simp: same_nodes_def intro: climbs.intros)

lemma same_nodes_below: "same_nodes t u \<Longrightarrow> below t roots i \<Longrightarrow> below u roots i"
  by (rotate_tac 1, induction rule: below.induct) (auto simp: same_nodes_parent intro: below.intros)

lemma same_nodes_sym: "same_nodes t u \<Longrightarrow> same_nodes u t"
  by (simp add: same_nodes_def)

lemma same_nodes_slugs:
  assumes same: "same_nodes t u" and proper: "proper_tree t" and i: "js_get (by_id t) i = Some n"
  shows "ancestorSlugsOf u i = ancestorSlugsOf t i"
proof -
  obtain c where c: "climbs t i (c @ [i])" "ancestorIdsOf t i = Inr c" using proper_climbs [OF proper i] by blast
  have "js_get (by_id u) i = Some n" using same i by (simp add: same_nodes_def)
  then have "ancestorIdsOf u i = Inr c" using ancestor_chain same_nodes_climbs [OF same c(1)] by blast
  then show ?thesis using c(2) same by (simp add: ancestorSlugsOf_def slug_in_def same_nodes_def)
qed

lemma same_nodes_proper:
  assumes same: "same_nodes t u" and proper: "proper_tree t" and ok: "js_map_ok (by_id u)"
  shows "proper_tree u"
proof (rule proper_treeI [OF ok])
  fix i n
  assume "js_get (by_id u) i = Some n"
  then have "js_get (by_id t) i = Some n" using same by (simp add: same_nodes_def)
  then obtain c where "climbs t i (c @ [i])" "length c < MAX_PAGE_DEPTH" using proper_climbs [OF proper] by blast
  then show "\<exists>c. climbs u i c \<and> length c \<le> MAX_PAGE_DEPTH"
    using same_nodes_climbs [OF same] by (intro exI [of _ "c @ [i]"]) simp
qed

section \<open>Composing the same pages again\<close>

lemma main_designations: "fst (loadSiteDesignations db d None) = sd_home d"
proof -
  have "\<not> list_ex (\<lambda>r. False) (db_pages db)" by (simp add: list_ex_iff)
  then show ?thesis by (simp add: loadSiteDesignations_def pending_page_on_def split: option.splits)
qed

lemma composePathsFrom_ok:
  "(\<And>i. i \<in> set is \<Longrightarrow> compose_one env t designated (ann_of anns i) without i = Inr (f i))
    \<Longrightarrow> composePathsFrom env t is designated anns without = Inr (map (\<lambda>i. (i, f i)) is)"
  by (induction "is") (simp_all add: ann_of_def)

lemma composition_again:
  assumes steady: "steady_annotator (ue_ask env None) about"
    and after: "composePathsDetailed env d db w ids None None = Inr after"
    and same: "set (composableIds u ids') = set (composableIds w ids)"
    and alike: "\<And>i des ann. i \<in> set (composableIds w ids)
        \<Longrightarrow> compose_one env u des ann None i = compose_one env w des ann None i"
  shows "\<exists>paths. composePaths env d db1 u ids' None None = Inr paths
     \<and> (\<forall>i. js_get paths i = map_option co_path (js_get after i))
     \<and> (\<forall>i. (js_get after i \<noteq> None) = (i \<in> set (composableIds w ids)))"
proof -
  define is1 where "is1 = composableIds w ids"
  define is2 where "is2 = composableIds u ids'"
  have sets: "set is2 = set is1" and dist: "distinct is1" "distinct is2"
    using same by (simp_all add: is1_def is2_def composableIds_def)
  have comp: "compose_ids env (sd_home d) None w is1 None = Inr after"
    using after by (simp add: composePathsDetailed_def main_designations is1_def)
  obtain anns where anns: "collectUrlAnnotations (ue_ask env None) (ue_registry env) None is1 = Inr anns"
      "composePathsFrom env w is1 (sd_home d) anns None = Inr after"
    using comp by (cases "is1 = []") (auto simp: compose_ids_def collectUrlAnnotations_def split: sum.splits)
  obtain anns' where anns': "collectUrlAnnotations (ue_ask env None) (ue_registry env) None is2 = Inr anns'"
      "\<forall>i \<in> set is1. js_get anns' i = js_get anns i"
    using steady_annotator.collection_again [OF steady anns(1) sets] by blast
  note g = composePathsFrom_get [OF anns(2)]
  have keys: "js_map_ok after" "set (map fst after) = set is1" using g dist by (simp_all add: js_map_ok_def)
  have got: "\<exists>c. js_get after i = Some c \<and> compose_one env w (sd_home d) (ann_of anns i) None i = Inr c"
    if i: "i \<in> set is1" for i
  proof -
    have "i \<in> set (map fst after)" using i keys(2) by simp
    then obtain e where e: "e \<in> set after" "fst e = i" by auto
    then have "js_get after i = Some (snd e)" by (intro iffD2 [OF js_get_in [OF keys(1)]]) (metis prod.collapse)
    moreover have "compose_one env w (sd_home d) (ann_of anns i) None i = Inr (snd e)"
      using g e by (simp add: ann_of_def) blast
    ultimately show ?thesis by blast
  qed
  have "compose_one env u (sd_home d) (ann_of anns' i) None i = Inr (the (js_get after i))" if "i \<in> set is2" for i
  proof -
    have i: "i \<in> set is1" using that sets by simp
    then have "ann_of anns' i = ann_of anns i" using anns'(2) by (simp add: ann_of_def)
    then show ?thesis using got [OF i] alike [of i "sd_home d" "ann_of anns i"] i by (auto simp: is1_def)
  qed
  then have runs: "composePathsFrom env u is2 (sd_home d) anns' None = Inr (map (\<lambda>i. (i, the (js_get after i))) is2)"
    by (rule composePathsFrom_ok)
  then have "compose_ids env (sd_home d) None u is2 None = Inr (map (\<lambda>i. (i, the (js_get after i))) is2)"
    using anns'(1) by (simp add: compose_ids_def)
  then have paths: "composePaths env d db1 u ids' None None = Inr (map (\<lambda>i. (i, co_path (the (js_get after i)))) is2)"
    by (simp add: composePaths_def composePathsDetailed_def main_designations is2_def [symmetric] then_result_def comp_def)
  have none: "js_get after i = None" if "i \<notin> set is1" for i
    using that keys(2) by (simp add: js_get_def map_of_eq_None_iff)
  have read: "js_get (map (\<lambda>i. (i, co_path (the (js_get after i)))) is2) i = map_option co_path (js_get after i)" for i
  proof (cases "i \<in> set is1")
    case True
    then show ?thesis using got [OF True] sets by (auto simp: js_get_def map_of_map_restrict)
  next
    case False
    then show ?thesis using none [OF False] sets by (simp add: js_get_def map_of_map_restrict)
  qed
  have "(js_get after i \<noteq> None) = (i \<in> set is1)" for i using got none by force
  then show ?thesis using paths read unfolding is1_def by blast
qed

section \<open>An accepted plan on main goes through\<close>

lemma visible_path:
  assumes ok: "pages_ok db" and r: "r \<in> set (db_pages db)" "visible_row None r"
  shows "js_get (loadVisiblePaths db None) (pr_id r) = Some (pr_path r)"
    and "js_get (by_id (loadPageTree db None True)) (pr_id r) = Some (row_node (raw_node r))"
proof -
  have paths: "loadVisiblePaths db None = map (\<lambda>r. (pr_id r, pr_path r)) (filter (visible_row None) (db_pages db))"
    unfolding loadVisiblePaths_def by (rule js_map_of_distinct [OF pages_distinct [OF ok]])
  show "js_get (loadVisiblePaths db None) (pr_id r) = Some (pr_path r)"
    unfolding paths by (subst js_get_in [OF js_map_ok_map [OF pages_distinct [OF ok]]]) (use r in auto)
  have "stored_node db None (pr_id r) = Some (row_node (raw_node r))" using stored_node_row [OF ok] r by blast
  then show "js_get (by_id (loadPageTree db None True)) (pr_id r) = Some (row_node (raw_node r))"
    by (simp add: loadPageTree_get(1) [OF ok] node_in_def pending_of_def)
qed

lemma main_node_row:
  assumes "pages_ok db" "js_get (by_id (loadPageTree db None True)) i = Some n"
  obtains r where "r \<in> set (db_pages db)" "pr_id r = i" "visible_row None r"
proof -
  have "stored_node db None i = Some n"
    using assms(2) by (auto simp: loadPageTree_get(1) [OF assms(1)] node_in_def pending_of_def split: option.splits)
  then show thesis using that stored_node_row [OF assms(1)] by blast
qed

lemma planned_assignment_unique:
  assumes ok: "pages_ok db" and uniq: "paths_unique db"
    and final: "\<And>r. r \<in> set (db_pages db) \<Longrightarrow> pr_path (assign_path cs r)
        = (case pl (pr_id r) of Some p \<Rightarrow> p | None \<Rightarrow> pr_path r)"
    and visible: "\<And>r p. r \<in> set (db_pages db) \<Longrightarrow> pl (pr_id r) = Some p \<Longrightarrow> pr_branch r = None"
    and apart: "\<And>i j p. pl i = Some p \<Longrightarrow> pl j = Some p \<Longrightarrow> i = j"
    and free: "\<And>r j. r \<in> set (db_pages db) \<Longrightarrow> visible_row None r \<Longrightarrow> pl (pr_id r) = None
        \<Longrightarrow> pl j \<noteq> Some (pr_path r)"
  shows "paths_unique (assign_paths cs db)"
proof -
  have one: "pr_id q = pr_id r" if qr: "q \<in> set (db_pages db)" "r \<in> set (db_pages db)"
      "\<not> pr_deleted q" "\<not> pr_deleted r" "pr_branch q = pr_branch r"
      "pr_path (assign_path cs q) = pr_path (assign_path cs r)" for q r
  proof (cases "pl (pr_id q)")
    case (Some p)
    then have main: "pr_branch r = None" using visible [OF qr(1)] qr(5) by simp
    then have vis: "visible_row None r" using qr(4) by (simp add: visible_row_def)
    show ?thesis
    proof (cases "pl (pr_id r)")
      case None
      then show ?thesis using free [OF qr(2) vis None, of "pr_id q"] Some qr(6) final [OF qr(1)] final [OF qr(2)] by simp
    next
      case (Some p')
      then show ?thesis using apart [of "pr_id q" p "pr_id r"] \<open>pl (pr_id q) = Some p\<close> qr(6) final [OF qr(1)] final [OF qr(2)] by simp
    qed
  next
    case None
    show ?thesis
    proof (cases "pl (pr_id r)")
      case (Some p)
      then have "visible_row None q" using visible [OF qr(2)] qr(3,5) by (simp add: visible_row_def)
      then show ?thesis using free [OF qr(1) _ None, of "pr_id r"] None Some qr(6) final [OF qr(1)] final [OF qr(2)] by simp
    next
      case other: None
      then have "same_slot q r" using None qr final [OF qr(1)] final [OF qr(2)] by (simp add: same_slot_def)
      then show ?thesis using uniq qr(1,2) by (simp add: paths_unique_def)
    qed
  qed
  show ?thesis unfolding paths_unique_def assign_paths_def
    by (auto simp: same_slot_def intro!: one)
qed

lemma written_stored_ok:
  assumes "distinct (map tc_page changes)" "stored_ok db"
  shows "stored_ok (write_changes changes db)" and "stored_path (write_changes changes db) i = stored_path db i"
proof -
  define g where "g = (\<lambda>r. case requested_change changes (pr_id r) of Some c \<Rightarrow> change_row c r | None \<Rightarrow> r)"
  have g: "pr_id (g r) = pr_id r" "pr_branch (g r) = pr_branch r" "pr_deleted (g r) = pr_deleted r" "pr_path (g r) = pr_path r" for r
    by (simp_all add: g_def split: option.splits)
  have rows: "write_changes changes db = db\<lparr>db_pages := map g (db_pages db)\<rparr>"
    by (simp add: write_changes_rows [OF assms(1)] g_def)
  have "pages_ok (write_changes changes db)" using assms by (simp add: write_changes_pages_ok stored_ok_def)
  moreover have "paths_unique (write_changes changes db)"
  proof -
    have "same_slot (g q) (g r) = same_slot q r" for q r by (simp add: same_slot_def g)
    moreover have "paths_unique db" using assms(2) by (simp add: stored_ok_def)
    ultimately show ?thesis unfolding paths_unique_def rows by (simp add: g)
  qed
  moreover have "\<forall>r \<in> set (db_pages (write_changes changes db)). no_mark (pr_path r)"
    using assms(2) by (simp add: stored_ok_def rows g)
  ultimately show "stored_ok (write_changes changes db)" by (simp add: stored_ok_def)
  show "stored_path (write_changes changes db) i = stored_path db i"
    by (simp add: stored_path_def rows comp_def g)
qed

lemma planned_trees:
  assumes ok: "stored_ok db" and proper: "proper_tree (loadPageTree db None True)"
    and plan: "planPageMoves env d db None changes = Inr plan" and old: "list_all (\<lambda>c. \<not> tc_new c) changes"
  shows "distinct (map tc_page changes)"
    and "pl_affected plan = affected_ids (what_if (loadPageTree db None True) None changes) changes"
    and "tree_ok (what_if (loadPageTree db None True) None changes)"
    and "proper_tree (what_if (loadPageTree db None True) None changes)"
    and "same_nodes (what_if (loadPageTree db None True) None changes) (loadPageTree (write_changes changes db) None True)"
    and "proper_tree (loadPageTree (write_changes changes db) None True)"
proof -
  let ?w = "what_if (loadPageTree db None True) None changes"
  let ?u = "loadPageTree (write_changes changes db) None True"
  have pok: "pages_ok db" using ok by (simp add: stored_ok_def)
  have tok: "tree_ok (loadPageTree db None True)" by (rule loadPageTree_ok [OF pok])
  obtain before where checked: "check_changes (loadPageTree db None True) [] changes = Inr ()"
      and depths: "check_depths ?w before (affected_ids ?w changes) = Inr ()"
    using plan_checks [OF plan] by blast
  show dist: "distinct (map tc_page changes)" using check_changes_ok [OF checked] by simp
  show "pl_affected plan = affected_ids ?w changes" using plan_checks [OF plan] by simp
  show "tree_ok ?w" by (rule what_if_ok [OF tok])
  show wproper: "proper_tree ?w" using accepted_tree_proper(1) [OF tok proper dist] depths by blast
  have known: "\<forall>c \<in> set changes. js_get (by_id (loadPageTree db None True)) (tc_page c) \<noteq> None"
    using check_changes_ok [OF checked] old by (auto simp: list_all_iff)
  show same: "same_nodes ?w ?u" using written_tree [OF pok dist known] by (simp add: same_nodes_def)
  have "pages_ok (write_changes changes db)" using pok by (simp add: write_changes_pages_ok [OF dist])
  then show "proper_tree ?u"
    using same_nodes_proper [OF same wproper] loadPageTree_ok by (simp add: tree_ok_def)
qed

lemma planned_path_facts:
  assumes ok: "pages_ok db" and plan: "planPageMoves env d db None changes = Inr plan"
  defines "w \<equiv> what_if (loadPageTree db None True) None changes"
  obtains after where "composePathsDetailed env d db w (pl_affected plan) None None = Inr after"
    "\<And>i. js_get (pl_paths plan) i = map_option co_path (js_get after i)"
    "\<And>i. (js_get (pl_paths plan) i \<noteq> None) = (i \<in> set (composableIds w (pl_affected plan)))"
    "\<And>i j p. js_get (pl_paths plan) i = Some p \<Longrightarrow> js_get (pl_paths plan) j = Some p \<Longrightarrow> i = j"
    "\<And>i j p. js_get (by_id (loadPageTree db None True)) i \<noteq> None \<Longrightarrow> i \<notin> set (pl_affected plan)
       \<Longrightarrow> js_get (loadVisiblePaths db None) i = Some p \<Longrightarrow> js_get (pl_paths plan) j \<noteq> Some p"
proof -
  obtain after where all: "composePathsDetailed env d db w (pl_affected plan
        @ (case None of Some b \<Rightarrow> pendingDriftIds db (loadPageTree db None True) b | None \<Rightarrow> [])) None None = Inr after
     \<and> (\<forall>i. js_get (pl_paths plan) i = (if i \<in> set (pl_affected plan) then map_option co_path (js_get after i) else None))
     \<and> (\<forall>i j p. js_get (pl_paths plan) i = Some p \<and> js_get (pl_paths plan) j = Some p \<longrightarrow> i = j)
     \<and> (\<forall>i j p. i \<in> set (map fst (by_id (loadPageTree db None True))) \<and> i \<notin> set (pl_affected plan)
          \<and> held_path after (loadVisiblePaths db None) i = Some p \<longrightarrow> js_get (pl_paths plan) j \<noteq> Some p)"
    using accepted_paths_hold [OF ok plan] unfolding w_def by (rule exE)
  have run: "composePathsDetailed env d db w (pl_affected plan) None None = Inr after" using conjunct1 [OF all] by simp
  then have "composePaths env d db w (pl_affected plan) None None = Inr (map (\<lambda>e. (fst e, co_path (snd e))) after)"
    by (simp add: composePaths_def then_result_def)
  from composePaths_get(1) [OF this] have keys: "map fst after = composableIds w (pl_affected plan)" by (simp add: comp_def)
  then have dom: "(js_get after i \<noteq> None) = (i \<in> set (composableIds w (pl_affected plan)))" for i
    by (metis js_get_def map_of_eq_None_iff set_map)
  have pl: "js_get (pl_paths plan) i = map_option co_path (js_get after i)" for i
    using all dom [of i] by (auto simp: composableIds_def)
  show thesis
  proof (rule that [OF run pl])
    show "(js_get (pl_paths plan) i \<noteq> None) = (i \<in> set (composableIds w (pl_affected plan)))" for i
      using dom [of i] by (simp add: pl)
    show "i = j" if "js_get (pl_paths plan) i = Some p" "js_get (pl_paths plan) j = Some p" for i j p
      using all that by blast
    show "js_get (pl_paths plan) j \<noteq> Some p" if h: "js_get (by_id (loadPageTree db None True)) i \<noteq> None"
        "i \<notin> set (pl_affected plan)" "js_get (loadVisiblePaths db None) i = Some p" for i j p
    proof -
      have "js_get after i = None" using dom [of i] h(2) by (auto simp: composableIds_def)
      then have "held_path after (loadVisiblePaths db None) i = Some p" using h(3) by (simp add: held_path_def)
      moreover have "i \<in> set (map fst (by_id (loadPageTree db None True)))"
        using h(1) by (auto simp: js_get_def map_of_eq_None_iff)
      ultimately show ?thesis using all h(2) by blast
    qed
  qed
qed

text \<open>The recompute after the write composes what the plan showed.\<close>

lemma planned_composition:
  assumes ok: "stored_ok db" and proper: "proper_tree (loadPageTree db None True)"
    and plan: "planPageMoves env d db None changes = Inr plan" and old: "list_all (\<lambda>c. \<not> tc_new c) changes"
    and steady: "steady_annotator (ue_ask env None) about"
    and read: "loadScopedTree (write_changes changes db) None (map tc_page changes) = (t1, sub)"
  shows "\<exists>paths. composePaths env d (write_changes changes db) t1 (js_unique (map tc_page changes) @ sub) None None = Inr paths
     \<and> (\<forall>i. js_get paths i = js_get (pl_paths plan) i)"
proof -
  define w where "w = what_if (loadPageTree db None True) None changes"
  define u where "u = loadPageTree (write_changes changes db) None True"
  define roots where "roots = map tc_page changes"
  note trees = planned_trees [OF ok proper plan old, folded w_def u_def]
  have pok: "pages_ok db" and pok1: "pages_ok (write_changes changes db)"
    using ok by (simp_all add: stored_ok_def write_changes_pages_ok [OF trees(1)])
  have uok: "tree_ok u" unfolding u_def by (rule loadPageTree_ok [OF pok1])
  obtain after where after: "composePathsDetailed env d db w (pl_affected plan) None None = Inr after"
      "\<And>i. js_get (pl_paths plan) i = map_option co_path (js_get after i)"
    by (rule planned_path_facts [OF pok plan, folded w_def]) (rule that)
  note agree = loadScopedTree_agrees [OF pok1 trees(6) [unfolded u_def] read]
  have ids: "i \<in> set (composableIds t1 (js_unique roots @ sub)) \<longleftrightarrow> i \<in> set (composableIds w (pl_affected plan))" for i
  proof -
    have "i \<in> set (composableIds t1 (js_unique roots @ sub)) \<longleftrightarrow> recomputed (write_changes changes db) None roots i"
      unfolding roots_def by (rule recompute_targets [OF pok1 trees(6) [unfolded u_def] read])
    also have "\<dots> \<longleftrightarrow> js_get (by_id w) i \<noteq> None \<and> (i \<in> set roots \<or> i \<in> set (descendantIdsOf w roots))"
      using trees(5) same_nodes_below [OF trees(5)] same_nodes_below [OF same_nodes_sym [OF trees(5)]]
      by (auto simp: recomputed_def same_nodes_def descendants_iff [OF trees(3)] descendants_iff [OF uok [unfolded u_def]] u_def)
    also have "\<dots> \<longleftrightarrow> i \<in> set (composableIds w (pl_affected plan))"
      by (auto simp: trees(2) composableIds_def affected_ids_def roots_def)
    finally show ?thesis .
  qed
  have alike: "compose_one env t1 des ann None i = compose_one env w des ann None i"
    if i: "i \<in> set (composableIds w (pl_affected plan))" for i des ann
  proof -
    obtain n where n: "js_get (by_id w) i = Some n" using i by (auto simp: composableIds_def)
    then have nu: "js_get (by_id u) i = Some n" using trees(5) by (simp add: same_nodes_def)
    have "i \<in> set (composableIds t1 (js_unique roots @ sub))" using ids i by blast
    then have in_read: "i \<in> set (map tc_page changes) \<union> set sub" by (auto simp: composableIds_def roots_def)
    have "node_in (write_changes changes db) None i = Some n" using nu by (simp add: u_def loadPageTree_get(1) [OF pok1])
    then have "ancestorSlugsOf t1 i = ancestorSlugsOf u i" using agree(2) [OF in_read] by (simp add: u_def)
    moreover have "js_get (by_id t1) i = js_get (by_id u) i" using agree(1) [OF in_read] by (simp add: u_def)
    ultimately show ?thesis
      using same_nodes_slugs [OF trees(5,4) n] n nu by (intro compose_one_cong) simp_all
  qed
  show ?thesis
    using composition_again [where ids' = "js_unique roots @ sub" and u = t1 and ?db1.0 = "write_changes changes db",
        OF steady after(1) set_eqI [OF ids] alike]
    by (simp add: after(2) roots_def) blast
qed

text \<open>The index accepts the planned paths: the rows they would clash with are not visible
  on main.\<close>

lemma planned_write_unique:
  assumes ok: "stored_ok db" and proper: "proper_tree (loadPageTree db None True)"
    and plan: "planPageMoves env d db None changes = Inr plan" and old: "list_all (\<lambda>c. \<not> tc_new c) changes"
    and final: "\<And>r. r \<in> set (db_pages (write_changes changes db)) \<Longrightarrow> pr_path (assign_path cs r)
        = (case js_get (pl_paths plan) (pr_id r) of Some p \<Rightarrow> p | None \<Rightarrow> pr_path r)"
  shows "paths_unique (assign_paths cs (write_changes changes db))"
proof -
  define t where "t = loadPageTree db None True"
  define w where "w = what_if t None changes"
  define db1 where "db1 = write_changes changes db"
  note trees = planned_trees [OF ok proper plan old, folded t_def, folded w_def db1_def]
  have pok: "pages_ok db" using ok by (simp add: stored_ok_def)
  have ok1: "stored_ok db1" unfolding db1_def by (rule written_stored_ok(1) [OF trees(1) ok])
  then have pok1: "pages_ok db1" and uniq1: "paths_unique db1" by (simp_all add: stored_ok_def)
  obtain after where dom: "\<And>i. (js_get (pl_paths plan) i \<noteq> None) = (i \<in> set (composableIds w (pl_affected plan)))"
      and apart: "\<And>i j p. js_get (pl_paths plan) i = Some p \<Longrightarrow> js_get (pl_paths plan) j = Some p \<Longrightarrow> i = j"
      and free: "\<And>i j p. js_get (by_id t) i \<noteq> None \<Longrightarrow> i \<notin> set (pl_affected plan)
          \<Longrightarrow> js_get (loadVisiblePaths db None) i = Some p \<Longrightarrow> js_get (pl_paths plan) j \<noteq> Some p"
    by (rule planned_path_facts [OF pok plan, folded t_def, folded w_def]) (rule that)
  have main: "pr_branch r = None"
    if r: "r \<in> set (db_pages db1)" and p: "js_get (pl_paths plan) (pr_id r) = Some p" for r p
  proof -
    have "js_get (by_id w) (pr_id r) \<noteq> None" using dom [of "pr_id r"] p by (simp add: composableIds_def)
    then obtain n where n: "js_get (by_id (loadPageTree db1 None True)) (pr_id r) = Some n"
      using trees(5) by (auto simp: same_nodes_def)
    obtain q where "q \<in> set (db_pages db1)" "pr_id q = pr_id r" "visible_row None q" by (rule main_node_row [OF pok1 n])
    moreover from this have "q = r" using r pok1 by (auto simp: pages_ok_def distinct_map inj_on_def)
    ultimately show ?thesis by (simp add: visible_row_def)
  qed
  have keeps_free: "js_get (pl_paths plan) j \<noteq> Some (pr_path r)"
    if r: "r \<in> set (db_pages db1)" "visible_row None r" "js_get (pl_paths plan) (pr_id r) = None" for r j
  proof -
    have inw: "js_get (by_id w) (pr_id r) \<noteq> None"
      using visible_path(2) [OF pok1 r(1,2)] trees(5) by (simp add: same_nodes_def)
    then have out: "pr_id r \<notin> set (pl_affected plan)" using r(3) dom [of "pr_id r"] by (auto simp: composableIds_def)
    then have "requested_change changes (pr_id r) = None" by (simp add: trees(2) affected_ids_def requested_change_None)
    then have int: "js_get (by_id t) (pr_id r) \<noteq> None" using inw by (simp add: w_def what_if_get [OF trees(1)])
    then obtain n where n: "js_get (by_id (loadPageTree db None True)) (pr_id r) = Some n" by (auto simp: t_def)
    obtain q where q: "q \<in> set (db_pages db)" "pr_id q = pr_id r" "visible_row None q" by (rule main_node_row [OF pok n])
    have "stored_path db (pr_id r) = Some (pr_path q)" using stored_path_row [OF pok] q by auto
    moreover have "stored_path db1 (pr_id r) = Some (pr_path r)" using stored_path_row [OF pok1] r(1) by auto
    ultimately have "pr_path q = pr_path r" by (simp add: db1_def written_stored_ok(2) [OF trees(1) ok])
    then show ?thesis using free [OF int out] visible_path(1) [OF pok q(1,3)] q(2) by simp
  qed
  show ?thesis unfolding db1_def [symmetric]
    by (rule planned_assignment_unique [OF pok1 uniq1 final [folded db1_def] main apart keeps_free])
qed

lemma assigned_tree: "loadPageTree (assign_paths cs db) None True = loadPageTree db None True"
proof -
  have "raw_node (assign_path cs r) = raw_node r" "visible_row None (assign_path cs r) = visible_row None r" for r
    by (simp_all add: raw_node_def visible_row_def assign_path_def split: option.splits)
  then show ?thesis by (simp add: loadPageTree_def assign_paths_def filter_map comp_def)
qed

lemma planned_recompute:
  assumes ok: "stored_ok db" and proper: "proper_tree (loadPageTree db None True)"
    and plan: "planPageMoves env d db None changes = Inr plan"
    and old: "list_all (\<lambda>c. \<not> tc_new c) changes" and some: "changes \<noteq> []"
    and steady: "steady_annotator (ue_ask env None) about"
  shows "\<exists>db' paths moves. recomputeCurrentPathsWithMoves env d (write_changes changes db) (map tc_page changes) None
       = Inr (db', paths, moves)
     \<and> stored_ok db' \<and> proper_tree (loadPageTree db' None True)
     \<and> (\<forall>i. stored_path db' i = (case js_get (pl_paths plan) i of Some p \<Rightarrow> Some p | None \<Rightarrow> stored_path db i))"
proof -
  define db1 where "db1 = write_changes changes db"
  define roots where "roots = map tc_page changes"
  note trees = planned_trees [OF ok proper plan old, folded db1_def]
  note written = written_stored_ok [OF trees(1) ok, folded db1_def]
  have pok: "pages_ok db" and pok1: "pages_ok db1" and uniq1: "paths_unique db1" "\<forall>r \<in> set (db_pages db1). no_mark (pr_path r)"
    using ok written(1) by (simp_all add: stored_ok_def)
  obtain t1 sub where read: "loadScopedTree db1 None roots = (t1, sub)" by (cases "loadScopedTree db1 None roots")
  obtain paths where paths: "composePaths env d db1 t1 (js_unique roots @ sub) None None = Inr paths"
      and planned: "\<And>i. js_get paths i = js_get (pl_paths plan) i"
    using planned_composition [OF ok proper plan old steady, folded db1_def roots_def, OF read] by blast
  define moves where "moves = path_moves t1 None (loadStoredPaths db1 (map fst paths)) paths"
  define db2 where "db2 = assign_paths (move_changes moves) db1"
  have "paths_unique db2" unfolding db2_def db1_def
    by (rule planned_write_unique [OF ok proper plan old])
      (simp add: main_assignment [OF pok1 paths moves_def, unfolded db1_def] planned)
  then have wrote: "writeCurrentPaths (move_changes moves) db1 = Inr db2"
    using path_writes [OF composed_changes(1) [OF paths moves_def] pok1 uniq1 composed_changes(2) [OF paths moves_def]]
    by (simp add: db2_def)
  have "js_unique roots \<noteq> []" using some by (simp add: js_unique_def roots_def)
  moreover have "loadScopedTree db1 None (js_unique roots) = (t1, sub)"
    using read by (simp add: loadScopedTree_def js_unique_def Let_def distinct_remdups_id)
  ultimately have run: "recomputeCurrentPathsWithMoves env d db1 roots None = Inr (db2, paths, moves)"
    using paths wrote by (simp add: recomputeCurrentPathsWithMoves_def Let_def moves_def)
  have ok2: "stored_ok db2" by (rule recompute_writes(2) [OF written(1) paths moves_def wrote])
  have "stored_path db2 i = (case js_get (pl_paths plan) i of Some p \<Rightarrow> Some p | None \<Rightarrow> stored_path db i)" for i
  proof (cases "js_get paths i")
    case None
    then have "i \<notin> fst ` set paths" by (simp add: js_get_def map_of_eq_None_iff)
    then show ?thesis
      using recompute_keeps_others(2) [OF written(1) paths moves_def wrote] None by (simp add: planned written(2))
  next
    case (Some p)
    then have e: "(i, p) \<in> set paths" by (simp add: js_get_def map_of_SomeD)
    obtain after where dom: "(js_get (pl_paths plan) i \<noteq> None)
        = (i \<in> set (composableIds (what_if (loadPageTree db None True) None changes) (pl_affected plan)))"
      by (rule planned_path_facts [OF pok plan]) (rule that)
    then obtain n where "js_get (by_id (loadPageTree db1 None True)) i = Some n"
      using Some planned [of i] trees(5) by (auto simp: composableIds_def same_nodes_def)
    then have "stored_path db1 i \<noteq> None" by (rule stored_node_path [OF pok1])
    then show ?thesis
      using recompute_stores_composed(2) [OF written(1) paths moves_def wrote e] Some by (simp add: planned)
  qed
  moreover have "proper_tree (loadPageTree db2 None True)"
    unfolding db2_def assigned_tree by (rule trees(6))
  ultimately show ?thesis using run ok2 by (auto simp: db1_def roots_def)
qed

text \<open>C2. A planned move on main goes through.  When the stored paths are unique, the page
  tree is proper and the plugins answer page by page, executing an accepted plan of existing
  pages on main can only fail in the redirects it creates or because the chat is closed: the
  locks are free, the recompute composes and the unique index never refuses.  When it
  succeeds the tree is still proper, every planned page stores exactly its planned path and
  every other row keeps its own.\<close>

theorem accepted_moves_are_stored:
  assumes ok: "stored_ok (ms_pages st)" and proper: "proper_tree (loadPageTree (ms_pages st) None True)"
    and plan: "planPageMoves env d (ms_pages st) None changes = Inr plan"
    and old: "list_all (\<lambda>c. \<not> tc_new c) changes" and some: "changes \<noteq> []"
    and main: "mc_branch call = None" "\<And>i. lq_branch (mc_lock call i) = None"
    and steady: "steady_annotator (ue_ask env None) about"
  shows "case executePageMoves label parse_url env d call changes choice st of
       Inl e \<Rightarrow> e = Chat_closed \<or> (\<exists>f. e = Move_effects_failed f)
     | Inr (st', result) \<Rightarrow>
         stored_ok (ms_pages st') \<and> proper_tree (loadPageTree (ms_pages st') None True)
         \<and> (\<forall>i. stored_path (ms_pages st') i
               = (case js_get (pl_paths plan) i of Some p \<Rightarrow> Some p | None \<Rightarrow> stored_path (ms_pages st) i))"
proof -
  have locked: "lock_pages label (mc_lock call) is db = Inr db" for "is" db
    by (induction "is") (simp_all add: checkAndAcquireEntityLock_def main(2) truthy_def)
  obtain db' paths moves where run: "recomputeCurrentPathsWithMoves env d (write_changes changes (ms_pages st))
        (map tc_page changes) None = Inr (db', paths, moves)"
      and out: "stored_ok db'" "proper_tree (loadPageTree db' None True)"
        "\<forall>i. stored_path db' i = (case js_get (pl_paths plan) i of Some p \<Rightarrow> Some p | None \<Rightarrow> stored_path (ms_pages st) i)"
    using planned_recompute [OF ok proper plan old some steady] by blast
  show ?thesis
    using out by (auto simp: executePageMoves_def locked main(1) plan run require_def then_result_def split: sum.splits)
qed

section \<open>A move in a chat shows in its draft\<close>

definition heads_at :: "page_db \<Rightarrow> string \<Rightarrow> string \<Rightarrow> head_row list" where
  "heads_at db b i = filter (\<lambda>h. hd_branch h = b \<and> hd_page h = i) (db_heads db)"

lemma pending_heads:
  "js_get (headOverlay db b None) i =
     (case heads_at db b i of [] \<Rightarrow> None | h # gs \<Rightarrow> Some (hd_state (newest_head h gs)))"
proof -
  define hs where "hs = filter (\<lambda>h. hd_branch h = b) (db_heads db)"
  have at: "filter (\<lambda>h. hd_page h = i) hs = heads_at db b i" by (simp add: hs_def heads_at_def conj_commute)
  have "js_get (headOverlay db b None) i = (if i \<in> hd_page ` set hs then Some (newest_state hs i) else None)"
    by (auto simp: headOverlay_def Let_def js_get_map_key hs_def)
  moreover have "(i \<in> hd_page ` set hs) = (heads_at db b i \<noteq> [])"
    unfolding at [symmetric] by (auto simp: filter_empty_conv)
  ultimately show ?thesis by (simp add: newest_state_def at split: list.splits)
qed

lemma newest_head_last:
  "hd_at h < hd_at n \<Longrightarrow> (\<And>g. g \<in> set gs \<Longrightarrow> hd_at g < hd_at n) \<Longrightarrow> newest_head h (gs @ [n]) = n"
  by (induction gs arbitrary: h) auto

lemma heads_at_emit:
  assumes "distinct (map fst es)"
  shows "heads_at (fold (upsert_head b own at) es db) b' i =
     (case map_of es i of
        Some s \<Rightarrow> if b' = b then filter (\<lambda>h. hd_owner h \<noteq> own) (heads_at db b i)
             @ [\<lparr>hd_branch = b, hd_page = i, hd_at = at, hd_state = s, hd_owner = own\<rparr>] else heads_at db b' i
      | None \<Rightarrow> heads_at db b' i)"
proof -
  have one: "heads_at (upsert_head b own at e db) x i =
      (if x = b \<and> fst e = i then filter (\<lambda>h. hd_owner h \<noteq> own) (heads_at db b i)
             @ [\<lparr>hd_branch = b, hd_page = i, hd_at = at, hd_state = snd e, hd_owner = own\<rparr>]
       else heads_at db x i)" for e db x
    by (auto simp: heads_at_def upsert_head_def intro!: filter_cong)
  show ?thesis
    using assms
  proof (induction es arbitrary: db)
    case (Cons e es)
    have "map_of es i = None" if "fst e = i" using Cons.prems that by (auto simp: map_of_eq_None_iff)
    then show ?case
      using Cons by (cases e; cases "fst e = i") (simp_all add: one split: option.splits)
  qed simp
qed

lemma emitted_pending:
  assumes "distinct (map fst es)"
  shows "js_get (headOverlay (emit_pages b own es db) b' None) i =
     (if b' = b \<and> map_of es i \<noteq> None then map_of es i else js_get (headOverlay db b' None) i)"
proof -
  define at where "at = Suc (fold max (map hd_at (db_heads db)) 0)"
  have emit: "emit_pages b own es db = fold (upsert_head b own at) es db" by (simp add: emit_pages_def at_def)
  have "m \<le> fold max ns m \<and> (\<forall>n \<in> set ns. n \<le> fold max ns m)" for ns :: "nat list" and m
    by (induction ns arbitrary: m) (simp, metis fold_simps(2) list.set_intros max.bounded_iff set_ConsD)
  then have "hd_at h \<le> fold max (map hd_at (db_heads db)) 0" if "h \<in> set (db_heads db)" for h
    using that by simp
  then have new: "hd_at h < at" if "h \<in> set (heads_at db b i)" for h
    using that by (simp add: at_def heads_at_def le_imp_less_Suc)
  show ?thesis
  proof (cases "map_of es i")
    case None
    then show ?thesis by (simp add: emit pending_heads heads_at_emit [OF assms])
  next
    case (Some s)
    define n where "n = \<lparr>hd_branch = b, hd_page = i, hd_at = at, hd_state = s, hd_owner = own\<rparr>"
    define gs where "gs = filter (\<lambda>h. hd_owner h \<noteq> own) (heads_at db b i)"
    have "(case gs @ [n] of [] \<Rightarrow> None | h # hs \<Rightarrow> Some (hd_state (newest_head h hs))) = Some s"
      using newest_head_last [of "hd gs" n "tl gs"] new
      by (cases gs) (auto simp: n_def gs_def filter_eq_Cons_iff)
    then show ?thesis
      using Some by (auto simp: emit pending_heads heads_at_emit [OF assms] n_def gs_def)
  qed
qed

lemma emit_pages_rows: "db_pages (emit_pages b own es db) = db_pages db"
proof -
  have "db_pages (fold (upsert_head b own at) es db) = db_pages db" for at
    by (induction es arbitrary: db) (simp_all add: upsert_head_def)
  then show ?thesis by (simp add: emit_pages_def)
qed

lemma moved_states_get:
  "moved_states db b changes = Inr es \<Longrightarrow> map fst es = map tc_page changes
     \<and> (\<forall>i. map_of es i = (case requested_change changes i of None \<Rightarrow> None
          | Some c \<Rightarrow> map_option (moved_state c) (loadPageStateWithBranchOverlay db i (Some b))))"
proof (induction changes arbitrary: es)
  case (Cons c cs)
  then obtain base es1 where base: "loadPageStateWithBranchOverlay db (tc_page c) (Some b) = Some base"
      and es1: "moved_states db b cs = Inr es1" "es = (tc_page c, moved_state c base) # es1"
    by (auto simp: result_simps split: option.splits)
  show ?case using Cons.IH [OF es1(1)] base by (auto simp: es1(2) requested_change_def)
qed (simp add: requested_change_def)

lemma one_page_overlay:
  "headOverlay db b (Some [i]) = (case js_get (headOverlay db b None) i of None \<Rightarrow> [] | Some s \<Rightarrow> [(i, s)])"
proof -
  have read: "js_get (headOverlay db b (Some [i])) i = js_get (headOverlay db b None) i" by (simp add: headOverlay_ids)
  have keys: "set (map fst (headOverlay db b (Some [i]))) \<subseteq> {i}" by (auto simp: headOverlay_def Let_def)
  have dist: "distinct (map fst (headOverlay db b (Some [i])))" using headOverlay_ok by (simp add: js_map_ok_def)
  show ?thesis
  proof (cases "headOverlay db b (Some [i])")
    case Nil
    then show ?thesis using read by (simp add: js_get_nil)
  next
    case (Cons e es)
    then have "es = []" using keys dist by (cases es) auto
    then show ?thesis using read keys Cons by (cases e) (auto simp: js_get_cons split: option.splits dest: sym)
  qed
qed

lemma branch_base_state:
  assumes ok: "pages_ok db" and n: "node_in db (Some b) i = Some n" and s: "stored_node db (Some b) i = Some s"
  obtains base where "loadPageStateWithBranchOverlay db i (Some b) = Some base"
    "(case ps_slug base of Some x \<Rightarrow> x | None \<Rightarrow> node_slug s) = node_slug n"
proof (cases "pending_of db (Some b) i")
  case None
  obtain r where r: "r \<in> set (db_pages db)" "pr_id r = i" "s = row_node (raw_node r)"
    using s stored_node_row [OF ok] by blast
  have "find (\<lambda>r. pr_id r = i) (db_pages db) = Some r"
  proof (cases "find (\<lambda>r. pr_id r = i) (db_pages db)")
    case None
    then show ?thesis using r by (auto simp: find_None_iff)
  next
    case (Some q)
    then have "q \<in> set (db_pages db)" "pr_id q = i" by (auto simp: find_Some_iff)
    then have "q = r" using r ok by (auto simp: pages_ok_def distinct_map inj_on_def)
    then show ?thesis using Some by simp
  qed
  moreover have "n = s" using n s None by (simp add: node_in_def)
  ultimately show thesis
    using that [of "\<lparr>ps_slug = Some (pr_slug r), ps_parent = Some (pr_parent r), ps_deleted = pr_deleted r\<rparr>"] None r
    by (simp add: loadPageStateWithBranchOverlay_def one_page_overlay pending_of_def loadPageState_def row_node_def raw_node_def)
next
  case (Some p)
  then have "n = with_pending p s" using n s by (simp add: node_in_def split: if_splits)
  then show thesis
    using that [of p] Some
    by (simp add: loadPageStateWithBranchOverlay_def one_page_overlay pending_of_def with_pending_def split: option.splits)
qed

lemma emitted_trees:
  fixes own :: "string option"
  assumes ok: "pages_ok db" and dist: "distinct (map tc_page changes)" and es: "moved_states db b changes = Inr es"
  defines "db' \<equiv> emit_pages b own es db"
  shows "pages_ok db'" "db_pages db' = db_pages db" "stored_node db' x i = stored_node db x i"
    and "pending_of db' (Some b) i = (if map_of es i \<noteq> None then map_of es i else pending_of db (Some b) i)"
    and "x \<noteq> Some b \<Longrightarrow> js_get (by_id (loadPageTree db' x True)) i = js_get (by_id (loadPageTree db x True)) i"
proof -
  have dk: "distinct (map fst es)" using moved_states_get [OF es] dist by simp
  show rows: "db_pages db' = db_pages db" by (simp add: db'_def emit_pages_rows)
  then show ok': "pages_ok db'" using ok by (simp add: pages_ok_def)
  have stored: "stored_node db' x i = stored_node db x i" for x i by (simp add: stored_node_def rows)
  then show "stored_node db' x i = stored_node db x i" .
  show "pending_of db' (Some b) i = (if map_of es i \<noteq> None then map_of es i else pending_of db (Some b) i)"
    using emitted_pending [OF dk, of b own db b i] by (simp add: pending_of_def db'_def)
  assume "x \<noteq> Some b"
  then have "pending_of db' x i = pending_of db x i"
    using emitted_pending [OF dk, of b own db] by (cases x) (simp_all add: pending_of_def db'_def)
  then show "js_get (by_id (loadPageTree db' x True)) i = js_get (by_id (loadPageTree db x True)) i"
    by (simp add: loadPageTree_get(1) [OF ok] loadPageTree_get(1) [OF ok'] node_in_def stored split: option.splits)
qed

text \<open>A page of the change takes its new slug and parent from the pending state written for
  it, every other page keeps the state it had.\<close>

lemma draft_shows_change:
  assumes ok: "pages_ok db" and checked: "check_changes (loadPageTree db (Some b) True) [] changes = Inr ()"
    and old: "list_all (\<lambda>c. \<not> tc_new c \<and> tc_parent c \<noteq> None) changes"
    and es: "moved_states db b changes = Inr es"
  shows "map_option (\<lambda>n. (node_slug n, node_parent n)) (js_get (by_id (loadPageTree (emit_pages b own es db) (Some b) True)) i)
      = map_option (\<lambda>n. (node_slug n, node_parent n))
          (js_get (by_id (what_if (loadPageTree db (Some b) True) (Some b) changes)) i)"
proof -
  have dist: "distinct (map tc_page changes)" using check_changes_ok [OF checked] by simp
  note out = emitted_trees [OF ok dist es, of own]
  note read = what_if_get [OF dist] loadPageTree_get(1) [OF ok] loadPageTree_get(1) [OF out(1)]
  show ?thesis
  proof (cases "requested_change changes i")
    case None
    then have "map_of es i = None" using moved_states_get [OF es] by simp
    then have "node_in (emit_pages b own es db) (Some b) i = node_in db (Some b) i"
      by (simp add: node_in_def out(3,4) split: option.splits)
    then show ?thesis using None by (simp add: read)
  next
    case (Some c)
    then have c: "c \<in> set changes" "tc_page c = i" using requested_change_Some by blast+
    obtain p where p: "tc_parent c = Some p" using old c(1) by (auto simp: list_all_iff)
    have "js_get (by_id (loadPageTree db (Some b) True)) i \<noteq> None"
      using check_changes_ok [OF checked] c old by (auto simp: list_all_iff)
    then obtain n where n: "node_in db (Some b) i = Some n" by (auto simp: read)
    then obtain s where s: "stored_node db (Some b) i = Some s" using node_in_stored [of db "Some b" i] by auto
    obtain base where base: "loadPageStateWithBranchOverlay db i (Some b) = Some base"
        and slug: "(case ps_slug base of Some x \<Rightarrow> x | None \<Rightarrow> node_slug s) = node_slug n"
      by (rule branch_base_state [OF ok n s])
    have "map_of es i = Some (moved_state c base)" using moved_states_get [OF es] Some base by simp
    then have "node_in (emit_pages b own es db) (Some b) i = Some (with_pending (moved_state c base) s)"
      by (simp add: node_in_def out(3,4) s moved_state_def)
    moreover have "node_slug (with_pending (moved_state c base) s) = node_slug (changed_node (Some b) c (Some n))"
      using slug by (simp add: with_pending_def moved_state_def changed_node_def split: option.splits)
    moreover have "node_parent (with_pending (moved_state c base) s) = node_parent (changed_node (Some b) c (Some n))"
      by (simp add: with_pending_def moved_state_def changed_node_def p)
    ultimately show ?thesis using Some n by (simp add: read)
  qed
qed

text \<open>C19. A move in a chat shows in the chat's draft and nowhere else.  When an accepted plan
  of existing pages, each with a given parent, is executed on a branch and succeeds, no page
  row and no redirect changes; the branch then sees exactly the planned tree (every page's
  slug and parent, and which pages there are), and main and every other branch see what they
  saw.\<close>

theorem draft_moves_show_the_plan:
  assumes ok: "pages_ok (ms_pages st)" and branch: "mc_branch call = Some b"
    and plan: "planPageMoves env d (ms_pages st) (Some b) changes = Inr plan"
    and old: "list_all (\<lambda>c. \<not> tc_new c \<and> tc_parent c \<noteq> None) changes"
    and run: "executePageMoves label parse_url env d call changes choice st = Inr (st', result)"
  shows "db_pages (ms_pages st') = db_pages (ms_pages st) \<and> ms_redirects st' = ms_redirects st
     \<and> (\<forall>i. map_option (\<lambda>n. (node_slug n, node_parent n)) (js_get (by_id (loadPageTree (ms_pages st') (Some b) True)) i)
          = map_option (\<lambda>n. (node_slug n, node_parent n))
              (js_get (by_id (what_if (loadPageTree (ms_pages st) (Some b) True) (Some b) changes)) i))
     \<and> (\<forall>other i. other \<noteq> Some b \<longrightarrow> js_get (by_id (loadPageTree (ms_pages st') other True)) i
          = js_get (by_id (loadPageTree (ms_pages st) other True)) i)"
proof -
  obtain es where es: "moved_states (ms_pages st) b changes = Inr es"
      and st': "ms_pages st' = emit_pages b (mc_owner call) es (ms_pages st)" "ms_redirects st' = ms_redirects st"
    using run by (auto simp: executePageMoves_def branch plan result_simps)
  have checked: "check_changes (loadPageTree (ms_pages st) (Some b) True) [] changes = Inr ()"
    using plan_checks [OF plan] by simp
  then have dist: "distinct (map tc_page changes)" using check_changes_ok by blast
  show ?thesis
    unfolding st' using emitted_trees(2,5) [OF ok dist es] draft_shows_change [OF ok checked old es] by blast
qed

section \<open>Worked examples\<close>

text \<open>The jobs page moves below the about page, on a site whose plugin annotates every page.\<close>

definition noted_env :: url_env where
  "noted_env = \<lparr>ue_registry = \<lparr>ur_by_slot = [], ur_ops = [(''notes'', ''read'')], ur_disabled = []\<rparr>,
     ue_ask = (\<lambda>_ _ _ ids. Inr (Some (map (\<lambda>i. (i, [(''note'', JBool True)])) (js_unique ids))))\<rparr>"

definition main_call :: move_call where
  "main_call = \<lparr>mc_actor = ''u'', mc_branch = None, mc_owner = None,
     mc_lock = (\<lambda>i. \<lparr>lq_kind = Page, lq_entity = i, lq_branch = None, lq_holder = None, lq_now = 0,
        lq_xid = 0, lq_call = None, lq_lease_now = 0, lq_ttl = 1\<rparr>), mc_open = True\<rparr>"

definition renamed_site :: move_state where
  "renamed_site = \<lparr>ms_locks = \<lparr>sessions = [], branch_tag = (\<lambda>_. None), headers = [], next_header = 0, snapshots = [],
       marks = [], locks = [], leases = [], observations = [], takeovers = []\<rparr>,
     ms_pages = renamed_pages,
     ms_redirects = \<lparr>rs_rows = [], rs_static = [], rs_next = 0, rs_now = 0, rs_syncs = 0\<rparr>\<rparr>"

lemma noted_steady:
  "steady_annotator (ue_ask noted_env None) (\<lambda>_ _ i. Some [(''note'', JBool True)])"
proof
  fix plugin oper :: string and ids anns
  assume "ue_ask noted_env None plugin oper ids = Inr (Some anns)"
  then have a: "anns = map (\<lambda>i. (i, [(''note'', JBool True)])) (js_unique ids)" by (simp add: noted_env_def)
  show "js_map_ok anns \<and> (\<forall>i. js_get anns i = (if i \<in> set ids then Some [(''note'', JBool True)] else None))"
    by (simp add: a js_map_ok_def comp_def js_get_def map_of_map_restrict)
qed (simp add: noted_env_def)

lemma accepted_moves_are_stored_witness:
  "\<exists>st' result. executePageMoves (\<lambda>_ _. '''') (\<lambda>_. None) noted_env home_site main_call jobs_move Auto_redirects renamed_site
       = Inr (st', result)
     \<and> stored_ok (ms_pages st') \<and> stored_path (ms_pages st') ''c'' = Some ''/us/careers''
     \<and> stored_path (ms_pages st') ''b'' = Some ''/about/team''"
proof -
  let ?run = "executePageMoves (\<lambda>_ _. '''') (\<lambda>_. None) noted_env home_site main_call jobs_move Auto_redirects renamed_site"
  have "case planPageMoves noted_env home_site (ms_pages renamed_site) None jobs_move of
      Inl _ \<Rightarrow> False | Inr plan \<Rightarrow> pl_paths plan = [(''c'', ''/us/careers'')]" by code_simp
  then obtain plan where plan: "planPageMoves noted_env home_site (ms_pages renamed_site) None jobs_move = Inr plan"
      "pl_paths plan = [(''c'', ''/us/careers'')]"
    by (auto split: sum.splits)
  have "case ?run of Inl _ \<Rightarrow> False | Inr _ \<Rightarrow> True" by code_simp
  then obtain st' result where run: "?run = Inr (st', result)" by (auto split: sum.splits)
  have ok: "stored_ok (ms_pages renamed_site)" by code_simp
  have proper: "proper_tree (loadPageTree (ms_pages renamed_site) None True)" by code_simp
  have old: "list_all (\<lambda>c. \<not> tc_new c) jobs_move" "jobs_move \<noteq> []" by code_simp+
  have main: "mc_branch main_call = None" "\<And>i. lq_branch (mc_lock main_call i) = None" by (simp_all add: main_call_def)
  have held: "stored_path (ms_pages renamed_site) ''b'' = Some ''/about/team''" by code_simp
  have after: "stored_ok (ms_pages st')
      \<and> (\<forall>i. stored_path (ms_pages st') i
            = (case js_get (pl_paths plan) i of Some p \<Rightarrow> Some p | None \<Rightarrow> stored_path (ms_pages renamed_site) i))"
    using accepted_moves_are_stored [OF ok proper plan(1) old main noted_steady, of "\<lambda>_ _. ''''" "\<lambda>_. None" Auto_redirects] run
    by simp
  have "js_get (pl_paths plan) ''c'' = Some ''/us/careers''" "js_get (pl_paths plan) ''b'' = None"
    by (simp_all add: plan(2) js_get_def)
  then show ?thesis using run after held by auto
qed

text \<open>The same move in a chat.\<close>

definition chat_call :: move_call where
  "chat_call = main_call\<lparr>mc_branch := Some ''b1'', mc_owner := Some ''s1''\<rparr>"

lemma draft_moves_show_the_plan_witness:
  "\<exists>st' result. executePageMoves (\<lambda>_ _. '''') (\<lambda>_. None) noted_env home_site chat_call jobs_move Auto_redirects renamed_site
       = Inr (st', result)
     \<and> map_option node_parent (js_get (by_id (loadPageTree (ms_pages st') (Some ''b1'') True)) ''c'') = Some (Some ''a'')
     \<and> map_option node_parent (js_get (by_id (loadPageTree (ms_pages st') None True)) ''c'') = Some None"
proof -
  let ?run = "executePageMoves (\<lambda>_ _. '''') (\<lambda>_. None) noted_env home_site chat_call jobs_move Auto_redirects renamed_site"
  have "case planPageMoves noted_env home_site (ms_pages renamed_site) (Some ''b1'') jobs_move of
      Inl _ \<Rightarrow> False | Inr plan \<Rightarrow> True" by code_simp
  then obtain plan where plan: "planPageMoves noted_env home_site (ms_pages renamed_site) (Some ''b1'') jobs_move = Inr plan"
    by (auto split: sum.splits)
  have "case ?run of Inl _ \<Rightarrow> False | Inr _ \<Rightarrow> True" by code_simp
  then obtain st' result where run: "?run = Inr (st', result)" by (auto split: sum.splits)
  have ok: "pages_ok (ms_pages renamed_site)" by code_simp
  have branch: "mc_branch chat_call = Some ''b1''" by (simp add: chat_call_def)
  have old: "list_all (\<lambda>c. \<not> tc_new c \<and> tc_parent c \<noteq> None) jobs_move" by code_simp
  note shown = draft_moves_show_the_plan [OF ok branch plan old run]
  have planned: "map_option (\<lambda>n. (node_slug n, node_parent n))
      (js_get (by_id (what_if (loadPageTree (ms_pages renamed_site) (Some ''b1'') True) (Some ''b1'') jobs_move)) ''c'')
      = Some (''careers'', Some ''a'')"
    by code_simp
  have before: "map_option node_parent (js_get (by_id (loadPageTree (ms_pages renamed_site) None True)) ''c'') = Some None"
    by code_simp
  have "map_option (\<lambda>n. (node_slug n, node_parent n)) (js_get (by_id (loadPageTree (ms_pages st') (Some ''b1'') True)) ''c'')
      = Some (''careers'', Some ''a'')"
    using shown planned by simp
  then have draft: "map_option node_parent (js_get (by_id (loadPageTree (ms_pages st') (Some ''b1'') True)) ''c'') = Some (Some ''a'')"
    by auto
  have "js_get (by_id (loadPageTree (ms_pages st') None True)) ''c''
      = js_get (by_id (loadPageTree (ms_pages renamed_site) None True)) ''c''"
    using shown by blast
  then have "map_option node_parent (js_get (by_id (loadPageTree (ms_pages st') None True)) ''c'') = Some None"
    using before by (simp only:)
  then show ?thesis using run draft by blast
qed

end
