(* ===== verification/Url_Migration.thy ===== *)
theory Url_Migration
  imports Path_Refresh Page_Moves "HOL-Library.Multiset"
begin

text \<open>
  URL migrations (packages/admin-core/src/ops/content/url_migrations.ts with the approver's
  permission of ops/_approver-permission.ts): the difference between the stored paths of the
  live pages and a fresh composition, kept as a proposal, and its execution once somebody who
  may approve it does.  The order of PostgreSQL's text and the hash of a payload are arguments.
\<close>

section \<open>The approver\<close>

datatype approver_refusal = Not_human "string list" | Lacks_permissions "string list"

definition missingPermissions :: "(string \<Rightarrow> string list) \<Rightarrow> string \<Rightarrow> string list \<Rightarrow> string list" where
  "missingPermissions granted user required = filter (\<lambda>p. p \<notin> set (granted user)) required"

definition approverRefusal ::
  "(string \<Rightarrow> string list) \<Rightarrow> string \<times> string \<Rightarrow> string list \<Rightarrow> approver_refusal option" where
  "approverRefusal granted who required =
     (let (kind, user) = who
      in if kind = ''system'' then None
         else if kind \<noteq> ''human'' then Some (Not_human required)
         else (let missing = missingPermissions granted user required
               in if missing = [] then None else Some (Lacks_permissions missing)))"

definition requiresApproverPermission ::
  "(string \<Rightarrow> string list) \<Rightarrow> string list \<Rightarrow> string \<times> string \<Rightarrow> (approver_refusal \<Rightarrow> 'e)
    \<Rightarrow> ('e, 'a) result \<Rightarrow> ('e, 'a) result" where
  "requiresApproverPermission granted required who refused inner =
     (case approverRefusal granted who required of Some r \<Rightarrow> Inl (refused r) | None \<Rightarrow> inner)"

section \<open>The difference\<close>

record url_diff_entry =
  um_page :: string
  um_slug :: string
  um_from :: string
  um_to :: string

datatype migration_error =
    Migration_composition compose_error
  | No_resolution string
  | No_url_changes
  | Duplicate_proposal
  | Approver_refused approver_refusal
  | Proposal_not_found
  | Proposal_not_pending
  | Page_moved_away string
  | Path_still_held string
  | Redirect_refused redirect_error

fun diff_entries ::
  "(string \<times> string) list \<Rightarrow> page_row list \<Rightarrow> (migration_error, url_diff_entry list) result" where
  "diff_entries fresh [] = Inr []"
| "diff_entries fresh (p # ps) =
     (case js_get fresh (pr_id p) of
        None \<Rightarrow> Inl (No_resolution (pr_id p))
      | Some nxt \<Rightarrow>
          then_result (diff_entries fresh ps) (\<lambda>es.
            Inr (if nxt \<noteq> pr_path p
                 then \<lparr>um_page = pr_id p, um_slug = pr_slug p, um_from = pr_path p, um_to = nxt\<rparr> # es
                 else es)))"

definition live_pages :: "page_db \<Rightarrow> page_row list" where
  "live_pages db = filter (\<lambda>r. \<not> pr_deleted r \<and> pr_branch r = None) (db_pages db)"

definition computeUrlMigrationDiff ::
  "(page_row list \<Rightarrow> page_row list) \<Rightarrow> url_env \<Rightarrow> site_defaults \<Rightarrow> page_db \<Rightarrow> string option
    \<Rightarrow> (migration_error, url_diff_entry list) result" where
  "computeUrlMigrationDiff ordered env d db without =
     (let pages = ordered (live_pages db)
      in case resolveCurrentPathsDryRun env d db (map pr_id pages) None without of
           Inl e \<Rightarrow> Inl (Migration_composition e)
         | Inr fresh \<Rightarrow> diff_entries fresh pages)"

section \<open>Applying it\<close>

text \<open>One row after the other, in the caller's transaction: the row must still have the old
  path, and the new one must be free at that moment.\<close>

definition move_page :: "url_diff_entry \<Rightarrow> page_db \<Rightarrow> (migration_error, page_db) result" where
  "move_page e db =
     (case find (\<lambda>r. pr_id r = um_page e \<and> pr_path r = um_from e) (db_pages db) of
        None \<Rightarrow> Inl (Page_moved_away (um_page e))
      | Some r \<Rightarrow>
          (case update_path (um_page e) (\<lambda>_. um_to e) db of
             Inl p \<Rightarrow> Inl (Path_still_held p)
           | Inr db' \<Rightarrow> Inr db'))"

fun apply_entries ::
  "url_parser \<Rightarrow> string \<Rightarrow> url_diff_entry list \<Rightarrow> page_db \<times> redirect_store \<Rightarrow> nat
    \<Rightarrow> (migration_error, (page_db \<times> redirect_store) \<times> nat) result" where
  "apply_entries parse_url user [] st n = Inr (st, n)"
| "apply_entries parse_url user (e # es) st n =
     then_result (move_page e (fst st)) (\<lambda>db'.
       (case createRedirect parse_url user (um_from e) (um_to e) 301 (snd st) of
          Inl r \<Rightarrow> Inl (Redirect_refused r)
        | Inr (store', _) \<Rightarrow> apply_entries parse_url user es (db', store') (n + 1)))"

definition applyUrlMigrationDiff ::
  "url_parser \<Rightarrow> string \<Rightarrow> url_diff_entry list \<Rightarrow> page_db \<times> redirect_store
    \<Rightarrow> (migration_error, (page_db \<times> redirect_store) \<times> nat) result" where
  "applyUrlMigrationDiff parse_url user diff st = apply_entries parse_url user diff st 0"

section \<open>Proposals\<close>

datatype proposal_status = Status_pending | Status_applied | Status_rejected

record url_proposal =
  up_id :: nat
  up_by :: string
  up_diff :: "url_diff_entry list"
  up_reason :: "string option"
  up_status :: proposal_status
  up_decided_by :: "string option"
  up_decision_reason :: "string option"
  up_created :: nat

record migration_state =
  mg_site :: "page_db \<times> redirect_store"
  mg_proposals :: "url_proposal list"
  mg_next :: nat
  mg_now :: nat

text \<open>A payload is pending once: the partial unique index over its hash.\<close>

definition proposeUrlMigration ::
  "(page_row list \<Rightarrow> page_row list) \<Rightarrow> (url_diff_entry list \<times> string option \<Rightarrow> string) \<Rightarrow> url_env \<Rightarrow> site_defaults
    \<Rightarrow> string \<Rightarrow> string option \<Rightarrow> migration_state \<Rightarrow> (migration_error, migration_state \<times> nat) result" where
  "proposeUrlMigration ordered hash env d user reason st =
     then_result (computeUrlMigrationDiff ordered env d (fst (mg_site st)) None) (\<lambda>diff.
       require (diff \<noteq> []) No_url_changes
         (require (\<not> list_ex (\<lambda>p. up_status p = Status_pending \<and> hash (up_diff p, up_reason p) = hash (diff, reason))
                     (mg_proposals st)) Duplicate_proposal
           (Inr (st\<lparr>mg_proposals := mg_proposals st @
                    [\<lparr>up_id = mg_next st, up_by = user, up_diff = diff, up_reason = reason,
                      up_status = Status_pending, up_decided_by = None, up_decision_reason = None,
                      up_created = mg_now st\<rparr>],
                   mg_next := mg_next st + 1\<rparr>, mg_next st))))"

definition set_proposal :: "nat \<Rightarrow> (url_proposal \<Rightarrow> url_proposal) \<Rightarrow> migration_state \<Rightarrow> migration_state" where
  "set_proposal i f st = st\<lparr>mg_proposals := map (\<lambda>p. if up_id p = i then f p else p) (mg_proposals st)\<rparr>"

definition executeUrlMigration ::
  "(string \<Rightarrow> string list) \<Rightarrow> url_parser \<Rightarrow> string \<times> string \<Rightarrow> nat \<Rightarrow> migration_state
    \<Rightarrow> (migration_error, migration_state \<times> nat \<times> nat) result" where
  "executeUrlMigration granted parse_url who i st =
     requiresApproverPermission granted [''roles.manage''] who Approver_refused
       (case find (\<lambda>p. up_id p = i) (mg_proposals st) of
          None \<Rightarrow> Inl Proposal_not_found
        | Some p \<Rightarrow>
            require (up_status p = Status_pending) Proposal_not_pending
              (then_result (applyUrlMigrationDiff parse_url (snd who) (up_diff p) (mg_site st)) (\<lambda>(site', n).
                 Inr (set_proposal i (\<lambda>p. p\<lparr>up_status := Status_applied, up_decided_by := Some (snd who)\<rparr>)
                        (st\<lparr>mg_site := site'\<rparr>), length (up_diff p), n))))"

definition listUrlMigrationPending :: "nat option \<Rightarrow> migration_state \<Rightarrow> url_proposal list" where
  "listUrlMigrationPending limit st =
     take (case limit of Some n \<Rightarrow> n | None \<Rightarrow> 50)
       (sort_key (\<lambda>p. - int (up_created p)) (filter (\<lambda>p. up_status p = Status_pending) (mg_proposals st)))"

definition rejectUrlMigration ::
  "string \<Rightarrow> string option \<Rightarrow> nat \<Rightarrow> migration_state \<Rightarrow> (migration_error, migration_state) result" where
  "rejectUrlMigration user reason i st =
     require (list_ex (\<lambda>p. up_id p = i \<and> up_status p = Status_pending) (mg_proposals st)) Proposal_not_pending
       (Inr (set_proposal i (\<lambda>p. if up_status p = Status_pending
          then p\<lparr>up_status := Status_rejected, up_decided_by := Some user, up_decision_reason := reason\<rparr> else p) st))"

section \<open>Applying a difference\<close>

definition new_paths :: "url_diff_entry list \<Rightarrow> (string \<times> string) list" where
  "new_paths diff = map (\<lambda>e. (um_page e, um_to e)) diff"

lemma move_page_result:
  assumes ok: "pages_ok db" "paths_unique db" and run: "move_page e db = Inr db'"
  shows "db' = assign_paths [(um_page e, um_to e)] db" "pages_ok db'" "paths_unique db'"
    "stored_path db (um_page e) = Some (um_from e)"
proof -
  obtain r where r: "find (\<lambda>r. pr_id r = um_page e \<and> pr_path r = um_from e) (db_pages db) = Some r"
      and upd: "update_path (um_page e) (\<lambda>_. um_to e) db = Inr db'"
    using run by (auto simp: move_page_def split: option.splits sum.splits)
  have "set_row_path (um_page e) (\<lambda>_. um_to e) = assign_path [(um_page e, um_to e)]"
    by (auto simp: set_row_path_def assign_path_def)
  then show "db' = assign_paths [(um_page e, um_to e)] db"
    using update_path_result [OF ok(1) upd] by (simp add: assign_paths_def)
  show "pages_ok db'" by (rule update_path_other(1) [OF ok(1) upd])
  show "paths_unique db'" by (rule update_keeps_unique [OF ok upd])
  have "r \<in> set (db_pages db) \<and> pr_id r = um_page e \<and> pr_path r = um_from e" using r by (auto simp: find_Some_iff)
  then show "stored_path db (um_page e) = Some (um_from e)" using stored_path_row [OF ok(1)] by blast
qed

lemma assign_paths_Cons:
  "i \<notin> fst ` set cs \<Longrightarrow> assign_paths cs (assign_paths [(i, p)] db) = assign_paths ((i, p) # cs) db"
proof -
  assume i: "i \<notin> fst ` set cs"
  have "assign_path cs (assign_path [(i, p)] r) = assign_path ((i, p) # cs) r" for r
  proof (cases "pr_id r = i")
    case True
    then have "map_of cs i = None" using i by (simp add: map_of_eq_None_iff)
    then show ?thesis using True by (simp add: assign_path_def)
  qed (simp add: assign_path_def)
  then show ?thesis by (simp add: assign_paths_def comp_def)
qed

lemma created_redirect:
  assumes "createRedirect parse_url user fp to code s = Inr (s', i)"
  shows "\<exists>r. lookupRedirect s' fp = Some r \<and> rd_to r = to \<and> rd_status r = code"
    and "p \<noteq> fp \<Longrightarrow> lookupRedirect s' p = lookupRedirect s p"
proof -
  have s': "s' = requestRedirectSync (fst (upsert_redirect user fp to code s))"
    using assms by (auto simp: createRedirect_def result_simps split: option.splits prod.splits)
  have look: "lookupRedirect s' q = lookupRedirect (fst (upsert_redirect user fp to code s)) q" for q
    by (simp add: s' lookupRedirect_def)
  show "\<exists>r. lookupRedirect s' fp = Some r \<and> rd_to r = to \<and> rd_status r = code"
    by (simp add: look upsert_lookup split: option.splits)
  show "p \<noteq> fp \<Longrightarrow> lookupRedirect s' p = lookupRedirect s p" by (simp add: look upsert_lookup)
qed

lemma applied_entries:
  assumes "pages_ok (fst st)" "paths_unique (fst st)" "store_ok (snd st)"
    and "distinct (map um_page diff)" "apply_entries parse_url user diff st n = Inr (st', m)"
  shows "fst st' = assign_paths (new_paths diff) (fst st) \<and> paths_unique (fst st') \<and> store_ok (snd st')
     \<and> m = n + length diff \<and> (\<forall>e \<in> set diff. stored_path (fst st) (um_page e) = Some (um_from e))
     \<and> (\<forall>p. p \<notin> um_from ` set diff \<longrightarrow> lookupRedirect (snd st') p = lookupRedirect (snd st) p)
     \<and> (distinct (map um_from diff) \<longrightarrow> (\<forall>e \<in> set diff. \<exists>r. lookupRedirect (snd st') (um_from e) = Some r
          \<and> rd_to r = um_to e \<and> rd_status r = 301))"
  using assms
proof (induction diff arbitrary: st n)
  case Nil
  have "assign_path [] = (\<lambda>r. r)" by (simp add: fun_eq_iff assign_path_def)
  then show ?case using Nil by (simp add: new_paths_def assign_paths_def)
next
  case (Cons e es)
  obtain db1 store1 i where db1: "move_page e (fst st) = Inr db1"
      and red: "createRedirect parse_url user (um_from e) (um_to e) 301 (snd st) = Inr (store1, i)"
      and rest: "apply_entries parse_url user es (db1, store1) (n + 1) = Inr (st', m)"
  proof -
    obtain db1 where one: "move_page e (fst st) = Inr db1" using Cons.prems(5) by (auto simp: result_simps)
    then show thesis
      using that Cons.prems(5) by (cases "createRedirect parse_url user (um_from e) (um_to e) 301 (snd st)") auto
  qed
  note one = move_page_result [OF Cons.prems(1,2) db1]
  have sok: "store_ok store1" by (rule store_operations_ok(1) [OF Cons.prems(3) red])
  have ih: "fst st' = assign_paths (new_paths es) db1 \<and> paths_unique (fst st') \<and> store_ok (snd st')
     \<and> m = n + 1 + length es \<and> (\<forall>f \<in> set es. stored_path db1 (um_page f) = Some (um_from f))
     \<and> (\<forall>p. p \<notin> um_from ` set es \<longrightarrow> lookupRedirect (snd st') p = lookupRedirect store1 p)
     \<and> (distinct (map um_from es) \<longrightarrow> (\<forall>f \<in> set es. \<exists>r. lookupRedirect (snd st') (um_from f) = Some r
          \<and> rd_to r = um_to f \<and> rd_status r = 301))"
    by (rule Cons.IH [of "(db1, store1)", unfolded fst_conv snd_conv, OF one(2,3) sok _ rest])
      (use Cons.prems(4) in simp)
  have same: "stored_path db1 (um_page f) = stored_path (fst st) (um_page f)" if "f \<in> set es" for f
  proof -
    have "um_page f \<noteq> um_page e" using Cons.prems(4) that by (auto simp: image_iff)
    then show ?thesis by (simp add: one(1) stored_after_assign [OF Cons.prems(1)] split: option.splits)
  qed
  have "fst st' = assign_paths (new_paths (e # es)) (fst st)"
    using ih assign_paths_Cons [of "um_page e" "new_paths es"] Cons.prems(4)
    by (simp add: one(1) new_paths_def image_image)
  moreover have "\<forall>f \<in> set (e # es). stored_path (fst st) (um_page f) = Some (um_from f)"
    using ih one(4) same by simp
  moreover have "lookupRedirect (snd st') p = lookupRedirect (snd st) p" if "p \<notin> um_from ` set (e # es)" for p
    using ih created_redirect(2) [OF red, of p] that by simp
  moreover have "\<exists>r. lookupRedirect (snd st') (um_from f) = Some r \<and> rd_to r = um_to f \<and> rd_status r = 301"
    if "distinct (map um_from (e # es))" "f \<in> set (e # es)" for f
  proof (cases "f = e")
    case True
    have "um_from e \<notin> um_from ` set es" using that(1) by simp
    then show ?thesis using ih created_redirect(1) [OF red] True by simp
  next
    case False
    then show ?thesis using ih that by simp
  qed
  moreover have "m = n + length (e # es)" using ih by simp
  ultimately show ?case using ih by blast
qed

lemma stored_after_new_paths:
  assumes ok: "pages_ok db" and dist: "distinct (map um_page diff)" and e: "e \<in> set diff"
  shows "stored_path (assign_paths (new_paths diff) db) (um_page e) = map_option (\<lambda>_. um_to e) (stored_path db (um_page e))"
proof -
  have "map_of (new_paths diff) (um_page e) = Some (um_to e)"
    using dist e by (intro map_of_is_SomeI) (force simp: new_paths_def comp_def)+
  then show ?thesis by (simp add: stored_after_assign [OF ok] split: option.splits)
qed

lemma stored_outside_new_paths:
  assumes ok: "pages_ok db" and i: "i \<notin> um_page ` set diff"
  shows "stored_path (assign_paths (new_paths diff) db) i = stored_path db i"
proof -
  have "map_of (new_paths diff) i = None" using i by (auto simp: map_of_eq_None_iff new_paths_def)
  then show ?thesis by (simp add: stored_after_assign [OF ok] split: option.splits)
qed

section \<open>The difference, declaratively\<close>

definition moved_entry :: "(string \<times> string) list \<Rightarrow> page_row \<Rightarrow> url_diff_entry" where
  "moved_entry fresh p = \<lparr>um_page = pr_id p, um_slug = pr_slug p, um_from = pr_path p, um_to = the (js_get fresh (pr_id p))\<rparr>"

lemma diff_entries_Inr:
  "diff_entries fresh ps = Inr es \<longleftrightarrow> (\<forall>p \<in> set ps. js_get fresh (pr_id p) \<noteq> None)
     \<and> es = map (moved_entry fresh) (filter (\<lambda>p. js_get fresh (pr_id p) \<noteq> Some (pr_path p)) ps)"
  by (induction ps arbitrary: es) (auto simp: result_simps moved_entry_def split: option.splits)

lemma diff_parts:
  assumes "computeUrlMigrationDiff ordered env d db without = Inr diff"
  obtains fresh where
    "resolveCurrentPathsDryRun env d db (map pr_id (ordered (live_pages db))) None without = Inr fresh"
    "\<forall>p \<in> set (ordered (live_pages db)). js_get fresh (pr_id p) \<noteq> None"
    "diff = map (moved_entry fresh)
       (filter (\<lambda>p. js_get fresh (pr_id p) \<noteq> Some (pr_path p)) (ordered (live_pages db)))"
proof -
  obtain fresh where
    fresh: "resolveCurrentPathsDryRun env d db (map pr_id (ordered (live_pages db))) None without = Inr fresh"
    and es: "diff_entries fresh (ordered (live_pages db)) = Inr diff"
    using assms by (auto simp: computeUrlMigrationDiff_def Let_def split: sum.splits)
  show thesis using that [OF fresh] es unfolding diff_entries_Inr by blast
qed

lemma chain_reads_agree:
  assumes ok: "pages_ok db" and proper: "proper_tree (loadPageTree db b True)" and i: "i \<in> set ids"
  shows "js_get (by_id (fst (loadPageChains db b ids))) i = js_get (by_id (loadPageTree db b True)) i"
    and "js_get (by_id (loadPageTree db b True)) i = Some n
      \<Longrightarrow> ancestorSlugsOf (fst (loadPageChains db b ids)) i = ancestorSlugsOf (loadPageTree db b True) i"
proof -
  show "js_get (by_id (fst (loadPageChains db b ids))) i = js_get (by_id (loadPageTree db b True)) i"
    using chain_nodes_inv(2) [OF ok proper, of i ids] i by (simp add: loadPageChains_parts(1) loadPageTree_get [OF ok])
  assume "js_get (by_id (loadPageTree db b True)) i = Some n"
  then have "node_in db b i = Some n" by (simp add: loadPageTree_get(1) [OF ok])
  then show "ancestorSlugsOf (fst (loadPageChains db b ids)) i = ancestorSlugsOf (loadPageTree db b True) i"
    unfolding loadPageChains_parts(1) using chains_agree(2) [OF ok proper i refl] by blast
qed

text \<open>The composition reads no stored path: after a migration it gives what it gave before.\<close>

lemma composition_ignores_paths:
  assumes ok: "pages_ok db" and proper: "proper_tree (loadPageTree db None True)"
    and steady: "steady_annotator (ue_ask env None) about"
    and fresh: "resolveCurrentPathsDryRun env d db ids None None = Inr fresh"
    and db': "db' = assign_paths cs db" and same: "set ids' = set ids"
  shows "\<exists>fresh'. resolveCurrentPathsDryRun env d db' ids' None None = Inr fresh' \<and> (\<forall>i. js_get fresh' i = js_get fresh i)"
proof (cases "ids = []")
  case True
  then show ?thesis using fresh same by (simp add: resolveCurrentPathsDryRun_def)
next
  case False
  then have some: "ids' \<noteq> []" using same by auto
  define w where "w = fst (loadPageChains db None ids)"
  define u where "u = fst (loadPageChains db' None ids')"
  have ok': "pages_ok db'" using ok pages_ok_map [of "assign_path cs" db] by (simp add: db' assign_paths_def)
  have whole: "loadPageTree db' None True = loadPageTree db None True" by (simp add: db' assigned_tree)
  note w = chain_reads_agree [OF ok proper, of _ ids, folded w_def]
  note u = chain_reads_agree [OF ok' proper [folded whole], of _ ids', folded u_def, unfolded whole same]
  have "composePaths env d db w ids None None = Inr fresh"
    using fresh False by (simp add: resolveCurrentPathsDryRun_def w_def)
  then obtain after where after: "composePathsDetailed env d db w ids None None = Inr after"
      and fresh_is: "fresh = map (\<lambda>e. (fst e, co_path (snd e))) after"
    by (auto simp: composePaths_def result_simps)
  have sets: "set (composableIds u ids') = set (composableIds w ids)"
    using same u(1) w(1) by (auto simp: composableIds_def)
  have alike: "compose_one env u des ann None i = compose_one env w des ann None i"
    if "i \<in> set (composableIds w ids)" for i des ann
  proof -
    have i: "i \<in> set ids" and "js_get (by_id w) i \<noteq> None" using that by (auto simp: composableIds_def)
    then obtain n where n: "js_get (by_id (loadPageTree db None True)) i = Some n" using w(1) by auto
    show ?thesis by (rule compose_one_cong) (use u [OF i] w [OF i] n in simp_all)
  qed
  obtain paths where "composePaths env d db' u ids' None None = Inr paths"
      "\<And>i. js_get paths i = map_option co_path (js_get after i)"
    using composition_again [OF steady after sets alike] by blast
  moreover have "js_get fresh i = map_option co_path (js_get after i)" for i
  proof -
    have "map_of (map (\<lambda>e. (fst e, co_path (snd e))) xs) i = map_option co_path (map_of xs i)" for xs
      by (induction xs) auto
    then show ?thesis by (simp add: fresh_is js_get_def)
  qed
  ultimately show ?thesis using some by (simp add: resolveCurrentPathsDryRun_def u_def)
qed


section \<open>A migration settles every URL\<close>

lemma live_pages_ids:
  assumes "pages_ok db"
  shows "distinct (map pr_id (live_pages db))"
  using assms by (simp add: live_pages_def pages_ok_def distinct_map_filter)

lemma diff_keys:
  assumes ok: "pages_ok db" "paths_unique db" and perm: "mset ps = mset (live_pages db)"
    and diff: "diff = map (moved_entry fresh) (filter P ps)"
  shows "distinct (map um_page diff)" "distinct (map um_from diff)"
proof -
  have set: "set ps = set (live_pages db)" using mset_eq_setD [OF perm] .
  have ids: "distinct (map pr_id ps)"
    using live_pages_ids [OF ok(1)] perm by (metis mset_map mset_eq_imp_distinct_iff)
  then show "distinct (map um_page diff)" by (simp add: diff moved_entry_def comp_def distinct_map_filter)
  have "inj_on pr_path (set ps)"
  proof (rule inj_onI)
    fix q r assume h: "q \<in> set ps" "r \<in> set ps" "pr_path q = pr_path r"
    then have "same_slot q r" by (auto simp: set live_pages_def same_slot_def)
    moreover have "q \<in> set (db_pages db)" "r \<in> set (db_pages db)" using h(1,2) by (auto simp: set live_pages_def)
    ultimately have "pr_id q = pr_id r" using ok(2) unfolding paths_unique_def by blast
    then show "q = r" using ids h(1,2) by (auto simp: distinct_map inj_on_def)
  qed
  then have "distinct (map pr_path (filter P ps))"
    using ids by (auto simp: distinct_map intro: inj_on_subset)
  then show "distinct (map um_from diff)" by (simp add: diff moved_entry_def comp_def)
qed

lemma new_paths_of:
  assumes ids: "distinct (map pr_id ps)" and p: "p \<in> set ps" and got: "js_get fresh (pr_id p) = Some q"
    and diff: "diff = map (moved_entry fresh) (filter (\<lambda>p. js_get fresh (pr_id p) \<noteq> Some (pr_path p)) ps)"
  shows "pr_path (assign_path (new_paths diff) p) = q"
proof (cases "q = pr_path p")
  case True
  have "pr_id p \<notin> fst ` set (new_paths diff)"
  proof
    assume "pr_id p \<in> fst ` set (new_paths diff)"
    then obtain r where r: "r \<in> set ps" "pr_id r = pr_id p" "js_get fresh (pr_id r) \<noteq> Some (pr_path r)"
      by (auto simp: new_paths_def diff moved_entry_def)
    then have "r = p" using ids p by (auto simp: distinct_map inj_on_def)
    then show False using r got True by simp
  qed
  then have "map_of (new_paths diff) (pr_id p) = None" by (simp add: map_of_eq_None_iff)
  then show ?thesis using True by (simp add: assign_path_def)
next
  case False
  have "distinct (map fst (new_paths diff))"
    using ids by (simp add: new_paths_def diff moved_entry_def comp_def distinct_map_filter)
  moreover have "moved_entry fresh p \<in> set diff" using p got False by (simp add: diff)
  then have "(pr_id p, q) \<in> set (new_paths diff)"
    using got by (force simp: new_paths_def moved_entry_def)
  ultimately have "map_of (new_paths diff) (pr_id p) = Some q" by simp
  then show ?thesis by (simp add: assign_path_def)
qed

text \<open>C16. A URL migration settles every URL.  Whatever order the rows come in, when the
  difference of the live pages from their fresh composition is applied, every page of it
  leaves the path it had for the composed one, its old URL answers with a 301 to the new one,
  every other row keeps its path, and computing the difference again finds nothing left.  The
  plugins are asked to answer page by page, and the page tree is proper.\<close>

theorem url_migration_settles:
  assumes ok: "stored_ok db" "store_ok s" and proper: "proper_tree (loadPageTree db None True)"
    and order: "\<And>rows. mset (ordered rows) = mset rows"
    and steady: "steady_annotator (ue_ask env None) about"
    and diff: "computeUrlMigrationDiff ordered env d db None = Inr diff"
    and run: "applyUrlMigrationDiff parse_url user diff (db, s) = Inr ((db', s'), n)"
  shows "n = length diff \<and> computeUrlMigrationDiff ordered env d db' None = Inr []
     \<and> (\<forall>e \<in> set diff. stored_path db (um_page e) = Some (um_from e) \<and> stored_path db' (um_page e) = Some (um_to e)
          \<and> (\<exists>r. lookupRedirect s' (um_from e) = Some r \<and> rd_to r = um_to e \<and> rd_status r = 301))
     \<and> (\<forall>i. i \<notin> um_page ` set diff \<longrightarrow> stored_path db' i = stored_path db i)"
proof -
  have pok: "pages_ok db" and uniq: "paths_unique db" using ok(1) by (simp_all add: stored_ok_def)
  obtain fresh where
    fresh: "resolveCurrentPathsDryRun env d db (map pr_id (ordered (live_pages db))) None None = Inr fresh"
      "\<forall>p \<in> set (ordered (live_pages db)). js_get fresh (pr_id p) \<noteq> None"
    and es: "diff = map (moved_entry fresh)
       (filter (\<lambda>p. js_get fresh (pr_id p) \<noteq> Some (pr_path p)) (ordered (live_pages db)))"
    by (rule diff_parts [OF diff])
  note keys = diff_keys [OF pok uniq order [of "live_pages db"] es]
  have applied: "db' = assign_paths (new_paths diff) db \<and> n = length diff
      \<and> (\<forall>e \<in> set diff. stored_path db (um_page e) = Some (um_from e))
      \<and> (\<forall>e \<in> set diff. \<exists>r. lookupRedirect s' (um_from e) = Some r \<and> rd_to r = um_to e \<and> rd_status r = 301)"
    using applied_entries [of "(db, s)" diff parse_url user 0] run ok(2) pok uniq keys
    by (simp add: applyUrlMigrationDiff_def)
  then have db': "db' = assign_paths (new_paths diff) db" by blast
  have ok': "pages_ok db'" using pok pages_ok_map [of "assign_path (new_paths diff)" db] by (simp add: db' assign_paths_def)
  have pages: "set (ordered (live_pages db)) = set (live_pages db)"
    "set (ordered (live_pages db')) = set (live_pages db')"
    using order by (metis set_mset_mset)+
  have live: "live_pages db' = map (assign_path (new_paths diff)) (live_pages db)"
  proof -
    have "(\<not> pr_deleted (assign_path cs r) \<and> pr_branch (assign_path cs r) = None) = (\<not> pr_deleted r \<and> pr_branch r = None)" for cs r
      by (simp add: assign_path_def split: option.splits)
    then show ?thesis by (simp add: live_pages_def db' assign_paths_def filter_map comp_def)
  qed
  have id: "pr_id (assign_path cs r) = pr_id r" for cs r by (simp add: assign_path_def split: option.splits)
  have "set (map pr_id (ordered (live_pages db'))) = set (map pr_id (ordered (live_pages db)))"
    unfolding set_map pages by (simp add: live image_image id)
  then obtain fresh' where
    fresh': "resolveCurrentPathsDryRun env d db' (map pr_id (ordered (live_pages db'))) None None = Inr fresh'"
      "\<And>i. js_get fresh' i = js_get fresh i"
    using composition_ignores_paths [OF pok proper steady fresh(1) db'] by blast
  have settled: "js_get fresh' (pr_id q) = Some (pr_path q)" if "q \<in> set (ordered (live_pages db'))" for q
  proof -
    have "q \<in> set (live_pages db')" using that pages(2) by simp
    then obtain p where p: "p \<in> set (ordered (live_pages db))" "q = assign_path (new_paths diff) p"
      unfolding live using pages(1) by auto
    obtain x where x: "js_get fresh (pr_id p) = Some x" using fresh(2) p(1) by blast
    have "distinct (map pr_id (ordered (live_pages db)))"
      using live_pages_ids [OF pok] order by (metis mset_map mset_eq_imp_distinct_iff)
    then have "pr_path q = x" unfolding p(2) by (rule new_paths_of [OF _ p(1) x es])
    then show ?thesis using x by (simp add: fresh'(2) p(2) id)
  qed
  then have "computeUrlMigrationDiff ordered env d db' None = Inr []"
    by (simp add: computeUrlMigrationDiff_def Let_def fresh'(1) diff_entries_Inr)
  moreover have "stored_path db' (um_page e) = Some (um_to e)" if "e \<in> set diff" for e
    using applied that by (simp add: db' stored_after_new_paths [OF pok keys(1) that])
  moreover have "stored_path db' i = stored_path db i" if "i \<notin> um_page ` set diff" for i
    unfolding db' by (rule stored_outside_new_paths [OF pok that])
  ultimately show ?thesis using applied by blast
qed

section \<open>A decision is made once, by somebody who may make it\<close>

definition proposals_ok :: "migration_state \<Rightarrow> bool" where
  "proposals_ok st \<longleftrightarrow> distinct (map up_id (mg_proposals st))
     \<and> list_all (\<lambda>p. up_id p < mg_next st \<and> distinct (map um_page (up_diff p))) (mg_proposals st)"

lemma set_proposal_ok:
  assumes "proposals_ok st" "\<And>p. up_id (f p) = up_id p \<and> up_diff (f p) = up_diff p"
  shows "proposals_ok (set_proposal i f st)"
proof -
  have same: "up_id (if up_id p = i then f p else p) = up_id p" "up_diff (if up_id p = i then f p else p) = up_diff p" for p
    using assms(2) by simp_all
  have "map up_id (mg_proposals (set_proposal i f st)) = map up_id (mg_proposals st)"
    by (simp add: set_proposal_def comp_def same)
  moreover have "list_all (\<lambda>p. up_id p < mg_next st \<and> distinct (map um_page (up_diff p))) (mg_proposals (set_proposal i f st))"
    using assms(1) by (simp add: set_proposal_def proposals_ok_def list.pred_map comp_def same)
  moreover have "mg_next (set_proposal i f st) = mg_next st" by (simp add: set_proposal_def)
  ultimately show ?thesis using assms(1) unfolding proposals_ok_def by (simp only:)
qed

lemma execute_parts:
  assumes "executeUrlMigration granted parse_url who i st = Inr (st', moved, n)"
  obtains p site' where "approverRefusal granted who [''roles.manage''] = None"
    "find (\<lambda>p. up_id p = i) (mg_proposals st) = Some p" "up_status p = Status_pending"
    "apply_entries parse_url (snd who) (up_diff p) (mg_site st) 0 = Inr (site', n)" "moved = length (up_diff p)"
    "st' = set_proposal i (\<lambda>p. p\<lparr>up_status := Status_applied, up_decided_by := Some (snd who)\<rparr>) (st\<lparr>mg_site := site'\<rparr>)"
proof -
  have may: "approverRefusal granted who [''roles.manage''] = None"
    using assms by (cases "approverRefusal granted who [''roles.manage'']")
      (simp_all add: executeUrlMigration_def requiresApproverPermission_def)
  obtain p where p: "find (\<lambda>p. up_id p = i) (mg_proposals st) = Some p"
    using assms may by (cases "find (\<lambda>p. up_id p = i) (mg_proposals st)")
      (simp_all add: executeUrlMigration_def requiresApproverPermission_def)
  have pending: "up_status p = Status_pending"
    using assms may p by (cases "up_status p = Status_pending")
      (simp_all add: executeUrlMigration_def requiresApproverPermission_def)
  show thesis
  proof (cases "apply_entries parse_url (snd who) (up_diff p) (mg_site st) 0")
    case (Inl e)
    then show ?thesis using assms may p pending
      by (simp add: executeUrlMigration_def requiresApproverPermission_def applyUrlMigrationDiff_def)
  next
    case (Inr sn)
    then show ?thesis using assms may p pending that [of p "fst sn"]
      by (cases sn) (simp add: executeUrlMigration_def requiresApproverPermission_def applyUrlMigrationDiff_def)
  qed
qed

text \<open>Every operation keeps the ids of the proposals apart, and each page once in a
  proposal.\<close>

lemma proposals_stay_ok:
  assumes ok: "proposals_ok st"
  shows "stored_ok (fst (mg_site st)) \<Longrightarrow> (\<And>rows. mset (ordered rows) = mset rows)
      \<Longrightarrow> proposeUrlMigration ordered hash env d user reason st = Inr (st', i) \<Longrightarrow> proposals_ok st'"
    and "executeUrlMigration granted parse_url who i st = Inr (st', moved, n) \<Longrightarrow> proposals_ok st'"
    and "rejectUrlMigration user reason i st = Inr st' \<Longrightarrow> proposals_ok st'"
proof -
  show "proposals_ok st'" if h: "stored_ok (fst (mg_site st))" "\<And>rows. mset (ordered rows) = mset rows"
      "proposeUrlMigration ordered hash env d user reason st = Inr (st', i)"
  proof -
    obtain diff where diff: "computeUrlMigrationDiff ordered env d (fst (mg_site st)) None = Inr diff"
        and st': "mg_next st' = mg_next st + 1" "mg_proposals st' = mg_proposals st @
           [\<lparr>up_id = mg_next st, up_by = user, up_diff = diff, up_reason = reason,
             up_status = Status_pending, up_decided_by = None, up_decision_reason = None, up_created = mg_now st\<rparr>]"
      using h(3) by (auto simp: proposeUrlMigration_def result_simps)
    obtain fresh where "diff = map (moved_entry fresh)
        (filter (\<lambda>p. js_get fresh (pr_id p) \<noteq> Some (pr_path p)) (ordered (live_pages (fst (mg_site st)))))"
      by (rule diff_parts [OF diff])
    then have "distinct (map um_page diff)"
      using diff_keys(1) [OF _ _ h(2) [of "live_pages (fst (mg_site st))"]] h(1) by (simp add: stored_ok_def)
    moreover have "mg_next st \<notin> up_id ` set (mg_proposals st)" using ok by (auto simp: proposals_ok_def list_all_iff)
    ultimately show ?thesis using ok by (auto simp: proposals_ok_def st' list_all_iff)
  qed
  show "proposals_ok st'" if h: "executeUrlMigration granted parse_url who i st = Inr (st', moved, n)"
  proof -
    obtain site' where "st' = set_proposal i (\<lambda>p. p\<lparr>up_status := Status_applied, up_decided_by := Some (snd who)\<rparr>)
        (st\<lparr>mg_site := site'\<rparr>)"
      by (rule execute_parts [OF h])
    moreover have "proposals_ok (st\<lparr>mg_site := site'\<rparr>)" using ok by (simp add: proposals_ok_def)
    ultimately show ?thesis by (simp add: set_proposal_ok)
  qed
  show "proposals_ok st'" if "rejectUrlMigration user reason i st = Inr st'"
    using that ok by (auto simp: rejectUrlMigration_def result_simps intro!: set_proposal_ok)
qed

lemma find_unique_proposal:
  assumes "proposals_ok st" "find (\<lambda>p. up_id p = i) (mg_proposals st) = Some p"
  shows "p \<in> set (mg_proposals st)" "up_id p = i" "q \<in> set (mg_proposals st) \<Longrightarrow> up_id q = i \<Longrightarrow> q = p"
proof -
  have p: "p \<in> set (mg_proposals st) \<and> up_id p = i" using assms(2) by (auto simp: find_Some_iff)
  then show "p \<in> set (mg_proposals st)" "up_id p = i" by simp_all
  show "q = p" if "q \<in> set (mg_proposals st)" "up_id q = i"
    using that p assms(1) by (auto simp: proposals_ok_def distinct_map inj_on_def)
qed

lemma decided_others:
  "(\<And>p. up_id (f p) = up_id p)
    \<Longrightarrow> filter (\<lambda>p. up_id p \<noteq> i) (map (\<lambda>p. if up_id p = i then f p else p) ps) = filter (\<lambda>p. up_id p \<noteq> i) ps"
  by (induction ps) simp_all

lemma decided_status:
  "(\<And>p. up_id (f p) = up_id p) \<Longrightarrow> (\<And>p. up_status (f p) \<noteq> Status_pending)
    \<Longrightarrow> \<forall>q \<in> set (map (\<lambda>p. if up_id p = i then f p else p) ps). up_id q = i \<longrightarrow> up_status q \<noteq> Status_pending"
  by (induction ps) simp_all

lemma decided_stays_decided:
  assumes "\<forall>p \<in> set (mg_proposals st). up_id p = i \<longrightarrow> up_status p \<noteq> Status_pending"
  shows "\<exists>e. executeUrlMigration granted parse_url who i st = Inl e"
    and "rejectUrlMigration user reason i st = Inl Proposal_not_pending"
proof -
  show "\<exists>e. executeUrlMigration granted parse_url who i st = Inl e"
  proof (cases "find (\<lambda>p. up_id p = i) (mg_proposals st)")
    case None
    then show ?thesis by (simp add: executeUrlMigration_def requiresApproverPermission_def split: option.splits)
  next
    case (Some p)
    then have "p \<in> set (mg_proposals st) \<and> up_id p = i" by (auto simp: find_Some_iff)
    then show ?thesis
      using Some assms by (simp add: executeUrlMigration_def requiresApproverPermission_def split: option.splits)
  qed
  show "rejectUrlMigration user reason i st = Inl Proposal_not_pending"
  proof -
    have "\<not> list_ex (\<lambda>p. up_id p = i \<and> up_status p = Status_pending) (mg_proposals st)"
      using assms by (auto simp: list_ex_iff)
    then show ?thesis by (simp add: rejectUrlMigration_def)
  qed
qed

text \<open>C22. An approved migration does what was approved, once.  When executing a proposal
  succeeds, the approver is the system or a human with the permission roles.manage and the
  proposal was pending; every page of its difference was still at the old path and is now at
  the new one, every other page and every other proposal is as it was, and from then on
  neither executing nor rejecting it succeeds, whoever tries.\<close>

theorem approved_migration_applies_once:
  assumes ok: "stored_ok (fst (mg_site st))" "store_ok (snd (mg_site st))" "proposals_ok st"
    and run: "executeUrlMigration granted parse_url (kind, user) i st = Inr (st', moved, n)"
  shows "(kind = ''system'' \<or> kind = ''human'' \<and> ''roles.manage'' \<in> set (granted user))
     \<and> (\<exists>p. find (\<lambda>p. up_id p = i) (mg_proposals st) = Some p \<and> up_status p = Status_pending
          \<and> moved = length (up_diff p) \<and> n = moved
          \<and> (\<forall>e \<in> set (up_diff p). stored_path (fst (mg_site st)) (um_page e) = Some (um_from e)
               \<and> stored_path (fst (mg_site st')) (um_page e) = Some (um_to e))
          \<and> (\<forall>k. k \<notin> um_page ` set (up_diff p)
               \<longrightarrow> stored_path (fst (mg_site st')) k = stored_path (fst (mg_site st)) k))
     \<and> filter (\<lambda>p. up_id p \<noteq> i) (mg_proposals st') = filter (\<lambda>p. up_id p \<noteq> i) (mg_proposals st)
     \<and> (\<forall>granted' parse_url' who'. \<exists>e. executeUrlMigration granted' parse_url' who' i st' = Inl e)
     \<and> (\<forall>user' reason. rejectUrlMigration user' reason i st' = Inl Proposal_not_pending)"
proof -
  obtain p site' where allowed: "approverRefusal granted (kind, user) [''roles.manage''] = None"
      and p: "find (\<lambda>p. up_id p = i) (mg_proposals st) = Some p" "up_status p = Status_pending"
      and applied: "apply_entries parse_url user (up_diff p) (mg_site st) 0 = Inr (site', n)"
      and moved: "moved = length (up_diff p)"
      and st': "st' = set_proposal i (\<lambda>p. p\<lparr>up_status := Status_applied, up_decided_by := Some user\<rparr>) (st\<lparr>mg_site := site'\<rparr>)"
    by (rule execute_parts [OF run]) simp
  have may: "kind = ''system'' \<or> kind = ''human'' \<and> ''roles.manage'' \<in> set (granted user)"
    using allowed by (auto simp: approverRefusal_def missingPermissions_def Let_def split: if_splits)
  have pok: "pages_ok (fst (mg_site st))" and uniq: "paths_unique (fst (mg_site st))"
    using ok(1) by (simp_all add: stored_ok_def)
  have dist: "distinct (map um_page (up_diff p))"
    using ok(3) find_unique_proposal(1) [OF ok(3) p(1)] by (simp add: proposals_ok_def list_all_iff)
  have out: "fst site' = assign_paths (new_paths (up_diff p)) (fst (mg_site st)) \<and> n = length (up_diff p)
      \<and> (\<forall>e \<in> set (up_diff p). stored_path (fst (mg_site st)) (um_page e) = Some (um_from e))"
    using applied_entries [OF pok uniq ok(2) dist applied] by simp
  then have site: "fst (mg_site st') = assign_paths (new_paths (up_diff p)) (fst (mg_site st))"
    by (simp add: st' set_proposal_def)
  have to: "stored_path (fst (mg_site st')) (um_page e) = Some (um_to e)" if "e \<in> set (up_diff p)" for e
    using out that by (simp add: site stored_after_new_paths [OF pok dist that])
  have rest: "stored_path (fst (mg_site st')) k = stored_path (fst (mg_site st)) k" if "k \<notin> um_page ` set (up_diff p)" for k
    unfolding site by (rule stored_outside_new_paths [OF pok that])
  have ps: "mg_proposals st' = map (\<lambda>p. if up_id p = i then p\<lparr>up_status := Status_applied, up_decided_by := Some user\<rparr> else p)
      (mg_proposals st)"
    by (simp add: st' set_proposal_def)
  have others: "filter (\<lambda>p. up_id p \<noteq> i) (mg_proposals st') = filter (\<lambda>p. up_id p \<noteq> i) (mg_proposals st)"
    unfolding ps by (rule decided_others) simp
  have "\<forall>q \<in> set (mg_proposals st'). up_id q = i \<longrightarrow> up_status q \<noteq> Status_pending"
    unfolding ps by (rule decided_status) simp_all
  note once = decided_stays_decided [OF this]
  show ?thesis using may p moved out to rest others once by blast
qed


section \<open>Worked examples\<close>

text \<open>The slug of the about page was changed behind its URL; the migration moves it and the page
  below it.\<close>

definition open_migration :: migration_state where
  "open_migration = \<lparr>mg_site = (renamed_pages, no_redirects),
     mg_proposals = [\<lparr>up_id = 0, up_by = ''u'',
       up_diff = [\<lparr>um_page = ''a'', um_slug = ''us'', um_from = ''/about'', um_to = ''/us''\<rparr>,
                  \<lparr>um_page = ''b'', um_slug = ''team'', um_from = ''/about/team'', um_to = ''/us/team''\<rparr>],
       up_reason = None, up_status = Status_pending, up_decided_by = None, up_decision_reason = None, up_created = 0\<rparr>],
     mg_next = 1, mg_now = 0\<rparr>"

lemma url_migration_settles_witness:
  "\<exists>diff db' s' n. computeUrlMigrationDiff (\<lambda>rows. rows) noted_env home_site renamed_pages None = Inr diff
     \<and> applyUrlMigrationDiff (\<lambda>_. None) ''u'' diff (renamed_pages, no_redirects) = Inr ((db', s'), n) \<and> n = 2
     \<and> computeUrlMigrationDiff (\<lambda>rows. rows) noted_env home_site db' None = Inr []"
proof -
  let ?diff = "computeUrlMigrationDiff (\<lambda>rows. rows) noted_env home_site renamed_pages None"
  have "case ?diff of Inl _ \<Rightarrow> False
      | Inr diff \<Rightarrow> (case applyUrlMigrationDiff (\<lambda>_. None) ''u'' diff (renamed_pages, no_redirects) of Inl _ \<Rightarrow> False
         | Inr (_, n) \<Rightarrow> n = 2)" by code_simp
  then obtain diff db' s' where run: "?diff = Inr diff"
      "applyUrlMigrationDiff (\<lambda>_. None) ''u'' diff (renamed_pages, no_redirects) = Inr ((db', s'), 2)"
    by (auto split: sum.splits)
  have ok: "stored_ok renamed_pages" "store_ok no_redirects" by code_simp+
  have proper: "proper_tree (loadPageTree renamed_pages None True)" by code_simp
  have same: "\<And>rows. mset rows = mset rows" by simp
  show ?thesis
    using url_migration_settles [where ordered = "\<lambda>rows. rows", OF ok proper same noted_steady run(1,2)] run by blast
qed

lemma approved_migration_applies_once_witness:
  "\<exists>st'. executeUrlMigration (\<lambda>_. [''roles.manage'']) (\<lambda>_. None) (''human'', ''owner'') 0 open_migration = Inr (st', 2, 2)
     \<and> stored_path (fst (mg_site st')) ''b'' = Some ''/us/team''
     \<and> rejectUrlMigration ''owner'' None 0 st' = Inl Proposal_not_pending"
proof -
  let ?run = "executeUrlMigration (\<lambda>_. [''roles.manage'']) (\<lambda>_. None) (''human'', ''owner'') 0 open_migration"
  have "case ?run of Inl _ \<Rightarrow> False | Inr (_, moved, n) \<Rightarrow> moved = 2 \<and> n = 2" by code_simp
  then obtain st' where run: "?run = Inr (st', 2, 2)" by (auto split: sum.splits)
  have ok: "stored_ok (fst (mg_site open_migration))" "store_ok (snd (mg_site open_migration))" "proposals_ok open_migration"
    by code_simp+
  note R = approved_migration_applies_once [OF ok run]
  have p: "find (\<lambda>p. up_id p = 0) (mg_proposals open_migration) = Some (hd (mg_proposals open_migration))"
    by code_simp
  have e: "\<lparr>um_page = ''b'', um_slug = ''team'', um_from = ''/about/team'', um_to = ''/us/team''\<rparr>
      \<in> set (up_diff (hd (mg_proposals open_migration)))"
    by code_simp
  have "stored_path (fst (mg_site st')) ''b'' = Some ''/us/team''" using R p e by fastforce
  then show ?thesis using R run by blast
qed

text \<open>Two pages exchange their paths.  The outcome holds every path once, and the vacating write
  of current-path.ts stores it, but a migration moves one row after the other and is refused at
  the first path that is still held.\<close>

definition exchanged_pages :: page_db where
  "exchanged_pages = renamed_pages\<lparr>db_pages :=
     [site_page ''h'' ''home'' None ''/'', site_page ''a'' ''jobs'' None ''/about'', site_page ''c'' ''about'' None ''/jobs'']\<rparr>"

lemma exchanged_paths_not_migrated:
  "case computeUrlMigrationDiff (\<lambda>rows. rows) plain_env home_site exchanged_pages None of
     Inl _ \<Rightarrow> False
   | Inr diff \<Rightarrow> new_paths diff = [(''a'', ''/jobs''), (''c'', ''/about'')]
       \<and> applyUrlMigrationDiff (\<lambda>_. None) ''u'' diff (exchanged_pages, no_redirects) = Inl (Path_still_held ''/jobs'')
       \<and> applyUrlMigrationDiff (\<lambda>_. None) ''u'' (rev diff) (exchanged_pages, no_redirects) = Inl (Path_still_held ''/about'')
       \<and> writeCurrentPaths (new_paths diff) exchanged_pages = Inr (assign_paths (new_paths diff) exchanged_pages)"
  by code_simp

end
