(* ===== verification/Site_Designations.thy ===== *)
theory Site_Designations
  imports Path_Writes
begin

text \<open>
  The designated home and 404 pages (packages/admin-core/src/ops/content/home-page.ts and
  not-found-page.ts): the two operations over the site's defaults and the rows whose paths they
  recompute.  With the claim of a merge (claimPendingDesignations) and any other change of the
  rows they are the steps of a relation whose reachable states never show one page as both.
\<close>

section \<open>The operations\<close>








section \<open>Steps\<close>




section \<open>Recomputing paths keeps the rows\<close>









section \<open>Home and 404 stay apart\<close>



















end
