(* ===== verification/Scheduler.thy ===== *)
theory Scheduler
  imports Ttl_Lease
begin

text \<open>
  The scheduler (packages/admin-core/src/scheduler/tick.ts and task.ts, with the due-table
  operations of ops/scheduled_tasks.ts): one tick claims each task right before it runs it,
  stops claiming when its budget is spent, and records how the run went.  Times are
  milliseconds.  Both clocks, what a task does and what other ticks do between two statements
  are the environment's.
\<close>

section \<open>The due-table\<close>

datatype task_outcome = Outcome_ok | Outcome_failed

record due_row =
  dr_due :: int
  dr_holder :: "string option"
  dr_until :: "int option"
  dr_started :: "int option"
  dr_finished :: "int option"
  dr_outcome :: "task_outcome option"
  dr_error :: "string option"
  dr_duration :: "int option"

type_synonym due_table = "(string \<times> due_row) list"

definition new_task :: "int \<Rightarrow> due_row" where
  "new_task now = \<lparr>dr_due = now, dr_holder = None, dr_until = None, dr_started = None, dr_finished = None,
     dr_outcome = None, dr_error = None, dr_duration = None\<rparr>"

definition row_due :: "int \<Rightarrow> due_row \<Rightarrow> bool" where
  "row_due now r = (dr_due r \<le> now \<and> (case dr_until r of None \<Rightarrow> True | Some u \<Rightarrow> u \<le> now))"

text \<open>The clock of the check and the clock the lease is stamped with are one in the code,
  the start of the transaction.\<close>

definition claim_task :: "string \<Rightarrow> int \<Rightarrow> int \<Rightarrow> int \<Rightarrow> string \<Rightarrow> due_table \<Rightarrow> bool \<times> due_table" where
  "claim_task key now stamp ttl holder table =
     (let table1 = (if js_get table key = None then js_set key (new_task now) table else table)
      in case js_get table1 key of
           None \<Rightarrow> (False, table1)
         | Some r \<Rightarrow>
             if row_due now r
             then (True, js_set key (r\<lparr>dr_holder := Some holder, dr_until := Some (stamp + ttl),
                                       dr_started := Some stamp\<rparr>) table1)
             else (False, table1))"

definition scheduledTasksClaim :: "int \<Rightarrow> string \<Rightarrow> string \<Rightarrow> int \<Rightarrow> due_table \<Rightarrow> bool \<times> due_table" where
  "scheduledTasksClaim now key holder leaseSeconds = claim_task key now now (1000 * leaseSeconds) holder"

datatype finish_error = Lease_lost | Never_started

datatype next_due = After_seconds int | At int

definition scheduledTasksFinish ::
  "int \<Rightarrow> string \<Rightarrow> string \<Rightarrow> task_outcome \<Rightarrow> string option \<Rightarrow> int \<Rightarrow> next_due \<Rightarrow> due_table
    \<Rightarrow> (finish_error, due_table) result" where
  "scheduledTasksFinish now key holder outcome error duration nxt table =
     (case js_get table key of
        None \<Rightarrow> Inl Lease_lost
      | Some r \<Rightarrow>
          require (dr_holder r = Some holder) Lease_lost
            (case (case nxt of At t \<Rightarrow> Some t
                   | After_seconds n \<Rightarrow> map_option (\<lambda>s. s + 1000 * n) (dr_started r)) of
               None \<Rightarrow> Inl Never_started
             | Some due \<Rightarrow>
                 Inr (js_set key (r\<lparr>dr_due := due, dr_holder := None, dr_until := None, dr_finished := Some now,
                        dr_outcome := Some outcome, dr_error := error, dr_duration := Some duration\<rparr>) table)))"

section \<open>Tasks\<close>

datatype cadence = Every int | Next_after "int \<Rightarrow> int option"

record scheduled_task =
  sc_key :: string
  sc_cadence :: cadence
  sc_lease :: int

definition TASK_DUE_SLACK_SECONDS :: int where "TASK_DUE_SLACK_SECONDS = 60"

definition NO_OCCURRENCE_RECHECK_SECONDS :: int where "NO_OCCURRENCE_RECHECK_SECONDS = 24 * 60 * 60"

definition TICK_BUDGET_MS :: int where "TICK_BUDGET_MS = 4 * 60 * 1000"

definition nextDue :: "scheduled_task \<Rightarrow> int \<Rightarrow> next_due" where
  "nextDue task finishedAt =
     (case sc_cadence task of
        Every n \<Rightarrow> After_seconds (max 0 (n - TASK_DUE_SLACK_SECONDS))
      | Next_after f \<Rightarrow>
          At (case f finishedAt of Some t \<Rightarrow> t | None \<Rightarrow> finishedAt + NO_OCCURRENCE_RECHECK_SECONDS * 1000))"

section \<open>One tick\<close>

datatype run_end = Run_ok "string option" | Run_threw string | Run_timed_out

record tick_env =
  te_now :: "nat \<Rightarrow> int"
  te_db_now :: "nat \<Rightarrow> int"
  te_run :: "string \<Rightarrow> run_end"
  te_others :: "nat \<Rightarrow> due_table \<Rightarrow> due_table"
  te_fails :: "nat \<Rightarrow> bool"

datatype report_outcome = Report_ok | Report_failed | Report_timed_out

datatype task_detail = Summary "string option" | Failure string | Still_running int

record task_report =
  tr_key :: string
  tr_outcome :: report_outcome
  tr_duration :: int
  tr_detail :: task_detail

text \<open>tk_reads and tk_ops count the readings of the process clock and the due-table
  operations so far.\<close>

record tick_state =
  tk_table :: due_table
  tk_reads :: nat
  tk_ops :: nat
  tk_ran :: "task_report list"
  tk_not_due :: nat
  tk_deferred :: "string list"
  tk_logged :: "string list"

datatype tick_error = Claim_failed string

definition report_of :: "scheduled_task \<Rightarrow> run_end \<Rightarrow> int \<Rightarrow> task_report" where
  "report_of task e duration =
     (case e of
        Run_ok d \<Rightarrow> \<lparr>tr_key = sc_key task, tr_outcome = Report_ok, tr_duration = duration,
                       tr_detail = Summary d\<rparr>
      | Run_threw m \<Rightarrow> \<lparr>tr_key = sc_key task, tr_outcome = Report_failed, tr_duration = duration,
                         tr_detail = Failure (take 2000 m)\<rparr>
      | Run_timed_out \<Rightarrow> \<lparr>tr_key = sc_key task, tr_outcome = Report_timed_out, tr_duration = duration,
                           tr_detail = Still_running (sc_lease task)\<rparr>)"

definition finish_task ::
  "tick_env \<Rightarrow> string \<Rightarrow> scheduled_task \<Rightarrow> task_outcome \<Rightarrow> string option \<Rightarrow> int \<Rightarrow> tick_state \<Rightarrow> tick_state" where
  "finish_task env holder task outcome error duration s =
     (let n = tk_ops s; table = te_others env n (tk_table s);
          s1 = s\<lparr>tk_table := table, tk_reads := tk_reads s + 1, tk_ops := n + 1\<rparr>;
          lost = s1\<lparr>tk_logged := tk_logged s @ [sc_key task]\<rparr>
      in if te_fails env n then lost
         else case scheduledTasksFinish (te_db_now env n) (sc_key task) holder outcome error duration
                     (nextDue task (te_now env (tk_reads s))) table of
                Inl _ \<Rightarrow> lost
              | Inr table' \<Rightarrow> s1\<lparr>tk_table := table'\<rparr>)"

definition run_task :: "tick_env \<Rightarrow> string \<Rightarrow> scheduled_task \<Rightarrow> tick_state \<Rightarrow> tick_state" where
  "run_task env holder task s =
     (let t0 = te_now env (tk_reads s);
          e = te_run env (sc_key task);
          duration = max 0 (te_now env (tk_reads s + 1) - t0);
          report = report_of task e duration;
          s1 = s\<lparr>tk_reads := tk_reads s + 2, tk_ran := tk_ran s @ [report]\<rparr>
      in case e of
           Run_timed_out \<Rightarrow> s1\<lparr>tk_logged := tk_logged s1 @ [sc_key task]\<rparr>
         | Run_ok _ \<Rightarrow> finish_task env holder task Outcome_ok None duration s1
         | Run_threw m \<Rightarrow> finish_task env holder task Outcome_failed (Some (take 2000 m)) duration
                            (s1\<lparr>tk_logged := tk_logged s1 @ [sc_key task]\<rparr>))"

definition tick_task ::
  "tick_env \<Rightarrow> string \<Rightarrow> int \<Rightarrow> int \<Rightarrow> scheduled_task \<Rightarrow> tick_state \<Rightarrow> (tick_error, tick_state) result" where
  "tick_task env holder budget started task s =
     (let spent = te_now env (tk_reads s) - started;
          s0 = s\<lparr>tk_reads := tk_reads s + 1\<rparr>
      in if budget \<le> spent then Inr (s0\<lparr>tk_deferred := tk_deferred s @ [sc_key task]\<rparr>)
         else
           (let n = tk_ops s
            in require (\<not> te_fails env n) (Claim_failed (sc_key task))
              (let (claimed, table) = scheduledTasksClaim (te_db_now env n) (sc_key task) holder (sc_lease task)
                     (te_others env n (tk_table s));
                   s1 = s0\<lparr>tk_table := table, tk_ops := n + 1\<rparr>
               in if \<not> claimed then Inr (s1\<lparr>tk_not_due := tk_not_due s + 1\<rparr>)
                  else Inr (run_task env holder task s1))))"

fun tick_tasks ::
  "tick_env \<Rightarrow> string \<Rightarrow> int \<Rightarrow> int \<Rightarrow> scheduled_task list \<Rightarrow> tick_state \<Rightarrow> (tick_error, tick_state) result" where
  "tick_tasks env holder budget started [] s = Inr s"
| "tick_tasks env holder budget started (task # tasks) s =
     then_result (tick_task env holder budget started task s) (tick_tasks env holder budget started tasks)"

definition runSchedulerTick ::
  "tick_env \<Rightarrow> string \<Rightarrow> int option \<Rightarrow> scheduled_task list \<Rightarrow> due_table \<Rightarrow> (tick_error, tick_state) result" where
  "runSchedulerTick env holder budget tasks table =
     tick_tasks env holder (case budget of Some b \<Rightarrow> b | None \<Rightarrow> TICK_BUDGET_MS) (te_now env 0) tasks
       \<lparr>tk_table = table, tk_reads = 1, tk_ops = 0, tk_ran = [], tk_not_due = 0, tk_deferred = [], tk_logged = []\<rparr>"

section \<open>The claim is a lease\<close>

text \<open>The table's constraint, and that a held task was started.\<close>

definition due_row_ok :: "due_row \<Rightarrow> bool" where
  "due_row_ok r = ((dr_holder r = None) = (dr_until r = None) \<and> (dr_holder r = None \<or> dr_started r \<noteq> None))"

definition due_table_ok :: "due_table \<Rightarrow> bool" where
  "due_table_ok table = (js_map_ok table \<and> list_all (\<lambda>e. due_row_ok (snd e)) table)"

definition task_held :: "string \<Rightarrow> due_table \<Rightarrow> string \<Rightarrow> int \<Rightarrow> bool" where
  "task_held key table holder t =
     (case js_get table key of
        None \<Rightarrow> False
      | Some r \<Rightarrow> dr_holder r = Some holder \<and> (case dr_until r of None \<Rightarrow> False | Some u \<Rightarrow> t < u))"

text \<open>Giving a task back, whatever the outcome.\<close>

definition give_back :: "string \<Rightarrow> int \<Rightarrow> task_outcome \<Rightarrow> string option \<Rightarrow> int \<Rightarrow> next_due \<Rightarrow> string \<Rightarrow> due_table \<Rightarrow> due_table" where
  "give_back key now outcome error duration nxt holder table =
     (case scheduledTasksFinish now key holder outcome error duration nxt table of Inl _ \<Rightarrow> table | Inr t \<Rightarrow> t)"

lemma due_table_ok_iff:
  "due_table_ok table \<longleftrightarrow> js_map_ok table \<and> (\<forall>k r. js_get table k = Some r \<longrightarrow> due_row_ok r)"
proof (cases "js_map_ok table")
  case True
  then show ?thesis by (auto simp: due_table_ok_def list_all_iff js_get_in)
qed (simp add: due_table_ok_def)

lemma due_table_ok_set: "due_table_ok table \<Longrightarrow> due_row_ok r \<Longrightarrow> due_table_ok (js_set key r table)"
  by (auto simp: due_table_ok_iff js_map_ok_set js_map_simps)

lemma claim_task_cases:
  obtains (new) "js_get table key = None" "claim_task key now stamp ttl holder table
       = (True, js_set key ((new_task now)\<lparr>dr_holder := Some holder, dr_until := Some (stamp + ttl), dr_started := Some stamp\<rparr>)
            (js_set key (new_task now) table))"
  | (due) r where "js_get table key = Some r" "row_due now r" "claim_task key now stamp ttl holder table
       = (True, js_set key (r\<lparr>dr_holder := Some holder, dr_until := Some (stamp + ttl), dr_started := Some stamp\<rparr>) table)"
  | (busy) r where "js_get table key = Some r" "\<not> row_due now r" "claim_task key now stamp ttl holder table = (False, table)"
proof (cases "js_get table key")
  case None
  have "row_due now (new_task now)" by (simp add: row_due_def new_task_def)
  then show thesis using new None by (simp add: claim_task_def js_map_simps)
next
  case (Some r)
  then show thesis using due [OF Some] busy [OF Some] by (cases "row_due now r") (simp_all add: claim_task_def)
qed

lemma claim_task_get:
  "js_get (snd (claim_task key now stamp ttl holder table)) k =
     (if k \<noteq> key then js_get table k
      else case js_get table key of
             None \<Rightarrow> Some ((new_task now)\<lparr>dr_holder := Some holder, dr_until := Some (stamp + ttl), dr_started := Some stamp\<rparr>)
           | Some r \<Rightarrow> if row_due now r
               then Some (r\<lparr>dr_holder := Some holder, dr_until := Some (stamp + ttl), dr_started := Some stamp\<rparr>) else Some r)"
  "fst (claim_task key now stamp ttl holder table) = (case js_get table key of None \<Rightarrow> True | Some r \<Rightarrow> row_due now r)"
  by (cases rule: claim_task_cases [of table key now stamp ttl holder]; simp add: js_map_simps)+

lemma claim_task_table_ok:
  assumes "due_table_ok table"
  shows "due_table_ok (snd (claim_task key now stamp ttl holder table))"
  using assms
  by (cases rule: claim_task_cases [of table key now stamp ttl holder])
    (auto simp: due_row_ok_def new_task_def intro!: due_table_ok_set)

lemma finish_get:
  assumes "scheduledTasksFinish now key holder outcome error duration nxt table = Inr table'"
  shows "\<exists>r due. js_get table key = Some r \<and> dr_holder r = Some holder
     \<and> (nxt = At due \<or> (\<exists>n s. nxt = After_seconds n \<and> dr_started r = Some s \<and> due = s + 1000 * n))
     \<and> table' = js_set key (r\<lparr>dr_due := due, dr_holder := None, dr_until := None, dr_finished := Some now,
                        dr_outcome := Some outcome, dr_error := error, dr_duration := Some duration\<rparr>) table"
  using assms by (auto simp: scheduledTasksFinish_def result_simps split: option.splits next_due.splits)

lemma give_back_ok: "due_table_ok table \<Longrightarrow> due_table_ok (give_back key now outcome error duration nxt holder table)"
proof (cases "scheduledTasksFinish now key holder outcome error duration nxt table")
  case (Inr table')
  assume "due_table_ok table"
  then show ?thesis using finish_get [OF Inr] Inr by (auto simp: give_back_def due_row_ok_def intro!: due_table_ok_set)
qed (simp add: give_back_def)

lemma give_back_held:
  assumes ok: "due_table_ok table"
  shows "task_held key (give_back key now outcome error duration nxt holder table) g v = (g \<noteq> holder \<and> task_held key table g v)"
proof (cases "js_get table key")
  case None
  then show ?thesis by (simp add: give_back_def scheduledTasksFinish_def task_held_def)
next
  case (Some r)
  show ?thesis
  proof (cases "dr_holder r = Some holder")
    case True
    have "due_row_ok r" using ok Some by (simp add: due_table_ok_iff)
    then obtain s where "dr_started r = Some s" using True by (auto simp: due_row_ok_def)
    then show ?thesis using Some True
      by (cases nxt) (auto simp: give_back_def scheduledTasksFinish_def task_held_def js_map_simps)
  next
    case False
    then show ?thesis using Some by (auto simp: give_back_def scheduledTasksFinish_def task_held_def)
  qed
qed

interpretation task_lease:
  ttl_lease "task_held key" due_table_ok "claim_task key" "give_back key now outcome error duration nxt"
  for key now outcome error duration nxt
proof
  show "h = g" if "due_table_ok s" "task_held key s h t" "task_held key s g u" for s h g t u
    using that by (auto simp: task_held_def split: option.splits)
  show "task_held key s h u" if "task_held key s h t" "u \<le> t" for s h t u
    using that by (auto simp: task_held_def split: option.splits)
  show "due_table_ok (snd (claim_task key t u ttl h s))" if "due_table_ok s" for s t u ttl h
    by (rule claim_task_table_ok [OF that])
  show "due_table_ok (give_back key now outcome error duration nxt h s)" if "due_table_ok s" for s h
    by (rule give_back_ok [OF that])
  show "task_held key (snd (claim_task key t u ttl h s)) g v = task_held key s g v"
    if "due_table_ok s" "\<not> fst (claim_task key t u ttl h s)" for s t u ttl h g v
    using that(2) by (auto simp: task_held_def claim_task_get split: option.splits)
  show "\<not> task_held key s g t" if "due_table_ok s" "fst (claim_task key t u ttl h s)" "g \<noteq> h" for s t u ttl h g
    using that(2) by (auto simp: task_held_def claim_task_get row_due_def split: option.splits)
  show "task_held key (snd (claim_task key t u ttl h s)) h v = (v < u + ttl)"
    if "due_table_ok s" "fst (claim_task key t u ttl h s)" for s t u ttl h v
    using that(2) by (auto simp: task_held_def claim_task_get split: option.splits)
  show "task_held key (give_back key now outcome error duration nxt h s) g v = task_held key s g v"
    if "due_table_ok s" "g \<noteq> h" for s h g v
    using that by (simp add: give_back_held)
  show "\<not> task_held key (give_back key now outcome error duration nxt h s) h v" if "due_table_ok s" for s h v
    using that by (simp add: give_back_held)
qed

section \<open>Other ticks\<close>

text \<open>What another tick does to the table: claim a task, or finish one.\<close>

datatype due_op =
    Claims int string string int
  | Finishes int string string task_outcome "string option" int next_due

fun due_actor :: "due_op \<Rightarrow> string" where
  "due_actor (Claims now key holder secs) = holder"
| "due_actor (Finishes now key holder outcome error duration nxt) = holder"

fun due_clock :: "due_op \<Rightarrow> int" where
  "due_clock (Claims now key holder secs) = now"
| "due_clock (Finishes now key holder outcome error duration nxt) = now"

fun due_apply :: "due_op \<Rightarrow> due_table \<Rightarrow> due_table" where
  "due_apply (Claims now key holder secs) table = snd (scheduledTasksClaim now key holder secs table)"
| "due_apply (Finishes now key holder outcome error duration nxt) table =
     give_back key now outcome error duration nxt holder table"

definition others_are_ticks :: "tick_env \<Rightarrow> string \<Rightarrow> bool" where
  "others_are_ticks env holder \<longleftrightarrow>
     (\<forall>n. \<exists>ops. te_others env n = fold due_apply ops
        \<and> (\<forall>x \<in> set ops. due_actor x \<noteq> holder \<and> due_clock x \<le> te_db_now env n))"

lemma due_apply_ok: "due_table_ok table \<Longrightarrow> due_table_ok (due_apply x table)"
  by (cases x) (simp_all add: scheduledTasksClaim_def claim_task_table_ok give_back_ok)

text \<open>Nobody else touches the row of a task that is held.\<close>

lemma held_row_kept:
  assumes held: "js_get table key = Some r" "dr_holder r = Some holder" "dr_until r = Some u"
    and ok: "due_table_ok table" and x: "due_actor x \<noteq> holder" "due_clock x < u"
  shows "js_get (due_apply x table) key = Some r"
proof (cases x)
  case (Claims now k g secs)
  show ?thesis
  proof (cases "k = key")
    case True
    have "task_held key table holder now" using held x(2) Claims by (simp add: task_held_def)
    then have "\<not> fst (claim_task key now now (1000 * secs) g table)"
      using task_lease.held_not_claimable [OF ok] x(1) Claims by simp
    then show ?thesis using held(1) True by (simp add: Claims scheduledTasksClaim_def claim_task_get)
  qed (use held(1) in \<open>simp add: Claims scheduledTasksClaim_def claim_task_get\<close>)
next
  case (Finishes now k g outcome error duration nxt)
  show ?thesis
  proof (cases "scheduledTasksFinish now k g outcome error duration nxt table")
    case (Inl e)
    then show ?thesis using held(1) by (simp add: Finishes give_back_def)
  next
    case (Inr table')
    then have "k \<noteq> key" using finish_get [OF Inr] held x(1) Finishes by auto
    then show ?thesis using finish_get [OF Inr] Inr held(1) by (auto simp: Finishes give_back_def js_map_simps)
  qed
qed

lemma fold_due_apply_ok: "due_table_ok table \<Longrightarrow> due_table_ok (fold due_apply xs table)"
  by (induction xs arbitrary: table) (simp_all add: due_apply_ok)

lemma held_row_kept_by_all:
  assumes "js_get table key = Some r" "dr_holder r = Some holder" "dr_until r = Some u" "due_table_ok table"
    and "\<forall>x \<in> set xs. due_actor x \<noteq> holder \<and> due_clock x < u"
  shows "js_get (fold due_apply xs table) key = Some r"
  using assms
proof (induction xs arbitrary: table)
  case (Cons x xs)
  then show ?case using held_row_kept [OF Cons.prems(1-4)] due_apply_ok by simp
qed simp

section \<open>A tick\<close>

definition run_outcome :: "run_end \<Rightarrow> task_outcome" where
  "run_outcome e = (case e of Run_ok _ \<Rightarrow> Outcome_ok | _ \<Rightarrow> Outcome_failed)"

text \<open>Every task of a tick is run, found not due or deferred, and the tick itself fails only
  when claiming fails.\<close>

lemma tick_task_accounts:
  assumes "tick_task env holder budget started task s = Inr s'"
  shows "length (tk_ran s') + tk_not_due s' + length (tk_deferred s')
     = Suc (length (tk_ran s) + tk_not_due s + length (tk_deferred s))"
  using assms
  by (auto simp: tick_task_def run_task_def finish_task_def result_simps Let_def
      split: if_splits prod.splits run_end.splits sum.splits)

lemma tick_accounts:
  "tick_tasks env holder budget started tasks s = Inr s' \<Longrightarrow>
     length (tk_ran s') + tk_not_due s' + length (tk_deferred s')
       = length tasks + length (tk_ran s) + tk_not_due s + length (tk_deferred s)"
proof (induction tasks arbitrary: s)
  case (Cons task tasks)
  then obtain s1 where one: "tick_task env holder budget started task s = Inr s1"
      "tick_tasks env holder budget started tasks s1 = Inr s'"
    by (auto simp: result_simps)
  show ?case using Cons.IH [OF one(2)] tick_task_accounts [OF one(1)] by simp
qed simp

lemma others_keep_ok: "others_are_ticks env holder \<Longrightarrow> due_table_ok table \<Longrightarrow> due_table_ok (te_others env n table)"
  unfolding others_are_ticks_def by (metis fold_due_apply_ok)

lemma granted_row:
  assumes "fst (claim_task key now now ttl holder table)"
  obtains r where "js_get (snd (claim_task key now now ttl holder table)) key = Some r" "dr_holder r = Some holder"
    "dr_until r = Some (now + ttl)" "dr_started r = Some now"
  using assms by (auto simp: claim_task_get split: option.splits)

text \<open>C27. A run that ends within its lease is recorded, whatever other ticks do.  When a tick
  ran a task and the run ended, well or badly, before the lease it took expired, and the
  database answers, then whatever other ticks claimed and finished in between: the due-table
  has the outcome under the time this tick started the run, the lease is free, and the task is
  next due a cadence after that start (less the slack), or at its next occurrence.\<close>

theorem run_within_lease_is_recorded:
  assumes ok: "due_table_ok (tk_table s)" and others: "others_are_ticks env holder"
    and tick: "tick_task env holder budget started task s = Inr s'"
    and ran: "tk_ran s' \<noteq> tk_ran s" and ended: "te_run env (sc_key task) \<noteq> Run_timed_out"
    and time: "te_db_now env (tk_ops s + 1) < te_db_now env (tk_ops s) + 1000 * sc_lease task"
    and answers: "\<not> te_fails env (tk_ops s + 1)"
  shows "\<exists>r. js_get (tk_table s') (sc_key task) = Some r \<and> dr_holder r = None \<and> dr_until r = None
     \<and> dr_started r = Some (te_db_now env (tk_ops s)) \<and> dr_outcome r = Some (run_outcome (te_run env (sc_key task)))
     \<and> dr_due r = (case sc_cadence task of
          Every n \<Rightarrow> te_db_now env (tk_ops s) + 1000 * max 0 (n - 60)
        | Next_after f \<Rightarrow> (let t = te_now env (tk_reads s + 3)
                            in case f t of Some u \<Rightarrow> u | None \<Rightarrow> t + 86400000))"
proof -
  define n where "n = tk_ops s"
  define key where "key = sc_key task"
  define table where "table = te_others env n (tk_table s)"
  obtain claimed table1 where claim: "scheduledTasksClaim (te_db_now env n) key holder (sc_lease task) table = (claimed, table1)"
    by (cases "scheduledTasksClaim (te_db_now env n) key holder (sc_lease task) table")
  define s1 where "s1 = s\<lparr>tk_reads := tk_reads s + 1, tk_table := table1, tk_ops := n + 1\<rparr>"
  have got: "claimed" and s': "s' = run_task env holder task s1"
    using tick ran claim by (auto simp: tick_task_def result_simps n_def key_def table_def s1_def Let_def
        split: if_splits)
  obtain r1 where r1: "js_get table1 key = Some r1" "dr_holder r1 = Some holder"
      "dr_until r1 = Some (te_db_now env n + 1000 * sc_lease task)" "dr_started r1 = Some (te_db_now env n)"
    using claim got granted_row [of key "te_db_now env n" "1000 * sc_lease task" holder table]
    by (auto simp: scheduledTasksClaim_def)
  have ok1: "due_table_ok table1"
    using claim claim_task_table_ok [OF others_keep_ok [OF others ok], of key "te_db_now env n" "te_db_now env n"
        "1000 * sc_lease task" holder n]
    by (simp add: scheduledTasksClaim_def table_def)
  obtain ops where ops: "te_others env (n + 1) = fold due_apply ops"
      "\<forall>x \<in> set ops. due_actor x \<noteq> holder \<and> due_clock x \<le> te_db_now env (n + 1)"
    using others unfolding others_are_ticks_def by blast
  have kept: "js_get (te_others env (n + 1) table1) key = Some r1"
    unfolding ops(1) by (rule held_row_kept_by_all [OF r1(1-3) ok1]) (use ops(2) time in \<open>fastforce simp: n_def\<close>)
  show ?thesis
    using kept r1 ended answers
    by (cases "te_run env key"; cases "sc_cadence task")
      (auto simp: s' run_task_def finish_task_def Let_def s1_def key_def [symmetric] n_def scheduledTasksFinish_def
        nextDue_def run_outcome_def TASK_DUE_SLACK_SECONDS_def NO_OCCURRENCE_RECHECK_SECONDS_def js_map_simps
        numeral_3_eq_3 split: option.splits)
qed

text \<open>Another tick tries the same task while this one runs it.\<close>

definition mail_task :: scheduled_task where
  "mail_task = \<lparr>sc_key = ''core:mail'', sc_cadence = Every 300, sc_lease = 600\<rparr>"

definition rival :: due_op where
  "rival = Claims 2000 ''core:mail'' ''t2'' 600"

definition two_ticks :: tick_env where
  "two_ticks = \<lparr>te_now = (\<lambda>n. 1000 * int n), te_db_now = (\<lambda>n. 1000 + 5000 * int n),
     te_run = (\<lambda>_. Run_threw ''smtp down''),
     te_others = (\<lambda>n. if n = 1 then due_apply rival else (\<lambda>table. table)), te_fails = (\<lambda>_. False)\<rparr>"

definition first_tick :: tick_state where
  "first_tick = \<lparr>tk_table = [], tk_reads = 1, tk_ops = 0, tk_ran = [], tk_not_due = 0, tk_deferred = [], tk_logged = []\<rparr>"

lemma run_within_lease_is_recorded_witness:
  "\<exists>s' r. tick_task two_ticks ''t1'' TICK_BUDGET_MS 0 mail_task first_tick = Inr s'
     \<and> js_get (tk_table s') ''core:mail'' = Some r \<and> dr_holder r = None
     \<and> dr_outcome r = Some Outcome_failed \<and> dr_due r = 241000"
proof -
  let ?run = "tick_task two_ticks ''t1'' TICK_BUDGET_MS 0 mail_task first_tick"
  have "case ?run of Inl _ \<Rightarrow> False | Inr s' \<Rightarrow> length (tk_ran s') = 1" by code_simp
  then obtain s' where run: "?run = Inr s'" "length (tk_ran s') = 1" by (auto split: sum.splits)
  have ok: "due_table_ok (tk_table first_tick)" by code_simp
  have others: "others_are_ticks two_ticks ''t1''"
    unfolding others_are_ticks_def
  proof
    fix n
    show "\<exists>ops. te_others two_ticks n = fold due_apply ops
        \<and> (\<forall>x \<in> set ops. due_actor x \<noteq> ''t1'' \<and> due_clock x \<le> te_db_now two_ticks n)"
    proof (cases "n = 1")
      case True
      then show ?thesis by (intro exI [of _ "[rival]"]) (simp add: two_ticks_def rival_def)
    next
      case False
      then show ?thesis by (intro exI [of _ "[]"]) (simp add: two_ticks_def id_def)
    qed
  qed
  have ran: "tk_ran s' \<noteq> tk_ran first_tick" using run(2) by (auto simp: first_tick_def)
  have ended: "te_run two_ticks (sc_key mail_task) \<noteq> Run_timed_out" by (simp add: two_ticks_def)
  have time: "te_db_now two_ticks (tk_ops first_tick + 1) < te_db_now two_ticks (tk_ops first_tick) + 1000 * sc_lease mail_task"
    and answers: "\<not> te_fails two_ticks (tk_ops first_tick + 1)"
    by code_simp+
  show ?thesis
    using run_within_lease_is_recorded [OF ok others run(1) ran ended time answers] run(1)
    by (auto simp: mail_task_def two_ticks_def first_tick_def run_outcome_def)
qed

end
