(* ===== verification/Spec2Isabelle.thy ===== *)
theory Spec2Isabelle
  imports Caelo_Prelude Pool_Budget Versions Auto_Update Urls Redirect_Target Redirect_Plan
    Entity_Leases Deploy_Leases Query_Errors Branch_Access Pool_Guard Post_Commit Transactions
    Operations Execute Entity_Refs Lock_Takeover Locks History_Relocation Rate_Limits Published_Cache
    Client_Address Consumer_Loop Locale_Urls Url_Migration
    Site_Designations Scheduler
begin

text \<open>
  A verification development for caelo-cms, a content management system written in
  TypeScript.

  \<^bold>\<open>The program.\<close>  The admin (apps/admin with packages/admin-core) edits a site through
  operations.  Every operation, whoever calls it, runs through the Query API
  (packages/query-api): a registry of operations and an adapter that owns the pools of
  two databases, the transactions, the audit and the effects run after a commit.  Work in a chat
  goes to a branch of the content, a shared draft or a chat's own; entity locks and leases keep
  concurrent chats and their tasks from overwriting each other.  Pages form a tree, and a page's
  URL is composed from its ancestors' slugs and from what plugins contribute
  (packages/plugin-host); the composed path is stored, unique per branch, and a page that moves
  leaves redirects behind.  Committed changes are journalled for the plugins' change consumers
  and announced to the public gateway (apps/api-gateway), which keeps copies of published state
  and limits the rate of its clients.  Publishing takes a lease, builds the site and writes a
  redirect plan every serving layer answers from.  Installs share one PostgreSQL server by a
  connection budget and upgrade themselves by a policy.

  \<^bold>\<open>Conventions.\<close>  Definitions carry the source's names, with a suffix where HOL has the name;
  an object or a table row is a record, a tagged union a datatype, a Map or a Set of JavaScript
  an insertion-ordered association list or list without repetition (Caelo_Prelude, with its laws
  as the locale keyed_store).  Errors are values of (error, 'a) result, Inl the throw, and every
  raise, refusal and early return is a branch.  Strings are lists of 8-bit characters, numbers
  integers or naturals where the source's doubles hold integers in use, times integers of
  milliseconds (microseconds for timestamps of the lock tables).  Database state is explicit and
  threaded through; one SQL statement is one function on it.  What is not in the repository, or
  belongs to PostgreSQL, to the JavaScript runtime or to a plugin, is an argument: the URL
  parser, the time zone database, ILIKE, keyed hashes, clock readings, the answers of plugin
  operations, what a handler does.  Where a theorem needs a law of such an argument the law is a
  named hypothesis or a locale, and a witness applies the theorem to a concrete instance.

  \<^bold>\<open>Foundations.\<close>
  \<^item> Caelo_Prelude: results and their collection result_simps, JavaScript maps, decimal
    numerals.  Js_Strings: prefixes, case, trimming, splitting and joining.
  \<^item> Ttl_Lease: the contract of a lease that expires, as the locales ttl_lease and
    renewable_lease; from it, two holders never overlap and nobody takes a lease before it
    expires.  Interpreted by the entity leases, the deploy leases and the
    scheduler's claims.

  \<^bold>\<open>Query API\<close> (packages/query-api/src).
  \<^item> Query_Errors (errors.ts, pg-failure.ts, part of adapter.ts): the tagged errors, and what a
    thrown driver error becomes.
  \<^item> Branch_Access (branch-access.ts): the branches a call names, the shape of their ids, the
    request's memory of verdicts and the gate.
  \<^item> Pool_Guard (pool-guard.ts, adapter.ts): the plan of each checkout in a call chain; a chain
    started outside a transaction holds at most one connection of each pool (C24).
  \<^item> Post_Commit (post-commit.ts) and Transactions (adapter.ts, statement-tag.ts, audit.ts):
    collected effects, a transaction of its own, and a call joined as a savepoint.  The locale
    atomic_scope states that a scope leaves the databases as they were unless it succeeds; both
    kinds of scope are interpretations.
  \<^item> Operations (adapter.ts, operation.ts): the body of an operation, its answer, follow-ups,
    short reads and detached operations: an ok answer means everything was done (C3), a not-ok
    answer never hides a durable change (C18), a joined call gives the holder back its identity
    and effects (C33), a hidden branch is not found and nothing but the request's memory of
    verdicts changes (C28).
  \<^item> Execute (execute.ts, registry.ts): lookup, checks and dispatch.
  \<^item> Change_Journal, Journal_Marks, Journal_Delivery (change-journal.ts): rows with their
    transaction ids, snapshots with ids in flight, the mark that proves a cached read fresh (C9),
    garbage collection, consumers with cursors, pages, rebuilds and claims.  A step relation of
    instances that begin, write, commit, poll and collect shows that no change is skipped (C5) and
    that collection spares a reader or tells it (C32).

  \<^bold>\<open>Chats, locks and leases\<close> (packages/admin-core/src).
  \<^item> Entity_Leases (entity-leases.ts) and Deploy_Leases (deploy/deploy-lease.ts,
    live-release-lock.ts, staging-publication-lock.ts, deploy-run-lock.ts): claims, renewals and
    releases, protected until they expire (C1).
  \<^item> Entity_Refs (entity-refs.ts): the rows a snapshot state points at.  Lock_Takeover
    (lock-takeover.ts): adopting another chat's change loses nothing (C25).
  \<^item> Locks (locks.ts, tool-call-version.ts): the check of every guarded write, observations of
    reads, refusals and releases (C14).
  \<^item> History_Repair, History_Pairing, History_Assemblies, History_Relocation (ai/chat-runner/history-repair.ts):
    the two passes over a replayed history; afterwards calls and results, those inside assistant
    assemblies too, are paired (C10) and results stand behind their calls.

  \<^bold>\<open>Page URLs\<close> (packages/admin-core/src/ops/content and packages/plugin-host/src).
  \<^item> Page_Tree and Page_Tree_Reads (page-tree.ts): the tree of one scope with a branch's pending
    pages, ancestor chains, subtrees, drifted pages, and the level-by-level reads that never load
    the whole tree.  The relations climbs and below say what a chain and a subtree are; the walks
    with their seen sets decide them on every tree (C29), the partial reads agree with the whole
    tree.
  \<^item> Url_Composition (plugin-host url-composition.ts): slots, claim rules, composing and reading
    back, annotations.  The locale page_annotator is the law that an annotation operation answers
    page by page, steady_annotator that it answers every list of pages.
  \<^item> Locale_Urls (plugins/international-site url.ts): the plugin's contributions; what composed paths
    read back as (C12), and the interpretations of prefix_code and steady_annotator.
  \<^item> Compose_Paths (compose-paths.ts): the path of each page of a tree.
  \<^item> Redirect_Store (ops/redirects.ts) and Path_Effects (path-moves.ts): the redirects table and
    what a set of moves does to it; old URLs reach their pages in one hop (C15).
  \<^item> Path_Writes (current-path.ts): the unique index, vacate and claim as one simultaneous
    assignment (C4), and the recompute that stores what the whole tree composes (C6).
  \<^item> Path_Refresh (current-path.ts): the refresh of one page and the recomposition after a merge;
    neither moves a page that waits for an approved URL migration (C17, C21).
  \<^item> Url_Migration (url_migrations.ts, ops/_approver-permission.ts): the difference between stored
    and composed paths, proposed, approved and applied; afterwards nothing is left to migrate
    (C16), and an approval is carried out once (C22).
  \<^item> Page_Move_Plan and Page_Moves (page-move-plan.ts, page-moves.ts): planning on a what-if tree
    keeps the tree proper and its paths free (C8, C13); an accepted plan on main goes through and
    stores the planned paths (C2), on a branch it shows in that branch only (C19).
  \<^item> Site_Designations (home-page.ts, not-found-page.ts): whatever sequence of calls, merges and
    row changes, no page is the homepage and the 404 page at once, and the page at the root does
    not become the 404 page (C23).

  \<^bold>\<open>Redirects and serving.\<close>
  \<^item> Urls, Redirect_Target, Redirect_Plan (packages/shared/src url.ts, redirect-target.ts,
    redirect-plan.ts): which targets are accepted, row normalisation, collapse of chains: no open
    redirect (C7), one hop (C11), and loops are reported exactly (C39).
  \<^item> Published_Cache (api-gateway published-changes.ts, rate-limit.ts, part of server.ts): the
    subscription, its generation and the copies it guards as a step relation in which publishes,
    lost connections and reads in flight interleave (C30, C36).
  \<^item> Client_Address (shared client-address.ts, gateway client-ip.ts) and Rate_Limits
    (memory-limiter.ts, rate-limit.ts, admin-core rate-limit.ts): the key of a client (C34), the
    bounded map of buckets refines one bucket per key (C38), and the two database limits are
    interpretations of the locale fixed_window (C40).

  \<^bold>\<open>Consumers, installs and upgrades.\<close>
  \<^item> Change_Consumers and Consumer_Loop (plugin-host change-consumers.ts): one drain delivers each
    change once (C20); the wake-up loop retries a failing consumer after a doubled, capped
    delay (C26).
  \<^item> Scheduler (admin-core scheduler/tick.ts, task.ts, ops/scheduled_tasks.ts): a tick accounts for
    every task, and a run that ends within its lease is recorded whatever other ticks do
    (C27).
  \<^item> Pool_Budget (shared pool-budget.ts): no mix of instances within the limits opens more
    connections than the server has (C35).
  \<^item> Versions, Auto_Update (shared version.ts, platform-updates.ts, auto-update.ts): comparisons
    as strict orders, and the decision to install (C37).

  \<^bold>\<open>Bounds and fuel.\<close>
  \<^item> MAX_PAGE_DEPTH is the source's 6.  The read of ancestor chains takes seven levels and the read of
    a subtree six, as the source's loops do; chains_fit and subtree_inv show that this is enough
    for every page of a tree whose pages are at most six levels deep (proper_tree), which an
    accepted move preserves.
  \<^item> Nested step-wise calls (Execute) take fuel: in a registry whose operations only call
    operations of a lower rank, every fuel above the rank of the call gives the same result.
  \<^item> The wait for a lease's row lock (Deploy_Leases) takes fuel, one unit for each time another
    transaction held the row; the source waits without a bound.
  \<^item> All other loops are structural or have a measure.

  \<^bold>\<open>Not modelled.\<close>  Input schemas and audit rows of the single operations, texts of messages (kept
  as constructors with their values), and the parts of the system whose work is SQL over their own
  tables, HTML and CSS text, calls to cloud or AI services, the file system or user interface:
  content editing beyond page moves, snapshots and merges as a whole, lists and links, templates
  and preview, the static generator, publishers, provisioning, plugin loading and storage, the
  other plugins, imports, media and themes, quality checks, accounts and approvals, the MCP
  services and the admin's pages.  The transactions of several sessions are steps of one sequence
  where a lock orders them; the interleavings modelled are those of the journal, the published
  copies, the change consumers and the leases.

  \<^bold>\<open>What modelling showed.\<close>  The two comparisons of release versions disagree on prereleases
  (Versions); an operation that answers with an error of its own commits what it changed in the
  published state without publishing it (Operations); a draft change whose transaction began
  before another chat's read and committed after it is never reported stale (Locks); the limit
  called a sliding window is a fixed one (Rate_Limits); a declared limit read before a publish can
  be kept after it (Published_Cache); a plugin enabled again stands beside one that claimed
  full-path (Url_Composition); a bare path that starts with a locale's code reads back as that
  locale's page (Locale_Urls); a redirect stored with a trailing slash is not collapsed by a move
  (Path_Effects); a URL migration in which a page takes a path another page leaves later fails on
  the unique index (Url_Migration).  A lemma of the named theory proves each of the model.
\<close>

end
